(* ===== verification/Prelude.thy ===== *)
theory Prelude
  imports Main "HOL-Library.Word"
begin

text \<open>
  Vocabulary shared by the whole development: the machine integer types of the
  C and C++ sources, the ways a piece of code can fail to return (as values of
  \<open>fault\<close>), the sequencing of fallible operations, the collections that drive
  the component proofs and the generic facts on lists, maps and words.
\<close>

section \<open>Machine integers\<close>

type_synonym u8 = "8 word"
type_synonym u16 = "16 word"
type_synonym u32 = "32 word"
type_synonym u64 = "64 word"
type_synonym addr = u32

section \<open>Outcomes\<close>

text \<open>
  \<open>FExit c\<close>: the simulator process leaves through \<open>exit(c)\<close>.
  \<open>FAbort\<close>: the application called \<open>abort()\<close>.
  \<open>FSpin\<close>: a busy-wait loop whose exit condition does not hold while the
  operation runs alone (a lock that is taken).
  \<open>FUndef\<close>: the access is outside the object it is meant for, which C and C++
  leave undefined.
\<close>

datatype fault = FExit nat | FAbort | FSpin | FUndef

type_synonym 'a res = "fault + 'a"

fun res_bind :: "'a res \<Rightarrow> ('a \<Rightarrow> 'b res) \<Rightarrow> 'b res" where
  "res_bind (Inl e) f = Inl e"
| "res_bind (Inr x) f = f x"

definition require :: "bool \<Rightarrow> fault \<Rightarrow> unit res" where
  "require b e = (if b then Inr () else Inl e)"

fun res_map :: "('a \<Rightarrow> 'b) \<Rightarrow> 'a res \<Rightarrow> 'b res" where
  "res_map f (Inl e) = Inl e"
| "res_map f (Inr x) = Inr (f x)"

named_theorems address_simps \<open>the constants of the memory map\<close>
named_theorems step_simps \<open>the operations of a component, unfolded in one sweep\<close>

lemma res_bind_eq_Inr [simp]:
  "res_bind m f = Inr y \<longleftrightarrow> (\<exists>x. m = Inr x \<and> f x = Inr y)"
  by (cases m) auto

lemma res_bind_eq_Inl:
  "res_bind m f = Inl e \<longleftrightarrow> m = Inl e \<or> (\<exists>x. m = Inr x \<and> f x = Inl e)"
  by (cases m) auto

lemma res_bind_assoc: "res_bind (res_bind m f) g = res_bind m (\<lambda>x. res_bind (f x) g)"
  by (cases m) auto

lemma require_eq [simp]:
  "require b e = Inr u \<longleftrightarrow> b"
  "require b e = Inl e' \<longleftrightarrow> \<not> b \<and> e' = e"
  "require True e = Inr ()"
  "require False e = Inl e"
  by (auto simp: require_def)

lemma res_map_eq [simp]:
  "res_map f m = Inr y \<longleftrightarrow> (\<exists>x. m = Inr x \<and> y = f x)"
  "res_map f m = Inl e \<longleftrightarrow> m = Inl e"
  by (cases m; auto)+

section \<open>Words\<close>

lemma unat_add_no_wrap:
  fixes a b :: "'a::len word"
  assumes "unat a + unat b < 2 ^ LENGTH('a)"
  shows "unat (a + b) = unat a + unat b"
  using assms by (simp add: unat_word_ariths)

lemma unat_of_nat32: "n < 4294967296 \<Longrightarrow> unat (word_of_nat n :: u32) = n"
  by (simp add: unat_of_nat)

lemma word_le_unat: "(a :: 'a::len word) \<le> b \<longleftrightarrow> unat a \<le> unat b"
  by (simp add: word_le_nat_alt)

lemma word_less_unat: "(a :: 'a::len word) < b \<longleftrightarrow> unat a < unat b"
  by (simp add: word_less_nat_alt)

lemma unat_ucast_le:
  fixes w :: "'a::len word"
  assumes "LENGTH('a) \<le> LENGTH('b::len)"
  shows "unat (ucast w :: 'b word) = unat w"
proof -
  have "unat w < 2 ^ LENGTH('a)" by (rule unsigned_less)
  also have "\<dots> \<le> 2 ^ LENGTH('b)" using assms by simp
  finally show ?thesis
    by (simp add: unsigned_ucast_eq unsigned_take_bit_eq take_bit_nat_eq_self)
qed

section \<open>Signed 32-bit arithmetic\<close>

definition in_s32 :: "int \<Rightarrow> bool" where
  "in_s32 k \<longleftrightarrow> - 2147483648 \<le> k \<and> k < 2147483648"

lemma sint_in_s32 [simp]: "in_s32 (sint (w :: u32))"
  using sint_ge [of w] sint_lt [of w] by (simp add: in_s32_def)

lemma signed_take_s32: "in_s32 k \<Longrightarrow> signed_take_bit 31 k = k"
  by (simp add: in_s32_def signed_take_bit_int_eq_self)

lemma sint_arith32:
  fixes a b :: u32
  shows "in_s32 (sint a + sint b) \<Longrightarrow> sint (a + b) = sint a + sint b"
    and "in_s32 (sint a - sint b) \<Longrightarrow> sint (a - b) = sint a - sint b"
    and "in_s32 (sint a * sint b) \<Longrightarrow> sint (a * b) = sint a * sint b"
  by (simp_all add: sint_word_ariths signed_take_s32)

lemma uint_as_nat: "uint w = int (unat w)"
  by simp

lemma sint_small: "unat (w :: u32) < 2147483648 \<Longrightarrow> sint w = int (unat w)"
proof -
  assume a: "unat w < 2147483648"
  have "in_s32 (uint w)" using a unfolding in_s32_def uint_as_nat by linarith
  then show ?thesis by (simp add: sint_uint signed_take_s32)
qed

lemma sint_large: "2147483648 \<le> unat (w :: u32) \<Longrightarrow> sint w = int (unat w) - 4294967296"
proof -
  assume a: "2147483648 \<le> unat w"
  have b: "unat w < 4294967296" using unsigned_less [of w, where 'a = nat] by simp
  have z: "(word_of_int 4294967296 :: u32) = 0" by transfer simp
  have "(word_of_int (uint w - 4294967296) :: u32) = word_of_int (uint w) - word_of_int 4294967296"
    by (rule of_int_diff)
  also have "\<dots> = w" unfolding z by simp
  finally have "sint w = sint (word_of_int (uint w - 4294967296) :: u32)" by (simp only:)
  also have "\<dots> = signed_take_bit (LENGTH(32) - 1) (uint w - 4294967296)"
    by (rule sint_sbintrunc')
  also have "\<dots> = signed_take_bit 31 (uint w - 4294967296)" by simp
  also have "\<dots> = uint w - 4294967296"
    using a b by (intro signed_take_s32) (simp only: in_s32_def uint_as_nat, linarith)
  finally show ?thesis by simp
qed

lemma sint_nonneg: "0 \<le> sint (w :: u32) \<Longrightarrow> sint w = int (unat w) \<and> unat w < 2147483648"
proof -
  assume a: "0 \<le> sint w"
  have b: "unat w < 4294967296" using unsigned_less [of w, where 'a = nat] by simp
  show ?thesis
  proof (cases "unat w < 2147483648")
    case False
    then show ?thesis using a b sint_large [of w] by linarith
  qed (simp add: sint_small)
qed

section \<open>Arrays with checked accesses\<close>

text \<open>Reading and writing an element of a C array: outside the array the access is undefined.\<close>

definition array_get :: "'a list \<Rightarrow> nat \<Rightarrow> 'a res" where
  "array_get a i = (if i < length a then Inr (a ! i) else Inl FUndef)"

definition array_set :: "'a list \<Rightarrow> nat \<Rightarrow> 'a \<Rightarrow> 'a list res" where
  "array_set a i v = (if i < length a then Inr (a[i := v]) else Inl FUndef)"

lemma array_get_in [simp]: "i < length a \<Longrightarrow> array_get a i = Inr (a ! i)"
  by (simp add: array_get_def)

lemma array_set_in [simp]: "i < length a \<Longrightarrow> array_set a i v = Inr (a[i := v])"
  by (simp add: array_set_def)

lemma array_get_out: "length a \<le> i \<Longrightarrow> array_get a i = Inl FUndef"
  by (simp add: array_get_def)

lemma array_set_out: "length a \<le> i \<Longrightarrow> array_set a i v = Inl FUndef"
  by (simp add: array_set_def)

section \<open>The first index with a property\<close>

lemma find_upt_Some: "List.find P [0..<n] = Some e \<Longrightarrow> e < n \<and> P e \<and> (\<forall>j<e. \<not> P j)"
  by (auto simp: find_Some_iff)

lemma find_upt_None: "List.find P [0..<n] = None \<longleftrightarrow> (\<forall>j<n. \<not> P j)"
  by (auto simp: find_None_iff)

section \<open>A fallible step for each element of a list\<close>

fun each :: "('a \<Rightarrow> 's \<Rightarrow> 's res) \<Rightarrow> 'a list \<Rightarrow> 's \<Rightarrow> 's res" where
  "each f [] s = Inr s"
| "each f (x # xs) s = res_bind (f x s) (each f xs)"

lemma each_id: "(\<And>x. x \<in> set xs \<Longrightarrow> f x s = Inr s) \<Longrightarrow> each f xs s = Inr s"
  by (induction xs) auto

lemma each_append: "each f (xs @ ys) s = res_bind (each f xs s) (each f ys)"
proof (induction xs arbitrary: s)
  case (Cons x xs)
  then show ?case by (cases "f x s") simp_all
qed simp

lemma each_one:
  assumes "c < n" "\<And>x. x < n \<Longrightarrow> x \<noteq> c \<Longrightarrow> f x s = Inr s"
    and "f c s = Inr s'" "\<And>x. x < n \<Longrightarrow> x \<noteq> c \<Longrightarrow> f x s' = Inr s'"
  shows "each f [0..<n] s = Inr s'"
proof -
  have "[0..<n] = [0..<c] @ c # [Suc c..<n]"
    using assms(1) upt_add_eq_append [of 0 c "n - c"] by (simp add: upt_conv_Cons)
  moreover have "each f [0..<c] s = Inr s" using assms(1,2) by (intro each_id) auto
  moreover have "each f [Suc c..<n] s' = Inr s'" using assms(4) by (intro each_id) auto
  ultimately show ?thesis using assms(3) by (simp add: each_append)
qed

lemma each_invariant:
  assumes "each f xs s = Inr t" "P s" "\<And>x s t. x \<in> set xs \<Longrightarrow> P s \<Longrightarrow> f x s = Inr t \<Longrightarrow> P t"
  shows "P t"
  using assms by (induction xs arbitrary: s) auto

lemma each_two:
  assumes "c < d" "d < n" "\<And>x s. x < n \<Longrightarrow> x \<noteq> c \<Longrightarrow> x \<noteq> d \<Longrightarrow> P s \<Longrightarrow> f x s = Inr s"
    and "P s" "f c s = Inr t" "P t" "f d t = Inr u" "P u"
  shows "each f [0..<n] s = Inr u"
proof -
  have "[0..<n] = [0..<c] @ c # [Suc c..<n]"
    using assms(1,2) upt_add_eq_append [of 0 c "n - c"] by (simp add: upt_conv_Cons)
  moreover have "[Suc c..<n] = [Suc c..<d] @ d # [Suc d..<n]"
    using assms(1,2) upt_add_eq_append [of "Suc c" d "n - d"] by (simp add: upt_conv_Cons)
  moreover have "each f [0..<c] s = Inr s" "each f [Suc c..<d] t = Inr t" "each f [Suc d..<n] u = Inr u"
    using assms by (auto intro!: each_id)
  ultimately show ?thesis using assms(5,7) by (simp add: each_append)
qed

end
