(* ===== verification/Ring.thy ===== *)
theory Ring
  imports Prelude
begin

text \<open>
  The round robin that the interconnects and multiplexers of the cluster share: the requesters stand in a
  ring, and the next one served is the first that waits after the one served before. What makes it
  fair is proved once, for any state with such an arbiter.
\<close>

section \<open>The choice\<close>

text \<open>The core that is next: the first with a request after \<open>next\<close>, in the order of the ring.\<close>

definition next_waiting :: "nat \<Rightarrow> (nat \<Rightarrow> bool) \<Rightarrow> nat \<Rightarrow> nat option" where
  "next_waiting n tbl c = List.find tbl (map (\<lambda>k. (c + 1 + k) mod n) [0..<n])"

section \<open>The ring\<close>

lemma find_map_upt:
  "List.find P (map g [0..<n]) = Some c \<longleftrightarrow> (\<exists>j<n. c = g j \<and> P (g j) \<and> (\<forall>l<j. \<not> P (g l)))"
  by (auto simp: find_Some_iff)

lemma ring_covers: "(c :: nat) < n \<Longrightarrow> \<exists>j<n. (a + j) mod n = c"
proof -
  assume c: "c < n"
  have "a mod n < n" using c by simp
  then have sum: "a mod n + (c + (n - a mod n)) = c + n" by linarith
  have "(a + (c + (n - a mod n)) mod n) mod n = (a mod n + (c + (n - a mod n))) mod n"
    by (simp add: mod_simps)
  also have "\<dots> = c" unfolding sum using c by simp
  finally have "(a + (c + (n - a mod n)) mod n) mod n = c" .
  then show "\<exists>j<n. (a + j) mod n = c" using c by (metis gr_implies_not0 less_nat_zero_code mod_less_divisor neq0_conv)
qed

lemma next_waiting_some:
  assumes "tbl c" "c < n"
  shows "\<exists>d. next_waiting n tbl a = Some d \<and> tbl d \<and> d < n"
proof (cases "next_waiting n tbl a")
  case None
  obtain j where "j < n" "(a + 1 + j) mod n = c" using ring_covers [OF assms(2)] by blast
  then show ?thesis using None assms(1) by (auto simp: next_waiting_def find_None_iff)
next
  case (Some d)
  then show ?thesis using assms(2) by (auto simp: next_waiting_def find_map_upt)
qed

text \<open>How far \<open>c\<close> is from its turn.\<close>

definition ring_distance :: "nat \<Rightarrow> nat \<Rightarrow> nat \<Rightarrow> nat" where
  "ring_distance n a c = (LEAST j. (a + 1 + j) mod n = c)"

lemma ring_distance_props:
  assumes "c < n"
  shows "(a + 1 + ring_distance n a c) mod n = c" "ring_distance n a c < n"
    "j < ring_distance n a c \<Longrightarrow> (a + 1 + j) mod n \<noteq> c"
proof -
  obtain j where j: "j < n" "(a + 1 + j) mod n = c" using ring_covers [OF assms] by blast
  then show "(a + 1 + ring_distance n a c) mod n = c" unfolding ring_distance_def by (intro LeastI)
  have "ring_distance n a c \<le> j" unfolding ring_distance_def using j(2) by (intro Least_le)
  then show "ring_distance n a c < n" using j(1) by simp
  show "j < ring_distance n a c \<Longrightarrow> (a + 1 + j) mod n \<noteq> c" for j
    unfolding ring_distance_def by (rule not_less_Least)
qed

lemma turn_comes_nearer:
  assumes "tbl c" "c < n" "next_waiting n tbl a = Some d" "d \<noteq> c"
  shows "ring_distance n d c < ring_distance n a c"
proof -
  obtain j where j: "j < n" "d = (a + 1 + j) mod n" "\<forall>l<j. \<not> tbl ((a + 1 + l) mod n)"
    using assms(3) by (auto simp: next_waiting_def find_map_upt)
  let ?e = "ring_distance n a c"
  have e: "(a + 1 + ?e) mod n = c" "?e < n" using ring_distance_props [OF assms(2)] by blast+
  have "j \<noteq> ?e" using j(2) e(1) assms(4) by auto
  moreover have "\<not> ?e < j" using j(3) e(1) assms(1) by auto
  ultimately have lt: "j < ?e" by simp
  have "(d + 1 + (?e - j - 1)) mod n = (a + 1 + j + 1 + (?e - j - 1)) mod n" 
    unfolding j(2) by (metis (no_types) add.assoc mod_add_left_eq)
  also have "a + 1 + j + 1 + (?e - j - 1) = a + 1 + ?e" using lt by simp
  finally have "(d + 1 + (?e - j - 1)) mod n = c" using e(1) by simp
  then have "ring_distance n d c \<le> ?e - j - 1" unfolding ring_distance_def by (intro Least_le)
  then show ?thesis using lt by simp
qed

section \<open>Fairness\<close>

text \<open>An arbiter in states of any type: \<open>waiting s c\<close>: requester \<open>c\<close> waits; \<open>served_by s\<close>: who a grant in this
  state serves, the first that waits in the ring after \<open>pos s\<close>.\<close>

locale ring_arbiter =
  fixes n :: nat
    and waiting :: "'s \<Rightarrow> nat \<Rightarrow> bool"
    and pos :: "'s \<Rightarrow> nat"
    and served_by :: "'s \<Rightarrow> nat option"
  assumes serves: "\<lbrakk>waiting s c; c < n\<rbrakk> \<Longrightarrow> served_by s = next_waiting n (waiting s) (pos s)"
begin

text \<open>The states \<open>S 0\<close>, \<open>S 1\<close>, ... of the grants; between two of them anything may happen, if the position is
  that of the requester served last.\<close>

lemma turn_comes:
  assumes c: "c < n" and waits: "\<And>j. j < n \<Longrightarrow> waiting (S j) c"
    and moves: "\<And>j d. \<lbrakk>j < n; d < n; served_by (S j) = Some d\<rbrakk> \<Longrightarrow>
      ring_distance n (pos (S (Suc j))) c = ring_distance n d c"
  shows "\<exists>j<n. served_by (S j) = Some c"
proof (rule ccontr)
  assume no: "\<not> ?thesis"
  let ?d = "\<lambda>j. ring_distance n (pos (S j)) c"
  have step: "?d (Suc j) < ?d j" if j: "j < n" for j
  proof -
    obtain d where d: "next_waiting n (waiting (S j)) (pos (S j)) = Some d" "d < n"
      using next_waiting_some [of "waiting (S j)" c n "pos (S j)"] waits [OF j] c by blast
    then have "served_by (S j) = Some d" using serves [OF waits [OF j] c] by simp
    then show ?thesis using no j moves [OF j d(2)] turn_comes_nearer [of "waiting (S j)" c n "pos (S j)" d] waits [OF j] c d(1) by auto
  qed
  have "?d j + j < n" if "j \<le> n" for j
    using that
  proof (induction j)
    case 0
    then show ?case using ring_distance_props(2) [OF c] by simp
  next
    case (Suc j)
    then show ?case using step [of j] by fastforce
  qed
  then show False by (metis le_refl not_add_less2)
qed

end

end
