(* ===== verification/Address_Map.thy ===== *)
theory Address_Map
  imports Prelude
begin

text \<open>
  The memory map of the platform: the constants of
  \<open>virtualsoc/core/config.h\<close>, the address predicates of \<open>Addresser\<close>
  (\<open>virtualsoc/src/core/address.cpp\<close>) and the first-stage demultiplexer that
  sends a core's request to the TCDM or to the peripheral interconnect
  (\<open>virtualsoc/src/cluster/cl_1st_stage_demux.cpp\<close>). The predicates take the
  address and the number of the tile, as in the code, and compute
  \<open>tile_id * TILE_SPACING + base\<close> on 32-bit words.
\<close>

section \<open>Constants of the platform\<close>

definition TILE_SPACING :: u32 where [address_simps]: "TILE_SPACING = 0x10000000"
definition CL_WORD :: u32 where [address_simps]: "CL_WORD = 4"
definition CL_TCDM_BASE :: u32 where [address_simps]: "CL_TCDM_BASE = 0x08000000"
definition CL_TCDM_SIZE :: u32 where [address_simps]: "CL_TCDM_SIZE = 0x00080000"
definition CL_TCDM_TAS_SIZE :: u32 where [address_simps]: "CL_TCDM_TAS_SIZE = 0x00000200"
definition CL_LOCAL_SHARED_SIZE :: u32 where [address_simps]: "CL_LOCAL_SHARED_SIZE = 0x00020000"
definition CL_LOCAL_SHARED_OFFSET :: u32 where
  [address_simps]: "CL_LOCAL_SHARED_OFFSET = CL_TCDM_SIZE - CL_LOCAL_SHARED_SIZE"
definition CL_L3_BASE :: u32 where [address_simps]: "CL_L3_BASE = 0"
definition CL_L3_SIZE :: u32 where [address_simps]: "CL_L3_SIZE = 0x08000000"
definition CL_SEM_BASE :: u32 where [address_simps]: "CL_SEM_BASE = 0x09000000"
definition CL_SEM_SIZE :: u32 where [address_simps]: "CL_SEM_SIZE = 0x00004000"
definition CL_DMA_BASE :: u32 where [address_simps]: "CL_DMA_BASE = 0x0A000000"
definition CL_DMA_SIZE :: u32 where [address_simps]: "CL_DMA_SIZE = 0x00001000"
definition HWS_BASE :: u32 where [address_simps]: "HWS_BASE = 0x0B000000"
definition HWS_SIZE :: u32 where [address_simps]: "HWS_SIZE = 0x00001000"
definition N_HWS_EVENTS :: nat where "N_HWS_EVENTS = 16"
definition N_HWS_PRG_PORTS :: nat where "N_HWS_PRG_PORTS = 1"
definition N_HWS_SLV_PORTS :: nat where "N_HWS_SLV_PORTS = 1"
definition N_HWS_PORTS :: nat where "N_HWS_PORTS = N_HWS_PRG_PORTS + N_HWS_SLV_PORTS"
definition COUNTER_BASE_ADDR :: u32 where [address_simps]: "COUNTER_BASE_ADDR = 0x0D000000"
definition COUNTER_MEM_SIZE :: u32 where [address_simps]: "COUNTER_MEM_SIZE = 0x10"
definition ACCELERATOR_BASE_ADDR :: u32 where [address_simps]: "ACCELERATOR_BASE_ADDR = 0x0C000000"
definition ACCELERATOR_MEM_SIZE :: u32 where [address_simps]: "ACCELERATOR_MEM_SIZE = 0x00100000"
definition SIMSUPPORT_BASE :: u32 where [address_simps]: "SIMSUPPORT_BASE = 0x7F000000"
definition SIMSUPPORT_SIZE :: u32 where [address_simps]: "SIMSUPPORT_SIZE = 0x00100000"

section \<open>The predicates of the addresser\<close>

text \<open>The base address of a tile, \<open>tile_id * TILE_SPACING\<close> with a 16-bit tile number.\<close>

definition tile_base :: "u16 \<Rightarrow> u32" where
  "tile_base tile_id = (ucast tile_id :: u32) * TILE_SPACING"

definition IsInTcdmSpace :: "addr \<Rightarrow> u16 \<Rightarrow> bool" where
  "IsInTcdmSpace address tile_id =
     (tile_base tile_id + CL_TCDM_BASE \<le> address \<and>
      address < tile_base tile_id + CL_TCDM_BASE + CL_TCDM_SIZE)"

definition IsInTaSSpace :: "addr \<Rightarrow> u16 \<Rightarrow> bool" where
  "IsInTaSSpace address tile_id =
     (tile_base tile_id + CL_TCDM_BASE + CL_TCDM_SIZE - CL_TCDM_TAS_SIZE \<le> address \<and>
      address < tile_base tile_id + CL_TCDM_BASE + CL_TCDM_SIZE)"

definition IsInSemSpace :: "addr \<Rightarrow> u16 \<Rightarrow> bool" where
  "IsInSemSpace address tile_id =
     (tile_base tile_id + CL_SEM_BASE \<le> address \<and>
      address < tile_base tile_id + CL_SEM_BASE + CL_SEM_SIZE)"

definition IsInL3Space :: "addr \<Rightarrow> u16 \<Rightarrow> bool" where
  "IsInL3Space address tile_id =
     (tile_base tile_id + CL_L3_BASE \<le> address \<and>
      address < tile_base tile_id + CL_L3_BASE + CL_L3_SIZE)"

definition IsInHWSSpace :: "addr \<Rightarrow> u16 \<Rightarrow> bool" where
  "IsInHWSSpace address tile_id =
     (tile_base tile_id + HWS_BASE \<le> address \<and>
      address < tile_base tile_id + HWS_BASE + HWS_SIZE)"

definition IsOffCluster :: "addr \<Rightarrow> u16 \<Rightarrow> bool" where
  "IsOffCluster address tile_id =
     (\<not> (tile_base tile_id \<le> address \<and>
         address < (ucast tile_id + 1) * TILE_SPACING))"

text \<open>The upper bound of the DMA space is inclusive in the source.\<close>

definition IsInDmaSpace :: "addr \<Rightarrow> u16 \<Rightarrow> bool" where
  "IsInDmaSpace address tile_id =
     (tile_base tile_id + CL_DMA_BASE \<le> address \<and>
      address \<le> tile_base tile_id + CL_DMA_BASE + CL_DMA_SIZE)"

definition IsInCOUNTERSpace :: "addr \<Rightarrow> u16 \<Rightarrow> bool" where
  "IsInCOUNTERSpace address tile_id =
     (tile_base tile_id + COUNTER_BASE_ADDR \<le> address \<and>
      address < tile_base tile_id + COUNTER_BASE_ADDR + COUNTER_MEM_SIZE)"

definition IsInACCELERATORSpace :: "addr \<Rightarrow> u16 \<Rightarrow> bool" where
  "IsInACCELERATORSpace address tile_id =
     (tile_base tile_id + ACCELERATOR_BASE_ADDR \<le> address \<and>
      address < tile_base tile_id + ACCELERATOR_BASE_ADDR + ACCELERATOR_MEM_SIZE)"

definition Logical2Physical :: "addr \<Rightarrow> u8 \<Rightarrow> addr" where
  "Logical2Physical address ID = address"

definition Physical2Logical :: "addr \<Rightarrow> u8 \<Rightarrow> addr" where
  "Physical2Logical address ID = address"

definition LogicalIsCacheable :: "addr \<Rightarrow> bool" where
  "LogicalIsCacheable address = False"

definition PhysicalInSimSupportSpace :: "addr \<Rightarrow> bool" where
  "PhysicalInSimSupportSpace address =
     (SIMSUPPORT_BASE \<le> address \<and> address < SIMSUPPORT_BASE + SIMSUPPORT_SIZE)"

section \<open>First-stage demultiplexer\<close>

text \<open>
  \<open>cl_1st_stage_demux\<close> keeps one bit of state, \<open>is_in_tcdm\<close>, set by the request
  thread and read by the response thread. The request is copied to exactly one
  of the two outgoing ports; the port that is not selected keeps its old value.
\<close>

definition demux_IsInTcdmSpace :: "addr \<Rightarrow> bool" where
  "demux_IsInTcdmSpace address =
     (CL_TCDM_BASE \<le> address \<and> address < CL_TCDM_BASE + CL_TCDM_SIZE)"

record 'p demux =
  is_in_tcdm :: bool
  pinout_core :: 'p
  ready_core :: bool
  pinout_lic :: 'p
  request_lic :: bool
  pinout_pic :: 'p
  request_pic :: bool

definition demux_req :: "('p \<Rightarrow> addr) \<Rightarrow> 'p \<Rightarrow> bool \<Rightarrow> 'p demux \<Rightarrow> 'p demux" where
  "demux_req address_of pin request d =
     (let tcdm = demux_IsInTcdmSpace (address_of pin); d1 = d\<lparr>is_in_tcdm := tcdm\<rparr> in
      if tcdm then d1\<lparr>pinout_lic := pin, request_lic := request\<rparr>
      else d1\<lparr>pinout_pic := pin, request_pic := request\<rparr>)"

definition demux_resp :: "'p \<Rightarrow> bool \<Rightarrow> 'p \<Rightarrow> bool \<Rightarrow> 'p demux \<Rightarrow> 'p demux" where
  "demux_resp lic_pin lic_ready pic_pin pic_ready d =
     (if is_in_tcdm d
      then (if lic_ready then d\<lparr>pinout_core := lic_pin\<rparr> else d)\<lparr>ready_core := lic_ready\<rparr>
      else (if pic_ready then d\<lparr>pinout_core := pic_pin\<rparr> else d)\<lparr>ready_core := pic_ready\<rparr>)"

section \<open>Decoding is unambiguous\<close>

text \<open>The slaves an address of a tile can select, in the order \<open>Addresser\<close> declares them.\<close>

datatype region = Tcdm | L3 | Sem | Hws | Dma | Counter | Accelerator

fun in_region :: "region \<Rightarrow> addr \<Rightarrow> u16 \<Rightarrow> bool" where
  "in_region Tcdm = IsInTcdmSpace"
| "in_region L3 = IsInL3Space"
| "in_region Sem = IsInSemSpace"
| "in_region Hws = IsInHWSSpace"
| "in_region Dma = IsInDmaSpace"
| "in_region Counter = IsInCOUNTERSpace"
| "in_region Accelerator = IsInACCELERATORSpace"

fun region_lo :: "region \<Rightarrow> nat" where
  "region_lo Tcdm = 0x08000000"
| "region_lo L3 = 0"
| "region_lo Sem = 0x09000000"
| "region_lo Hws = 0x0B000000"
| "region_lo Dma = 0x0A000000"
| "region_lo Counter = 0x0D000000"
| "region_lo Accelerator = 0x0C000000"

fun region_hi :: "region \<Rightarrow> nat" where
  "region_hi Tcdm = 0x08080000"
| "region_hi L3 = 0x08000000"
| "region_hi Sem = 0x09004000"
| "region_hi Hws = 0x0B001000"
| "region_hi Dma = 0x0A001001"
| "region_hi Counter = 0x0D000010"
| "region_hi Accelerator = 0x0C100000"

lemma unat_tile_base:
  assumes "unat t < 8"
  shows "unat (tile_base t) = unat t * 268435456"
proof -
  have "unat (ucast t :: u32) = unat t" by (simp add: unat_ucast_le)
  then show ?thesis
    using assms by (simp add: tile_base_def TILE_SPACING_def unat_word_ariths)
qed

lemma unat_tile_add:
  assumes "unat t < 8" "n < 268435456"
  shows "unat (tile_base t + word_of_nat n) = unat t * 268435456 + n"
  using assms by (simp add: unat_add_no_wrap unat_tile_base unat_of_nat32)

lemma window_unat:
  assumes "unat t < 8" "lo < 268435456" "hi < 268435456"
  shows "tile_base t + word_of_nat lo \<le> a \<and> a < tile_base t + word_of_nat hi \<longleftrightarrow>
    unat t * 268435456 + lo \<le> unat a \<and> unat a < unat t * 268435456 + hi"
  using assms by (simp only: word_le_unat word_less_unat unat_tile_add)

lemma window_unat_incl:
  assumes "unat t < 8" "lo < 268435456" "hi < 268435456"
  shows "tile_base t + word_of_nat lo \<le> a \<and> a \<le> tile_base t + word_of_nat hi \<longleftrightarrow>
    unat t * 268435456 + lo \<le> unat a \<and> unat a < unat t * 268435456 + Suc hi"
  using assms by (simp only: word_le_unat word_less_unat unat_tile_add) linarith

lemmas region_window =
  window_unat [where lo = "0x08000000" and hi = "0x08080000", simplified]
  window_unat [where lo = "0" and hi = "0x08000000", simplified]
  window_unat [where lo = "0x09000000" and hi = "0x09004000", simplified]
  window_unat [where lo = "0x0B000000" and hi = "0x0B001000", simplified]
  window_unat_incl [where lo = "0x0A000000" and hi = "0x0A001000", simplified]
  window_unat [where lo = "0x0D000000" and hi = "0x0D000010", simplified]
  window_unat [where lo = "0x0C000000" and hi = "0x0C100000", simplified]

lemma in_region_unat:
  assumes "unat t < 8"
  shows "in_region r a t \<longleftrightarrow>
    unat t * 268435456 + region_lo r \<le> unat a \<and> unat a < unat t * 268435456 + region_hi r"
  using assms
  by (cases r) (simp_all add: IsInTcdmSpace_def IsInL3Space_def IsInSemSpace_def
      IsInHWSSpace_def IsInDmaSpace_def IsInCOUNTERSpace_def IsInACCELERATORSpace_def
      address_simps add.assoc region_window)

lemma off_cluster_unat:
  assumes "unat t < 8"
  shows "IsOffCluster a t \<longleftrightarrow>
    \<not> (unat t * 268435456 \<le> unat a \<and> unat a < (unat t + 1) * 268435456)"
proof -
  have "unat (ucast t :: u32) = unat t" by (simp add: unat_ucast_le)
  then have "unat ((ucast t + 1 :: u32) * TILE_SPACING) = (unat t + 1) * 268435456"
    using assms by (simp add: TILE_SPACING_def unat_word_ariths)
  then show ?thesis
    using assms by (simp add: IsOffCluster_def word_le_unat word_less_unat unat_tile_base)
qed

lemma region_inside: "region_lo r < region_hi r \<and> region_hi r \<le> 268435456"
  by (cases r) simp_all

lemma region_separate:
  "r \<noteq> r' \<Longrightarrow> region_hi r \<le> region_lo r' \<or> region_hi r' \<le> region_lo r"
  by (cases r; cases r') simp_all

text \<open>C37: on the eight tiles a 32-bit address can name, no address is decoded
  into two slaves or two tiles.\<close>

theorem address_decoding_unambiguous:
  assumes "unat t < 8" "unat t' < 8" "in_region r a t" "in_region r' a t'"
  shows "r = r' \<and> t = t' \<and> \<not> IsOffCluster a t \<and> \<not> PhysicalInSimSupportSpace a"
proof -
  have tile: "unat a div 268435456 = unat u"
    if "in_region q a u" "unat u < 8" for q u
  proof -
    have "unat u * 268435456 \<le> unat a" "unat a < Suc (unat u) * 268435456"
      using that region_inside [of q] by (auto simp: in_region_unat)
    then show ?thesis by (simp add: div_nat_eqI)
  qed
  have "unat t = unat t'" using assms tile [of r t] tile [of r' t'] by simp
  then have t: "t = t'" by (simp add: word_unat_eq_iff)
  have "r = r'"
    using assms region_separate [of r r'] by (auto simp: in_region_unat t)
  moreover have "\<not> IsOffCluster a t"
    using assms region_inside [of r] by (auto simp: in_region_unat off_cluster_unat)
  moreover have "\<not> PhysicalInSimSupportSpace a"
  proof -
    have "region_hi r \<le> 0x0D000010" by (cases r) simp_all
    then have "\<not> (0x7F000000 \<le> unat a \<and> unat a < 0x7F100000)"
      using assms by (auto simp: in_region_unat)
    then show ?thesis
      by (simp add: PhysicalInSimSupportSpace_def address_simps word_le_unat word_less_unat)
  qed
  ultimately show ?thesis using t by simp
qed

theorem address_decoding_unambiguous_witness:
  "Tcdm = Tcdm \<and> (0::u16) = 0 \<and> \<not> IsOffCluster 0x08000010 0 \<and>
   \<not> PhysicalInSimSupportSpace 0x08000010"
  by (rule address_decoding_unambiguous [where r = Tcdm and r' = Tcdm])
    (simp_all add: IsInTcdmSpace_def tile_base_def address_simps)

lemma demux_agrees_with_addresser: "demux_IsInTcdmSpace a = IsInTcdmSpace a 0"
  by (simp add: demux_IsInTcdmSpace_def IsInTcdmSpace_def tile_base_def)

text \<open>The first-stage demultiplexer forwards a request to exactly one of its
  two ports, the TCDM one exactly for the addresses the addresser calls TCDM on tile 0,
  and leaves the other port as it was; the response it then passes back is the one of
  the port that was selected.\<close>

theorem demux_routes_to_one_port:
  fixes d :: "'p demux"
  shows "let d' = demux_req addr_of pin req d in
    if in_region Tcdm (addr_of pin) 0
    then pinout_lic d' = pin \<and> request_lic d' = req \<and>
         pinout_pic d' = pinout_pic d \<and> request_pic d' = request_pic d \<and>
         pinout_core (demux_resp lp True pp pr d') = lp \<and>
         ready_core (demux_resp lp lr pp pr d') = lr
    else pinout_pic d' = pin \<and> request_pic d' = req \<and>
         pinout_lic d' = pinout_lic d \<and> request_lic d' = request_lic d \<and>
         pinout_core (demux_resp lp lr pp True d') = pp \<and>
         ready_core (demux_resp lp lr pp pr d') = pr"
  by (simp add: demux_req_def demux_resp_def demux_agrees_with_addresser Let_def)

end
