(* ===== verification/Mem_Class.thy ===== *)
theory Mem_Class
  imports Address_Map
begin

unbundle bit_operations_syntax

text \<open>
  The storage of every memory slave: \<open>Mem_class\<close>
  (\<open>virtualsoc/include/virtualsoc/core/mem_class.h\<close>), its semaphore variant
  \<open>Semaphore_mem\<close> (\<open>ext_mem.h\<close>), the bank addressing and the bus side of
  \<open>cl_memory\<close> and \<open>cl_semaphore\<close>. The byte array is a function of the index and
  the size that was allocated; reading or writing an index that is not below the
  size is \<open>FUndef\<close>, while the address test of the code gives \<open>FExit 1\<close>. The host
  is little endian.
\<close>

section \<open>Byte storage\<close>

record mem_class =
  mem_size :: u32
  mem_bytes :: "nat \<Rightarrow> u8"

definition new_mem :: "u32 \<Rightarrow> mem_class" where
  "new_mem sz = \<lparr>mem_size = sz, mem_bytes = (\<lambda>_. 0)\<rparr>"

definition word_at :: "(nat \<Rightarrow> u8) \<Rightarrow> nat \<Rightarrow> u32" where
  "word_at bs i = ucast (bs i) OR push_bit 8 (ucast (bs (i + 1))) OR
     push_bit 16 (ucast (bs (i + 2))) OR push_bit 24 (ucast (bs (i + 3)))"

definition store_word :: "nat \<Rightarrow> u32 \<Rightarrow> (nat \<Rightarrow> u8) \<Rightarrow> nat \<Rightarrow> u8" where
  "store_word i w bs = bs(i := ucast w, i + 1 := ucast (drop_bit 8 w),
     i + 2 := ucast (drop_bit 16 w), i + 3 := ucast (drop_bit 24 w))"

definition store_hword :: "nat \<Rightarrow> u32 \<Rightarrow> (nat \<Rightarrow> u8) \<Rightarrow> nat \<Rightarrow> u8" where
  "store_hword i w bs = bs(i := ucast w, i + 1 := ucast (drop_bit 8 w))"

definition load32 :: "mem_class \<Rightarrow> u32 \<Rightarrow> u32 res" where
  "load32 m a = (if unat a + 4 \<le> unat (mem_size m)
     then Inr (word_at (mem_bytes m) (unat a)) else Inl FUndef)"

definition store32 :: "mem_class \<Rightarrow> u32 \<Rightarrow> u32 \<Rightarrow> mem_class res" where
  "store32 m a w = (if unat a + 4 \<le> unat (mem_size m)
     then Inr (m\<lparr>mem_bytes := store_word (unat a) w (mem_bytes m)\<rparr>) else Inl FUndef)"

section \<open>Mem_class\<close>

definition MEM_WORD :: u8 where "MEM_WORD = 0"
definition MEM_BYTE :: u8 where "MEM_BYTE = 1"
definition MEM_HWORD :: u8 where "MEM_HWORD = 2"

definition get_local_bank_addr :: "addr \<Rightarrow> nat \<Rightarrow> addr" where
  "get_local_bank_addr a n_bit_shift = drop_bit n_bit_shift a * CL_WORD + a mod CL_WORD"

text \<open>
  \<open>Mem_Read addressing m addr bw\<close>: \<open>addressing\<close> is the virtual method a subclass
  may override. The byte and half-word cases load the four bytes that start at
  the address before they mask them.
\<close>

definition Mem_Read :: "(addr \<Rightarrow> addr) \<Rightarrow> mem_class \<Rightarrow> addr \<Rightarrow> u8 \<Rightarrow> u32 res" where
  "Mem_Read addressing m addr bw =
     (let a = addressing addr in
      if mem_size m \<le> a then Inl (FExit 1)
      else if bw = MEM_WORD then load32 m (a AND 0xFFFFFFFC)
      else if bw = MEM_BYTE then res_map (\<lambda>d. d AND 0xFF) (load32 m a)
      else if bw = MEM_HWORD then res_map (\<lambda>d. d AND 0xFFFF) (load32 m a)
      else Inl (FExit 1))"

definition Mem_Write :: "(addr \<Rightarrow> addr) \<Rightarrow> mem_class \<Rightarrow> addr \<Rightarrow> u32 \<Rightarrow> u8 \<Rightarrow> mem_class res" where
  "Mem_Write addressing m addr data bw =
     (let a = addressing addr in
      if mem_size m \<le> a then Inl (FExit 1)
      else if bw = MEM_WORD then store32 m (a AND 0xFFFFFFFC) data
      else if bw = MEM_BYTE then
        Inr (m\<lparr>mem_bytes := (mem_bytes m)(unat a := ucast (data AND 0xFF))\<rparr>)
      else if bw = MEM_HWORD then
        (let i = a AND 0xFFFFFFFE in
         if unat i + 2 \<le> unat (mem_size m)
         then Inr (m\<lparr>mem_bytes := store_hword (unat i) (data AND 0xFFFF) (mem_bytes m)\<rparr>)
         else Inl FUndef)
      else Inl (FExit 1))"

section \<open>Semaphore_mem: test-and-set reads\<close>

text \<open>A failed \<open>ASSERT\<close> of the simulator prints the condition and exits with 0xBADF00D.\<close>

definition ASSERT_EXIT :: nat where "ASSERT_EXIT = 0xBADF00D"

definition Sem_Read :: "mem_class \<Rightarrow> addr \<Rightarrow> u8 \<Rightarrow> (u32 \<times> mem_class) res" where
  "Sem_Read m addr bw =
     res_bind (require (bw = 0) (FExit ASSERT_EXIT)) (\<lambda>_.
     if mem_size m \<le> addr then Inl (FExit 1)
     else res_bind (load32 m (addr AND 0xFFFFFFFC)) (\<lambda>data.
       if data = 0
       then res_bind (store32 m (addr AND 0xFFFFFFFC) 1) (\<lambda>m'. Inr (data, m'))
       else Inr (data, m)))"

definition Sem_Write :: "mem_class \<Rightarrow> addr \<Rightarrow> u32 \<Rightarrow> u8 \<Rightarrow> mem_class res" where
  "Sem_Write m addr data bw =
     res_bind (require (bw = 0) (FExit ASSERT_EXIT)) (\<lambda>_.
     if mem_size m \<le> addr then Inl (FExit 1)
     else store32 m (addr AND 0xFFFFFFFC) data)"

section \<open>The bus side: cl_memory and cl_semaphore\<close>

record cl_memory =
  target_mem :: mem_class
  START_ADDRESS :: u32
  is_private :: bool
  n_bit_shift :: nat

definition clm_addressing :: "cl_memory \<Rightarrow> addr \<Rightarrow> addr" where
  "clm_addressing c addr =
     (if is_private c then addr - START_ADDRESS c
      else get_local_bank_addr (addr - START_ADDRESS c) (n_bit_shift c))"

definition clm_Read :: "cl_memory \<Rightarrow> addr \<Rightarrow> u8 \<Rightarrow> u32 res" where
  "clm_Read c addr bw = Mem_Read (\<lambda>a. a) (target_mem c) (clm_addressing c addr) bw"

definition clm_Write :: "cl_memory \<Rightarrow> addr \<Rightarrow> u32 \<Rightarrow> u8 \<Rightarrow> cl_memory res" where
  "clm_Write c addr data bw =
     res_map (\<lambda>m. c\<lparr>target_mem := m\<rparr>)
       (Mem_Write (\<lambda>a. a) (target_mem c) (clm_addressing c addr) data bw)"

text \<open>The number of bytes of a beat; any other code is the fatal error of \<open>working()\<close>.\<close>

definition beat_size :: "u8 \<Rightarrow> u32 res" where
  "beat_size bw = (if bw = 0 then Inr 4 else if bw = 1 then Inr 1 else if bw = 2 then Inr 2
     else Inl (FExit 1))"

fun clm_read_burst :: "cl_memory \<Rightarrow> addr \<Rightarrow> u8 \<Rightarrow> u32 \<Rightarrow> nat \<Rightarrow> u32 list res" where
  "clm_read_burst c addr bw sz 0 = Inr []"
| "clm_read_burst c addr bw sz (Suc n) =
     res_bind (clm_Read c addr bw) (\<lambda>d.
     res_bind (clm_read_burst c (addr + sz) bw sz n) (\<lambda>ds. Inr (d # ds)))"

text \<open>In a write burst the master drives one datum per beat.\<close>

fun clm_write_burst :: "cl_memory \<Rightarrow> addr \<Rightarrow> u8 \<Rightarrow> u32 \<Rightarrow> u32 list \<Rightarrow> cl_memory res" where
  "clm_write_burst c addr bw sz [] = Inr c"
| "clm_write_burst c addr bw sz (d # ds) =
     res_bind (clm_Write c addr d bw) (\<lambda>c'. clm_write_burst c' (addr + sz) bw sz ds)"

definition clm_serve_read :: "cl_memory \<Rightarrow> addr \<Rightarrow> u8 \<Rightarrow> nat \<Rightarrow> u32 list res" where
  "clm_serve_read c addr bw burst =
     res_bind (beat_size bw) (\<lambda>sz. clm_read_burst c addr bw sz burst)"

definition clm_serve_write :: "cl_memory \<Rightarrow> addr \<Rightarrow> u8 \<Rightarrow> u32 list \<Rightarrow> cl_memory res" where
  "clm_serve_write c addr bw data =
     res_bind (beat_size bw) (\<lambda>sz. clm_write_burst c addr bw sz data)"

definition cls_Read :: "u32 \<Rightarrow> mem_class \<Rightarrow> addr \<Rightarrow> u8 \<Rightarrow> (u32 \<times> mem_class) res" where
  "cls_Read start m addr bw = Sem_Read m (addr - start) bw"

definition cls_Write :: "u32 \<Rightarrow> mem_class \<Rightarrow> addr \<Rightarrow> u32 \<Rightarrow> u8 \<Rightarrow> mem_class res" where
  "cls_Write start m addr data bw = Sem_Write m (addr - start) data bw"

section \<open>Alignment and word access\<close>

lemma bit_3: "bit (3 :: u32) n \<longleftrightarrow> n < 2"
proof -
  have "(3 :: u32) = mask 2" by (simp add: mask_eq_exp_minus_1)
  then show ?thesis by (auto simp only: bit_mask_iff) (auto simp: possible_bit_def)
qed

lemma and_not_3: "(a :: u32) AND 0xFFFFFFFC = push_bit 2 (drop_bit 2 a)"
proof -
  have eq: "a AND NOT 3 = push_bit 2 (drop_bit 2 a)"
  proof (rule bit_word_eqI)
    fix n assume n: "n < LENGTH(32)"
    have "\<not> n < 2 \<Longrightarrow> 2 + (n - 2) = n" by simp
    then show "bit (a AND NOT 3) n = bit (push_bit 2 (drop_bit 2 a)) n"
      unfolding bit_and_iff bit_not_iff bit_push_bit_iff bit_drop_bit_eq bit_3 o_def using n
      by (cases "n < 2") (simp_all only: possible_bit_def len_of_numeral_defs, auto)
  qed
  have "(0xFFFFFFFC :: u32) = NOT 3" by simp
  then show ?thesis using eq by (simp only:)
qed

lemma unat_align4: "unat ((a :: u32) AND 0xFFFFFFFC) = 4 * (unat a div 4)"
proof -
  have lt: "unat a < 4294967296" using unsigned_less [of a, where 'a = nat] by simp
  then have "unat a div 4 < 1073741824" by (simp add: div_less_iff_less_mult)
  moreover have "unat (push_bit 2 (drop_bit 2 a)) = take_bit 32 (push_bit 2 (drop_bit 2 (unat a)))"
    using lt take_bit_nat_eq_self [of "unat a" 32]
    by (simp only: unsigned_push_bit_eq unsigned_drop_bit_eq) simp
  ultimately show ?thesis unfolding and_not_3
    by (simp add: push_bit_eq_mult drop_bit_eq_div take_bit_eq_mod mult.commute)
qed

lemma word_at_store: "word_at (store_word i w bs) i = w"
  unfolding word_at_def store_word_def
  apply (rule bit_word_eqI)
  apply (simp add: bit_simps)
  subgoal for n
  proof -
    assume "n < 32"
    then consider "n < 8" | k where "n = 8 + k" "k < 8"
      | k where "n = 16 + k" "k < 8" | k where "n = 24 + k" "k < 8"
      by (metis add_diff_inverse_nat nat_add_left_cancel_less numeral_plus_numeral add.assoc
          semiring_norm(2,3,4,5,6,8) not_less)
    then show ?thesis using \<open>n < 32\<close> by cases auto
  qed
  done

lemma word_at_store_other:
  "j + 4 \<le> i \<or> i + 4 \<le> j \<Longrightarrow> word_at (store_word i w bs) j = word_at bs j"
  unfolding word_at_def store_word_def by auto

text \<open>The word an aligned access selects, and whether the access is inside the array.\<close>

definition mem_word :: "mem_class \<Rightarrow> addr \<Rightarrow> u32" where
  "mem_word m a = word_at (mem_bytes m) (4 * (unat a div 4))"

definition word_ok :: "mem_class \<Rightarrow> addr \<Rightarrow> bool" where
  "word_ok m a \<longleftrightarrow> 4 * (unat a div 4) + 4 \<le> unat (mem_size m)"

definition set_word :: "mem_class \<Rightarrow> addr \<Rightarrow> u32 \<Rightarrow> mem_class" where
  "set_word m a w = m\<lparr>mem_bytes := store_word (4 * (unat a div 4)) w (mem_bytes m)\<rparr>"

lemma word_ok_in_bounds: "word_ok m a \<Longrightarrow> \<not> mem_size m \<le> a"
  by (simp add: word_ok_def word_le_unat)

lemma word_ok_if_size_mult4:
  "4 dvd unat (mem_size m) \<Longrightarrow> word_ok m a \<longleftrightarrow> a < mem_size m"
  by (auto simp: word_ok_def word_less_unat elim!: dvdE; presburger)

lemma load32_aligned: "word_ok m a \<Longrightarrow> load32 m (a AND 0xFFFFFFFC) = Inr (mem_word m a)"
  by (simp only: load32_def unat_align4 word_ok_def mem_word_def if_True)

lemma store32_aligned: "word_ok m a \<Longrightarrow> store32 m (a AND 0xFFFFFFFC) w = Inr (set_word m a w)"
  by (simp only: store32_def unat_align4 word_ok_def set_word_def if_True)

lemma words_apart: "(x :: nat) \<noteq> y \<Longrightarrow> 4 * y + 4 \<le> 4 * x \<or> 4 * x + 4 \<le> 4 * y"
  by linarith

lemma mem_word_set:
  "mem_word (set_word m a w) b = (if unat a div 4 = unat b div 4 then w else mem_word m b)"
proof (cases "unat a div 4 = unat b div 4")
  case False
  have sel: "mem_bytes (m\<lparr>mem_bytes := x\<rparr>) = x" for x by simp
  show ?thesis
    by (simp only: mem_word_def set_word_def sel
        word_at_store_other [OF words_apart [OF False]] False if_False)
qed (simp add: mem_word_def set_word_def word_at_store)

lemma set_word_simps [simp]:
  "mem_size (set_word m a w) = mem_size m"
  "word_ok (set_word m a w) b = word_ok m b"
  by (simp_all add: set_word_def word_ok_def)

lemma Mem_word_access:
  assumes "word_ok m a"
  shows "Mem_Read (\<lambda>a. a) m a MEM_WORD = Inr (mem_word m a)"
    and "Mem_Write (\<lambda>a. a) m a w MEM_WORD = Inr (set_word m a w)"
  using word_ok_in_bounds [OF assms]
  by (simp_all only: Mem_Read_def Mem_Write_def Let_def if_False simp_thms if_True
      load32_aligned [OF assms] store32_aligned [OF assms])

lemma Sem_access:
  assumes "word_ok m a"
  shows "Sem_Read m a 0 = Inr (mem_word m a, if mem_word m a = 0 then set_word m a 1 else m)"
    and "Sem_Write m a w 0 = Inr (set_word m a w)"
  using word_ok_in_bounds [OF assms]
  by (cases "mem_word m a = 0"; simp only: Sem_Read_def Sem_Write_def require_eq res_bind.simps
      simp_thms if_False if_True load32_aligned [OF assms] store32_aligned [OF assms])+

section \<open>The interface of a word memory\<close>

text \<open>
  What the rest of the system relies on: an access that is in range succeeds, a
  read returns the last word written to the same slot, and a write changes
  neither the other slots nor what is in range. Two addresses share a slot when
  they select the same word of the storage.
\<close>

fun write_block :: "('m \<Rightarrow> addr \<Rightarrow> u32 \<Rightarrow> 'm res) \<Rightarrow> 'm \<Rightarrow> (addr \<times> u32) list \<Rightarrow> 'm res" where
  "write_block wr m [] = Inr m"
| "write_block wr m ((a, v) # xs) = res_bind (wr m a v) (\<lambda>m'. write_block wr m' xs)"

fun read_block :: "('m \<Rightarrow> addr \<Rightarrow> u32 res) \<Rightarrow> 'm \<Rightarrow> addr list \<Rightarrow> u32 list res" where
  "read_block rd m [] = Inr []"
| "read_block rd m (a # as) =
     res_bind (rd m a) (\<lambda>v. res_bind (read_block rd m as) (\<lambda>vs. Inr (v # vs)))"

lemma read_block_append:
  "read_block rd m (xs @ ys) =
     res_bind (read_block rd m xs) (\<lambda>us. res_bind (read_block rd m ys) (\<lambda>vs. Inr (us @ vs)))"
proof (induction xs)
  case Nil
  then show ?case by (cases "read_block rd m ys") auto
qed (auto simp: res_bind_assoc)

lemma write_block_append:
  "write_block wr m (xs @ ys) = res_bind (write_block wr m xs) (\<lambda>m. write_block wr m ys)"
  by (induction xs arbitrary: m) (auto simp: res_bind_assoc)

locale word_memory =
  fixes rd :: "'m \<Rightarrow> addr \<Rightarrow> u32 res"
    and wr :: "'m \<Rightarrow> addr \<Rightarrow> u32 \<Rightarrow> 'm res"
    and ok :: "'m \<Rightarrow> addr \<Rightarrow> bool"
    and slot :: "'m \<Rightarrow> addr \<Rightarrow> nat"
  assumes rd_total: "ok m a \<Longrightarrow> \<exists>v. rd m a = Inr v"
    and wr_total: "ok m a \<Longrightarrow> \<exists>m'. wr m a v = Inr m'"
    and wr_same: "\<lbrakk>ok m a; wr m a v = Inr m'; slot m a = slot m b\<rbrakk> \<Longrightarrow> rd m' b = Inr v"
    and wr_other: "\<lbrakk>ok m a; wr m a v = Inr m'; slot m a \<noteq> slot m b; ok m b\<rbrakk> \<Longrightarrow> rd m' b = rd m b"
    and wr_frame: "\<lbrakk>ok m a; wr m a v = Inr m'\<rbrakk> \<Longrightarrow> ok m' = ok m \<and> slot m' = slot m"
begin

lemma block_write:
  assumes "\<forall>a \<in> set (map fst xs). ok m a"
  shows "\<exists>m'. write_block wr m xs = Inr m' \<and> ok m' = ok m \<and> slot m' = slot m \<and>
    (\<forall>b. ok m b \<longrightarrow> slot m b \<notin> slot m ` fst ` set xs \<longrightarrow> rd m' b = rd m b)"
  using assms
proof (induction xs arbitrary: m)
  case (Cons x xs)
  obtain a v where x: "x = (a, v)" by fastforce
  with Cons.prems have a: "ok m a" by simp
  then obtain m1 where m1: "wr m a v = Inr m1" using wr_total by blast
  have f: "ok m1 = ok m" "slot m1 = slot m" using wr_frame [OF a m1] by auto
  obtain m' where m': "write_block wr m1 xs = Inr m'" "ok m' = ok m" "slot m' = slot m"
    "\<forall>b. ok m b \<longrightarrow> slot m b \<notin> slot m ` fst ` set xs \<longrightarrow> rd m' b = rd m1 b"
    using Cons.IH [of m1] Cons.prems f by auto
  have "rd m' b = rd m b" if "ok m b" "slot m b \<notin> slot m ` fst ` set (x # xs)" for b
    using that m'(4) wr_other [OF a m1] x by simp
  then show ?case using m' m1 x by auto
qed simp

lemma block_roundtrip:
  assumes "distinct (map (slot m) as)" "\<forall>a \<in> set as. ok m a" "length vs = length as"
  shows "\<exists>m'. write_block wr m (zip as vs) = Inr m' \<and> read_block rd m' as = Inr vs"
  using assms
proof (induction as arbitrary: m vs)
  case (Cons a as)
  obtain v ws where vs: "vs = v # ws" using Cons.prems by (cases vs) auto
  have a: "ok m a" using Cons.prems by simp
  then obtain m1 where m1: "wr m a v = Inr m1" using wr_total by blast
  have f: "ok m1 = ok m" "slot m1 = slot m" using wr_frame [OF a m1] by auto
  obtain m' where m': "write_block wr m1 (zip as ws) = Inr m'" "read_block rd m' as = Inr ws"
    using Cons.IH [of m1 ws] Cons.prems f vs by auto
  have "slot m a \<notin> slot m ` fst ` set (zip as ws)"
    using Cons.prems(1) by (force dest: set_zip_leftD)
  then have "rd m' a = rd m1 a"
    using block_write [of "zip as ws" m1] m'(1) f a Cons.prems(2)
    by (fastforce dest: set_zip_leftD)
  then have "rd m' a = Inr v" using wr_same [OF a m1] by simp
  then show ?case using m' m1 vs by simp
qed simp

lemma block_holds:
  assumes "distinct (map (slot m \<circ> fst) xs)" "\<forall>a \<in> set (map fst xs). ok m a"
    and "write_block wr m xs = Inr m'" "(a, v) \<in> set xs" "slot m a = slot m b" "ok m b"
  shows "rd m' b = Inr v"
  using assms
proof (induction xs arbitrary: m)
  case (Cons x xs)
  obtain c w where x: "x = (c, w)" by fastforce
  with Cons.prems have c: "ok m c" by simp
  obtain m1 where m1: "wr m c w = Inr m1" "write_block wr m1 xs = Inr m'" using Cons.prems(3) x by auto
  have f: "ok m1 = ok m" "slot m1 = slot m" using wr_frame [OF c m1(1)] by auto
  show ?case
  proof (cases "(a, v) = x")
    case True
    have "slot m1 b \<notin> slot m1 ` fst ` set xs"
      using Cons.prems(1,5) True by (force simp: f)
    then have "rd m' b = rd m1 b" using block_write [of xs m1] m1(2) Cons.prems(2,6) f by auto
    then show ?thesis using wr_same [OF c m1(1)] Cons.prems(5) True x by simp
  next
    case False
    then have "(a, v) \<in> set xs" using Cons.prems(4) by simp
    then show ?thesis using Cons.IH [of m1] Cons.prems(1,2,5,6) m1(2) f by (simp add: comp_def)
  qed
qed simp

end

lemma word_ok_slot: "unat a div 4 = unat b div 4 \<Longrightarrow> word_ok m b \<longleftrightarrow> word_ok m a"
  by (simp add: word_ok_def)

interpretation flat: word_memory
  "\<lambda>m a. Mem_Read (\<lambda>a. a) m a MEM_WORD" "\<lambda>m a v. Mem_Write (\<lambda>a. a) m a v MEM_WORD"
  word_ok "\<lambda>m a. unat a div 4"
proof unfold_locales
  fix m a v m' b
  assume ok: "word_ok m a" and wr: "Mem_Write (\<lambda>a. a) m a v MEM_WORD = Inr m'"
  then have m': "m' = set_word m a v" by (simp add: Mem_word_access)
  show "word_ok m' = word_ok m \<and> (\<lambda>a. unat a div 4) = (\<lambda>a. unat a div 4)"
    by (simp add: m' fun_eq_iff)
  show "unat a div 4 = unat b div 4 \<Longrightarrow> Mem_Read (\<lambda>a. a) m' b MEM_WORD = Inr v"
    using ok word_ok_slot [of a b m] by (simp add: m' Mem_word_access mem_word_set)
  show "unat a div 4 \<noteq> unat b div 4 \<Longrightarrow> word_ok m b \<Longrightarrow>
      Mem_Read (\<lambda>a. a) m' b MEM_WORD = Mem_Read (\<lambda>a. a) m b MEM_WORD"
    by (simp add: m' Mem_word_access mem_word_set)
qed (auto simp: Mem_word_access)

definition clm_ok :: "cl_memory \<Rightarrow> addr \<Rightarrow> bool" where
  "clm_ok c a \<longleftrightarrow> word_ok (target_mem c) (clm_addressing c a)"

definition clm_slot :: "cl_memory \<Rightarrow> addr \<Rightarrow> nat" where
  "clm_slot c a = unat (clm_addressing c a) div 4"

lemma clm_word_access:
  assumes "clm_ok c a"
  shows "clm_Read c a MEM_WORD = Inr (mem_word (target_mem c) (clm_addressing c a))"
    and "clm_Write c a v MEM_WORD =
      Inr (c\<lparr>target_mem := set_word (target_mem c) (clm_addressing c a) v\<rparr>)"
  using assms by (simp_all add: clm_ok_def clm_Read_def clm_Write_def Mem_word_access)

lemma clm_addressing_update [simp]: "clm_addressing (c\<lparr>target_mem := m\<rparr>) = clm_addressing c"
  by (simp add: clm_addressing_def fun_eq_iff)

interpretation clm: word_memory
  "\<lambda>c a. clm_Read c a MEM_WORD" "\<lambda>c a v. clm_Write c a v MEM_WORD" clm_ok clm_slot
proof unfold_locales
  fix c a v c' b
  assume ok: "clm_ok c a" and wr: "clm_Write c a v MEM_WORD = Inr c'"
  then have c': "c' = c\<lparr>target_mem := set_word (target_mem c) (clm_addressing c a) v\<rparr>"
    by (simp add: clm_word_access)
  have ok': "clm_ok c' = clm_ok c" by (simp add: c' clm_ok_def fun_eq_iff)
  show "clm_ok c' = clm_ok c \<and> clm_slot c' = clm_slot c"
    using ok' by (simp add: c' clm_slot_def fun_eq_iff)
  show "clm_slot c a = clm_slot c b \<Longrightarrow> clm_Read c' b MEM_WORD = Inr v"
  proof -
    assume "clm_slot c a = clm_slot c b"
    moreover from this ok have "clm_ok c b" by (simp add: clm_ok_def clm_slot_def word_ok_def)
    ultimately show ?thesis
      using ok' by (simp add: clm_word_access) (simp add: c' mem_word_set clm_slot_def)
  qed
  show "clm_slot c a \<noteq> clm_slot c b \<Longrightarrow> clm_ok c b \<Longrightarrow> clm_Read c' b MEM_WORD = clm_Read c b MEM_WORD"
    using ok' by (simp add: clm_word_access) (simp add: c' mem_word_set clm_slot_def)
qed (auto simp: clm_word_access)

section \<open>Bursts\<close>

fun beats :: "addr \<Rightarrow> u32 \<Rightarrow> nat \<Rightarrow> addr list" where
  "beats a sz 0 = []"
| "beats a sz (Suc n) = a # beats (a + sz) sz n"

lemma length_beats [simp]: "length (beats a sz n) = n"
  by (induction n arbitrary: a) auto

lemma beats_nth: "i < n \<Longrightarrow> beats a sz n ! i = a + of_nat i * sz"
  by (induction n arbitrary: a i) (auto simp: nth_Cons algebra_simps split: nat.splits)

lemma write_burst_as_block:
  "clm_write_burst c a MEM_WORD sz ds =
     write_block (\<lambda>c a v. clm_Write c a v MEM_WORD) c (zip (beats a sz (length ds)) ds)"
  by (induction ds arbitrary: c a) auto

lemma read_burst_as_block:
  "clm_read_burst c a MEM_WORD sz n =
     read_block (\<lambda>c a. clm_Read c a MEM_WORD) c (beats a sz n)"
  by (induction n arbitrary: a) auto

lemma private_beat:
  assumes "is_private c" "unat (a - START_ADDRESS c) + 4 * n \<le> unat (mem_size (target_mem c))" "i < n"
  shows "clm_addressing c (a + of_nat i * 4) = a - START_ADDRESS c + 4 * of_nat i \<and>
    unat (a - START_ADDRESS c + 4 * of_nat i) = unat (a - START_ADDRESS c) + 4 * i"
proof -
  have "unat (mem_size (target_mem c)) < 4294967296"
    using unsigned_less [of "mem_size (target_mem c)", where 'a = nat] by simp
  moreover from this assms have "unat (4 * of_nat i :: u32) = 4 * i"
    using unat_of_nat32 [of "4 * i"] by simp
  ultimately show ?thesis
    using assms by (simp add: clm_addressing_def unat_add_no_wrap)
qed

lemma private_burst_roundtrip:
  assumes "is_private c"
    and "unat (a - START_ADDRESS c) + 4 * length ds \<le> unat (mem_size (target_mem c))"
  shows "\<exists>c'. clm_serve_write c a MEM_WORD ds = Inr c' \<and>
    clm_serve_read c' a MEM_WORD (length ds) = Inr ds"
proof -
  let ?as = "beats a 4 (length ds)"
  note beat = private_beat [OF assms]
  have "distinct (map (clm_slot c) ?as)"
    by (auto simp: distinct_conv_nth beats_nth clm_slot_def beat)
  moreover have "clm_ok c b" if "b \<in> set ?as" for b
  proof -
    obtain i where i: "i < length ds" "b = a + of_nat i * 4"
      using \<open>b \<in> set ?as\<close> by (auto simp: in_set_conv_nth beats_nth)
    have "4 * ((unat (a - START_ADDRESS c) + 4 * i) div 4) + 4 \<le> unat (mem_size (target_mem c))"
      using assms(2) i(1) by linarith
    then show ?thesis using i beat [OF i(1)] by (simp add: clm_ok_def word_ok_def)
  qed
  ultimately obtain c' where
    "write_block (\<lambda>c a v. clm_Write c a v MEM_WORD) c (zip ?as ds) = Inr c'"
    "read_block (\<lambda>c a. clm_Read c a MEM_WORD) c' ?as = Inr ds"
    using clm.block_roundtrip [of c ?as ds] by auto
  then show ?thesis
    by (simp add: clm_serve_write_def clm_serve_read_def beat_size_def MEM_WORD_def
        write_burst_as_block [unfolded MEM_WORD_def] read_burst_as_block [unfolded MEM_WORD_def])
qed

text \<open>A burst of words written to a private memory and read back from the same
  address returns the words that were written, for every burst that fits.\<close>

theorem burst_write_read_roundtrip:
  assumes "is_private c"
    and "unat (a - START_ADDRESS c) + 4 * length ds \<le> unat (mem_size (target_mem c))"
  shows "\<exists>c'. clm_serve_write c a MEM_WORD ds = Inr c' \<and>
    clm_serve_read c' a MEM_WORD (length ds) = Inr ds"
  using assms by (rule private_burst_roundtrip)

definition demo_memory :: cl_memory where
  "demo_memory = \<lparr>target_mem = new_mem 64, START_ADDRESS = 0x08000000, is_private = True,
     n_bit_shift = 6\<rparr>"

theorem burst_write_read_roundtrip_witness:
  "\<exists>c'. clm_serve_write demo_memory 0x08000008 MEM_WORD [7, 9] = Inr c' \<and>
     clm_serve_read c' 0x08000008 MEM_WORD (length [7::u32, 9]) = Inr [7, 9]"
  by (rule burst_write_read_roundtrip) (simp_all add: demo_memory_def new_mem_def)

section \<open>Byte accesses\<close>

lemma word_at_low_byte: "word_at bs i AND 0xFF = ucast (bs i)"
proof -
  have ff: "(0xFF :: u32) = mask 8" by (simp add: mask_eq_exp_minus_1)
  show ?thesis unfolding ff word_at_def
    by (rule bit_word_eqI) (auto simp: bit_simps dest: bit_imp_le_length)
qed

lemma ucast_low_byte: "ucast (ucast (d AND 0xFF :: u32) :: u8) = (d AND 0xFF :: u32)"
proof -
  have ff: "(0xFF :: u32) = mask 8" by (simp add: mask_eq_exp_minus_1)
  show ?thesis unfolding ff by (rule bit_word_eqI) (auto simp: bit_simps)
qed

text \<open>A byte write inside the memory changes that byte only and always succeeds,
  but the byte read that should return it loads four bytes: it returns the byte when three
  more bytes follow and is an access outside the array for the last three bytes.\<close>

theorem byte_write_then_read:
  assumes "unat (addressing a) < unat (mem_size m)"
  shows "\<exists>m'. Mem_Write addressing m a d MEM_BYTE = Inr m' \<and>
    (\<forall>i. mem_bytes m' i = (if i = unat (addressing a) then ucast (d AND 0xFF) else mem_bytes m i)) \<and>
    Mem_Read addressing m' a MEM_BYTE =
      (if unat (addressing a) + 4 \<le> unat (mem_size m) then Inr (d AND 0xFF) else Inl FUndef)"
  using assms
  by (simp add: Mem_Write_def Mem_Read_def Let_def word_le_unat MEM_BYTE_def MEM_WORD_def
      load32_def word_at_low_byte ucast_low_byte)

theorem byte_write_then_read_witness:
  "\<exists>m'. Mem_Write (\<lambda>a. a) (new_mem 64) 63 0x1AB MEM_BYTE = Inr m' \<and>
    (\<forall>i. mem_bytes m' i =
       (if i = unat (63::u32) then ucast ((0x1AB::u32) AND 0xFF) else mem_bytes (new_mem 64) i)) \<and>
    Mem_Read (\<lambda>a. a) m' 63 MEM_BYTE =
      (if unat (63::u32) + 4 \<le> unat (mem_size (new_mem 64)) then Inr (0x1AB AND 0xFF) else Inl FUndef)"
  by (rule byte_write_then_read) (simp add: new_mem_def)

section \<open>The interface of a test-and-set memory\<close>

text \<open>
  What the lock code relies on: a read that finds a free word takes it (it leaves
  1), a read of a taken word leaves it as it is, a write stores the word, and both
  leave the other words alone. \<open>view\<close> is the word an address names.
\<close>

locale tas_memory =
  fixes rd :: "'m \<Rightarrow> addr \<Rightarrow> (u32 \<times> 'm) res"
    and wr :: "'m \<Rightarrow> addr \<Rightarrow> u32 \<Rightarrow> 'm res"
    and ok :: "'m \<Rightarrow> addr \<Rightarrow> bool"
    and view :: "'m \<Rightarrow> addr \<Rightarrow> u32"
    and slot :: "addr \<Rightarrow> nat"
  assumes tas_rd: "ok m a \<Longrightarrow> \<exists>m'. rd m a = Inr (view m a, m') \<and> ok m' = ok m \<and>
      (\<forall>b. view m' b = (if slot a = slot b \<and> view m a = 0 then 1 else view m b))"
    and tas_wr: "ok m a \<Longrightarrow> \<exists>m'. wr m a v = Inr m' \<and> ok m' = ok m \<and>
      (\<forall>b. view m' b = (if slot a = slot b then v else view m b))"
    and view_slot: "slot a = slot b \<Longrightarrow> view m a = view m b"
begin

lemma acquire:
  assumes "ok m a" "view m a = 0"
  obtains m' where "rd m a = Inr (0, m')" "view m' a = 1" "ok m' = ok m"
    "\<And>b. slot b \<noteq> slot a \<Longrightarrow> view m' b = view m b"
proof -
  from tas_rd [OF assms(1)] obtain m' where
    "rd m a = Inr (view m a, m')" "ok m' = ok m"
    "\<forall>b. view m' b = (if slot a = slot b \<and> view m a = 0 then 1 else view m b)" by blast
  then show thesis using that [of m'] assms(2) by auto
qed

lemma busy:
  assumes "ok m a" "view m a \<noteq> 0" "rd m a = Inr (v, m')"
  shows "v = view m a \<and> v \<noteq> 0 \<and> view m' = view m"
  using tas_rd [OF assms(1)] assms(2,3) by (auto simp: fun_eq_iff)

lemma release_acquire:
  assumes "ok m a"
  shows "\<exists>m1 m2. wr m a 0 = Inr m1 \<and> rd m1 a = Inr (0, m2) \<and> view m2 a = 1 \<and>
    (\<forall>b. slot b \<noteq> slot a \<longrightarrow> view m2 b = view m b)"
proof -
  obtain m1 where m1: "wr m a 0 = Inr m1" "ok m1 = ok m"
    "\<forall>b. view m1 b = (if slot a = slot b then 0 else view m b)"
    using tas_wr [OF assms, of 0] by blast
  obtain m2 where "rd m1 a = Inr (0, m2)" "view m2 a = 1"
    "\<And>b. slot b \<noteq> slot a \<Longrightarrow> view m2 b = view m1 b"
    using acquire [of m1 a] m1 assms by (metis (no_types, lifting))
  then show ?thesis using m1 by auto
qed

end

interpretation sem: tas_memory "\<lambda>m a. Sem_Read m a 0" "\<lambda>m a v. Sem_Write m a v 0"
  word_ok mem_word "\<lambda>a. unat a div 4"
proof unfold_locales
  fix m a v b
  assume ok: "word_ok m a"
  show "\<exists>m'. Sem_Read m a 0 = Inr (mem_word m a, m') \<and> word_ok m' = word_ok m \<and>
      (\<forall>b. mem_word m' b =
        (if unat a div 4 = unat b div 4 \<and> mem_word m a = 0 then 1 else mem_word m b))"
    using ok by (simp add: Sem_access fun_eq_iff mem_word_set)
  show "\<exists>m'. Sem_Write m a v 0 = Inr m' \<and> word_ok m' = word_ok m \<and>
      (\<forall>b. mem_word m' b = (if unat a div 4 = unat b div 4 then v else mem_word m b))"
    using ok by (simp add: Sem_access fun_eq_iff mem_word_set)
next
  fix a b :: addr and m
  assume "unat a div 4 = unat b div 4"
  then show "mem_word m a = mem_word m b" by (simp add: mem_word_def)
qed

end
