(* ===== verification/Gomp_State.thy ===== *)
theory Gomp_State
  imports Mem_Class
begin

text \<open>
  The data of the OpenMP runtime (\<open>virtualsoc-apps/libgomp/libgomp_globals.h\<close>,
  \<open>libgomp_config.h\<close>, \<open>config/vsoc/config.h\<close>, \<open>config/vsoc/bar.h\<close>): the two
  descriptors, the statically placed globals and the ordinary words of the
  shared memory. A descriptor is kept in a store indexed by its address and is
  whatever the memory held before it is written, because \<open>shmalloc\<close> does not
  clear what it returns. Locks are words of the semaphore memory, whose reads
  test and set; every other word is read and written as it is. The build is the
  one of \<open>wcdma_omp/Makefile\<close>: software barrier, no heap handlers, no statistics.
\<close>

section \<open>Constants\<close>

definition SHARED_BASE :: u32 where [address_simps]: "SHARED_BASE = CL_TCDM_BASE"
definition SHARED_SIZE :: u32 where [address_simps]: "SHARED_SIZE = CL_TCDM_SIZE"
definition SEM_BASE :: u32 where [address_simps]: "SEM_BASE = CL_SEM_BASE"
definition LOCAL_SHARED_SIZE :: u32 where [address_simps]: "LOCAL_SHARED_SIZE = CL_LOCAL_SHARED_SIZE"
definition STACK_SIZE :: u32 where [address_simps]: "STACK_SIZE = 0x400"
definition SIZEOF_INT :: u32 where [address_simps]: "SIZEOF_INT = 4"
definition DEFAULT_MAXPROC :: nat where [address_simps]: "DEFAULT_MAXPROC = 64"
definition MASTER_ID :: nat where [address_simps]: "MASTER_ID = 0"
definition SHMALLOC_LOCK_ID :: u32 where [address_simps]: "SHMALLOC_LOCK_ID = 2"
definition FIRST_FREE_LOCK_ID :: u32 where [address_simps]: "FIRST_FREE_LOCK_ID = 3"
definition NEXT_LOCK_LOCK_PTR :: addr where [address_simps]: "NEXT_LOCK_LOCK_PTR = SEM_BASE"
definition WS_INITED :: u32 where "WS_INITED = 0xdeadbeef"
definition WS_NOT_INITED :: u32 where "WS_NOT_INITED = 0"
definition OMP_SLAVE_EXIT :: addr where "OMP_SLAVE_EXIT = 0xdeadbeef"

text \<open>
  \<open>NEXT_LOCK_LOCK_PTR\<close>, a macro of \<open>libgomp_globals.h\<close>, is the constant \<open>SEM_BASE\<close>; the variable
  \<open>next_lock_lock\<close> of \<open>lock.c\<close>, which is meant to hold the same address, is a field of the state.
  The sizes the compiler gives the descriptors: nine words for a work share; six
  words, two arrays of 64 words and three words for a team. The statics are the
  barrier flags, \<open>global_infos_t\<close>, two words and one pointer per processor.
\<close>

definition sizeof_work_share :: u32 where [address_simps]: "sizeof_work_share = 36"
definition sizeof_team :: u32 where [address_simps]: "sizeof_team = 548"
definition STATIC_TCDM_SIZE :: u32 where
  [address_simps]: "STATIC_TCDM_SIZE = 64 * 4 * 2 + 12 + 4 + 4 + 4 * 64"

section \<open>Descriptors\<close>

record gomp_work_share =
  ws_lock :: addr
  ws_end :: u32
  ws_next :: u32
  ws_chunk_size :: u32
  ws_incr :: u32
  enter_lock :: addr
  checkfirst :: u32
  exit_lock :: addr
  completed :: u32

record gomp_team =
  omp_task_f :: addr
  omp_args :: addr
  level :: u32
  parent :: addr
  nthreads :: u32
  team_mask :: u32
  proc_ids :: "nat \<Rightarrow> u32"
  thread_ids :: "nat \<Rightarrow> u32"
  critical_lock :: addr
  atomic_lock :: addr
  work_share :: addr

section \<open>The shared state\<close>

text \<open>
  \<open>locks\<close>, \<open>next_lock_lock\<close>, \<open>next_lock\<close> are the \<open>LOCAL_SHARED\<close> variables of \<open>lock.c\<close>. The first two have an
  initialiser that only takes effect if something copies the data of the executable into the
  shared memory; the loaders of the platform do not.
\<close>

record gomp =
  sem :: mem_class
  tcdm :: "addr \<Rightarrow> u32"
  teams :: "addr \<Rightarrow> gomp_team"
  work_shares :: "addr \<Rightarrow> gomp_work_share"
  thread_pool :: u32
  idle_cores :: u32
  global_lock :: addr
  SHMEM_NEXT :: u32
  SHMEM_LOCK :: addr
  CURR_TEAM :: "nat \<Rightarrow> addr"
  locks :: addr
  next_lock_lock :: addr
  next_lock :: addr
  locks_inited :: bool
  prv_num_procs :: u32

definition LOCKS :: "gomp \<Rightarrow> u32 \<Rightarrow> addr" where
  "LOCKS g i = locks g + push_bit 2 i"

section \<open>Volatile word accesses\<close>

definition vol_read :: "gomp \<Rightarrow> addr \<Rightarrow> (u32 \<times> gomp) res" where
  "vol_read g a =
     (if IsInSemSpace a 0
      then res_map (\<lambda>(v, m). (v, g\<lparr>sem := m\<rparr>)) (cls_Read CL_SEM_BASE (sem g) a 0)
      else Inr (tcdm g a, g))"

definition vol_write :: "gomp \<Rightarrow> addr \<Rightarrow> u32 \<Rightarrow> gomp res" where
  "vol_write g a v =
     (if IsInSemSpace a 0
      then res_map (\<lambda>m. g\<lparr>sem := m\<rparr>) (cls_Write CL_SEM_BASE (sem g) a v 0)
      else Inr (g\<lparr>tcdm := (tcdm g)(a := v)\<rparr>))"

text \<open>A semaphore word of the state, and the states whose semaphore memory has its full size.\<close>

definition lock_word :: "gomp \<Rightarrow> addr \<Rightarrow> u32" where
  "lock_word g a = mem_word (sem g) (a - CL_SEM_BASE)"

definition lock_slot :: "addr \<Rightarrow> nat" where
  "lock_slot a = unat (a - CL_SEM_BASE) div 4"

definition sem_ok :: "gomp \<Rightarrow> bool" where
  "sem_ok g \<longleftrightarrow> mem_size (sem g) = CL_SEM_SIZE"

lemma sem_space_0: "IsInSemSpace a 0 \<longleftrightarrow> a - CL_SEM_BASE < CL_SEM_SIZE"
proof -
  have "IsInSemSpace a 0 \<longleftrightarrow> 0x09000000 \<le> unat a \<and> unat a < 0x09004000"
    using in_region_unat [of 0 Sem a] by simp
  also have "\<dots> \<longleftrightarrow> unat (a - CL_SEM_BASE) < 0x4000"
  proof (cases "0x09000000 \<le> unat a")
    case True
    then have "unat (a - CL_SEM_BASE) = unat a - 0x09000000"
      by (simp add: unat_sub word_le_unat address_simps)
    with True show ?thesis by auto
  next
    case False
    have "unat (a - CL_SEM_BASE) = unat a + 4294967296 - 0x09000000"
      using False by (simp add: unat_sub_if' address_simps)
    with False show ?thesis by simp
  qed
  finally show ?thesis by (simp add: word_less_unat address_simps)
qed

lemma sem_space_word_ok: "sem_ok g \<Longrightarrow> IsInSemSpace a 0 \<Longrightarrow> word_ok (sem g) (a - CL_SEM_BASE)"
  by (simp add: sem_space_0 word_ok_if_size_mult4 sem_ok_def CL_SEM_SIZE_def)

text \<open>The runtime's volatile accesses give a test-and-set memory on the semaphore words.\<close>

interpretation vol: tas_memory vol_read vol_write
  "\<lambda>g a. sem_ok g \<and> IsInSemSpace a 0" lock_word lock_slot
proof unfold_locales
  fix g a v
  assume ok: "sem_ok g \<and> IsInSemSpace a 0"
  then have w: "word_ok (sem g) (a - CL_SEM_BASE)" by (simp add: sem_space_word_ok)
  show "\<exists>m'. vol_read g a = Inr (lock_word g a, m') \<and>
      (\<lambda>a. sem_ok m' \<and> IsInSemSpace a 0) = (\<lambda>a. sem_ok g \<and> IsInSemSpace a 0) \<and>
      (\<forall>b. lock_word m' b =
        (if lock_slot a = lock_slot b \<and> lock_word g a = 0 then 1 else lock_word g b))"
    using ok by (simp add: vol_read_def cls_Read_def Sem_access(1) [OF w] lock_word_def
        lock_slot_def sem_ok_def mem_word_set)
  show "\<exists>m'. vol_write g a v = Inr m' \<and>
      (\<lambda>a. sem_ok m' \<and> IsInSemSpace a 0) = (\<lambda>a. sem_ok g \<and> IsInSemSpace a 0) \<and>
      (\<forall>b. lock_word m' b = (if lock_slot a = lock_slot b then v else lock_word g b))"
    using ok by (simp add: vol_write_def cls_Write_def Sem_access(2) [OF w] lock_word_def
        lock_slot_def sem_ok_def mem_word_set)
next
  fix a b g
  assume "lock_slot a = lock_slot b"
  then show "lock_word g a = lock_word g b"
    by (simp add: lock_word_def lock_slot_def mem_word_def)
qed

end
