(* ===== verification/Gomp_Lock.thy ===== *)
theory Gomp_Lock
  imports Gomp_State
begin

text \<open>
  The spin locks of the runtime (\<open>libgomp/config/vsoc/lock.c\<close>), the critical and
  atomic sections built on them (\<open>critical.c\<close>) and the interleaving of several
  processors on the same locks. \<open>gomp_hal_lock\<close> is a loop that reads the word
  until it is 0; run on its own, the loop either leaves at once or never, and
  the second case is \<open>FSpin\<close>.
\<close>

section \<open>lock.c\<close>

definition gomp_hal_lock :: "addr \<Rightarrow> gomp \<Rightarrow> gomp res" where
  "gomp_hal_lock lk g =
     res_bind (vol_read g lk) (\<lambda>(v, g'). if v = 0 then Inr g' else Inl FSpin)"

definition gomp_hal_unlock :: "addr \<Rightarrow> gomp \<Rightarrow> gomp res" where
  "gomp_hal_unlock lk g = vol_write g lk 0"

definition gomp_hal_init_lock :: "addr \<Rightarrow> gomp \<Rightarrow> gomp res" where
  "gomp_hal_init_lock lk g =
     res_bind (gomp_hal_lock (next_lock_lock g) g) (\<lambda>g.
     res_bind (vol_write g lk (tcdm g (next_lock g))) (\<lambda>g.
     let g = g\<lparr>tcdm := (tcdm g)(next_lock g := tcdm g (next_lock g) + SIZEOF_INT)\<rparr> in
     gomp_hal_unlock (next_lock_lock g) g))"

definition gomp_hal_test_lock :: "addr \<Rightarrow> gomp \<Rightarrow> (u32 \<times> gomp) res" where
  "gomp_hal_test_lock lk g =
     res_bind (vol_read g lk) (\<lambda>(v, g). res_bind (vol_write g lk 0) (\<lambda>g. Inr (v, g)))"

definition gomp_hal_destroy_lock :: "addr \<Rightarrow> gomp \<Rightarrow> gomp res" where
  "gomp_hal_destroy_lock lk g = Inr g"

definition omp_set_lock :: "addr \<Rightarrow> gomp \<Rightarrow> gomp res" where
  "omp_set_lock lock g = gomp_hal_lock lock g"

definition omp_unset_lock :: "addr \<Rightarrow> gomp \<Rightarrow> gomp res" where
  "omp_unset_lock lock g = gomp_hal_unlock lock g"

definition omp_init_lock :: "addr \<Rightarrow> gomp \<Rightarrow> gomp res" where
  "omp_init_lock lock g = gomp_hal_init_lock lock g"

definition omp_test_lock :: "addr \<Rightarrow> gomp \<Rightarrow> (u32 \<times> gomp) res" where
  "omp_test_lock lock g = gomp_hal_test_lock lock g"

definition omp_destroy_lock :: "addr \<Rightarrow> gomp \<Rightarrow> gomp res" where
  "omp_destroy_lock lock g = gomp_hal_destroy_lock lock g"

section \<open>critical.c\<close>

definition GOMP_atomic_start :: "nat \<Rightarrow> gomp \<Rightarrow> gomp res" where
  "GOMP_atomic_start myid g = gomp_hal_lock (atomic_lock (teams g (CURR_TEAM g myid))) g"

definition GOMP_atomic_end :: "nat \<Rightarrow> gomp \<Rightarrow> gomp res" where
  "GOMP_atomic_end myid g = gomp_hal_unlock (atomic_lock (teams g (CURR_TEAM g myid))) g"

definition GOMP_critical_start :: "nat \<Rightarrow> gomp \<Rightarrow> gomp res" where
  "GOMP_critical_start myid g = gomp_hal_lock (critical_lock (teams g (CURR_TEAM g myid))) g"

definition GOMP_critical_end :: "nat \<Rightarrow> gomp \<Rightarrow> gomp res" where
  "GOMP_critical_end myid g = gomp_hal_unlock (critical_lock (teams g (CURR_TEAM g myid))) g"

section \<open>One lock operation\<close>

definition sem_put :: "gomp \<Rightarrow> addr \<Rightarrow> u32 \<Rightarrow> gomp" where
  "sem_put g a v = g\<lparr>sem := set_word (sem g) (a - CL_SEM_BASE) v\<rparr>"

text \<open>A word the runtime may use as a lock.\<close>

definition lock_addr :: "gomp \<Rightarrow> addr \<Rightarrow> bool" where
  "lock_addr g a \<longleftrightarrow> sem_ok g \<and> IsInSemSpace a 0"

lemma sem_put_fields [simp]:
  "tcdm (sem_put g a v) = tcdm g" "teams (sem_put g a v) = teams g"
  "work_shares (sem_put g a v) = work_shares g" "thread_pool (sem_put g a v) = thread_pool g"
  "idle_cores (sem_put g a v) = idle_cores g" "global_lock (sem_put g a v) = global_lock g"
  "locks (sem_put g a v) = locks g" "next_lock_lock (sem_put g a v) = next_lock_lock g"
  "SHMEM_NEXT (sem_put g a v) = SHMEM_NEXT g" "SHMEM_LOCK (sem_put g a v) = SHMEM_LOCK g"
  "CURR_TEAM (sem_put g a v) = CURR_TEAM g" "next_lock (sem_put g a v) = next_lock g"
  "locks_inited (sem_put g a v) = locks_inited g" "prv_num_procs (sem_put g a v) = prv_num_procs g"
  "sem_ok (sem_put g a v) = sem_ok g" "lock_addr (sem_put g a v) b = lock_addr g b"
  by (simp_all add: sem_put_def sem_ok_def lock_addr_def)

lemma lock_word_put:
  "lock_word (sem_put g a v) b = (if lock_slot a = lock_slot b then v else lock_word g b)"
  by (simp add: lock_word_def lock_slot_def sem_put_def mem_word_set)

lemma lock_word_put_same [simp]: "lock_word (sem_put g a v) a = v"
  by (simp add: lock_word_put)

lemma hal_lock_eq:
  assumes "lock_addr g a"
  shows "gomp_hal_lock a g = (if lock_word g a = 0 then Inr (sem_put g a 1) else Inl FSpin)"
proof -
  have w: "word_ok (sem g) (a - CL_SEM_BASE)"
    using assms by (simp add: lock_addr_def sem_space_word_ok)
  show ?thesis
    using assms by (simp add: gomp_hal_lock_def vol_read_def cls_Read_def Sem_access(1) [OF w]
        lock_word_def lock_addr_def sem_put_def)
qed

lemma hal_unlock_eq:
  assumes "lock_addr g a"
  shows "gomp_hal_unlock a g = Inr (sem_put g a 0)"
proof -
  have w: "word_ok (sem g) (a - CL_SEM_BASE)"
    using assms by (simp add: lock_addr_def sem_space_word_ok)
  show ?thesis
    using assms by (simp add: gomp_hal_unlock_def vol_write_def cls_Write_def Sem_access(2) [OF w]
        lock_addr_def sem_put_def)
qed

text \<open>Taking a free lock and giving it back restores the memory.\<close>

lemma byte_of_word_at:
  "ucast (word_at bs i) = bs i"
  "ucast (drop_bit 8 (word_at bs i)) = bs (i + 1)"
  "ucast (drop_bit 16 (word_at bs i)) = bs (i + 2)"
  "ucast (drop_bit 24 (word_at bs i)) = bs (i + 3)"
  unfolding word_at_def
  by (rule bit_word_eqI; auto simp: bit_simps dest: bit_imp_le_length)+

lemma set_word_same: "set_word m a (mem_word m a) = m"
proof -
  have "store_word i (word_at bs i) bs = bs" for i bs
    by (simp only: store_word_def byte_of_word_at) (simp add: fun_eq_iff)
  then show ?thesis by (simp add: set_word_def mem_word_def)
qed

lemma set_word_twice: "set_word (set_word m a v) a w = set_word m a w"
  by (simp add: set_word_def store_word_def fun_eq_iff)

lemma sem_put_twice [simp]: "sem_put (sem_put g a v) a w = sem_put g a w"
  by (simp add: sem_put_def set_word_twice)

lemma sem_put_same: "lock_word g a = v \<Longrightarrow> sem_put g a v = g"
  unfolding sem_put_def lock_word_def using set_word_same [of "sem g" "a - CL_SEM_BASE"] by simp

section \<open>Properties of the locks\<close>

text \<open>Locking a free word succeeds, a second attempt spins until the unlock, no
  other lock is affected meanwhile, and unlocking restores the state the lock was taken in.\<close>

theorem hal_lock_protects:
  assumes "lock_addr g a" "lock_word g a = 0"
  shows "\<exists>g1. gomp_hal_lock a g = Inr g1 \<and> gomp_hal_lock a g1 = Inl FSpin \<and>
    gomp_hal_unlock a g1 = Inr g \<and>
    (\<forall>b. lock_addr g b \<longrightarrow> lock_slot b \<noteq> lock_slot a \<longrightarrow>
       (gomp_hal_lock b g1 = Inl FSpin) = (gomp_hal_lock b g = Inl FSpin))"
proof -
  have "lock_word (sem_put g a 1) b = lock_word g b" if "lock_slot b \<noteq> lock_slot a" for b
    using that by (simp add: lock_word_put)
  then show ?thesis
    using assms by (simp add: hal_lock_eq hal_unlock_eq sem_put_same)
qed

definition demo_team :: gomp_team where
  "demo_team = \<lparr>omp_task_f = 0, omp_args = 0, level = 0, parent = 0, nthreads = 0, team_mask = 0,
     proc_ids = (\<lambda>_. 0), thread_ids = (\<lambda>_. 0), critical_lock = 0, atomic_lock = 0, work_share = 0\<rparr>"

definition demo_work_share :: gomp_work_share where
  "demo_work_share = \<lparr>ws_lock = 0, ws_end = 0, ws_next = 0, ws_chunk_size = 0, ws_incr = 0,
     enter_lock = 0, checkfirst = 0, exit_lock = 0, completed = 0\<rparr>"

text \<open>A freshly reset machine with \<open>n\<close> processors: every word of every memory is 0.\<close>

definition reset_state :: "u32 \<Rightarrow> gomp" where
  "reset_state n = \<lparr>sem = new_mem CL_SEM_SIZE, tcdm = (\<lambda>_. 0), teams = (\<lambda>_. demo_team),
     work_shares = (\<lambda>_. demo_work_share), thread_pool = 0, idle_cores = 0, global_lock = 0,
     SHMEM_NEXT = 0, SHMEM_LOCK = 0, CURR_TEAM = (\<lambda>_. 0), locks = 0, next_lock_lock = 0, next_lock = 0, locks_inited = False,
     prv_num_procs = n\<rparr>"

text \<open>The same machine with the variables of \<open>lock.c\<close> as the executable initialises them.\<close>

definition linked_state :: "u32 \<Rightarrow> gomp" where
  "linked_state n = (reset_state n)\<lparr>locks := SEM_BASE, next_lock_lock := SEM_BASE\<rparr>"

lemma mem_word_new [simp]: "mem_word (new_mem s) a = 0"
  by (simp add: mem_word_def new_mem_def word_at_def)

lemma reset_lock_word [simp]: "lock_word (reset_state n) a = 0"
  by (simp add: lock_word_def reset_state_def)

lemma reset_sem_ok [simp]: "sem_ok (reset_state n)"
  by (simp add: sem_ok_def reset_state_def new_mem_def)

lemma in_sem_space_numeral:
  "IsInSemSpace a 0 \<longleftrightarrow> 0x09000000 \<le> a \<and> a < 0x09004000"
  by (simp add: IsInSemSpace_def tile_base_def address_simps)

theorem hal_lock_protects_witness:
  "\<exists>g1. gomp_hal_lock 0x09000014 (reset_state 4) = Inr g1 \<and>
    gomp_hal_lock 0x09000014 g1 = Inl FSpin \<and>
    gomp_hal_unlock 0x09000014 g1 = Inr (reset_state 4) \<and>
    (\<forall>b. lock_addr (reset_state 4) b \<longrightarrow> lock_slot b \<noteq> lock_slot 0x09000014 \<longrightarrow>
       (gomp_hal_lock b g1 = Inl FSpin) = (gomp_hal_lock b (reset_state 4) = Inl FSpin))"
  by (rule hal_lock_protects) (simp_all add: lock_addr_def in_sem_space_numeral)

text \<open>\<open>gomp_hal_test_lock\<close> returns the word it finds but always leaves the lock free:
  a lock another processor holds is released by testing it, and a free lock is not taken.\<close>

theorem test_lock_always_frees:
  assumes "lock_addr g a"
  shows "\<exists>g'. omp_test_lock a g = Inr (lock_word g a, g') \<and> lock_word g' a = 0 \<and>
    gomp_hal_lock a g' \<noteq> Inl FSpin"
proof -
  obtain g1 where g1: "vol_read g a = Inr (lock_word g a, g1)" "lock_addr g1 a"
    using vol.tas_rd [of g a] assms by (auto simp: lock_addr_def fun_eq_iff)
  have "vol_write g1 a 0 = Inr (sem_put g1 a 0)"
    using hal_unlock_eq [OF g1(2)] by (simp add: gomp_hal_unlock_def)
  then show ?thesis
    using g1 by (simp add: omp_test_lock_def gomp_hal_test_lock_def hal_lock_eq)
qed

theorem test_lock_always_frees_witness:
  "\<exists>g'. omp_test_lock 0x09000014 (sem_put (reset_state 4) 0x09000014 1) =
      Inr (lock_word (sem_put (reset_state 4) 0x09000014 1) 0x09000014, g') \<and>
    lock_word g' 0x09000014 = 0 \<and> gomp_hal_lock 0x09000014 g' \<noteq> Inl FSpin"
  by (rule test_lock_always_frees) (simp add: lock_addr_def in_sem_space_numeral)

lemma hal_init_lock_eq:
  assumes "lock_addr g (next_lock_lock g)" "lock_word g (next_lock_lock g) = 0" "\<not> IsInSemSpace lk 0" "lk \<noteq> next_lock g"
  shows "gomp_hal_init_lock lk g = Inr (g\<lparr>tcdm := (tcdm g)
    (lk := tcdm g (next_lock g), next_lock g := tcdm g (next_lock g) + SIZEOF_INT)\<rparr>)"
proof -
  let ?l = "next_lock_lock g"
  let ?g1 = "sem_put g ?l 1"
  let ?t = "(tcdm g)(lk := tcdm g (next_lock g), next_lock g := tcdm g (next_lock g) + SIZEOF_INT)"
  have la: "lock_addr (?g1\<lparr>tcdm := ?t\<rparr>) ?l"
    using assms(1) by (simp add: lock_addr_def sem_ok_def sem_put_def)
  have "sem_put (?g1\<lparr>tcdm := ?t\<rparr>) ?l 0 =
      (sem_put (sem_put g ?l 1) ?l 0)\<lparr>tcdm := ?t\<rparr>"
    by (simp add: sem_put_def)
  also have "\<dots> = g\<lparr>tcdm := ?t\<rparr>" using assms(2) by (simp only: sem_put_twice sem_put_same)
  finally show ?thesis
    using assms by (simp add: gomp_hal_init_lock_def hal_lock_eq vol_write_def
        Let_def hal_unlock_eq [OF la])
qed

text \<open>\<open>omp_init_lock\<close> stores the address of a semaphore in the lock variable and moves
  on to the next one, so two variables get different semaphores; but \<open>omp_set_lock\<close> on the
  same variable waits for the variable itself to become 0 and never returns.\<close>

theorem omp_set_lock_after_init_spins:
  assumes "lock_addr g (next_lock_lock g)" "lock_word g (next_lock_lock g) = 0"
    and "\<not> IsInSemSpace lk 0" "lk \<noteq> next_lock g" "tcdm g (next_lock g) \<noteq> 0"
    and "\<not> IsInSemSpace lk2 0" "lk2 \<noteq> next_lock g" "lk2 \<noteq> lk"
  shows "\<exists>g1 g2. omp_init_lock lk g = Inr g1 \<and> omp_init_lock lk2 g1 = Inr g2 \<and>
    tcdm g2 lk = tcdm g (next_lock g) \<and> tcdm g2 lk2 = tcdm g2 lk + SIZEOF_INT \<and>
    omp_set_lock lk g2 = Inl FSpin"
proof -
  define v where "v = tcdm g (next_lock g)"
  define g1 where "g1 = g\<lparr>tcdm := (tcdm g)(lk := v, next_lock g := v + SIZEOF_INT)\<rparr>"
  have g1: "omp_init_lock lk g = Inr g1"
    using assms by (simp add: omp_init_lock_def hal_init_lock_eq g1_def v_def)
  have lw: "lock_word g1 = lock_word g" "lock_addr g1 = lock_addr g" "next_lock g1 = next_lock g" "next_lock_lock g1 = next_lock_lock g"
    by (auto simp: g1_def lock_word_def sem_ok_def lock_addr_def fun_eq_iff)
  define g2 where "g2 = g1\<lparr>tcdm := (tcdm g1)(lk2 := v + SIZEOF_INT, next_lock g := v + SIZEOF_INT + SIZEOF_INT)\<rparr>"
  have "omp_init_lock lk2 g1 = Inr g2"
    using assms lw by (simp add: omp_init_lock_def hal_init_lock_eq g2_def) (simp add: g1_def)
  moreover have "tcdm g2 lk = v" "tcdm g2 lk2 = v + SIZEOF_INT"
    using assms by (auto simp: g2_def g1_def)
  moreover have "omp_set_lock lk g2 = Inl FSpin"
    using assms \<open>tcdm g2 lk = v\<close>
    by (simp add: omp_set_lock_def gomp_hal_lock_def vol_read_def v_def)
  ultimately show ?thesis using g1 by (auto simp: v_def)
qed

theorem omp_set_lock_after_init_spins_witness:
  "let g = (linked_state 4)\<lparr>next_lock := 0x08000318, tcdm := (\<lambda>_. 0)(0x08000318 := 0x09000014)\<rparr> in
   \<exists>g1 g2. omp_init_lock 0x08001000 g = Inr g1 \<and> omp_init_lock 0x08001004 g1 = Inr g2 \<and>
    tcdm g2 0x08001000 = tcdm g (next_lock g) \<and>
    tcdm g2 0x08001004 = tcdm g2 0x08001000 + SIZEOF_INT \<and>
    omp_set_lock 0x08001000 g2 = Inl FSpin"
  unfolding Let_def
  by (rule omp_set_lock_after_init_spins)
    (simp_all add: in_sem_space_numeral lock_addr_def sem_ok_def lock_word_def linked_state_def reset_state_def new_mem_def SEM_BASE_def CL_SEM_BASE_def
      mem_word_def word_at_def)

section \<open>Several processors on the same locks\<close>

text \<open>
  The processors interleave at the bus: each iteration of the spin loop is one
  read, which takes the lock or not, and a release is one write by a holder. The
  second component is the set of pairs of a processor and the lock it holds.
\<close>

inductive lock_step :: "gomp \<times> (nat \<times> nat) set \<Rightarrow> gomp \<times> (nat \<times> nat) set \<Rightarrow> bool" where
  acquire: "\<lbrakk>IsInSemSpace a 0; gomp_hal_lock a g = Inr g'\<rbrakk>
    \<Longrightarrow> lock_step (g, H) (g', insert (p, lock_slot a) H)"
| spin: "\<lbrakk>IsInSemSpace a 0; vol_read g a = Inr (v, g'); v \<noteq> 0\<rbrakk> \<Longrightarrow> lock_step (g, H) (g', H)"
| release: "\<lbrakk>IsInSemSpace a 0; (p, lock_slot a) \<in> H; gomp_hal_unlock a g = Inr g'\<rbrakk>
    \<Longrightarrow> lock_step (g, H) (g', H - {(p, lock_slot a)})"

inductive_cases lock_stepE: "lock_step c c'"

definition lock_inv :: "gomp \<times> (nat \<times> nat) set \<Rightarrow> bool" where
  "lock_inv c = (case c of (g, H) \<Rightarrow> sem_ok g \<and>
     (\<forall>p q s. (p, s) \<in> H \<longrightarrow> (q, s) \<in> H \<longrightarrow> p = q) \<and>
     (\<forall>a. lock_word g a \<noteq> 0 \<longleftrightarrow> (\<exists>p. (p, lock_slot a) \<in> H)))"

lemma lock_inv_step: "lock_step c c' \<Longrightarrow> lock_inv c \<Longrightarrow> lock_inv c'"
proof (induction rule: lock_step.induct)
  case (acquire a g g' H p)
  then have inv: "lock_inv (g, H)" and la: "lock_addr g a"
    by (auto simp: lock_inv_def lock_addr_def)
  then have free: "lock_word g a = 0" and g': "g' = sem_put g a 1"
    using acquire by (auto simp: hal_lock_eq split: if_splits)
  have "(q, lock_slot a) \<notin> H" for q using inv free by (auto simp: lock_inv_def)
  then show ?case using inv by (auto simp: lock_inv_def g' lock_word_put)
next
  case (spin a g v g' H)
  then have "lock_word g' = lock_word g" "sem_ok g'"
    using vol.tas_rd [of g a] by (auto simp: lock_inv_def fun_eq_iff)
  then show ?case using spin by (simp add: lock_inv_def)
next
  case (release a p H g g')
  then have inv: "lock_inv (g, H)" and la: "lock_addr g a"
    by (auto simp: lock_inv_def lock_addr_def)
  then have g': "g' = sem_put g a 0" using release by (simp add: hal_unlock_eq)
  have only: "(q, lock_slot a) \<notin> H - {(p, lock_slot a)}" for q
    using inv release.hyps by (auto simp: lock_inv_def)
  have "lock_word g' b \<noteq> 0 \<longleftrightarrow> (\<exists>q. (q, lock_slot b) \<in> H - {(p, lock_slot a)})" for b
  proof (cases "lock_slot a = lock_slot b")
    case True
    then show ?thesis using only [unfolded True] by (auto simp: g' lock_word_put)
  qed (use inv in \<open>auto simp: g' lock_word_put lock_inv_def\<close>)
  then show ?case using inv by (auto simp: lock_inv_def g')
qed

text \<open>C5: from the reset state, in every interleaving, no two processors hold the same
  lock; a lock nobody holds can be taken by whoever tries next, and one that is held makes
  every other attempt spin.\<close>

theorem locks_mutual_exclusion:
  assumes "lock_step\<^sup>*\<^sup>* (reset_state n, {}) (g, H)"
  shows "((p, s) \<in> H \<longrightarrow> (q, s) \<in> H \<longrightarrow> p = q) \<and>
    (IsInSemSpace a 0 \<longrightarrow> gomp_hal_lock a g =
       (if \<exists>p. (p, lock_slot a) \<in> H then Inl FSpin else Inr (sem_put g a 1)))"
proof -
  have "lock_inv (g, H)"
    using assms
    by (induction "(g, H)" arbitrary: g H rule: rtranclp_induct)
      (auto simp: lock_inv_def [of "(reset_state n, {})"] intro: lock_inv_step)
  then show ?thesis
    by (auto simp: lock_inv_def hal_lock_eq lock_addr_def)
qed

theorem locks_mutual_exclusion_witness:
  "(let g = sem_put (reset_state 4) 0x09000014 1; H = {(2, lock_slot 0x09000014)} in
    ((2, lock_slot 0x09000014) \<in> H \<longrightarrow> (3::nat, lock_slot 0x09000014) \<in> H \<longrightarrow> (2::nat) = 3) \<and>
    (IsInSemSpace 0x09000014 0 \<longrightarrow> gomp_hal_lock 0x09000014 g =
       (if \<exists>p. (p, lock_slot 0x09000014) \<in> H then Inl FSpin else Inr (sem_put g 0x09000014 1))))"
proof -
  have "lock_step (reset_state 4, {})
      (sem_put (reset_state 4) 0x09000014 1, insert (2, lock_slot 0x09000014) {})"
    by (rule lock_step.acquire) (simp_all add: in_sem_space_numeral hal_lock_eq lock_addr_def)
  then show ?thesis unfolding Let_def
    by (intro locks_mutual_exclusion r_into_rtranclp)
qed

end
