(* ===== verification/Gomp_Mem.thy ===== *)
theory Gomp_Mem
  imports Gomp_Lock
begin

text \<open>
  The shared-memory allocator of the runtime
  (\<open>libgomp/config/vsoc/memutils.c\<close>), in both builds: the bump allocator
  \<open>shmalloc(size)\<close> and the \<open>HEAP_HANDLERS\<close> variant with up to ten sub-heaps;
  and \<open>gomp_hal_init_locks\<close> of \<open>lock.c\<close>, which takes its word from it.
  Sizes are the 32-bit words the code adds to the pointer.
\<close>

section \<open>The bump allocator\<close>

definition shmalloc_init :: "u32 \<Rightarrow> gomp \<Rightarrow> gomp" where
  "shmalloc_init address g =
     g\<lparr>SHMEM_NEXT := SHARED_BASE + address, SHMEM_LOCK := LOCKS g SHMALLOC_LOCK_ID\<rparr>"

definition shmem_out_of_memory :: "gomp \<Rightarrow> addr \<Rightarrow> bool" where
  "shmem_out_of_memory g hi =
     (hi > SHARED_BASE + SHARED_SIZE - LOCAL_SHARED_SIZE \<or>
      hi > SHARED_BASE + SHARED_SIZE - (LOCAL_SHARED_SIZE + STACK_SIZE * prv_num_procs g))"

definition shmalloc :: "u32 \<Rightarrow> gomp \<Rightarrow> (addr \<times> gomp) res" where
  "shmalloc sz g =
     res_bind (gomp_hal_lock (SHMEM_LOCK g) g) (\<lambda>g.
     let ret = SHMEM_NEXT g; g = g\<lparr>SHMEM_NEXT := ret + sz\<rparr> in
     res_bind (gomp_hal_unlock (SHMEM_LOCK g) g) (\<lambda>g.
     if shmem_out_of_memory g (ret + sz) then Inl FAbort else Inr (ret, g)))"

text \<open>\<open>shfree\<close> has an empty body.\<close>

definition shfree :: "addr \<Rightarrow> gomp \<Rightarrow> gomp" where
  "shfree address g = g"

section \<open>The variant with heap handlers\<close>

record heap_handler =
  start_addr :: u32
  heap_size :: u32
  allocated :: u32

record heaps =
  heap_handlers :: "heap_handler list"
  next_free_handler :: u8

definition heap_init :: "u32 \<Rightarrow> heaps \<Rightarrow> gomp \<Rightarrow> (nat \<times> heaps \<times> gomp) res" where
  "heap_init sz h g =
     res_bind (gomp_hal_lock (SHMEM_LOCK g) g) (\<lambda>g.
     if shmem_out_of_memory g (SHMEM_NEXT g + sz) \<or> next_free_handler h > 9 then Inl FAbort
     else
       let ret = unat (next_free_handler h);
           hh = heap_handlers h ! ret in
       if length (heap_handlers h) \<le> ret then Inl FUndef
       else
         let h' = \<lparr>heap_handlers = (heap_handlers h)[ret :=
                     hh\<lparr>start_addr := SHMEM_NEXT g, heap_size := sz\<rparr>],
                   next_free_handler = next_free_handler h + 1\<rparr>;
             g = g\<lparr>SHMEM_NEXT := SHMEM_NEXT g + sz\<rparr> in
         res_bind (gomp_hal_unlock (SHMEM_LOCK g) g) (\<lambda>g. Inr (ret, h', g)))"

definition heap_reinit :: "nat \<Rightarrow> heaps \<Rightarrow> heaps res" where
  "heap_reinit handler h =
     (if handler < length (heap_handlers h)
      then Inr (h\<lparr>heap_handlers := (heap_handlers h)[handler :=
        (heap_handlers h ! handler)\<lparr>allocated := 0\<rparr>]\<rparr>)
      else Inl FUndef)"

definition shmalloc_handler :: "nat \<Rightarrow> u32 \<Rightarrow> heaps \<Rightarrow> (addr \<times> heaps) res" where
  "shmalloc_handler handler bytes h =
     (if length (heap_handlers h) \<le> handler then Inl FUndef
      else let hh = heap_handlers h ! handler in
        if allocated hh + bytes > heap_size hh then Inl FAbort
        else Inr (start_addr hh + allocated hh,
          h\<lparr>heap_handlers := (heap_handlers h)[handler :=
             hh\<lparr>allocated := allocated hh + bytes\<rparr>]\<rparr>))"

section \<open>The word that counts the locks\<close>

definition gomp_hal_init_locks :: "u32 \<Rightarrow> gomp \<Rightarrow> gomp res" where
  "gomp_hal_init_locks offset g =
     res_bind (if \<not> locks_inited g
       then res_bind (shmalloc SIZEOF_INT g) (\<lambda>(p, g). Inr (g\<lparr>next_lock := p, locks_inited := True\<rparr>))
       else Inr g)
     (\<lambda>g. Inr (g\<lparr>tcdm := (tcdm g)(next_lock g := SEM_BASE + SIZEOF_INT * (2 + offset))\<rparr>))"

section \<open>Allocations stay apart\<close>

text \<open>The address the heap may grow to, below the local section and the stacks.\<close>

definition heap_limit :: "gomp \<Rightarrow> nat" where
  "heap_limit g = 0x08060000 - 0x400 * unat (prv_num_procs g)"

lemma heap_limit_next [simp]: "heap_limit (g\<lparr>SHMEM_NEXT := n\<rparr>) = heap_limit g"
  by (simp add: heap_limit_def)

text \<open>A state in which the allocator can work: its lock is free and the heap is below its limit.\<close>

definition heap_ok :: "gomp \<Rightarrow> bool" where
  "heap_ok g \<longleftrightarrow> lock_addr g (SHMEM_LOCK g) \<and> lock_word g (SHMEM_LOCK g) = 0 \<and>
     unat (prv_num_procs g) \<le> 64 \<and> unat (SHMEM_NEXT g) \<le> heap_limit g"

lemma out_of_memory_iff:
  assumes "unat (prv_num_procs g) \<le> 64"
  shows "shmem_out_of_memory g hi \<longleftrightarrow> unat hi > heap_limit g"
proof -
  have stack: "unat (STACK_SIZE * prv_num_procs g) = 0x400 * unat (prv_num_procs g)"
    using assms by (simp add: STACK_SIZE_def unat_word_ariths)
  have low: "unat (LOCAL_SHARED_SIZE + STACK_SIZE * prv_num_procs g) = 0x20000 + 0x400 * unat (prv_num_procs g)"
    using assms by (subst unat_add_no_wrap) (simp_all add: stack, simp_all add: address_simps)
  have "unat (SHARED_BASE + SHARED_SIZE - (LOCAL_SHARED_SIZE + STACK_SIZE * prv_num_procs g)) = heap_limit g"
    using assms by (subst unat_sub) (simp_all add: low word_le_unat heap_limit_def, simp_all add: address_simps)
  moreover have "unat (SHARED_BASE + SHARED_SIZE - LOCAL_SHARED_SIZE) = 0x08060000"
    by (simp add: address_simps)
  ultimately show ?thesis
    by (auto simp: shmem_out_of_memory_def word_less_unat heap_limit_def)
qed

lemma shmalloc_eq:
  assumes "heap_ok g"
  shows "shmalloc sz g = (if unat (SHMEM_NEXT g + sz) \<le> heap_limit g
    then Inr (SHMEM_NEXT g, g\<lparr>SHMEM_NEXT := SHMEM_NEXT g + sz\<rparr>) else Inl FAbort)"
proof -
  let ?l = "SHMEM_LOCK g"
  have la: "lock_addr g ?l" "lock_word g ?l = 0" "unat (prv_num_procs g) \<le> 64"
    using assms by (auto simp: heap_ok_def)
  let ?g1 = "(sem_put g ?l 1)\<lparr>SHMEM_NEXT := SHMEM_NEXT g + sz\<rparr>"
  have "lock_addr ?g1 ?l"
    using la(1) by (simp add: lock_addr_def sem_ok_def sem_put_def)
  then have "gomp_hal_unlock ?l ?g1 = Inr (sem_put ?g1 ?l 0)" by (rule hal_unlock_eq)
  also have "sem_put ?g1 ?l 0 = (sem_put (sem_put g ?l 1) ?l 0)\<lparr>SHMEM_NEXT := SHMEM_NEXT g + sz\<rparr>"
    by (simp add: sem_put_def)
  also have "\<dots> = g\<lparr>SHMEM_NEXT := SHMEM_NEXT g + sz\<rparr>"
    using la(2) by (simp add: sem_put_same)
  finally have unl: "gomp_hal_unlock ?l ?g1 = Inr (g\<lparr>SHMEM_NEXT := SHMEM_NEXT g + sz\<rparr>)" .
  have "heap_limit (g\<lparr>SHMEM_NEXT := SHMEM_NEXT g + sz\<rparr>) = heap_limit g"
    by (simp add: heap_limit_def)
  then show ?thesis
    using la by (simp add: shmalloc_def hal_lock_eq Let_def unl out_of_memory_iff not_le)
qed

lemma heap_ok_next:
  "heap_ok g \<Longrightarrow> unat n \<le> heap_limit g \<Longrightarrow> heap_ok (g\<lparr>SHMEM_NEXT := n\<rparr>)"
  by (simp add: heap_ok_def lock_addr_def sem_ok_def lock_word_def heap_limit_def)

fun shmallocs :: "u32 list \<Rightarrow> gomp \<Rightarrow> (addr list \<times> gomp) res" where
  "shmallocs [] g = Inr ([], g)"
| "shmallocs (s # ss) g =
     res_bind (shmalloc s g) (\<lambda>(a, g). res_bind (shmallocs ss g) (\<lambda>(as, g). Inr (a # as, g)))"

text \<open>The block \<open>shmalloc\<close> hands out for the \<open>i\<close>-th request, as a set of byte addresses.\<close>

definition block :: "addr \<Rightarrow> u32 \<Rightarrow> nat set" where
  "block a s = {unat a ..< unat a + unat s}"

lemma shmalloc_no_wrap:
  assumes "heap_ok g" "unat s < 0x80000000"
  shows "unat (SHMEM_NEXT g + s) = unat (SHMEM_NEXT g) + unat s"
  using assms by (intro unat_add_no_wrap) (auto simp: heap_ok_def heap_limit_def)

lemma shmallocs_result:
  assumes "heap_ok g" "\<forall>s \<in> set ss. unat s < 0x80000000" "shmallocs ss g = Inr (as, g')"
  shows "length as = length ss \<and> heap_ok g' \<and> g' = g\<lparr>SHMEM_NEXT := SHMEM_NEXT g'\<rparr> \<and>
    unat (SHMEM_NEXT g') = unat (SHMEM_NEXT g) + (\<Sum>s\<leftarrow>ss. unat s) \<and>
    (\<forall>i < length ss. unat (as ! i) = unat (SHMEM_NEXT g) + (\<Sum>s\<leftarrow>take i ss. unat s))"
  using assms
proof (induction ss arbitrary: g as g')
  case (Cons s ss)
  obtain a g1 bs where r: "shmalloc s g = Inr (a, g1)" "shmallocs ss g1 = Inr (bs, g')" "as = a # bs"
    using Cons.prems(3) by auto
  have s: "unat (SHMEM_NEXT g + s) = unat (SHMEM_NEXT g) + unat s"
    using Cons.prems shmalloc_no_wrap by simp
  from r(1) Cons.prems(1) have a: "a = SHMEM_NEXT g" "g1 = g\<lparr>SHMEM_NEXT := SHMEM_NEXT g + s\<rparr>"
    and lim: "unat (SHMEM_NEXT g + s) \<le> heap_limit g"
    by (auto simp: shmalloc_eq split: if_splits)
  have ok1: "heap_ok g1" using Cons.prems(1) lim by (simp add: a heap_ok_next)
  have IH: "length bs = length ss \<and> heap_ok g' \<and> g' = g1\<lparr>SHMEM_NEXT := SHMEM_NEXT g'\<rparr> \<and>
    unat (SHMEM_NEXT g') = unat (SHMEM_NEXT g1) + (\<Sum>s\<leftarrow>ss. unat s) \<and>
    (\<forall>i < length ss. unat (bs ! i) = unat (SHMEM_NEXT g1) + (\<Sum>s\<leftarrow>take i ss. unat s))"
    using Cons.IH [OF ok1 _ r(2)] Cons.prems(2) by simp
  have g': "g' = g\<lparr>SHMEM_NEXT := SHMEM_NEXT g'\<rparr>"
    using IH a(2) by (metis (no_types, lifting) gomp.surjective gomp.update_convs(8))
  show ?case using IH g' s r(3) a by (auto simp: nth_Cons split: nat.splits)
qed simp

lemma sum_take_mono: "i < j \<Longrightarrow> j \<le> length ss \<Longrightarrow>
  (\<Sum>s\<leftarrow>take i ss. f s) + f (ss ! i) \<le> (\<Sum>s\<leftarrow>take j ss. f s :: nat)"
proof (induction ss arbitrary: i j)
  case (Cons s ss)
  then show ?case by (cases i; cases j) auto
qed simp

text \<open>C11: the blocks a sequence of calls of \<open>shmalloc\<close> returns are pairwise disjoint, in
  increasing order, above the old heap pointer and below the region kept for the local section
  and the stacks; and the calls succeed exactly when the sum of the sizes fits.\<close>

theorem shmalloc_blocks_disjoint:
  assumes "heap_ok g" "\<forall>s \<in> set ss. unat s < 0x80000000"
  shows "(case shmallocs ss g of
      Inr (as, g') \<Rightarrow> length as = length ss \<and>
        (\<forall>j < length ss. \<forall>i < j. block (as ! i) (ss ! i) \<inter> block (as ! j) (ss ! j) = {}) \<and>
        (\<forall>i < length ss. block (as ! i) (ss ! i) \<subseteq> {unat (SHMEM_NEXT g) ..< heap_limit g})
    | Inl e \<Rightarrow> e = FAbort) \<and>
    ((\<exists>r. shmallocs ss g = Inr r) \<longleftrightarrow> unat (SHMEM_NEXT g) + (\<Sum>s\<leftarrow>ss. unat s) \<le> heap_limit g)"
proof -
  have fits: "(\<exists>r. shmallocs ss g = Inr r) \<longleftrightarrow> unat (SHMEM_NEXT g) + (\<Sum>s\<leftarrow>ss. unat s) \<le> heap_limit g"
    and abort: "shmallocs ss g = Inl e \<Longrightarrow> e = FAbort" for e
    using assms
  proof (induction ss arbitrary: g)
    case Nil
    { case 1 then show ?case by (simp add: heap_ok_def)
    next case 2 then show ?case by simp }
  next
    case (Cons s ss)
    { case 1
      then have w: "unat (SHMEM_NEXT g + s) = unat (SHMEM_NEXT g) + unat s"
        using shmalloc_no_wrap by simp
      show ?case
      proof (cases "unat (SHMEM_NEXT g + s) \<le> heap_limit g")
        case True
        then have ok: "heap_ok (g\<lparr>SHMEM_NEXT := SHMEM_NEXT g + s\<rparr>)" using 1 heap_ok_next by blast
        show ?thesis using Cons.IH(1) [OF ok] 1 True w
          by (auto simp: shmalloc_eq)
      qed (use 1 w in \<open>auto simp: shmalloc_eq\<close>)
    next case 2
      then show ?case
        using Cons.IH(2) [of "g\<lparr>SHMEM_NEXT := SHMEM_NEXT g + s\<rparr>"]
        by (auto simp: shmalloc_eq res_bind_eq_Inl heap_ok_next split: if_splits) }
  qed
  show ?thesis
  proof (cases "shmallocs ss g")
    case (Inl e)
    then show ?thesis using fits abort by simp
  next
    case (Inr r)
    obtain as g' where r: "r = (as, g')" by fastforce
    note res = shmallocs_result [OF assms Inr [unfolded r]]
    have ord: "unat (as ! i) + unat (ss ! i) \<le> unat (as ! j)" if "i < j" "j < length ss" for i j
      using res that sum_take_mono [of i j ss unat] by simp
    have hi: "unat (as ! i) + unat (ss ! i) \<le> heap_limit g" if "i < length ss" for i
      using res that sum_take_mono [of i "length ss" ss unat] fits Inr by simp
    show ?thesis
      using res fits Inr r ord hi by (fastforce simp: block_def)
  qed
qed

lemma boot_heap_ok:
  assumes "unat n \<le> 64"
  shows "heap_ok (shmalloc_init (STATIC_TCDM_SIZE + 4) (linked_state n))"
proof -
  have "unat n * 1024 \<le> 65536" using assms by simp
  then show ?thesis
    by (simp add: heap_ok_def shmalloc_init_def LOCKS_def linked_state_def address_simps lock_addr_def in_sem_space_numeral
        sem_ok_def lock_word_def heap_limit_def push_bit_eq_mult) (simp add: reset_state_def new_mem_def address_simps mult.commute word_at_def mem_word_def)
qed

theorem shmalloc_blocks_disjoint_witness:
  "let g = shmalloc_init (STATIC_TCDM_SIZE + 4) (linked_state 4); ss = [36, 548::u32] in
   (case shmallocs ss g of
      Inr (as, g') \<Rightarrow> length as = length ss \<and>
        (\<forall>j < length ss. \<forall>i < j. block (as ! i) (ss ! i) \<inter> block (as ! j) (ss ! j) = {}) \<and>
        (\<forall>i < length ss. block (as ! i) (ss ! i) \<subseteq> {unat (SHMEM_NEXT g) ..< heap_limit g})
    | Inl e \<Rightarrow> e = FAbort) \<and>
    ((\<exists>r. shmallocs ss g = Inr r) \<longleftrightarrow> unat (SHMEM_NEXT g) + (\<Sum>s\<leftarrow>ss. unat s) \<le> heap_limit g)"
  unfolding Let_def
  by (rule shmalloc_blocks_disjoint [OF boot_heap_ok]) simp_all

section \<open>Heap handlers\<close>

definition handler_region :: "heap_handler \<Rightarrow> nat set" where
  "handler_region hh = {unat (start_addr hh) ..< unat (start_addr hh) + unat (heap_size hh)}"

text \<open>The handlers that were created own separate regions below the heap pointer and have
  handed out no more than they own.\<close>

definition heaps_ok :: "heaps \<Rightarrow> gomp \<Rightarrow> bool" where
  "heaps_ok h g \<longleftrightarrow> length (heap_handlers h) = 10 \<and> unat (next_free_handler h) \<le> 10 \<and>
     (\<forall>i < unat (next_free_handler h). let hh = heap_handlers h ! i in
        unat (allocated hh) \<le> unat (heap_size hh) \<and>
        handler_region hh \<subseteq> {..< unat (SHMEM_NEXT g)} \<and>
        unat (start_addr hh) + unat (heap_size hh) < 0x80000000) \<and>
     (\<forall>j < unat (next_free_handler h). \<forall>i < j.
        handler_region (heap_handlers h ! i) \<inter> handler_region (heap_handlers h ! j) = {})"

lemma heap_init_eq:
  assumes "heap_ok g" "heaps_ok h g"
  shows "heap_init sz h g =
    (if unat (SHMEM_NEXT g + sz) \<le> heap_limit g \<and> next_free_handler h \<le> 9
     then let n = unat (next_free_handler h) in
       Inr (n, \<lparr>heap_handlers = (heap_handlers h)[n := (heap_handlers h ! n)
           \<lparr>start_addr := SHMEM_NEXT g, heap_size := sz\<rparr>],
         next_free_handler = next_free_handler h + 1\<rparr>, g\<lparr>SHMEM_NEXT := SHMEM_NEXT g + sz\<rparr>)
     else Inl FAbort)"
proof -
  let ?l = "SHMEM_LOCK g"
  have la: "lock_addr g ?l" "lock_word g ?l = 0" "unat (prv_num_procs g) \<le> 64"
    and len: "length (heap_handlers h) = 10"
    using assms by (auto simp: heap_ok_def heaps_ok_def)
  let ?g1 = "(sem_put g ?l 1)\<lparr>SHMEM_NEXT := SHMEM_NEXT g + sz\<rparr>"
  have "lock_addr ?g1 ?l" using la(1) by (simp add: lock_addr_def sem_ok_def sem_put_def)
  then have "gomp_hal_unlock ?l ?g1 = Inr (sem_put ?g1 ?l 0)" by (rule hal_unlock_eq)
  also have "sem_put ?g1 ?l 0 = (sem_put (sem_put g ?l 1) ?l 0)\<lparr>SHMEM_NEXT := SHMEM_NEXT g + sz\<rparr>"
    by (simp add: sem_put_def)
  also have "\<dots> = g\<lparr>SHMEM_NEXT := SHMEM_NEXT g + sz\<rparr>" using la(2) by (simp add: sem_put_same)
  finally have unl: "gomp_hal_unlock ?l ?g1 = Inr (g\<lparr>SHMEM_NEXT := SHMEM_NEXT g + sz\<rparr>)" .
  have lim: "heap_limit (sem_put g ?l 1) = heap_limit g" by (simp add: heap_limit_def)
  have le9: "9 < next_free_handler h" if "10 \<le> unat (next_free_handler h)"
    using that by (simp add: word_less_unat)
  show ?thesis
    using la by (auto simp: heap_init_def hal_lock_eq Let_def unl out_of_memory_iff lim not_le len
        dest: le9)
qed

lemma heap_init_ok:
  assumes "heap_ok g" "heaps_ok h g" "unat sz < 0x80000000"
    and "allocated (heap_handlers h ! unat (next_free_handler h)) = 0"
    and "heap_init sz h g = Inr (n, h', g')"
  shows "heaps_ok h' g' \<and> heap_ok g' \<and> n = unat (next_free_handler h) \<and>
    handler_region (heap_handlers h' ! n) = {unat (SHMEM_NEXT g) ..< unat (SHMEM_NEXT g) + unat sz}"
proof -
  let ?n = "unat (next_free_handler h)"
  let ?hh = "(heap_handlers h ! ?n)\<lparr>start_addr := SHMEM_NEXT g, heap_size := sz\<rparr>"
  have r: "n = ?n" "h' = \<lparr>heap_handlers = (heap_handlers h)[?n := ?hh],
      next_free_handler = next_free_handler h + 1\<rparr>" "g' = g\<lparr>SHMEM_NEXT := SHMEM_NEXT g + sz\<rparr>"
    and fit: "unat (SHMEM_NEXT g + sz) \<le> heap_limit g" "?n \<le> 9"
    using assms(5) by (auto simp: heap_init_eq [OF assms(1,2)] Let_def word_le_unat split: if_splits)
  have w: "unat (SHMEM_NEXT g + sz) = unat (SHMEM_NEXT g) + unat sz"
    using shmalloc_no_wrap assms by blast
  have n1: "unat (next_free_handler h + 1) = Suc ?n"
    using fit(2) by (subst unat_add_no_wrap) simp_all
  have len: "length (heap_handlers h) = 10" using assms(2) by (simp add: heaps_ok_def)
  have hl: "heap_limit g \<le> 0x08060000" by (simp add: heap_limit_def)
  have reg: "handler_region ?hh = {unat (SHMEM_NEXT g) ..< unat (SHMEM_NEXT g) + unat sz}"
    by (simp add: handler_region_def)
  have below: "handler_region (heap_handlers h ! i) \<subseteq> {..< unat (SHMEM_NEXT g)}" if "i < ?n" for i
    using assms(2) that by (simp add: heaps_ok_def Let_def)
  have sel: "SHMEM_NEXT (g\<lparr>SHMEM_NEXT := m\<rparr>) = m" for m by simp
  have "heaps_ok h' g'"
    unfolding heaps_ok_def r(2,3)
  proof (simp only: heaps.simps sel n1 length_list_update len, intro conjI allI impI)
    fix i assume i: "i < Suc ?n"
    show "let hh = (heap_handlers h)[?n := ?hh] ! i in unat (allocated hh) \<le> unat (heap_size hh) \<and>
        handler_region hh \<subseteq> {..< unat (SHMEM_NEXT g + sz)} \<and>
        unat (start_addr hh) + unat (heap_size hh) < 0x80000000"
    proof (cases "i = ?n")
      case True
      then show ?thesis using assms(4) len fit w hl by (auto simp: Let_def reg)
    next
      case False
      then have "i < ?n" using i by simp
      then show ?thesis using assms(2) w below [of i] by (auto simp: Let_def heaps_ok_def) force+
    qed
  next
    fix j i assume ij: "j < Suc ?n" "i < j"
    show "handler_region ((heap_handlers h)[?n := ?hh] ! i) \<inter>
        handler_region ((heap_handlers h)[?n := ?hh] ! j) = {}"
    proof (cases "j = ?n")
      case True
      then show ?thesis using ij fit len below [of i] by (auto simp: reg)
    next
      case False
      then show ?thesis using ij assms(2) by (auto simp: heaps_ok_def)
    qed
  qed (use fit in auto)
  moreover have "heap_ok g'" using assms(1) fit r(3) by (simp add: heap_ok_next)
  ultimately show ?thesis using r fit len reg by simp
qed

text \<open>A handler hands out its own region only: a successful allocation lies in the
  handler's region above everything it handed out before, touches no other handler's region,
  and keeps the handlers well formed; a request that does not fit aborts.\<close>

theorem handler_allocations_confined:
  assumes "heaps_ok h g" "k < unat (next_free_handler h)" "unat bytes < 0x80000000"
  shows "case shmalloc_handler k bytes h of
      Inr (a, h') \<Rightarrow> heaps_ok h' g \<and>
        block a bytes \<subseteq> handler_region (heap_handlers h ! k) \<and>
        unat a = unat (start_addr (heap_handlers h ! k)) + unat (allocated (heap_handlers h ! k)) \<and>
        unat (allocated (heap_handlers h' ! k)) = unat (allocated (heap_handlers h ! k)) + unat bytes \<and>
        (\<forall>i < unat (next_free_handler h). i \<noteq> k \<longrightarrow>
           heap_handlers h' ! i = heap_handlers h ! i \<and>
           block a bytes \<inter> handler_region (heap_handlers h ! i) = {})
    | Inl e \<Rightarrow> e = FAbort \<and> unat (heap_size (heap_handlers h ! k)) <
        unat (allocated (heap_handlers h ! k)) + unat bytes"
proof -
  let ?hh = "heap_handlers h ! k"
  have len: "length (heap_handlers h) = 10" "unat (next_free_handler h) \<le> 10"
    and hk: "unat (allocated ?hh) \<le> unat (heap_size ?hh)"
      "unat (start_addr ?hh) + unat (heap_size ?hh) < 0x80000000"
    and disj: "i < unat (next_free_handler h) \<Longrightarrow> i \<noteq> k \<Longrightarrow>
      handler_region (heap_handlers h ! k) \<inter> handler_region (heap_handlers h ! i) = {}" for i
    using assms(1,2) by (auto simp: heaps_ok_def Let_def) (metis disjoint_iff linorder_neqE_nat)
  have w: "unat (allocated ?hh + bytes) = unat (allocated ?hh) + unat bytes"
    "unat (start_addr ?hh + allocated ?hh) = unat (start_addr ?hh) + unat (allocated ?hh)"
    using hk assms(3) by (auto intro!: unat_add_no_wrap)
  show ?thesis
  proof (cases "unat (allocated ?hh) + unat bytes \<le> unat (heap_size ?hh)")
    case False
    then show ?thesis
      using len assms(2) w by (simp add: shmalloc_handler_def Let_def word_less_unat)
  next
    case True
    define h' where "h' = h\<lparr>heap_handlers := (heap_handlers h)[k := ?hh\<lparr>allocated := allocated ?hh + bytes\<rparr>]\<rparr>"
    have r: "shmalloc_handler k bytes h = Inr (start_addr ?hh + allocated ?hh, h')"
      using True len assms(2) w by (simp add: shmalloc_handler_def Let_def word_less_unat h'_def)
    have same: "handler_region (heap_handlers h' ! i) = handler_region (heap_handlers h ! i)" for i
      using len assms(2) by (cases "i = k") (auto simp: h'_def handler_region_def nth_list_update)
    have sel: "heap_handlers h' ! i = (if i = k then ?hh\<lparr>allocated := allocated ?hh + bytes\<rparr>
        else heap_handlers h ! i)" for i
      using len assms(2) by (auto simp: h'_def)
    have "heaps_ok h' g"
      using assms(1) True w unfolding heaps_ok_def same Let_def sel
      by (simp add: h'_def handler_region_def)
    moreover have "block (start_addr ?hh + allocated ?hh) bytes \<subseteq> handler_region ?hh"
      using True w by (auto simp: block_def handler_region_def)
    moreover have "unat (allocated (heap_handlers h' ! k)) = unat (allocated ?hh) + unat bytes"
      using w by (simp add: sel)
    ultimately show ?thesis using r w disj by (simp add: sel) blast
  qed
qed

definition demo_heaps :: heaps where
  "demo_heaps = \<lparr>heap_handlers = \<lparr>start_addr = 0x08000318, heap_size = 2048, allocated = 0\<rparr> #
      replicate 9 \<lparr>start_addr = 0, heap_size = 0, allocated = 0\<rparr>, next_free_handler = 1\<rparr>"

theorem handler_allocations_confined_witness:
  "case shmalloc_handler 0 548 demo_heaps of
      Inr (a, h') \<Rightarrow> heaps_ok h' ((reset_state 4)\<lparr>SHMEM_NEXT := 0x08000B18\<rparr>) \<and>
        block a 548 \<subseteq> handler_region (heap_handlers demo_heaps ! 0) \<and>
        unat a = unat (start_addr (heap_handlers demo_heaps ! 0)) +
          unat (allocated (heap_handlers demo_heaps ! 0)) \<and>
        unat (allocated (heap_handlers h' ! 0)) =
          unat (allocated (heap_handlers demo_heaps ! 0)) + unat (548::u32) \<and>
        (\<forall>i < unat (next_free_handler demo_heaps). i \<noteq> 0 \<longrightarrow>
           heap_handlers h' ! i = heap_handlers demo_heaps ! i \<and>
           block a 548 \<inter> handler_region (heap_handlers demo_heaps ! i) = {})
    | Inl e \<Rightarrow> e = FAbort \<and> unat (heap_size (heap_handlers demo_heaps ! 0)) <
        unat (allocated (heap_handlers demo_heaps ! 0)) + unat (548::u32)"
  by (rule handler_allocations_confined)
    (auto simp: heaps_ok_def demo_heaps_def handler_region_def)

end
