(* ===== verification/Gomp_Work.thy ===== *)
theory Gomp_Work
  imports Gomp_Mem
begin

text \<open>
  Work sharing (\<open>libgomp/work.c\<close>, \<open>iter.c\<close>, \<open>loop.c\<close>, \<open>sections.c\<close>,
  \<open>single.c\<close>). Every function takes the number of the calling processor
  (\<open>prv_proc_num\<close>) where the code reads it. The pair of out-parameters
  \<open>pstart\<close>, \<open>pend\<close> and the return value are one option: \<open>None\<close> for a return of 0
  (nothing is written), \<open>Some (start, end)\<close> for a return of 1. Signed
  comparisons are on \<open>sint\<close>; the arithmetic wraps on 32 bits. The blocking
  barrier that some functions end with is the argument \<open>barrier\<close>; its own
  steps are in \<open>Gomp_Barrier\<close>.
\<close>

section \<open>work.c\<close>

definition set_ws :: "addr \<Rightarrow> gomp_work_share \<Rightarrow> gomp \<Rightarrow> gomp" where
  "set_ws p w g = g\<lparr>work_shares := (work_shares g)(p := w)\<rparr>"

definition CURR_WS :: "gomp \<Rightarrow> nat \<Rightarrow> addr" where
  "CURR_WS g myid = work_share (teams g (CURR_TEAM g myid))"

definition curr_nthreads :: "gomp \<Rightarrow> nat \<Rightarrow> u32" where
  "curr_nthreads g myid = nthreads (teams g (CURR_TEAM g myid))"

definition gomp_new_work_share :: "gomp \<Rightarrow> (addr \<times> gomp) res" where
  "gomp_new_work_share g =
     res_bind (shmalloc sizeof_work_share g) (\<lambda>(p, g).
     res_bind (gomp_hal_lock NEXT_LOCK_LOCK_PTR g) (\<lambda>g.
     let v = tcdm g (next_lock g) + SIZEOF_INT * 2;
         g = g\<lparr>tcdm := (tcdm g)(next_lock g := v)\<rparr>;
         g = set_ws p ((work_shares g p)\<lparr>ws_lock := v\<rparr>) g in
     res_bind (vol_write g NEXT_LOCK_LOCK_PTR 0) (\<lambda>g.
     Inr (p, set_ws p ((work_shares g p)\<lparr>enter_lock := v + SIZEOF_INT, exit_lock := v + SIZEOF_INT\<rparr>) g))))"

text \<open>Leaves the enter lock taken; the callers release it.\<close>

definition gomp_work_share_start :: "addr \<Rightarrow> gomp \<Rightarrow> (bool \<times> gomp) res" where
  "gomp_work_share_start p g =
     res_bind (gomp_hal_lock (enter_lock (work_shares g p)) g) (\<lambda>g.
     if checkfirst (work_shares g p) \<noteq> WS_INITED
     then Inr (True, set_ws p ((work_shares g p)\<lparr>checkfirst := WS_INITED\<rparr>) g)
     else Inr (False, g))"

definition gomp_work_share_end_nowait :: "nat \<Rightarrow> addr \<Rightarrow> gomp \<Rightarrow> gomp" where
  "gomp_work_share_end_nowait myid p g =
     (let w = work_shares g p in
      if completed w = curr_nthreads g myid
      then set_ws p (w\<lparr>ws_end := 0, ws_next := 0, completed := 0, checkfirst := WS_NOT_INITED,
        ws_chunk_size := 0, ws_incr := 0\<rparr>) g
      else g)"

section \<open>iter.c\<close>

text \<open>The clamped chunk of lines 54 to 66: both functions of the file compute it.\<close>

definition next_chunk :: "u32 \<Rightarrow> u32 \<Rightarrow> u32 \<Rightarrow> u32 \<Rightarrow> u32" where
  "next_chunk chunk_size incr start stop =
     (let chunk = chunk_size * incr; left = stop - start in
      if sint incr < 0 then (if sint chunk < sint left then left else chunk)
      else (if sint left < sint chunk then left else chunk))"

definition gomp_iter_dynamic_next_locked ::
    "gomp_work_share \<Rightarrow> (u32 \<times> u32) option \<times> gomp_work_share" where
  "gomp_iter_dynamic_next_locked w =
     (let start = ws_next w in
      if start = ws_end w then (None, w)
      else let e = start + next_chunk (ws_chunk_size w) (ws_incr w) start (ws_end w) in
        (Some (start, e), w\<lparr>ws_next := e\<rparr>))"

definition gomp_iter_dynamic_next :: "addr \<Rightarrow> gomp \<Rightarrow> ((u32 \<times> u32) option \<times> gomp) res" where
  "gomp_iter_dynamic_next p g =
     res_bind (gomp_hal_lock (ws_lock (work_shares g p)) g) (\<lambda>g.
     let w = work_shares g p; start = ws_next w in
     if start = ws_end w
     then res_bind (gomp_hal_unlock (ws_lock w) g) (\<lambda>g. Inr (None, g))
     else
       let e = start + next_chunk (ws_chunk_size w) (ws_incr w) start (ws_end w);
           g = set_ws p (w\<lparr>ws_next := e\<rparr>) g in
       res_bind (gomp_hal_unlock (ws_lock w) g) (\<lambda>g. Inr (Some (start, e), g)))"

section \<open>loop.c\<close>

definition gomp_loop_init ::
    "u32 \<Rightarrow> u32 \<Rightarrow> u32 \<Rightarrow> u32 \<Rightarrow> gomp_work_share \<Rightarrow> gomp_work_share" where
  "gomp_loop_init start stop incr chunk_size w =
     w\<lparr>ws_chunk_size := chunk_size,
       ws_end := (if (0 < sint incr \<and> sint stop < sint start) \<or>
                     (sint incr < 0 \<and> sint start < sint stop) then start else stop),
       ws_incr := incr, ws_next := start, completed := 0\<rparr>"

definition gomp_loop_dynamic_start ::
    "addr \<Rightarrow> u32 \<Rightarrow> u32 \<Rightarrow> u32 \<Rightarrow> u32 \<Rightarrow> gomp \<Rightarrow> ((u32 \<times> u32) option \<times> gomp) res" where
  "gomp_loop_dynamic_start p start stop incr chunk_size g =
     res_bind (gomp_work_share_start p g) (\<lambda>(first, g).
     let g = (if first
       then set_ws p (gomp_loop_init start stop incr chunk_size (work_shares g p)) g else g) in
     res_bind (gomp_hal_unlock (enter_lock (work_shares g p)) g) (gomp_iter_dynamic_next p))"

definition gomp_loop_dynamic_next :: "addr \<Rightarrow> gomp \<Rightarrow> ((u32 \<times> u32) option \<times> gomp) res" where
  "gomp_loop_dynamic_next p g = gomp_iter_dynamic_next p g"

definition GOMP_loop_dynamic_start ::
    "nat \<Rightarrow> u32 \<Rightarrow> u32 \<Rightarrow> u32 \<Rightarrow> u32 \<Rightarrow> gomp \<Rightarrow> ((u32 \<times> u32) option \<times> gomp) res" where
  "GOMP_loop_dynamic_start myid start stop incr chunk_size g =
     (let p = CURR_WS g myid; l = ws_lock (work_shares g p) in
      res_bind (gomp_hal_lock l g) (\<lambda>g.
      let w = work_shares g p;
          w = (if checkfirst w \<noteq> WS_INITED
            then gomp_loop_init start stop incr chunk_size (w\<lparr>checkfirst := WS_INITED\<rparr>) else w);
          s = ws_next w in
      if s = ws_end w
      then res_bind (gomp_hal_unlock l (set_ws p w g)) (\<lambda>g. Inr (None, g))
      else
        let e = s + next_chunk chunk_size incr s (ws_end w);
            g = set_ws p (w\<lparr>ws_next := e\<rparr>) g in
        res_bind (gomp_hal_unlock l g) (\<lambda>g. Inr (Some (s, e), g))))"

definition GOMP_loop_dynamic_next :: "nat \<Rightarrow> gomp \<Rightarrow> ((u32 \<times> u32) option \<times> gomp) res" where
  "GOMP_loop_dynamic_next myid g = gomp_loop_dynamic_next (CURR_WS g myid) g"

definition GOMP_loop_end_nowait :: "nat \<Rightarrow> gomp \<Rightarrow> gomp res" where
  "GOMP_loop_end_nowait myid g =
     (let n = curr_nthreads g myid; p = CURR_WS g myid; l = exit_lock (work_shares g p) in
      res_bind (gomp_hal_lock l g) (\<lambda>g.
      let w = work_shares g p; w = w\<lparr>completed := completed w + 1\<rparr>;
          w = (if completed w = n then w\<lparr>completed := 0, checkfirst := WS_NOT_INITED\<rparr> else w) in
      gomp_hal_unlock l (set_ws p w g)))"

definition GOMP_loop_end :: "(nat \<Rightarrow> gomp \<Rightarrow> gomp res) \<Rightarrow> nat \<Rightarrow> gomp \<Rightarrow> gomp res" where
  "GOMP_loop_end barrier myid g =
     (let n = curr_nthreads g myid; p = CURR_WS g myid; l = exit_lock (work_shares g p) in
      res_bind (gomp_hal_lock l g) (\<lambda>g.
      let w = work_shares g p; w = w\<lparr>completed := completed w + 1\<rparr>;
          w = (if completed w = n then w\<lparr>completed := 0, checkfirst := WS_NOT_INITED\<rparr> else w) in
      res_bind (gomp_hal_unlock l (set_ws p w g)) (barrier myid)))"

section \<open>sections.c\<close>

definition gomp_sections_init :: "u32 \<Rightarrow> gomp_work_share \<Rightarrow> gomp_work_share" where
  "gomp_sections_init count w =
     w\<lparr>ws_end := count + 1, ws_next := 1, completed := 0, ws_chunk_size := 1, ws_incr := 1\<rparr>"

definition section_of :: "(u32 \<times> u32) option \<Rightarrow> u32" where
  "section_of r = (case r of Some (s, e) \<Rightarrow> s | None \<Rightarrow> 0)"

definition gomp_sections_start :: "addr \<Rightarrow> u32 \<Rightarrow> gomp \<Rightarrow> (u32 \<times> gomp) res" where
  "gomp_sections_start p count g =
     res_bind (gomp_work_share_start p g) (\<lambda>(first, g).
     let g = (if first then set_ws p (gomp_sections_init count (work_shares g p)) g else g) in
     res_bind (gomp_hal_unlock (enter_lock (work_shares g p)) g) (\<lambda>g.
     res_bind (gomp_iter_dynamic_next p g) (\<lambda>(r, g). Inr (section_of r, g))))"

definition gomp_sections_next :: "addr \<Rightarrow> gomp \<Rightarrow> (u32 \<times> gomp) res" where
  "gomp_sections_next p g =
     res_bind (gomp_iter_dynamic_next p g) (\<lambda>(r, g). Inr (section_of r, g))"

definition gomp_sections_end_nowait :: "nat \<Rightarrow> addr \<Rightarrow> gomp \<Rightarrow> gomp res" where
  "gomp_sections_end_nowait myid p g =
     (let n = curr_nthreads g myid; l = exit_lock (work_shares g p) in
      res_bind (gomp_hal_lock l g) (\<lambda>g.
      let w = work_shares g p; g = set_ws p (w\<lparr>completed := completed w + 1\<rparr>) g in
      if completed (work_shares g p) = n
      then res_bind (gomp_hal_unlock l g) (\<lambda>g. Inr (gomp_work_share_end_nowait myid p g))
      else gomp_hal_unlock l g))"

definition gomp_sections_end :: "(nat \<Rightarrow> gomp \<Rightarrow> gomp res) \<Rightarrow> nat \<Rightarrow> addr \<Rightarrow> gomp \<Rightarrow> gomp res" where
  "gomp_sections_end barrier myid p g =
     res_bind (gomp_sections_end_nowait myid p g) (barrier myid)"

definition gomp_loop_end_nowait :: "nat \<Rightarrow> addr \<Rightarrow> gomp \<Rightarrow> gomp res" where
  "gomp_loop_end_nowait myid p g = gomp_sections_end_nowait myid p g"

definition gomp_loop_end :: "(nat \<Rightarrow> gomp \<Rightarrow> gomp res) \<Rightarrow> nat \<Rightarrow> addr \<Rightarrow> gomp \<Rightarrow> gomp res" where
  "gomp_loop_end barrier myid p g = res_bind (gomp_loop_end_nowait myid p g) (barrier myid)"

definition GOMP_sections_start :: "nat \<Rightarrow> u32 \<Rightarrow> gomp \<Rightarrow> (u32 \<times> gomp) res" where
  "GOMP_sections_start myid count g =
     (let p = CURR_WS g myid; l = ws_lock (work_shares g p) in
      res_bind (gomp_hal_lock l g) (\<lambda>g.
      let w = work_shares g p;
          w = (if checkfirst w \<noteq> WS_INITED
            then w\<lparr>checkfirst := WS_INITED, ws_end := count + 1, ws_next := 1, completed := 0,
              ws_chunk_size := 1, ws_incr := 1\<rparr> else w) in
      if ws_next w = ws_end w
      then res_bind (gomp_hal_unlock l (set_ws p w g)) (\<lambda>g. Inr (0, g))
      else res_bind (gomp_hal_unlock l (set_ws p (w\<lparr>ws_next := ws_next w + 1\<rparr>) g))
        (\<lambda>g. Inr (ws_next w, g))))"

definition GOMP_sections_next :: "nat \<Rightarrow> gomp \<Rightarrow> (u32 \<times> gomp) res" where
  "GOMP_sections_next myid g = gomp_sections_next (CURR_WS g myid) g"

definition GOMP_sections_end :: "(nat \<Rightarrow> gomp \<Rightarrow> gomp res) \<Rightarrow> nat \<Rightarrow> gomp \<Rightarrow> gomp res" where
  "GOMP_sections_end barrier myid g = gomp_sections_end barrier myid (CURR_WS g myid) g"

definition GOMP_sections_end_nowait :: "nat \<Rightarrow> gomp \<Rightarrow> gomp res" where
  "GOMP_sections_end_nowait myid g = gomp_sections_end_nowait myid (CURR_WS g myid) g"

text \<open>Prints a warning and returns -1.\<close>

definition GOMP_parallel_sections_start :: "u32 \<Rightarrow> gomp \<Rightarrow> u32 \<times> gomp" where
  "GOMP_parallel_sections_start count g = (- 1, g)"

section \<open>single.c\<close>

definition gomp_single_start :: "nat \<Rightarrow> addr \<Rightarrow> gomp \<Rightarrow> (bool \<times> gomp) res" where
  "gomp_single_start myid p g =
     res_bind (gomp_work_share_start p g) (\<lambda>(ret, g).
     let p = CURR_WS g myid in
     res_bind (gomp_hal_unlock (enter_lock (work_shares g p)) g) (\<lambda>g.
     res_bind (gomp_hal_lock (exit_lock (work_shares g p)) g) (\<lambda>g.
     let w = work_shares g p; w = w\<lparr>completed := completed w + 1\<rparr>;
         w = (if completed w = curr_nthreads g myid then w\<lparr>checkfirst := WS_NOT_INITED\<rparr> else w);
         g = set_ws p w g in
     res_bind (gomp_hal_unlock (exit_lock (work_shares g p)) g) (\<lambda>g.
     Inr (ret, gomp_work_share_end_nowait myid p g)))))"

definition GOMP_single_start :: "nat \<Rightarrow> gomp \<Rightarrow> (bool \<times> gomp) res" where
  "GOMP_single_start myid g =
     (let n = curr_nthreads g myid; p = CURR_WS g myid; l = ws_lock (work_shares g p) in
      res_bind (gomp_hal_lock l g) (\<lambda>g.
      let w = work_shares g p; ret = (checkfirst w \<noteq> WS_INITED);
          w = (if ret then w\<lparr>checkfirst := WS_INITED, completed := 0\<rparr> else w);
          w = w\<lparr>completed := completed w + 1\<rparr>;
          w = (if completed w = n then w\<lparr>checkfirst := WS_NOT_INITED\<rparr> else w) in
      res_bind (gomp_hal_unlock l (set_ws p w g)) (\<lambda>g. Inr (ret, g))))"

section \<open>Locked updates of one work share\<close>

lemma set_ws_fields [simp]:
  "sem (set_ws p w g) = sem g" "tcdm (set_ws p w g) = tcdm g" "teams (set_ws p w g) = teams g"
  "CURR_TEAM (set_ws p w g) = CURR_TEAM g" "work_shares (set_ws p w g) p = w"
  "q \<noteq> p \<Longrightarrow> work_shares (set_ws p w g) q = work_shares g q"
  "thread_pool (set_ws p w g) = thread_pool g" "idle_cores (set_ws p w g) = idle_cores g"
  "SHMEM_NEXT (set_ws p w g) = SHMEM_NEXT g" "next_lock (set_ws p w g) = next_lock g"
  "set_ws p w' (set_ws p w g) = set_ws p w' g" "set_ws p (work_shares g p) g = g"
  "sem_ok (set_ws p w g) = sem_ok g" "lock_word (set_ws p w g) a = lock_word g a"
  "lock_addr (set_ws p w g) a = lock_addr g a"
  "CURR_WS (set_ws p w g) = CURR_WS g" "curr_nthreads (set_ws p w g) = curr_nthreads g"
  by (simp_all add: set_ws_def sem_ok_def lock_word_def lock_addr_def CURR_WS_def
      curr_nthreads_def fun_eq_iff)

lemma sem_put_ws: "sem_put (set_ws p w g) a v = set_ws p w (sem_put g a v)"
  by (simp add: set_ws_def sem_put_def)

lemma curr_sem_put [simp]:
  "CURR_WS (sem_put g a v) = CURR_WS g" "curr_nthreads (sem_put g a v) = curr_nthreads g"
  by (simp_all add: CURR_WS_def curr_nthreads_def fun_eq_iff)

text \<open>The lock \<open>a\<close> can be taken.\<close>

definition lock_free :: "gomp \<Rightarrow> addr \<Rightarrow> bool" where
  "lock_free g a \<longleftrightarrow> lock_addr g a \<and> lock_word g a = 0"

lemma lock_free_set_ws [simp]: "lock_free (set_ws p w g) a = lock_free g a"
  by (simp add: lock_free_def)

lemma hal_lock_free: "lock_free g a \<Longrightarrow> gomp_hal_lock a g = Inr (sem_put g a 1)"
  by (simp add: lock_free_def hal_lock_eq)

lemma hal_unlock_ws:
  "lock_free g a \<Longrightarrow> gomp_hal_unlock a (set_ws p w (sem_put g a 1)) = Inr (set_ws p w g)"
  by (simp add: hal_unlock_eq lock_free_def sem_put_ws sem_put_same)

lemma hal_unlock_same: "lock_free g a \<Longrightarrow> gomp_hal_unlock a (sem_put g a 1) = Inr g"
  by (simp add: hal_unlock_eq lock_free_def sem_put_same)

lemmas locked = hal_lock_free hal_unlock_ws hal_unlock_same

lemma iter_dynamic_next_eq:
  assumes "lock_free g (ws_lock (work_shares g p))"
  shows "gomp_iter_dynamic_next p g =
    (case gomp_iter_dynamic_next_locked (work_shares g p) of (r, w) \<Rightarrow> Inr (r, set_ws p w g))"
  using assms by (simp add: gomp_iter_dynamic_next_def gomp_iter_dynamic_next_locked_def Let_def locked)

text \<open>What the first call of a loop makes of the work share.\<close>

definition loop_enter :: "u32 \<Rightarrow> u32 \<Rightarrow> u32 \<Rightarrow> u32 \<Rightarrow> gomp_work_share \<Rightarrow> gomp_work_share" where
  "loop_enter start stop incr chunk_size w =
     (if checkfirst w \<noteq> WS_INITED
      then gomp_loop_init start stop incr chunk_size (w\<lparr>checkfirst := WS_INITED\<rparr>) else w)"

lemma GOMP_loop_dynamic_start_eq:
  fixes g :: gomp and myid :: nat
  defines "p \<equiv> CURR_WS g myid"
  assumes "lock_free g (ws_lock (work_shares g p))"
    and "checkfirst (work_shares g p) = WS_INITED \<Longrightarrow>
      ws_chunk_size (work_shares g p) = chunk_size \<and> ws_incr (work_shares g p) = incr"
  shows "GOMP_loop_dynamic_start myid start stop incr chunk_size g =
    (case gomp_iter_dynamic_next_locked (loop_enter start stop incr chunk_size (work_shares g p)) of
       (r, w) \<Rightarrow> Inr (r, set_ws p w g))"
  using assms(2,3)
  by (auto simp: GOMP_loop_dynamic_start_def p_def [symmetric] Let_def locked loop_enter_def
      gomp_iter_dynamic_next_locked_def gomp_loop_init_def)

section \<open>The schedule of a dynamic loop\<close>

text \<open>
  The abstract specification: calls hand out the pieces of the interval from
  \<open>s\<close> to \<open>e\<close> in steps of \<open>c\<close> (towards lower numbers when \<open>c\<close> is negative), the last
  piece cut at \<open>e\<close>; when nothing is left every call returns 0.
\<close>

definition clip :: "int \<Rightarrow> int \<Rightarrow> int \<Rightarrow> int" where
  "clip s e c = (if c < 0 then max (s + c) e else min (s + c) e)"

fun chunk_seq :: "nat \<Rightarrow> int \<Rightarrow> int \<Rightarrow> int \<Rightarrow> (int \<times> int) option list" where
  "chunk_seq 0 s e c = []"
| "chunk_seq (Suc n) s e c =
     (if s = e then None # chunk_seq n s e c else Some (s, clip s e c) # chunk_seq n (clip s e c) e c)"

text \<open>The iterations of the source loop in a piece: from \<open>a\<close> in steps of \<open>k\<close>, before \<open>b\<close>.\<close>

definition iters :: "int \<Rightarrow> int \<Rightarrow> int \<Rightarrow> int set" where
  "iters k a b = {x. \<exists>j \<ge> 0. x = a + j * k \<and> (if 0 < k then x < b else b < x)}"

definition pieces :: "(int \<times> int) option list \<Rightarrow> (int \<times> int) list" where
  "pieces rs = map the (filter (\<lambda>r. r \<noteq> None) rs)"

definition iters_of :: "int \<Rightarrow> (int \<times> int) list \<Rightarrow> int set" where
  "iters_of k ps = (\<Union>(a, b) \<in> set ps. iters k a b)"

text \<open>Pieces that share no iteration, whatever their order.\<close>

fun separate :: "int \<Rightarrow> (int \<times> int) list \<Rightarrow> bool" where
  "separate k [] = True"
| "separate k ((a, b) # ps) = (iters k a b \<inter> iters_of k ps = {} \<and> separate k ps)"

lemma iters_bounds: "0 < k \<Longrightarrow> x \<in> iters k a b \<Longrightarrow> a \<le> x \<and> x < b"
  by (auto simp: iters_def)

lemma iters_same [simp]: "iters k e e = {}"
proof -
  have "\<not> (0 < k \<and> j * k < 0)" "\<not> (k \<le> 0 \<and> 0 < j * k)" if "0 \<le> j" for j
    using that by (auto simp: mult_less_0_iff zero_less_mult_iff)
  then show ?thesis by (auto simp: iters_def)
qed

lemma iters_minus:
  assumes "k \<noteq> 0"
  shows "iters (- k) (- a) (- b) = uminus ` iters k a b"
proof (rule set_eqI)
  fix x
  have "x \<in> iters (- k) (- a) (- b) \<longleftrightarrow> - x \<in> iters k a b"
    using assms by (auto simp: iters_def)
  also have "\<dots> \<longleftrightarrow> x \<in> uminus ` iters k a b"
    by (auto intro: image_eqI [of _ _ "- x"])
  finally show "x \<in> iters (- k) (- a) (- b) \<longleftrightarrow> x \<in> uminus ` iters k a b" .
qed

lemma clip_minus: "c \<noteq> 0 \<Longrightarrow> clip (- s) (- e) (- c) = - clip s e c"
  by (auto simp: clip_def)

lemma iters_split_pos:
  assumes "0 < k" "0 \<le> m" "s + m * k \<le> e"
  shows "iters k s e = iters k s (s + m * k) \<union> iters k (s + m * k) e"
    and "iters k s (s + m * k) \<inter> iters k (s + m * k) e = {}"
proof -
  show "iters k s (s + m * k) \<inter> iters k (s + m * k) e = {}"
    using iters_bounds [OF assms(1), of _ s "s + m * k"] iters_bounds [OF assms(1), of _ "s + m * k" e]
    by fastforce
  show "iters k s e = iters k s (s + m * k) \<union> iters k (s + m * k) e"
  proof (intro set_eqI iffI)
    fix x assume "x \<in> iters k s e"
    then obtain j where j: "0 \<le> j" "x = s + j * k" "x < e" using assms(1) by (auto simp: iters_def)
    show "x \<in> iters k s (s + m * k) \<union> iters k (s + m * k) e"
    proof (cases "j < m")
      case True
      then have "j * k < m * k" using assms(1) by simp
      then show ?thesis using j assms(1) by (auto simp: iters_def)
    next
      case False
      then have "x = s + m * k + (j - m) * k" "0 \<le> j - m" using j by (auto simp: algebra_simps)
      then show ?thesis using j assms(1) by (auto simp: iters_def)
    qed
  next
    fix x assume "x \<in> iters k s (s + m * k) \<union> iters k (s + m * k) e"
    then show "x \<in> iters k s e"
    proof
      assume x: "x \<in> iters k s (s + m * k)"
      then have "x < e" using iters_bounds [OF assms(1) x] assms(3) by simp
      then show ?thesis using x assms(1) by (auto simp: iters_def)
    next
      assume "x \<in> iters k (s + m * k) e"
      then obtain j where "0 \<le> j" "x = s + (m + j) * k" "x < e"
        using assms(1) by (auto simp: iters_def algebra_simps)
      then show ?thesis using assms by (auto simp: iters_def intro!: exI [of _ "m + j"])
    qed
  qed
qed

lemma iters_clip_pos:
  assumes "0 < k" "0 \<le> m" "s \<le> e"
  shows "iters k s e = iters k s (clip s e (m * k)) \<union> iters k (clip s e (m * k)) e \<and>
    iters k s (clip s e (m * k)) \<inter> iters k (clip s e (m * k)) e = {}"
proof (cases "s + m * k \<le> e")
  case True
  have "0 \<le> m * k" using assms by simp
  then show ?thesis using True iters_split_pos [OF assms(1,2) True] by (simp add: clip_def)
next
  case False
  then have "clip s e (m * k) = e" using assms by (simp add: clip_def mult_nonneg_nonneg)
  then show ?thesis by simp
qed

text \<open>\<open>toward k s e\<close>: stepping by \<open>k\<close> from \<open>s\<close> moves to \<open>e\<close>.\<close>

definition toward :: "int \<Rightarrow> int \<Rightarrow> int \<Rightarrow> bool" where
  "toward k s e \<longleftrightarrow> (0 < k \<and> s \<le> e) \<or> (k < 0 \<and> e \<le> s)"

lemma iters_clip:
  assumes "toward k s e" "0 < m"
  shows "iters k s e = iters k s (clip s e (m * k)) \<union> iters k (clip s e (m * k)) e \<and>
    iters k s (clip s e (m * k)) \<inter> iters k (clip s e (m * k)) e = {}"
proof (cases "0 < k")
  case True
  then show ?thesis using iters_clip_pos [of k m s e] assms by (simp add: toward_def)
next
  case False
  then have k: "k < 0" "e \<le> s" using assms by (auto simp: toward_def)
  then have mk: "m * k \<noteq> 0" using assms(2) by simp
  have neg: "iters k a b = uminus ` iters (- k) (- a) (- b)" for a b
    using iters_minus [of "- k" "- a" "- b"] k by simp
  have "clip (- s) (- e) (m * - k) = - clip s e (m * k)"
    using clip_minus [OF mk, of s e] by simp
  then show ?thesis
    using iters_clip_pos [of "- k" m "- s" "- e"] k assms(2)
    by (simp add: neg image_Un [symmetric] image_Int [symmetric] inj_on_def)
qed

lemma toward_clip: "toward k s e \<Longrightarrow> 0 < m \<Longrightarrow> toward k (clip s e (m * k)) e"
  by (auto simp: toward_def clip_def)

lemma iters_empty:
  assumes "\<not> toward k a b" "k \<noteq> 0"
  shows "iters k a b = {}"
proof (cases "0 < k")
  case True
  then show ?thesis using assms iters_bounds [OF True, of _ a b] by (fastforce simp: toward_def)
next
  case False
  then have k: "0 < - k" using assms by simp
  have "iters (- k) (- a) (- b) = {}"
    using assms k iters_bounds [OF k, of _ "- a" "- b"] by (fastforce simp: toward_def)
  then show ?thesis using iters_minus [OF assms(2), of a b] by simp
qed

lemma chunk_seq_length: "length (chunk_seq n s e c) = n"
  by (induction n arbitrary: s) auto

text \<open>After \<open>n\<close> calls the pieces are separate and, with what is left, make up the loop.\<close>

fun chunk_rest :: "nat \<Rightarrow> int \<Rightarrow> int \<Rightarrow> int \<Rightarrow> int" where
  "chunk_rest 0 s e c = s"
| "chunk_rest (Suc n) s e c = (if s = e then e else chunk_rest n (clip s e c) e c)"

lemma chunk_seq_partition:
  assumes "toward k s e" "0 < m"
  shows "separate k (pieces (chunk_seq n s e (m * k))) \<and>
    iters k s e = iters_of k (pieces (chunk_seq n s e (m * k))) \<union> iters k (chunk_rest n s e (m * k)) e \<and>
    iters_of k (pieces (chunk_seq n s e (m * k))) \<inter> iters k (chunk_rest n s e (m * k)) e = {}"
  using assms
proof (induction n arbitrary: s)
  case (Suc n)
  show ?case
  proof (cases "s = e")
    case True
    have "pieces (chunk_seq n e e (m * k)) = []"
      by (induction n) (auto simp: pieces_def)
    then show ?thesis using True by (simp add: pieces_def iters_of_def)
  next
    case False
    define t where "t = clip s e (m * k)"
    have IH: "separate k (pieces (chunk_seq n t e (m * k))) \<and>
      iters k t e = iters_of k (pieces (chunk_seq n t e (m * k))) \<union> iters k (chunk_rest n t e (m * k)) e \<and>
      iters_of k (pieces (chunk_seq n t e (m * k))) \<inter> iters k (chunk_rest n t e (m * k)) e = {}"
      using Suc.IH [of t] Suc.prems toward_clip by (simp add: t_def)
    have sp: "iters k s e = iters k s t \<union> iters k t e" "iters k s t \<inter> iters k t e = {}"
      using iters_clip [OF Suc.prems] by (auto simp: t_def)
    have "pieces (chunk_seq (Suc n) s e (m * k)) = (s, t) # pieces (chunk_seq n t e (m * k))"
      using False by (simp add: pieces_def t_def)
    moreover have "iters_of k ((s, t) # ps) = iters k s t \<union> iters_of k ps" for ps
      by (simp add: iters_of_def)
    ultimately show ?thesis using IH sp False by (auto simp: t_def [symmetric])
  qed
qed (simp add: pieces_def iters_of_def)

lemma chunk_rest_done:
  assumes "toward k s e" "0 < m" "\<bar>e - s\<bar> \<le> int n * (m * \<bar>k\<bar>)"
  shows "chunk_rest n s e (m * k) = e"
  using assms
proof (induction n arbitrary: s)
  case (Suc n)
  have nn: "0 \<le> int n * (m * \<bar>k\<bar>)" using Suc.prems by simp
  have "\<bar>e - clip s e (m * k)\<bar> \<le> int n * (m * \<bar>k\<bar>)" if "s \<noteq> e"
  proof (cases "0 < k")
    case True
    then have "0 < m * k" using Suc.prems by simp
    moreover have "\<bar>e - s\<bar> \<le> m * k + int n * (m * \<bar>k\<bar>)"
      using Suc.prems True by (simp add: distrib_right)
    ultimately show ?thesis using Suc.prems(1) True nn
      by (auto simp: toward_def clip_def min_def abs_le_iff)
  next
    case False
    then have k: "k < 0" "m * k < 0" using Suc.prems by (auto simp: toward_def mult_pos_neg)
    moreover have "\<bar>e - s\<bar> \<le> - (m * k) + int n * (m * \<bar>k\<bar>)"
      using Suc.prems k by (simp add: distrib_right)
    ultimately show ?thesis using Suc.prems(1) False nn
      by (auto simp: toward_def clip_def max_def abs_le_iff)
  qed
  then show ?case using Suc.IH [OF toward_clip] Suc.prems by simp
qed simp

text \<open>A call gets nothing exactly when the calls before it have taken every iteration.\<close>

lemma chunk_rest_toward:
  assumes "toward k s e" "0 < m"
  shows "toward k (chunk_rest n s e (m * k)) e"
  using assms
proof (induction n arbitrary: s)
  case (Suc n)
  then show ?case using toward_clip [of k s e m] by (cases "s = e") simp_all
qed simp

lemma iters_none: "toward k s e \<Longrightarrow> iters k s e = {} \<longleftrightarrow> s = e"
proof
  assume t: "toward k s e" and none: "iters k s e = {}"
  then have "s \<notin> iters k s e" by simp
  then have "\<not> (if 0 < k then s < e else e < s)" by (simp add: iters_def) (metis add.right_neutral mult_zero_left order_refl)
  then show "s = e" using t by (auto simp: toward_def split: if_splits)
next
  assume "toward k s e" "s = e"
  then show "iters k s e = {}" using iters_bounds by (force simp: iters_def toward_def zero_le_mult_iff mult_le_0_iff)
qed

lemma chunk_seq_take: "j \<le> n \<Longrightarrow> take j (chunk_seq n s e c) = chunk_seq j s e c"
proof (induction n arbitrary: j s)
  case (Suc n)
  then show ?case by (cases j) auto
qed simp

lemma chunk_seq_stays: "j < n \<Longrightarrow> chunk_seq n e e c ! j = None"
proof (induction n arbitrary: j)
  case (Suc n)
  then show ?case by (cases j) simp_all
qed simp

lemma chunk_seq_None: "j < n \<Longrightarrow> chunk_seq n s e c ! j = None \<longleftrightarrow> chunk_rest j s e c = e"
proof (induction n arbitrary: j s)
  case (Suc n)
  then show ?case by (cases j) (auto simp: chunk_seq_stays)
qed simp

lemma chunk_seq_exhausted:
  assumes "toward k s e" "0 < m" "j < n"
  shows "chunk_seq n s e (m * k) ! j = None \<longleftrightarrow>
    iters_of k (pieces (take j (chunk_seq n s e (m * k)))) = iters k s e"
proof -
  note part = chunk_seq_partition [OF assms(1,2), of j]
  have "chunk_rest j s e (m * k) = e \<longleftrightarrow> iters k (chunk_rest j s e (m * k)) e = {}"
    using iters_none [OF chunk_rest_toward [OF assms(1,2)]] by simp
  also have "\<dots> \<longleftrightarrow> iters_of k (pieces (chunk_seq j s e (m * k))) = iters k s e" using part by blast
  finally show ?thesis using assms(3) by (simp add: chunk_seq_None chunk_seq_take)
qed

text \<open>The work share of a loop whose remaining interval runs from \<open>s\<close> to \<open>e\<close> in steps of \<open>k\<close>,
  \<open>m\<close> iterations to a chunk.\<close>

definition ws_loop :: "gomp_work_share \<Rightarrow> int \<Rightarrow> int \<Rightarrow> int \<Rightarrow> int \<Rightarrow> bool" where
  "ws_loop w s e k m \<longleftrightarrow> checkfirst w = WS_INITED \<and> sint (ws_next w) = s \<and> sint (ws_end w) = e \<and>
     sint (ws_incr w) = k \<and> sint (ws_chunk_size w) = m \<and> 0 < m \<and> toward k s e \<and>
     in_s32 (m * k) \<and> in_s32 (e - s)"

definition as_ints :: "(u32 \<times> u32) option \<Rightarrow> (int \<times> int) option" where
  "as_ints r = map_option (\<lambda>(a, b). (sint a, sint b)) r"

lemma sint_eq_iff32: "sint (a :: u32) = sint b \<longleftrightarrow> a = b"
  by (metis signed_word_eqI)

lemma next_locked_step:
  assumes "ws_loop w s e k m" "gomp_iter_dynamic_next_locked w = (r, w')"
  shows "as_ints r = (if s = e then None else Some (s, clip s e (m * k))) \<and>
    ws_loop w' (if s = e then s else clip s e (m * k)) e k m \<and> w' = w\<lparr>ws_next := ws_next w'\<rparr>"
proof (cases "s = e")
  case True
  then have "ws_next w = ws_end w" using assms(1) by (auto simp: ws_loop_def sint_eq_iff32 [symmetric])
  then show ?thesis using assms True by (simp add: gomp_iter_dynamic_next_locked_def as_ints_def)
next
  case False
  let ?n = "ws_next w" and ?e = "ws_end w"
  have ne: "?n \<noteq> ?e" using assms(1) False by (auto simp: ws_loop_def)
  have si: "sint ?n = s" "sint ?e = e" "sint (ws_incr w) = k" "sint (ws_chunk_size w) = m"
    "0 < m" "toward k s e" "in_s32 (m * k)" "in_s32 (e - s)"
    using assms(1) by (auto simp: ws_loop_def)
  have chunk: "sint (ws_chunk_size w * ws_incr w) = m * k" and left: "sint (?e - ?n) = e - s"
    using si by (simp_all add: sint_arith32)
  have sg: "m * k < 0 \<longleftrightarrow> k < 0" using si(5) by (simp add: mult_less_0_iff)
  let ?c = "next_chunk (ws_chunk_size w) (ws_incr w) ?n ?e"
  have c: "sint ?c = clip s e (m * k) - s"
    using si(6) unfolding next_chunk_def Let_def clip_def sg si(3)
    by (auto simp: chunk left toward_def min_def max_def)
  have between: "(s \<le> clip s e (m * k) \<and> clip s e (m * k) \<le> e) \<or> (e \<le> clip s e (m * k) \<and> clip s e (m * k) \<le> s)"
    using si(5,6) sg by (auto simp: toward_def clip_def mult_nonneg_nonneg)
  moreover have "in_s32 s" "in_s32 e" using si(1,2) sint_in_s32 by blast+
  ultimately have r: "in_s32 (clip s e (m * k))" "in_s32 (e - clip s e (m * k))"
    using si(8) unfolding in_s32_def by linarith+
  have "sint (?n + ?c) = clip s e (m * k)"
    using c r si(1) by (simp add: sint_arith32)
  moreover have "toward k (clip s e (m * k)) e" using toward_clip si by blast
  moreover have "w' = w\<lparr>ws_next := ?n + ?c\<rparr>" "r = Some (?n, ?n + ?c)"
    using assms(2) ne by (auto simp: gomp_iter_dynamic_next_locked_def Let_def)
  moreover have "checkfirst w = WS_INITED" using assms(1) by (simp add: ws_loop_def)
  ultimately show ?thesis
    using False si r by (simp add: as_ints_def ws_loop_def)
qed

datatype loop_call = Start nat | Next nat

fun caller :: "loop_call \<Rightarrow> nat" where
  "caller (Start p) = p"
| "caller (Next p) = p"

text \<open>A schedule of calls of the two entry points, by any processors in any order.\<close>

fun loop_run :: "u32 \<Rightarrow> u32 \<Rightarrow> u32 \<Rightarrow> u32 \<Rightarrow> loop_call list \<Rightarrow> gomp \<Rightarrow>
    ((u32 \<times> u32) option list \<times> gomp) res" where
  "loop_run start stop incr chunk [] g = Inr ([], g)"
| "loop_run start stop incr chunk (x # xs) g =
     res_bind (case x of Start p \<Rightarrow> GOMP_loop_dynamic_start p start stop incr chunk g
        | Next p \<Rightarrow> GOMP_loop_dynamic_next p g) (\<lambda>(r, g).
     res_bind (loop_run start stop incr chunk xs g) (\<lambda>(rs, g). Inr (r # rs, g)))"

lemma loop_run_inited:
  assumes "ws_loop (work_shares g p) s e (sint incr) (sint chunk)"
    and "lock_free g (ws_lock (work_shares g p))"
    and "\<forall>x \<in> set xs. CURR_WS g (caller x) = p"
  shows "\<exists>rs g'. loop_run start stop incr chunk xs g = Inr (rs, g') \<and>
    map as_ints rs = chunk_seq (length xs) s e (sint chunk * sint incr)"
  using assms
proof (induction xs arbitrary: g s)
  case (Cons x xs)
  obtain r w where rw: "gomp_iter_dynamic_next_locked (work_shares g p) = (r, w)" by fastforce
  note st = next_locked_step [OF Cons.prems(1) rw]
  have ini: "checkfirst (work_shares g p) = WS_INITED" "ws_incr (work_shares g p) = incr"
    "ws_chunk_size (work_shares g p) = chunk"
    using Cons.prems(1) by (auto simp: ws_loop_def sint_eq_iff32)
  have first: "(case x of Start q \<Rightarrow> GOMP_loop_dynamic_start q start stop incr chunk g
      | Next q \<Rightarrow> GOMP_loop_dynamic_next q g) = Inr (r, set_ws p w g)"
    using Cons.prems(2,3) rw ini
    by (cases x) (simp_all add: GOMP_loop_dynamic_start_eq loop_enter_def GOMP_loop_dynamic_next_def
        gomp_loop_dynamic_next_def iter_dynamic_next_eq)
  have lk: "ws_lock w = ws_lock (work_shares g p)" using st by (metis gomp_work_share.select_convs(1)
        gomp_work_share.surjective gomp_work_share.update_convs(3))
  obtain rs g' where "loop_run start stop incr chunk xs (set_ws p w g) = Inr (rs, g')"
    "map as_ints rs = chunk_seq (length xs) (if s = e then s else clip s e (sint chunk * sint incr)) e
       (sint chunk * sint incr)"
    using Cons.IH [of "set_ws p w g"] st Cons.prems(2,3) lk by fastforce
  then show ?case using first st by (auto split: if_splits)
qed simp

text \<open>C4: whatever processors of the team call the entry points of a dynamic loop, and in
  whatever order, the pieces they receive share no iteration and contain only iterations of the
  loop; a call returns 0 exactly if the calls before it have received every iteration, and that is
  so once enough calls were made. This holds for loops that count up and down, also when the loop has no iteration,
  for a positive chunk size and a step other than zero, as long as \<open>chunk * incr\<close> and \<open>stop - start\<close>, which
  the code computes as \<open>int\<close>, do not overflow.\<close>

theorem dynamic_loop_partitions:
  assumes "lock_free g (ws_lock (work_shares g p))"
    and "checkfirst (work_shares g p) \<noteq> WS_INITED"
    and "\<forall>x \<in> set xs. CURR_WS g (caller x) = p"
    and "xs = Start q # ys"
    and "0 < sint chunk" "sint incr \<noteq> 0"
    and "in_s32 (sint chunk * sint incr)" "in_s32 (sint stop - sint start)"
  shows "\<exists>rs g'. loop_run start stop incr chunk xs g = Inr (rs, g') \<and> length rs = length xs \<and>
    separate (sint incr) (pieces (map as_ints rs)) \<and>
    iters_of (sint incr) (pieces (map as_ints rs)) \<subseteq> iters (sint incr) (sint start) (sint stop) \<and>
    (\<bar>sint stop - sint start\<bar> \<le> int (length xs) * \<bar>sint chunk * sint incr\<bar> \<longrightarrow>
       iters_of (sint incr) (pieces (map as_ints rs)) = iters (sint incr) (sint start) (sint stop)) \<and>
    (\<forall>j < length rs. rs ! j = None \<longleftrightarrow>
       iters_of (sint incr) (pieces (map as_ints (take j rs))) = iters (sint incr) (sint start) (sint stop))"
proof -
  let ?k = "sint incr" and ?m = "sint chunk"
  define e where "e = (if (0 < ?k \<and> sint stop < sint start) \<or> (?k < 0 \<and> sint start < sint stop)
    then start else stop)"
  define w0 where "w0 = loop_enter start stop incr chunk (work_shares g p)"
  have w0: "ws_loop w0 (sint start) (sint e) ?k ?m" "ws_lock w0 = ws_lock (work_shares g p)"
    using assms by (auto simp: w0_def loop_enter_def gomp_loop_init_def ws_loop_def e_def toward_def
        in_s32_def)
  have same: "loop_run start stop incr chunk xs g = loop_run start stop incr chunk xs (set_ws p w0 g)"
  proof -
    have "GOMP_loop_dynamic_start q start stop incr chunk g =
        GOMP_loop_dynamic_start q start stop incr chunk (set_ws p w0 g)"
      using assms(1-4) w0 GOMP_loop_dynamic_start_eq [of g q chunk incr start stop]
        GOMP_loop_dynamic_start_eq [of "set_ws p w0 g" q chunk incr start stop]
      by (auto simp: w0_def loop_enter_def gomp_loop_init_def split: prod.splits)
    then show ?thesis by (simp add: assms(4))
  qed
  obtain rs g' where run: "loop_run start stop incr chunk xs g = Inr (rs, g')"
    "map as_ints rs = chunk_seq (length xs) (sint start) (sint e) (?m * ?k)"
    using loop_run_inited [of "set_ws p w0 g" p "sint start" "sint e" incr chunk xs start stop]
      w0 assms(1,3) same by auto
  have tow: "toward ?k (sint start) (sint e)" using w0 by (simp add: ws_loop_def)
  have it: "iters ?k (sint start) (sint e) = iters ?k (sint start) (sint stop)"
  proof (cases "e = stop")
    case False
    then have "(0 < ?k \<and> sint stop < sint start) \<or> (?k < 0 \<and> sint start < sint stop)" "e = start"
      by (auto simp: e_def split: if_splits)
    moreover from this have "iters ?k (sint start) (sint stop) = {}"
      using assms(6) by (intro iters_empty) (auto simp: toward_def)
    ultimately show ?thesis by simp
  qed simp
  note part = chunk_seq_partition [OF tow assms(5), of "length xs"]
  have "length rs = length xs" using arg_cong [OF run(2), of length]
    by (simp) (metis chunk_seq_length)
  moreover have "iters_of ?k (pieces (map as_ints rs)) = iters ?k (sint start) (sint stop)"
    if "\<bar>sint stop - sint start\<bar> \<le> int (length xs) * \<bar>?m * ?k\<bar>"
  proof -
    have "\<bar>sint e - sint start\<bar> \<le> int (length xs) * (?m * \<bar>?k\<bar>)"
      using that assms(5) by (auto simp: e_def abs_mult)
    then have "chunk_rest (length xs) (sint start) (sint e) (?m * ?k) = sint e"
      using chunk_rest_done [OF tow assms(5)] by blast
    then show ?thesis using part by (simp add: run(2) it)
  qed
  moreover have "rs ! j = None \<longleftrightarrow> iters_of ?k (pieces (map as_ints (take j rs))) = iters ?k (sint start) (sint stop)"
    if "j < length rs" for j
  proof -
    have j: "j < length xs" using that \<open>length rs = length xs\<close> by simp
    have "as_ints (rs ! j) = chunk_seq (length xs) (sint start) (sint e) (?m * ?k) ! j"
      using arg_cong [OF run(2), of "\<lambda>l. l ! j"] that by simp
    moreover have "rs ! j = None \<longleftrightarrow> as_ints (rs ! j) = None" by (simp add: as_ints_def)
    moreover have "map as_ints (take j rs) = take j (chunk_seq (length xs) (sint start) (sint e) (?m * ?k))"
      using run(2) by (simp add: take_map [symmetric])
    ultimately show ?thesis using chunk_seq_exhausted [OF tow assms(5) j] it by simp
  qed
  ultimately show ?thesis using run part it by auto
qed

text \<open>A team of \<open>n\<close> processors with one work share, as \<open>gomp_team_start\<close> leaves them.\<close>

definition demo_gomp :: "u32 \<Rightarrow> gomp" where
  "demo_gomp n = (reset_state 4)\<lparr>CURR_TEAM := (\<lambda>_. 0x08000400),
     teams := (\<lambda>_. demo_team\<lparr>nthreads := n, work_share := 0x08000700\<rparr>),
     work_shares := (\<lambda>_. demo_work_share\<lparr>ws_lock := 0x0900001C, enter_lock := 0x09000020,
       exit_lock := 0x09000020\<rparr>)\<rparr>"

lemma demo_gomp_simps [simp]:
  "CURR_WS (demo_gomp n) q = 0x08000700" "curr_nthreads (demo_gomp n) q = n"
  "work_shares (demo_gomp n) p = demo_work_share\<lparr>ws_lock := 0x0900001C, enter_lock := 0x09000020,
       exit_lock := 0x09000020\<rparr>"
  "lock_free (demo_gomp n) a = IsInSemSpace a 0"
  by (simp_all add: demo_gomp_def CURR_WS_def curr_nthreads_def lock_free_def lock_addr_def
      reset_state_def sem_ok_def new_mem_def lock_word_def mem_word_def word_at_def)

theorem dynamic_loop_partitions_witness:
  "\<exists>rs g'. loop_run 0 10 3 2 [Start 0, Start 1, Next 1] (demo_gomp 2) = Inr (rs, g') \<and>
    length rs = length [Start 0, Start 1, Next 1] \<and>
    separate (sint (3::u32)) (pieces (map as_ints rs)) \<and>
    iters_of (sint (3::u32)) (pieces (map as_ints rs)) \<subseteq> iters (sint (3::u32)) (sint (0::u32)) (sint (10::u32)) \<and>
    (\<bar>sint (10::u32) - sint (0::u32)\<bar> \<le> int (length [Start 0, Start 1, Next 1]) * \<bar>sint (2::u32) * sint (3::u32)\<bar> \<longrightarrow>
       iters_of (sint (3::u32)) (pieces (map as_ints rs)) = iters (sint (3::u32)) (sint (0::u32)) (sint (10::u32))) \<and>
    (\<forall>j < length rs. rs ! j = None \<longleftrightarrow>
       iters_of (sint (3::u32)) (pieces (map as_ints (take j rs))) = iters (sint (3::u32)) (sint (0::u32)) (sint (10::u32)))"
  by (rule dynamic_loop_partitions [where p = "0x08000700"])
    (simp_all add: demo_work_share_def WS_INITED_def in_sem_space_numeral in_s32_def)

section \<open>Sections\<close>

definition sections_enter :: "u32 \<Rightarrow> gomp_work_share \<Rightarrow> gomp_work_share" where
  "sections_enter count w =
     (if checkfirst w \<noteq> WS_INITED then gomp_sections_init count (w\<lparr>checkfirst := WS_INITED\<rparr>) else w)"

lemma GOMP_sections_start_eq:
  fixes g :: gomp and myid :: nat
  defines "p \<equiv> CURR_WS g myid"
  assumes "lock_free g (ws_lock (work_shares g p))"
    and "ws_loop (sections_enter count (work_shares g p)) s e 1 1"
  shows "GOMP_sections_start myid count g =
    (case gomp_iter_dynamic_next_locked (sections_enter count (work_shares g p)) of
       (r, w) \<Rightarrow> Inr (section_of r, set_ws p w g))"
proof -
  define w where "w = sections_enter count (work_shares g p)"
  have w: "(if checkfirst (work_shares g p) \<noteq> WS_INITED
      then (work_shares g p)\<lparr>checkfirst := WS_INITED, ws_end := count + 1, ws_next := 1,
        completed := 0, ws_chunk_size := 1, ws_incr := 1\<rparr> else work_shares g p) = w"
    by (simp add: w_def sections_enter_def gomp_sections_init_def)
  have sc: "sint (ws_chunk_size w) = 1" "sint (ws_incr w) = 1" and lo: "ws_loop w s e 1 1"
    using assms(3) by (auto simp: w_def ws_loop_def)
  then have one: "ws_chunk_size w = 1" "ws_incr w = 1"
    using sint_eq_iff32 [of _ 1] by simp_all
  have "next_chunk 1 1 (ws_next w) (ws_end w) = 1" if "ws_next w \<noteq> ws_end w"
  proof -
    have "sint (ws_end w - ws_next w) = e - s" "s \<noteq> e" "s \<le> e"
      using lo that by (auto simp: ws_loop_def sint_arith32 toward_def sint_eq_iff32 [symmetric])
    then show ?thesis by (simp add: next_chunk_def)
  qed
  then show ?thesis
    unfolding GOMP_sections_start_def Let_def p_def [symmetric] hal_lock_free [OF assms(2)]
      res_bind.simps sem_put_fields w hal_unlock_ws [OF assms(2)] w_def [symmetric]
    by (simp add: section_of_def gomp_iter_dynamic_next_locked_def one Let_def)
qed

fun sections_run :: "u32 \<Rightarrow> loop_call list \<Rightarrow> gomp \<Rightarrow> (u32 list \<times> gomp) res" where
  "sections_run count [] g = Inr ([], g)"
| "sections_run count (x # xs) g =
     res_bind (case x of Start p \<Rightarrow> GOMP_sections_start p count g
        | Next p \<Rightarrow> GOMP_sections_next p g) (\<lambda>(r, g).
     res_bind (sections_run count xs g) (\<lambda>(rs, g). Inr (r # rs, g)))"

lemma chunk_seq_unit:
  "s \<le> e \<Longrightarrow> chunk_seq n s e 1 =
     map (\<lambda>i. if s + int i < e then Some (s + int i, s + int i + 1) else None) [0..<n]"
proof (induction n arbitrary: s)
  case (Suc n)
  show ?case
  proof (cases "s = e")
    case True
    then show ?thesis using Suc.IH [of s] by (simp add: map_upt_Suc del: upt_Suc)
  next
    case False
    then have "clip s e 1 = s + 1" "s + 1 \<le> e" using Suc.prems by (auto simp: clip_def)
    then show ?thesis using False Suc.IH [of "s + 1"] Suc.prems
      by (auto simp: map_upt_Suc algebra_simps simp del: upt_Suc intro!: map_cong)
  qed
qed simp

lemma sections_run_inited:
  assumes "ws_loop (work_shares g p) s e 1 1" "0 \<le> s"
    and "lock_free g (ws_lock (work_shares g p))"
    and "\<forall>x \<in> set xs. CURR_WS g (caller x) = p"
  shows "\<exists>rs g'. sections_run count xs g = Inr (rs, g') \<and>
    map sint rs = map (\<lambda>r. case r of Some (a, b) \<Rightarrow> a | None \<Rightarrow> 0) (chunk_seq (length xs) s e 1)"
  using assms
proof (induction xs arbitrary: g s)
  case (Cons x xs)
  obtain r w where rw: "gomp_iter_dynamic_next_locked (work_shares g p) = (r, w)" by fastforce
  note st = next_locked_step [OF Cons.prems(1) rw, unfolded mult_1]
  have ini: "sections_enter count (work_shares g p) = work_shares g p"
    using Cons.prems(1) by (simp add: sections_enter_def ws_loop_def)
  have first: "(case x of Start q \<Rightarrow> GOMP_sections_start q count g
      | Next q \<Rightarrow> GOMP_sections_next q g) = Inr (section_of r, set_ws p w g)"
    using Cons.prems rw ini GOMP_sections_start_eq [of g "caller x" count s e]
    by (cases x) (simp_all add: GOMP_sections_next_def gomp_sections_next_def iter_dynamic_next_eq)
  have lk: "ws_lock w = ws_lock (work_shares g p)" using st by (metis gomp_work_share.select_convs(1)
        gomp_work_share.surjective gomp_work_share.update_convs(3))
  have "s \<le> e" using Cons.prems(1) by (simp add: ws_loop_def toward_def)
  then have "0 \<le> (if s = e then s else clip s e 1)" using Cons.prems(2) by (simp add: clip_def)
  then obtain rs g' where "sections_run count xs (set_ws p w g) = Inr (rs, g')"
    "map sint rs = map (\<lambda>r. case r of Some (a, b) \<Rightarrow> a | None \<Rightarrow> 0)
       (chunk_seq (length xs) (if s = e then s else clip s e 1) e 1)"
    using Cons.IH [of "set_ws p w g"] st Cons.prems(3,4) lk by fastforce
  moreover have "sint (section_of r) = (if s = e then 0 else s)"
    using st by (auto simp: as_ints_def section_of_def split: if_splits option.splits)
  ultimately show ?case using first by (auto split: if_splits)
qed simp

text \<open>C10: with \<open>count\<close> sections, the calls of the team, by whatever processors and in whatever
  order, receive the sections 1, 2, ..., count once each, and every later call receives 0.\<close>

theorem sections_handed_out_once:
  assumes "lock_free g (ws_lock (work_shares g p))"
    and "checkfirst (work_shares g p) \<noteq> WS_INITED"
    and "\<forall>x \<in> set xs. CURR_WS g (caller x) = p" "xs = Start q # ys"
    and "0 \<le> sint count" "sint count < 2147483647"
  shows "\<exists>rs g'. sections_run count xs g = Inr (rs, g') \<and>
    map sint rs = map (\<lambda>i. if int i < sint count then int i + 1 else 0) [0..<length xs]"
proof -
  define w0 where "w0 = sections_enter count (work_shares g p)"
  have c1: "sint (count + 1) = sint count + 1"
    using assms(5,6) by (subst sint_arith32) (auto simp: in_s32_def)
  have w0: "ws_loop w0 1 (sint count + 1) 1 1" "ws_lock w0 = ws_lock (work_shares g p)"
    "checkfirst w0 = WS_INITED"
    using assms c1 by (auto simp: w0_def sections_enter_def gomp_sections_init_def ws_loop_def
        toward_def in_s32_def)
  have inited: "sections_enter count w0 = w0" using w0(3) by (simp add: sections_enter_def)
  have "GOMP_sections_start q count g = GOMP_sections_start q count (set_ws p w0 g)"
    using assms(1,3,4) w0 inited GOMP_sections_start_eq [of g q count 1 "sint count + 1"]
      GOMP_sections_start_eq [of "set_ws p w0 g" q count 1 "sint count + 1"]
    by (auto simp flip: w0_def split: prod.splits)
  then have same: "sections_run count xs g = sections_run count xs (set_ws p w0 g)"
    by (simp add: assms(4))
  obtain rs g' where run: "sections_run count xs g = Inr (rs, g')"
    "map sint rs = map (\<lambda>r. case r of Some (a, b) \<Rightarrow> a | None \<Rightarrow> 0)
       (chunk_seq (length xs) 1 (sint count + 1) 1)"
    using sections_run_inited [of "set_ws p w0 g" p 1 "sint count + 1" xs count]
      w0 assms(1,3) same by auto
  have "map sint rs = map (\<lambda>i. if int i < sint count then int i + 1 else 0) [0..<length xs]"
    using run(2) assms(5) by (simp add: chunk_seq_unit comp_def)
  then show ?thesis using run(1) by auto
qed

theorem sections_handed_out_once_witness:
  "\<exists>rs g'. sections_run 2 [Start 0, Next 0, Start 1] (demo_gomp 2) = Inr (rs, g') \<and>
    map sint rs = map (\<lambda>i. if int i < sint (2::u32) then int i + 1 else 0)
      [0..<length [Start 0, Next 0, Start 1]]"
  by (rule sections_handed_out_once [where p = "0x08000700"])
    (simp_all add: demo_work_share_def WS_INITED_def in_sem_space_numeral)

section \<open>Single\<close>

fun single_run :: "nat list \<Rightarrow> gomp \<Rightarrow> (bool list \<times> gomp) res" where
  "single_run [] g = Inr ([], g)"
| "single_run (q # qs) g =
     res_bind (GOMP_single_start q g) (\<lambda>(r, g).
     res_bind (single_run qs g) (\<lambda>(rs, g). Inr (r # rs, g)))"

definition single_ws :: "u32 \<Rightarrow> gomp_work_share \<Rightarrow> bool \<times> gomp_work_share" where
  "single_ws n w =
     (let ret = (checkfirst w \<noteq> WS_INITED);
          w = (if ret then w\<lparr>checkfirst := WS_INITED, completed := 0\<rparr> else w);
          w = w\<lparr>completed := completed w + 1\<rparr>;
          w = (if completed w = n then w\<lparr>checkfirst := WS_NOT_INITED\<rparr> else w) in (ret, w))"

lemma GOMP_single_start_eq:
  assumes "lock_free g (ws_lock (work_shares g (CURR_WS g myid)))"
  shows "GOMP_single_start myid g =
    (case single_ws (curr_nthreads g myid) (work_shares g (CURR_WS g myid)) of
       (r, w) \<Rightarrow> Inr (r, set_ws (CURR_WS g myid) w g))"
  unfolding GOMP_single_start_def Let_def hal_lock_free [OF assms] res_bind.simps sem_put_fields
    hal_unlock_ws [OF assms] single_ws_def by simp

text \<open>\<open>i\<close> calls of the current round were made.\<close>

definition single_state :: "nat \<Rightarrow> gomp_work_share \<Rightarrow> bool" where
  "single_state i w \<longleftrightarrow>
     (if i = 0 then checkfirst w \<noteq> WS_INITED else checkfirst w = WS_INITED \<and> unat (completed w) = i)"

lemma WS_distinct [simp]: "WS_NOT_INITED \<noteq> WS_INITED" "WS_INITED \<noteq> WS_NOT_INITED"
  by (simp_all add: WS_INITED_def WS_NOT_INITED_def)

lemma single_ws_step:
  assumes "single_state i w" "i < unat n"
  shows "fst (single_ws n w) = (i = 0) \<and> single_state (Suc i mod unat n) (snd (single_ws n w)) \<and>
    ws_lock (snd (single_ws n w)) = ws_lock w"
proof -
  have lt: "unat n < 4294967296" using unsigned_less [of n, where 'a = nat] by simp
  define w1 where "w1 = (if i = 0 then w\<lparr>checkfirst := WS_INITED, completed := 0\<rparr> else w)"
  have w1: "unat (completed w1) = i" "checkfirst w1 = WS_INITED" "ws_lock w1 = ws_lock w"
    using assms(1) by (auto simp: w1_def single_state_def)
  have s: "single_ws n w = (i = 0, (if completed w1 + 1 = n
      then w1\<lparr>completed := completed w1 + 1, checkfirst := WS_NOT_INITED\<rparr>
      else w1\<lparr>completed := completed w1 + 1\<rparr>))"
    using assms(1) by (auto simp: single_ws_def w1_def single_state_def Let_def split: if_splits)
  have u: "unat (completed w1 + 1) = Suc i"
    using w1 assms(2) lt by (subst unat_add_no_wrap) simp_all
  then have "completed w1 + 1 = n \<longleftrightarrow> Suc i = unat n" by (auto simp: word_unat_eq_iff)
  then show ?thesis using s w1 u assms(2) by (auto simp: single_state_def)
qed

text \<open>C18: in a team of \<open>n\<close> processors, among every \<open>n\<close> consecutive arrivals at a single
  construct exactly the first is told to execute it, whatever the order of the arrivals, and
  the construct can be used again without initialisation.\<close>

theorem single_one_per_round:
  assumes "lock_free g (ws_lock (work_shares g p))"
    and "checkfirst (work_shares g p) \<noteq> WS_INITED"
    and "\<forall>q \<in> set qs. CURR_WS g q = p \<and> curr_nthreads g q = n" "n \<noteq> 0"
  shows "\<exists>g'. single_run qs g = Inr (map (\<lambda>i. i mod unat n = 0) [0..<length qs], g')"
proof -
  have n: "0 < unat n" using assms(4) by (simp add: unat_gt_0)
  have "\<exists>g'. single_run qs g = Inr (map (\<lambda>j. (i + j) mod unat n = 0) [0..<length qs], g')"
    if "single_state (i mod unat n) (work_shares g p)" for i
    using assms(1,3) that
  proof (induction qs arbitrary: g i)
    case (Cons q qs)
    let ?r = "single_ws n (work_shares g p)"
    note st = single_ws_step [OF Cons.prems(3) mod_less_divisor [OF n]]
    have first: "GOMP_single_start q g = Inr (fst ?r, set_ws p (snd ?r) g)"
      using Cons.prems(1,2) by (simp add: GOMP_single_start_eq case_prod_beta)
    have "single_state (Suc i mod unat n) (work_shares (set_ws p (snd ?r) g) p)"
      using st by (simp add: mod_Suc_eq)
    then obtain g' where "single_run qs (set_ws p (snd ?r) g) =
        Inr (map (\<lambda>j. (Suc i + j) mod unat n = 0) [0..<length qs], g')"
      using Cons.IH [of "set_ws p (snd ?r) g" "Suc i"] Cons.prems(1,2) st by auto
    then show ?case using first st by (simp add: map_upt_Suc del: upt_Suc)
  qed simp
  from this [of 0] show ?thesis using assms(2) by (simp add: single_state_def)
qed

theorem single_one_per_round_witness:
  "\<exists>g'. single_run [1, 0, 0, 1] (demo_gomp 2) =
     Inr (map (\<lambda>i. i mod unat (2::u32) = 0) [0..<length [1::nat, 0, 0, 1]], g')"
  by (rule single_one_per_round [where p = "0x08000700"])
    (simp_all add: demo_work_share_def WS_INITED_def in_sem_space_numeral)

section \<open>Leaving a loop\<close>

definition loop_leave_ws :: "u32 \<Rightarrow> gomp_work_share \<Rightarrow> gomp_work_share" where
  "loop_leave_ws n w =
     (let w = w\<lparr>completed := completed w + 1\<rparr> in
      if completed w = n then w\<lparr>completed := 0, checkfirst := WS_NOT_INITED\<rparr> else w)"

lemma GOMP_loop_end_nowait_eq:
  assumes "lock_free g (exit_lock (work_shares g (CURR_WS g myid)))"
  shows "GOMP_loop_end_nowait myid g =
    Inr (set_ws (CURR_WS g myid) (loop_leave_ws (curr_nthreads g myid) (work_shares g (CURR_WS g myid))) g)"
  unfolding GOMP_loop_end_nowait_def Let_def hal_lock_free [OF assms] res_bind.simps sem_put_fields
    hal_unlock_ws [OF assms] loop_leave_ws_def by simp

fun leave_run :: "nat list \<Rightarrow> gomp \<Rightarrow> gomp res" where
  "leave_run [] g = Inr g"
| "leave_run (q # qs) g = res_bind (GOMP_loop_end_nowait q g) (leave_run qs)"

text \<open>The work share of a loop stays initialised until the last of the \<open>n\<close> processors of
  the team has left the loop, and is then ready for the next construct; no field but the
  counter and the flag is changed.\<close>

theorem loop_released_by_last:
  assumes "lock_free g (exit_lock (work_shares g p))"
    and "checkfirst (work_shares g p) = WS_INITED" "completed (work_shares g p) = 0"
    and "\<forall>q \<in> set qs. CURR_WS g q = p \<and> curr_nthreads g q = n" "length qs \<le> unat n" "0 < unat n"
  shows "leave_run qs g = Inr (set_ws p ((work_shares g p)\<lparr>
    completed := (if length qs = unat n then 0 else of_nat (length qs)),
    checkfirst := (if length qs = unat n then WS_NOT_INITED else WS_INITED)\<rparr>) g)"
proof -
  have "leave_run qs g = Inr (set_ws p ((work_shares g p)\<lparr>
      completed := (if i + length qs = unat n then 0 else of_nat (i + length qs)),
      checkfirst := (if i + length qs = unat n then WS_NOT_INITED else WS_INITED)\<rparr>) g)"
    if "completed (work_shares g p) = of_nat i" "i + length qs \<le> unat n" "i < unat n" for i
    using assms(1,2,4) that
  proof (induction qs arbitrary: g i)
    case Nil
    then have "(work_shares g p)\<lparr>completed := of_nat i, checkfirst := WS_INITED\<rparr> = work_shares g p"
      by (cases "work_shares g p") simp
    then have "set_ws p ((work_shares g p)\<lparr>completed := of_nat i, checkfirst := WS_INITED\<rparr>) g = g"
      by (simp only: set_ws_fields)
    then show ?case using Nil by simp
  next
    case (Cons q qs)
    let ?w = "loop_leave_ws n (work_shares g p)"
    have lt: "unat n < 4294967296" using unsigned_less [of n, where 'a = nat] by simp
    have first: "GOMP_loop_end_nowait q g = Inr (set_ws p ?w g)"
      using Cons.prems(1,3) by (simp add: GOMP_loop_end_nowait_eq)
    have eq: "of_nat i + 1 = n \<longleftrightarrow> Suc i = unat n"
    proof -
      have "unat (of_nat i + 1 :: u32) = Suc i"
        using Cons.prems(6) lt by (subst unat_add_no_wrap) (simp_all add: unat_of_nat32)
      then show ?thesis by (auto simp: word_unat_eq_iff)
    qed
    show ?case
    proof (cases "Suc i = unat n")
      case True
      then have "qs = []" using Cons.prems(5) by (cases qs) auto
      then show ?thesis using first True Cons.prems(4) eq by (simp add: loop_leave_ws_def Let_def)
    next
      case False
      then have w: "?w = (work_shares g p)\<lparr>completed := of_nat (Suc i)\<rparr>"
        using Cons.prems(4) eq by (simp add: loop_leave_ws_def Let_def add.commute)
      have "Suc i < unat n" using False Cons.prems(6) by simp
      then show ?thesis
        using Cons.IH [of "set_ws p ?w g" "Suc i"] Cons.prems first w by simp
    qed
  qed
  from this [of 0] show ?thesis using assms by simp
qed

theorem loop_released_by_last_witness:
  "let g = set_ws 0x08000700 ((work_shares (demo_gomp 2) 0x08000700)\<lparr>checkfirst := WS_INITED\<rparr>) (demo_gomp 2) in
   leave_run [1, 0] g = Inr (set_ws 0x08000700 ((work_shares g 0x08000700)\<lparr>
    completed := (if length [1::nat, 0] = unat (2::u32) then 0 else of_nat (length [1::nat, 0])),
    checkfirst := (if length [1::nat, 0] = unat (2::u32) then WS_NOT_INITED else WS_INITED)\<rparr>) g)"
  unfolding Let_def
  by (rule loop_released_by_last) (simp_all add: demo_work_share_def in_sem_space_numeral)

text \<open>C36: two consecutive \<open>nowait\<close> loops of a team of two use the same work share: a
  processor that finished the first loop while the other has not entered it finds the second
  loop without work whatever its bounds, its second \<open>nowait\<close> end frees the work share, and the
  other processor is then handed the first piece of the first loop a second time.\<close>

theorem nowait_loop_runs_ahead:
  assumes "lock_free g (ws_lock (work_shares g p))" "lock_free g (exit_lock (work_shares g p))"
    and "CURR_WS g q0 = p" "CURR_WS g q1 = p" "curr_nthreads g q0 = 2"
    and "checkfirst (work_shares g p) = WS_INITED" "completed (work_shares g p) = 0"
    and "ws_next (work_shares g p) = ws_end (work_shares g p)"
    and "toward (sint k1) (sint s1) (sint e1)" "s1 \<noteq> e1"
  shows "\<exists>g1 g2 g3 b. GOMP_loop_end_nowait q0 g = Inr g1 \<and>
    GOMP_loop_dynamic_start q0 s2 e2 k2 c2 g1 = Inr (None, g2) \<and>
    GOMP_loop_end_nowait q0 g2 = Inr g3 \<and>
    (\<exists>g4. GOMP_loop_dynamic_start q1 s1 e1 k1 c1 g3 = Inr (Some (s1, b), g4))"
proof -
  let ?w = "work_shares g p"
  define g1 where "g1 = set_ws p (?w\<lparr>completed := 1\<rparr>) g"
  have 1: "GOMP_loop_end_nowait q0 g = Inr g1"
    using assms by (simp add: GOMP_loop_end_nowait_eq loop_leave_ws_def Let_def g1_def)
  have lf: "lock_free g1 (ws_lock ?w)" "lock_free (sem_put g1 (ws_lock ?w) 1) a \<longrightarrow> True" for a
    using assms by (simp_all add: g1_def)
  have w1: "work_shares g1 p = ?w\<lparr>completed := 1\<rparr>" "CURR_WS g1 q0 = p" by (simp_all add: g1_def assms)
  have "GOMP_loop_dynamic_start q0 s2 e2 k2 c2 g1 =
      res_bind (gomp_hal_unlock (ws_lock ?w) (set_ws p (work_shares g1 p) (sem_put g1 (ws_lock ?w) 1)))
        (\<lambda>g. Inr (None, g))"
    using assms(6,8) lf(1) w1 by (simp add: GOMP_loop_dynamic_start_def Let_def hal_lock_free)
  also have "\<dots> = Inr (None, g1)" using lf(1) by (simp add: hal_unlock_ws)
  finally have 2: "GOMP_loop_dynamic_start q0 s2 e2 k2 c2 g1 = Inr (None, g1)" .
  define g3 where "g3 = set_ws p (?w\<lparr>completed := 0, checkfirst := WS_NOT_INITED\<rparr>) g1"
  have 3: "GOMP_loop_end_nowait q0 g1 = Inr g3"
    using assms w1 by (simp add: GOMP_loop_end_nowait_eq loop_leave_ws_def Let_def g3_def g1_def)
  let ?w3 = "loop_enter s1 e1 k1 c1 (work_shares g3 p)"
  have w3: "ws_next ?w3 = s1" "ws_end ?w3 = e1"
    using assms(9) by (auto simp: g3_def loop_enter_def gomp_loop_init_def toward_def)
  obtain b w4 where "gomp_iter_dynamic_next_locked ?w3 = (Some (s1, b), w4)"
    using w3 assms(10) by (simp add: gomp_iter_dynamic_next_locked_def Let_def)
  then have "GOMP_loop_dynamic_start q1 s1 e1 k1 c1 g3 = Inr (Some (s1, b), set_ws p w4 g3)"
    using assms(1,4) by (subst GOMP_loop_dynamic_start_eq) (simp_all add: g3_def g1_def)
  then show ?thesis using 1 2 3 by blast
qed

theorem nowait_loop_runs_ahead_witness:
  "let g = set_ws 0x08000700 ((work_shares (demo_gomp 2) 0x08000700)\<lparr>checkfirst := WS_INITED\<rparr>) (demo_gomp 2) in
   \<exists>g1 g2 g3 b. GOMP_loop_end_nowait 0 g = Inr g1 \<and>
    GOMP_loop_dynamic_start 0 0 100 1 10 g1 = Inr (None, g2) \<and>
    GOMP_loop_end_nowait 0 g2 = Inr g3 \<and>
    (\<exists>g4. GOMP_loop_dynamic_start 1 0 8 1 4 g3 = Inr (Some (0, b), g4))"
  unfolding Let_def
  by (rule nowait_loop_runs_ahead [where p = "0x08000700"])
    (simp_all add: demo_work_share_def in_sem_space_numeral toward_def)

section \<open>A processor that asks until nothing is left\<close>

text \<open>The loop around a dynamic work share: \<open>while (GOMP_loop_dynamic_next (...))\<close>. It may run for ever if the
  entry point keeps handing out pieces; then its value is \<open>None\<close>.\<close>

partial_function (option) drain_loop :: "nat \<Rightarrow> gomp \<Rightarrow> ((u32 \<times> u32) list \<times> gomp) res option" where
  "drain_loop q g =
     (case GOMP_loop_dynamic_next q g of
        Inl f \<Rightarrow> Some (Inl f)
      | Inr (r, g') \<Rightarrow>
          (case r of None \<Rightarrow> Some (Inr ([], g'))
           | Some ab \<Rightarrow> Option.bind (drain_loop q g') (\<lambda>x. Some (res_map (\<lambda>(rs, g). (ab # rs, g)) x))))"

definition ints :: "u32 \<times> u32 \<Rightarrow> int \<times> int" where
  "ints ab = (sint (fst ab), sint (snd ab))"

lemma clip_nearer:
  assumes "toward k s e" "0 < m" "k \<noteq> 0" "s \<noteq> e"
  shows "clip s e (m * k) = e \<or> \<bar>e - clip s e (m * k)\<bar> + m * \<bar>k\<bar> = \<bar>e - s\<bar>" "\<bar>e - clip s e (m * k)\<bar> < \<bar>e - s\<bar>"
proof -
  have "0 < m * k \<or> m * k < 0" "k < 0 \<longleftrightarrow> m * k < 0" "m * \<bar>k\<bar> = \<bar>m * k\<bar>"
    using assms(2,3) by (auto simp: mult_less_0_iff zero_less_mult_iff abs_mult)
  then show "clip s e (m * k) = e \<or> \<bar>e - clip s e (m * k)\<bar> + m * \<bar>k\<bar> = \<bar>e - s\<bar>" "\<bar>e - clip s e (m * k)\<bar> < \<bar>e - s\<bar>"
    using assms(1,4) by (auto simp: toward_def clip_def min_def max_def)
qed

lemma drain_loop_ends:
  assumes "ws_loop (work_shares g p) s e k m" "lock_free g (ws_lock (work_shares g p))" "CURR_WS g q = p" "k \<noteq> 0"
  shows "\<exists>rs g'. drain_loop q g = Some (Inr (rs, g')) \<and> separate k (map ints rs) \<and>
    iters_of k (map ints rs) = iters k s e \<and> int (length rs) * (m * \<bar>k\<bar>) < \<bar>e - s\<bar> + m * \<bar>k\<bar>"
  using assms
proof (induction "nat \<bar>e - s\<bar>" arbitrary: g s rule: less_induct)
  case less
  obtain r w where rw: "gomp_iter_dynamic_next_locked (work_shares g p) = (r, w)" by fastforce
  note st = next_locked_step [OF less.prems(1) rw]
  have m: "0 < m" "toward k s e" "0 < m * \<bar>k\<bar>" using less.prems(1,4) by (auto simp: ws_loop_def)
  have next_call: "GOMP_loop_dynamic_next q g = Inr (r, set_ws p w g)"
    using less.prems(2,3) rw by (simp add: GOMP_loop_dynamic_next_def gomp_loop_dynamic_next_def iter_dynamic_next_eq)
  show ?case
  proof (cases "s = e")
    case True
    then have "r = None" using st by (auto simp: as_ints_def)
    then show ?thesis using True m next_call less.prems(4)
      by (subst drain_loop.simps) (simp add: iters_of_def)
  next
    case False
    define t where "t = clip s e (m * k)"
    have near: "t = e \<or> \<bar>e - t\<bar> + m * \<bar>k\<bar> = \<bar>e - s\<bar>" "\<bar>e - t\<bar> < \<bar>e - s\<bar>"
      using clip_nearer [OF m(2,1) less.prems(4) False] by (simp_all add: t_def)
    obtain ab where ab: "r = Some ab" "ints ab = (s, t)" using st False by (auto simp: as_ints_def ints_def t_def)
    have lk: "ws_lock w = ws_lock (work_shares g p)" using st by (metis gomp_work_share.select_convs(1)
        gomp_work_share.surjective gomp_work_share.update_convs(3))
    have "\<exists>rs g'. drain_loop q (set_ws p w g) = Some (Inr (rs, g')) \<and> separate k (map ints rs) \<and>
        iters_of k (map ints rs) = iters k t e \<and> int (length rs) * (m * \<bar>k\<bar>) < \<bar>e - t\<bar> + m * \<bar>k\<bar>"
      by (rule less.hyps) (use near st False less.prems lk in \<open>auto simp: t_def\<close>)
    then obtain rs g' where rs: "drain_loop q (set_ws p w g) = Some (Inr (rs, g'))" "separate k (map ints rs)"
      "iters_of k (map ints rs) = iters k t e" "int (length rs) * (m * \<bar>k\<bar>) < \<bar>e - t\<bar> + m * \<bar>k\<bar>"
      by blast
    have "iters k s e = iters k s t \<union> iters k t e" "iters k s t \<inter> iters k t e = {}"
      using iters_clip [OF m(2,1)] by (auto simp: t_def)
    moreover have "int (length (ab # rs)) * (m * \<bar>k\<bar>) < \<bar>e - s\<bar> + m * \<bar>k\<bar>"
    proof (cases "t = e")
      case True
      then have "int (length rs) * (m * \<bar>k\<bar>) < 1 * (m * \<bar>k\<bar>)" using rs(4) by simp
      then have "length rs = 0" using m(3) by (simp only: mult_less_cancel_right) auto
      then show ?thesis using False by simp
    next
      case False
      then show ?thesis using near(1) rs(4) by (simp add: distrib_right)
    qed
    moreover have "drain_loop q g = Some (Inr (ab # rs, g'))"
      using next_call ab(1) rs(1) by (subst drain_loop.simps) simp
    ultimately show ?thesis using rs(2,3) ab(2) by (auto simp: iters_of_def)
  qed
qed

text \<open>C16: a processor that asks for pieces of a dynamic loop until it gets none ends, for loops that count up or
  down whose chunk size is positive and whose \<open>chunk * incr\<close> and \<open>end - next\<close> fit in an \<open>int\<close> (beyond that the
  arithmetic of the code overflows): it makes at most as many successful calls as there are chunks in what is left of the
  loop, and if no other processor asks it gets all its iterations, each once.\<close>

theorem dynamic_loop_ends:
  assumes "ws_loop (work_shares g (CURR_WS g q)) s e k m" "lock_free g (ws_lock (work_shares g (CURR_WS g q)))"
  shows "\<exists>rs g'. drain_loop q g = Some (Inr (rs, g')) \<and> separate k (map ints rs) \<and>
    iters_of k (map ints rs) = iters k s e \<and> int (length rs) * (m * \<bar>k\<bar>) < \<bar>e - s\<bar> + m * \<bar>k\<bar>"
proof -
  have "k \<noteq> 0" using assms(1) by (auto simp: ws_loop_def toward_def)
  from drain_loop_ends [OF assms(1,2) refl this] show ?thesis .
qed

text \<open>The loop from 0 to 10 in steps of 3, two iterations to a chunk.\<close>

definition demo_loop :: gomp where
  "demo_loop = set_ws 0x08000700 (gomp_loop_init 0 10 3 2 ((work_shares (demo_gomp 1) 0x08000700)\<lparr>checkfirst := WS_INITED\<rparr>)) (demo_gomp 1)"

theorem dynamic_loop_ends_witness:
  "\<exists>rs g'. drain_loop 0 demo_loop = Some (Inr (rs, g')) \<and> separate 3 (map ints rs) \<and>
    iters_of 3 (map ints rs) = iters 3 0 10 \<and> int (length rs) * (2 * \<bar>3\<bar>) < \<bar>10 - 0\<bar> + 2 * \<bar>3\<bar>"
  by (rule dynamic_loop_ends [where s = 0 and e = 10 and k = 3 and m = 2])
    (simp_all add: demo_loop_def gomp_loop_init_def demo_work_share_def ws_loop_def toward_def in_s32_def in_sem_space_numeral)

end
