(* ===== verification/Gomp_Barrier.thy ===== *)
theory Gomp_Barrier
  imports Gomp_Work
begin

text \<open>
  The software barrier (\<open>libgomp/config/vsoc/bar.h\<close>, \<open>bar_sw.c\<close>,
  \<open>libgomp/barrier.c\<close>). First the functions as one processor runs them alone,
  with a busy wait that does not end as \<open>FSpin\<close>; then the interleaving of a
  master and its slaves, one step per access to a flag, with ghost counters for
  the arrivals and departures of every slave.
\<close>

section \<open>The flags\<close>

definition BARRIER_BASE :: addr where [address_simps]: "BARRIER_BASE = SHARED_BASE"

definition SLAVE_FLAG :: "nat \<Rightarrow> addr" where
  "SLAVE_FLAG x = BARRIER_BASE + of_nat x * SIZEOF_INT"

definition MASTER_FLAG :: "nat \<Rightarrow> addr" where
  "MASTER_FLAG x = BARRIER_BASE + of_nat DEFAULT_MAXPROC + of_nat x * SIZEOF_INT"

section \<open>bar_sw.c, one processor\<close>

definition MSGBarrier_SlaveEnter :: "nat \<Rightarrow> gomp \<Rightarrow> gomp res" where
  "MSGBarrier_SlaveEnter myid g =
     (let v = tcdm g (SLAVE_FLAG myid);
          g = g\<lparr>tcdm := (tcdm g)(MASTER_FLAG myid := 1)\<rparr> in
      if v = tcdm g (SLAVE_FLAG myid) then Inl FSpin else Inr g)"

fun gather :: "nat list \<Rightarrow> gomp \<Rightarrow> gomp res" where
  "gather [] g = Inr g"
| "gather (q # qs) g =
     (if tcdm g (MASTER_FLAG q) = 0 then Inl FSpin
      else gather qs (g\<lparr>tcdm := (tcdm g)(MASTER_FLAG q := 0)\<rparr>))"

fun release :: "nat list \<Rightarrow> gomp \<Rightarrow> gomp" where
  "release [] g = g"
| "release (q # qs) g =
     release qs (g\<lparr>tcdm := (tcdm g)(SLAVE_FLAG q := tcdm g (SLAVE_FLAG q) + 1)\<rparr>)"

text \<open>The slaves are the entries 1 to \<open>num_threads - 1\<close> of the array.\<close>

definition slave_ids :: "u32 \<Rightarrow> (nat \<Rightarrow> u32) \<Rightarrow> nat list" where
  "slave_ids num_threads local_slave_ids = map (\<lambda>i. unat (local_slave_ids i)) [1..<unat num_threads]"

definition MSGBarrier_Wait :: "u32 \<Rightarrow> (nat \<Rightarrow> u32) \<Rightarrow> gomp \<Rightarrow> gomp res" where
  "MSGBarrier_Wait num_threads ids g = gather (slave_ids num_threads ids) g"

definition MSGBarrier_Release :: "u32 \<Rightarrow> (nat \<Rightarrow> u32) \<Rightarrow> gomp \<Rightarrow> gomp" where
  "MSGBarrier_Release num_threads ids g = release (slave_ids num_threads ids) g"

definition MSGBarrier_Release_all :: "u32 \<Rightarrow> (nat \<Rightarrow> u32) \<Rightarrow> gomp \<Rightarrow> gomp" where
  "MSGBarrier_Release_all num_threads ids g = release (slave_ids num_threads ids) g"

definition gomp_hal_barrier :: "nat \<Rightarrow> gomp \<Rightarrow> gomp res" where
  "gomp_hal_barrier myid g =
     (let t = teams g (CURR_TEAM g myid) in
      if of_nat myid = proc_ids t 0
      then res_bind (MSGBarrier_Wait (nthreads t) (proc_ids t) g) (\<lambda>g.
        Inr (MSGBarrier_Release (nthreads t) (proc_ids t) g))
      else MSGBarrier_SlaveEnter myid g)"

definition GOMP_barrier :: "nat \<Rightarrow> gomp \<Rightarrow> gomp res" where
  "GOMP_barrier myid g = gomp_hal_barrier myid g"

section \<open>The flags of up to 16 processors are separate words\<close>

lemma flag_addr_eq:
  assumes "x < 64" "y < 64"
  shows "SLAVE_FLAG x = SLAVE_FLAG y \<longleftrightarrow> x = y"
    and "MASTER_FLAG x = MASTER_FLAG y \<longleftrightarrow> x = y"
    and "MASTER_FLAG x = SLAVE_FLAG y \<longleftrightarrow> y = x + 16"
proof -
  have s: "unat (SLAVE_FLAG z) = 0x08000000 + 4 * z" if "z < 64" for z
    using that by (simp add: SLAVE_FLAG_def address_simps unat_word_ariths unat_of_nat32)
  have m: "unat (MASTER_FLAG z) = 0x08000040 + 4 * z" if "z < 64" for z
    using that by (simp add: MASTER_FLAG_def address_simps unat_word_ariths unat_of_nat32)
  show "SLAVE_FLAG x = SLAVE_FLAG y \<longleftrightarrow> x = y" "MASTER_FLAG x = MASTER_FLAG y \<longleftrightarrow> x = y"
    "MASTER_FLAG x = SLAVE_FLAG y \<longleftrightarrow> y = x + 16"
    using assms by (auto simp: word_unat_eq_iff s m)
qed

lemma flags_apart:
  assumes "x < 16" "y < 16"
  shows "SLAVE_FLAG x = SLAVE_FLAG y \<longleftrightarrow> x = y" "MASTER_FLAG x = MASTER_FLAG y \<longleftrightarrow> x = y"
    "MASTER_FLAG x \<noteq> SLAVE_FLAG y" "SLAVE_FLAG y \<noteq> MASTER_FLAG x"
  using flag_addr_eq [of x y] assms by (auto dest: sym)

lemma gather_result:
  assumes "distinct qs" "\<forall>q \<in> set qs. q < 16"
  shows "gather qs g = (if \<forall>q \<in> set qs. tcdm g (MASTER_FLAG q) \<noteq> 0
    then Inr (g\<lparr>tcdm := (\<lambda>a. if a \<in> MASTER_FLAG ` set qs then 0 else tcdm g a)\<rparr>) else Inl FSpin)"
  using assms
proof (induction qs arbitrary: g)
  case (Cons q qs)
  have "\<forall>r \<in> set qs. MASTER_FLAG r \<noteq> MASTER_FLAG q"
    using Cons.prems by (auto simp: flags_apart)
  then show ?case using Cons by (auto simp: fun_eq_iff intro!: arg_cong [where f = "\<lambda>x. g\<lparr>tcdm := x\<rparr>"])
qed simp

lemma release_result:
  assumes "distinct qs" "\<forall>q \<in> set qs. q < 16"
  shows "release qs g = g\<lparr>tcdm := (\<lambda>a. if a \<in> SLAVE_FLAG ` set qs then tcdm g a + 1 else tcdm g a)\<rparr>"
  using assms
proof (induction qs arbitrary: g)
  case (Cons q qs)
  have "\<forall>r \<in> set qs. SLAVE_FLAG r \<noteq> SLAVE_FLAG q \<and> SLAVE_FLAG q \<noteq> SLAVE_FLAG r"
    using Cons.prems by (auto simp: flags_apart)
  then show ?case using Cons by (auto simp: fun_eq_iff intro!: arg_cong [where f = "\<lambda>x. g\<lparr>tcdm := x\<rparr>"])
qed simp

text \<open>The master passes the barrier exactly when every slave of its team has set its
  flag; it then clears these flags, increments the release flag of each slave once and
  changes no other word.\<close>

theorem hal_barrier_master:
  assumes "of_nat myid = proc_ids (teams g (CURR_TEAM g myid)) 0"
    and "slave_ids (nthreads (teams g (CURR_TEAM g myid))) (proc_ids (teams g (CURR_TEAM g myid))) = qs"
    and "distinct qs" "\<forall>q \<in> set qs. q < 16"
  shows "gomp_hal_barrier myid g =
    (if \<forall>q \<in> set qs. tcdm g (MASTER_FLAG q) \<noteq> 0
     then Inr (g\<lparr>tcdm := (\<lambda>a. if a \<in> MASTER_FLAG ` set qs then 0
         else if a \<in> SLAVE_FLAG ` set qs then tcdm g a + 1 else tcdm g a)\<rparr>)
     else Inl FSpin)"
proof -
  have "a \<notin> SLAVE_FLAG ` set qs" if "a \<in> MASTER_FLAG ` set qs" for a
    using that assms(4) flags_apart(3) by (metis imageE)
  then show ?thesis
    by (auto simp: gomp_hal_barrier_def Let_def MSGBarrier_Wait_def MSGBarrier_Release_def assms(1,2)
        gather_result [OF assms(3,4)] release_result [OF assms(3,4)] fun_eq_iff
        intro!: arg_cong [where f = "\<lambda>x. g\<lparr>tcdm := x\<rparr>"])
qed

section \<open>The interleaving\<close>

datatype slave_pc = S_out | S_mark u32 | S_spin u32
datatype master_pc = M_out | M_wait nat | M_release nat

record bar_state =
  bmem :: "addr \<Rightarrow> u32"
  spc :: "nat \<Rightarrow> slave_pc"
  mpc :: master_pc
  rounds :: nat
  arr :: "nat \<Rightarrow> nat"
  dep :: "nat \<Rightarrow> nat"

text \<open>\<open>bar_step n ids\<close>: \<open>ids j\<close> is the processor of thread \<open>j\<close>; thread 0 is the master.\<close>

inductive bar_step :: "nat \<Rightarrow> (nat \<Rightarrow> nat) \<Rightarrow> bar_state \<Rightarrow> bar_state \<Rightarrow> bool" for n ids where
  slave_enter: "\<lbrakk>j \<in> {1..<n}; p = ids j; spc s p = S_out\<rbrakk>
    \<Longrightarrow> bar_step n ids s (s\<lparr>spc := (spc s)(p := S_mark (bmem s (SLAVE_FLAG p)))\<rparr>)"
| slave_mark: "\<lbrakk>j \<in> {1..<n}; p = ids j; spc s p = S_mark v\<rbrakk>
    \<Longrightarrow> bar_step n ids s (s\<lparr>bmem := (bmem s)(MASTER_FLAG p := 1),
          spc := (spc s)(p := S_spin v), arr := (arr s)(p := arr s p + 1)\<rparr>)"
| slave_spin: "\<lbrakk>j \<in> {1..<n}; p = ids j; spc s p = S_spin v; v = bmem s (SLAVE_FLAG p)\<rbrakk>
    \<Longrightarrow> bar_step n ids s s"
| slave_leave: "\<lbrakk>j \<in> {1..<n}; p = ids j; spc s p = S_spin v; v \<noteq> bmem s (SLAVE_FLAG p)\<rbrakk>
    \<Longrightarrow> bar_step n ids s (s\<lparr>spc := (spc s)(p := S_out), dep := (dep s)(p := dep s p + 1)\<rparr>)"
| master_enter: "mpc s = M_out \<Longrightarrow> bar_step n ids s (s\<lparr>mpc := M_wait 1\<rparr>)"
| master_spin: "\<lbrakk>mpc s = M_wait i; i < n; bmem s (MASTER_FLAG (ids i)) = 0\<rbrakk> \<Longrightarrow> bar_step n ids s s"
| master_take: "\<lbrakk>mpc s = M_wait i; i < n; bmem s (MASTER_FLAG (ids i)) \<noteq> 0\<rbrakk>
    \<Longrightarrow> bar_step n ids s (s\<lparr>bmem := (bmem s)(MASTER_FLAG (ids i) := 0), mpc := M_wait (i + 1)\<rparr>)"
| master_waited: "\<lbrakk>mpc s = M_wait i; \<not> i < n\<rbrakk> \<Longrightarrow> bar_step n ids s (s\<lparr>mpc := M_release 1\<rparr>)"
| master_release: "\<lbrakk>mpc s = M_release i; i < n\<rbrakk>
    \<Longrightarrow> bar_step n ids s (s\<lparr>bmem := (bmem s)(SLAVE_FLAG (ids i) := bmem s (SLAVE_FLAG (ids i)) + 1),
          mpc := M_release (i + 1)\<rparr>)"
| master_done: "\<lbrakk>mpc s = M_release i; \<not> i < n\<rbrakk>
    \<Longrightarrow> bar_step n ids s (s\<lparr>mpc := M_out, rounds := rounds s + 1\<rparr>)"

inductive_cases bar_stepE: "bar_step n ids s s'"

text \<open>Nobody is in the barrier and no arrival is pending; the release flags hold any value.\<close>

definition bar_init :: "bar_state \<Rightarrow> bool" where
  "bar_init s \<longleftrightarrow> (\<forall>p. spc s p = S_out) \<and> mpc s = M_out \<and> rounds s = 0 \<and>
     (\<forall>p. arr s p = 0 \<and> dep s p = 0) \<and> (\<forall>p < 16. bmem s (MASTER_FLAG p) = 0)"

text \<open>How often the master has consumed the arrival of thread \<open>j\<close>, and released it.\<close>

fun m_taken :: "master_pc \<Rightarrow> nat \<Rightarrow> nat" where
  "m_taken M_out j = 0"
| "m_taken (M_wait i) j = (if j < i then 1 else 0)"
| "m_taken (M_release i) j = 1"

fun m_released :: "master_pc \<Rightarrow> nat \<Rightarrow> nat" where
  "m_released M_out j = 0"
| "m_released (M_wait i) j = 0"
| "m_released (M_release i) j = (if j < i then 1 else 0)"

definition bar_ids :: "nat \<Rightarrow> (nat \<Rightarrow> nat) \<Rightarrow> bool" where
  "bar_ids n ids \<longleftrightarrow> inj_on ids {1..<n} \<and> (\<forall>j \<in> {1..<n}. ids j < 16)"

text \<open>What holds of the thread \<open>j\<close> that runs on \<open>p\<close>, with \<open>f0\<close> the first value of its release flag.\<close>

definition thread_inv :: "(nat \<Rightarrow> u32) \<Rightarrow> bar_state \<Rightarrow> nat \<Rightarrow> nat \<Rightarrow> bool" where
  "thread_inv f0 s j p \<longleftrightarrow>
     bmem s (SLAVE_FLAG p) = f0 p + of_nat (rounds s + m_released (mpc s) j) \<and>
     bmem s (MASTER_FLAG p) = of_nat (arr s p - (rounds s + m_taken (mpc s) j)) \<and>
     rounds s + m_taken (mpc s) j \<le> arr s p \<and> arr s p \<le> rounds s + m_taken (mpc s) j + 1 \<and>
     dep s p \<le> rounds s + m_released (mpc s) j \<and>
     (case spc s p of
        S_out \<Rightarrow> arr s p = dep s p
      | S_mark v \<Rightarrow> arr s p = dep s p \<and> v = f0 p + of_nat (dep s p)
      | S_spin v \<Rightarrow> arr s p = dep s p + 1 \<and> v = f0 p + of_nat (dep s p))"

definition mpc_ok :: "nat \<Rightarrow> master_pc \<Rightarrow> bool" where
  "mpc_ok n m = (case m of M_out \<Rightarrow> True | M_wait i \<Rightarrow> 1 \<le> i \<and> (i \<le> n \<or> i = 1)
     | M_release i \<Rightarrow> 1 \<le> i \<and> (i \<le> n \<or> i = 1))"

definition bar_inv :: "(nat \<Rightarrow> u32) \<Rightarrow> nat \<Rightarrow> (nat \<Rightarrow> nat) \<Rightarrow> bar_state \<Rightarrow> bool" where
  "bar_inv f0 n ids s \<longleftrightarrow> mpc_ok n (mpc s) \<and> (\<forall>j \<in> {1..<n}. thread_inv f0 s j (ids j))"

section \<open>The invariant is kept by every step\<close>

lemma thread_inv_frame:
  assumes "thread_inv f0 s j p"
    and "bmem s' (SLAVE_FLAG p) = bmem s (SLAVE_FLAG p)" "bmem s' (MASTER_FLAG p) = bmem s (MASTER_FLAG p)"
    and "rounds s' + m_released (mpc s') j = rounds s + m_released (mpc s) j"
    and "rounds s' + m_taken (mpc s') j = rounds s + m_taken (mpc s) j"
    and "arr s' p = arr s p" "dep s' p = dep s p" "spc s' p = spc s p"
  shows "thread_inv f0 s' j p"
  using assms(1) unfolding thread_inv_def assms(2-8) .

lemma bar_init_inv:
  assumes "bar_init s" "bar_ids n ids"
  shows "bar_inv (\<lambda>p. bmem s (SLAVE_FLAG p)) n ids s"
  using assms by (auto simp: bar_init_def bar_inv_def bar_ids_def thread_inv_def mpc_ok_def)

lemma released_le_taken: "m_released m j \<le> m_taken m j"
  by (cases m) auto

lemma bar_inv_slave:
  assumes inv: "bar_inv f0 n ids s" and ids: "bar_ids n ids"
    and j: "j \<in> {1..<n}" "p = ids j"
    and s': "mpc s' = mpc s" "rounds s' = rounds s"
    and here: "thread_inv f0 s j p \<Longrightarrow> thread_inv f0 s' j p"
    and frame: "\<And>q. q \<noteq> p \<Longrightarrow> q < 16 \<Longrightarrow> bmem s' (SLAVE_FLAG q) = bmem s (SLAVE_FLAG q) \<and>
      bmem s' (MASTER_FLAG q) = bmem s (MASTER_FLAG q) \<and>
      arr s' q = arr s q \<and> dep s' q = dep s q \<and> spc s' q = spc s q"
  shows "bar_inv f0 n ids s'"
proof -
  have "thread_inv f0 s' k (ids k)" if k: "k \<in> {1..<n}" for k
  proof (cases "k = j")
    case True
    then show ?thesis using here inv j by (simp add: bar_inv_def)
  next
    case False
    then have "ids k \<noteq> p" "ids k < 16" using ids k j by (auto simp: bar_ids_def inj_on_def)
    then have f: "bmem s' (SLAVE_FLAG (ids k)) = bmem s (SLAVE_FLAG (ids k))"
      "bmem s' (MASTER_FLAG (ids k)) = bmem s (MASTER_FLAG (ids k))"
      "arr s' (ids k) = arr s (ids k)" "dep s' (ids k) = dep s (ids k)" "spc s' (ids k) = spc s (ids k)"
      using frame [of "ids k"] by simp_all
    have "thread_inv f0 s k (ids k)" using inv k by (simp add: bar_inv_def)
    then show ?thesis by (rule thread_inv_frame) (simp_all only: s' f)
  qed
  then show ?thesis using inv s' by (simp add: bar_inv_def)
qed

lemma bar_inv_master:
  assumes inv: "bar_inv f0 n ids s" and ids: "bar_ids n ids"
    and i: "1 \<le> i" "i < n"
    and s': "spc s' = spc s" "arr s' = arr s" "dep s' = dep s" "mpc_ok n (mpc s')" "rounds s' = rounds s"
    and here: "thread_inv f0 s i (ids i) \<Longrightarrow> thread_inv f0 s' i (ids i)"
    and same: "\<And>j. j \<noteq> i \<Longrightarrow> m_taken (mpc s') j = m_taken (mpc s) j \<and>
      m_released (mpc s') j = m_released (mpc s) j"
    and frame: "\<And>q. q \<noteq> ids i \<Longrightarrow> q < 16 \<Longrightarrow> bmem s' (SLAVE_FLAG q) = bmem s (SLAVE_FLAG q) \<and>
      bmem s' (MASTER_FLAG q) = bmem s (MASTER_FLAG q)"
  shows "bar_inv f0 n ids s'"
proof -
  have "thread_inv f0 s' k (ids k)" if k: "k \<in> {1..<n}" for k
  proof (cases "k = i")
    case True
    then show ?thesis using here inv i by (simp add: bar_inv_def)
  next
    case False
    then have "ids k \<noteq> ids i" "ids k < 16" using ids k i by (auto simp: bar_ids_def inj_on_def)
    then have f: "bmem s' (SLAVE_FLAG (ids k)) = bmem s (SLAVE_FLAG (ids k))"
      "bmem s' (MASTER_FLAG (ids k)) = bmem s (MASTER_FLAG (ids k))"
      using frame [of "ids k"] by simp_all
    have "m_taken (mpc s') k = m_taken (mpc s) k" "m_released (mpc s') k = m_released (mpc s) k"
      using same [OF False] by simp_all
    moreover have "thread_inv f0 s k (ids k)" using inv k by (simp add: bar_inv_def)
    ultimately show ?thesis by (elim thread_inv_frame) (simp_all only: s' f)
  qed
  then show ?thesis using s' by (simp add: bar_inv_def)
qed

lemma bar_inv_idle:
  assumes inv: "bar_inv f0 n ids s" and ok: "mpc_ok n m"
    and same: "\<And>j. j \<in> {1..<n} \<Longrightarrow> r + m_taken m j = rounds s + m_taken (mpc s) j \<and>
      r + m_released m j = rounds s + m_released (mpc s) j"
  shows "bar_inv f0 n ids (s\<lparr>mpc := m, rounds := r\<rparr>)"
proof -
  have "thread_inv f0 (s\<lparr>mpc := m, rounds := r\<rparr>) k (ids k)" if k: "k \<in> {1..<n}" for k
  proof -
    have "thread_inv f0 s k (ids k)" using inv k by (simp add: bar_inv_def)
    then show ?thesis by (rule thread_inv_frame) (simp_all add: same [OF k])
  qed
  then show ?thesis using ok by (simp add: bar_inv_def)
qed

lemma bar_inv_step:
  assumes "bar_step n ids s s'" "bar_inv f0 n ids s" "bar_ids n ids"
  shows "bar_inv f0 n ids s'"
  using assms(1)
proof cases
  case (slave_enter j p)
  have p: "p < 16" using slave_enter assms(3) by (auto simp: bar_ids_def)
  show ?thesis
  proof (rule bar_inv_slave [OF assms(2,3) slave_enter(2,3)])
    assume t: "thread_inv f0 s j p"
    have "m_released (mpc s) j \<le> m_taken (mpc s) j" by (rule released_le_taken)
    then have "dep s p = rounds s + m_released (mpc s) j"
      using t slave_enter(4) by (auto simp: thread_inv_def)
    then show "thread_inv f0 s' j p" using t slave_enter by (simp add: thread_inv_def)
  qed (use slave_enter in auto)
next
  case (slave_mark j p v)
  have p: "p < 16" using slave_mark assms(3) by (auto simp: bar_ids_def)
  show ?thesis
  proof (rule bar_inv_slave [OF assms(2,3) slave_mark(2,3)])
    assume t: "thread_inv f0 s j p"
    have "m_released (mpc s) j \<le> m_taken (mpc s) j" by (rule released_le_taken)
    then have "arr s p = rounds s + m_taken (mpc s) j"
      using t slave_mark(4) by (auto simp: thread_inv_def)
    then show "thread_inv f0 s' j p" using t slave_mark p by (simp add: thread_inv_def flags_apart)
  qed (use slave_mark p in \<open>auto simp: flags_apart\<close>)
next
  case (slave_spin j p v)
  then show ?thesis using assms(2) by simp
next
  case (slave_leave j p v)
  show ?thesis
  proof (rule bar_inv_slave [OF assms(2,3) slave_leave(2,3)])
    assume t: "thread_inv f0 s j p"
    have "dep s p \<noteq> rounds s + m_released (mpc s) j"
      using t slave_leave by (auto simp: thread_inv_def)
    then show "thread_inv f0 s' j p" using t slave_leave by (simp add: thread_inv_def)
  qed (use slave_leave in auto)
next
  case master_enter
  have "s' = s\<lparr>mpc := M_wait 1, rounds := rounds s\<rparr>" using master_enter by simp
  then show ?thesis
    using bar_inv_idle [OF assms(2), of "M_wait 1" "rounds s"] master_enter by (auto simp: mpc_ok_def)
next
  case (master_spin i)
  then show ?thesis using assms(2) by simp
next
  case (master_take i)
  have i: "1 \<le> i" using assms(2) master_take by (simp add: bar_inv_def mpc_ok_def)
  then have q: "ids i < 16" using master_take assms(3) by (simp add: bar_ids_def)
  show ?thesis
  proof (rule bar_inv_master [OF assms(2,3) i master_take(3)])
    assume t: "thread_inv f0 s i (ids i)"
    have "arr s (ids i) = rounds s + 1"
      using t master_take by (auto simp: thread_inv_def le_Suc_eq)
    then show "thread_inv f0 s' i (ids i)"
      using t master_take q by (simp add: thread_inv_def flags_apart split: slave_pc.splits)
  qed (use master_take i q in \<open>auto simp: flags_apart mpc_ok_def\<close>)
next
  case (master_waited i)
  have "s' = s\<lparr>mpc := M_release 1, rounds := rounds s\<rparr>" using master_waited by simp
  then show ?thesis
    using bar_inv_idle [OF assms(2), of "M_release 1" "rounds s"] master_waited
    by (auto simp: mpc_ok_def)
next
  case (master_release i)
  have i: "1 \<le> i" using assms(2) master_release by (simp add: bar_inv_def mpc_ok_def)
  then have q: "ids i < 16" using master_release assms(3) by (simp add: bar_ids_def)
  show ?thesis
  proof (rule bar_inv_master [OF assms(2,3) i master_release(3)])
    assume t: "thread_inv f0 s i (ids i)"
    then show "thread_inv f0 s' i (ids i)"
      using master_release q by (auto simp: thread_inv_def flags_apart algebra_simps split: slave_pc.splits)
  qed (use master_release i q in \<open>auto simp: flags_apart mpc_ok_def\<close>)
next
  case (master_done i)
  have "s' = s\<lparr>mpc := M_out, rounds := rounds s + 1\<rparr>" using master_done by simp
  then show ?thesis
    using bar_inv_idle [OF assms(2), of M_out "rounds s + 1"] master_done by (auto simp: mpc_ok_def)
qed

lemma bar_inv_reach:
  assumes "(bar_step n ids)\<^sup>*\<^sup>* s0 s" "bar_init s0" "bar_ids n ids"
  shows "bar_inv (\<lambda>p. bmem s0 (SLAVE_FLAG p)) n ids s"
  using assms(1) by induction (use assms bar_init_inv bar_inv_step in blast)+

text \<open>C3: in every interleaving of a team on up to 16 processors, however often the barrier
  is used: a slave that has left the barrier \<open>d\<close> times can do so only after every other slave of
  the team has arrived \<open>d\<close> times, the master has finished the barrier only as often as every
  slave has arrived, and no slave is ever more than one barrier ahead of what was released.\<close>

theorem barrier_safe:
  assumes "(bar_step n ids)\<^sup>*\<^sup>* s0 s" "bar_init s0" "bar_ids n ids"
    and "j \<in> {1..<n}" "k \<in> {1..<n}"
  shows "dep s (ids j) \<le> arr s (ids k) \<and> rounds s \<le> arr s (ids k) \<and>
    arr s (ids k) \<le> dep s (ids k) + 1 \<and> dep s (ids j) \<le> rounds s + 1"
proof -
  have t: "thread_inv (\<lambda>p. bmem s0 (SLAVE_FLAG p)) s j (ids j)"
      "thread_inv (\<lambda>p. bmem s0 (SLAVE_FLAG p)) s k (ids k)"
    using bar_inv_reach [OF assms(1-3)] assms(4,5) by (auto simp: bar_inv_def)
  have "m_released (mpc s) j \<le> m_taken (mpc s) k" by (cases "mpc s") auto
  moreover have "m_released (mpc s) j \<le> 1" by (cases "mpc s") auto
  ultimately show ?thesis
    using t by (auto simp: thread_inv_def split: slave_pc.splits)
qed

text \<open>The program counter of processor \<open>p\<close> is inside the barrier.\<close>

definition bar_waiting :: "bar_state \<Rightarrow> nat \<Rightarrow> bool" where
  "bar_waiting s p \<longleftrightarrow> spc s p \<noteq> S_out"

text \<open>C9: the barrier does not deadlock: in every reachable state in which the master and all
  slaves of the team are inside, some processor can make a step that is not a fruitless poll.\<close>

theorem barrier_no_deadlock:
  assumes "(bar_step n ids)\<^sup>*\<^sup>* s0 s" "bar_init s0" "bar_ids n ids"
    and "mpc s \<noteq> M_out" "\<forall>j \<in> {1..<n}. bar_waiting s (ids j)"
  shows "\<exists>s'. bar_step n ids s s' \<and> s' \<noteq> s"
proof (cases "mpc s")
  case M_out
  then show ?thesis using assms(4) by simp
next
  case (M_release i)
  show ?thesis
  proof (cases "i < n")
    case True
    let ?s' = "s\<lparr>bmem := (bmem s)(SLAVE_FLAG (ids i) := bmem s (SLAVE_FLAG (ids i)) + 1),
      mpc := M_release (i + 1)\<rparr>"
    have "mpc ?s' \<noteq> mpc s" using M_release by simp
    then show ?thesis using bar_step.master_release [OF M_release True, of ids] by metis
  next
    case False
    have "mpc (s\<lparr>mpc := M_out, rounds := rounds s + 1\<rparr>) \<noteq> mpc s" using M_release by simp
    then show ?thesis using bar_step.master_done [OF M_release False, of ids] by metis
  qed
next
  case (M_wait i)
  show ?thesis
  proof (cases "i < n")
    case False
    have "mpc (s\<lparr>mpc := M_release 1\<rparr>) \<noteq> mpc s" using M_wait by simp
    then show ?thesis using bar_step.master_waited [OF M_wait False, of ids] by metis
  next
    case True
    have inv: "bar_inv (\<lambda>p. bmem s0 (SLAVE_FLAG p)) n ids s" by (rule bar_inv_reach [OF assms(1-3)])
    then have i: "i \<in> {1..<n}" using M_wait True by (simp add: bar_inv_def mpc_ok_def)
    have t: "thread_inv (\<lambda>p. bmem s0 (SLAVE_FLAG p)) s i (ids i)" using inv i by (simp add: bar_inv_def)
    consider v where "spc s (ids i) = S_mark v" | v where "spc s (ids i) = S_spin v"
      using assms(5) i by (cases "spc s (ids i)") (auto simp: bar_waiting_def)
    then show ?thesis
    proof cases
      case 1
      have "spc (s\<lparr>bmem := (bmem s)(MASTER_FLAG (ids i) := 1), spc := (spc s)(ids i := S_spin v),
          arr := (arr s)(ids i := arr s (ids i) + 1)\<rparr>) \<noteq> spc s"
        using 1 by (auto simp: fun_eq_iff)
      then show ?thesis using bar_step.slave_mark [where p = "ids i" and j = i and ids = ids, OF i refl 1] by metis
    next
      case 2
      show ?thesis
      proof (cases "bmem s (MASTER_FLAG (ids i)) = 0")
        case False
        have "mpc (s\<lparr>bmem := (bmem s)(MASTER_FLAG (ids i) := 0), mpc := M_wait (i + 1)\<rparr>) \<noteq> mpc s"
          using M_wait by simp
        then show ?thesis using bar_step.master_take [where ids = ids, OF M_wait True False] by metis
      next
        case True
        then have "arr s (ids i) = rounds s" "dep s (ids i) < rounds s"
          using t M_wait 2 by (auto simp: thread_inv_def le_Suc_eq)
        then have "dep s (ids i) + 1 = rounds s" using t M_wait 2 by (auto simp: thread_inv_def)
        then have "v \<noteq> bmem s (SLAVE_FLAG (ids i))" using t M_wait 2
          by (auto simp: thread_inv_def simp flip: \<open>dep s (ids i) + 1 = rounds s\<close>)
        moreover have "spc (s\<lparr>spc := (spc s)(ids i := S_out), dep := (dep s)(ids i := dep s (ids i) + 1)\<rparr>) \<noteq> spc s"
          using 2 by (auto simp: fun_eq_iff)
        ultimately show ?thesis using bar_step.slave_leave [where p = "ids i" and j = i and ids = ids, OF i refl 2] by metis
      qed
    qed
  qed
qed

definition demo_bar :: bar_state where
  "demo_bar = \<lparr>bmem = (\<lambda>_. 0), spc = (\<lambda>_. S_out), mpc = M_out, rounds = 0,
     arr = (\<lambda>_. 0), dep = (\<lambda>_. 0)\<rparr>"

lemma demo_bar_init: "bar_init demo_bar"
  by (simp add: bar_init_def demo_bar_def)

lemma bar_ids_id: "n \<le> 16 \<Longrightarrow> bar_ids n (\<lambda>j. j)"
  by (auto simp: bar_ids_def inj_on_def)

definition demo_bar_in :: bar_state where
  "demo_bar_in = demo_bar\<lparr>spc := (spc demo_bar)(1 := S_mark (bmem demo_bar (SLAVE_FLAG 1)))\<rparr>"

definition demo_bar_full :: bar_state where
  "demo_bar_full = demo_bar_in\<lparr>mpc := M_wait 1\<rparr>"

lemma demo_bar_steps:
  "(bar_step 2 (\<lambda>j. j))\<^sup>*\<^sup>* demo_bar demo_bar_in" "(bar_step 2 (\<lambda>j. j))\<^sup>*\<^sup>* demo_bar demo_bar_full"
proof -
  have 1: "bar_step 2 (\<lambda>j. j) demo_bar demo_bar_in"
    unfolding demo_bar_in_def by (rule bar_step.slave_enter [where j = 1]) (simp_all add: demo_bar_def)
  have 2: "bar_step 2 (\<lambda>j. j) demo_bar_in demo_bar_full"
    unfolding demo_bar_full_def by (rule bar_step.master_enter) (simp add: demo_bar_in_def demo_bar_def)
  show "(bar_step 2 (\<lambda>j. j))\<^sup>*\<^sup>* demo_bar demo_bar_in" "(bar_step 2 (\<lambda>j. j))\<^sup>*\<^sup>* demo_bar demo_bar_full"
    using 1 2 by (meson r_into_rtranclp rtranclp.rtrancl_into_rtrancl)+
qed

theorem barrier_safe_witness:
  "dep demo_bar_full ((\<lambda>j. j) 1) \<le> arr demo_bar_full ((\<lambda>j. j) 1) \<and>
   rounds demo_bar_full \<le> arr demo_bar_full ((\<lambda>j. j) 1) \<and>
   arr demo_bar_full ((\<lambda>j. j) 1) \<le> dep demo_bar_full ((\<lambda>j. j) 1) + 1 \<and>
   dep demo_bar_full ((\<lambda>j. j) 1) \<le> rounds demo_bar_full + 1"
  by (rule barrier_safe [OF demo_bar_steps(2) demo_bar_init bar_ids_id]) simp_all

theorem barrier_no_deadlock_witness:
  "\<exists>s'. bar_step 2 (\<lambda>j. j) demo_bar_full s' \<and> s' \<noteq> demo_bar_full"
  by (rule barrier_no_deadlock [OF demo_bar_steps(2) demo_bar_init bar_ids_id])
    (auto simp: demo_bar_full_def demo_bar_in_def demo_bar_def bar_waiting_def)

theorem hal_barrier_master_witness:
  "let g = (demo_gomp 2)\<lparr>teams := (\<lambda>_. demo_team\<lparr>nthreads := 2, proc_ids := (\<lambda>i. of_nat i)\<rparr>),
      tcdm := (\<lambda>_. 0)(MASTER_FLAG 1 := 1)\<rparr> in
   gomp_hal_barrier 0 g =
    (if \<forall>q \<in> set [1]. tcdm g (MASTER_FLAG q) \<noteq> 0
     then Inr (g\<lparr>tcdm := (\<lambda>a. if a \<in> MASTER_FLAG ` set [1] then 0
         else if a \<in> SLAVE_FLAG ` set [1] then tcdm g a + 1 else tcdm g a)\<rparr>)
     else Inl FSpin)"
  unfolding Let_def
  by (rule hal_barrier_master) (simp_all add: slave_ids_def upt_conv_Cons)

section \<open>More than 16 processors\<close>

text \<open>The flag a slave sets for the master is the release flag of the slave 16 numbers
  above it. With 18 or more processors a slave can therefore leave the barrier although the
  master has released nobody and another slave has not arrived.\<close>

theorem barrier_flags_overlap:
  assumes "18 \<le> n"
  shows "MASTER_FLAG 1 = SLAVE_FLAG 17 \<and>
    (\<exists>s. (bar_step n (\<lambda>j. j))\<^sup>*\<^sup>* demo_bar s \<and> dep s 17 = 1 \<and> arr s 2 = 0 \<and>
       rounds s = 0 \<and> mpc s = M_out)"
proof -
  have overlap: "MASTER_FLAG 1 = SLAVE_FLAG 17" by (simp add: flag_addr_eq)
  have f: "MASTER_FLAG 17 \<noteq> SLAVE_FLAG 17" "MASTER_FLAG 17 \<noteq> MASTER_FLAG 1"
    by (simp_all add: flag_addr_eq)
  let ?st = "bar_step n (\<lambda>j. j)"
  let ?s1 = "demo_bar\<lparr>spc := (spc demo_bar)(17 := S_mark (bmem demo_bar (SLAVE_FLAG 17)))\<rparr>"
  have 1: "?st demo_bar ?s1"
    using assms by (intro bar_step.slave_enter [where j = 17]) (simp_all add: demo_bar_def)
  let ?s2 = "?s1\<lparr>bmem := (bmem ?s1)(MASTER_FLAG 17 := 1), spc := (spc ?s1)(17 := S_spin 0),
    arr := (arr ?s1)(17 := arr ?s1 17 + 1)\<rparr>"
  have 2: "?st ?s1 ?s2"
    using assms by (intro bar_step.slave_mark [where j = 17]) (simp_all add: demo_bar_def)
  let ?s3 = "?s2\<lparr>spc := (spc ?s2)(1 := S_mark (bmem ?s2 (SLAVE_FLAG 1)))\<rparr>"
  have 3: "?st ?s2 ?s3"
    using assms by (intro bar_step.slave_enter [where j = 1]) (simp_all add: demo_bar_def)
  let ?s4 = "?s3\<lparr>bmem := (bmem ?s3)(MASTER_FLAG 1 := 1), spc := (spc ?s3)(1 := S_spin (bmem ?s2 (SLAVE_FLAG 1))),
    arr := (arr ?s3)(1 := arr ?s3 1 + 1)\<rparr>"
  have 4: "?st ?s3 ?s4"
    using assms by (intro bar_step.slave_mark [where j = 1]) simp_all
  let ?s5 = "?s4\<lparr>spc := (spc ?s4)(17 := S_out), dep := (dep ?s4)(17 := dep ?s4 17 + 1)\<rparr>"
  have 5: "?st ?s4 ?s5"
    using assms overlap by (intro bar_step.slave_leave [where j = 17 and v = 0]) simp_all
  have "?st\<^sup>*\<^sup>* demo_bar ?s5"
    using 1 2 3 4 5 by (meson rtranclp.rtrancl_into_rtrancl rtranclp.rtrancl_refl)
  moreover have "dep ?s5 17 = 1 \<and> arr ?s5 2 = 0 \<and> rounds ?s5 = 0 \<and> mpc ?s5 = M_out"
    by (simp add: demo_bar_def)
  ultimately show ?thesis using overlap by blast
qed

theorem barrier_flags_overlap_witness:
  "MASTER_FLAG 1 = SLAVE_FLAG 17 \<and>
    (\<exists>s. (bar_step 20 (\<lambda>j. j))\<^sup>*\<^sup>* demo_bar s \<and> dep s 17 = 1 \<and> arr s 2 = 0 \<and>
       rounds s = 0 \<and> mpc s = M_out)"
  by (rule barrier_flags_overlap) simp

end
