(* ===== verification/Gomp_Team.thy ===== *)
theory Gomp_Team
  imports Gomp_Barrier
begin

text \<open>
  Teams (\<open>libgomp/team.c\<close>) and parallel regions (\<open>parallel.c\<close>): the number of
  threads, the team descriptor, the claiming of free processors out of the
  thread pool, and the end of a region. Bit \<open>i\<close> of \<open>GLOBAL_THREAD_POOL\<close> is set
  while processor \<open>i\<close> is busy and \<open>GLOBAL_IDLE_CORES\<close> counts the processors that
  are not. The arrays of a descriptor have 64 entries and the platform at most 64
  processors.
\<close>

section \<open>team.c\<close>

definition gomp_new_team :: "gomp \<Rightarrow> (addr \<times> gomp) res" where
  "gomp_new_team g = shmalloc sizeof_team g"

text \<open>\<open>gomp_free_team\<close> has an empty body.\<close>

definition gomp_free_team :: "addr \<Rightarrow> gomp \<Rightarrow> gomp" where
  "gomp_free_team team g = g"

definition gomp_resolve_num_threads :: "u32 \<Rightarrow> gomp \<Rightarrow> u32 \<times> gomp" where
  "gomp_resolve_num_threads specified g =
     (let nthr = idle_cores g + 1;
          nthr = (if specified \<noteq> 0 \<and> sint specified < sint nthr then specified else nthr) in
      (nthr, g\<lparr>idle_cores := idle_cores g - (nthr - 1)\<rparr>))"

definition GLOBAL_INFOS_WAIT :: "gomp \<Rightarrow> gomp res" where
  "GLOBAL_INFOS_WAIT g = gomp_hal_lock (global_lock g) g"

definition GLOBAL_INFOS_SIGNAL :: "gomp \<Rightarrow> gomp res" where
  "GLOBAL_INFOS_SIGNAL g = gomp_hal_unlock (global_lock g) g"

definition set_team :: "addr \<Rightarrow> gomp_team \<Rightarrow> gomp \<Rightarrow> gomp" where
  "set_team p t g = g\<lparr>teams := (teams g)(p := t)\<rparr>"

text \<open>The loop of lines 181 to 204: \<open>k\<close> processors from \<open>i\<close> on are still to be looked at,
  \<open>num\<close> threads are still wanted. \<open>mask\<close> is 1 shifted \<open>i\<close> times in 32 bits.\<close>

fun claim :: "addr \<Rightarrow> nat \<Rightarrow> nat \<Rightarrow> nat \<Rightarrow> u32 \<Rightarrow> gomp \<Rightarrow> gomp" where
  "claim p 0 i local_id_gen num g = g"
| "claim p (Suc k) i local_id_gen num g =
     (if num = 0 then g
      else let mask = push_bit i 1 in
        if thread_pool g AND mask = 0
        then let t = teams g p;
                 g = set_team p (t\<lparr>team_mask := team_mask t OR mask,
                       proc_ids := (proc_ids t)(local_id_gen := of_nat i),
                       thread_ids := (thread_ids t)(i := of_nat local_id_gen)\<rparr>)
                     (g\<lparr>thread_pool := thread_pool g OR mask\<rparr>);
                 g = g\<lparr>CURR_TEAM := (CURR_TEAM g)(i := p)\<rparr> in
             claim p k (i + 1) (local_id_gen + 1) (num - 1) g
        else claim p k (i + 1) local_id_gen num g)"

definition gomp_team_start :: "nat \<Rightarrow> addr \<Rightarrow> addr \<Rightarrow> u32 \<Rightarrow> gomp \<Rightarrow> (addr \<times> gomp) res" where
  "gomp_team_start myid fn args specified g =
     res_bind (GLOBAL_INFOS_WAIT g) (\<lambda>g.
     let (num_threads, g) = gomp_resolve_num_threads specified g in
     res_bind (gomp_new_team g) (\<lambda>(p, g).
     let t = (teams g p)\<lparr>omp_task_f := fn, omp_args := args, nthreads := num_threads, team_mask := 0\<rparr>;
         t = t\<lparr>team_mask := team_mask t OR push_bit myid 1,
           thread_ids := (thread_ids t)(myid := 0), proc_ids := (proc_ids t)(0 := of_nat myid)\<rparr>;
         g = set_team p t g in
     res_bind (gomp_hal_lock NEXT_LOCK_LOCK_PTR g) (\<lambda>g.
     let v = tcdm g (next_lock g) + push_bit 1 SIZEOF_INT;
         g = g\<lparr>tcdm := (tcdm g)(next_lock g := v)\<rparr>;
         g = set_team p ((teams g p)\<lparr>critical_lock := v\<rparr>) g in
     res_bind (vol_write g NEXT_LOCK_LOCK_PTR 0) (\<lambda>g.
     let g = set_team p ((teams g p)\<lparr>atomic_lock := critical_lock (teams g p) + SIZEOF_INT\<rparr>) g in
     res_bind (gomp_new_work_share g) (\<lambda>(w, g).
     let g = set_team p ((teams g p)\<lparr>work_share := w\<rparr>) g;
         g = claim p (unat (prv_num_procs g) - 1) 1 1 (num_threads - 1) g in
     res_bind (GLOBAL_INFOS_SIGNAL g) (\<lambda>g.
     let parent_team = CURR_TEAM g myid;
         g = set_team p ((teams g p)\<lparr>level := level (teams g parent_team) + 1, parent := parent_team\<rparr>) g in
     Inr (p, g\<lparr>CURR_TEAM := (CURR_TEAM g)(myid := p)\<rparr>)))))))"

definition gomp_team_end :: "nat \<Rightarrow> gomp \<Rightarrow> gomp res" where
  "gomp_team_end myid g =
     (let p = CURR_TEAM g myid;
          neg_mask = NOT (team_mask (teams g p)) OR push_bit myid 1;
          n = nthreads (teams g p) in
      res_bind (GLOBAL_INFOS_WAIT g) (\<lambda>g.
      let g = g\<lparr>idle_cores := idle_cores g + (n - 1), thread_pool := thread_pool g AND neg_mask\<rparr> in
      res_bind (GLOBAL_INFOS_SIGNAL g) (\<lambda>g.
      Inr (gomp_free_team p (g\<lparr>CURR_TEAM := (CURR_TEAM g)(myid := parent (teams g p))\<rparr>)))))"

text \<open>The team of the whole program, built by the master at start-up.\<close>

fun number_procs :: "nat \<Rightarrow> nat \<Rightarrow> nat \<Rightarrow> gomp_team \<Rightarrow> gomp_team" where
  "number_procs 0 i local_id_gen t = t"
| "number_procs (Suc k) i local_id_gen t =
     number_procs k (i + 1) (local_id_gen + 1)
       (t\<lparr>proc_ids := (proc_ids t)(local_id_gen := of_nat i),
          thread_ids := (thread_ids t)(i := of_nat local_id_gen)\<rparr>)"

definition gomp_master_region_start ::
    "nat \<Rightarrow> addr \<Rightarrow> addr \<Rightarrow> u32 \<Rightarrow> gomp \<Rightarrow> (addr \<times> gomp) res" where
  "gomp_master_region_start myid fn args specified g =
     res_bind (GLOBAL_INFOS_WAIT g) (\<lambda>g.
     let (num_threads, g) = gomp_resolve_num_threads specified g in
     res_bind (gomp_new_team g) (\<lambda>(p, g).
     let t = (teams g p)\<lparr>omp_task_f := fn, omp_args := args, nthreads := num_threads,
           team_mask := 0xFFFF\<rparr>;
         t = t\<lparr>thread_ids := (thread_ids t)(myid := 0), proc_ids := (proc_ids t)(0 := of_nat myid)\<rparr>;
         t = number_procs (unat (prv_num_procs g) - 1) 1 1 t;
         g = set_team p t g in
     res_bind (GLOBAL_INFOS_SIGNAL g) (\<lambda>g.
     let g = set_team p ((teams g p)\<lparr>level := 0, parent := 0\<rparr>) g in
     Inr (p, g\<lparr>CURR_TEAM := (CURR_TEAM g)(0 := p)\<rparr>))))"

section \<open>parallel.c\<close>

definition GOMP_parallel_start :: "nat \<Rightarrow> addr \<Rightarrow> addr \<Rightarrow> u32 \<Rightarrow> gomp \<Rightarrow> gomp res" where
  "GOMP_parallel_start myid fn args num_threads g =
     res_bind (gomp_team_start myid fn args num_threads g) (\<lambda>(p, g).
     Inr (MSGBarrier_Release (nthreads (teams g p)) (proc_ids (teams g p)) g))"

definition GOMP_parallel_end :: "nat \<Rightarrow> gomp \<Rightarrow> gomp res" where
  "GOMP_parallel_end myid g =
     (let t = teams g (CURR_TEAM g myid) in
      res_bind (MSGBarrier_Wait (nthreads t) (proc_ids t) g) (gomp_team_end myid))"

definition omp_get_num_threads :: "nat \<Rightarrow> gomp \<Rightarrow> u32" where
  "omp_get_num_threads myid g = nthreads (teams g (CURR_TEAM g myid))"

definition omp_get_max_threads :: "gomp \<Rightarrow> u32" where
  "omp_get_max_threads g = idle_cores g + 1"

definition omp_get_thread_num :: "nat \<Rightarrow> gomp \<Rightarrow> u32" where
  "omp_get_thread_num myid g = thread_ids (teams g (CURR_TEAM g myid)) myid"

definition omp_in_parallel :: "nat \<Rightarrow> gomp \<Rightarrow> bool" where
  "omp_in_parallel myid g = (level (teams g (CURR_TEAM g myid)) \<noteq> 0)"

section \<open>The thread pool\<close>

definition free_among :: "u32 \<Rightarrow> nat list \<Rightarrow> nat list" where
  "free_among pool is = filter (\<lambda>i. \<not> bit pool i) is"

definition mask_of :: "nat list \<Rightarrow> u32" where
  "mask_of qs = foldr (\<lambda>q m. push_bit q 1 OR m) qs 0"

lemma mask_of_simps [simp]:
  "mask_of [] = 0" "mask_of (q # qs) = push_bit q 1 OR mask_of qs"
  by (simp_all add: mask_of_def)

lemma bit_push_1: "bit (push_bit q 1 :: u32) j \<longleftrightarrow> q = j \<and> j < 32"
  by (auto simp: bit_simps)

lemma bit_pow32: "bit (2 ^ q :: u32) j \<longleftrightarrow> q = j \<and> j < 32"
  using bit_push_1 [of q j] by simp

lemma bit_mask_of: "bit (mask_of qs) j \<longleftrightarrow> j \<in> set qs \<and> j < 32"
  by (induction qs) (auto simp: bit_or_iff bit_pow32)

lemma pool_test: "pool AND push_bit i 1 = 0 \<longleftrightarrow> \<not> bit (pool :: u32) i"
  by (simp only: bit_iff_and_push_bit_not_eq_0) simp

text \<open>Numbering the threads of a team from \<open>lid\<close> on.\<close>

fun number :: "nat list \<Rightarrow> nat \<Rightarrow> gomp_team \<Rightarrow> gomp_team" where
  "number [] lid t = t"
| "number (q # qs) lid t = number qs (lid + 1) (t\<lparr>team_mask := team_mask t OR push_bit q 1,
     proc_ids := (proc_ids t)(lid := of_nat q), thread_ids := (thread_ids t)(q := of_nat lid)\<rparr>)"

lemma number_fields [simp]:
  "omp_task_f (number qs lid t) = omp_task_f t" "omp_args (number qs lid t) = omp_args t"
  "level (number qs lid t) = level t" "parent (number qs lid t) = parent t"
  "nthreads (number qs lid t) = nthreads t" "critical_lock (number qs lid t) = critical_lock t"
  "atomic_lock (number qs lid t) = atomic_lock t" "work_share (number qs lid t) = work_share t"
  "team_mask (number qs lid t) = team_mask t OR mask_of qs"
  by (induction qs arbitrary: lid t) (auto simp: or.assoc)

lemma number_proc_ids:
  "proc_ids (number qs lid t) l =
     (if lid \<le> l \<and> l < lid + length qs then of_nat (qs ! (l - lid)) else proc_ids t l)"
proof (induction qs arbitrary: lid t)
  case (Cons q qs)
  then show ?case by (cases "l = lid") (auto simp: nth_Cons' Suc_diff_Suc)
qed auto

lemma number_thread_ids_other: "q \<notin> set qs \<Longrightarrow> thread_ids (number qs lid t) q = thread_ids t q"
  by (induction qs arbitrary: lid t) auto

lemma number_thread_ids:
  "distinct qs \<Longrightarrow> j < length qs \<Longrightarrow> thread_ids (number qs lid t) (qs ! j) = of_nat (lid + j)"
proof (induction qs arbitrary: lid t j)
  case (Cons q qs)
  then show ?case by (cases j) (simp_all add: number_thread_ids_other)
qed simp

lemma claim_spec:
  assumes "i + k \<le> 32" "qs = take (unat num) (free_among (thread_pool g) [i..<i + k])"
  shows "claim p k i lid num g = g\<lparr>thread_pool := thread_pool g OR mask_of qs,
    teams := (teams g)(p := number qs lid (teams g p)),
    CURR_TEAM := (\<lambda>j. if j \<in> set qs then p else CURR_TEAM g j)\<rparr>"
  using assms
proof (induction k arbitrary: i lid num g qs)
  case (Suc k)
  have up: "free_among pool [i..<i + Suc k] =
      (if bit pool i then [] else [i]) @ free_among pool [Suc i..<Suc i + k]" for pool
  proof -
    have "[i..<i + Suc k] = i # [Suc i..<Suc i + k]" by (simp add: upt_conv_Cons del: upt_Suc)
    then show ?thesis unfolding free_among_def by (simp only: filter.simps) simp
  qed
  have qs: "qs = take (unat num) (free_among (thread_pool g) [i..<i + Suc k])"
    by (rule Suc.prems(2))
  show ?case
  proof (cases "num = 0")
    case True
    then show ?thesis using qs by simp
  next
    case num: False
    then have n: "unat num = Suc (unat (num - 1))"
      using unat_minus_one [of num] unat_gt_0 [of num] by simp
    show ?thesis
    proof (cases "bit (thread_pool g) i")
      case True
      have "claim p (Suc k) i lid num g = claim p k (Suc i) lid num g"
        using True num unfolding claim.simps pool_test Let_def by simp
      then show ?thesis
        using Suc.IH [of "Suc i" qs num g lid] Suc.prems(1) qs [unfolded up] True by simp
    next
      case False
      let ?g = "g\<lparr>thread_pool := thread_pool g OR push_bit i 1,
        teams := (teams g)(p := (teams g p)\<lparr>team_mask := team_mask (teams g p) OR push_bit i 1,
           proc_ids := (proc_ids (teams g p))(lid := of_nat i),
           thread_ids := (thread_ids (teams g p))(i := of_nat lid)\<rparr>),
        CURR_TEAM := (CURR_TEAM g)(i := p)\<rparr>"
      let ?qs = "take (unat (num - 1)) (free_among (thread_pool g) [Suc i..<Suc i + k])"
      have same: "free_among (thread_pool ?g) [Suc i..<Suc i + k] = free_among (thread_pool g) [Suc i..<Suc i + k]"
        by (auto simp: free_among_def bit_or_iff bit_pow32 intro!: filter_cong)
      have qs': "qs = i # ?qs" using qs [unfolded up] False n by simp
      have "claim p (Suc k) i lid num g = claim p k (Suc i) (Suc lid) (num - 1) ?g"
        using num False unfolding claim.simps pool_test Let_def set_team_def by simp
      also have "\<dots> = ?g\<lparr>thread_pool := thread_pool ?g OR mask_of ?qs,
          teams := (teams ?g)(p := number ?qs (Suc lid) (teams ?g p)),
          CURR_TEAM := (\<lambda>j. if j \<in> set ?qs then p else CURR_TEAM ?g j)\<rparr>"
      proof (rule Suc.IH)
        show "Suc i + k \<le> 32" using Suc.prems(1) by simp
        show "?qs = take (unat (num - 1)) (free_among (thread_pool ?g) [Suc i..<Suc i + k])"
          by (simp only: same)
      qed
      also have "\<dots> = g\<lparr>thread_pool := thread_pool g OR mask_of qs,
          teams := (teams g)(p := number qs lid (teams g p)),
          CURR_TEAM := (\<lambda>j. if j \<in> set qs then p else CURR_TEAM g j)\<rparr>"
        unfolding qs' by (simp add: or.assoc fun_eq_iff)
      finally show ?thesis .
    qed
  qed
qed (simp add: free_among_def)

section \<open>Starting and ending a team in closed form\<close>

lemma lock_free_updates [simp]:
  "lock_free (g\<lparr>teams := a\<rparr>) l = lock_free g l" "lock_free (g\<lparr>work_shares := b\<rparr>) l = lock_free g l"
  "lock_free (g\<lparr>tcdm := c\<rparr>) l = lock_free g l" "lock_free (g\<lparr>idle_cores := d\<rparr>) l = lock_free g l"
  "lock_free (g\<lparr>thread_pool := d\<rparr>) l = lock_free g l" "lock_free (g\<lparr>CURR_TEAM := f\<rparr>) l = lock_free g l"
  "lock_free (g\<lparr>SHMEM_NEXT := d\<rparr>) l = lock_free g l"
  by (simp_all add: lock_free_def lock_addr_def sem_ok_def lock_word_def)

lemma heap_ok_updates [simp]:
  "heap_ok (g\<lparr>teams := a\<rparr>) = heap_ok g" "heap_ok (g\<lparr>work_shares := b\<rparr>) = heap_ok g"
  "heap_ok (g\<lparr>tcdm := c\<rparr>) = heap_ok g" "heap_ok (g\<lparr>idle_cores := d\<rparr>) = heap_ok g"
  "heap_ok (g\<lparr>thread_pool := d\<rparr>) = heap_ok g" "heap_ok (g\<lparr>CURR_TEAM := f\<rparr>) = heap_ok g"
  "heap_ok (g\<lparr>idle_cores := d, SHMEM_NEXT := e\<rparr>) = heap_ok (g\<lparr>SHMEM_NEXT := e\<rparr>)"
  by (simp_all add: heap_ok_def lock_addr_def sem_ok_def lock_word_def heap_limit_def)

lemma heap_limit_updates [simp]:
  "heap_limit (g\<lparr>teams := a\<rparr>) = heap_limit g" "heap_limit (g\<lparr>work_shares := b\<rparr>) = heap_limit g"
  "heap_limit (g\<lparr>tcdm := c\<rparr>) = heap_limit g" "heap_limit (g\<lparr>idle_cores := d\<rparr>) = heap_limit g"
  "heap_limit (g\<lparr>thread_pool := d\<rparr>) = heap_limit g" "heap_limit (g\<lparr>CURR_TEAM := f\<rparr>) = heap_limit g"
  "heap_limit (sem_put g l v) = heap_limit g"
  by (simp_all add: heap_limit_def)

lemma lock_free_put:
  "lock_slot l \<noteq> lock_slot a \<Longrightarrow> lock_free (sem_put g a v) l = lock_free g l"
  by (auto simp: lock_free_def lock_word_put)

lemma heap_ok_put: "lock_slot (SHMEM_LOCK g) \<noteq> lock_slot a \<Longrightarrow> heap_ok (sem_put g a v) = heap_ok g"
  by (auto simp: heap_ok_def lock_word_put)

lemma sem_put_updates:
  "sem_put (g\<lparr>teams := a\<rparr>) l v = (sem_put g l v)\<lparr>teams := a\<rparr>"
  "sem_put (g\<lparr>work_shares := b\<rparr>) l v = (sem_put g l v)\<lparr>work_shares := b\<rparr>"
  "sem_put (g\<lparr>tcdm := c\<rparr>) l v = (sem_put g l v)\<lparr>tcdm := c\<rparr>"
  "sem_put (g\<lparr>idle_cores := d\<rparr>) l v = (sem_put g l v)\<lparr>idle_cores := d\<rparr>"
  "sem_put (g\<lparr>thread_pool := d\<rparr>) l v = (sem_put g l v)\<lparr>thread_pool := d\<rparr>"
  "sem_put (g\<lparr>CURR_TEAM := f\<rparr>) l v = (sem_put g l v)\<lparr>CURR_TEAM := f\<rparr>"
  "sem_put (g\<lparr>SHMEM_NEXT := d\<rparr>) l v = (sem_put g l v)\<lparr>SHMEM_NEXT := d\<rparr>"
  by (simp_all add: sem_put_def)

lemma lock_free_addr: "lock_free g l \<Longrightarrow> lock_addr g l"
  by (simp add: lock_free_def)

lemma lock_addr_updates [simp]:
  "lock_addr (g\<lparr>teams := a\<rparr>) l = lock_addr g l" "lock_addr (g\<lparr>work_shares := b\<rparr>) l = lock_addr g l"
  "lock_addr (g\<lparr>tcdm := c\<rparr>) l = lock_addr g l" "lock_addr (g\<lparr>idle_cores := d\<rparr>) l = lock_addr g l"
  "lock_addr (g\<lparr>thread_pool := d\<rparr>) l = lock_addr g l" "lock_addr (g\<lparr>CURR_TEAM := f\<rparr>) l = lock_addr g l"
  "lock_addr (g\<lparr>SHMEM_NEXT := d\<rparr>) l = lock_addr g l"
  by (simp_all add: lock_addr_def sem_ok_def)

lemma sem_put_free: "lock_free g l \<Longrightarrow> sem_put g l 0 = g"
  by (simp add: lock_free_def sem_put_same)

lemma vol_write_unlock: "vol_write g l 0 = gomp_hal_unlock l g"
  by (simp add: gomp_hal_unlock_def)

lemma new_work_share_eq:
  assumes "heap_ok g" "lock_free g NEXT_LOCK_LOCK_PTR"
  shows "gomp_new_work_share g =
    (if unat (SHMEM_NEXT g + sizeof_work_share) \<le> heap_limit g
     then let p = SHMEM_NEXT g; v = tcdm g (next_lock g) + SIZEOF_INT * 2 in
       Inr (p, g\<lparr>SHMEM_NEXT := p + sizeof_work_share, tcdm := (tcdm g)(next_lock g := v),
         work_shares := (work_shares g)(p := (work_shares g p)\<lparr>ws_lock := v,
           enter_lock := v + SIZEOF_INT, exit_lock := v + SIZEOF_INT\<rparr>)\<rparr>)
     else Inl FAbort)"
  using assms
  by (simp add: gomp_new_work_share_def shmalloc_eq hal_lock_free vol_write_unlock hal_unlock_eq
      lock_free_addr Let_def set_ws_def sem_put_updates sem_put_free)

text \<open>What the runtime relies on between its calls: the allocator works, the two runtime locks
  are free and no two of the three share a semaphore, there are at most 32 processors, and
  the counter of idle processors agrees with the pool.\<close>

definition runtime_ok :: "gomp \<Rightarrow> bool" where
  "runtime_ok g \<longleftrightarrow> heap_ok g \<and> lock_free g (global_lock g) \<and> lock_free g NEXT_LOCK_LOCK_PTR \<and>
     lock_slot (SHMEM_LOCK g) \<noteq> lock_slot (global_lock g) \<and>
     lock_slot NEXT_LOCK_LOCK_PTR \<noteq> lock_slot (global_lock g) \<and>
     1 \<le> unat (prv_num_procs g) \<and> unat (prv_num_procs g) \<le> 32 \<and>
     unat (idle_cores g) = length (free_among (thread_pool g) [1..<unat (prv_num_procs g)])"

definition resolved :: "u32 \<Rightarrow> gomp \<Rightarrow> u32" where
  "resolved specified g = fst (gomp_resolve_num_threads specified g)"

definition claimed :: "u32 \<Rightarrow> gomp \<Rightarrow> nat list" where
  "claimed specified g = take (unat (resolved specified g - 1))
     (free_among (thread_pool g) [1..<unat (prv_num_procs g)])"

definition new_team_record :: "nat \<Rightarrow> addr \<Rightarrow> addr \<Rightarrow> u32 \<Rightarrow> gomp \<Rightarrow> gomp_team" where
  "new_team_record myid fn args specified g =
     (let t = teams g (SHMEM_NEXT g); v = tcdm g (next_lock g) in
      (number (claimed specified g) 1 (t\<lparr>omp_task_f := fn, omp_args := args,
         nthreads := resolved specified g, team_mask := push_bit myid 1,
         thread_ids := (thread_ids t)(myid := 0), proc_ids := (proc_ids t)(0 := of_nat myid),
         critical_lock := v + 8, atomic_lock := v + 12, work_share := SHMEM_NEXT g + 548\<rparr>))
      \<lparr>level := level (teams g (CURR_TEAM g myid)) + 1, parent := CURR_TEAM g myid\<rparr>)"

definition new_ws_record :: "gomp \<Rightarrow> gomp_work_share" where
  "new_ws_record g = (let v = tcdm g (next_lock g) in (work_shares g (SHMEM_NEXT g + 548))
     \<lparr>ws_lock := v + 16, enter_lock := v + 20, exit_lock := v + 20\<rparr>)"

definition team_started :: "nat \<Rightarrow> addr \<Rightarrow> addr \<Rightarrow> u32 \<Rightarrow> gomp \<Rightarrow> gomp" where
  "team_started myid fn args specified g =
     g\<lparr>idle_cores := idle_cores g - (resolved specified g - 1),
       thread_pool := thread_pool g OR mask_of (claimed specified g),
       teams := (teams g)(SHMEM_NEXT g := new_team_record myid fn args specified g),
       work_shares := (work_shares g)(SHMEM_NEXT g + 548 := new_ws_record g),
       tcdm := (tcdm g)(next_lock g := tcdm g (next_lock g) + 16),
       SHMEM_NEXT := SHMEM_NEXT g + 584,
       CURR_TEAM := (\<lambda>j. if j = myid \<or> j \<in> set (claimed specified g) then SHMEM_NEXT g
         else CURR_TEAM g j)\<rparr>"

lemma resolve_eq: "gomp_resolve_num_threads specified g =
    (resolved specified g, g\<lparr>idle_cores := idle_cores g - (resolved specified g - 1)\<rparr>)"
  by (simp add: resolved_def gomp_resolve_num_threads_def Let_def)

lemma resolve_sem_put: "resolved specified (sem_put g l v) = resolved specified g"
  by (simp add: resolved_def gomp_resolve_num_threads_def Let_def)

lemma claimed_not_busy:
  assumes "myid = 0 \<or> bit (thread_pool g) myid"
  shows "myid \<notin> set (claimed specified g)"
  using assms by (auto simp: claimed_def free_among_def dest: in_set_takeD)

lemma gomp_team_start_eq:
  assumes "runtime_ok g" "myid = 0 \<or> bit (thread_pool g) myid" "CURR_TEAM g myid \<noteq> SHMEM_NEXT g"
  shows "gomp_team_start myid fn args specified g =
    (if unat (SHMEM_NEXT g) + 584 \<le> heap_limit g
     then Inr (SHMEM_NEXT g, team_started myid fn args specified g) else Inl FAbort)"
proof -
  let ?gl = "global_lock g" and ?n = "unat (prv_num_procs g)"
  have ok: "heap_ok g" "lock_free g ?gl" "lock_free g NEXT_LOCK_LOCK_PTR"
    "lock_slot (SHMEM_LOCK g) \<noteq> lock_slot ?gl" "lock_slot NEXT_LOCK_LOCK_PTR \<noteq> lock_slot ?gl"
    "1 \<le> ?n" "?n \<le> 32"
    using assms(1) by (auto simp: runtime_ok_def)
  have w1: "unat (SHMEM_NEXT g + 548) = unat (SHMEM_NEXT g) + 548"
    using shmalloc_no_wrap [OF ok(1), of 548] by simp
  have w2: "unat (SHMEM_NEXT g + 584) = unat (SHMEM_NEXT g) + 584"
    using shmalloc_no_wrap [OF ok(1), of 584] by simp
  have n: "1 + (?n - 1) \<le> 32" "[1..<1 + (?n - 1)] = [1..<?n]" using ok by auto
  have nm: "myid \<notin> set (claimed specified g)" by (rule claimed_not_busy [OF assms(2)])
  show ?thesis
  proof (cases "unat (SHMEM_NEXT g + 548) \<le> heap_limit g")
    case False
    then show ?thesis using w1 ok
      by (simp add: gomp_team_start_def GLOBAL_INFOS_WAIT_def hal_lock_free resolve_eq resolve_sem_put
          gomp_new_team_def shmalloc_eq heap_ok_put sizeof_team_def)
  next
    case True
    then have hn: "heap_ok (g\<lparr>SHMEM_NEXT := SHMEM_NEXT g + 548\<rparr>)" using ok(1) heap_ok_next by blast
    let ?g1 = "(sem_put g ?gl 1)\<lparr>SHMEM_NEXT := SHMEM_NEXT g + 548\<rparr>"
    have h1: "heap_ok ?g1"
      using hn heap_ok_put [of "g\<lparr>SHMEM_NEXT := SHMEM_NEXT g + 548\<rparr>" ?gl 1] ok(4)
      by (simp add: sem_put_updates)
    have l1: "lock_free (sem_put g ?gl 1) NEXT_LOCK_LOCK_PTR"
      using ok(3,5) by (simp add: lock_free_put)
    have p1: "sem_put (sem_put g ?gl 1) NEXT_LOCK_LOCK_PTR 0 = sem_put g ?gl 1"
      using l1 by (rule sem_put_free)
    have cl: "claim p (?n - Suc 0) (Suc 0) lid num h = h\<lparr>thread_pool := thread_pool h OR mask_of qs,
        teams := (teams h)(p := number qs lid (teams h p)),
        CURR_TEAM := (\<lambda>j. if j \<in> set qs then p else CURR_TEAM h j)\<rparr>"
      if "qs = take (unat num) (free_among (thread_pool h) [Suc 0..<?n])" for p lid num h qs
      using claim_spec [of "Suc 0" "?n - Suc 0" qs num h p lid] that n by simp
    have cd: "take (unat (resolved specified g - 1)) (free_among (thread_pool g) [Suc 0..<?n]) =
        claimed specified g" by (simp add: claimed_def)
    have w3: "unat (584 + SHMEM_NEXT g) = unat (SHMEM_NEXT g) + 584"
      using w2 by (simp add: add.commute)
    have p2: "sem_put g ?gl 0 = g" using ok(2) by (rule sem_put_free)
    have run: "gomp_team_start myid fn args specified g =
      (if unat (584 + SHMEM_NEXT g) \<le> heap_limit g
       then Inr (SHMEM_NEXT g, team_started myid fn args specified g) else Inl FAbort)"
      using ok True assms(3) nm h1 l1
      by (simp add: gomp_team_start_def GLOBAL_INFOS_WAIT_def GLOBAL_INFOS_SIGNAL_def hal_lock_free
          resolve_eq resolve_sem_put gomp_new_team_def shmalloc_eq heap_ok_put sizeof_team_def Let_def
          set_team_def vol_write_unlock hal_unlock_eq lock_free_addr sem_put_updates p1 p2
          new_work_share_eq SIZEOF_INT_def sizeof_work_share_def cl [OF refl] cd team_started_def
          new_team_record_def new_ws_record_def fun_eq_iff add.commute)
    then show ?thesis by (simp add: w3)
  qed
qed

lemma gomp_team_end_eq:
  assumes "lock_free g (global_lock g)"
  shows "gomp_team_end myid g = (let t = teams g (CURR_TEAM g myid) in
    Inr (g\<lparr>idle_cores := idle_cores g + (nthreads t - 1),
      thread_pool := thread_pool g AND (NOT (team_mask t) OR push_bit myid 1),
      CURR_TEAM := (CURR_TEAM g)(myid := parent t)\<rparr>))"
proof -
  have "sem_put g (global_lock g) 0 = g" using assms by (rule sem_put_free)
  then show ?thesis
    using assms by (simp add: gomp_team_end_def GLOBAL_INFOS_WAIT_def GLOBAL_INFOS_SIGNAL_def
        hal_lock_free hal_unlock_eq lock_free_addr sem_put_updates gomp_free_team_def Let_def)
qed

section \<open>Counting the processors\<close>

lemma free_among_take:
  assumes "distinct is" "\<forall>i \<in> set is. i < 32"
  shows "free_among (pool OR mask_of (take k (free_among pool is))) is = drop k (free_among pool is)"
proof -
  let ?f = "free_among pool is"
  have d: "distinct ?f" using assms(1) by (simp add: free_among_def)
  have "free_among (pool OR mask_of (take k ?f)) is = filter (\<lambda>i. i \<notin> set (take k ?f)) ?f"
    unfolding free_among_def filter_filter using assms(2)
    by (intro filter_cong) (auto simp: bit_or_iff bit_mask_of)
  also have "\<dots> = filter (\<lambda>i. i \<notin> set (take k ?f)) (take k ?f @ drop k ?f)" by simp
  also have "\<dots> = drop k ?f"
    using set_take_disj_set_drop_if_distinct [OF d, of k k]
    by (simp only: filter_append) (auto simp: filter_id_conv)
  finally show ?thesis .
qed

lemma idle_le: "runtime_ok g \<Longrightarrow> unat (idle_cores g) \<le> 31"
  using length_filter_le [of "\<lambda>i. \<not> bit (thread_pool g) i" "[1..<unat (prv_num_procs g)]"]
  by (auto simp: runtime_ok_def free_among_def)

lemma resolved_unat:
  assumes "runtime_ok g" "0 \<le> sint specified"
  shows "unat (resolved specified g) = (if specified = 0 then unat (idle_cores g) + 1
    else min (unat specified) (unat (idle_cores g) + 1))"
proof -
  have i: "unat (idle_cores g + 1) = unat (idle_cores g) + 1"
    using idle_le [OF assms(1)] by (subst unat_add_no_wrap) simp_all
  then have si: "sint (idle_cores g + 1) = int (unat (idle_cores g) + 1)"
    using idle_le [OF assms(1)] by (simp add: sint_small)
  have ss: "sint specified = int (unat specified)" using sint_nonneg [OF assms(2)] by simp
  have lt: "sint specified < sint (idle_cores g + 1) \<longleftrightarrow> unat specified < unat (idle_cores g) + 1"
    unfolding si ss by linarith
  show ?thesis
    using i unfolding resolved_def gomp_resolve_num_threads_def Let_def fst_conv lt
    by (auto simp: min_def)
qed
lemma claimed_props:
  assumes "runtime_ok g" "0 \<le> sint specified"
  shows "length (claimed specified g) = unat (resolved specified g) - 1"
    and "distinct (claimed specified g)"
    and "\<forall>q \<in> set (claimed specified g). 1 \<le> q \<and> q < unat (prv_num_procs g) \<and> \<not> bit (thread_pool g) q"
    and "1 \<le> unat (resolved specified g)" "unat (resolved specified g) \<le> unat (idle_cores g) + 1"
    and "unat (resolved specified g - 1) = unat (resolved specified g) - 1"
proof -
  have n: "unat (prv_num_procs g) \<le> 32" "unat (idle_cores g) =
      length (free_among (thread_pool g) [1..<unat (prv_num_procs g)])"
    using assms(1) by (auto simp: runtime_ok_def)
  have "unat specified \<noteq> 0" if "specified \<noteq> 0" using that by (simp add: unat_eq_0)
  then show r: "1 \<le> unat (resolved specified g)" "unat (resolved specified g) \<le> unat (idle_cores g) + 1"
    by (auto simp: resolved_unat [OF assms])
  have "resolved specified g \<noteq> 0" using r(1) by auto
  then show u: "unat (resolved specified g - 1) = unat (resolved specified g) - 1"
    by (rule unat_minus_one)
  show "length (claimed specified g) = unat (resolved specified g) - 1"
    using r n by (simp add: claimed_def u)
  show "distinct (claimed specified g)"
    by (simp add: claimed_def free_among_def distinct_take)
  show "\<forall>q \<in> set (claimed specified g). 1 \<le> q \<and> q < unat (prv_num_procs g) \<and> \<not> bit (thread_pool g) q"
    by (auto simp: claimed_def free_among_def dest!: in_set_takeD)
qed

lemma gomp_simps_started [simp]:
  "prv_num_procs (team_started myid fn args specified g) = prv_num_procs g"
  "sem (team_started myid fn args specified g) = sem g"
  "global_lock (team_started myid fn args specified g) = global_lock g"
  "SHMEM_LOCK (team_started myid fn args specified g) = SHMEM_LOCK g"
  "next_lock (team_started myid fn args specified g) = next_lock g"
  "SHMEM_NEXT (team_started myid fn args specified g) = SHMEM_NEXT g + 584"
  by (simp_all add: team_started_def)

lemma lock_free_sem: "sem g' = sem g \<Longrightarrow> lock_free g' = lock_free g"
  by (simp add: lock_free_def lock_addr_def sem_ok_def lock_word_def fun_eq_iff)

lemma runtime_ok_started:
  assumes "runtime_ok g" "0 \<le> sint specified" "unat (SHMEM_NEXT g) + 584 \<le> heap_limit g"
  shows "runtime_ok (team_started myid fn args specified g)"
proof -
  let ?g = "team_started myid fn args specified g" and ?is = "[1..<unat (prv_num_procs g)]"
  note cp = claimed_props [OF assms(1,2)]
  have rt: "heap_ok g" "unat (prv_num_procs g) \<le> 32"
    "unat (idle_cores g) = length (free_among (thread_pool g) ?is)"
    using assms(1) by (auto simp: runtime_ok_def)
  have w: "unat (SHMEM_NEXT g + 584) = unat (SHMEM_NEXT g) + 584"
    using shmalloc_no_wrap [OF rt(1), of 584] by simp
  have lf: "lock_free ?g = lock_free g" by (rule lock_free_sem) simp
  have heap: "heap_ok ?g"
    using rt(1) assms(3) w by (simp add: heap_ok_def heap_limit_def lock_addr_def sem_ok_def lock_word_def)
  have "free_among (thread_pool ?g) ?is = drop (unat (resolved specified g - 1)) (free_among (thread_pool g) ?is)"
    using rt(2) by (simp add: team_started_def claimed_def del: upt_Suc) (rule free_among_take, auto)
  moreover have "unat (idle_cores ?g) = unat (idle_cores g) - unat (resolved specified g - 1)"
    using cp(5,6) by (simp add: team_started_def unat_sub word_le_unat)
  ultimately have "unat (idle_cores ?g) = length (free_among (thread_pool ?g) ?is)"
    using rt(3) by simp
  then show ?thesis
    using assms(1) heap lf by (simp add: runtime_ok_def)
qed

text \<open>C6: starting a region on processor \<open>myid\<close> returns the new team at the old heap pointer
  when memory is left. It has the requested number of threads, or one more than the idle
  processors when fewer are idle or none was requested; its members are \<open>myid\<close> and the first
  free processors, they are numbered from 0 on and every member sees its own number and the team,
  the pool marks exactly the new members as busy in addition, nobody else's team changes, and
  the runtime stays well formed.\<close>

theorem team_start_establishes_team:
  assumes "runtime_ok g" "myid = 0 \<or> bit (thread_pool g) myid" "myid < 32"
    and "CURR_TEAM g myid \<noteq> SHMEM_NEXT g" "0 \<le> sint specified"
    and "unat (SHMEM_NEXT g) + 584 \<le> heap_limit g"
  shows "\<exists>g' qs. gomp_team_start myid fn args specified g = Inr (SHMEM_NEXT g, g') \<and> runtime_ok g' \<and>
    qs = take (length qs) (filter (\<lambda>i. \<not> bit (thread_pool g) i) [1..<unat (prv_num_procs g)]) \<and>
    Suc (length qs) = (if specified = 0 then unat (idle_cores g) + 1
      else min (unat specified) (unat (idle_cores g) + 1)) \<and>
    (\<forall>j < Suc (length qs). let q = (myid # qs) ! j in
       omp_get_thread_num q g' = of_nat j \<and> omp_get_num_threads q g' = of_nat (Suc (length qs)) \<and>
       proc_ids (teams g' (SHMEM_NEXT g)) j = of_nat q \<and> CURR_TEAM g' q = SHMEM_NEXT g) \<and>
    (\<forall>q. q \<notin> set (myid # qs) \<longrightarrow> CURR_TEAM g' q = CURR_TEAM g q) \<and>
    (\<forall>i < 32. bit (thread_pool g') i \<longleftrightarrow> bit (thread_pool g) i \<or> i \<in> set qs) \<and>
    (\<forall>i < 32. bit (team_mask (teams g' (SHMEM_NEXT g))) i \<longleftrightarrow> i \<in> set (myid # qs))"
proof -
  let ?g' = "team_started myid fn args specified g" and ?qs = "claimed specified g"
  let ?p = "SHMEM_NEXT g"
  note cp = claimed_props [OF assms(1,5)]
  have nm: "myid \<notin> set ?qs" by (rule claimed_not_busy [OF assms(2)])
  have len: "Suc (length ?qs) = unat (resolved specified g)" using cp(1,4) by simp
  then have nth: "resolved specified g = of_nat (Suc (length ?qs))" by (simp del: of_nat_Suc)
  have tm: "teams ?g' ?p = new_team_record myid fn args specified g" by (simp add: team_started_def)
  have member: "omp_get_thread_num ((myid # ?qs) ! j) ?g' = of_nat j \<and>
      omp_get_num_threads ((myid # ?qs) ! j) ?g' = of_nat (Suc (length ?qs)) \<and>
      proc_ids (teams ?g' ?p) j = of_nat ((myid # ?qs) ! j) \<and> CURR_TEAM ?g' ((myid # ?qs) ! j) = ?p"
    if "j < Suc (length ?qs)" for j
  proof -
    have "(myid # ?qs) ! j \<in> set (myid # ?qs)" using that by (metis length_Cons nth_mem)
    then have ct: "CURR_TEAM ?g' ((myid # ?qs) ! j) = ?p" by (auto simp: team_started_def)
    have "proc_ids (teams ?g' ?p) j = of_nat ((myid # ?qs) ! j)"
      using that unfolding tm by (cases j) (auto simp: new_team_record_def Let_def number_proc_ids)
    moreover have "thread_ids (teams ?g' ?p) ((myid # ?qs) ! j) = of_nat j"
      using that nm number_thread_ids [OF cp(2)] unfolding tm
      by (cases j) (auto simp: new_team_record_def Let_def number_thread_ids_other)
    moreover have "nthreads (teams ?g' ?p) = of_nat (Suc (length ?qs))"
      unfolding tm by (simp add: new_team_record_def Let_def nth)
    ultimately show ?thesis using ct by (simp add: omp_get_thread_num_def omp_get_num_threads_def)
  qed
  have "gomp_team_start myid fn args specified g = Inr (?p, ?g')"
    using gomp_team_start_eq [OF assms(1,2,4)] assms(6) by simp
  moreover have "?qs = take (length ?qs) (filter (\<lambda>i. \<not> bit (thread_pool g) i) [1..<unat (prv_num_procs g)])"
    using cp(1,6) by (simp add: claimed_def free_among_def)
  moreover have "\<forall>i < 32. bit (thread_pool ?g') i \<longleftrightarrow> bit (thread_pool g) i \<or> i \<in> set ?qs"
    by (simp add: team_started_def bit_or_iff bit_mask_of)
  moreover have "\<forall>i < 32. bit (team_mask (teams ?g' ?p)) i \<longleftrightarrow> i \<in> set (myid # ?qs)"
    unfolding tm by (auto simp: new_team_record_def Let_def bit_or_iff bit_mask_of bit_pow32)
  moreover have "\<forall>q. q \<notin> set (myid # ?qs) \<longrightarrow> CURR_TEAM ?g' q = CURR_TEAM g q"
    by (auto simp: team_started_def)
  moreover have "runtime_ok ?g'" by (rule runtime_ok_started [OF assms(1,5,6)])
  ultimately show ?thesis
    using member len resolved_unat [OF assms(1,5)] by (intro exI [of _ ?g'] exI [of _ ?qs]) (simp add: Let_def)
qed

text \<open>A started machine of four processors, as \<open>omp_initenv\<close> leaves it.\<close>

definition demo_runtime :: gomp where
  "demo_runtime = (linked_state 4)\<lparr>SHMEM_NEXT := 0x08000540, SHMEM_LOCK := 0x09000008,
     global_lock := 0x09000014, next_lock := 0x08000318, locks_inited := True,
     tcdm := (\<lambda>_. 0)(0x08000318 := 0x09000018), idle_cores := 3, thread_pool := 1,
     CURR_TEAM := (\<lambda>i. if i = 0 then 0x0800031C else 0)\<rparr>"

lemma demo_runtime_ok: "runtime_ok demo_runtime"
proof -
  have lf: "lock_free demo_runtime a = IsInSemSpace a 0" for a
    by (simp add: lock_free_def lock_addr_def sem_ok_def lock_word_def demo_runtime_def linked_state_def reset_state_def
        new_mem_def mem_word_def word_at_def)
  have "[1..<4] = [1, 2, 3::nat]" by (simp add: upt_conv_Cons)
  moreover have "\<not> bit (1::u32) 1" "\<not> bit (1::u32) 2" "\<not> bit (1::u32) 3" by (simp_all add: bit_1_iff)
  moreover have "prv_num_procs demo_runtime = 4" "thread_pool demo_runtime = 1" "idle_cores demo_runtime = 3"
    by (simp_all add: demo_runtime_def linked_state_def reset_state_def)
  ultimately have "unat (idle_cores demo_runtime) =
      length (free_among (thread_pool demo_runtime) [1..<unat (prv_num_procs demo_runtime)])"
    by (simp add: free_among_def)
  moreover have "heap_ok demo_runtime"
    by (simp add: heap_ok_def lock_free_addr lf [unfolded lock_free_def] heap_limit_def lock_addr_def sem_ok_def
        in_sem_space_numeral lock_word_def)
      (simp add: demo_runtime_def linked_state_def reset_state_def new_mem_def mem_word_def word_at_def address_simps in_sem_space_numeral)
  ultimately show ?thesis
    by (simp add: runtime_ok_def lf in_sem_space_numeral)
      (simp add: demo_runtime_def linked_state_def reset_state_def lock_slot_def address_simps)
qed

theorem team_start_establishes_team_witness:
  "\<exists>g' qs. gomp_team_start 0 0x100 0x200 3 demo_runtime = Inr (SHMEM_NEXT demo_runtime, g') \<and> runtime_ok g' \<and>
    qs = take (length qs) (filter (\<lambda>i. \<not> bit (thread_pool demo_runtime) i) [1..<unat (prv_num_procs demo_runtime)]) \<and>
    Suc (length qs) = (if (3::u32) = 0 then unat (idle_cores demo_runtime) + 1
      else min (unat (3::u32)) (unat (idle_cores demo_runtime) + 1)) \<and>
    (\<forall>j < Suc (length qs). let q = (0 # qs) ! j in
       omp_get_thread_num q g' = of_nat j \<and> omp_get_num_threads q g' = of_nat (Suc (length qs)) \<and>
       proc_ids (teams g' (SHMEM_NEXT demo_runtime)) j = of_nat q \<and> CURR_TEAM g' q = SHMEM_NEXT demo_runtime) \<and>
    (\<forall>q. q \<notin> set (0 # qs) \<longrightarrow> CURR_TEAM g' q = CURR_TEAM demo_runtime q) \<and>
    (\<forall>i < 32. bit (thread_pool g') i \<longleftrightarrow> bit (thread_pool demo_runtime) i \<or> i \<in> set qs) \<and>
    (\<forall>i < 32. bit (team_mask (teams g' (SHMEM_NEXT demo_runtime))) i \<longleftrightarrow> i \<in> set (0 # qs))"
  by (rule team_start_establishes_team [OF demo_runtime_ok])
    (simp_all add: demo_runtime_def heap_limit_def linked_state_def reset_state_def)

lemma team_start_end_exact:
  assumes "runtime_ok g" "myid = 0 \<or> bit (thread_pool g) myid"
    and "CURR_TEAM g myid \<noteq> SHMEM_NEXT g" "0 \<le> sint specified"
    and "unat (SHMEM_NEXT g) + 584 \<le> heap_limit g"
  shows "\<exists>g''. res_bind (gomp_team_start myid fn args specified g) (\<lambda>(p, g'). gomp_team_end myid g') = Inr g'' \<and>
    idle_cores g'' = idle_cores g \<and> thread_pool g'' = thread_pool g \<and>
    CURR_TEAM g'' myid = CURR_TEAM g myid \<and> runtime_ok g'' \<and>
    SHMEM_NEXT g'' = SHMEM_NEXT g + 584 \<and>
    tcdm g'' (next_lock g'') = tcdm g (next_lock g) + 16 \<and> prv_num_procs g'' = prv_num_procs g"
proof -
  let ?g = "team_started myid fn args specified g" and ?qs = "claimed specified g"
  have st: "gomp_team_start myid fn args specified g = Inr (SHMEM_NEXT g, ?g)"
    using gomp_team_start_eq [OF assms(1-3)] assms(5) by simp
  have nm: "myid \<notin> set ?qs" by (rule claimed_not_busy [OF assms(2)])
  have ok: "runtime_ok ?g" by (rule runtime_ok_started [OF assms(1,4,5)])
  have t: "teams ?g (CURR_TEAM ?g myid) = new_team_record myid fn args specified g"
    by (simp add: team_started_def)
  define g2 where "g2 = ?g\<lparr>idle_cores := idle_cores ?g + (resolved specified g - 1),
    thread_pool := thread_pool ?g AND (NOT (push_bit myid 1 OR mask_of ?qs) OR push_bit myid 1),
    CURR_TEAM := (CURR_TEAM ?g)(myid := CURR_TEAM g myid)\<rparr>"
  have en: "gomp_team_end myid ?g = Inr g2"
    using ok unfolding g2_def
    by (subst gomp_team_end_eq)
      (auto simp: runtime_ok_def t new_team_record_def Let_def)
  have pool: "thread_pool g2 = thread_pool g"
  proof (rule bit_word_eqI)
    fix j assume "j < LENGTH(32)"
    then have "j < 32" by simp
    moreover have "j \<in> set ?qs \<Longrightarrow> \<not> bit (thread_pool g) j"
      using claimed_props(3) [OF assms(1,4)] by blast
    ultimately show "bit (thread_pool g2) j = bit (thread_pool g) j"
      using nm by (auto simp: g2_def team_started_def bit_and_iff bit_or_iff bit_not_iff bit_mask_of
          bit_pow32 possible_bit_def)
  qed
  have idle: "idle_cores g2 = idle_cores g" by (simp add: g2_def team_started_def)
  have lf: "lock_free g2 = lock_free g" by (rule lock_free_sem) (simp add: g2_def)
  have "heap_ok g2" using ok by (simp add: runtime_ok_def g2_def)
  then have "runtime_ok g2"
    using assms(1) lf pool idle by (simp add: runtime_ok_def) (simp add: g2_def)
  then show ?thesis
    using st en pool idle by (simp add: g2_def) (simp add: team_started_def)
qed

text \<open>C26: ending a region right after its start gives the idle counter, the thread pool and the
  team of the starting processor back exactly as they were, so regions nest; the 584 bytes of the
  descriptors and the four locks are not given back.\<close>

theorem team_start_end_roundtrip:
  assumes "runtime_ok g" "myid = 0 \<or> bit (thread_pool g) myid"
    and "CURR_TEAM g myid \<noteq> SHMEM_NEXT g" "0 \<le> sint specified"
    and "unat (SHMEM_NEXT g) + 584 \<le> heap_limit g"
  shows "\<exists>g''. res_bind (gomp_team_start myid fn args specified g) (\<lambda>(p, g'). gomp_team_end myid g') = Inr g'' \<and>
    idle_cores g'' = idle_cores g \<and> thread_pool g'' = thread_pool g \<and>
    CURR_TEAM g'' myid = CURR_TEAM g myid \<and> runtime_ok g'' \<and>
    SHMEM_NEXT g'' = SHMEM_NEXT g + 584 \<and>
    tcdm g'' (next_lock g'') = tcdm g (next_lock g) + 16 \<and> prv_num_procs g'' = prv_num_procs g"
  by (rule team_start_end_exact [OF assms])

theorem team_start_end_roundtrip_witness:
  "\<exists>g''. res_bind (gomp_team_start 0 0x100 0x200 3 demo_runtime) (\<lambda>(p, g'). gomp_team_end 0 g') = Inr g'' \<and>
    idle_cores g'' = idle_cores demo_runtime \<and> thread_pool g'' = thread_pool demo_runtime \<and>
    CURR_TEAM g'' 0 = CURR_TEAM demo_runtime 0 \<and> runtime_ok g'' \<and>
    SHMEM_NEXT g'' = SHMEM_NEXT demo_runtime + 584 \<and>
    tcdm g'' (next_lock g'') = tcdm demo_runtime (next_lock demo_runtime) + 16 \<and>
    prv_num_procs g'' = prv_num_procs demo_runtime"
  by (rule team_start_end_roundtrip [OF demo_runtime_ok])
    (simp_all add: demo_runtime_def heap_limit_def linked_state_def reset_state_def)

section \<open>What regions use up\<close>

fun regions :: "nat \<Rightarrow> nat \<Rightarrow> addr \<Rightarrow> addr \<Rightarrow> u32 \<Rightarrow> gomp \<Rightarrow> gomp res" where
  "regions 0 myid fn args specified g = Inr g"
| "regions (Suc k) myid fn args specified g =
     res_bind (res_bind (gomp_team_start myid fn args specified g) (\<lambda>(p, g). gomp_team_end myid g))
       (regions k myid fn args specified)"

text \<open>C35: a program can execute only a bounded number of parallel regions: every region takes
  584 bytes of the heap that no operation gives back, so \<open>k\<close> regions one after the other succeed
  exactly when \<open>584 * k\<close> bytes are left, and otherwise the program aborts.\<close>

theorem regions_exhaust_heap:
  assumes "runtime_ok g" "myid = 0 \<or> bit (thread_pool g) myid"
    and "unat (CURR_TEAM g myid) < unat (SHMEM_NEXT g)" "0 \<le> sint specified"
  shows "if unat (SHMEM_NEXT g) + 584 * k \<le> heap_limit g
    then \<exists>g'. regions k myid fn args specified g = Inr g' \<and> runtime_ok g'
    else regions k myid fn args specified g = Inl FAbort"
  using assms(1-3)
proof (induction k arbitrary: g)
  case 0
  then show ?case by (simp add: runtime_ok_def heap_ok_def)
next
  case (Suc k)
  have ne: "CURR_TEAM g myid \<noteq> SHMEM_NEXT g" using Suc.prems(3) by auto
  show ?case
  proof (cases "unat (SHMEM_NEXT g) + 584 \<le> heap_limit g")
    case False
    then have "gomp_team_start myid fn args specified g = Inl FAbort"
      using gomp_team_start_eq [OF Suc.prems(1,2) ne] by simp
    then show ?thesis using False by simp
  next
    case True
    obtain g2 where g2: "res_bind (gomp_team_start myid fn args specified g)
        (\<lambda>(p, g'). gomp_team_end myid g') = Inr g2"
      "thread_pool g2 = thread_pool g" "CURR_TEAM g2 myid = CURR_TEAM g myid" "runtime_ok g2"
      "SHMEM_NEXT g2 = SHMEM_NEXT g + 584" "prv_num_procs g2 = prv_num_procs g"
      using team_start_end_exact [OF Suc.prems(1,2) ne assms(4) True] by blast
    have lim: "heap_limit g2 = heap_limit g" using g2(6) by (simp add: heap_limit_def)
    have w: "unat (SHMEM_NEXT g2) = unat (SHMEM_NEXT g) + 584"
      using shmalloc_no_wrap [of g 584] Suc.prems(1) g2(5) by (simp add: runtime_ok_def)
    have run: "regions (Suc k) myid fn args specified g = regions k myid fn args specified g2"
      using g2(1) by (simp only: regions.simps res_bind.simps)
    have "if unat (SHMEM_NEXT g2) + 584 * k \<le> heap_limit g2
      then \<exists>g'. regions k myid fn args specified g2 = Inr g' \<and> runtime_ok g'
      else regions k myid fn args specified g2 = Inl FAbort"
      using Suc.IH [of g2] Suc.prems g2 w by simp
    moreover have "unat (SHMEM_NEXT g2) + 584 * k = unat (SHMEM_NEXT g) + 584 * Suc k" using w by simp
    ultimately show ?thesis unfolding run lim by (simp only:)
  qed
qed

theorem regions_exhaust_heap_witness:
  "if unat (SHMEM_NEXT demo_runtime) + 584 * 1000 \<le> heap_limit demo_runtime
    then \<exists>g'. regions 1000 0 0x100 0x200 0 demo_runtime = Inr g' \<and> runtime_ok g'
    else regions 1000 0 0x100 0x200 0 demo_runtime = Inl FAbort"
  by (rule regions_exhaust_heap [OF demo_runtime_ok]) (simp_all add: demo_runtime_def)

text \<open>A negative number of threads is taken as it is: the counter of idle processors grows
  by the amount, beyond the number of processors there are.\<close>

theorem negative_request_inflates_idle:
  assumes "unat (idle_cores g) < 64" "sint specified < 0" "- 1000000 < sint specified"
  shows "fst (gomp_resolve_num_threads specified g) = specified \<and>
    int (unat (idle_cores (snd (gomp_resolve_num_threads specified g)))) =
      int (unat (idle_cores g)) + 1 - sint specified"
proof -
  have i: "unat (idle_cores g + 1) = unat (idle_cores g) + 1"
    using assms(1) by (subst unat_add_no_wrap) simp_all
  then have si: "sint (idle_cores g + 1) = int (unat (idle_cores g) + 1)" "sint (idle_cores g) = int (unat (idle_cores g))"
    using assms(1) by (simp_all add: sint_small)
  have lt: "sint specified < sint (idle_cores g + 1)" unfolding si(1) using assms(2) by linarith
  have "specified \<noteq> 0" using assms(2) by auto
  with lt have r: "gomp_resolve_num_threads specified g =
      (specified, g\<lparr>idle_cores := idle_cores g - (specified - 1)\<rparr>)"
    by (simp only: gomp_resolve_num_threads_def Let_def) simp
  have snd: "idle_cores (snd (gomp_resolve_num_threads specified g)) = idle_cores g + 1 - specified"
    by (simp add: r)
  have s: "sint (idle_cores g + 1 - specified) = int (unat (idle_cores g)) + 1 - sint specified"
  proof -
    have "in_s32 (sint (idle_cores g + 1) - sint specified)"
      unfolding si(1) in_s32_def using assms by linarith
    then show ?thesis using sint_arith32(2) [of "idle_cores g + 1" specified] si(1) by simp
  qed
  have "int (unat (idle_cores g + 1 - specified)) = sint (idle_cores g + 1 - specified)"
  proof -
    have "0 \<le> sint (idle_cores g + 1 - specified)" unfolding s using assms(2) by linarith
    from sint_nonneg [OF this] show ?thesis by simp
  qed
  then show ?thesis unfolding snd using s by (simp only: r fst_conv)
qed

theorem negative_request_inflates_idle_witness:
  "fst (gomp_resolve_num_threads (- 2) demo_runtime) = - 2 \<and>
    int (unat (idle_cores (snd (gomp_resolve_num_threads (- 2) demo_runtime)))) =
      int (unat (idle_cores demo_runtime)) + 1 - sint (- 2 :: u32)"
  by (rule negative_request_inflates_idle) (simp_all add: demo_runtime_def)

text \<open>The counter of semaphores is advanced before it is used when a team is built but
  after it is used by \<open>omp_init_lock\<close>: the first lock a program initialises inside a region is
  the lock of the region's work share, and while the program holds it no thread can fetch a
  piece of a loop.\<close>

theorem init_lock_collides_with_work_share:
  assumes "runtime_ok g" "myid = 0 \<or> bit (thread_pool g) myid"
    and "CURR_TEAM g myid \<noteq> SHMEM_NEXT g" "0 \<le> sint specified"
    and "unat (SHMEM_NEXT g) + 584 \<le> heap_limit g"
    and "\<not> IsInSemSpace lk 0" "lk \<noteq> next_lock g"
    and "lock_free g (tcdm g (next_lock g) + 16)" "next_lock_lock g = SEM_BASE"
  shows "\<exists>p g1 g2 g3. gomp_team_start myid fn args specified g = Inr (p, g1) \<and>
    omp_init_lock lk g1 = Inr g2 \<and> tcdm g2 lk = ws_lock (work_shares g2 (CURR_WS g2 myid)) \<and>
    gomp_hal_lock (tcdm g2 lk) g2 = Inr g3 \<and> GOMP_loop_dynamic_next myid g3 = Inl FSpin"
proof -
  let ?g = "team_started myid fn args specified g" and ?l = "tcdm g (next_lock g) + 16"
  have st: "gomp_team_start myid fn args specified g = Inr (SHMEM_NEXT g, ?g)"
    using gomp_team_start_eq [OF assms(1-3)] assms(5) by simp
  have ok: "runtime_ok ?g" by (rule runtime_ok_started [OF assms(1,4,5)])
  have nl: "tcdm ?g (next_lock ?g) = ?l" by (simp add: team_started_def)
  define g2 where "g2 = ?g\<lparr>tcdm := (tcdm ?g)(lk := ?l, next_lock g := ?l + SIZEOF_INT)\<rparr>"
  have "next_lock_lock ?g = NEXT_LOCK_LOCK_PTR" using assms(9) by (simp add: team_started_def NEXT_LOCK_LOCK_PTR_def)
  then have "lock_addr ?g (next_lock_lock ?g)" "lock_word ?g (next_lock_lock ?g) = 0"
    using ok by (auto simp: runtime_ok_def lock_free_def)
  then have ini: "omp_init_lock lk ?g = Inr g2"
    using assms(6,7) nl by (simp add: omp_init_lock_def hal_init_lock_eq g2_def)
  have ws: "CURR_WS g2 myid = SHMEM_NEXT g + 548" "ws_lock (work_shares g2 (SHMEM_NEXT g + 548)) = ?l"
    by (simp_all add: g2_def CURR_WS_def team_started_def new_team_record_def new_ws_record_def Let_def)
  have lk: "tcdm g2 lk = ?l" using assms(7) by (simp add: g2_def)
  have lf: "lock_free g2 ?l"
    using assms(8) lock_free_sem [of g2 g] by (simp add: g2_def)
  define g3 where "g3 = sem_put g2 ?l 1"
  have "gomp_hal_lock ?l g2 = Inr g3" using lf by (simp add: hal_lock_free g3_def)
  moreover have "gomp_hal_lock ?l g3 = Inl FSpin"
    using lf by (simp add: hal_lock_eq lock_free_addr g3_def)
  then have "GOMP_loop_dynamic_next myid g3 = Inl FSpin"
    using ws by (simp add: GOMP_loop_dynamic_next_def gomp_loop_dynamic_next_def
        gomp_iter_dynamic_next_def g3_def)
  ultimately show ?thesis using st ini ws lk by metis
qed

theorem init_lock_collides_with_work_share_witness:
  "\<exists>p g1 g2 g3. gomp_team_start 0 0x100 0x200 2 demo_runtime = Inr (p, g1) \<and>
    omp_init_lock 0x08001000 g1 = Inr g2 \<and> tcdm g2 0x08001000 = ws_lock (work_shares g2 (CURR_WS g2 0)) \<and>
    gomp_hal_lock (tcdm g2 0x08001000) g2 = Inr g3 \<and> GOMP_loop_dynamic_next 0 g3 = Inl FSpin"
proof (rule init_lock_collides_with_work_share [OF demo_runtime_ok])
  show "lock_free demo_runtime (tcdm demo_runtime (next_lock demo_runtime) + 16)"
    by (simp add: lock_free_def lock_addr_def sem_ok_def lock_word_def demo_runtime_def linked_state_def reset_state_def
        new_mem_def mem_word_def word_at_def in_sem_space_numeral)
qed (simp_all add: demo_runtime_def heap_limit_def linked_state_def reset_state_def in_sem_space_numeral)

end
