(* ===== verification/Gomp_Main.thy ===== *)
theory Gomp_Main
  imports Gomp_Team
begin

text \<open>
  Start-up and the worker loop (\<open>libgomp/libgomp.c\<close>): \<open>omp_initenv\<close>, which the
  master runs once, the dispatch a slave does every time it leaves the barrier,
  and the shutdown. The word \<open>GLOBAL_LOCK\<close> points to is the field
  \<open>global_lock\<close> of the state. \<open>_app_main\<close> is the address of the application.
\<close>

definition GLOBAL_LOCK_ADDR :: addr where
  [address_simps]: "GLOBAL_LOCK_ADDR = SHARED_BASE + 64 * 4 * 2 + 4 + 4"

fun clear_teams :: "nat \<Rightarrow> nat \<Rightarrow> (nat \<Rightarrow> addr) \<Rightarrow> nat \<Rightarrow> addr" where
  "clear_teams 0 i ct = ct"
| "clear_teams (Suc k) i ct = clear_teams k (i + 1) (ct(i := 0))"

definition omp_initenv :: "u32 \<Rightarrow> addr \<Rightarrow> gomp \<Rightarrow> gomp res" where
  "omp_initenv nprocs app_main g =
     (let g = shmalloc_init (STATIC_TCDM_SIZE + SIZEOF_INT) g in
      res_bind (gomp_hal_init_locks FIRST_FREE_LOCK_ID g) (\<lambda>g.
      let g = g\<lparr>idle_cores := nprocs - 1, thread_pool := push_bit MASTER_ID 1\<rparr> in
      res_bind (gomp_hal_init_lock GLOBAL_LOCK_ADDR g) (\<lambda>g.
      let g = g\<lparr>global_lock := tcdm g GLOBAL_LOCK_ADDR\<rparr>;
          g = g\<lparr>CURR_TEAM := clear_teams (unat nprocs) 0 (CURR_TEAM g)\<rparr> in
      res_bind (gomp_master_region_start MASTER_ID app_main 0 1 g) (\<lambda>(root, g). Inr g))))"

text \<open>What a slave does when the barrier lets it go.\<close>

datatype worker_action = W_exit | W_run addr addr

definition slave_dispatch :: "nat \<Rightarrow> gomp \<Rightarrow> worker_action" where
  "slave_dispatch myid g =
     (if CURR_TEAM g myid = OMP_SLAVE_EXIT then W_exit
      else W_run (omp_task_f (teams g (CURR_TEAM g myid))) (omp_args (teams g (CURR_TEAM g myid))))"

text \<open>The master: gather everybody, run the application, tell the slaves to leave.\<close>

fun exit_teams :: "nat \<Rightarrow> nat \<Rightarrow> (nat \<Rightarrow> addr) \<Rightarrow> nat \<Rightarrow> addr" where
  "exit_teams 0 i ct = ct"
| "exit_teams (Suc k) i ct = exit_teams k (i + 1) (ct(i := OMP_SLAVE_EXIT))"

definition master_worker :: "(gomp \<Rightarrow> gomp res) \<Rightarrow> nat \<Rightarrow> gomp \<Rightarrow> gomp res" where
  "master_worker app_main myid g =
     res_bind (MSGBarrier_Wait (prv_num_procs g) (proc_ids (teams g (CURR_TEAM g myid))) g) (\<lambda>g.
     res_bind (app_main g) (\<lambda>g.
     let g = g\<lparr>CURR_TEAM := exit_teams (unat (prv_num_procs g) - 1) 1 (CURR_TEAM g)\<rparr> in
     Inr (MSGBarrier_Release (prv_num_procs g) (proc_ids (teams g (CURR_TEAM g myid))) g)))"

definition omp_get_num_procs :: "gomp \<Rightarrow> u32" where
  "omp_get_num_procs g = prv_num_procs g"

section \<open>Start-up\<close>

lemma clear_teams_eq: "clear_teams k i ct j = (if i \<le> j \<and> j < i + k then 0 else ct j)"
  by (induction k arbitrary: i ct) auto

lemma exit_teams_eq: "exit_teams k i ct j = (if i \<le> j \<and> j < i + k then OMP_SLAVE_EXIT else ct j)"
  by (induction k arbitrary: i ct) auto

lemma number_procs_fields [simp]:
  "nthreads (number_procs k i l t) = nthreads t" "team_mask (number_procs k i l t) = team_mask t"
  "omp_task_f (number_procs k i l t) = omp_task_f t" "omp_args (number_procs k i l t) = omp_args t"
  by (induction k arbitrary: i l t) auto

lemma number_procs_ids:
  "proc_ids (number_procs k i i t) j = (if i \<le> j \<and> j < i + k then of_nat j else proc_ids t j)"
  "thread_ids (number_procs k i i t) j = (if i \<le> j \<and> j < i + k then of_nat j else thread_ids t j)"
  by (induction k arbitrary: i t) auto

lemma reset_lock_free: "lock_free (reset_state n) a = IsInSemSpace a 0"
  by (simp add: lock_free_def lock_addr_def)

text \<open>The machine after \<open>omp_initenv\<close>, with \<open>u\<close> the application.\<close>

definition booted :: "u32 \<Rightarrow> addr \<Rightarrow> gomp" where
  "booted n u = (linked_state n)\<lparr>SHMEM_NEXT := 0x08000540, SHMEM_LOCK := 0x09000008,
     global_lock := 0x09000014, next_lock := 0x08000318, locks_inited := True,
     tcdm := (\<lambda>_. 0)(0x08000208 := 0x09000014, 0x08000318 := 0x09000018),
     idle_cores := n - 1, thread_pool := 1,
     teams := (\<lambda>_. demo_team)(0x0800031C := (number_procs (unat n - 1) 1 1
       (demo_team\<lparr>omp_task_f := u, nthreads := 1, team_mask := 0xFFFF\<rparr>))\<lparr>level := 0, parent := 0\<rparr>),
     CURR_TEAM := (\<lambda>i. if i = 0 then 0x0800031C else 0)\<rparr>"

lemma boot_lock_free: "sem g = new_mem CL_SEM_SIZE \<Longrightarrow> lock_free g a = IsInSemSpace a 0"
proof -
  assume "sem g = new_mem CL_SEM_SIZE"
  then have "sem g = sem (reset_state 0)" by (simp add: reset_state_def)
  from lock_free_sem [OF this] show ?thesis by (simp only: reset_lock_free)
qed

lemma boot_heap_ok':
  assumes "sem g = new_mem CL_SEM_SIZE" "SHMEM_LOCK g = 0x09000008" "unat (prv_num_procs g) \<le> 64"
    and "unat (SHMEM_NEXT g) \<le> 0x08050000"
  shows "heap_ok g"
  using boot_lock_free [OF assms(1), of "0x09000008"] assms
  by (auto simp: heap_ok_def lock_free_def heap_limit_def in_sem_space_numeral)

lemma omp_initenv_eq:
  assumes "1 \<le> unat n" "unat n \<le> 64"
  shows "omp_initenv n u (linked_state n) = Inr (booted n u)"
proof -
  let ?r = "linked_state n"
  define g0 where "g0 = ?r\<lparr>SHMEM_NEXT := 0x08000318, SHMEM_LOCK := 0x09000008\<rparr>"
  define g1 where "g1 = g0\<lparr>SHMEM_NEXT := 0x0800031C, next_lock := 0x08000318, locks_inited := True,
    tcdm := (\<lambda>_. 0)(0x08000318 := 0x09000014)\<rparr>"
  define g2 where "g2 = g1\<lparr>idle_cores := n - 1, thread_pool := 1\<rparr>"
  define g3 where "g3 = g2\<lparr>tcdm := (\<lambda>_. 0)(0x08000208 := 0x09000014, 0x08000318 := 0x09000018)\<rparr>"
  define g4 where "g4 = g3\<lparr>global_lock := 0x09000014, CURR_TEAM := (\<lambda>_. 0)\<rparr>"
  have r: "sem ?r = new_mem CL_SEM_SIZE" "tcdm ?r = (\<lambda>_. 0)" "prv_num_procs ?r = n" "\<not> locks_inited ?r"
    "CURR_TEAM ?r = (\<lambda>_. 0)" "teams ?r = (\<lambda>_. demo_team)"
    "locks ?r = SEM_BASE" "next_lock_lock ?r = SEM_BASE"
    by (simp_all add: linked_state_def reset_state_def)
  have e0: "shmalloc_init (STATIC_TCDM_SIZE + SIZEOF_INT) ?r = g0"
    by (simp add: shmalloc_init_def LOCKS_def address_simps g0_def push_bit_eq_mult r(7))
  have h0: "heap_ok g0" using assms by (intro boot_heap_ok') (simp_all add: g0_def r)
  have lim: "0x0804FFFF < heap_limit g0" using assms by (simp add: heap_limit_def g0_def r)
  have e1: "gomp_hal_init_locks FIRST_FREE_LOCK_ID g0 = Inr g1"
    using h0 lim by (simp add: gomp_hal_init_locks_def shmalloc_eq)
      (simp add: g0_def g1_def r address_simps)
  have l2: "lock_free g2 a = IsInSemSpace a 0" for a
    by (rule boot_lock_free) (simp add: g2_def g1_def g0_def r)
  then have "lock_free g2 0x09000000" by (simp only: in_sem_space_numeral) simp
  moreover have "next_lock_lock g2 = 0x09000000" by (simp add: g2_def g1_def g0_def r address_simps)
  ultimately have "lock_addr g2 (next_lock_lock g2)" "lock_word g2 (next_lock_lock g2) = 0"
    by (simp_all add: lock_free_def)
  then have e2: "gomp_hal_init_lock GLOBAL_LOCK_ADDR g2 = Inr g3"
    by (subst hal_init_lock_eq)
      (simp_all add: g3_def in_sem_space_numeral address_simps, simp_all add: g2_def g1_def)
  have ct: "clear_teams k 0 (\<lambda>_. 0) = (\<lambda>_. 0)" for k by (simp add: fun_eq_iff clear_teams_eq)
  have l4: "lock_free g4 a = IsInSemSpace a 0" for a
    by (rule boot_lock_free) (simp add: g4_def g3_def g2_def g1_def g0_def r)
  have res: "gomp_resolve_num_threads 1 (sem_put g4 a v) = (1, sem_put g4 a v)" for a v
  proof -
    have i: "idle_cores g4 + 1 = n" by (simp add: g4_def g3_def g2_def)
    have "sint n = int (unat n)" using assms by (intro sint_small) simp
    then have "1 < sint n \<or> n = 1" using assms by (auto simp: word_unat_eq_iff simp del: of_nat_unat)
    then show ?thesis unfolding gomp_resolve_num_threads_def Let_def sem_put_fields i by auto
  qed
  have h4: "heap_ok (sem_put g4 (global_lock g4) 1)"
    using assms by (subst heap_ok_put)
      (simp_all add: g4_def g3_def g2_def g1_def g0_def lock_slot_def address_simps,
       intro boot_heap_ok', simp_all add: r)
  have lim4: "0x0804FFFF < heap_limit g4"
    using lim by (simp add: g4_def g3_def g2_def g1_def heap_limit_def)
  have p4: "sem_put g4 (global_lock g4) 0 = g4"
    using l4 [of "global_lock g4"] by (intro sem_put_free) (simp add: g4_def in_sem_space_numeral)
  have a4: "lock_free g4 (global_lock g4)" using l4 by (simp add: in_sem_space_numeral) (simp add: g4_def)
  have f4: "prv_num_procs g4 = n" "SHMEM_NEXT g4 = 0x0800031C" "teams g4 = (\<lambda>_. demo_team)" "CURR_TEAM g4 = (\<lambda>_. 0)"
    by (simp_all add: g4_def g3_def g2_def g1_def g0_def r)
  have same: "(\<lambda>_. 0 :: u32)(0 := 0) = (\<lambda>_. 0)" by (simp add: fun_eq_iff)
  have e4: "gomp_master_region_start MASTER_ID u 0 1 g4 = Inr (0x0800031C, booted n u)"
    using a4 h4 lim4
    by (simp add: gomp_master_region_start_def GLOBAL_INFOS_WAIT_def GLOBAL_INFOS_SIGNAL_def hal_lock_free
        res gomp_new_team_def shmalloc_eq set_team_def hal_unlock_eq lock_free_addr sem_put_updates p4
        f4 sizeof_team_def MASTER_ID_def)
      (rule gomp.equality, simp_all add: g4_def g3_def g2_def g1_def g0_def booted_def demo_team_def same
        fun_eq_iff)
  have t3: "tcdm g3 GLOBAL_LOCK_ADDR = 0x09000014" by (simp add: g3_def address_simps)
  have c3: "CURR_TEAM g3 = (\<lambda>_. 0)" by (simp add: g3_def g2_def g1_def g0_def r)
  have b2: "g1\<lparr>idle_cores := n - 1, thread_pool := push_bit MASTER_ID 1\<rparr> = g2"
    by (simp add: g2_def MASTER_ID_def)
  have b4: "g3\<lparr>global_lock := 0x09000014, CURR_TEAM := \<lambda>_. 0\<rparr> = g4" by (simp add: g4_def)
  show ?thesis
    unfolding omp_initenv_def Let_def e0 e1 res_bind.simps b2 e2 t3
    by (simp add: c3 ct b4 e4)
qed
lemma booted_ok: "1 \<le> unat n \<Longrightarrow> unat n \<le> 32 \<Longrightarrow> runtime_ok (booted n u)"
proof -
  assume n: "1 \<le> unat n" "unat n \<le> 32"
  have lf: "lock_free (booted n u) a = IsInSemSpace a 0" for a
    by (rule boot_lock_free) (simp add: booted_def linked_state_def reset_state_def)
  have "heap_ok (booted n u)"
    using n by (intro boot_heap_ok') (simp_all add: booted_def linked_state_def reset_state_def)
  moreover have "free_among 1 [1..<unat n] = [1..<unat n]"
    by (auto simp: free_among_def filter_id_conv bit_1_iff)
  moreover have "unat (n - 1) = unat n - 1"
    using n by (intro unat_minus_one) auto
  moreover have "prv_num_procs (booted n u) = n" "thread_pool (booted n u) = 1" "idle_cores (booted n u) = n - 1"
    "SHMEM_LOCK (booted n u) = 0x09000008" "global_lock (booted n u) = 0x09000014"
    by (simp_all add: booted_def linked_state_def reset_state_def)
  ultimately show ?thesis
    using n by (simp add: runtime_ok_def lf in_sem_space_numeral) (simp add: lock_slot_def address_simps)
qed

text \<open>Without the initial values of \<open>locks\<close> and \<open>next_lock_lock\<close> the runtime takes the words 8 and 0 of the
  program memory for locks. The word 0 is the first instruction of the program.\<close>

lemma omp_initenv_not_linked:
  assumes "unat n \<le> 64" "t 0 \<noteq> 0"
  shows "omp_initenv n u ((reset_state n)\<lparr>tcdm := t\<rparr>) = Inl FSpin"
proof -
  have f: "\<not> IsInSemSpace 8 0" "\<not> IsInSemSpace 0 0" by (simp_all add: in_sem_space_numeral)
  have "unat n * 1024 \<le> 65536" using assms(1) by simp
  then have room: "\<not> shmem_out_of_memory g 0x0800031C" if "prv_num_procs g = n" for g
    using assms(1) that by (simp add: out_of_memory_iff heap_limit_def)
  show ?thesis using assms f
    by (cases "t 8 = 0")
      (simp_all add: room omp_initenv_def Let_def shmalloc_init_def LOCKS_def reset_state_def address_simps gomp_hal_init_locks_def
        shmalloc_def gomp_hal_lock_def gomp_hal_unlock_def gomp_hal_init_lock_def vol_read_def vol_write_def push_bit_eq_mult)
qed

text \<open>C27: on a machine of up to 32 processors whose memories are zero but for the variables \<open>locks\<close> and
  \<open>next_lock_lock\<close>, which hold their initial values, \<open>omp_initenv\<close> succeeds; it leaves the
  runtime well formed, all processors but the master idle, the master alone in a team that knows
  every processor by its number, and no team for anybody else. On a machine where these variables are zero,
  as the platform's loaders leave them, whatever else is in the memory
  it never returns, unless the first word of the program is zero too.\<close>

theorem initenv_establishes_runtime:
  assumes "1 \<le> unat n" "unat n \<le> 32"
  shows "(\<exists>g. omp_initenv n app (linked_state n) = Inr g \<and> runtime_ok g \<and>
    unat (idle_cores g) = unat n - 1 \<and> (\<forall>i < 32. bit (thread_pool g) i \<longleftrightarrow> i = 0) \<and>
    omp_get_num_threads 0 g = 1 \<and> omp_get_thread_num 0 g = 0 \<and> \<not> omp_in_parallel 0 g \<and>
    (\<forall>i < unat n. proc_ids (teams g (CURR_TEAM g 0)) i = of_nat i) \<and>
    (\<forall>i. 0 < i \<longrightarrow> CURR_TEAM g i = 0)) \<and>
    (\<forall>t. t 0 \<noteq> 0 \<longrightarrow> omp_initenv n app ((reset_state n)\<lparr>tcdm := t\<rparr>) = Inl FSpin)"
proof (intro conjI allI impI)
  have "unat (n - 1) = unat n - 1" using assms by (intro unat_minus_one) auto
  then show "\<exists>g. omp_initenv n app (linked_state n) = Inr g \<and> runtime_ok g \<and>
    unat (idle_cores g) = unat n - 1 \<and> (\<forall>i < 32. bit (thread_pool g) i \<longleftrightarrow> i = 0) \<and>
    omp_get_num_threads 0 g = 1 \<and> omp_get_thread_num 0 g = 0 \<and> \<not> omp_in_parallel 0 g \<and>
    (\<forall>i < unat n. proc_ids (teams g (CURR_TEAM g 0)) i = of_nat i) \<and> (\<forall>i. 0 < i \<longrightarrow> CURR_TEAM g i = 0)"
    using assms omp_initenv_eq [of n app] booted_ok [OF assms, of app]
    by (intro exI [of _ "booted n app"] conjI)
      (auto simp: booted_def bit_1_iff omp_get_num_threads_def omp_get_thread_num_def
        omp_in_parallel_def number_procs_ids demo_team_def not_less_eq_eq)
qed (rule omp_initenv_not_linked, use assms in simp_all)

theorem initenv_establishes_runtime_witness:
  "(\<exists>g. omp_initenv 4 0x8000 (linked_state 4) = Inr g \<and> runtime_ok g \<and>
    unat (idle_cores g) = unat (4::u32) - 1 \<and> (\<forall>i < 32. bit (thread_pool g) i \<longleftrightarrow> i = 0) \<and>
    omp_get_num_threads 0 g = 1 \<and> omp_get_thread_num 0 g = 0 \<and> \<not> omp_in_parallel 0 g \<and>
    (\<forall>i < unat (4::u32). proc_ids (teams g (CURR_TEAM g 0)) i = of_nat i) \<and>
    (\<forall>i. 0 < i \<longrightarrow> CURR_TEAM g i = 0)) \<and>
    omp_initenv 4 0x8000 ((reset_state 4)\<lparr>tcdm := (\<lambda>_. 0)(0 := 0xEA001FFE)\<rparr>) = Inl FSpin"
  using initenv_establishes_runtime [of 4 "0x8000"] by simp

section \<open>A parallel region reaches its slaves\<close>

lemma slave_ids_new_team:
  assumes "runtime_ok g" "0 \<le> sint specified"
  shows "slave_ids (nthreads (new_team_record myid fn args specified g))
    (proc_ids (new_team_record myid fn args specified g)) = claimed specified g"
proof (rule nth_equalityI)
  note cp = claimed_props [OF assms]
  let ?qs = "claimed specified g" and ?t = "new_team_record myid fn args specified g"
  have n: "unat (prv_num_procs g) \<le> 32" using assms(1) by (simp add: runtime_ok_def)
  have nt: "nthreads ?t = resolved specified g" by (simp add: new_team_record_def Let_def)
  show len: "length (slave_ids (nthreads ?t) (proc_ids ?t)) = length ?qs"
    using cp(1) by (simp add: slave_ids_def nt)
  fix i assume "i < length (slave_ids (nthreads ?t) (proc_ids ?t))"
  then have i: "i < length ?qs" by (simp add: len)
  then have "?qs ! i < 32" using cp(3) n by (meson nth_mem order_less_le_trans)
  moreover have "proc_ids ?t (Suc i) = of_nat (?qs ! i)"
    using i by (simp add: new_team_record_def Let_def number_proc_ids)
  ultimately show "slave_ids (nthreads ?t) (proc_ids ?t) ! i = ?qs ! i"
    using i cp(1,4) by (simp add: slave_ids_def nt unat_of_nat32 del: upt_Suc)
qed

lemma parallel_start_eq:
  assumes "runtime_ok g" "myid = 0 \<or> bit (thread_pool g) myid" "CURR_TEAM g myid \<noteq> SHMEM_NEXT g"
    and "0 \<le> sint num" "unat (SHMEM_NEXT g) + 584 \<le> heap_limit g" "unat (prv_num_procs g) \<le> 16"
  shows "GOMP_parallel_start myid fn args num g =
    (let g' = team_started myid fn args num g in
     Inr (g'\<lparr>tcdm := (\<lambda>a. if a \<in> SLAVE_FLAG ` set (claimed num g) then tcdm g' a + 1 else tcdm g' a)\<rparr>))"
proof -
  let ?g = "team_started myid fn args num g"
  note cp = claimed_props [OF assms(1,4)]
  have st: "gomp_team_start myid fn args num g = Inr (SHMEM_NEXT g, ?g)"
    using gomp_team_start_eq [OF assms(1-3)] assms(5) by simp
  have t: "teams ?g (SHMEM_NEXT g) = new_team_record myid fn args num g" by (simp add: team_started_def)
  have "\<forall>q \<in> set (claimed num g). q < 16" using cp(3) assms(6) by fastforce
  then show ?thesis
    by (simp add: GOMP_parallel_start_def st t MSGBarrier_Release_def
        slave_ids_new_team [OF assms(1,4)] release_result cp(2) Let_def)
qed

text \<open>After \<open>GOMP_parallel_start\<close> exactly the slaves of the new team are let out of the
  barrier (their release flags are incremented once, all others keep theirs), and what such a
  slave then dispatches is the function of the region with its argument.\<close>

theorem parallel_start_wakes_team:
  assumes "runtime_ok g" "myid = 0 \<or> bit (thread_pool g) myid" "\<forall>q. CURR_TEAM g q \<noteq> SHMEM_NEXT g"
    and "0 \<le> sint num" "unat (SHMEM_NEXT g) + 584 \<le> heap_limit g" "unat (prv_num_procs g) \<le> 16"
    and "\<forall>q < 16. SLAVE_FLAG q \<noteq> next_lock g"
  shows "\<exists>g'. GOMP_parallel_start myid fn args num g = Inr g' \<and>
    (\<forall>q < 16. if q \<noteq> myid \<and> CURR_TEAM g' q = CURR_TEAM g' myid
       then q \<noteq> 0 \<and> \<not> bit (thread_pool g) q \<and> bit (thread_pool g') q \<and>
         tcdm g' (SLAVE_FLAG q) = tcdm g (SLAVE_FLAG q) + 1 \<and> slave_dispatch q g' = W_run fn args
       else tcdm g' (SLAVE_FLAG q) = tcdm g (SLAVE_FLAG q))"
proof -
  let ?g = "team_started myid fn args num g" and ?qs = "claimed num g"
  let ?g' = "?g\<lparr>tcdm := (\<lambda>a. if a \<in> SLAVE_FLAG ` set ?qs then tcdm ?g a + 1 else tcdm ?g a)\<rparr>"
  note cp = claimed_props [OF assms(1,4)]
  have nm: "myid \<notin> set ?qs" by (rule claimed_not_busy [OF assms(2)])
  have lt: "q < 16" if "q \<in> set ?qs" for q using cp(3) assms(6) that by fastforce
  have run: "GOMP_parallel_start myid fn args num g = Inr ?g'"
    using parallel_start_eq [OF assms(1,2) _ assms(4-6)] assms(3) by (simp add: Let_def)
  have mem: "q \<noteq> myid \<and> CURR_TEAM ?g' q = CURR_TEAM ?g' myid \<longleftrightarrow> q \<in> set ?qs" for q
    using assms(3) nm by (auto simp: team_started_def)
  have flag: "SLAVE_FLAG q \<in> SLAVE_FLAG ` set ?qs \<longleftrightarrow> q \<in> set ?qs" if "q < 16" for q
    using that lt flags_apart(1) by fastforce
  have old: "tcdm ?g (SLAVE_FLAG q) = tcdm g (SLAVE_FLAG q)" if "q < 16" for q
    using assms(7) that by (simp add: team_started_def)
  have "SHMEM_NEXT g \<noteq> OMP_SLAVE_EXIT"
    using assms(5) by (auto simp: heap_limit_def OMP_SLAVE_EXIT_def)
  then have disp: "slave_dispatch q ?g' = W_run fn args" if "q \<in> set ?qs" for q
    using that by (simp add: slave_dispatch_def team_started_def new_team_record_def Let_def)
  have "if q \<noteq> myid \<and> CURR_TEAM ?g' q = CURR_TEAM ?g' myid
       then q \<noteq> 0 \<and> \<not> bit (thread_pool g) q \<and> bit (thread_pool ?g') q \<and>
         tcdm ?g' (SLAVE_FLAG q) = tcdm g (SLAVE_FLAG q) + 1 \<and> slave_dispatch q ?g' = W_run fn args
       else tcdm ?g' (SLAVE_FLAG q) = tcdm g (SLAVE_FLAG q)" if q: "q < 16" for q
  proof (cases "q \<in> set ?qs")
    case True
    moreover have "bit (thread_pool ?g') q" using True q by (simp add: team_started_def bit_or_iff bit_mask_of)
    ultimately show ?thesis
      unfolding mem using cp(3) q disp [of q] old [OF q] flag [OF q] by auto
  next
    case False
    then show ?thesis unfolding mem using old [OF q] flag [OF q] by simp
  qed
  then show ?thesis using run by blast
qed

theorem parallel_start_wakes_team_witness:
  "\<exists>g'. GOMP_parallel_start 0 0x100 0x200 3 demo_runtime = Inr g' \<and>
    (\<forall>q < 16. if q \<noteq> 0 \<and> CURR_TEAM g' q = CURR_TEAM g' 0
       then q \<noteq> 0 \<and> \<not> bit (thread_pool demo_runtime) q \<and> bit (thread_pool g') q \<and>
         tcdm g' (SLAVE_FLAG q) = tcdm demo_runtime (SLAVE_FLAG q) + 1 \<and>
         slave_dispatch q g' = W_run 0x100 0x200
       else tcdm g' (SLAVE_FLAG q) = tcdm demo_runtime (SLAVE_FLAG q))"
proof (rule parallel_start_wakes_team [OF demo_runtime_ok])
  have "unat (SLAVE_FLAG q) < 0x08000100" if "q < 16" for q
    using that by (simp add: SLAVE_FLAG_def address_simps unat_word_ariths unat_of_nat32)
  then show "\<forall>q < 16. SLAVE_FLAG q \<noteq> next_lock demo_runtime"
    by (fastforce simp: demo_runtime_def)
qed (simp_all add: demo_runtime_def heap_limit_def linked_state_def reset_state_def)

text \<open>When the application returns, the master tells every other processor to leave: each
  of them then dispatches the exit, and the release flag of every processor the root team knows
  is incremented once more.\<close>

theorem master_worker_stops_slaves:
  assumes "app_main g1 = Inr g2" "myid = 0"
    and "MSGBarrier_Wait (prv_num_procs g) (proc_ids (teams g (CURR_TEAM g 0))) g = Inr g1"
    and "unat (prv_num_procs g2) \<le> 16"
    and "\<forall>i < unat (prv_num_procs g2). proc_ids (teams g2 (CURR_TEAM g2 0)) i = of_nat i"
  shows "\<exists>g3. master_worker app_main myid g = Inr g3 \<and>
    (\<forall>i. 0 < i \<longrightarrow> i < unat (prv_num_procs g2) \<longrightarrow> slave_dispatch i g3 = W_exit \<and>
       tcdm g3 (SLAVE_FLAG i) = tcdm g2 (SLAVE_FLAG i) + 1) \<and>
    CURR_TEAM g3 0 = CURR_TEAM g2 0"
proof -
  let ?n = "unat (prv_num_procs g2)"
  have ids: "slave_ids (prv_num_procs g2) (proc_ids (teams g2 (CURR_TEAM g2 0))) = [1..<?n]"
    using assms(4,5) by (auto simp: slave_ids_def unat_of_nat32 intro!: map_idI)
  have ct: "exit_teams (?n - 1) 1 (CURR_TEAM g2) 0 = CURR_TEAM g2 0" by (simp add: exit_teams_eq)
  let ?g3 = "g2\<lparr>CURR_TEAM := exit_teams (?n - 1) 1 (CURR_TEAM g2),
    tcdm := (\<lambda>a. if a \<in> SLAVE_FLAG ` set [1..<?n] then tcdm g2 a + 1 else tcdm g2 a)\<rparr>"
  have "master_worker app_main myid g = Inr ?g3"
    using assms ct ids
    by (simp add: master_worker_def Let_def MSGBarrier_Release_def release_result cong: if_cong)
  moreover have "slave_dispatch i ?g3 = W_exit" if "0 < i" "i < ?n" for i
    using that by (simp add: slave_dispatch_def exit_teams_eq)
  ultimately show ?thesis using ct by (intro exI [of _ ?g3]) auto
qed

definition demo_arrived :: gomp where
  "demo_arrived = (booted 4 0x8000)\<lparr>tcdm := (\<lambda>_. 1)\<rparr>"

definition demo_gathered :: gomp where
  "demo_gathered = demo_arrived\<lparr>tcdm := (\<lambda>a. if a \<in> MASTER_FLAG ` set [1, 2, 3] then 0 else 1)\<rparr>"

theorem master_worker_stops_slaves_witness:
  "\<exists>g3. master_worker Inr 0 demo_arrived = Inr g3 \<and>
    (\<forall>i. 0 < i \<longrightarrow> i < unat (prv_num_procs demo_gathered) \<longrightarrow> slave_dispatch i g3 = W_exit \<and>
       tcdm g3 (SLAVE_FLAG i) = tcdm demo_gathered (SLAVE_FLAG i) + 1) \<and>
    CURR_TEAM g3 0 = CURR_TEAM demo_gathered 0"
proof (rule master_worker_stops_slaves)
  have n: "prv_num_procs demo_arrived = 4" "tcdm demo_arrived = (\<lambda>_. 1)"
    by (simp_all add: demo_arrived_def booted_def linked_state_def reset_state_def)
  have ids: "proc_ids (teams demo_arrived (CURR_TEAM demo_arrived 0)) i = of_nat i" if "i < 4" for i
    using that by (auto simp: demo_arrived_def booted_def number_procs_ids demo_team_def not_less_eq_eq)
  have "slave_ids (prv_num_procs demo_arrived) (proc_ids (teams demo_arrived (CURR_TEAM demo_arrived 0))) = [1, 2, 3]"
    by (simp add: slave_ids_def n upt_conv_Cons ids)
  then show "MSGBarrier_Wait (prv_num_procs demo_arrived)
      (proc_ids (teams demo_arrived (CURR_TEAM demo_arrived 0))) demo_arrived = Inr demo_gathered"
    using gather_result [of "[1, 2, 3]" demo_arrived]
    by (simp add: MSGBarrier_Wait_def n demo_gathered_def del: gather.simps cong: if_cong)
  show "unat (prv_num_procs demo_gathered) \<le> 16" by (simp add: demo_gathered_def n)
  show "\<forall>i < unat (prv_num_procs demo_gathered).
      proc_ids (teams demo_gathered (CURR_TEAM demo_gathered 0)) i = of_nat i"
    using ids by (simp add: demo_gathered_def n)
qed simp_all

end
