(* ===== verification/Gomp_Run.thy ===== *)
theory Gomp_Run
  imports Gomp_Main
begin

text \<open>
  A whole run of the runtime on up to 16 processors: the master executes a program that is a list of parallel
  regions (\<open>GOMP_parallel_start\<close>, its own share, \<open>GOMP_parallel_end\<close>), every other processor the
  worker loop of \<open>omp_SPMD_worker\<close> (\<open>libgomp/libgomp.c\<close>). The processors are interleaved access by access to the flags
  of the barrier; the bookkeeping of a team, which only the master touches, is one step, and so is the master's read and write of a flag, which no
  worker writes in between (only the master writes a release flag, and a worker whose arrival flag is set waits). What a
  region computes is left out: a finished share is recorded in a log. A region starts no region of its own.
\<close>

section \<open>The processors\<close>

text \<open>A region: the function, its argument, the number of threads asked for.\<close>

type_synonym region = "addr \<times> addr \<times> u32"

text \<open>Where the master is: gathering everybody at the start (next slave), between regions, letting
  the team out (the new team, next entry), at its own share, gathering the team (next entry),
  letting everybody out at the end, behind \<open>omp_SPMD_worker\<close>.\<close>

datatype master_pc = M_start nat "region list" | M_seq "region list" | M_fork addr nat region "region list"
  | M_share region "region list" | M_join nat region "region list" | M_exit nat | M_stop

text \<open>Where a worker is: before \<open>MSGBarrier_SlaveEnter\<close>, after it has read its release flag, spinning on it,
  at the head of the loop, at its share of a region, behind the loop.\<close>

datatype worker_pc = W_enter | W_notify u32 | W_spin u32 | W_dispatch | W_share addr addr | W_gone

record omp_run =
  rt :: gomp
  at_master :: master_pc
  at_worker :: "nat \<Rightarrow> worker_pc"
  shares :: "(nat \<times> addr \<times> addr) list"

abbreviation set_flag :: "addr \<Rightarrow> u32 \<Rightarrow> gomp \<Rightarrow> gomp" where
  "set_flag a v g \<equiv> g\<lparr>tcdm := (tcdm g)(a := v)\<rparr>"

definition own_team :: "gomp \<Rightarrow> gomp_team" where
  "own_team g = teams g (CURR_TEAM g 0)"

text \<open>A step of the master with \<open>n\<close> processors.\<close>

inductive master_step :: "nat \<Rightarrow> omp_run \<Rightarrow> omp_run \<Rightarrow> bool" for n where
  m_arrived: "at_master s = M_start i rs \<Longrightarrow> i < n \<Longrightarrow> q = unat (proc_ids (own_team (rt s)) i) \<Longrightarrow>
    tcdm (rt s) (MASTER_FLAG q) \<noteq> 0 \<Longrightarrow>
    master_step n s (s\<lparr>rt := set_flag (MASTER_FLAG q) 0 (rt s), at_master := M_start (i + 1) rs\<rparr>)"
| m_started: "at_master s = M_start i rs \<Longrightarrow> \<not> i < n \<Longrightarrow> master_step n s (s\<lparr>at_master := M_seq rs\<rparr>)"
| m_fork: "at_master s = M_seq (r # rs) \<Longrightarrow> r = (fn, args, num) \<Longrightarrow> gomp_team_start 0 fn args num (rt s) = Inr (p, g) \<Longrightarrow>
    master_step n s (s\<lparr>rt := g, at_master := M_fork p 1 r rs\<rparr>)"
| m_release: "at_master s = M_fork p i r rs \<Longrightarrow> i < unat (nthreads (teams (rt s) p)) \<Longrightarrow>
    q = unat (proc_ids (teams (rt s) p) i) \<Longrightarrow>
    master_step n s (s\<lparr>rt := set_flag (SLAVE_FLAG q) (tcdm (rt s) (SLAVE_FLAG q) + 1) (rt s), at_master := M_fork p (i + 1) r rs\<rparr>)"
| m_forked: "at_master s = M_fork p i r rs \<Longrightarrow> \<not> i < unat (nthreads (teams (rt s) p)) \<Longrightarrow>
    master_step n s (s\<lparr>at_master := M_share r rs\<rparr>)"
| m_share: "at_master s = M_share r rs \<Longrightarrow> r = (fn, args, num) \<Longrightarrow>
    master_step n s (s\<lparr>at_master := M_join 1 r rs, shares := shares s @ [(0, fn, args)]\<rparr>)"
| m_gather: "at_master s = M_join i r rs \<Longrightarrow> i < unat (nthreads (own_team (rt s))) \<Longrightarrow>
    q = unat (proc_ids (own_team (rt s)) i) \<Longrightarrow> tcdm (rt s) (MASTER_FLAG q) \<noteq> 0 \<Longrightarrow>
    master_step n s (s\<lparr>rt := set_flag (MASTER_FLAG q) 0 (rt s), at_master := M_join (i + 1) r rs\<rparr>)"
| m_join: "at_master s = M_join i r rs \<Longrightarrow> \<not> i < unat (nthreads (own_team (rt s))) \<Longrightarrow>
    gomp_team_end 0 (rt s) = Inr g \<Longrightarrow> master_step n s (s\<lparr>rt := g, at_master := M_seq rs\<rparr>)"
| m_exit: "at_master s = M_seq [] \<Longrightarrow>
    master_step n s (s\<lparr>rt := (rt s)\<lparr>CURR_TEAM := exit_teams (n - 1) 1 (CURR_TEAM (rt s))\<rparr>, at_master := M_exit 1\<rparr>)"
| m_let_go: "at_master s = M_exit i \<Longrightarrow> i < n \<Longrightarrow> q = unat (proc_ids (own_team (rt s)) i) \<Longrightarrow>
    master_step n s (s\<lparr>rt := set_flag (SLAVE_FLAG q) (tcdm (rt s) (SLAVE_FLAG q) + 1) (rt s), at_master := M_exit (i + 1)\<rparr>)"
| m_stop: "at_master s = M_exit i \<Longrightarrow> \<not> i < n \<Longrightarrow> master_step n s (s\<lparr>at_master := M_stop\<rparr>)"

text \<open>A step of worker \<open>q\<close>.\<close>

inductive worker_step :: "nat \<Rightarrow> omp_run \<Rightarrow> omp_run \<Rightarrow> bool" for q where
  w_enter: "at_worker s q = W_enter \<Longrightarrow>
    worker_step q s (s\<lparr>at_worker := (at_worker s)(q := W_notify (tcdm (rt s) (SLAVE_FLAG q)))\<rparr>)"
| w_notify: "at_worker s q = W_notify v \<Longrightarrow>
    worker_step q s (s\<lparr>rt := set_flag (MASTER_FLAG q) 1 (rt s), at_worker := (at_worker s)(q := W_spin v)\<rparr>)"
| w_leave: "at_worker s q = W_spin v \<Longrightarrow> tcdm (rt s) (SLAVE_FLAG q) \<noteq> v \<Longrightarrow>
    worker_step q s (s\<lparr>at_worker := (at_worker s)(q := W_dispatch)\<rparr>)"
| w_dispatch: "at_worker s q = W_dispatch \<Longrightarrow>
    worker_step q s (s\<lparr>at_worker := (at_worker s)(q :=
      (case slave_dispatch q (rt s) of W_exit \<Rightarrow> W_gone | W_run fn args \<Rightarrow> W_share fn args))\<rparr>)"
| w_share: "at_worker s q = W_share fn args \<Longrightarrow>
    worker_step q s (s\<lparr>at_worker := (at_worker s)(q := W_enter), shares := shares s @ [(q, fn, args)]\<rparr>)"

inductive run_step :: "nat \<Rightarrow> omp_run \<Rightarrow> omp_run \<Rightarrow> bool" for n where
  "master_step n s s' \<Longrightarrow> run_step n s s'"
| "1 \<le> q \<Longrightarrow> q < n \<Longrightarrow> worker_step q s s' \<Longrightarrow> run_step n s s'"

text \<open>The start: the master has set up the runtime, the workers are about to enter the barrier.\<close>

definition run_start :: "gomp \<Rightarrow> region list \<Rightarrow> omp_run" where
  "run_start g rs = \<lparr>rt = g, at_master = M_start 1 rs, at_worker = (\<lambda>_. W_enter), shares = []\<rparr>"

section \<open>The runtime between and inside regions\<close>

text \<open>Between regions, with room in the heap for \<open>k\<close> more of them.\<close>

definition seq_ok :: "nat \<Rightarrow> nat \<Rightarrow> gomp \<Rightarrow> bool" where
  "seq_ok n k g \<longleftrightarrow> runtime_ok g \<and> unat (prv_num_procs g) = n \<and> n \<le> 16 \<and> (\<forall>i<32. bit (thread_pool g) i \<longleftrightarrow> i = 0) \<and>
     unat (CURR_TEAM g 0) < unat (SHMEM_NEXT g) \<and> (\<forall>i<n. proc_ids (own_team g) i = of_nat i) \<and>
     (\<forall>q<16. SLAVE_FLAG q \<noteq> next_lock g \<and> MASTER_FLAG q \<noteq> next_lock g) \<and> unat (SHMEM_NEXT g) + 584 * k \<le> heap_limit g"

text \<open>The processors of a region that asks for \<open>num\<close> threads when all are idle.\<close>

definition team_size :: "nat \<Rightarrow> u32 \<Rightarrow> nat" where
  "team_size n num = (if num = 0 then n else min (unat num) n)"

text \<open>Inside a region.\<close>

definition region_ok :: "nat \<Rightarrow> nat \<Rightarrow> region \<Rightarrow> gomp \<Rightarrow> bool" where
  "region_ok n k r g \<longleftrightarrow> (case r of (fn, args, num) \<Rightarrow> 0 \<le> sint num \<and>
     (\<exists>g0 t. seq_ok n (Suc k) g0 \<and> g = (team_started 0 fn args num g0)\<lparr>tcdm := t\<rparr>))"

lemma runtime_ok_tcdm [simp]: "runtime_ok (g\<lparr>tcdm := t\<rparr>) = runtime_ok g"
  by (simp add: runtime_ok_def heap_ok_def lock_free_def lock_addr_def lock_word_def sem_ok_def heap_limit_def)

lemma seq_ok_flags [simp]: "seq_ok n k (g\<lparr>tcdm := t\<rparr>) = seq_ok n k g"
  by (simp add: seq_ok_def own_team_def heap_limit_def)

lemma region_ok_flags: "region_ok n k r g \<Longrightarrow> region_ok n k r (g\<lparr>tcdm := t\<rparr>)"
  by (cases r) (fastforce simp: region_ok_def)

lemma all_idle:
  assumes "seq_ok n k g"
  shows "free_among (thread_pool g) [1..<n] = [1..<n]" "unat (idle_cores g) = n - 1" "1 \<le> n"
proof -
  show f: "free_among (thread_pool g) [1..<n] = [1..<n]"
    using assms by (auto simp: seq_ok_def free_among_def filter_id_conv)
  show "unat (idle_cores g) = n - 1" "1 \<le> n" using assms f by (auto simp: seq_ok_def runtime_ok_def)
qed

lemma resolved_team_size:
  assumes "seq_ok n k g" "0 \<le> sint num"
  shows "unat (resolved num g) = team_size n num" "1 \<le> team_size n num" "team_size n num \<le> n"
    "claimed num g = [1..<team_size n num]"
proof -
  have ok: "runtime_ok g" "unat (prv_num_procs g) = n" using assms(1) by (auto simp: seq_ok_def)
  note i = all_idle [OF assms(1)] and cp = claimed_props [OF ok(1) assms(2)]
  show r: "unat (resolved num g) = team_size n num"
    using i(2,3) by (simp add: resolved_unat [OF ok(1) assms(2)] team_size_def)
  then show b: "1 \<le> team_size n num" "team_size n num \<le> n" using cp(4,5) i by auto
  have "claimed num g = take (team_size n num - 1) [1..<n]"
    using i(1) cp(6) by (simp add: claimed_def ok(2) r)
  then show "claimed num g = [1..<team_size n num]" using b by (simp add: take_upt)
qed

lemma fork_ok:
  fixes fn args :: addr
  assumes "seq_ok n (Suc k) g" "0 \<le> sint num"
  defines "g' \<equiv> team_started 0 fn args num g"
  shows "gomp_team_start 0 fn args num g = Inr (SHMEM_NEXT g, g')" "region_ok n k (fn, args, num) g'"
    "CURR_TEAM g' 0 = SHMEM_NEXT g" "q < 16 \<Longrightarrow> tcdm g' (SLAVE_FLAG q) = tcdm g (SLAVE_FLAG q)"
    "q < 16 \<Longrightarrow> tcdm g' (MASTER_FLAG q) = tcdm g (MASTER_FLAG q)"
proof -
  have ok: "runtime_ok g" "CURR_TEAM g 0 \<noteq> SHMEM_NEXT g" "unat (SHMEM_NEXT g) + 584 \<le> heap_limit g"
    using assms(1) by (auto simp: seq_ok_def)
  show "gomp_team_start 0 fn args num g = Inr (SHMEM_NEXT g, g')"
    unfolding g'_def using ok(3) by (subst gomp_team_start_eq [OF ok(1) _ ok(2)]) simp_all
  have "g' = (team_started 0 fn args num g)\<lparr>tcdm := tcdm g'\<rparr>" by (simp add: g'_def)
  then show "region_ok n k (fn, args, num) g'" using assms(1,2) unfolding region_ok_def by blast
  show "CURR_TEAM g' 0 = SHMEM_NEXT g" by (simp add: g'_def team_started_def)
  show "q < 16 \<Longrightarrow> tcdm g' (SLAVE_FLAG q) = tcdm g (SLAVE_FLAG q)"
    "q < 16 \<Longrightarrow> tcdm g' (MASTER_FLAG q) = tcdm g (MASTER_FLAG q)"
    using assms(1) by (auto simp: g'_def team_started_def seq_ok_def)
qed

text \<open>The team of a region, as the master and the workers read it.\<close>

lemma region_team:
  assumes "region_ok n k (fn, args, num) g"
  defines "T \<equiv> team_size n num"
  shows "unat (nthreads (own_team g)) = T" "1 \<le> T" "T \<le> n" "n \<le> 16"
    "1 \<le> q \<Longrightarrow> q < T \<Longrightarrow> unat (proc_ids (own_team g) q) = q"
    "1 \<le> q \<Longrightarrow> q < T \<Longrightarrow> slave_dispatch q g = W_run fn args"
proof -
  obtain g0 t where g0: "seq_ok n (Suc k) g0" "g = (team_started 0 fn args num g0)\<lparr>tcdm := t\<rparr>" "0 \<le> sint num"
    using assms(1) by (auto simp: region_ok_def)
  note rt = resolved_team_size [OF g0(1,3), folded T_def]
  have team: "own_team g = new_team_record 0 fn args num g0"
    by (simp add: own_team_def g0(2) team_started_def)
  show "unat (nthreads (own_team g)) = T" using rt(1) by (simp add: team new_team_record_def Let_def)
  show "1 \<le> T" "T \<le> n" using rt by simp_all
  show n: "n \<le> 16" using g0(1) by (simp add: seq_ok_def)
  show "unat (proc_ids (own_team g) q) = q" if "1 \<le> q" "q < T"
  proof -
    have "q = Suc (q - 1)" "q - 1 < length (claimed num g0)" using that rt(4) by auto
    then obtain j where j: "q = Suc j" "j < length (claimed num g0)" by blast
    have "unat (of_nat q :: u32) = q" using that rt(3) n by (simp add: unat_of_nat32)
    moreover have "proc_ids (own_team g) (Suc j) = of_nat (claimed num g0 ! j)"
      using j(2) by (simp add: team new_team_record_def Let_def number_proc_ids)
    moreover have "claimed num g0 ! j = q" using j by (simp add: rt(4))
    ultimately show ?thesis using j(1) by simp
  qed
  have "SHMEM_NEXT g0 \<noteq> OMP_SLAVE_EXIT"
    using g0(1) by (auto simp: seq_ok_def heap_limit_def OMP_SLAVE_EXIT_def)
  then show "slave_dispatch q g = W_run fn args" if "1 \<le> q" "q < T"
    using that by (simp add: slave_dispatch_def g0(2) team_started_def rt(4)) (simp add: new_team_record_def Let_def)
qed

lemma join_ok:
  assumes "region_ok n k r g"
  shows "\<exists>g'. gomp_team_end 0 g = Inr g' \<and> seq_ok n k g' \<and> tcdm g' = tcdm g"
proof -
  obtain fn args num where r: "r = (fn, args, num)" by (cases r)
  obtain g0 t where g0: "seq_ok n (Suc k) g0" "g = (team_started 0 fn args num g0)\<lparr>tcdm := t\<rparr>" "0 \<le> sint num"
    using assms by (auto simp: region_ok_def r)
  let ?qs = "claimed num g0"
  have ok: "runtime_ok g0" "CURR_TEAM g0 0 \<noteq> SHMEM_NEXT g0" "unat (SHMEM_NEXT g0) + 584 \<le> heap_limit g0"
    using g0(1) by (auto simp: seq_ok_def)
  have ok1: "runtime_ok g" using runtime_ok_started [OF ok(1) g0(3) ok(3)] by (simp add: g0(2))
  obtain g2 where g2: "gomp_team_end 0 (team_started 0 fn args num g0) = Inr g2" "idle_cores g2 = idle_cores g0"
      "thread_pool g2 = thread_pool g0" "CURR_TEAM g2 0 = CURR_TEAM g0 0" "runtime_ok g2"
      "SHMEM_NEXT g2 = SHMEM_NEXT g0 + 584" "prv_num_procs g2 = prv_num_procs g0"
    using team_start_end_exact [of g0 0 num fn args] gomp_team_start_eq [OF ok(1), of 0 fn args num] ok g0(3) by auto
  have lf: "lock_free (team_started 0 fn args num g0) (global_lock g0)" "lock_free g (global_lock g)"
    using runtime_ok_started [OF ok(1) g0(3) ok(3)] ok1 by (simp_all add: runtime_ok_def)
  have e: "gomp_team_end 0 g = Inr (g2\<lparr>tcdm := t\<rparr>)"
    using g2(1) gomp_team_end_eq [OF lf(2), of 0] gomp_team_end_eq [of "team_started 0 fn args num g0" 0] lf(1)
    by (auto simp: g0(2) Let_def)
  have same: "teams g2 (CURR_TEAM g0 0) = teams g0 (CURR_TEAM g0 0)" "next_lock g2 = next_lock g0"
    using g2(1) gomp_team_end_eq [of "team_started 0 fn args num g0" 0] lf(1) ok(2)
    by (auto simp: Let_def team_started_def)
  have w: "unat (SHMEM_NEXT g0 + 584) = unat (SHMEM_NEXT g0) + 584"
    using shmalloc_no_wrap [of g0 584] ok by (simp add: runtime_ok_def)
  have "heap_limit g2 = heap_limit g0" by (simp add: heap_limit_def g2(7))
  then have "unat (SHMEM_NEXT g0) + 584 * Suc k \<le> heap_limit g2" using g0(1) by (simp add: seq_ok_def)
  moreover have "\<forall>i<n. proc_ids (own_team g2) i = of_nat i"
    using g0(1) g2(4) same(1) by (simp add: seq_ok_def own_team_def)
  ultimately have "seq_ok n k g2" using g0(1) g2 same(2) w unfolding seq_ok_def by auto
  then show ?thesis using e by (simp add: g0(2))
qed

section \<open>What every reachable state satisfies\<close>

text \<open>How a worker stands to the barrier, from its place in the code, its release flag and its
  arrival flag: on its way to it, gathered, let out, behind the loop.\<close>

datatype phase = Arriving | Waiting | Called | Gone | Lost

fun standing :: "worker_pc \<Rightarrow> u32 \<Rightarrow> u32 \<Rightarrow> phase" where
  "standing W_enter f m = (if m = 0 then Arriving else Lost)"
| "standing (W_notify v) f m = (if v = f \<and> m = 0 then Arriving else Lost)"
| "standing (W_spin v) f m =
    (if v = f then if m = 0 then Waiting else Arriving else if m = 0 then Called else Lost)"
| "standing W_dispatch f m = (if m = 0 then Called else Lost)"
| "standing (W_share fn args) f m = (if m = 0 then Called else Lost)"
| "standing W_gone f m = Gone"

definition phase_of :: "omp_run \<Rightarrow> nat \<Rightarrow> phase" where
  "phase_of s q = standing (at_worker s q) (tcdm (rt s) (SLAVE_FLAG q)) (tcdm (rt s) (MASTER_FLAG q))"

lemma phase_elims:
  "standing pc f m = Arriving \<Longrightarrow> m \<noteq> 0 \<Longrightarrow> pc = W_spin f"
  "standing pc f m = Waiting \<Longrightarrow> pc = W_spin f \<and> m = 0"
  "standing pc f m = Called \<Longrightarrow> m = 0"
  by (cases pc; simp split: if_splits)+

text \<open>The shares of a region, and a log made of the shares of whole regions.\<close>

definition share :: "nat \<Rightarrow> region \<Rightarrow> nat \<times> addr \<times> addr" where
  "share q r = (q, fst r, fst (snd r))"

definition tasks :: "nat \<Rightarrow> region \<Rightarrow> (nat \<times> addr \<times> addr) set" where
  "tasks n r = (\<lambda>q. share q r) ` {..<team_size n (snd (snd r))}"

definition whole :: "nat \<Rightarrow> region list \<Rightarrow> (nat \<times> addr \<times> addr) list \<Rightarrow> bool" where
  "whole n ds xs \<longleftrightarrow> (\<exists>bs. xs = concat bs \<and> list_all2 (\<lambda>r b. distinct b \<and> set b = tasks n r) ds bs)"

lemma share_simps [simp]: "share q r = share q' r' \<longleftrightarrow> q = q' \<and> fst r = fst r' \<and> fst (snd r) = fst (snd r')"
  by (auto simp: share_def)

lemma share_in_tasks [simp]: "share q r \<in> tasks n r \<longleftrightarrow> q < team_size n (snd (snd r))"
  by (auto simp: tasks_def)

lemma whole_Nil [simp]: "whole n [] []" by (simp add: whole_def)

lemma whole_snoc: "whole n ds xs \<Longrightarrow> distinct ys \<Longrightarrow> set ys = tasks n r \<Longrightarrow> whole n (ds @ [r]) (xs @ ys)"
  unfolding whole_def by (fastforce intro: list_all2_appendI exI [of _ "_ @ [ys]"])

text \<open>Gathering: the workers below \<open>i\<close> wait, the others are on their way.\<close>

definition gathering :: "nat \<Rightarrow> nat \<Rightarrow> omp_run \<Rightarrow> bool" where
  "gathering n i s \<longleftrightarrow> (\<forall>q. 1 \<le> q \<longrightarrow> q < n \<longrightarrow> phase_of s q = (if q < i then Waiting else Arriving))"

text \<open>Inside a region: the workers below \<open>lo\<close> have been gathered again, those up to \<open>hi\<close> have been
  let out and are on their way back as soon as their share is logged, the others still wait.\<close>

definition region_phase :: "nat \<Rightarrow> nat \<Rightarrow> bool \<Rightarrow> nat \<Rightarrow> phase" where
  "region_phase lo hi logged q = (if lo \<le> q \<and> q < hi then if logged then Arriving else Called else Waiting)"

definition worker_inv :: "nat \<Rightarrow> nat \<Rightarrow> region \<Rightarrow> (nat \<times> addr \<times> addr) list \<Rightarrow> omp_run \<Rightarrow> nat \<Rightarrow> bool" where
  "worker_inv lo hi r cur s q \<longleftrightarrow> phase_of s q = region_phase lo hi (share q r \<in> set cur) q \<and>
     (q < lo \<longrightarrow> share q r \<in> set cur) \<and> (hi \<le> q \<longrightarrow> share q r \<notin> set cur) \<and>
     (\<forall>fn args. at_worker s q = W_share fn args \<longrightarrow> share q r = (q, fn, args))"

definition region_inv :: "nat \<Rightarrow> nat \<Rightarrow> nat \<Rightarrow> nat \<Rightarrow> region \<Rightarrow> (nat \<times> addr \<times> addr) list \<Rightarrow> omp_run \<Rightarrow> bool" where
  "region_inv n lo hi k r cur s \<longleftrightarrow> region_ok n k r (rt s) \<and> distinct cur \<and> set cur \<subseteq> tasks n r \<and>
     lo \<le> hi \<and> hi \<le> team_size n (snd (snd r)) \<and> (\<forall>q. 1 \<le> q \<longrightarrow> q < n \<longrightarrow> worker_inv lo hi r cur s q)"

text \<open>A step that is about another processor.\<close>

lemma worker_inv_other:
  assumes "worker_inv lo hi r cur s q" "phase_of s' q = phase_of s q" "at_worker s' q = at_worker s q"
    "share q r \<in> set cur' \<longleftrightarrow> share q r \<in> set cur"
    "region_phase lo' hi' (share q r \<in> set cur) q = region_phase lo hi (share q r \<in> set cur) q"
    "q < lo' \<Longrightarrow> q < lo" "hi' \<le> q \<Longrightarrow> hi \<le> q"
  shows "worker_inv lo' hi' r cur' s' q"
  using assms by (auto simp: worker_inv_def)

text \<open>At the end: the workers below \<open>i\<close> have been let out.\<close>

definition leaving :: "nat \<Rightarrow> nat \<Rightarrow> omp_run \<Rightarrow> bool" where
  "leaving n i s \<longleftrightarrow> n \<le> 16 \<and> (\<forall>q<n. proc_ids (own_team (rt s)) q = of_nat q) \<and>
     (\<forall>q. 1 \<le> q \<longrightarrow> q < n \<longrightarrow> CURR_TEAM (rt s) q = OMP_SLAVE_EXIT \<and> (\<forall>fn args. at_worker s q \<noteq> W_share fn args) \<and>
       (if q < i then phase_of s q \<in> {Called, Gone} else phase_of s q = Waiting))"

text \<open>The whole state, after the regions \<open>ds\<close> and with the log \<open>cur\<close> of the current one.\<close>

fun pc_inv :: "nat \<Rightarrow> region list \<Rightarrow> region list \<Rightarrow> (nat \<times> addr \<times> addr) list \<Rightarrow> omp_run \<Rightarrow> master_pc \<Rightarrow> bool" where
  "pc_inv n prog ds cur s (M_start i rs) \<longleftrightarrow> prog = ds @ rs \<and> cur = [] \<and> 1 \<le> i \<and> i \<le> n \<and>
    seq_ok n (length rs) (rt s) \<and> gathering n i s"
| "pc_inv n prog ds cur s (M_seq rs) \<longleftrightarrow> prog = ds @ rs \<and> cur = [] \<and> seq_ok n (length rs) (rt s) \<and> gathering n n s"
| "pc_inv n prog ds cur s (M_fork p i r rs) \<longleftrightarrow> prog = ds @ r # rs \<and> p = CURR_TEAM (rt s) 0 \<and> 1 \<le> i \<and>
    share 0 r \<notin> set cur \<and> region_inv n 1 i (length rs) r cur s"
| "pc_inv n prog ds cur s (M_share r rs) \<longleftrightarrow> prog = ds @ r # rs \<and>
    share 0 r \<notin> set cur \<and> region_inv n 1 (team_size n (snd (snd r))) (length rs) r cur s"
| "pc_inv n prog ds cur s (M_join i r rs) \<longleftrightarrow> prog = ds @ r # rs \<and> 1 \<le> i \<and>
    share 0 r \<in> set cur \<and> region_inv n i (team_size n (snd (snd r))) (length rs) r cur s"
| "pc_inv n prog ds cur s (M_exit i) \<longleftrightarrow> prog = ds \<and> cur = [] \<and> 1 \<le> i \<and> i \<le> n \<and> leaving n i s"
| "pc_inv n prog ds cur s M_stop \<longleftrightarrow> prog = ds \<and> cur = [] \<and> leaving n n s"

definition run_inv :: "nat \<Rightarrow> region list \<Rightarrow> omp_run \<Rightarrow> bool" where
  "run_inv n prog s \<longleftrightarrow> (\<exists>ds prev cur. whole n ds prev \<and> shares s = prev @ cur \<and> pc_inv n prog ds cur s (at_master s))"

lemma run_invI:
  "whole n ds prev \<Longrightarrow> shares s = prev @ cur \<Longrightarrow> pc_inv n prog ds cur s (at_master s) \<Longrightarrow> run_inv n prog s"
  by (auto simp: run_inv_def)

section \<open>The steps of a worker\<close>

text \<open>What a step of a worker changes.\<close>

definition only_worker :: "nat \<Rightarrow> omp_run \<Rightarrow> omp_run \<Rightarrow> bool" where
  "only_worker q s s' \<longleftrightarrow> at_master s' = at_master s \<and> rt s' = (rt s)\<lparr>tcdm := tcdm (rt s')\<rparr> \<and>
     (\<forall>q'<16. q' \<noteq> q \<longrightarrow> phase_of s' q' = phase_of s q' \<and> at_worker s' q' = at_worker s q')"

lemma worker_step_cases:
  assumes "worker_step q s s'" "q < 16" "phase_of s q \<noteq> Lost"
  shows "only_worker q s s'"
    "phase_of s q = Arriving \<and> phase_of s' q = Arriving \<and> shares s' = shares s \<and> (\<forall>fn args. at_worker s' q \<noteq> W_share fn args) \<or>
     phase_of s q = Called \<and> phase_of s' q = Called \<and> shares s' = shares s \<and>
       (\<forall>fn args. at_worker s' q = W_share fn args \<longrightarrow> slave_dispatch q (rt s) = W_run fn args) \<or>
     phase_of s q = Called \<and> phase_of s' q = Gone \<and> shares s' = shares s \<and> slave_dispatch q (rt s) = W_exit \<and>
       (\<forall>fn args. at_worker s' q \<noteq> W_share fn args) \<or>
     (\<exists>fn args. at_worker s q = W_share fn args \<and> phase_of s q = Called \<and> phase_of s' q = Arriving \<and>
       shares s' = shares s @ [(q, fn, args)] \<and> (\<forall>fn args. at_worker s' q \<noteq> W_share fn args))"
  using assms(1,3)
  by (cases rule: worker_step.cases; force simp: only_worker_def phase_of_def flags_apart assms(2) split: if_splits worker_action.splits)+

lemma gathering_worker:
  assumes "gathering n i s" "worker_step q s s'" "1 \<le> q" "q < n" "n \<le> 16"
  shows "gathering n i s'" "shares s' = shares s"
proof -
  have q: "q < 16" "phase_of s q = (if q < i then Waiting else Arriving)" using assms by (auto simp: gathering_def)
  then have nl: "phase_of s q \<noteq> Lost" by (simp split: if_splits)
  from worker_step_cases [OF assms(2) q(1) nl]
  show "gathering n i s'" "shares s' = shares s"
    using assms(1,5) q(2) unfolding gathering_def only_worker_def
    by (auto split: if_splits) (metis less_le_trans)+
qed

lemma leaving_worker:
  assumes "leaving n i s" "worker_step q s s'" "1 \<le> q" "q < n"
  shows "leaving n i s'" "shares s' = shares s"
proof -
  have q: "q < 16" "if q < i then phase_of s q \<in> {Called, Gone} else phase_of s q = Waiting"
    "n \<le> 16" "slave_dispatch q (rt s) = W_exit" "\<forall>fn args. at_worker s q \<noteq> W_share fn args"
    using assms by (auto simp: leaving_def slave_dispatch_def)
  then have nl: "phase_of s q \<noteq> Lost" by (auto split: if_splits)
  note w = worker_step_cases [OF assms(2) q(1) nl]
  have rt: "rt s' = (rt s)\<lparr>tcdm := tcdm (rt s')\<rparr>" using w(1) by (simp add: only_worker_def)
  have r: "CURR_TEAM (rt s') = CURR_TEAM (rt s)" "own_team (rt s') = own_team (rt s)"
    by (subst rt, simp add: own_team_def)+
  have self: "phase_of s' q \<in> {Called, Gone} \<and> q < i \<and> shares s' = shares s \<and> (\<forall>fn args. at_worker s' q \<noteq> W_share fn args)"
    using w(2) q by (auto split: if_splits)
  then show "shares s' = shares s" by simp
  have "q' < n \<Longrightarrow> q' \<noteq> q \<Longrightarrow> phase_of s' q' = phase_of s q' \<and> at_worker s' q' = at_worker s q'" for q'
    using w(1) q(3) by (simp add: only_worker_def)
  then show "leaving n i s'" using assms(1) self unfolding leaving_def r by metis
qed

text \<open>Inside a region a step of a worker logs at most its own share, which was missing.\<close>

lemma region_inv_worker:
  assumes "region_inv n lo hi k r cur s" "worker_step q s s'" "1 \<le> q" "q < n"
  shows "\<exists>new. set new \<subseteq> {share q r} \<and> shares s' = shares s @ new \<and> region_inv n lo hi k r (cur @ new) s'"
proof -
  obtain fn args num where r: "r = (fn, args, num)" by (cases r)
  have ok: "region_ok n k (fn, args, num) (rt s)" using assms(1) by (simp add: region_inv_def r)
  note team = region_team [OF ok]
  have q: "q < 16" "phase_of s q = region_phase lo hi (share q r \<in> set cur) q" "n \<le> 16"
    "\<And>fn args. at_worker s q = W_share fn args \<Longrightarrow> share q r = (q, fn, args)"
    using assms team(4) by (auto simp: region_inv_def worker_inv_def)
  have nl: "phase_of s q \<noteq> Lost" using q(2) by (simp add: region_phase_def)
  note w = worker_step_cases [OF assms(2) q(1) nl]
  have rt: "rt s' = (rt s)\<lparr>tcdm := tcdm (rt s')\<rparr>" using w(1) by (simp add: only_worker_def)
  have ok': "region_ok n k r (rt s')" using region_ok_flags [of n k r "rt s"] ok by (subst rt) (simp add: r)
  have other: "q' < n \<Longrightarrow> q' \<noteq> q \<Longrightarrow> phase_of s' q' = phase_of s q' \<and> at_worker s' q' = at_worker s q'" for q'
    using w(1) q(3) by (simp add: only_worker_def)
  have active: "lo \<le> q \<and> q < hi" using w(2) q(2) by (auto simp: region_phase_def split: if_splits)
  then have qT: "q < team_size n (snd (snd r))" using assms(1) by (auto simp: region_inv_def)
  have disp: "slave_dispatch q (rt s) = W_run fn args" using team(6) assms(3) qT by (simp add: r)
  have inv: "region_inv n lo hi k r (cur @ new) s'"
    if "worker_inv lo hi r (cur @ new) s' q" "set new \<subseteq> {share q r}" "distinct (cur @ new)" for new
  proof -
    note new = that
    have "worker_inv lo hi r (cur @ new) s' q'" if q': "1 \<le> q'" "q' < n" for q'
    proof (cases "q' = q")
      case False
      have "share q' r \<notin> set new" using False \<open>set new \<subseteq> {share q r}\<close> by auto
      then have "share q' r \<in> set (cur @ new) \<longleftrightarrow> share q' r \<in> set cur" by simp
      moreover have "worker_inv lo hi r cur s q'" using assms(1) q' by (simp add: region_inv_def)
      ultimately show ?thesis
        using other [OF q'(2) False] by - (rule worker_inv_other [OF _ _ _ _ refl], assumption+, simp_all)
    qed (use \<open>worker_inv lo hi r (cur @ new) s' q\<close> in simp)
    moreover have "set new \<subseteq> tasks n r" using new(2) qT by auto
    ultimately show ?thesis using assms(1) ok' new(3) by (simp add: region_inv_def)
  qed
  have wi: "worker_inv lo hi r cur s q" "distinct cur" using assms by (auto simp: region_inv_def)
  show ?thesis
  proof (cases "shares s' = shares s")
    case True
    have "phase_of s' q = phase_of s q \<and> (\<forall>f a. at_worker s' q = W_share f a \<longrightarrow> share q r = (q, f, a))"
      using w(2) True disp by (elim disjE) (auto simp: share_def r)
    then have "worker_inv lo hi r cur s' q" using wi(1) by (simp add: worker_inv_def)
    then show ?thesis using inv [of "[]"] wi(2) True by (intro exI [of _ "[]"]) simp
  next
    case False
    then obtain f a where st: "at_worker s q = W_share f a" "phase_of s q = Called" "phase_of s' q = Arriving"
        "shares s' = shares s @ [(q, f, a)]" "\<forall>fn args. at_worker s' q \<noteq> W_share fn args"
      using w(2) by auto
    have new: "(q, f, a) = share q r" "share q r \<notin> set cur"
      using q(2,4) st(1,2) active by (auto simp: region_phase_def split: if_splits)
    have "worker_inv lo hi r (cur @ [share q r]) s' q"
      using st(3,5) active by (simp add: worker_inv_def region_phase_def)
    then show ?thesis using inv [of "[share q r]"] wi(2) st(4) new by (intro exI [of _ "[share q r]"]) simp
  qed
qed

lemma run_inv_worker:
  assumes "run_inv n prog s" "worker_step q s s'" "1 \<le> q" "q < n"
  shows "run_inv n prog s'"
proof -
  obtain ds prev cur where inv: "whole n ds prev" "shares s = prev @ cur" "pc_inv n prog ds cur s (at_master s)"
    using assms(1) by (auto simp: run_inv_def)
  have pc: "at_master s' = at_master s"
    using assms(2) by (cases rule: worker_step.cases) simp_all
  have rt: "rt s' = (rt s)\<lparr>tcdm := tcdm (rt s')\<rparr>"
    using assms(2) by (cases rule: worker_step.cases) simp_all
  have s: "seq_ok n k (rt s') = seq_ok n k (rt s)" for k by (subst rt) simp
  have c: "CURR_TEAM (rt s') = CURR_TEAM (rt s)" by (subst rt) simp
  have le: "seq_ok n k g \<Longrightarrow> n \<le> 16" for k g by (simp add: seq_ok_def)
  have "\<exists>new. shares s' = shares s @ new \<and> pc_inv n prog ds (cur @ new) s' (at_master s)"
  proof (cases "at_master s")
    case (M_start i rs)
    then show ?thesis
      using inv(3) gathering_worker [OF _ assms(2-4), of i] le s by (intro exI [of _ "[]"]) fastforce
  next
    case (M_seq rs)
    then show ?thesis
      using inv(3) gathering_worker [OF _ assms(2-4), of n] le s by (intro exI [of _ "[]"]) fastforce
  next
    case (M_exit i)
    then show ?thesis
      using inv(3) leaving_worker [OF _ assms(2-4), of i] by (intro exI [of _ "[]"]) simp
  next
    case M_stop
    then show ?thesis
      using inv(3) leaving_worker [OF _ assms(2-4), of n] by (intro exI [of _ "[]"]) simp
  next
    case (M_fork p i r rs)
    then show ?thesis
      using inv(3) region_inv_worker [OF _ assms(2-4), of 1 i "length rs" r cur] assms(3) c by fastforce
  next
    case (M_share r rs)
    then show ?thesis
      using inv(3) region_inv_worker [OF _ assms(2-4), of 1 _ "length rs" r cur] assms(3) by fastforce
  next
    case (M_join i r rs)
    then show ?thesis
      using inv(3) region_inv_worker [OF _ assms(2-4), of i _ "length rs" r cur] assms(3) by fastforce
  qed
  then show ?thesis using inv(1,2) pc unfolding run_inv_def by (metis append.assoc)
qed

section \<open>The steps of the master\<close>

text \<open>Moving on, and writing a flag.\<close>

lemma phase_of_master [simp]:
  "phase_of (s\<lparr>at_master := pc\<rparr>) q = phase_of s q" "phase_of (s\<lparr>shares := xs\<rparr>) q = phase_of s q"
  by (simp_all add: phase_of_def)

lemma phase_of_flag:
  assumes "q < 16" "p < 16"
  shows "phase_of (s\<lparr>rt := set_flag (SLAVE_FLAG p) v (rt s)\<rparr>) q =
      (if q = p then standing (at_worker s q) v (tcdm (rt s) (MASTER_FLAG q)) else phase_of s q)"
    "phase_of (s\<lparr>rt := set_flag (MASTER_FLAG p) v (rt s)\<rparr>) q =
      (if q = p then standing (at_worker s q) (tcdm (rt s) (SLAVE_FLAG q)) v else phase_of s q)"
  using assms by (simp_all add: phase_of_def flags_apart)

lemma phase_released:
  assumes "phase_of s q = Waiting" "q < 16"
  shows "phase_of (s\<lparr>rt := set_flag (SLAVE_FLAG q) (tcdm (rt s) (SLAVE_FLAG q) + 1) (rt s)\<rparr>) q = Called"
  using phase_elims(2) [OF assms(1) [unfolded phase_of_def]] assms(2) by (simp add: phase_of_flag)

lemma phase_gathered:
  assumes "phase_of s q = Arriving" "tcdm (rt s) (MASTER_FLAG q) \<noteq> 0" "q < 16"
  shows "phase_of (s\<lparr>rt := set_flag (MASTER_FLAG q) 0 (rt s)\<rparr>) q = Waiting"
  using phase_elims(1) [OF assms(1) [unfolded phase_of_def] assms(2)] assms(3) by (simp add: phase_of_flag)

lemma worker_inv_master [simp]:
  "worker_inv lo hi r cur (s\<lparr>at_master := pc\<rparr>) q = worker_inv lo hi r cur s q"
  "worker_inv lo hi r cur (s\<lparr>shares := xs\<rparr>) q = worker_inv lo hi r cur s q"
  by (simp_all add: worker_inv_def)

lemma inv_master [simp]:
  "gathering n i (s\<lparr>at_master := pc\<rparr>) = gathering n i s"
  "region_inv n lo hi k r cur (s\<lparr>at_master := pc\<rparr>) = region_inv n lo hi k r cur s"
  "region_inv n lo hi k r cur (s\<lparr>shares := xs\<rparr>) = region_inv n lo hi k r cur s"
  "leaving n i (s\<lparr>at_master := pc\<rparr>) = leaving n i s"
  by (simp_all add: gathering_def region_inv_def leaving_def)

lemma gathering_arrived:
  assumes "gathering n i s" "1 \<le> i" "i < n" "n \<le> 16" "tcdm (rt s) (MASTER_FLAG i) \<noteq> 0"
  shows "gathering n (i + 1) (s\<lparr>rt := set_flag (MASTER_FLAG i) 0 (rt s)\<rparr>)"
proof -
  have "phase_of s i = Arriving" using assms by (simp add: gathering_def)
  then have i: "phase_of (s\<lparr>rt := set_flag (MASTER_FLAG i) 0 (rt s)\<rparr>) i = Waiting"
    using assms by (intro phase_gathered) simp_all
  have o: "phase_of (s\<lparr>rt := set_flag (MASTER_FLAG i) 0 (rt s)\<rparr>) q = phase_of s q" if "q < n" "q \<noteq> i" for q
    using that assms(3,4) by (subst phase_of_flag) simp_all
  show ?thesis unfolding gathering_def
  proof (intro allI impI)
    fix q assume "1 \<le> q" "q < n"
    then show "phase_of (s\<lparr>rt := set_flag (MASTER_FLAG i) 0 (rt s)\<rparr>) q = (if q < i + 1 then Waiting else Arriving)"
      using i o [of q] assms(1) by (cases "q = i") (auto simp: gathering_def)
  qed
qed

lemma leaving_released:
  assumes "leaving n i s" "1 \<le> i" "i < n"
  shows "leaving n (i + 1) (s\<lparr>rt := set_flag (SLAVE_FLAG i) (tcdm (rt s) (SLAVE_FLAG i) + 1) (rt s)\<rparr>)"
    (is "leaving n _ ?s")
proof -
  have n: "n \<le> 16" using assms by (simp add: leaving_def)
  have "phase_of s i = Waiting" using assms by (auto simp: leaving_def)
  then have i: "phase_of ?s i = Called" using assms n by (intro phase_released) simp_all
  have o: "phase_of ?s q = phase_of s q" if "q < n" "q \<noteq> i" for q
    using that assms(3) n by (subst phase_of_flag) simp_all
  have "if q < i + 1 then phase_of ?s q \<in> {Called, Gone} else phase_of ?s q = Waiting" if "1 \<le> q" "q < n" for q
    using i o [of q] assms(1) that by (cases "q = i") (auto simp: leaving_def split: if_splits)
  moreover have "n \<le> 16" "\<forall>q<n. proc_ids (own_team (rt ?s)) q = of_nat q"
    "\<forall>q. 1 \<le> q \<longrightarrow> q < n \<longrightarrow> CURR_TEAM (rt ?s) q = OMP_SLAVE_EXIT \<and> (\<forall>fn args. at_worker ?s q \<noteq> W_share fn args)"
    using assms(1) by (simp_all add: leaving_def own_team_def)
  ultimately show ?thesis unfolding leaving_def by blast
qed

lemma region_released:
  assumes "region_inv n 1 i k r cur s" "1 \<le> i" "i < team_size n (snd (snd r))"
  shows "region_inv n 1 (i + 1) k r cur (s\<lparr>rt := set_flag (SLAVE_FLAG i) (tcdm (rt s) (SLAVE_FLAG i) + 1) (rt s)\<rparr>)"
    (is "region_inv n 1 _ k r cur ?s")
proof -
  have ok: "region_ok n k (fst r, fst (snd r), snd (snd r)) (rt s)" using assms by (simp add: region_inv_def)
  note team = region_team [OF ok]
  have w: "worker_inv 1 i r cur s i" using assms team(3) by (simp add: region_inv_def)
  then have p: "phase_of s i = Waiting" "share i r \<notin> set cur" by (auto simp: worker_inv_def region_phase_def)
  have st: "at_worker s i = W_spin (tcdm (rt s) (SLAVE_FLAG i))"
    using phase_elims(2) p(1) by (simp add: phase_of_def)
  have i: "phase_of ?s i = Called" using p(1) assms team(3,4) by (intro phase_released) simp_all
  have "worker_inv 1 (i + 1) r cur ?s q" if q: "1 \<le> q" "q < n" for q
  proof (cases "q = i")
    case True
    then show ?thesis using i p(2) st assms(2) by (simp add: worker_inv_def region_phase_def)
  next
    case False
    then have "phase_of ?s q = phase_of s q" using q assms team(3,4) by (subst phase_of_flag) simp_all
    moreover have "worker_inv 1 i r cur s q" using assms(1) q by (simp add: region_inv_def)
    ultimately show ?thesis using False
      by - (rule worker_inv_other [of 1 i r cur s], auto simp: region_phase_def)
  qed
  then show ?thesis using assms region_ok_flags [of n k r "rt s"] by (simp add: region_inv_def)
qed

lemma region_gathered:
  assumes "region_inv n i T k r cur s" "1 \<le> i" "i < T" "tcdm (rt s) (MASTER_FLAG i) \<noteq> 0"
  shows "region_inv n (i + 1) T k r cur (s\<lparr>rt := set_flag (MASTER_FLAG i) 0 (rt s)\<rparr>)"
    (is "region_inv n _ _ k r cur ?s")
proof -
  have ok: "region_ok n k (fst r, fst (snd r), snd (snd r)) (rt s)" "T \<le> team_size n (snd (snd r))"
    using assms by (simp_all add: region_inv_def)
  note team = region_team [OF ok(1)]
  have w: "worker_inv i T r cur s i" using assms team(3) ok(2) by (simp add: region_inv_def)
  moreover have "phase_of s i \<noteq> Called" using phase_elims(3) assms(4) by (auto simp: phase_of_def)
  ultimately have p: "phase_of s i = Arriving" "share i r \<in> set cur"
    using assms(3) by (auto simp: worker_inv_def region_phase_def split: if_splits)
  have i: "phase_of ?s i = Waiting" using p(1) assms ok(2) team(3,4) by (intro phase_gathered) simp_all
  have st: "at_worker s i = W_spin (tcdm (rt s) (SLAVE_FLAG i))"
    using phase_elims(1) p(1) assms(4) by (simp add: phase_of_def)
  have "worker_inv (i + 1) T r cur ?s q" if q: "1 \<le> q" "q < n" for q
  proof (cases "q = i")
    case True
    then show ?thesis using i p(2) st assms(3) by (simp add: worker_inv_def region_phase_def)
  next
    case False
    then have "phase_of ?s q = phase_of s q" using q assms ok(2) team(3,4) by (subst phase_of_flag) simp_all
    moreover have "worker_inv i T r cur s q" using assms(1) q by (simp add: region_inv_def)
    ultimately show ?thesis using False
      by - (rule worker_inv_other [of i T r cur s], auto simp: region_phase_def)
  qed
  then show ?thesis using assms region_ok_flags [of n k r "rt s"] by (simp add: region_inv_def)
qed

lemma region_forked:
  assumes "seq_ok n (Suc k) (rt s)" "gathering n n s" "0 \<le> sint num"
    "gomp_team_start 0 fn args num (rt s) = Inr (p, g)"
  shows "p = CURR_TEAM g 0" "region_inv n 1 1 k (fn, args, num) [] (s\<lparr>rt := g\<rparr>)"
proof -
  let ?r = "(fn, args, num)"
  note fork = fork_ok [OF assms(1,3), where fn = fn and args = args]
  have g: "p = SHMEM_NEXT (rt s)" "g = team_started 0 fn args num (rt s)" using assms(4) fork(1) by simp_all
  then show "p = CURR_TEAM g 0" using fork(3) by simp
  have ok: "region_ok n k ?r g" using fork(2) g(2) by simp
  have "worker_inv 1 1 ?r [] (s\<lparr>rt := g\<rparr>) q" if q: "1 \<le> q" "q < n" for q
  proof -
    have w: "phase_of s q = Waiting" using assms(2) q by (simp add: gathering_def)
    then have "at_worker s q = W_spin (tcdm (rt s) (SLAVE_FLAG q))"
      using phase_elims(2) by (simp add: phase_of_def)
    moreover have "phase_of (s\<lparr>rt := g\<rparr>) q = phase_of s q"
      using fork(4,5) [of q] q(2) region_team(4) [OF ok] g(2) by (simp add: phase_of_def)
    ultimately show ?thesis using w q by (simp add: worker_inv_def region_phase_def)
  qed
  then show "region_inv n 1 1 k ?r [] (s\<lparr>rt := g\<rparr>)"
    using ok region_team(2) [OF ok] by (simp add: region_inv_def)
qed

lemma region_joined:
  assumes "region_inv n T T k r cur s" "T = team_size n (snd (snd r))" "share 0 r \<in> set cur"
    "gomp_team_end 0 (rt s) = Inr g"
  shows "seq_ok n k g" "gathering n n (s\<lparr>rt := g\<rparr>)" "distinct cur" "set cur = tasks n r"
proof -
  have ok: "region_ok n k (fst r, fst (snd r), snd (snd r)) (rt s)" and c: "distinct cur" "set cur \<subseteq> tasks n r"
    using assms(1) by (simp_all add: region_inv_def)
  have g: "seq_ok n k g" "tcdm g = tcdm (rt s)" using join_ok [OF ok] assms(4) by auto
  show "seq_ok n k g" "distinct cur" by (fact g c)+
  have w: "phase_of s q = Waiting" "q < T \<Longrightarrow> share q r \<in> set cur" if "1 \<le> q" "q < n" for q
    using assms(1) that by (auto simp: region_inv_def worker_inv_def region_phase_def)
  then show "gathering n n (s\<lparr>rt := g\<rparr>)" by (simp add: gathering_def phase_of_def g(2))
  have "share q r \<in> set cur" if "q < T" for q
    using that w(2) [of q] assms(2,3) region_team(3) [OF ok] by (cases "q = 0") auto
  then show "set cur = tasks n r" using c(2) assms(2) by (auto simp: tasks_def)
qed

lemma region_shared:
  assumes "region_inv n 1 T k r cur s" "share 0 r \<notin> set cur"
  shows "region_inv n 1 T k r (cur @ [share 0 r]) s"
proof -
  have ok: "region_ok n k (fst r, fst (snd r), snd (snd r)) (rt s)" using assms(1) by (simp add: region_inv_def)
  have "worker_inv 1 T r (cur @ [share 0 r]) s q = worker_inv 1 T r cur s q" if "1 \<le> q" for q
    using that by (simp add: worker_inv_def)
  then show ?thesis using assms region_team(2) [OF ok] by (auto simp: region_inv_def)
qed

lemma exit_told:
  assumes "seq_ok n k (rt s)" "gathering n n s"
  shows "leaving n 1 (s\<lparr>rt := (rt s)\<lparr>CURR_TEAM := exit_teams (n - 1) 1 (CURR_TEAM (rt s))\<rparr>\<rparr>)"
proof -
  have "at_worker s q \<noteq> W_share fn args \<and> phase_of s q = Waiting" if "1 \<le> q" "q < n" for q fn args
    using assms(2) that phase_elims(2) [of "at_worker s q"] by (fastforce simp: gathering_def phase_of_def)
  then show ?thesis
    using assms(1) by (auto simp: leaving_def seq_ok_def own_team_def exit_teams_eq phase_of_def)
qed

lemma run_inv_master:
  assumes "run_inv n prog s" "master_step n s s'" "\<forall>r \<in> set prog. 0 \<le> sint (snd (snd r))"
  shows "run_inv n prog s'"
proof -
  obtain ds prev cur where inv: "whole n ds prev" "shares s = prev @ cur" "pc_inv n prog ds cur s (at_master s)"
    using assms(1) by (auto simp: run_inv_def)
  have ids: "unat (proc_ids (own_team (rt s)) i) = i" if "seq_ok n k (rt s) \<or> leaving n j s" "i < n" for i j k
    using that by (auto simp: seq_ok_def leaving_def unat_of_nat32)
  have le: "n \<le> 16" if "seq_ok n k (rt s)" for k using that by (simp add: seq_ok_def)
  from assms(2) show ?thesis
  proof (cases rule: master_step.cases)
    case (m_arrived i rs q)
    then show ?thesis
      using inv gathering_arrived [of n i s] ids [of "length rs" 0 i] le [of "length rs"]
      by (auto simp: run_inv_def)
  next
    case (m_started i rs)
    then have "i = n" using inv(3) by simp
    then show ?thesis using m_started inv by (auto simp: run_inv_def)
  next
    case (m_fork r rs fn args num p g)
    have "0 \<le> sint num" using inv(3) assms(3) m_fork by simp
    then show ?thesis
      using m_fork inv region_forked [of n "length rs" s num fn args p g]
      by (intro run_invI [of n ds prev _ "[]"]) auto
  next
    case (m_release p i r rs q)
    then have R: "region_inv n 1 i (length rs) r cur s" "p = CURR_TEAM (rt s) 0" "1 \<le> i" using inv(3) by simp_all
    then have "region_ok n (length rs) (fst r, fst (snd r), snd (snd r)) (rt s)" by (simp add: region_inv_def)
    note team = region_team [OF this]
    have "i < team_size n (snd (snd r))" "q = i" using m_release team(1,5) R(2,3) by (simp_all add: own_team_def)
    then show ?thesis
      using m_release inv region_released [OF R(1,3)] by (auto simp: run_inv_def)
  next
    case (m_forked p i r rs)
    then have R: "region_inv n 1 i (length rs) r cur s" "p = CURR_TEAM (rt s) 0" using inv(3) by simp_all
    then have "region_ok n (length rs) (fst r, fst (snd r), snd (snd r)) (rt s)" by (simp add: region_inv_def)
    note team = region_team [OF this]
    have "i = team_size n (snd (snd r))" using m_forked R team(1) by (simp add: own_team_def region_inv_def)
    then show ?thesis using m_forked inv by (auto simp: run_inv_def)
  next
    case (m_share r rs fn args num)
    then have R: "region_inv n 1 (team_size n (snd (snd r))) (length rs) r cur s" "share 0 r \<notin> set cur"
      using inv(3) by simp_all
    have "(0, fn, args) = share 0 r" using m_share by (simp add: share_def)
    then show ?thesis using m_share inv region_shared [OF R]
      by (intro run_invI [of n ds prev _ "cur @ [share 0 r]"]) simp_all
  next
    case (m_gather i r rs q)
    then have R: "region_inv n i (team_size n (snd (snd r))) (length rs) r cur s" "1 \<le> i" using inv(3) by simp_all
    then have "region_ok n (length rs) (fst r, fst (snd r), snd (snd r)) (rt s)" by (simp add: region_inv_def)
    note team = region_team [OF this]
    have "i < team_size n (snd (snd r))" "q = i" using m_gather team(1,5) R(2) by simp_all
    then show ?thesis
      using m_gather inv region_gathered [OF R] by (auto simp: run_inv_def)
  next
    case (m_join i r rs g)
    then have R: "region_inv n i (team_size n (snd (snd r))) (length rs) r cur s" using inv(3) by simp
    then have "region_ok n (length rs) (fst r, fst (snd r), snd (snd r)) (rt s)" by (simp add: region_inv_def)
    from region_team(1) [OF this] have i: "i = team_size n (snd (snd r))"
      using m_join R by (simp add: region_inv_def)
    have zero: "share 0 r \<in> set cur" using inv(3) m_join by simp
    note j = region_joined [OF R [folded i] i zero m_join(4)]
    have "whole n (ds @ [r]) (prev @ cur)" by (rule whole_snoc [OF inv(1) j(3,4)])
    then show ?thesis using m_join inv j(1,2)
      by (intro run_invI [of n "ds @ [r]" "prev @ cur" _ "[]"]) simp_all
  next
    case m_exit
    then show ?thesis
      using inv exit_told [of n 0 s] all_idle(3) [of n 0 "rt s"] by (auto simp: run_inv_def)
  next
    case (m_let_go i q)
    then show ?thesis
      using inv leaving_released [of n i s] ids [of 0 i i] by (auto simp: run_inv_def)
  next
    case (m_stop i)
    then have "i = n" using inv(3) by simp
    then show ?thesis using m_stop inv by (auto simp: run_inv_def)
  qed
qed

section \<open>Every step brings the run nearer to its end\<close>

text \<open>The steps a worker can still make on its own, and the steps the master still has to make; a
  release counts for the steps it allows the worker.\<close>

fun own_work :: "worker_pc \<Rightarrow> u32 \<Rightarrow> nat" where
  "own_work (W_spin v) f = (if v = f then 0 else 5)"
| "own_work W_dispatch f = 4"
| "own_work (W_share fn args) f = 3"
| "own_work W_enter f = 2"
| "own_work (W_notify v) f = 1"
| "own_work W_gone f = 0"

definition worker_work :: "omp_run \<Rightarrow> nat \<Rightarrow> nat" where
  "worker_work s q = own_work (at_worker s q) (tcdm (rt s) (SLAVE_FLAG q))"

lemma worker_work_master [simp]:
  "worker_work (s\<lparr>at_master := pc\<rparr>) = worker_work s" "worker_work (s\<lparr>at_master := pc, shares := xs\<rparr>) = worker_work s"
  by (simp_all add: fun_eq_iff worker_work_def)

definition seq_work :: "nat \<Rightarrow> region list \<Rightarrow> nat" where
  "seq_work n rs = length rs * (7 * n + 5) + 6 * n + 2"

fun master_work :: "nat \<Rightarrow> master_pc \<Rightarrow> nat" where
  "master_work n (M_start i rs) = (n - i) + 1 + seq_work n rs"
| "master_work n (M_seq rs) = seq_work n rs"
| "master_work n (M_fork p i r rs) = 6 * (n - i) + n + 3 + seq_work n rs"
| "master_work n (M_share r rs) = n + 2 + seq_work n rs"
| "master_work n (M_join i r rs) = (n - i) + 1 + seq_work n rs"
| "master_work n (M_exit i) = 6 * (n - i) + 1"
| "master_work n M_stop = 0"

definition run_work :: "nat \<Rightarrow> omp_run \<Rightarrow> nat" where
  "run_work n s = master_work n (at_master s) + (\<Sum>q = 1..<n. worker_work s q)"

lemma run_work_worker:
  assumes "worker_step q s s'" "phase_of s q \<noteq> Lost" "1 \<le> q" "q < n" "n \<le> 16"
  shows "run_work n s' < run_work n s"
proof -
  have q: "q \<in> {1..<n}" "q < 16" using assms by auto
  have w: "worker_work s' q < worker_work s q" and m: "at_master s' = at_master s"
    using assms(1,2) q(2) by (cases rule: worker_step.cases;
      force simp: worker_work_def phase_of_def flags_apart split: if_splits worker_action.splits)+
  have "worker_work s' q' = worker_work s q'" if "q' \<in> {1..<n} - {q}" for q'
    using assms(1) that assms(5) q(2) by (cases rule: worker_step.cases) (auto simp: worker_work_def flags_apart)
  then have "(\<Sum>q' \<in> {1..<n} - {q}. worker_work s' q') = (\<Sum>q' \<in> {1..<n} - {q}. worker_work s q')"
    by (rule sum.cong [OF refl])
  then show ?thesis
    using w m sum.remove [OF finite_atLeastLessThan q(1), of "worker_work s"]
      sum.remove [OF finite_atLeastLessThan q(1), of "worker_work s'"] by (simp add: run_work_def)
qed

lemma worker_work_same:
  assumes "n \<le> 16" "\<forall>q<16. tcdm (rt s') (SLAVE_FLAG q) = tcdm (rt s) (SLAVE_FLAG q)" "at_worker s' = at_worker s"
  shows "(\<Sum>q = 1..<n. worker_work s' q) = (\<Sum>q = 1..<n. worker_work s q)"
proof (rule sum.cong [OF refl])
  fix q assume "q \<in> {1..<n}"
  then have "q < 16" using assms(1) by simp
  then show "worker_work s' q = worker_work s q" using assms(2,3) by (simp add: worker_work_def)
qed

lemma worker_work_released:
  assumes "phase_of s i = Waiting" "1 \<le> i" "i < n" "n \<le> 16"
    "rt s' = set_flag (SLAVE_FLAG i) (tcdm (rt s) (SLAVE_FLAG i) + 1) (rt s)" "at_worker s' = at_worker s"
  shows "(\<Sum>q = 1..<n. worker_work s' q) = (\<Sum>q = 1..<n. worker_work s q) + 5"
proof -
  have i: "i \<in> {1..<n}" using assms by simp
  have "at_worker s i = W_spin (tcdm (rt s) (SLAVE_FLAG i))"
    using phase_elims(2) assms(1) by (simp add: phase_of_def)
  then have "worker_work s i = 0" "worker_work s' i = 5" using assms(5,6) by (simp_all add: worker_work_def)
  moreover have "worker_work s' q = worker_work s q" if "q \<in> {1..<n} - {i}" for q
  proof -
    have "q < 16" "i < 16" "q \<noteq> i" using that assms(3,4) by auto
    then show ?thesis using assms(5,6) by (simp add: worker_work_def flags_apart)
  qed
  then have "(\<Sum>q \<in> {1..<n} - {i}. worker_work s' q) = (\<Sum>q \<in> {1..<n} - {i}. worker_work s q)"
    by (rule sum.cong [OF refl])
  with calculation show ?thesis
    using sum.remove [OF finite_atLeastLessThan i, of "worker_work s"]
      sum.remove [OF finite_atLeastLessThan i, of "worker_work s'"] by simp
qed

lemma run_work_master:
  assumes "run_inv n prog s" "master_step n s s'" "\<forall>r \<in> set prog. 0 \<le> sint (snd (snd r))"
  shows "run_work n s' < run_work n s"
proof -
  obtain ds cur where inv: "pc_inv n prog ds cur s (at_master s)" using assms(1) by (auto simp: run_inv_def)
  have ids: "unat (proc_ids (own_team (rt s)) i) = i" if "seq_ok n k (rt s) \<or> leaving n j s" "i < n" for i j k
    using that by (auto simp: seq_ok_def leaving_def unat_of_nat32)
  have le: "n \<le> 16" if "seq_ok n k (rt s)" for k using that by (simp add: seq_ok_def)
  from assms(2) show ?thesis
  proof (cases rule: master_step.cases)
    case (m_arrived i rs q)
    then have "q = i" "n \<le> 16" using inv ids [of "length rs" 0 i] le [of "length rs"] by auto
    then have "q < 16" "n \<le> 16" using m_arrived by simp_all
    then have "(\<Sum>q = 1..<n. worker_work s' q) = (\<Sum>q = 1..<n. worker_work s q)"
      using m_arrived by (intro worker_work_same) (simp_all add: flags_apart)
    then show ?thesis using m_arrived by (simp add: run_work_def)
  next
    case (m_started i rs)
    then show ?thesis by (simp add: run_work_def)
  next
    case (m_fork r rs fn args num p g)
    have p: "0 \<le> sint num" "seq_ok n (Suc (length rs)) (rt s)" using inv assms(3) m_fork by simp_all
    have "(\<Sum>q = 1..<n. worker_work s' q) = (\<Sum>q = 1..<n. worker_work s q)"
      using m_fork fork_ok [OF p(2,1), where fn = fn and args = args] le [OF p(2)] by (intro worker_work_same) auto
    then show ?thesis using m_fork by (simp add: run_work_def seq_work_def)
  next
    case (m_release p i r rs q)
    then have R: "region_inv n 1 i (length rs) r cur s" "p = CURR_TEAM (rt s) 0" "1 \<le> i" using inv by simp_all
    then have "region_ok n (length rs) (fst r, fst (snd r), snd (snd r)) (rt s)" by (simp add: region_inv_def)
    note team = region_team [OF this]
    have i: "i < team_size n (snd (snd r))" "q = i" using m_release team(1,5) R(2,3) by (simp_all add: own_team_def)
    then have "phase_of s i = Waiting"
      using R(1,3) team(3) by (auto simp: region_inv_def worker_inv_def region_phase_def)
    then have "(\<Sum>q = 1..<n. worker_work s' q) = (\<Sum>q = 1..<n. worker_work s q) + 5"
      using m_release i R(3) team(3,4) by (intro worker_work_released) simp_all
    then show ?thesis using m_release i(1) team(3) by (simp add: run_work_def)
  next
    case (m_forked p i r rs)
    then show ?thesis by (simp add: run_work_def)
  next
    case (m_share r rs fn args num)
    then show ?thesis by (simp add: run_work_def)
  next
    case (m_gather i r rs q)
    then have R: "region_inv n i (team_size n (snd (snd r))) (length rs) r cur s" "1 \<le> i" using inv by simp_all
    then have "region_ok n (length rs) (fst r, fst (snd r), snd (snd r)) (rt s)" by (simp add: region_inv_def)
    note team = region_team [OF this]
    have i: "i < n" "q < 16" using m_gather team(1,3,4,5) R(2) by simp_all
    have "(\<Sum>q = 1..<n. worker_work s' q) = (\<Sum>q = 1..<n. worker_work s q)"
      using m_gather i(2) team(4) by (intro worker_work_same) (simp_all add: flags_apart)
    then show ?thesis using m_gather i(1) by (simp add: run_work_def)
  next
    case (m_join i r rs g)
    then have ok: "region_ok n (length rs) r (rt s)" using inv by (simp add: region_inv_def)
    have t: "tcdm g = tcdm (rt s)" using join_ok [OF ok] m_join by auto
    have "n \<le> 16" using region_team(4) [of n "length rs" "fst r" "fst (snd r)" "snd (snd r)"] ok by simp
    then have "(\<Sum>q = 1..<n. worker_work s' q) = (\<Sum>q = 1..<n. worker_work s q)"
      using m_join t by (intro worker_work_same) simp_all
    then show ?thesis using m_join by (simp add: run_work_def)
  next
    case m_exit
    then have ok: "seq_ok n 0 (rt s)" using inv by simp
    then have "(\<Sum>q = 1..<n. worker_work s' q) = (\<Sum>q = 1..<n. worker_work s q)"
      using m_exit le by (intro worker_work_same) simp_all
    then show ?thesis using m_exit all_idle(3) [OF ok] by (simp add: run_work_def seq_work_def)
  next
    case (m_let_go i q)
    then have L: "leaving n i s" "1 \<le> i" "q = i" using inv ids [of 0 i i] by auto
    then have "phase_of s i = Waiting" "n \<le> 16" using m_let_go by (auto simp: leaving_def)
    then have "(\<Sum>q = 1..<n. worker_work s' q) = (\<Sum>q = 1..<n. worker_work s q) + 5"
      using m_let_go L by (intro worker_work_released) simp_all
    then show ?thesis using m_let_go by (simp add: run_work_def)
  next
    case (m_stop i)
    then show ?thesis by (simp add: run_work_def)
  qed
qed

section \<open>Nobody is stuck\<close>

definition run_final :: "nat \<Rightarrow> omp_run \<Rightarrow> bool" where
  "run_final n s \<longleftrightarrow> at_master s = M_stop \<and> (\<forall>q. 1 \<le> q \<longrightarrow> q < n \<longrightarrow> at_worker s q = W_gone)"

lemma worker_can:
  "phase_of s q = Called \<Longrightarrow> \<exists>s'. worker_step q s s'"
  "phase_of s q = Arriving \<Longrightarrow> tcdm (rt s) (MASTER_FLAG q) = 0 \<Longrightarrow> \<exists>s'. worker_step q s s'"
  by (cases "at_worker s q"; force simp: phase_of_def split: if_splits intro: worker_step.intros)+

lemma run_progress:
  assumes "run_inv n prog s" "\<forall>r \<in> set prog. 0 \<le> sint (snd (snd r))" "\<not> run_final n s"
  shows "\<exists>s'. run_step n s s'"
proof -
  obtain ds cur where inv: "pc_inv n prog ds cur s (at_master s)" using assms(1) by (auto simp: run_inv_def)
  have worker: ?thesis if "worker_step q s s'" "1 \<le> q" "q < n" for q s' using that run_step.intros(2) by blast
  have master: ?thesis if "master_step n s s'" for s' using that run_step.intros(1) by blast
  show ?thesis
  proof (cases "at_master s")
    case (M_start i rs)
    then have G: "1 \<le> i" "i \<le> n" "seq_ok n (length rs) (rt s)" "gathering n i s" using inv by simp_all
    show ?thesis
    proof (cases "i < n")
      case True
      then have i: "unat (proc_ids (own_team (rt s)) i) = i" "phase_of s i = Arriving"
        using G by (auto simp: seq_ok_def unat_of_nat32 gathering_def)
      then show ?thesis
        using M_start True G(1) worker_can(2) [OF i(2)] worker master m_arrived [OF M_start True refl] by metis
    qed (use M_start m_started master in blast)
  next
    case (M_seq rs)
    show ?thesis
    proof (cases rs)
      case Nil
      then show ?thesis using M_seq m_exit master by blast
    next
      case (Cons r rs')
      obtain fn args num where r: "r = (fn, args, num)" by (cases r)
      have "seq_ok n (Suc (length rs')) (rt s)" "0 \<le> sint num" using inv assms(2) M_seq Cons r by simp_all
      from fork_ok(1) [OF this] show ?thesis using M_seq Cons r m_fork master by blast
    qed
  next
    case (M_join i r rs)
    then have R: "region_inv n i (team_size n (snd (snd r))) (length rs) r cur s" "1 \<le> i" using inv by simp_all
    then have ok: "region_ok n (length rs) (fst r, fst (snd r), snd (snd r)) (rt s)" by (simp add: region_inv_def)
    note team = region_team [OF ok]
    show ?thesis
    proof (cases "i < team_size n (snd (snd r))")
      case True
      then have "worker_inv i (team_size n (snd (snd r))) r cur s i"
        using R team(3) by (simp add: region_inv_def)
      then have p: "phase_of s i = Called \<or> phase_of s i = Arriving"
        using True by (simp add: worker_inv_def region_phase_def)
      have i: "unat (proc_ids (own_team (rt s)) i) = i" "i < unat (nthreads (own_team (rt s)))" "i < n"
        using True team(1,3,5) R(2) by simp_all
      then show ?thesis
        using M_join p R(2) worker_can [of s i] worker master m_gather [OF M_join i(2) refl] by metis
    next
      case False
      obtain g where "gomp_team_end 0 (rt s) = Inr g" using join_ok [OF ok] by blast
      moreover have "\<not> i < unat (nthreads (own_team (rt s)))" using False team(1) by simp
      ultimately show ?thesis by (intro master [OF m_join [OF M_join]])
    qed
  next
    case M_stop
    then obtain q where q: "1 \<le> q" "q < n" "at_worker s q \<noteq> W_gone" using assms(3) by (auto simp: run_final_def)
    then have "phase_of s q = Called \<or> phase_of s q = Gone" using inv M_stop by (simp add: leaving_def)
    moreover have "phase_of s q \<noteq> Gone"
      using q(3) by (cases "at_worker s q") (auto simp: phase_of_def)
    ultimately show ?thesis using worker_can(1) worker q by blast
  next
    case (M_fork p i r rs)
    then show ?thesis using m_release m_forked master by blast
  next
    case (M_share r rs)
    then show ?thesis using m_share master by (cases r) blast
  next
    case (M_exit i)
    then show ?thesis using m_let_go m_stop master by blast
  qed
qed

section \<open>Whole runs\<close>

lemma run_step_inv:
  assumes "run_inv n prog s" "run_step n s s'" "\<forall>r \<in> set prog. 0 \<le> sint (snd (snd r))"
  shows "run_inv n prog s' \<and> run_work n s' < run_work n s"
  using assms(2)
proof (cases rule: run_step.cases)
  case 1
  then show ?thesis using assms run_inv_master run_work_master by blast
next
  case (2 q)
  have "phase_of s q \<noteq> Lost \<and> n \<le> 16"
  proof -
    obtain ds cur where inv: "pc_inv n prog ds cur s (at_master s)" using assms(1) by (auto simp: run_inv_def)
    have reg: "phase_of s q \<noteq> Lost \<and> n \<le> 16" if "region_inv n lo hi k r cur s" for lo hi k r
    proof -
      have "region_ok n k (fst r, fst (snd r), snd (snd r)) (rt s)" using that by (simp add: region_inv_def)
      then have "n \<le> 16" by (rule region_team(4))
      moreover have "worker_inv lo hi r cur s q" using that 2 by (simp add: region_inv_def)
      ultimately show ?thesis by (simp add: worker_inv_def region_phase_def)
    qed
    show ?thesis
      using inv 2 reg by (cases "at_master s") (auto simp: gathering_def seq_ok_def leaving_def split: if_splits)
  qed
  then show ?thesis using 2 assms run_inv_worker run_work_worker by blast
qed

lemma run_steps_inv:
  assumes "(run_step n ^^ k) s s'" "run_inv n prog s" "\<forall>r \<in> set prog. 0 \<le> sint (snd (snd r))"
  shows "run_inv n prog s' \<and> k + run_work n s' \<le> run_work n s"
  using assms(1)
proof (induction k arbitrary: s')
  case 0
  then show ?case using assms(2) by simp
next
  case (Suc k)
  then obtain s1 where "(run_step n ^^ k) s s1" "run_step n s1 s'" by auto
  then show ?case using Suc.IH run_step_inv [OF _ _ assms(3)] by fastforce
qed

lemma booted_seq_ok:
  assumes "1 \<le> unat n" "unat n \<le> 16" "unat (SHMEM_NEXT (booted n app)) + 584 * k \<le> heap_limit (booted n app)"
  shows "seq_ok (unat n) k (booted n app)"
proof -
  have f: "unat (SLAVE_FLAG q) = 0x08000000 + 4 * q" "unat (MASTER_FLAG q) = 0x08000040 + 4 * q" if "q < 16" for q
    using that by (simp_all add: SLAVE_FLAG_def MASTER_FLAG_def address_simps unat_word_ariths unat_of_nat32)
  have "SLAVE_FLAG q \<noteq> 0x08000318 \<and> MASTER_FLAG q \<noteq> 0x08000318" if "q < 16" for q
    using f [OF that] that by auto
  then show ?thesis
    using assms booted_ok [of n app]
    by (auto simp: seq_ok_def booted_def own_team_def linked_state_def reset_state_def bit_1_iff number_procs_ids demo_team_def not_less_eq_eq)
qed

lemma booted_run_inv:
  assumes "1 \<le> unat n" "unat n \<le> 16"
    "unat (SHMEM_NEXT (booted n app)) + 584 * length prog \<le> heap_limit (booted n app)"
  shows "run_inv (unat n) prog (run_start (booted n app) prog)"
proof -
  have "tcdm (booted n app) (MASTER_FLAG q) = 0" if "q < 16" for q
  proof -
    have "unat (MASTER_FLAG q) = 0x08000040 + 4 * q"
      using that by (simp add: MASTER_FLAG_def address_simps unat_word_ariths unat_of_nat32)
    then have "MASTER_FLAG q \<noteq> 0x08000208" "MASTER_FLAG q \<noteq> 0x08000318" using that by auto
    then show ?thesis by (simp add: booted_def)
  qed
  then have "gathering (unat n) 1 (run_start (booted n app) prog)"
    using assms(2) by (simp add: gathering_def run_start_def phase_of_def)
  then show ?thesis
    using booted_seq_ok [OF assms] assms(1) by (intro run_invI [of _ "[]" "[]" _ "[]"]) (simp_all add: run_start_def)
qed

lemma run_start_work: "1 \<le> n \<Longrightarrow> run_work n (run_start g prog) = length prog * (7 * n + 5) + 9 * n"
  by (simp add: run_work_def run_start_def seq_work_def worker_work_def)

lemma pc_inv_log:
  assumes "pc_inv n prog ds cur s pc"
  shows "\<exists>rest. prog = ds @ rest \<and> distinct cur \<and> set cur \<subseteq> (case rest of [] \<Rightarrow> {} | r # _ \<Rightarrow> tasks n r)"
  using assms by (cases pc) (auto simp: region_inv_def)

text \<open>C1: on up to 16 processors, with a runtime set up by \<open>omp_initenv\<close> (which needs the initial values of the variables of \<open>lock.c\<close>), requests
  for a number of threads that are not negative, and room in the shared heap for
  the descriptors, in every interleaving of the master's program with the worker loops the
  parallel regions are executed one after another: when a share of a region is executed all shares
  of the regions before it have been, each share of a region is executed at most once, only by processors of
  its team (the number asked for, or all), with the function and the argument of the region; when the
  master stops, every share of every region has been executed exactly once.\<close>

theorem fork_join_runs_program:
  assumes "1 \<le> unat n" "unat n \<le> 16" "omp_initenv n app (linked_state n) = Inr g"
    and "\<forall>r \<in> set prog. 0 \<le> sint (snd (snd r))"
    and "unat (SHMEM_NEXT g) + 584 * length prog \<le> heap_limit g"
    and "(run_step (unat n))\<^sup>*\<^sup>* (run_start g prog) s"
  shows "(\<exists>ds rest prev cur. prog = ds @ rest \<and> whole (unat n) ds prev \<and> shares s = prev @ cur \<and> distinct cur \<and>
      set cur \<subseteq> (case rest of [] \<Rightarrow> {} | r # _ \<Rightarrow> tasks (unat n) r)) \<and>
    (at_master s = M_stop \<longrightarrow> whole (unat n) prog (shares s))"
proof -
  have g: "g = booted n app" using omp_initenv_eq [of n app] assms(1-3) by simp
  obtain k where "(run_step (unat n) ^^ k) (run_start g prog) s"
    using assms(6) by (auto dest: rtranclp_imp_relpowp)
  from run_steps_inv [OF this _ assms(4)] have "run_inv (unat n) prog s"
    using booted_run_inv [OF assms(1,2)] assms(5) g by blast
  then obtain ds prev cur where inv: "whole (unat n) ds prev" "shares s = prev @ cur"
      "pc_inv (unat n) prog ds cur s (at_master s)" by (auto simp: run_inv_def)
  moreover have "at_master s = M_stop \<longrightarrow> whole (unat n) prog (shares s)" using inv by auto
  ultimately show ?thesis using pc_inv_log [OF inv(3)] by blast
qed

definition demo_program :: "region list" where
  "demo_program = [(0x100, 0x200, 3), (0x300, 0, 0)]"

lemma demo_room: "unat (SHMEM_NEXT (booted 4 0x8000)) + 584 * length demo_program \<le> heap_limit (booted 4 0x8000)"
  "\<forall>r \<in> set demo_program. 0 \<le> sint (snd (snd r))"
  by (simp_all add: booted_def heap_limit_def linked_state_def reset_state_def demo_program_def)

theorem fork_join_runs_program_witness:
  "\<exists>s. run_step (unat (4::u32)) (run_start (booted 4 0x8000) demo_program) s \<and>
    (\<exists>ds rest prev cur. demo_program = ds @ rest \<and> whole (unat (4::u32)) ds prev \<and> shares s = prev @ cur \<and>
      distinct cur \<and> set cur \<subseteq> (case rest of [] \<Rightarrow> {} | r # _ \<Rightarrow> tasks (unat (4::u32)) r)) \<and>
    (at_master s = M_stop \<longrightarrow> whole (unat (4::u32)) demo_program (shares s))"
proof -
  let ?s = "run_start (booted 4 0x8000) demo_program"
  obtain s where s: "run_step (unat (4::u32)) ?s s"
    using run_step.intros(2) [OF _ _ w_enter, of 1 "unat (4::u32)" ?s] by (auto simp: run_start_def)
  from fork_join_runs_program [of 4 "0x8000" "booted 4 0x8000" demo_program s] s show ?thesis
    using omp_initenv_eq [of 4 "0x8000"] demo_room by (intro exI [of _ s]) auto
qed

text \<open>C2: under the same conditions no run of the processors gets stuck and none goes on for ever: a run
  has at most \<open>7n + 5\<close> steps for each region and \<open>9n\<close> more, and a state in which no processor can
  make a step is one in which the master has stopped, every worker has left its loop and every share of every
  region has been executed. Reads of a flag that has not changed are no steps.\<close>

theorem runs_end:
  assumes "1 \<le> unat n" "unat n \<le> 16" "omp_initenv n app (linked_state n) = Inr g"
    and "\<forall>r \<in> set prog. 0 \<le> sint (snd (snd r))"
    and "unat (SHMEM_NEXT g) + 584 * length prog \<le> heap_limit g"
    and "(run_step (unat n) ^^ k) (run_start g prog) s"
  shows "k \<le> length prog * (7 * unat n + 5) + 9 * unat n \<and>
    ((\<exists>s'. run_step (unat n) s s') \<or> run_final (unat n) s \<and> whole (unat n) prog (shares s))"
proof -
  have g: "g = booted n app" using omp_initenv_eq [of n app] assms(1-3) by simp
  have inv: "run_inv (unat n) prog s" "k + run_work (unat n) s \<le> run_work (unat n) (run_start g prog)"
    using run_steps_inv [OF assms(6) _ assms(4)] booted_run_inv [OF assms(1,2)] assms(5) g by blast+
  have "run_final (unat n) s \<Longrightarrow> whole (unat n) prog (shares s)"
    using inv(1) by (auto simp: run_inv_def run_final_def)
  then show ?thesis
    using inv run_start_work [OF assms(1)] run_progress [OF inv(1) assms(4)] by fastforce
qed

theorem runs_end_witness:
  "\<exists>k s. (run_step (unat (4::u32)) ^^ k) (run_start (booted 4 0x8000) demo_program) s \<and>
    run_final (unat (4::u32)) s \<and> whole (unat (4::u32)) demo_program (shares s)"
proof (rule ccontr)
  assume no: "\<not> ?thesis"
  have e: "k \<le> length demo_program * (7 * unat (4::u32) + 5) + 9 * unat (4::u32) \<and> (\<exists>s'. run_step (unat (4::u32)) s s')"
    if "(run_step (unat (4::u32)) ^^ k) (run_start (booted 4 0x8000) demo_program) s" for k s
    using runs_end [OF _ _ _ demo_room(2) demo_room(1) that] omp_initenv_eq [of 4 "0x8000"] no that by auto
  have "\<exists>s. (run_step (unat (4::u32)) ^^ k) (run_start (booted 4 0x8000) demo_program) s" for k
  proof (induction k)
    case (Suc k)
    then obtain s where s: "(run_step (unat (4::u32)) ^^ k) (run_start (booted 4 0x8000) demo_program) s" by blast
    then obtain s' where "run_step (unat (4::u32)) s s'" using e by blast
    then show ?case using relpowp_Suc_I [OF s] by blast
  qed simp
  then obtain s where "(run_step (unat (4::u32)) ^^ 1000) (run_start (booted 4 0x8000) demo_program) s" by blast
  then show False using e by (fastforce simp: demo_program_def)
qed

end
