(* ===== verification/Pinout.thy ===== *)
theory Pinout
  imports Mem_Class
begin

text \<open>
  The bus transaction: \<open>PINOUT\<close> (\<open>virtualsoc/include/virtualsoc/core/PINOUT.h\<close>) and the
  decoding of its size field that every slave repeats.
\<close>

record pinout =
  p_address :: u32
  p_data :: u32
  p_rw :: bool
  p_fiq :: bool
  p_irq :: bool
  p_benable :: bool
  p_bw :: u32
  p_burst :: u32
  p_id :: u8

text \<open>The constructor.\<close>

definition new_pinout :: pinout where
  "new_pinout = \<lparr>p_address = 0xDEADBEEF, p_data = 0xDEADBEEF, p_rw = False, p_fiq = False,
     p_irq = False, p_benable = True, p_bw = 0, p_burst = 0, p_id = 0xFF\<rparr>"

text \<open>\<open>get_word_size\<close> of the accelerator and of the counter: the bytes of a beat, or \<open>exit(1)\<close>.\<close>

definition get_word_size :: "u32 \<Rightarrow> u32 res" where
  "get_word_size bw =
     (if bw = 0 then Inr 4 else if bw = 1 then Inr 1 else if bw = 2 then Inr 2
      else Inl (FExit 1))"

text \<open>A single word read and a single word write, as a processor issues them.\<close>

definition word_read :: "addr \<Rightarrow> pinout" where
  "word_read a = new_pinout\<lparr>p_address := a, p_rw := False, p_bw := 0, p_burst := 1\<rparr>"

definition word_write :: "addr \<Rightarrow> u32 \<Rightarrow> pinout" where
  "word_write a v = new_pinout\<lparr>p_address := a, p_data := v, p_rw := True, p_bw := 0, p_burst := 1\<rparr>"

lemma word_read_sel [simp]:
  "p_address (word_read a) = a" "p_rw (word_read a) = False" "p_bw (word_read a) = 0"
  "p_burst (word_read a) = 1"
  by (simp_all add: word_read_def)

lemma word_write_sel [simp]:
  "p_address (word_write a v) = a" "p_data (word_write a v) = v" "p_rw (word_write a v) = True"
  "p_bw (word_write a v) = 0" "p_burst (word_write a v) = 1"
  by (simp_all add: word_write_def)

lemma get_word_size_0 [simp]: "get_word_size 0 = Inr 4"
  by (simp add: get_word_size_def)

end
