(* ===== verification/Fir_App.thy ===== *)
theory Fir_App
  imports Prelude
begin

text \<open>
  The software WCDMA receiver: \<open>virtualsoc-apps/wcdma/fir.c\<close> (the FIR filter and the
  parallel region that runs it on two threads), \<open>qpsk.c\<close> (the demapper) and
  \<open>wcdma.c\<close> (the loop over the symbols). Arrays are lists with checked accesses and
  \<open>int\<close> values are 32-bit words; the order in which the threads of the parallel region
  run is a parameter, the list of their numbers.
\<close>

section \<open>The filter\<close>

text \<open>\<open>parallelFir\<close>: the inner loop over the taps \<open>js\<close> and the outer loop over the outputs \<open>is\<close>.\<close>

fun fir_taps :: "u32 list \<Rightarrow> nat \<Rightarrow> u32 list \<Rightarrow> nat \<Rightarrow> nat list \<Rightarrow> u32 list \<Rightarrow> u32 list res" where
  "fir_taps fc fs data i [] result = Inr result"
| "fir_taps fc fs data i (j # js) result =
     res_bind (array_get result i) (\<lambda>r.
     res_bind (array_get fc j) (\<lambda>f.
     res_bind (array_get data (i + fs - j)) (\<lambda>d.
     res_bind (array_set result i (r + f * d)) (fir_taps fc fs data i js))))"

fun fir_rows :: "u32 list \<Rightarrow> nat \<Rightarrow> u32 list \<Rightarrow> nat list \<Rightarrow> u32 list \<Rightarrow> u32 list res" where
  "fir_rows fc fs data [] result = Inr result"
| "fir_rows fc fs data (i # is) result =
     res_bind (array_set result i 0) (\<lambda>r.
     res_bind (fir_taps fc fs data i [0..<fs] r) (fir_rows fc fs data is))"

definition parallelFir :: "u32 list \<Rightarrow> nat \<Rightarrow> u32 list \<Rightarrow> nat \<Rightarrow> u32 list \<Rightarrow> u32 list res" where
  "parallelFir fc fs data ds result = fir_rows fc fs data [0..<ds] result"

text \<open>
  \<open>fir\<close>: the threads of the parallel region, in the order \<open>tids\<close> in which they run;
  thread 1 filters the I samples, thread 2 the Q samples.
\<close>

fun fir :: "nat list \<Rightarrow> u32 list \<Rightarrow> nat \<Rightarrow> u32 list \<Rightarrow> u32 list \<Rightarrow> nat \<Rightarrow>
    u32 list \<times> u32 list \<Rightarrow> (u32 list \<times> u32 list) res" where
  "fir [] fc fs dI dQ ds (rI, rQ) = Inr (rI, rQ)"
| "fir (myId # tids) fc fs dI dQ ds (rI, rQ) =
     (if myId = 1
      then res_bind (parallelFir fc fs dI ds rI) (\<lambda>r. fir tids fc fs dI dQ ds (r, rQ))
      else if myId = 2
      then res_bind (parallelFir fc fs dQ ds rQ) (\<lambda>r. fir tids fc fs dI dQ ds (rI, r))
      else fir tids fc fs dI dQ ds (rI, rQ))"

section \<open>The demapper\<close>

text \<open>\<open>QPSKinv\<close> writes from the element \<open>base\<close> of the array its last argument points into.\<close>

function qpsk_loop :: "u32 list \<Rightarrow> u32 list \<Rightarrow> nat \<Rightarrow> nat \<Rightarrow> nat \<Rightarrow> u32 list \<Rightarrow> u32 list res" where
  "qpsk_loop dI dQ ds i offset result =
     (if i < ds
      then res_bind (array_get dI i) (\<lambda>x.
           res_bind (array_set result offset x) (\<lambda>r.
           res_bind (array_get dQ i) (\<lambda>y.
           res_bind (array_set r (offset + 1) y) (\<lambda>r'.
           qpsk_loop dI dQ ds (i + 4) (offset + 2) r'))))
      else Inr result)"
  by pat_completeness auto
termination by (relation "measure (\<lambda>(dI, dQ, ds, i, offset, result). ds - i)") auto

declare qpsk_loop.simps [simp del]

definition QPSKinv :: "u32 list \<Rightarrow> u32 list \<Rightarrow> nat \<Rightarrow> nat \<Rightarrow> u32 list \<Rightarrow> u32 list res" where
  "QPSKinv dI dQ ds base result = qpsk_loop dI dQ ds 0 base result"

section \<open>The receiver\<close>

definition NB_SYMBOL :: nat where "NB_SYMBOL = 64"
definition SAMPLING_FACTOR :: nat where "SAMPLING_FACTOR = 4"
definition SF :: nat where "SF = 8"
definition FILTER_NB_CELL :: nat where "FILTER_NB_CELL = 64"
definition bufferSize :: nat where "bufferSize = SF div 2 * SAMPLING_FACTOR"
definition ovsf_code_user1 :: "u32 list" where
  "ovsf_code_user1 = [-1, -1, 1, 1, -1, -1, 1, 1]"

record rx =
  Signal_I_symb :: "u32 list"
  Signal_Q_symb :: "u32 list"
  Signal_I_filtered :: "u32 list"
  Signal_Q_filtered :: "u32 list"
  Signal :: "u32 list"

definition rx_init :: rx where
  "rx_init = \<lparr>Signal_I_symb = replicate 80 0, Signal_Q_symb = replicate 80 0,
     Signal_I_filtered = replicate bufferSize 0, Signal_Q_filtered = replicate bufferSize 0,
     Signal = replicate 16 0\<rparr>"

definition array_move :: "nat \<Rightarrow> nat \<Rightarrow> u32 list \<Rightarrow> u32 list res" where
  "array_move to from a = res_bind (array_get a from) (array_set a to)"

text \<open>One turn of the buffer loop, for one of the two buffers: the four moves and the new sample.\<close>

definition shift_sample :: "u32 list \<Rightarrow> nat \<Rightarrow> nat \<Rightarrow> u32 list \<Rightarrow> u32 list res" where
  "shift_sample sig iSymbol b symb =
     res_bind (array_move b (b + 16) symb) (\<lambda>s.
     res_bind (array_move (b + 16) (b + 32) s) (\<lambda>s.
     res_bind (array_move (b + 32) (b + 48) s) (\<lambda>s.
     res_bind (array_move (b + 48) (b + 64) s) (\<lambda>s.
     res_bind (array_get sig (b + iSymbol * SF div 2 * SAMPLING_FACTOR)) (\<lambda>v.
     array_set s (b + 64) v)))))"

fun shift_buffers :: "u32 list \<Rightarrow> u32 list \<Rightarrow> nat \<Rightarrow> nat list \<Rightarrow> u32 list \<times> u32 list \<Rightarrow>
    (u32 list \<times> u32 list) res" where
  "shift_buffers sigI sigQ iSymbol [] st = Inr st"
| "shift_buffers sigI sigQ iSymbol (b # bs) (sI, sQ) =
     res_bind (shift_sample sigI iSymbol b sI) (\<lambda>sI'.
     res_bind (shift_sample sigQ iSymbol b sQ) (\<lambda>sQ'.
     shift_buffers sigI sigQ iSymbol bs (sI', sQ')))"

text \<open>The loop that keeps the last half of \<open>Signal\<close>: it runs over the even positions only.\<close>

function keep_half :: "nat \<Rightarrow> u32 list \<Rightarrow> u32 list res" where
  "keep_half i sg =
     (if i < bufferSize div 2
      then res_bind (array_move i (i + bufferSize div 2) sg) (keep_half (i + 2))
      else Inr sg)"
  by pat_completeness auto
termination by (relation "measure (\<lambda>(i, sg). bufferSize div 2 - i)") auto

declare keep_half.simps [simp del]

text \<open>The RAKE receiver of \<open>wcdma.c\<close>, a loop over the code, and its unrolled form in \<open>wcdma_hw\<close>.\<close>

fun rake :: "u32 list \<Rightarrow> u32 list \<Rightarrow> nat list \<Rightarrow> u32 \<Rightarrow> u32 res" where
  "rake sg code [] bt = Inr bt"
| "rake sg code (p # ps) bt =
     res_bind (array_get code p) (\<lambda>c.
     res_bind (array_get sg p) (\<lambda>s0.
     res_bind (array_get sg (p + 1)) (\<lambda>s1.
     res_bind (array_get sg (p + 2)) (\<lambda>s2.
     res_bind (array_get sg (p + 3)) (\<lambda>s3.
     res_bind (array_get sg (p + 4)) (\<lambda>s4.
     res_bind (array_get sg (p + 5)) (\<lambda>s5.
     rake sg code ps (bt + (s0 * c + s1 * c + s2 * c + s3 * c + s4 * c + s5 * c)))))))))"

definition rake_unrolled :: "u32 list \<Rightarrow> u32" where
  "rake_unrolled s = - (s ! 0) - 2 * s ! 1 - s ! 2 + 2 * s ! 7 + s ! 8 - s ! 4 - 2 * s ! 5
     + s ! 10 + 2 * s ! 11 + s ! 12"

text \<open>One symbol; the value is the bit that is printed, none for the first symbol.\<close>

definition receive_symbol ::
    "nat list \<Rightarrow> u32 list \<Rightarrow> u32 list \<Rightarrow> u32 list \<Rightarrow> nat \<Rightarrow> rx \<Rightarrow> (bool list \<times> rx) res" where
  "receive_symbol tids coeff sigI sigQ iSymbol st =
     res_bind (shift_buffers sigI sigQ iSymbol [0..<bufferSize] (Signal_I_symb st, Signal_Q_symb st))
       (\<lambda>(sI, sQ).
     res_bind (fir tids coeff FILTER_NB_CELL sI sQ bufferSize (Signal_I_filtered st, Signal_Q_filtered st))
       (\<lambda>(fI, fQ).
     res_bind (keep_half 0 (Signal st)) (\<lambda>sg.
     res_bind (QPSKinv fI fQ (bufferSize div 2) 8 sg) (\<lambda>sg'.
     let st' = \<lparr>Signal_I_symb = sI, Signal_Q_symb = sQ, Signal_I_filtered = fI,
       Signal_Q_filtered = fQ, Signal = sg'\<rparr> in
     if iSymbol \<noteq> 0
     then res_map (\<lambda>bt. ([0 <s bt], st')) (rake sg' ovsf_code_user1 [0..<SF] 0)
     else Inr ([], st')))))"

fun receive :: "nat list \<Rightarrow> u32 list \<Rightarrow> u32 list \<Rightarrow> u32 list \<Rightarrow> nat list \<Rightarrow> rx \<Rightarrow> (bool list \<times> rx) res" where
  "receive tids coeff sigI sigQ [] st = Inr ([], st)"
| "receive tids coeff sigI sigQ (k # ks) st =
     res_bind (receive_symbol tids coeff sigI sigQ k st) (\<lambda>(b, st').
     res_map (\<lambda>(bs, st''). (b @ bs, st'')) (receive tids coeff sigI sigQ ks st'))"

text \<open>\<open>_app_main\<close>: the printed bits, or none on another processor than the first.\<close>

definition wcdma_main :: "nat \<Rightarrow> nat list \<Rightarrow> u32 list \<Rightarrow> u32 list \<Rightarrow> u32 list \<Rightarrow> bool list option res" where
  "wcdma_main num_proc tids coeff sigI sigQ =
     (if num_proc = 1
      then res_map (\<lambda>(bs, st). Some bs) (receive tids coeff sigI sigQ [0..<NB_SYMBOL] rx_init)
      else Inr None)"

section \<open>What the filter computes\<close>

definition tap_sum :: "u32 list \<Rightarrow> nat \<Rightarrow> u32 list \<Rightarrow> nat \<Rightarrow> u32" where
  "tap_sum fc fs data i = (\<Sum>j < fs. fc ! j * data ! (i + fs - j))"

definition fir_fits :: "u32 list \<Rightarrow> nat \<Rightarrow> u32 list \<Rightarrow> nat \<Rightarrow> u32 list \<Rightarrow> bool" where
  "fir_fits fc fs data ds result \<longleftrightarrow>
     ds \<le> length result \<and> (ds = 0 \<or> fs = 0 \<or> fs \<le> length fc \<and> ds + fs \<le> length data)"

lemma array_res:
  "array_get a i = Inr v \<longleftrightarrow> i < length a \<and> v = a ! i"
  "array_get a i = Inl e \<longleftrightarrow> length a \<le> i \<and> e = FUndef"
  "array_set a i x = Inr b \<longleftrightarrow> i < length a \<and> b = a[i := x]"
  "array_set a i x = Inl e \<longleftrightarrow> length a \<le> i \<and> e = FUndef"
  by (auto simp: array_get_def array_set_def)

lemma fir_taps_eq:
  "i < length result \<Longrightarrow> fs \<le> length fc \<Longrightarrow> i + fs < length data \<Longrightarrow> \<forall>j \<in> set js. j < fs \<Longrightarrow>
   fir_taps fc fs data i js result =
     Inr (result[i := result ! i + (\<Sum>j \<leftarrow> js. fc ! j * data ! (i + fs - j))])"
  by (induction js arbitrary: result) (auto simp: algebra_simps)

lemma fir_taps_Inr:
  "fir_taps fc fs data i js result = Inr r \<Longrightarrow> j \<in> set js \<Longrightarrow> j < length fc \<and> i + fs - j < length data"
  by (induction js arbitrary: result) (auto simp: array_res)

lemma fir_taps_Inl: "fir_taps fc fs data i js result = Inl e \<Longrightarrow> e = FUndef"
  by (induction js arbitrary: result) (auto simp: array_res res_bind_eq_Inl)

lemma fir_taps_length: "fir_taps fc fs data i js result = Inr r \<Longrightarrow> length r = length result"
  by (induction js arbitrary: result) (auto simp: array_res)

lemma fir_rows_Inl: "fir_rows fc fs data is result = Inl e \<Longrightarrow> e = FUndef"
  by (induction "is" arbitrary: result) (auto simp: array_res res_bind_eq_Inl dest: fir_taps_Inl)

lemma fir_rows_Inr:
  "fir_rows fc fs data is result = Inr r \<Longrightarrow> i \<in> set is \<Longrightarrow>
   i < length result \<and> (\<forall>j < fs. j < length fc \<and> i + fs - j < length data)"
proof (induction "is" arbitrary: result)
  case (Cons k ks)
  then obtain a b where a: "array_set result k 0 = Inr a"
    "fir_taps fc fs data k [0..<fs] a = Inr b" "fir_rows fc fs data ks b = Inr r" by auto
  have l: "length b = length result" using a fir_taps_length by (fastforce simp: array_res)
  show ?case
  proof (cases "i = k")
    case True
    then show ?thesis using a fir_taps_Inr [OF a(2)] by (auto simp: array_res)
  next
    case False
    then show ?thesis using Cons.IH [OF a(3)] Cons.prems(2) l by simp
  qed
qed simp

lemma tap_sum_list: "(\<Sum>j \<leftarrow> [0..<fs]. fc ! j * data ! (i + fs - j)) = tap_sum fc fs data i"
  by (simp add: tap_sum_def sum_list_distinct_conv_sum_set atLeast0LessThan)

lemma fir_rows_eq:
  "n \<le> length result \<Longrightarrow> n = 0 \<or> fs = 0 \<or> fs \<le> length fc \<and> n + fs \<le> length data \<Longrightarrow>
   fir_rows fc fs data [0..<n] result = Inr (map (tap_sum fc fs data) [0..<n] @ drop n result)"
proof (induction n)
  case (Suc n)
  have app: "fir_rows fc fs data (xs @ ys) =
      (\<lambda>r. res_bind (fir_rows fc fs data xs r) (fir_rows fc fs data ys))" for xs ys
    by (induction xs) (auto simp: res_bind_assoc)
  let ?r = "(map (tap_sum fc fs data) [0..<n] @ drop n result)[n := 0]"
  have len: "length (map (tap_sum fc fs data) [0..<n] @ drop n result) = length result"
    using Suc.prems by simp
  have tap: "fir_taps fc fs data n [0..<fs] ?r = Inr (?r[n := tap_sum fc fs data n])"
  proof (cases "fs = 0")
    case True
    then show ?thesis by (simp add: tap_sum_def)
  next
    case False
    then show ?thesis using Suc.prems len
      by (subst fir_taps_eq) (auto simp: tap_sum_list)
  qed
  have "fir_rows fc fs data [0..<Suc n] result =
      Inr ((map (tap_sum fc fs data) [0..<n] @ drop n result)[n := tap_sum fc fs data n])"
    using Suc len tap by (auto simp: app)
  also have "(map (tap_sum fc fs data) [0..<n] @ drop n result)[n := tap_sum fc fs data n] =
      map (tap_sum fc fs data) [0..<Suc n] @ drop (Suc n) result"
    using Suc.prems by (auto simp: list_update_append Cons_nth_drop_Suc [symmetric])
  finally show ?case .
qed simp

lemma parallelFir_eq:
  "parallelFir fc fs data ds result =
    (if fir_fits fc fs data ds result
     then Inr (map (tap_sum fc fs data) [0..<ds] @ drop ds result) else Inl FUndef)"
proof (cases "fir_fits fc fs data ds result")
  case True
  then show ?thesis by (simp add: parallelFir_def fir_rows_eq fir_fits_def)
next
  case False
  show ?thesis
  proof (cases "fir_rows fc fs data [0..<ds] result")
    case (Inl e)
    then show ?thesis using False fir_rows_Inl by (auto simp: parallelFir_def)
  next
    case (Inr r)
    have "ds \<le> length result"
      using fir_rows_Inr [OF Inr, of "ds - 1"] by (cases ds) auto
    moreover have "fs \<le> length fc \<and> ds + fs \<le> length data" if "ds \<noteq> 0" "fs \<noteq> 0"
    proof -
      have k: "\<forall>j < fs. j < length fc \<and> ds - 1 + fs - j < length data"
        using fir_rows_Inr [OF Inr, of "ds - 1"] that by simp
      show ?thesis using k [rule_format, of "fs - 1"] k [rule_format, of 0] that by auto
    qed
    ultimately show ?thesis using False by (auto simp: fir_fits_def)
  qed
qed

text \<open>\<open>parallelFir\<close> writes, at every position below \<open>dataSize\<close>, the sum of the products of the
  coefficients with the samples that precede it, and leaves the rest of the result as it was; it
  does so exactly when the arrays have the sizes its comment asks for, a window of
  \<open>dataSize + filterSize\<close> samples, and reads or writes outside an array otherwise.\<close>

theorem parallelFir_filters:
  "parallelFir fc fs data ds result =
    (if fir_fits fc fs data ds result
     then Inr (map (tap_sum fc fs data) [0..<ds] @ drop ds result) else Inl FUndef)"
  by (rule parallelFir_eq)

lemma fir_eq:
  assumes "fir_fits fc fs dI ds rI" "fir_fits fc fs dQ ds rQ"
  shows "fir tids fc fs dI dQ ds (rI, rQ) =
    Inr (if 1 \<in> set tids then map (tap_sum fc fs dI) [0..<ds] @ drop ds rI else rI,
         if 2 \<in> set tids then map (tap_sum fc fs dQ) [0..<ds] @ drop ds rQ else rQ)"
  using assms
proof (induction tids arbitrary: rI rQ)
  case (Cons t tids)
  have fits: "fir_fits fc fs d ds (map (tap_sum fc fs d) [0..<ds] @ drop ds r)"
    if "fir_fits fc fs d ds r" for d r using that by (auto simp: fir_fits_def)
  show ?case using Cons.prems fits
    by (auto simp: Cons.IH parallelFir_eq fir_fits_def)
qed simp

lemma qpsk_loop_eq:
  "off + 2 * ((ds - i + 3) div 4) \<le> length result \<Longrightarrow> ds \<le> length dI \<Longrightarrow> ds \<le> length dQ \<Longrightarrow>
   qpsk_loop dI dQ ds i off result =
     Inr (map (\<lambda>p. if off \<le> p \<and> p < off + 2 * ((ds - i + 3) div 4)
                  then (if even (p - off) then dI else dQ) ! (i + 4 * ((p - off) div 2))
                  else result ! p) [0..<length result])"
proof (induction dI dQ ds i off result rule: qpsk_loop.induct)
  case (1 dI dQ ds i off result)
  show ?case
  proof (cases "i < ds")
    case False
    then show ?thesis by (subst qpsk_loop.simps) (auto intro!: nth_equalityI)
  next
    case True
    have m: "(ds - i + 3) div 4 = Suc ((ds - (i + 4) + 3) div 4)"
    proof (cases "4 \<le> ds - i")
      case True
      then have "ds - i + 3 = (ds - (i + 4) + 3) + 4" by simp
      then show ?thesis by (simp only: div_add_self2)
    next
      case False
      then have "ds - i = 1 \<or> ds - i = 2 \<or> ds - i = 3" using \<open>i < ds\<close> by linarith
      then show ?thesis by auto
    qed
    let ?r = "result[off := dI ! i, off + 1 := dQ ! i]"
    have step: "qpsk_loop dI dQ ds i off result = qpsk_loop dI dQ ds (i + 4) (off + 2) ?r"
    proof -
      have "off + 1 < length result" using 1(2) unfolding m by simp
      then show ?thesis using 1(3,4) True by (simp add: qpsk_loop.simps [of dI dQ ds i off result])
    qed
    show ?thesis unfolding step
    proof (subst 1(1) [OF True, of "?r"])
      show "off + 2 + 2 * ((ds - (i + 4) + 3) div 4) \<le> length ?r" using 1(2) unfolding m by simp
      show "Inr (map (\<lambda>p. if off + 2 \<le> p \<and> p < off + 2 + 2 * ((ds - (i + 4) + 3) div 4)
            then (if even (p - (off + 2)) then dI else dQ) ! (i + 4 + 4 * ((p - (off + 2)) div 2))
            else ?r ! p) [0..<length ?r]) =
          Inr (map (\<lambda>p. if off \<le> p \<and> p < off + 2 * ((ds - i + 3) div 4)
            then (if even (p - off) then dI else dQ) ! (i + 4 * ((p - off) div 2))
            else result ! p) [0..<length result])"
        unfolding m
      proof (rule arg_cong [where f = Inr], rule nth_equalityI, goal_cases)
        case (2 p)
        then have "p < length result" by simp
        consider "p < off" | "p = off" | "p = off + 1" | "off + 2 \<le> p" by linarith
        then show ?case
        proof cases
          case 4
          then obtain c where "p = off + 2 + c" using le_Suc_ex by blast
          then show ?thesis using \<open>p < length result\<close> by (simp add: add.assoc)
        qed (use \<open>p < length result\<close> in auto)
      qed simp
    qed (use 1(2-) in \<open>simp_all add: m\<close>)
  qed
qed

section \<open>The shifting of the buffers\<close>

lemma shift_sample_eq:
  assumes "length s = 80" "b < 16" "b + 16 * k < length sig"
  shows "shift_sample sig k b s =
    Inr (s[b := s ! (b + 16), b + 16 := s ! (b + 32), b + 32 := s ! (b + 48),
           b + 48 := s ! (b + 64), b + 64 := sig ! (b + 16 * k)])"
  using assms by (simp add: shift_sample_def array_move_def SF_def SAMPLING_FACTOR_def mult.commute)

definition shifted :: "u32 list \<Rightarrow> nat \<Rightarrow> u32 list \<Rightarrow> nat \<Rightarrow> u32 list" where
  "shifted sig k s n = map (\<lambda>i. if i mod 16 < n
     then (if i < 64 then s ! (i + 16) else sig ! (i - 64 + 16 * k)) else s ! i) [0..<80]"

lemma shift_sample_shifted:
  assumes "n < 16" "16 * k + 16 \<le> length sig" "length s = 80"
  shows "shift_sample sig k n (shifted sig k s n) = Inr (shifted sig k s (Suc n))"
proof -
  have nth: "shifted sig k s m ! i = (if i mod 16 < m
     then (if i < 64 then s ! (i + 16) else sig ! (i - 64 + 16 * k)) else s ! i)" if "i < 80" for m i
    using that by (simp add: shifted_def)
  have mods: "(n + 16) mod 16 = n" "(n + 32) mod 16 = n" "(n + 48) mod 16 = n" "(n + 64) mod 16 = n"
  proof -
    have "(n + 16 * q) mod 16 = n" for q using assms(1) by simp
    from this [of 1] this [of 2] this [of 3] this [of 4]
    show "(n + 16) mod 16 = n" "(n + 32) mod 16 = n" "(n + 48) mod 16 = n" "(n + 64) mod 16 = n"
      by simp_all
  qed
  have len: "length (shifted sig k s m) = 80" for m by (simp add: shifted_def)
  have "(shifted sig k s n)[n := s ! (n + 16), n + 16 := s ! (n + 32), n + 32 := s ! (n + 48),
           n + 48 := s ! (n + 64), n + 64 := sig ! (n + 16 * k)] = shifted sig k s (Suc n)"
    (is "?l = ?r")
  proof (rule nth_equalityI)
    fix i assume "i < length ?l"
    then have i: "i < 80" by (simp add: len)
    have "i div 16 = 0 \<or> i div 16 = 1 \<or> i div 16 = 2 \<or> i div 16 = 3 \<or> i div 16 = 4"
      using i by linarith
    moreover have "i = 16 * (i div 16) + i mod 16" by simp
    ultimately consider "i mod 16 \<noteq> n" | "i = n" | "i = n + 16" | "i = n + 32" | "i = n + 48" | "i = n + 64"
      by fastforce
    then show "?l ! i = ?r ! i"
    proof cases
      case 1
      then have "i \<noteq> n" "i \<noteq> n + 16" "i \<noteq> n + 32" "i \<noteq> n + 48" "i \<noteq> n + 64"
        using assms(1) mods by auto
      then show ?thesis using 1 i by (simp add: nth less_Suc_eq)
    qed (use assms(1) in \<open>simp_all add: nth len mods add.commute\<close>)
  qed (simp add: len)
  then show ?thesis using assms by (simp add: shift_sample_eq len nth mods)
qed

lemma shift_buffers_shifted:
  assumes "16 * k + 16 \<le> length sigI" "16 * k + 16 \<le> length sigQ" "length sI = 80" "length sQ = 80"
  shows "m \<le> 16 \<Longrightarrow> shift_buffers sigI sigQ k [16 - m..<16]
    (shifted sigI k sI (16 - m), shifted sigQ k sQ (16 - m)) = Inr (shifted sigI k sI 16, shifted sigQ k sQ 16)"
proof (induction m)
  case (Suc m)
  have "[16 - Suc m..<16] = (16 - Suc m) # [16 - m..<16]"
  proof -
    have "Suc (16 - Suc m) = 16 - m" using Suc.prems by simp
    then show ?thesis using upt_conv_Cons [of "16 - Suc m" 16] by (simp del: upt.simps)
  qed
  moreover have "Suc (16 - Suc m) = 16 - m" using Suc.prems by simp
  ultimately show ?case using Suc assms by (simp add: shift_sample_shifted)
qed simp

lemma shifted_ends:
  assumes "length s = 80" "16 * k + 16 \<le> length sig"
  shows "shifted sig k s 0 = s"
    and "shifted sig k s 16 = map (\<lambda>i. if i < 64 then s ! (i + 16) else sig ! (i - 64 + 16 * k)) [0..<80]"
  using assms by (auto simp: shifted_def map_nth [of s, unfolded assms(1)])

lemma shift_buffers_eq:
  assumes "16 * k + 16 \<le> length sigI" "16 * k + 16 \<le> length sigQ" "length sI = 80" "length sQ = 80"
  shows "shift_buffers sigI sigQ k [0..<bufferSize] (sI, sQ) =
    Inr (shifted sigI k sI 16, shifted sigQ k sQ 16)"
  using shift_buffers_shifted [OF assms, of 16] shifted_ends(1) assms
  by (simp add: bufferSize_def SF_def SAMPLING_FACTOR_def)

lemma keep_half_eq:
  "keep_half 0 [a0, a1, a2, a3, a4, a5, a6, a7, b0, b1, b2, b3, b4, b5, b6, b7] =
    Inr [b0, a1, b2, a3, b4, a5, b6, a7, b0, b1, b2, b3, b4, b5, b6, b7]"
  by (simp add: keep_half.simps bufferSize_def SF_def SAMPLING_FACTOR_def array_move_def)

lemma upt_SF: "[0..<SF] = [0, 1, 2, 3, 4, 5, 6, 7]"
  by code_simp

lemma rake_eq:
  assumes "13 \<le> length sg"
  shows "rake sg ovsf_code_user1 [0..<SF] 0 = Inr (rake_unrolled sg)"
proof -
  have "0 < length sg" "Suc (Suc 0) = 2" using assms by auto
  then show ?thesis using assms
  by (simp add: upt_SF eval_nat_numeral ovsf_code_user1_def rake_unrolled_def algebra_simps)
qed

section \<open>The receiver against a convolution of the whole stream\<close>

text \<open>The samples of a stream, 0 before it begins, and its convolution with the coefficients.\<close>

definition sample :: "u32 list \<Rightarrow> int \<Rightarrow> u32" where
  "sample sig n = (if 0 \<le> n \<and> nat n < length sig then sig ! nat n else 0)"

definition conv :: "u32 list \<Rightarrow> u32 list \<Rightarrow> int \<Rightarrow> u32" where
  "conv coeff sig n = (\<Sum>j < 64. coeff ! j * sample sig (n - int j))"

definition filtered :: "bool \<Rightarrow> u32 list \<Rightarrow> u32 list \<Rightarrow> int \<Rightarrow> u32" where
  "filtered on coeff sig n = (if on then conv coeff sig n else 0)"

text \<open>The state before symbol \<open>k\<close>, written as a function of the streams.\<close>

definition window :: "u32 list \<Rightarrow> nat \<Rightarrow> u32 list" where
  "window sig k = map (\<lambda>i. sample sig (16 * int k + int i - 80)) [0..<80]"

definition block16 :: "bool \<Rightarrow> u32 list \<Rightarrow> u32 list \<Rightarrow> nat \<Rightarrow> u32 list" where
  "block16 on coeff sig k = map (\<lambda>i. filtered on coeff sig (16 * int k - 16 + int i)) [0..<16]"

definition rx_at :: "nat list \<Rightarrow> u32 list \<Rightarrow> u32 list \<Rightarrow> u32 list \<Rightarrow> nat \<Rightarrow> rx" where
  "rx_at tids coeff sigI sigQ k =
     (let yI = filtered (1 \<in> set tids) coeff sigI; yQ = filtered (2 \<in> set tids) coeff sigQ;
          n = 16 * int k in
      \<lparr>Signal_I_symb = window sigI k, Signal_Q_symb = window sigQ k,
       Signal_I_filtered = block16 (1 \<in> set tids) coeff sigI k,
       Signal_Q_filtered = block16 (2 \<in> set tids) coeff sigQ k,
       Signal = [yI (n - 32), 0, yI (n - 28), 0, 0, 0, 0, 0,
                 yI (n - 16), yQ (n - 16), yI (n - 12), yQ (n - 12), 0, 0, 0, 0]\<rparr>)"

definition decision :: "nat list \<Rightarrow> u32 list \<Rightarrow> u32 list \<Rightarrow> u32 list \<Rightarrow> nat \<Rightarrow> bool" where
  "decision tids coeff sigI sigQ k =
     (let yI = filtered (1 \<in> set tids) coeff sigI; yQ = filtered (2 \<in> set tids) coeff sigQ;
          n = 16 * int k in
      0 <s - yI (n - 16) - yI (n - 12) + yI n + yI (n + 4) + 2 * yQ (n + 4))"

lemma conv_negative: "n < 0 \<Longrightarrow> conv coeff sig n = 0"
  by (simp add: conv_def sample_def)

lemma filtered_negative [simp]: "n < 0 \<Longrightarrow> filtered b coeff sig n = 0"
  by (simp add: filtered_def conv_negative)

lemma map_upt_const: "(\<And>i. i < n \<Longrightarrow> f i = c) \<Longrightarrow> map f [0..<n] = replicate n c"
  by (rule nth_equalityI) auto

lemma sample_of_nat: "sample sig (int m) = (if m < length sig then sig ! m else 0)"
  by (simp add: sample_def)

lemma rx_at_0: "rx_at tids coeff sigI sigQ 0 = rx_init"
proof -
  have "block16 on coeff sig 0 = replicate 16 0" for on sig
    by (simp add: block16_def map_upt_const)
  moreover have "window sig 0 = replicate 80 0" for sig
    by (simp add: window_def sample_def map_upt_const)
  moreover have "[0, 0, 0, 0, 0, 0, 0, 0, 0, 0, 0, 0, 0, 0, 0, 0] = replicate 16 (0 :: u32)"
    by (simp add: eval_nat_numeral)
  ultimately show ?thesis
    by (simp add: rx_at_def rx_init_def bufferSize_def SF_def SAMPLING_FACTOR_def Let_def)
qed

lemma window_shift:
  assumes "16 * k + 16 \<le> length sig"
  shows "shifted sig k (window sig k) 16 = window sig (Suc k)"
proof -
  have "shifted sig k (window sig k) 16 =
      map (\<lambda>i. if i < 64 then window sig k ! (i + 16) else sig ! (i - 64 + 16 * k)) [0..<80]"
    using assms by (intro shifted_ends(2)) (simp_all add: window_def)
  also have "\<dots> = window sig (Suc k)"
    unfolding window_def
  proof (rule map_cong [OF refl])
    fix i assume "i \<in> set [0..<80]"
    then have i: "i < 80" by simp
    show "(if i < 64 then map (\<lambda>i. sample sig (16 * int k + int i - 80)) [0..<80] ! (i + 16)
        else sig ! (i - 64 + 16 * k)) = sample sig (16 * int (Suc k) + int i - 80)"
    proof (cases "i < 64")
      case True
      have e: "16 * int k + int (i + 16) - 80 = 16 * int (Suc k) + int i - 80" by simp
      show ?thesis using True i by (simp add: e del: of_nat_Suc of_nat_add)
    next
      case False
      then have e: "16 * int (Suc k) + int i - 80 = int (i - 64 + 16 * k)" by simp
      have "i - 64 + 16 * k < length sig" using False i assms by linarith
      then show ?thesis unfolding e sample_of_nat using False by simp
    qed
  qed
  finally show ?thesis .
qed

lemma tap_sum_window:
  assumes "i < 16"
  shows "tap_sum coeff 64 (window sig (Suc k)) i = conv coeff sig (16 * int k + int i)"
  unfolding tap_sum_def conv_def
proof (rule sum.cong [OF refl])
  fix j :: nat assume "j \<in> {..<64}"
  then have "i + 64 - j < 80" "int (i + 64 - j) = int i + 64 - int j" using assms by auto
  then show "coeff ! j * window sig (Suc k) ! (i + 64 - j) = coeff ! j * sample sig (16 * int k + int i - int j)"
    by (simp add: window_def algebra_simps)
qed

lemma receive_symbol_eq:
  assumes "length coeff = 64" "16 * k + 16 \<le> length sigI" "16 * k + 16 \<le> length sigQ"
  shows "receive_symbol tids coeff sigI sigQ k (rx_at tids coeff sigI sigQ k) =
    Inr (if k = 0 then [] else [decision tids coeff sigI sigQ k], rx_at tids coeff sigI sigQ (Suc k))"
proof -
  let ?st = "rx_at tids coeff sigI sigQ k"
  let ?st' = "rx_at tids coeff sigI sigQ (Suc k)"
  have w: "length (window sig m) = 80" for sig m by (simp add: window_def)
  have B: "bufferSize = 16" "FILTER_NB_CELL = 64"
    by (simp_all add: bufferSize_def SF_def SAMPLING_FACTOR_def FILTER_NB_CELL_def)
  have S: "Signal_I_symb (rx_at tids coeff sigI sigQ m) = window sigI m"
    "Signal_Q_symb (rx_at tids coeff sigI sigQ m) = window sigQ m"
    "Signal_I_filtered (rx_at tids coeff sigI sigQ m) = block16 (1 \<in> set tids) coeff sigI m"
    "Signal_Q_filtered (rx_at tids coeff sigI sigQ m) = block16 (2 \<in> set tids) coeff sigQ m" for m
    by (simp_all add: rx_at_def Let_def)
  have sh: "shift_buffers sigI sigQ k [0..<bufferSize] (Signal_I_symb ?st, Signal_Q_symb ?st) =
      Inr (window sigI (Suc k), window sigQ (Suc k))"
    using assms by (simp add: S shift_buffers_eq window_shift w)
  have fits: "fir_fits coeff 64 (window sig m) 16 (block16 on coeff sig' m')" for sig m on sig' m'
    using assms(1) by (simp add: fir_fits_def w block16_def)
  have fl: "(if on then map (tap_sum coeff 64 (window sig (Suc k))) [0..<16] @ drop 16 (block16 on coeff sig k)
        else block16 on coeff sig k) = block16 on coeff sig (Suc k)" for on sig
    by (auto simp: block16_def tap_sum_window filtered_def)
  have fr: "fir tids coeff FILTER_NB_CELL (window sigI (Suc k)) (window sigQ (Suc k)) bufferSize
      (Signal_I_filtered ?st, Signal_Q_filtered ?st) =
      Inr (block16 (1 \<in> set tids) coeff sigI (Suc k), block16 (2 \<in> set tids) coeff sigQ (Suc k))"
    unfolding B S fir_eq [OF fits fits] fl ..
  have nth: "block16 on coeff sig (Suc k) ! i = filtered on coeff sig (16 * int k + int i)"
    if "i < 16" for on sig i
    using that by (simp add: block16_def)
  define yI where "yI = filtered (1 \<in> set tids) coeff sigI"
  define yQ where "yQ = filtered (2 \<in> set tids) coeff sigQ"
  define n where "n = 16 * int k"
  define s where "s = [yI (n - 16), 0, yI (n - 12), 0, 0, 0, 0, 0,
    yI (n - 16), yQ (n - 16), yI (n - 12), yQ (n - 12), 0, 0, 0, 0]"
  have s: "keep_half 0 (Signal ?st) = Inr s"
    by (simp add: rx_at_def Let_def keep_half_eq s_def yI_def yQ_def n_def)
  have n': "16 * int (Suc k) - 32 = n - 16" "16 * int (Suc k) - 28 = n - 12"
    "16 * int (Suc k) - 16 = n" "16 * int (Suc k) - 12 = n + 4" by (simp_all add: n_def)
  have st16: "Signal ?st' = [yI (n - 16), 0, yI (n - 12), 0, 0, 0, 0, 0,
    yI n, yQ n, yI (n + 4), yQ (n + 4), 0, 0, 0, 0]"
    unfolding rx_at_def Let_def n' by (simp add: yI_def yQ_def)
  have l16: "length (block16 on coeff sig m) = 16" for on sig m by (simp add: block16_def)
  have s': "QPSKinv (block16 (1 \<in> set tids) coeff sigI (Suc k)) (block16 (2 \<in> set tids) coeff sigQ (Suc k))
      (bufferSize div 2) 8 s = Inr (Signal ?st')"
    unfolding st16 by (simp add: QPSKinv_def B qpsk_loop.simps l16 nth s_def yI_def yQ_def n_def)
  have st': "\<lparr>Signal_I_symb = window sigI (Suc k), Signal_Q_symb = window sigQ (Suc k),
      Signal_I_filtered = block16 (1 \<in> set tids) coeff sigI (Suc k),
      Signal_Q_filtered = block16 (2 \<in> set tids) coeff sigQ (Suc k), Signal = Signal ?st'\<rparr> = ?st'"
    by (simp add: rx_at_def Let_def)
  have len: "13 \<le> length (Signal ?st')" by (simp add: rx_at_def Let_def)
  have bit: "(0 <s rake_unrolled (Signal ?st')) = decision tids coeff sigI sigQ k"
    unfolding st16 by (simp add: decision_def Let_def rake_unrolled_def yI_def yQ_def n_def)
  show ?thesis
    unfolding receive_symbol_def sh res_bind.simps prod.case fr s s' rake_eq [OF len] Let_def st'
      res_map.simps bit by simp
qed

lemma receive_eq:
  assumes "length coeff = 64" "16 * n \<le> length sigI" "16 * n \<le> length sigQ"
  shows "m \<le> n \<Longrightarrow> receive tids coeff sigI sigQ [m..<n] (rx_at tids coeff sigI sigQ m) =
    Inr (map (decision tids coeff sigI sigQ) [max m 1..<n], rx_at tids coeff sigI sigQ n)"
proof (induction "n - m" arbitrary: m)
  case 0
  then show ?case by simp
next
  case (Suc d)
  then have m: "m < n" by simp
  have "16 * m + 16 \<le> 16 * n" using m by simp
  then have fit: "16 * m + 16 \<le> length sigI" "16 * m + 16 \<le> length sigQ" using assms by linarith+
  have "receive tids coeff sigI sigQ [Suc m..<n] (rx_at tids coeff sigI sigQ (Suc m)) =
      Inr (map (decision tids coeff sigI sigQ) [max (Suc m) 1..<n], rx_at tids coeff sigI sigQ n)"
    using Suc by (intro Suc.hyps(1)) simp_all
  then show ?case
    using m receive_symbol_eq [OF assms(1) fit, of tids] by (cases m) (simp_all add: upt_conv_Cons)
qed

text \<open>C38: run on whole streams, the receiver prints one decision for every symbol but the first,
  each the sign of a fixed combination of the outputs of the filter run over the whole stream: the
  windows of 80 samples, the buffers that are shifted and the halves of the serial signal that are
  kept lose nothing of the stream they need. The decision uses the first two of the four samples
  of a symbol only; the I outputs are all 0 unless the team has a thread 1 and the Q outputs are
  all 0 unless it has a thread 2; the order of the threads does not matter.\<close>

theorem wcdma_decodes:
  assumes "length coeff = 64" "1024 \<le> length sigI" "1024 \<le> length sigQ"
  shows "wcdma_main 1 tids coeff sigI sigQ = Inr (Some (map (decision tids coeff sigI sigQ) [1..<64]))"
  using receive_eq [of coeff 64 sigI sigQ 0 tids] assms
  by (simp add: wcdma_main_def NB_SYMBOL_def rx_at_0 del: upt.simps)

theorem wcdma_decodes_witness:
  "wcdma_main 1 [2, 0, 1] (1 # replicate 63 0) (replicate 1036 3) (replicate 1036 1) =
    Inr (Some (map (decision [2, 0, 1] (1 # replicate 63 0) (replicate 1036 3) (replicate 1036 1)) [1..<64]))"
  by (rule wcdma_decodes) simp_all

lemma rake_Inr: "rake sg code ps bt = Inr r \<Longrightarrow> p \<in> set ps \<Longrightarrow> p + 5 < length sg"
  by (induction ps arbitrary: bt) (auto simp: array_res)

lemma rake_Inl: "rake sg code ps bt = Inl e \<Longrightarrow> e = FUndef"
  by (induction ps arbitrary: bt) (auto simp: array_res res_bind_eq_Inl)

text \<open>The unrolled sum of the hardware version computes the bit of the loop over the code of
  user 1, for every content of the buffer, the wrap-around of 32-bit integers included.\<close>

theorem rake_unrolling:
  "rake sg ovsf_code_user1 [0..<SF] 0 = (if 13 \<le> length sg then Inr (rake_unrolled sg) else Inl FUndef)"
proof (cases "13 \<le> length sg")
  case False
  then show ?thesis
    using rake_Inr [of sg ovsf_code_user1 "[0..<SF]" 0 _ 7] rake_Inl
    by (cases "rake sg ovsf_code_user1 [0..<SF] 0") (auto simp: SF_def)
qed (simp add: rake_eq)

end
