(* ===== verification/Fir_Hw.thy ===== *)
theory Fir_Hw
  imports Prelude
begin

text \<open>
  The hardware FIR module, \<open>fir/include/fir\<close>: the pipelined adder (\<open>adder.hpp\<close>) and
  the filter (\<open>fir.h\<close>, \<open>fir.hpp\<close>). A signal keeps its old value until the end of the
  evaluation that writes it, so an operation computes every new value from the old state.
\<close>

section \<open>The pipelined adder\<close>

text \<open>
  \<open>pipeline_adder\<open>_M\<close>\<close> adds its operands four by four; the last group takes what is left
  (the specialisations for \<open>_M%4 = 0, 1, 2, 3\<close>). At four operands and below there is one sum.
\<close>

fun sums4 :: "u32 list \<Rightarrow> u32 list" where
  "sums4 (a # b # c # d # xs) = (a + b + c + d) # sums4 xs"
| "sums4 [a, b, c] = [a + b + c]"
| "sums4 [a, b] = [a + b]"
| "sums4 [a] = [a]"
| "sums4 [] = []"

fun get_level_number :: "nat \<Rightarrow> nat" where
  "get_level_number m = (if m \<le> 4 then 1 else 1 + get_level_number ((m + 3) div 4))"

declare get_level_number.simps [simp del]

fun get_level_size :: "nat \<Rightarrow> nat \<Rightarrow> nat" where
  "get_level_size m l =
     (if m \<le> 4 then (if l = 0 then 1 else 0)
      else case l of 0 \<Rightarrow> (m + 3) div 4 | Suc l' \<Rightarrow> get_level_size ((m + 3) div 4) l')"

declare get_level_size.simps [simp del]

text \<open>The signals of the adder, one list per level; all signals are 0 at the start.\<close>

fun adder_init :: "nat \<Rightarrow> u32 list list" where
  "adder_init m = (if m \<le> 4 then [[0]] else replicate ((m + 3) div 4) 0 # adder_init ((m + 3) div 4))"

declare adder_init.simps [simp del]

text \<open>\<open>compute\<close>: every level adds the old values of the level before it.\<close>

fun adder_compute :: "u32 list \<Rightarrow> u32 list list \<Rightarrow> u32 list list" where
  "adder_compute operand [] = []"
| "adder_compute operand [s] = [[sum_list operand]]"
| "adder_compute operand (partial_sum # sub_level) = sums4 operand # adder_compute partial_sum sub_level"

section \<open>The filter\<close>

record fir_module =
  coeff :: "u32 list"
  x_sig :: u32
  y_sig :: u32
  shift_register :: "u32 list"
  prod_sig :: "u32 list"
  adder :: "u32 list list"

definition new_fir :: "nat \<Rightarrow> u32 list \<Rightarrow> fir_module" where
  "new_fir n c = \<lparr>coeff = c, x_sig = 0, y_sig = 0, shift_register = replicate n 0,
     prod_sig = replicate n 0, adder = adder_init n\<rparr>"

text \<open>
  \<open>set_values\<close> of the coefficients that are not signals copies \<open>sizeof(values)\<close> bytes, and
  \<open>values\<close> is a parameter, so a pointer: \<open>ptr_size\<close> is the size of a pointer of the host.
\<close>

definition set_values :: "nat \<Rightarrow> u32 list \<Rightarrow> u32 list \<Rightarrow> u32 list" where
  "set_values ptr_size values val = take (ptr_size div 4) values @ drop (ptr_size div 4) val"

definition init_coefficient :: "nat \<Rightarrow> u32 list \<Rightarrow> fir_module \<Rightarrow> fir_module" where
  "init_coefficient ptr_size values f = f\<lparr>coeff := set_values ptr_size values (coeff f)\<rparr>"

definition compute_fir :: "fir_module \<Rightarrow> fir_module" where
  "compute_fir f = f\<lparr>
     shift_register := x_sig f # butlast (shift_register f),
     prod_sig := map2 (*) (shift_register f) (coeff f),
     adder := adder_compute (prod_sig f) (adder f),
     y_sig := hd (last (adder f))\<rparr>"

text \<open>
  Writing the input: \<open>compute_fir\<close> is a method sensitive to the signal, so it runs when the
  value of the signal changes, and only then.
\<close>

definition write_x :: "u32 \<Rightarrow> fir_module \<Rightarrow> fir_module" where
  "write_x v f = (if v = x_sig f then f else compute_fir (f\<lparr>x_sig := v\<rparr>))"

section \<open>Sums\<close>

lemma sum_list_sums4 [simp]: "sum_list (sums4 xs) = sum_list xs"
  by (induction xs rule: sums4.induct) (simp_all add: add.assoc)

lemma sums4_zero [simp]: "sums4 (replicate n 0) = replicate ((n + 3) div 4) 0"
proof (induction n rule: less_induct)
  case (less n)
  show ?case
  proof (cases "4 \<le> n")
    case True
    then obtain m where n: "n = 4 + m" using le_Suc_ex by blast
    have r: "replicate (4 + m) (0 :: u32) = 0 # 0 # 0 # 0 # replicate m 0"
      by (simp add: numeral_eq_Suc)
    have d: "(4 + m + 3) div 4 = Suc ((m + 3) div 4)" by simp
    have "m < n" by (simp add: n)
    from less [OF this] show ?thesis unfolding n r d by simp
  next
    case False
    then have "n = 0 \<or> n = 1 \<or> n = 2 \<or> n = 3" by linarith
    moreover have "replicate 2 (0 :: u32) = [0, 0]" "replicate 3 (0 :: u32) = [0, 0, 0]"
      by (simp_all add: numeral_2_eq_2 numeral_3_eq_3)
    ultimately show ?thesis by (elim disjE) simp_all
  qed
qed

section \<open>The stream the module has seen\<close>

text \<open>
  \<open>lev_at k opd n\<close>: the \<open>k\<close> levels of an adder after \<open>n\<close> activations, when its operands
  have the values \<open>opd m\<close> after \<open>m\<close> of them.
\<close>

fun lev_at :: "nat \<Rightarrow> (int \<Rightarrow> u32 list) \<Rightarrow> int \<Rightarrow> u32 list list" where
  "lev_at 0 opd n = []"
| "lev_at (Suc 0) opd n = [[sum_list (opd (n - 1))]]"
| "lev_at (Suc (Suc k)) opd n = sums4 (opd (n - 1)) # lev_at (Suc k) (\<lambda>m. sums4 (opd (m - 1))) n"

lemma adder_compute_lev_at: "adder_compute (opd n) (lev_at k opd n) = lev_at k opd (n + 1)"
proof (induction k opd n rule: lev_at.induct)
  case (3 k opd n)
  have "lev_at (Suc k) f m \<noteq> []" for f m by (cases k) simp_all
  then obtain y ys where y: "lev_at (Suc k) (\<lambda>m. sums4 (opd (m - 1))) n = y # ys"
    by (meson neq_Nil_conv)
  show ?case using 3 by (simp add: y)
qed simp_all

lemma last_lev_at: "hd (last (lev_at (Suc k) opd n)) = sum_list (opd (n - 1 - int k))"
proof (induction k arbitrary: opd n)
  case (Suc k)
  have ne: "lev_at (Suc k) f m \<noteq> []" for f m by (cases k) simp_all
  show ?case using Suc [of "\<lambda>m. sums4 (opd (m - 1))" n] ne by (simp add: algebra_simps)
qed simp

text \<open>A stream of inputs, 0 before it begins, and the products the filter forms of it.\<close>

definition stream :: "u32 list \<Rightarrow> int \<Rightarrow> u32" where
  "stream xs n = (if 0 \<le> n \<and> nat n < length xs then xs ! nat n else 0)"

definition products :: "u32 list \<Rightarrow> (int \<Rightarrow> u32) \<Rightarrow> int \<Rightarrow> u32 list" where
  "products c X n = map (\<lambda>i. X (n - int i) * c ! i) [0..<length c]"

definition fir_at :: "u32 list \<Rightarrow> (int \<Rightarrow> u32) \<Rightarrow> int \<Rightarrow> fir_module" where
  "fir_at c X n = \<lparr>coeff = c, x_sig = X (n - 1),
     y_sig = sum_list (products c X (n - 3 - int (get_level_number (length c)))),
     shift_register = map (\<lambda>i. X (n - 1 - int i)) [0..<length c],
     prod_sig = products c X (n - 2),
     adder = lev_at (get_level_number (length c)) (\<lambda>m. products c X (m - 2)) n\<rparr>"

lemma get_level_number_pos: "\<exists>k. get_level_number m = Suc k"
  by (subst get_level_number.simps) simp

lemma compute_fir_at:
  assumes "c \<noteq> []"
  shows "compute_fir ((fir_at c X n)\<lparr>x_sig := X n\<rparr>) = fir_at c X (n + 1)"
proof -
  obtain k where k: "get_level_number (length c) = Suc k" using get_level_number_pos by blast
  have sh: "X n # butlast (map (\<lambda>i. X (n - 1 - int i)) [0..<length c]) =
      map (\<lambda>i. X (n + 1 - 1 - int i)) [0..<length c]"
  proof (rule nth_equalityI)
    fix i assume "i < length (X n # butlast (map (\<lambda>i. X (n - 1 - int i)) [0..<length c]))"
    then show "(X n # butlast (map (\<lambda>i. X (n - 1 - int i)) [0..<length c])) ! i =
        map (\<lambda>i. X (n + 1 - 1 - int i)) [0..<length c] ! i"
      using assms by (cases i) (auto simp: nth_butlast algebra_simps)
  qed (use assms in auto)
  have pr: "map2 (*) (map (\<lambda>i. X (n - 1 - int i)) [0..<length c]) c = products c X (n + 1 - 2)"
    by (rule nth_equalityI) (auto simp: products_def)
  have ad: "adder_compute (products c X (n - 2)) (lev_at (Suc k) (\<lambda>m. products c X (m - 2)) n) =
      lev_at (Suc k) (\<lambda>m. products c X (m - 2)) (n + 1)"
    using adder_compute_lev_at [of "\<lambda>m. products c X (m - 2)" n "Suc k"] by simp
  have y: "hd (last (lev_at (Suc k) (\<lambda>m. products c X (m - 2)) n)) =
      sum_list (products c X (n + 1 - 3 - int (Suc k)))"
    by (simp add: last_lev_at algebra_simps)
  show ?thesis unfolding compute_fir_def fir_at_def k using sh pr ad y by simp
qed

lemma lev_at_init:
  "(\<And>m. m < n \<Longrightarrow> opd m = replicate s 0) \<Longrightarrow> lev_at (get_level_number s) opd n = adder_init s"
proof (induction s arbitrary: opd rule: get_level_number.induct)
  case (1 s)
  show ?case
  proof (cases "s \<le> 4")
    case True
    then show ?thesis using 1(2) [of "n - 1"]
      by (simp add: get_level_number.simps [of s] adder_init.simps [of s] sum_list_replicate)
  next
    case False
    obtain k where k: "get_level_number ((s + 3) div 4) = Suc k" using get_level_number_pos by blast
    have "lev_at (get_level_number ((s + 3) div 4)) (\<lambda>m. sums4 (opd (m - 1))) n = adder_init ((s + 3) div 4)"
      using 1(2) by (intro 1(1) [OF False]) simp
    then show ?thesis using False 1(2) [of "n - 1"]
      by (simp add: get_level_number.simps [of s] adder_init.simps [of s] k)
  qed
qed

lemma fir_at_init:
  assumes "\<And>m. m < 0 \<Longrightarrow> X m = 0"
  shows "fir_at c X 0 = new_fir (length c) c"
proof -
  have p: "products c X m = replicate (length c) 0" if "m < 0" for m
    using that assms by (intro nth_equalityI) (simp_all add: products_def)
  have "map (\<lambda>i. X (0 - 1 - int i)) [0..<length c] = replicate (length c) 0"
    using assms by (intro nth_equalityI) simp_all
  then show ?thesis using assms
    by (simp add: fir_at_def new_fir_def p lev_at_init sum_list_replicate)
qed

text \<open>Activations of the filter, one per input.\<close>

fun run_fir :: "u32 list \<Rightarrow> fir_module \<Rightarrow> fir_module" where
  "run_fir [] f = f"
| "run_fir (x # xs) f = run_fir xs (compute_fir (f\<lparr>x_sig := x\<rparr>))"

lemma run_fir_snoc: "run_fir (xs @ [x]) f = compute_fir ((run_fir xs f)\<lparr>x_sig := x\<rparr>)"
  by (induction xs arbitrary: f) simp_all

lemma run_fir_at:
  assumes "c \<noteq> []" "\<And>i. i < length xs \<Longrightarrow> X (int i) = xs ! i" "\<And>m. m < 0 \<Longrightarrow> X m = 0"
  shows "run_fir xs (new_fir (length c) c) = fir_at c X (int (length xs))"
  using assms(2)
proof (induction xs rule: rev_induct)
  case Nil
  then show ?case using fir_at_init [OF assms(3)] by simp
next
  case (snoc x xs)
  have "run_fir xs (new_fir (length c) c) = fir_at c X (int (length xs))"
    using snoc.prems by (intro snoc.IH) (metis length_append_singleton less_Suc_eq nth_append)
  moreover have "X (int (length xs)) = x" using snoc.prems [of "length xs"] by simp
  ultimately show ?case using compute_fir_at [OF assms(1), of X "int (length xs)"]
    by (simp add: run_fir_snoc add.commute)
qed

section \<open>Writing the same value again\<close>

fun drive :: "u32 list \<Rightarrow> fir_module \<Rightarrow> fir_module" where
  "drive [] f = f"
| "drive (x # xs) f = drive xs (write_x x f)"

lemma x_sig_compute [simp]: "x_sig (compute_fir f) = x_sig f"
  by (simp add: compute_fir_def)

lemma drive_remdups: "drive xs f = run_fir (tl (remdups_adj (x_sig f # xs))) f"
proof (induction xs arbitrary: f)
  case (Cons x xs)
  have hd: "remdups_adj (x # xs) = x # tl (remdups_adj (x # xs))"
    by (metis list.collapse remdups_adj_Nil_iff hd_remdups_adj list.sel(1) list.simps(3))
  show ?case
  proof (cases "x = x_sig f")
    case True
    then show ?thesis by (simp add: Cons.IH write_x_def)
  next
    case False
    have "run_fir (remdups_adj (x # xs)) f = run_fir (tl (remdups_adj (x # xs))) (compute_fir (f\<lparr>x_sig := x\<rparr>))"
      by (subst hd) (simp only: run_fir.simps)
    then show ?thesis using False by (simp add: Cons.IH write_x_def)
  qed
qed simp

lemma get_level_number_64: "get_level_number 64 = 3"
  by (simp add: get_level_number.simps)

lemma stream_app: "i < length xs \<Longrightarrow> stream xs (int i) = xs ! i"
  by (simp add: stream_def)

lemma stream_negative: "n < 0 \<Longrightarrow> stream xs n = 0"
  by (simp add: stream_def)

lemma sum_list_products: "sum_list (products c X n) = (\<Sum>i < length c. c ! i * X (n - int i))"
  by (simp add: products_def sum_list_distinct_conv_sum_set atLeast0LessThan mult.commute)

lemma drive_at:
  assumes "c \<noteq> []" "ys = tl (remdups_adj (0 # xs))"
  shows "drive xs (new_fir (length c) c) = fir_at c (stream ys) (int (length ys))"
proof -
  have "drive xs (new_fir (length c) c) = run_fir ys (new_fir (length c) c)"
    by (simp add: drive_remdups assms(2) new_fir_def)
  also have "\<dots> = fir_at c (stream ys) (int (length ys))"
    by (rule run_fir_at [OF assms(1)]) (simp_all add: stream_def)
  finally show ?thesis .
qed

text \<open>C39: the hardware filter computes the convolution of the coefficients with its input stream,
  delayed by the levels of the adder and three registers; but its stream is not the sequence of the
  values written to it: a value equal to the one before it raises no event, so it is dropped.\<close>

theorem fir_pipeline:
  assumes "c \<noteq> []"
  shows "y_sig (drive xs (new_fir (length c) c)) =
    (let ys = tl (remdups_adj (0 # xs)) in
     \<Sum>i < length c. c ! i * stream ys (int (length ys) - 3 - int (get_level_number (length c)) - int i))"
  by (simp add: drive_at [OF assms refl] Let_def fir_at_def sum_list_products)

theorem fir_pipeline_witness:
  "y_sig (drive [5, 5, 7, 0, 0, 1, 2, 3] (new_fir 2 [10, 20])) = 140"
proof -
  have "length [10, 20 :: u32] = 2" by simp
  from fir_pipeline [of "[10, 20]" "[5, 5, 7, 0, 0, 1, 2, 3]", unfolded this]
  show ?thesis
    by (simp add: stream_def get_level_number.simps Let_def lessThan_nat_numeral del: drive.simps)
qed

text \<open>Initialising the coefficients sets as many of them as fit in a pointer, so an array of
  coefficients is copied as a whole only when it is no larger than a pointer: of the 64
  coefficients of the accelerator, a host with pointers of 8 bytes sets the first two.\<close>

theorem coefficients_cut_to_a_pointer:
  "{f. length (coeff f) = length c \<and> coeff (init_coefficient ptr_size c f) \<noteq> c} = {} \<longleftrightarrow>
     length c * 4 \<le> ptr_size"
proof
  assume a: "{f. length (coeff f) = length c \<and> coeff (init_coefficient ptr_size c f) \<noteq> c} = {}"
  show "length c * 4 \<le> ptr_size"
  proof (rule ccontr)
    assume "\<not> length c * 4 \<le> ptr_size"
    then have n: "ptr_size div 4 < length c" by linarith
    define val where "val = map (\<lambda>v. v + 1) c"
    have "coeff (init_coefficient ptr_size c (new_fir 0 val)) = c"
      using a by (fastforce simp: new_fir_def val_def)
    then have "(take (ptr_size div 4) c @ drop (ptr_size div 4) val) ! (ptr_size div 4) = c ! (ptr_size div 4)"
      by (simp add: init_coefficient_def set_values_def new_fir_def)
    then show False using n by (simp add: nth_append val_def)
  qed
next
  assume "length c * 4 \<le> ptr_size"
  then have "length c \<le> ptr_size div 4" by linarith
  then show "{f. length (coeff f) = length c \<and> coeff (init_coefficient ptr_size c f) \<noteq> c} = {}"
    by (simp add: init_coefficient_def set_values_def)
qed

end
