(* ===== verification/Accelerator.thy ===== *)
theory Accelerator
  imports Pinout Fir_Hw
begin

text \<open>
  The accelerator slave \<open>cl_acc\<close> (\<open>virtualsoc/src/cluster/cl_acc.cpp\<close>, \<open>cl_acc.h\<close>), its
  driver \<open>virtualsoc-apps/support/simulator/accsupport.c\<close> and the slave that measures time,
  \<open>cl_counter\<close>. Here a request is one function from the state to the words put on the port and the
  new state, as a program on a single core sees the build without \<open>FIR_4_PER_4_PUSH\<close>: the filter
  it starts has finished before the request is over. The threads of the slave themselves, clock edge by
  clock edge and for both builds, are in \<open>Acc_Timing\<close>, which proves that this view is theirs.
\<close>

section \<open>The slave\<close>

definition ACCELERATOR_START_ADDR :: addr where "ACCELERATOR_START_ADDR = 0x0C000000"
definition ACCELERATOR_READY_ADDR :: addr where "ACCELERATOR_READY_ADDR = 0x0C000004"
definition ACCELERATOR_MEM_ADDR :: addr where "ACCELERATOR_MEM_ADDR = 0x0C000010"
definition INPUT1_ADDR :: addr where "INPUT1_ADDR = ACCELERATOR_MEM_ADDR"
definition OUTPUT1_ADDR :: addr where "OUTPUT1_ADDR = ACCELERATOR_MEM_ADDR + 4"
definition INPUT2_ADDR :: addr where "INPUT2_ADDR = ACCELERATOR_MEM_ADDR + 8"
definition OUTPUT2_ADDR :: addr where "OUTPUT2_ADDR = ACCELERATOR_MEM_ADDR + 12"

lemmas acc_addresses = ACCELERATOR_START_ADDR_def ACCELERATOR_READY_ADDR_def
  ACCELERATOR_MEM_ADDR_def INPUT1_ADDR_def OUTPUT1_ADDR_def INPUT2_ADDR_def OUTPUT2_ADDR_def

datatype cl_status = CL_ACC_INACTIVE | CL_ACC_READ | CL_ACC_WRITE | CL_ACC_START | CL_ACC_STOP

record cl_acc =
  acc_status :: cl_status
  acc_memory :: mem_class
  fir_module_1 :: fir_module
  fir_module_2 :: fir_module

definition acc_addressing :: "addr \<Rightarrow> addr" where
  "acc_addressing addr = addr - ACCELERATOR_BASE_ADDR"

definition acc_Read :: "cl_acc \<Rightarrow> addr \<Rightarrow> u8 \<Rightarrow> u32 res" where
  "acc_Read c addr bw = Mem_Read acc_addressing (acc_memory c) addr bw"

definition acc_Write :: "addr \<Rightarrow> u32 \<Rightarrow> u8 \<Rightarrow> cl_acc \<Rightarrow> cl_acc res" where
  "acc_Write addr data bw c =
     res_map (\<lambda>m. c\<lparr>acc_memory := m\<rparr>) (Mem_Write acc_addressing (acc_memory c) addr data bw)"

text \<open>What a filter does with the word in its input.\<close>

definition filter1 :: "cl_acc \<Rightarrow> cl_acc res" where
  "filter1 c =
     res_bind (acc_Read c INPUT1_ADDR MEM_WORD) (\<lambda>input.
     let f = drive [input] (fir_module_1 c) in
     res_map (acc_status_update (\<lambda>_. CL_ACC_INACTIVE))
       (acc_Write OUTPUT1_ADDR (y_sig f) MEM_WORD (c\<lparr>fir_module_1 := f\<rparr>)))"

definition filter2 :: "cl_acc \<Rightarrow> cl_acc res" where
  "filter2 c =
     res_bind (acc_Read c INPUT2_ADDR MEM_WORD) (\<lambda>input.
     let f = drive [input] (fir_module_2 c) in
     res_map (acc_status_update (\<lambda>_. CL_ACC_INACTIVE))
       (acc_Write OUTPUT2_ADDR (y_sig f) MEM_WORD (c\<lparr>fir_module_2 := f\<rparr>)))"

fun acc_read_beats :: "cl_acc \<Rightarrow> addr \<Rightarrow> u8 \<Rightarrow> u32 \<Rightarrow> nat \<Rightarrow> u32 list res" where
  "acc_read_beats c addr bw sz 0 = Inr []"
| "acc_read_beats c addr bw sz (Suc n) =
     res_bind (acc_Read c addr bw) (\<lambda>d. res_map (Cons d) (acc_read_beats c (addr + sz) bw sz n))"

text \<open>Every beat of a write burst stores the datum that came with the request.\<close>

fun acc_write_beats :: "addr \<Rightarrow> u32 \<Rightarrow> u8 \<Rightarrow> u32 \<Rightarrow> nat \<Rightarrow> cl_acc \<Rightarrow> cl_acc res" where
  "acc_write_beats addr data bw sz 0 c = Inr c"
| "acc_write_beats addr data bw sz (Suc n) c =
     res_bind (acc_Write addr data bw c) (acc_write_beats (addr + sz) data bw sz n)"

definition acc_request :: "pinout \<Rightarrow> cl_acc \<Rightarrow> (u32 list \<times> cl_acc) res" where
  "acc_request p c =
     (let addr = p_address p; bw = ucast (p_bw p) :: u8; burst = unat (p_burst p) in
      res_bind (get_word_size (p_bw p)) (\<lambda>sz.
      if acc_status c = CL_ACC_STOP \<and> addr \<noteq> ACCELERATOR_START_ADDR \<and> addr \<noteq> ACCELERATOR_READY_ADDR
      then Inr ([], c)
      else if \<not> p_rw p then
        (if addr = ACCELERATOR_READY_ADDR
         then Inr ([if acc_status c = CL_ACC_INACTIVE \<or> acc_status c = CL_ACC_START then 1 else 0], c)
         else res_map (\<lambda>ds. (ds, c\<lparr>acc_status := CL_ACC_INACTIVE\<rparr>))
                (acc_read_beats (c\<lparr>acc_status := CL_ACC_READ\<rparr>) addr bw sz burst))
      else if addr = ACCELERATOR_START_ADDR then
        Inr ([], c\<lparr>acc_status := if p_data p = 1 then CL_ACC_START else CL_ACC_INACTIVE\<rparr>)
      else
        res_bind (acc_write_beats addr (p_data p) bw sz burst (c\<lparr>acc_status := CL_ACC_WRITE\<rparr>)) (\<lambda>c'.
        res_map (\<lambda>c''. ([], c''\<lparr>acc_status := CL_ACC_INACTIVE\<rparr>))
          (if addr = INPUT1_ADDR then filter1 c'
           else if addr = INPUT2_ADDR then filter2 c'
           else Inr c'))))"

section \<open>The driver\<close>

text \<open>
  The accesses of a processor through the bus. A read that the slave does not answer leaves the
  data lines undriven. \<open>exit(1)\<close> is the branch taken on an unaligned address.
\<close>

definition acc_load :: "addr \<Rightarrow> cl_acc \<Rightarrow> (u32 \<times> cl_acc) res" where
  "acc_load a c = res_bind (acc_request (word_read a) c) (\<lambda>(ds, c').
     case ds of [] \<Rightarrow> Inl FUndef | d # _ \<Rightarrow> Inr (d, c'))"

definition acc_store :: "addr \<Rightarrow> u32 \<Rightarrow> cl_acc \<Rightarrow> cl_acc res" where
  "acc_store a v c = res_map snd (acc_request (word_write a v) c)"

definition acc_read_word :: "u32 \<Rightarrow> cl_acc \<Rightarrow> (u32 \<times> cl_acc) res" where
  "acc_read_word addr c =
     (if addr mod 4 \<noteq> 0 then Inl (FExit 1) else acc_load (ACCELERATOR_MEM_ADDR + addr) c)"

definition acc_write_word :: "u32 \<Rightarrow> u32 \<Rightarrow> cl_acc \<Rightarrow> cl_acc res" where
  "acc_write_word addr data c =
     (if addr mod 4 \<noteq> 0 then Inl (FExit 1) else acc_store (ACCELERATOR_MEM_ADDR + addr) data c)"

definition acc_start :: "cl_acc \<Rightarrow> cl_acc res" where
  "acc_start c = acc_store ACCELERATOR_START_ADDR 1 c"

definition acc_init_start :: "cl_acc \<Rightarrow> cl_acc res" where
  "acc_init_start c = acc_store ACCELERATOR_START_ADDR 0 c"

text \<open>\<open>acc_wait\<close> polls the ready flag; nothing else runs, so a flag that is 0 stays 0.\<close>

definition acc_wait :: "cl_acc \<Rightarrow> cl_acc res" where
  "acc_wait c = res_bind (acc_load ACCELERATOR_READY_ADDR c) (\<lambda>(tmp, c').
     if tmp = 0 then Inl FSpin else acc_init_start c')"

section \<open>The counter\<close>

text \<open>
  \<open>cl_counter\<close>: reading the first word notes the time, reading the second prints the time since
  then (the value of the second component); any other access leaves with \<open>exit(1)\<close>.
\<close>

definition COUNTER_INIT_ADDR :: addr where "COUNTER_INIT_ADDR = 0x0D000000"
definition COUNTER_GET_ADDR :: addr where "COUNTER_GET_ADDR = 0x0D000004"

definition counter_execute :: "nat \<Rightarrow> pinout \<Rightarrow> nat \<Rightarrow> (nat option \<times> nat) res" where
  "counter_execute now p current_time =
     res_bind (get_word_size (p_bw p)) (\<lambda>_.
     if p_rw p then Inl (FExit 1)
     else if p_address p = COUNTER_INIT_ADDR then Inr (None, now)
     else if p_address p = COUNTER_GET_ADDR then Inr (Some (now - current_time), current_time)
     else Inl (FExit 1))"

definition counter_init :: "nat \<Rightarrow> nat \<Rightarrow> nat res" where
  "counter_init now current_time =
     res_map snd (counter_execute now (word_read COUNTER_INIT_ADDR) current_time)"

definition counter_get :: "nat \<Rightarrow> nat \<Rightarrow> (nat option \<times> nat) res" where
  "counter_get now current_time = counter_execute now (word_read COUNTER_GET_ADDR) current_time"

section \<open>The words of the accelerator\<close>

definition acc_ok :: "cl_acc \<Rightarrow> bool" where
  "acc_ok c \<longleftrightarrow> mem_size (acc_memory c) = ACCELERATOR_MEM_SIZE"

definition acc_word :: "cl_acc \<Rightarrow> addr \<Rightarrow> u32" where
  "acc_word c a = mem_word (acc_memory c) (a - ACCELERATOR_BASE_ADDR)"

definition set_acc_word :: "addr \<Rightarrow> u32 \<Rightarrow> cl_acc \<Rightarrow> cl_acc" where
  "set_acc_word a v c = c\<lparr>acc_memory := set_word (acc_memory c) (a - ACCELERATOR_BASE_ADDR) v\<rparr>"

definition acc_regs :: "addr set" where
  "acc_regs = {INPUT1_ADDR, OUTPUT1_ADDR, INPUT2_ADDR, OUTPUT2_ADDR}"

lemma Mem_addressing:
  "Mem_Read f m a bw = Mem_Read (\<lambda>a. a) m (f a) bw"
  "Mem_Write f m a d bw = Mem_Write (\<lambda>a. a) m (f a) d bw"
  by (simp_all add: Mem_Read_def Mem_Write_def Let_def)

lemma acc_regs_ok: "acc_ok c \<Longrightarrow> a \<in> acc_regs \<Longrightarrow> word_ok (acc_memory c) (a - ACCELERATOR_BASE_ADDR)"
  by (auto simp: acc_regs_def acc_ok_def word_ok_def acc_addresses ACCELERATOR_BASE_ADDR_def
      ACCELERATOR_MEM_SIZE_def)

lemma acc_word_access:
  assumes "acc_ok c" "a \<in> acc_regs"
  shows "acc_Read c a MEM_WORD = Inr (acc_word c a)"
    and "acc_Write a v MEM_WORD c = Inr (set_acc_word a v c)"
  using Mem_word_access [OF acc_regs_ok [OF assms]]
  by (simp_all add: acc_Read_def acc_Write_def acc_word_def set_acc_word_def acc_addressing_def
      Mem_addressing [of acc_addressing])

lemma set_acc_word_simps [simp]:
  "acc_ok (set_acc_word a v c) = acc_ok c"
  "acc_status (set_acc_word a v c) = acc_status c"
  "fir_module_1 (set_acc_word a v c) = fir_module_1 c"
  "fir_module_2 (set_acc_word a v c) = fir_module_2 c"
  by (simp_all add: set_acc_word_def acc_ok_def)

lemma acc_word_set:
  "a \<in> acc_regs \<Longrightarrow> b \<in> acc_regs \<Longrightarrow> acc_word (set_acc_word a v c) b = (if a = b then v else acc_word c b)"
  by (auto simp: acc_regs_def acc_word_def set_acc_word_def mem_word_set acc_addresses
      ACCELERATOR_BASE_ADDR_def)

lemma acc_word_upd [simp]:
  "acc_word (c\<lparr>acc_status := s\<rparr>) a = acc_word c a"
  "acc_word (c\<lparr>fir_module_1 := f\<rparr>) a = acc_word c a"
  "acc_word (c\<lparr>fir_module_2 := f\<rparr>) a = acc_word c a"
  "acc_ok (c\<lparr>acc_status := s\<rparr>) = acc_ok c"
  "acc_ok (c\<lparr>fir_module_1 := f\<rparr>) = acc_ok c"
  "acc_ok (c\<lparr>fir_module_2 := f\<rparr>) = acc_ok c"
  by (simp_all add: acc_word_def acc_ok_def)

lemma acc_regs_mem [simp]:
  "INPUT1_ADDR \<in> acc_regs" "OUTPUT1_ADDR \<in> acc_regs" "INPUT2_ADDR \<in> acc_regs" "OUTPUT2_ADDR \<in> acc_regs"
  by (simp_all add: acc_regs_def)

lemma acc_regs_apart:
  "a \<in> acc_regs \<Longrightarrow> a \<noteq> ACCELERATOR_START_ADDR \<and> a \<noteq> ACCELERATOR_READY_ADDR"
  "INPUT1_ADDR \<noteq> INPUT2_ADDR" "INPUT1_ADDR \<noteq> OUTPUT1_ADDR" "INPUT1_ADDR \<noteq> OUTPUT2_ADDR"
  "INPUT2_ADDR \<noteq> OUTPUT1_ADDR" "INPUT2_ADDR \<noteq> OUTPUT2_ADDR" "OUTPUT1_ADDR \<noteq> OUTPUT2_ADDR"
  by (auto simp: acc_regs_def acc_addresses)

lemma acc_load_reg:
  assumes "acc_ok c" "a \<in> acc_regs" "acc_status c \<noteq> CL_ACC_STOP"
  shows "acc_load a c = Inr (acc_word c a, c\<lparr>acc_status := CL_ACC_INACTIVE\<rparr>)"
  using assms acc_regs_apart(1) [OF assms(2)] acc_word_access(1) [of "c\<lparr>acc_status := CL_ACC_READ\<rparr>" a]
  by (simp add: acc_load_def acc_request_def MEM_WORD_def Let_def)

text \<open>A word written to the input of a filter: the filter runs and its output register is set.\<close>

definition push1 :: "u32 \<Rightarrow> cl_acc \<Rightarrow> cl_acc" where
  "push1 v c = (let f = drive [v] (fir_module_1 c) in
     set_acc_word OUTPUT1_ADDR (y_sig f) (set_acc_word INPUT1_ADDR v
       (c\<lparr>fir_module_1 := f, acc_status := CL_ACC_INACTIVE\<rparr>)))"

definition push2 :: "u32 \<Rightarrow> cl_acc \<Rightarrow> cl_acc" where
  "push2 v c = (let f = drive [v] (fir_module_2 c) in
     set_acc_word OUTPUT2_ADDR (y_sig f) (set_acc_word INPUT2_ADDR v
       (c\<lparr>fir_module_2 := f, acc_status := CL_ACC_INACTIVE\<rparr>)))"

lemma acc_store_input:
  assumes "acc_ok c" "acc_status c \<noteq> CL_ACC_STOP"
  shows "acc_store INPUT1_ADDR v c = Inr (push1 v c)"
    and "acc_store INPUT2_ADDR v c = Inr (push2 v c)"
proof -
  have w: "acc_ok c' \<Longrightarrow> a \<in> acc_regs \<Longrightarrow> acc_Write a d 0 c' = Inr (set_acc_word a d c')" for c' a d
    using acc_word_access(2) by (simp add: MEM_WORD_def)
  show "acc_store INPUT1_ADDR v c = Inr (push1 v c)"
    using assms acc_regs_apart
    by (simp add: acc_store_def acc_request_def filter1_def acc_word_access Let_def w
        acc_word_set push1_def) (simp add: set_acc_word_def)
  show "acc_store INPUT2_ADDR v c = Inr (push2 v c)"
    using assms acc_regs_apart
    by (simp add: acc_store_def acc_request_def filter2_def acc_word_access Let_def w
        acc_word_set push2_def) (simp add: set_acc_word_def)
qed

lemma acc_offsets:
  "acc_read_word 4 = acc_load OUTPUT1_ADDR" "acc_read_word 12 = acc_load OUTPUT2_ADDR"
  "acc_write_word 0 = acc_store INPUT1_ADDR" "acc_write_word 8 = acc_store INPUT2_ADDR"
  by (simp_all add: fun_eq_iff acc_read_word_def acc_write_word_def acc_addresses)

section \<open>Before the start\<close>

lemma drive_append: "drive (xs @ ys) f = drive ys (drive xs f)"
  by (induction xs arbitrary: f) simp_all

lemma push_simps [simp]:
  "acc_ok (push1 v c) = acc_ok c" "acc_ok (push2 v c) = acc_ok c"
  "acc_status (push1 v c) = CL_ACC_INACTIVE" "acc_status (push2 v c) = CL_ACC_INACTIVE"
  "fir_module_1 (push1 v c) = drive [v] (fir_module_1 c)"
  "fir_module_2 (push1 v c) = fir_module_2 c"
  "fir_module_2 (push2 v c) = drive [v] (fir_module_2 c)"
  "fir_module_1 (push2 v c) = fir_module_1 c"
  "acc_word (push1 v c) OUTPUT1_ADDR = y_sig (drive [v] (fir_module_1 c))"
  "acc_word (push1 v c) OUTPUT2_ADDR = acc_word c OUTPUT2_ADDR"
  "acc_word (push2 v c) OUTPUT2_ADDR = y_sig (drive [v] (fir_module_2 c))"
  "acc_word (push2 v c) OUTPUT1_ADDR = acc_word c OUTPUT1_ADDR"
  using acc_regs_apart
  by (simp_all add: push1_def push2_def Let_def acc_word_set)

definition demo_acc :: cl_acc where
  "demo_acc = \<lparr>acc_status = CL_ACC_INACTIVE, acc_memory = new_mem ACCELERATOR_MEM_SIZE,
     fir_module_1 = new_fir 2 [10, 20], fir_module_2 = new_fir 2 [1, 0]\<rparr>"

text \<open>Out of its constructor the accelerator takes no data: words written to it are dropped,
  a read is not answered and waiting for it never ends. \<open>acc_start\<close> followed by \<open>acc_wait\<close> returns
  at once, whether or not a filter has work, and leaves it inactive and ready for data.\<close>

theorem accelerator_needs_start:
  assumes "acc_status c = CL_ACC_STOP" "a mod 4 = 0"
    and "ACCELERATOR_MEM_ADDR + a \<notin> {ACCELERATOR_START_ADDR, ACCELERATOR_READY_ADDR}"
  shows "acc_write_word a v c = Inr c \<and> acc_read_word a c = Inl FUndef \<and> acc_wait c = Inl FSpin \<and>
    res_bind (acc_start c) acc_wait = Inr (c\<lparr>acc_status := CL_ACC_INACTIVE\<rparr>)"
  using assms
  by (simp add: acc_write_word_def acc_read_word_def acc_load_def acc_store_def acc_request_def
      acc_wait_def acc_start_def acc_init_start_def ACCELERATOR_START_ADDR_def ACCELERATOR_READY_ADDR_def)

theorem accelerator_needs_start_witness:
  "acc_wait (demo_acc\<lparr>acc_status := CL_ACC_STOP\<rparr>) = Inl FSpin"
  using accelerator_needs_start [of "demo_acc\<lparr>acc_status := CL_ACC_STOP\<rparr>" 0]
  by (simp add: acc_addresses demo_acc_def)

end
