(* ===== verification/Acc_Timing.thy ===== *)
theory Acc_Timing
  imports Accelerator
begin

text \<open>
  The three threads of the accelerator slave \<open>cl_acc\<close> (\<open>virtualsoc/src/cluster/cl_acc.cpp\<close>), clock edge by
  clock edge, for both builds (\<open>vsoc2.x\<close> is compiled with \<open>FIR_4_PER_4_PUSH\<close>). A thread is where it waits
  and the locals it keeps. At a clock edge the thread \<open>execute\<close> runs before the filters: SystemC resumes the
  threads that are sensitive to an event from the last one declared to the first. The filters
  wait for an event of \<open>execute\<close>, which is notified at once: it starts a filter that waits at that moment and is lost
  on any other.
\<close>

section \<open>The threads\<close>

text \<open>Where \<open>execute\<close> waits: for a request; in the two cycles of an answer given at once; in the two waits of a
  beat of a read, with the address and the beats left, or of a write; and in the last two.\<close>

datatype exec_pc = X_wait | X_answered | X_head | X_read addr nat | X_fetched addr nat u32
  | X_write addr nat | X_written addr nat | X_last | X_finish

text \<open>A filter waits for its event or has written a sample; the samples still to be written.\<close>

datatype fir_pc = F_idle | F_run "u32 list"

record acc_dev =
  acc :: cl_acc
  build4 :: bool
  exec_pc :: exec_pc
  tmp_pinout :: pinout
  word_size :: u32
  fir1_pc :: fir_pc
  fir2_pc :: fir_pc
  sl_req :: bool
  slave_port :: pinout
  sl_rdy :: bool
  port_data :: u32

text \<open>The samples a word stands for: itself, or its four signed bytes, the highest first.\<close>

definition byte_sample :: "nat \<Rightarrow> u32 \<Rightarrow> u32" where
  "byte_sample i w = scast (ucast (drop_bit (8 * i) w) :: u8)"

definition push_samples :: "bool \<Rightarrow> u32 \<Rightarrow> u32 list" where
  "push_samples b4 w =
     (if b4 then [byte_sample 3 w, byte_sample 2 w, byte_sample 1 w, byte_sample 0 w] else [w])"

text \<open>The filter threads: what the event starts, and what happens at each clock edge after that.\<close>

definition start_processing_fir1 :: "acc_dev \<Rightarrow> acc_dev res" where
  "start_processing_fir1 d =
     (if fir1_pc d \<noteq> F_idle then Inr d
      else res_bind (acc_Read (acc d) INPUT1_ADDR MEM_WORD) (\<lambda>input.
        let xs = push_samples (build4 d) input in
        Inr (d\<lparr>acc := (acc d)\<lparr>fir_module_1 := drive [hd xs] (fir_module_1 (acc d))\<rparr>, fir1_pc := F_run (tl xs)\<rparr>)))"

definition start_processing_fir2 :: "acc_dev \<Rightarrow> acc_dev res" where
  "start_processing_fir2 d =
     (if fir2_pc d \<noteq> F_idle then Inr d
      else res_bind (acc_Read (acc d) INPUT2_ADDR MEM_WORD) (\<lambda>input.
        let xs = push_samples (build4 d) input in
        Inr (d\<lparr>acc := (acc d)\<lparr>fir_module_2 := drive [hd xs] (fir_module_2 (acc d))\<rparr>, fir2_pc := F_run (tl xs)\<rparr>)))"

definition acc_processing_fir1 :: "acc_dev \<Rightarrow> acc_dev res" where
  "acc_processing_fir1 d =
     (case fir1_pc d of
        F_idle \<Rightarrow> Inr d
      | F_run (x # xs) \<Rightarrow>
          Inr (d\<lparr>acc := (acc d)\<lparr>fir_module_1 := drive [x] (fir_module_1 (acc d))\<rparr>, fir1_pc := F_run xs\<rparr>)
      | F_run [] \<Rightarrow>
          res_map (\<lambda>c. d\<lparr>acc := c\<lparr>acc_status := CL_ACC_INACTIVE\<rparr>, fir1_pc := F_idle\<rparr>)
            (acc_Write OUTPUT1_ADDR (y_sig (fir_module_1 (acc d))) MEM_WORD (acc d)))"

definition acc_processing_fir2 :: "acc_dev \<Rightarrow> acc_dev res" where
  "acc_processing_fir2 d =
     (case fir2_pc d of
        F_idle \<Rightarrow> Inr d
      | F_run (x # xs) \<Rightarrow>
          Inr (d\<lparr>acc := (acc d)\<lparr>fir_module_2 := drive [x] (fir_module_2 (acc d))\<rparr>, fir2_pc := F_run xs\<rparr>)
      | F_run [] \<Rightarrow>
          res_map (\<lambda>c. d\<lparr>acc := c\<lparr>acc_status := CL_ACC_INACTIVE\<rparr>, fir2_pc := F_idle\<rparr>)
            (acc_Write OUTPUT2_ADDR (y_sig (fir_module_2 (acc d))) MEM_WORD (acc d)))"

text \<open>The head of the loop over the beats of a read, and of a write with what follows it: the event of the filter
  whose input was addressed.\<close>

definition read_loop :: "addr \<Rightarrow> nat \<Rightarrow> acc_dev \<Rightarrow> acc_dev" where
  "read_loop a n d = d\<lparr>exec_pc := if n = 0 then X_last else X_read a n\<rparr>"

definition write_loop :: "addr \<Rightarrow> nat \<Rightarrow> acc_dev \<Rightarrow> acc_dev res" where
  "write_loop a n d =
     (if n = 0
      then res_map (exec_pc_update (\<lambda>_. X_last))
        (if p_address (tmp_pinout d) = INPUT1_ADDR then start_processing_fir1 d
         else if p_address (tmp_pinout d) = INPUT2_ADDR then start_processing_fir2 d else Inr d)
      else Inr (d\<lparr>exec_pc := X_write a n\<rparr>))"

text \<open>A request is there: the body of the main loop up to its first \<open>wait\<close>.\<close>

definition get_request :: "acc_dev \<Rightarrow> acc_dev res" where
  "get_request d0 =
     (let p = slave_port d0; d = d0\<lparr>tmp_pinout := p\<rparr>; addr = p_address p; burst = unat (p_burst p); st = acc_status (acc d) in
      res_bind (get_word_size (p_bw p)) (\<lambda>sz.
      let d = d\<lparr>word_size := sz\<rparr> in
      if st = CL_ACC_STOP \<and> addr \<noteq> ACCELERATOR_START_ADDR \<and> addr \<noteq> ACCELERATOR_READY_ADDR
      then Inr (d\<lparr>sl_rdy := True, exec_pc := X_answered\<rparr>)
      else if \<not> p_rw p then
        (if addr = ACCELERATOR_READY_ADDR
         then Inr (d\<lparr>port_data := if st = CL_ACC_INACTIVE \<or> st = CL_ACC_START then 1 else 0,
           sl_rdy := True, exec_pc := X_answered\<rparr>)
         else Inr (read_loop addr burst (d\<lparr>acc := (acc d)\<lparr>acc_status := CL_ACC_READ\<rparr>\<rparr>)))
      else if addr = ACCELERATOR_START_ADDR
      then Inr (d\<lparr>acc := (acc d)\<lparr>acc_status := if p_data p = 1 then CL_ACC_START else CL_ACC_INACTIVE\<rparr>,
        sl_rdy := True, exec_pc := X_answered\<rparr>)
      else write_loop addr burst (d\<lparr>acc := (acc d)\<lparr>acc_status := CL_ACC_WRITE\<rparr>\<rparr>)))"

definition loop_head :: "acc_dev \<Rightarrow> acc_dev res" where
  "loop_head d = (if sl_req d then get_request d else Inr (d\<lparr>exec_pc := X_wait\<rparr>))"

text \<open>\<open>execute\<close> at a clock edge.\<close>

definition execute :: "acc_dev \<Rightarrow> acc_dev res" where
  "execute d =
     (let p = tmp_pinout d; bw = ucast (p_bw p) :: u8; sz = word_size d in
      case exec_pc d of
        X_wait \<Rightarrow> Inr d
      | X_answered \<Rightarrow> Inr (d\<lparr>sl_rdy := False, exec_pc := X_head\<rparr>)
      | X_head \<Rightarrow> loop_head d
      | X_read a n \<Rightarrow> res_map (\<lambda>v. d\<lparr>sl_rdy := False, exec_pc := X_fetched a n v\<rparr>) (acc_Read (acc d) a bw)
      | X_fetched a n v \<Rightarrow> Inr (read_loop (a + sz) (n - 1) (d\<lparr>port_data := v, sl_rdy := True\<rparr>))
      | X_write a n \<Rightarrow>
          res_map (\<lambda>c. d\<lparr>acc := c, sl_rdy := False, exec_pc := X_written a n\<rparr>) (acc_Write a (p_data p) bw (acc d))
      | X_written a n \<Rightarrow> write_loop (a + sz) (n - 1) (d\<lparr>sl_rdy := True\<rparr>)
      | X_last \<Rightarrow> Inr (d\<lparr>sl_rdy := False, exec_pc := X_finish\<rparr>)
      | X_finish \<Rightarrow> loop_head (d\<lparr>acc := (acc d)\<lparr>acc_status := CL_ACC_INACTIVE\<rparr>\<rparr>))"

text \<open>The slave at the first clock edge: \<open>execute\<close> starts there, the filters wait already.\<close>

definition new_acc_dev :: "bool \<Rightarrow> u32 list \<Rightarrow> acc_dev" where
  "new_acc_dev b4 cf =
     \<lparr>acc = \<lparr>acc_status = CL_ACC_STOP, acc_memory = new_mem ACCELERATOR_MEM_SIZE,
        fir_module_1 = new_fir 64 cf, fir_module_2 = new_fir 64 cf\<rparr>,
      build4 = b4, exec_pc = X_head, tmp_pinout = new_pinout, word_size = 0, fir1_pc = F_idle, fir2_pc = F_idle,
      sl_req = False, slave_port = new_pinout, sl_rdy = False, port_data = 0\<rparr>"

text \<open>A clock edge: \<open>execute\<close>, then the filters that were running before it; one that has just been started has
  written its first sample and waits for the next edge.\<close>

definition acc_edge :: "acc_dev \<Rightarrow> acc_dev res" where
  "acc_edge d =
     res_bind (execute d) (\<lambda>d1.
     res_bind (if fir2_pc d = F_idle then Inr d1 else acc_processing_fir2 d1) (\<lambda>d2.
     if fir1_pc d = F_idle then Inr d2 else acc_processing_fir1 d2))"

text \<open>The bus drives its lines between two edges; a rising request resumes \<open>execute\<close> at once.\<close>

definition acc_drive :: "bool \<times> pinout \<Rightarrow> acc_dev \<Rightarrow> acc_dev res" where
  "acc_drive l d =
     (let d' = d\<lparr>sl_req := fst l, slave_port := snd l\<rparr> in
      if exec_pc d = X_wait \<and> fst l \<and> \<not> sl_req d then get_request d' else Inr d')"

definition acc_cycle :: "bool \<times> pinout \<Rightarrow> acc_dev \<Rightarrow> acc_dev res" where
  "acc_cycle l d = res_bind (acc_drive l d) acc_edge"

fun acc_run :: "(bool \<times> pinout) list \<Rightarrow> acc_dev \<Rightarrow> acc_dev res" where
  "acc_run [] d = Inr d"
| "acc_run (l # ls) d = res_bind (acc_cycle l d) (acc_run ls)"

section \<open>The requests on the bus\<close>

text \<open>A word written to a filter: the interconnect keeps the request up until the ready signal has fallen again, three
  cycles after it has raised it. If another one is pending then it keeps the line up and changes the
  transaction; otherwise the line goes down and rises again at the earliest after the next edge.\<close>

datatype arrival = Queued | After nat

definition input_of :: "bool \<Rightarrow> addr" where "input_of q = (if q then INPUT2_ADDR else INPUT1_ADDR)"

definition output_of :: "bool \<Rightarrow> addr" where "output_of q = (if q then OUTPUT2_ADDR else OUTPUT1_ADDR)"

definition fir_of :: "bool \<Rightarrow> cl_acc \<Rightarrow> fir_module" where
  "fir_of q c = (if q then fir_module_2 c else fir_module_1 c)"

definition pc_of :: "bool \<Rightarrow> acc_dev \<Rightarrow> fir_pc" where
  "pc_of q d = (if q then fir2_pc d else fir1_pc d)"

fun lead :: "arrival \<Rightarrow> pinout \<Rightarrow> (bool \<times> pinout) list" where
  "lead Queued p = [(True, p)]"
| "lead (After n) p = replicate (Suc n) (False, p)"

definition request_lines :: "arrival \<Rightarrow> pinout \<Rightarrow> (bool \<times> pinout) list" where
  "request_lines a p = lead a p @ [(True, p), (True, p), (True, p)]"

type_synonym acc_op = "arrival \<times> bool \<times> u32"

fun bus_lines :: "acc_op list \<Rightarrow> (bool \<times> pinout) list" where
  "bus_lines [] = []"
| "bus_lines ((a, q, v) # ops) = request_lines a (word_write (input_of q) v) @ bus_lines ops"

definition channel :: "bool \<Rightarrow> acc_op list \<Rightarrow> u32 list" where
  "channel q ops = map (\<lambda>x. snd (snd x)) (filter (\<lambda>x. fst (snd x) = q) ops)"

definition samples :: "bool \<Rightarrow> u32 list \<Rightarrow> u32 list" where
  "samples b4 vs = concat (map (push_samples b4) vs)"

text \<open>The slave without work.\<close>

definition at_rest :: "acc_dev \<Rightarrow> bool" where
  "at_rest d \<longleftrightarrow> exec_pc d = X_wait \<and> \<not> sl_req d \<and> fir1_pc d = F_idle \<and> fir2_pc d = F_idle"

text \<open>What the build with four pushes asks of its users: between two writes to one channel that follow each other the
  request stays down for a second cycle. Only a request behind another one is queued.\<close>

fun spaced :: "bool \<Rightarrow> bool option \<Rightarrow> acc_op list \<Rightarrow> bool" where
  "spaced b4 prev [] = True"
| "spaced b4 prev ((a, q, v) # ops) =
     ((prev = None \<longrightarrow> a \<noteq> Queued) \<and> (b4 \<and> prev = Some q \<longrightarrow> a \<noteq> Queued \<and> a \<noteq> After 0) \<and> spaced b4 (Some q) ops)"

section \<open>The filters run along\<close>

text \<open>A filter has the words \<open>vs\<close> behind it, or has some samples of the last one before it.\<close>

definition chan_ok :: "bool \<Rightarrow> fir_module \<Rightarrow> u32 list \<Rightarrow> fir_module \<Rightarrow> fir_pc \<Rightarrow> u32 \<Rightarrow> bool" where
  "chan_ok b4 M vs m pc out \<longleftrightarrow>
     (case pc of
        F_idle \<Rightarrow> m = drive (samples b4 vs) M \<and> (vs \<noteq> [] \<longrightarrow> out = y_sig m)
      | F_run xs \<Rightarrow> drive xs m = drive (samples b4 vs) M)"

definition dev_ok :: "(bool \<Rightarrow> fir_module) \<Rightarrow> (bool \<Rightarrow> u32 list) \<Rightarrow> acc_dev \<Rightarrow> bool" where
  "dev_ok M vs d \<longleftrightarrow> acc_ok (acc d) \<and> acc_status (acc d) \<noteq> CL_ACC_STOP \<and>
     (\<forall>q. chan_ok (build4 d) (M q) (vs q) (fir_of q (acc d)) (pc_of q d) (acc_word (acc d) (output_of q)))"

text \<open>The cycles a filter still needs.\<close>

fun left :: "fir_pc \<Rightarrow> nat" where
  "left F_idle = 0"
| "left (F_run xs) = Suc (length xs)"

text \<open>What the filters leave alone.\<close>

definition same_exec :: "acc_dev \<Rightarrow> acc_dev \<Rightarrow> bool" where
  "same_exec d d' \<longleftrightarrow> exec_pc d' = exec_pc d \<and> build4 d' = build4 d \<and> tmp_pinout d' = tmp_pinout d \<and>
     word_size d' = word_size d \<and> sl_req d' = sl_req d \<and> slave_port d' = slave_port d \<and> sl_rdy d' = sl_rdy d \<and>
     port_data d' = port_data d \<and> (\<forall>q. acc_word (acc d') (input_of q) = acc_word (acc d) (input_of q))"

definition fir_step :: "bool \<Rightarrow> acc_dev \<Rightarrow> acc_dev res" where
  "fir_step q d = (if q then acc_processing_fir2 d else acc_processing_fir1 d)"

lemma regs_of [simp]:
  "input_of q \<in> acc_regs" "output_of q \<in> acc_regs" "input_of q \<noteq> output_of r" "output_of r \<noteq> input_of q"
  "input_of q = input_of r \<longleftrightarrow> q = r" "output_of q = output_of r \<longleftrightarrow> q = r"
  "input_of q \<noteq> ACCELERATOR_START_ADDR" "input_of q \<noteq> ACCELERATOR_READY_ADDR"
  using acc_regs_apart by (auto simp: input_of_def output_of_def split: if_splits)

lemma fir_step_ok:
  assumes "dev_ok M vs d"
  shows "\<exists>d'. fir_step q d = Inr d' \<and> dev_ok M vs d' \<and> same_exec d d' \<and>
    left (pc_of q d') = left (pc_of q d) - 1 \<and> pc_of (\<not> q) d' = pc_of (\<not> q) d"
proof -
  have ok: "acc_ok (acc d)" using assms by (simp add: dev_ok_def)
  show ?thesis
  proof (cases "pc_of q d")
    case F_idle
    then have "fir_step q d = Inr d"
      by (cases q) (simp_all add: fir_step_def pc_of_def acc_processing_fir1_def acc_processing_fir2_def)
    then show ?thesis using assms F_idle by (simp add: same_exec_def)
  next
    case (F_run xs)
    show ?thesis
    proof (cases xs)
      case Nil
      then show ?thesis using assms F_run
        by (cases q; cases "fir1_pc d"; cases "fir2_pc d"; auto simp: acc_word_access(2) [OF ok] fir_step_def pc_of_def acc_processing_fir1_def acc_processing_fir2_def dev_ok_def all_bool_eq
          chan_ok_def same_exec_def fir_of_def output_of_def input_of_def acc_word_set acc_regs_apart acc_regs_apart(2-7) [symmetric])
    next
      case (Cons x ys)
      then show ?thesis using assms F_run
        by (cases q; cases "fir1_pc d"; cases "fir2_pc d"; auto simp: fir_step_def pc_of_def acc_processing_fir1_def acc_processing_fir2_def dev_ok_def all_bool_eq
          chan_ok_def same_exec_def fir_of_def output_of_def input_of_def)
    qed
  qed
qed

lemma same_exec_trans: "same_exec d d' \<Longrightarrow> same_exec d' d'' \<Longrightarrow> same_exec d d''"
  by (simp add: same_exec_def)

lemma same_exec_refl [simp]: "same_exec d d"
  by (simp add: same_exec_def)

text \<open>A clock edge, given what \<open>execute\<close> does at it.\<close>

lemma edge_ok:
  assumes "execute d = Inr d1" "dev_ok M vs d1" and run: "\<And>q. pc_of q d \<noteq> F_idle \<Longrightarrow> pc_of q d1 = pc_of q d"
  shows "\<exists>d'. acc_edge d = Inr d' \<and> dev_ok M vs d' \<and> same_exec d1 d' \<and>
    (\<forall>q. left (pc_of q d') = left (pc_of q d1) - (if pc_of q d = F_idle then 0 else 1))"
proof -
  obtain d2 where d2: "(if fir2_pc d = F_idle then Inr d1 else acc_processing_fir2 d1) = Inr d2" "dev_ok M vs d2"
    "same_exec d1 d2" "left (pc_of True d2) = left (pc_of True d1) - (if pc_of True d = F_idle then 0 else 1)"
    "pc_of False d2 = pc_of False d1"
    using fir_step_ok [OF assms(2), of True] assms(2)
    by (cases "fir2_pc d = F_idle") (auto simp: fir_step_def pc_of_def)
  obtain d3 where d3: "(if fir1_pc d = F_idle then Inr d2 else acc_processing_fir1 d2) = Inr d3" "dev_ok M vs d3"
    "same_exec d2 d3" "left (pc_of False d3) = left (pc_of False d2) - (if pc_of False d = F_idle then 0 else 1)"
    "pc_of True d3 = pc_of True d2"
    using fir_step_ok [OF d2(2), of False] d2(2)
    by (cases "fir1_pc d = F_idle") (auto simp: fir_step_def pc_of_def)
  have "acc_edge d = Inr d3" using assms(1) d2(1) d3(1) by (simp add: acc_edge_def)
  moreover have "left (pc_of q d3) = left (pc_of q d1) - (if pc_of q d = F_idle then 0 else 1)" for q
    using d2(4,5) d3(4,5) by (cases q) simp_all
  ultimately show ?thesis using d3(2) same_exec_trans [OF d2(3) d3(3)] by blast
qed

text \<open>The same when \<open>execute\<close> starts no filter: every running filter comes one cycle closer to its end.\<close>

lemma edge_quiet:
  assumes "execute d = Inr d1" "dev_ok M vs d1" "\<And>q. pc_of q d1 = pc_of q d"
  shows "\<exists>d'. acc_edge d = Inr d' \<and> dev_ok M vs d' \<and> same_exec d1 d' \<and> (\<forall>q. left (pc_of q d') = left (pc_of q d) - 1)"
proof -
  from edge_ok [OF assms(1,2)] assms(3) obtain d' where d': "acc_edge d = Inr d'" "dev_ok M vs d'" "same_exec d1 d'"
    "\<forall>q. left (pc_of q d') = left (pc_of q d1) - (if pc_of q d = F_idle then 0 else 1)" by blast
  have "left (pc_of q d') = left (pc_of q d) - 1" for q
    using d'(4) assms(3) by (cases "pc_of q d = F_idle") simp_all
  then show ?thesis using d' by blast
qed

lemma fir_of_upd [simp]: "fir_of q (c\<lparr>acc_status := st\<rparr>) = fir_of q c" "fir_of q (set_acc_word a v c) = fir_of q c"
  by (simp_all add: fir_of_def)

lemma dev_ok_upd [simp]:
  "dev_ok M vs (d\<lparr>exec_pc := pc\<rparr>) = dev_ok M vs d" "dev_ok M vs (d\<lparr>sl_rdy := r\<rparr>) = dev_ok M vs d"
  "dev_ok M vs (d\<lparr>sl_req := r\<rparr>) = dev_ok M vs d" "dev_ok M vs (d\<lparr>slave_port := p\<rparr>) = dev_ok M vs d"
  "dev_ok M vs (d\<lparr>tmp_pinout := p\<rparr>) = dev_ok M vs d" "dev_ok M vs (d\<lparr>word_size := w\<rparr>) = dev_ok M vs d"
  "dev_ok M vs (d\<lparr>port_data := w\<rparr>) = dev_ok M vs d"
  "st \<noteq> CL_ACC_STOP \<Longrightarrow> acc_status (acc d) \<noteq> CL_ACC_STOP \<Longrightarrow>
    dev_ok M vs (d\<lparr>acc := (acc d)\<lparr>acc_status := st\<rparr>\<rparr>) = dev_ok M vs d"
  by (auto simp: dev_ok_def pc_of_def fir_of_def)

lemma pc_of_upd [simp]:
  "pc_of q (d\<lparr>exec_pc := pc\<rparr>) = pc_of q d" "pc_of q (d\<lparr>sl_rdy := r\<rparr>) = pc_of q d"
  "pc_of q (d\<lparr>sl_req := r\<rparr>) = pc_of q d" "pc_of q (d\<lparr>slave_port := p\<rparr>) = pc_of q d"
  "pc_of q (d\<lparr>tmp_pinout := p\<rparr>) = pc_of q d" "pc_of q (d\<lparr>word_size := w\<rparr>) = pc_of q d"
  "pc_of q (d\<lparr>port_data := w\<rparr>) = pc_of q d" "pc_of q (d\<lparr>acc := c\<rparr>) = pc_of q d"
  by (simp_all add: pc_of_def)

lemma dev_okD: "dev_ok M vs d \<Longrightarrow> acc_status (acc d) \<noteq> CL_ACC_STOP" "dev_ok M vs d \<Longrightarrow> acc_ok (acc d)"
  by (simp_all add: dev_ok_def)

text \<open>Between two requests.\<close>

definition between :: "acc_dev \<Rightarrow> bool" where
  "between d \<longleftrightarrow> exec_pc d = X_finish \<and> sl_req d \<or> exec_pc d = X_wait \<and> \<not> sl_req d"

lemma idle_cycle:
  assumes "dev_ok M vs d" "between d"
  shows "\<exists>d'. acc_cycle (False, p) d = Inr d' \<and> dev_ok M vs d' \<and> exec_pc d' = X_wait \<and> \<not> sl_req d' \<and>
    build4 d' = build4 d \<and> (\<forall>q. left (pc_of q d') = left (pc_of q d) - 1) \<and>
    (\<forall>r. acc_word (acc d') (input_of r) = acc_word (acc d) (input_of r))"
proof -
  let ?d = "d\<lparr>sl_req := False, slave_port := p\<rparr>"
  let ?d1 = "if exec_pc d = X_wait then ?d else ?d\<lparr>acc := (acc d)\<lparr>acc_status := CL_ACC_INACTIVE\<rparr>, exec_pc := X_wait\<rparr>"
  have drive: "acc_cycle (False, p) d = acc_edge ?d" by (simp add: acc_cycle_def acc_drive_def Let_def)
  have "execute ?d = Inr ?d1"
    using assms(2) by (auto simp: between_def execute_def loop_head_def Let_def)
  moreover have "dev_ok M vs ?d1" using assms(1) by (auto simp: dev_ok_def)
  moreover have "pc_of q ?d1 = pc_of q ?d" for q by simp
  ultimately obtain d' where d': "acc_edge ?d = Inr d'" "dev_ok M vs d'" "same_exec ?d1 d'"
    "\<forall>q. left (pc_of q d') = left (pc_of q ?d) - 1" using edge_quiet [of ?d ?d1 M vs] by blast
  then show ?thesis using assms(2) by (auto simp: drive between_def same_exec_def split: if_splits)
qed

section \<open>A request of a data register\<close>

lemma get_write:
  assumes "slave_port d = word_write (input_of q) v" "acc_status (acc d) \<noteq> CL_ACC_STOP"
  shows "get_request d = Inr (d\<lparr>tmp_pinout := word_write (input_of q) v, word_size := 4,
    acc := (acc d)\<lparr>acc_status := CL_ACC_WRITE\<rparr>, exec_pc := X_write (input_of q) 1\<rparr>)"
  using assms by (simp add: get_request_def Let_def write_loop_def)

lemma acc_drive_high: "exec_pc d \<noteq> X_wait \<Longrightarrow> acc_drive (True, p) d = Inr (d\<lparr>sl_req := True, slave_port := p\<rparr>)"
  by (simp add: acc_drive_def)

text \<open>\<open>execute\<close> at a clock edge, with what is fixed during a write of \<open>v\<close> to input \<open>q\<close>.\<close>

definition writing :: "bool \<Rightarrow> u32 \<Rightarrow> acc_dev \<Rightarrow> bool" where
  "writing q v d \<longleftrightarrow> tmp_pinout d = word_write (input_of q) v \<and> word_size d = 4 \<and> sl_req d"

lemma queued_cycle:
  assumes "dev_ok M vs d" "exec_pc d = X_finish"
  shows "\<exists>d'. acc_cycle (True, word_write (input_of q) v) d = Inr d' \<and> dev_ok M vs d' \<and>
    exec_pc d' = X_write (input_of q) 1 \<and> writing q v d' \<and> build4 d' = build4 d \<and>
    (\<forall>r. left (pc_of r d') = left (pc_of r d) - 1)"
proof -
  let ?d = "d\<lparr>sl_req := True, slave_port := word_write (input_of q) v\<rparr>"
  let ?d1 = "?d\<lparr>acc := (acc d)\<lparr>acc_status := CL_ACC_WRITE\<rparr>, tmp_pinout := word_write (input_of q) v, word_size := 4,
    exec_pc := X_write (input_of q) 1\<rparr>"
  have "execute ?d = Inr ?d1"
    using assms(2) get_write [of "?d\<lparr>acc := (acc d)\<lparr>acc_status := CL_ACC_INACTIVE\<rparr>\<rparr>" q v]
    by (simp add: execute_def loop_head_def Let_def)
  moreover have "dev_ok M vs ?d1" using assms(1) by (auto simp: dev_ok_def)
  moreover have "pc_of r ?d1 = pc_of r ?d" for r by simp
  ultimately obtain d' where d': "acc_edge ?d = Inr d'" "dev_ok M vs d'" "same_exec ?d1 d'"
    "\<forall>r. left (pc_of r d') = left (pc_of r ?d) - 1" using edge_quiet [of ?d ?d1 M vs] by blast
  then show ?thesis using assms(2) by (auto simp: acc_cycle_def acc_drive_high same_exec_def writing_def)
qed

lemma write_edge:
  assumes "dev_ok M vs d" "exec_pc d = X_write (input_of q) 1" "writing q v d"
  shows "\<exists>d'. acc_edge d = Inr d' \<and> dev_ok M vs d' \<and> exec_pc d' = X_written (input_of q) 1 \<and> writing q v d' \<and>
    acc_word (acc d') (input_of q) = v \<and> build4 d' = build4 d \<and> (\<forall>r. left (pc_of r d') = left (pc_of r d) - 1)"
proof -
  let ?d1 = "d\<lparr>acc := set_acc_word (input_of q) v (acc d), sl_rdy := False, exec_pc := X_written (input_of q) 1\<rparr>"
  have "acc_Write (input_of q) v 0 (acc d) = Inr (set_acc_word (input_of q) v (acc d))"
    using acc_word_access(2) [OF dev_okD(2) [OF assms(1)], of "input_of q" v] by (simp add: MEM_WORD_def)
  then have "execute d = Inr ?d1"
    using assms(2,3) by (simp add: execute_def writing_def Let_def)
  moreover have "dev_ok M vs ?d1" using assms(1) by (auto simp: dev_ok_def acc_word_set)
  moreover have "pc_of r ?d1 = pc_of r d" for r by simp
  ultimately obtain d' where d': "acc_edge d = Inr d'" "dev_ok M vs d'" "same_exec ?d1 d'"
    "\<forall>r. left (pc_of r d') = left (pc_of r d) - 1" using edge_quiet [of d ?d1 M vs] by blast
  then show ?thesis using assms(3) by (auto simp: same_exec_def writing_def acc_word_set)
qed

lemma write_cycle:
  assumes "dev_ok M vs d" "exec_pc d = X_write (input_of q) 1" "writing q v d"
  shows "\<exists>d'. acc_cycle (True, p) d = Inr d' \<and> dev_ok M vs d' \<and> exec_pc d' = X_written (input_of q) 1 \<and> writing q v d' \<and>
    acc_word (acc d') (input_of q) = v \<and> build4 d' = build4 d \<and> (\<forall>r. left (pc_of r d') = left (pc_of r d) - 1)"
  using write_edge [of M vs "d\<lparr>sl_req := True, slave_port := p\<rparr>" q v] assms
  by (simp add: acc_cycle_def acc_drive_high writing_def)

lemma rise_cycle:
  assumes "dev_ok M vs d" "exec_pc d = X_wait" "\<not> sl_req d"
  shows "\<exists>d'. acc_cycle (True, word_write (input_of q) v) d = Inr d' \<and> dev_ok M vs d' \<and>
    exec_pc d' = X_written (input_of q) 1 \<and> writing q v d' \<and>
    acc_word (acc d') (input_of q) = v \<and> build4 d' = build4 d \<and> (\<forall>r. left (pc_of r d') = left (pc_of r d) - 1)"
proof -
  let ?p = "word_write (input_of q) v"
  let ?d = "d\<lparr>sl_req := True, slave_port := ?p, tmp_pinout := ?p, word_size := 4,
    acc := (acc d)\<lparr>acc_status := CL_ACC_WRITE\<rparr>, exec_pc := X_write (input_of q) 1\<rparr>"
  have drive: "acc_drive (True, ?p) d = Inr ?d"
    using assms(2,3) get_write [of "d\<lparr>sl_req := True, slave_port := ?p\<rparr>" q v] dev_okD(1) [OF assms(1)]
    by (simp add: acc_drive_def)
  have ok: "dev_ok M vs ?d" using assms(1) by (auto simp: dev_ok_def)
  show ?thesis using write_edge [OF ok, of q v] by (simp add: acc_cycle_def drive writing_def)
qed

lemma acc_run_append: "acc_run (xs @ ys) d = res_bind (acc_run xs d) (acc_run ys)"
proof (induction xs arbitrary: d)
  case (Cons l ls)
  then show ?case by (cases "acc_cycle l d") auto
qed simp

lemma idle_run:
  assumes "dev_ok M vs d" "between d"
  shows "\<exists>d'. acc_run (replicate (Suc k) (False, p)) d = Inr d' \<and> dev_ok M vs d' \<and> exec_pc d' = X_wait \<and> \<not> sl_req d' \<and>
    build4 d' = build4 d \<and> (\<forall>q. left (pc_of q d') = left (pc_of q d) - Suc k) \<and>
    (\<forall>r. acc_word (acc d') (input_of r) = acc_word (acc d) (input_of r))"
  using assms
proof (induction k arbitrary: d)
  case 0
  then show ?case using idle_cycle [of M vs d p] by auto
next
  case (Suc k)
  obtain d1 where d1: "acc_cycle (False, p) d = Inr d1" "dev_ok M vs d1" "exec_pc d1 = X_wait" "\<not> sl_req d1"
    "build4 d1 = build4 d" "\<forall>q. left (pc_of q d1) = left (pc_of q d) - 1"
    "\<forall>r. acc_word (acc d1) (input_of r) = acc_word (acc d) (input_of r)"
    using idle_cycle [OF Suc.prems, of p] by blast
  have "between d1" using d1(3,4) by (simp add: between_def)
  from Suc.IH [OF d1(2) this] obtain d' where d': "acc_run (replicate (Suc k) (False, p)) d1 = Inr d'" "dev_ok M vs d'"
    "exec_pc d' = X_wait" "\<not> sl_req d'" "build4 d' = build4 d1" "\<forall>q. left (pc_of q d') = left (pc_of q d1) - Suc k"
    "\<forall>r. acc_word (acc d') (input_of r) = acc_word (acc d1) (input_of r)" by blast
  have "acc_run (replicate (Suc (Suc k)) (False, p)) d = Inr d'" using d1(1) d'(1) by simp
  then show ?case using d' d1(5-7) by auto
qed

text \<open>The cycles up to the one in which the word is stored.\<close>

lemma lead_run:
  assumes "dev_ok M vs d" "between d" "a = Queued \<Longrightarrow> exec_pc d = X_finish"
  shows "\<exists>d'. acc_run (lead a (word_write (input_of q) v) @ [(True, word_write (input_of q) v)]) d = Inr d' \<and>
    dev_ok M vs d' \<and> exec_pc d' = X_written (input_of q) 1 \<and> writing q v d' \<and>
    acc_word (acc d') (input_of q) = v \<and> build4 d' = build4 d \<and>
    (\<forall>r. left (pc_of r d') = left (pc_of r d) - (case a of Queued \<Rightarrow> 2 | After n \<Rightarrow> n + 2))"
proof (cases a)
  case Queued
  let ?p = "word_write (input_of q) v"
  obtain d1 where d1: "acc_cycle (True, ?p) d = Inr d1" "dev_ok M vs d1" "exec_pc d1 = X_write (input_of q) 1" "writing q v d1"
    "build4 d1 = build4 d" "\<forall>r. left (pc_of r d1) = left (pc_of r d) - 1"
    using queued_cycle [OF assms(1)] assms(3) Queued by blast
  obtain d2 where d2: "acc_cycle (True, ?p) d1 = Inr d2" "dev_ok M vs d2" "exec_pc d2 = X_written (input_of q) 1" "writing q v d2"
    "acc_word (acc d2) (input_of q) = v" "build4 d2 = build4 d1" "\<forall>r. left (pc_of r d2) = left (pc_of r d1) - 1"
    using write_cycle [OF d1(2-4)] by blast
  show ?thesis using d1 d2 by (auto simp: Queued)
next
  case (After n)
  let ?p = "word_write (input_of q) v"
  obtain d1 where d1: "acc_run (replicate (Suc n) (False, ?p)) d = Inr d1" "dev_ok M vs d1" "exec_pc d1 = X_wait" "\<not> sl_req d1"
    "build4 d1 = build4 d" "\<forall>q. left (pc_of q d1) = left (pc_of q d) - Suc n"
    using idle_run [OF assms(1,2)] by blast
  obtain d2 where d2: "acc_cycle (True, ?p) d1 = Inr d2" "dev_ok M vs d2" "exec_pc d2 = X_written (input_of q) 1" "writing q v d2"
    "acc_word (acc d2) (input_of q) = v" "build4 d2 = build4 d1" "\<forall>r. left (pc_of r d2) = left (pc_of r d1) - 1"
    using rise_cycle [OF d1(2-4)] by blast
  show ?thesis using d1 d2 by (auto simp: After acc_run_append simp del: replicate_Suc)
qed

text \<open>The cycle in which the filter is started, and the one in which the ready signal falls.\<close>

lemma samples_snoc [simp]: "samples b4 (vs @ [v]) = samples b4 vs @ push_samples b4 v"
  by (simp add: samples_def)

lemma push_samples_split: "drive (tl (push_samples b4 v)) (drive [hd (push_samples b4 v)] m) = drive (push_samples b4 v) m"
  by (simp add: push_samples_def)

definition started :: "bool \<Rightarrow> u32 \<Rightarrow> acc_dev \<Rightarrow> acc_dev" where
  "started q v d =
     (let xs = push_samples (build4 d) v; f = drive [hd xs] (fir_of q (acc d)) in
      if q then d\<lparr>acc := (acc d)\<lparr>fir_module_2 := f\<rparr>, fir2_pc := F_run (tl xs)\<rparr>
      else d\<lparr>acc := (acc d)\<lparr>fir_module_1 := f\<rparr>, fir1_pc := F_run (tl xs)\<rparr>)"

lemma started_sel [simp]:
  "pc_of r (started q v d) = (if r = q then F_run (tl (push_samples (build4 d) v)) else pc_of r d)"
  "exec_pc (started q v d) = exec_pc d" "build4 (started q v d) = build4 d" "sl_req (started q v d) = sl_req d"
  "tmp_pinout (started q v d) = tmp_pinout d" "word_size (started q v d) = word_size d"
  "acc_word (acc (started q v d)) a = acc_word (acc d) a" "acc_ok (acc (started q v d)) = acc_ok (acc d)"
  "acc_status (acc (started q v d)) = acc_status (acc d)"
  "fir_of r (acc (started q v d)) =
    (if r = q then drive [hd (push_samples (build4 d) v)] (fir_of q (acc d)) else fir_of r (acc d))"
  by (auto simp: started_def Let_def pc_of_def fir_of_def)

lemma dev_ok_started:
  assumes "dev_ok M vs d" "pc_of q d = F_idle"
  shows "dev_ok M (vs(q := vs q @ [v])) (started q v d)"
proof -
  have m: "fir_of q (acc d) = drive (samples (build4 d) (vs q)) (M q)"
    using assms by (auto simp: dev_ok_def chan_ok_def split: fir_pc.splits)
  show ?thesis using assms(1)
    by (auto simp: dev_ok_def chan_ok_def m drive_append push_samples_split simp del: drive.simps)
qed

lemma start_processing:
  assumes "acc_ok (acc d)" "pc_of q d = F_idle" "acc_word (acc d) (input_of q) = v"
  shows "(if q then start_processing_fir2 d else start_processing_fir1 d) = Inr (started q v d)"
  using assms acc_word_access(1) [OF assms(1), of "input_of q"]
  by (cases q) (simp_all add: start_processing_fir1_def start_processing_fir2_def started_def pc_of_def fir_of_def
    input_of_def Let_def)

lemma push_cycle:
  assumes "dev_ok M vs d" "exec_pc d = X_written (input_of q) 1" "writing q v d"
    and "acc_word (acc d) (input_of q) = v" "pc_of q d = F_idle"
  shows "\<exists>d'. acc_cycle (True, p) d = Inr d' \<and> dev_ok M (vs(q := vs q @ [v])) d' \<and> exec_pc d' = X_last \<and> sl_req d' \<and>
    build4 d' = build4 d \<and> left (pc_of q d') = length (push_samples (build4 d) v) \<and>
    left (pc_of (\<not> q) d') = left (pc_of (\<not> q) d) - 1"
proof -
  let ?d = "d\<lparr>sl_req := True, slave_port := p\<rparr>"
  let ?e = "?d\<lparr>sl_rdy := True\<rparr>"
  let ?d1 = "(started q v ?e)\<lparr>exec_pc := X_last\<rparr>"
  have dok: "dev_ok M vs ?e" using assms(1) by simp
  have "execute ?d = Inr ?d1"
    using start_processing [OF dev_okD(2) [OF dok], of q v] assms(2-5) acc_regs_apart(2)
    by (cases q) (auto simp: execute_def Let_def write_loop_def writing_def input_of_def)
  moreover have "dev_ok M (vs(q := vs q @ [v])) ?d1" using dev_ok_started [OF dok, of q v] assms(5) by simp
  moreover have "pc_of r ?d1 = pc_of r ?d" if "pc_of r ?d \<noteq> F_idle" for r using that assms(5) by (cases "r = q") simp_all
  ultimately obtain d' where d': "acc_edge ?d = Inr d'" "dev_ok M (vs(q := vs q @ [v])) d'" "same_exec ?d1 d'"
    "\<forall>r. left (pc_of r d') = left (pc_of r ?d1) - (if pc_of r ?d = F_idle then 0 else 1)"
    using edge_ok [of ?d ?d1 M "vs(q := vs q @ [v])"] by blast
  have "left (pc_of q d') = length (push_samples (build4 d) v)"
    using d'(4) [rule_format, of q] assms(5) by (simp add: push_samples_def)
  moreover have "left (pc_of (\<not> q) d') = left (pc_of (\<not> q) d) - 1"
    using d'(4) [rule_format, of "\<not> q"] by (auto split: if_splits)
  ultimately show ?thesis using d'(1-3) assms(2) by (auto simp: acc_cycle_def acc_drive_high same_exec_def)
qed

lemma last_cycle:
  assumes "dev_ok M vs d" "exec_pc d = X_last"
  shows "\<exists>d'. acc_cycle (True, p) d = Inr d' \<and> dev_ok M vs d' \<and> exec_pc d' = X_finish \<and> sl_req d' \<and>
    build4 d' = build4 d \<and> (\<forall>r. left (pc_of r d') = left (pc_of r d) - 1) \<and>
    (\<forall>r. acc_word (acc d') (input_of r) = acc_word (acc d) (input_of r))"
proof -
  let ?d = "d\<lparr>sl_req := True, slave_port := p\<rparr>"
  let ?d1 = "?d\<lparr>sl_rdy := False, exec_pc := X_finish\<rparr>"
  have "execute ?d = Inr ?d1" using assms(2) by (simp add: execute_def Let_def)
  moreover have "dev_ok M vs ?d1" using assms(1) by simp
  moreover have "pc_of r ?d1 = pc_of r ?d" for r by simp
  ultimately obtain d' where d': "acc_edge ?d = Inr d'" "dev_ok M vs d'" "same_exec ?d1 d'"
    "\<forall>r. left (pc_of r d') = left (pc_of r ?d) - 1" using edge_quiet [of ?d ?d1 M vs] by blast
  then show ?thesis using assms(2) by (auto simp: acc_cycle_def acc_drive_high same_exec_def)
qed

text \<open>One write of a word, when its filter is done in time.\<close>

lemma left_0 [simp]: "left pc = 0 \<longleftrightarrow> pc = F_idle"
  by (cases pc) simp_all

lemma one_write:
  assumes "dev_ok M vs d" "between d" "a = Queued \<Longrightarrow> exec_pc d = X_finish"
    and "left (pc_of q d) \<le> (case a of Queued \<Rightarrow> 2 | After n \<Rightarrow> n + 2)" "left (pc_of (\<not> q) d) \<le> 4"
  shows "\<exists>d'. acc_run (request_lines a (word_write (input_of q) v)) d = Inr d' \<and> dev_ok M (vs(q := vs q @ [v])) d' \<and>
    exec_pc d' = X_finish \<and> sl_req d' \<and> build4 d' = build4 d \<and>
    left (pc_of q d') = length (push_samples (build4 d) v) - 1 \<and> pc_of (\<not> q) d' = F_idle"
proof -
  let ?p = "word_write (input_of q) v" and ?n = "case a of Queued \<Rightarrow> 2 | After n \<Rightarrow> n + 2"
  obtain d1 where d1: "acc_run (lead a ?p @ [(True, ?p)]) d = Inr d1" "dev_ok M vs d1" "exec_pc d1 = X_written (input_of q) 1"
    "writing q v d1" "acc_word (acc d1) (input_of q) = v" "build4 d1 = build4 d"
    "\<forall>r. left (pc_of r d1) = left (pc_of r d) - ?n"
    using lead_run [OF assms(1-3), where q = q and v = v] by blast
  have idle: "pc_of q d1 = F_idle" using d1(7) assms(4) left_0 [of "pc_of q d1"] by simp
  obtain d2 where d2: "acc_cycle (True, ?p) d1 = Inr d2" "dev_ok M (vs(q := vs q @ [v])) d2" "exec_pc d2 = X_last" "sl_req d2"
    "build4 d2 = build4 d1" "left (pc_of q d2) = length (push_samples (build4 d1) v)"
    "left (pc_of (\<not> q) d2) = left (pc_of (\<not> q) d1) - 1"
    using push_cycle [OF d1(2-5) idle] by blast
  obtain d3 where d3: "acc_cycle (True, ?p) d2 = Inr d3" "dev_ok M (vs(q := vs q @ [v])) d3" "exec_pc d3 = X_finish" "sl_req d3"
    "build4 d3 = build4 d2" "\<forall>r. left (pc_of r d3) = left (pc_of r d2) - 1"
    using last_cycle [OF d2(2,3)] by blast
  have "request_lines a ?p = (lead a ?p @ [(True, ?p)]) @ [(True, ?p), (True, ?p)]" by (simp add: request_lines_def)
  then have "acc_run (request_lines a ?p) d = Inr d3" using d1(1) d2(1) d3(1) by (simp only: acc_run_append) simp
  moreover have "left (pc_of (\<not> q) d3) = left (pc_of (\<not> q) d) - (?n + 2)" using d1(7) d2(7) d3(6) by simp
  then have "left (pc_of (\<not> q) d3) = 0" using assms(5) by (cases a) simp_all
  then have "pc_of (\<not> q) d3 = F_idle" by (simp only: left_0)
  moreover have "left (pc_of q d3) = length (push_samples (build4 d) v) - 1" "build4 d3 = build4 d"
    using d1(6) d2(5,6) d3(5,6) by simp_all
  ultimately show ?thesis using d3(2-4) by blast
qed

section \<open>The two channels\<close>

definition add_ops :: "(bool \<Rightarrow> u32 list) \<Rightarrow> acc_op list \<Rightarrow> bool \<Rightarrow> u32 list" where
  "add_ops vs ops q = vs q @ channel q ops"

lemma add_ops_simps [simp]:
  "add_ops vs [] = vs" "add_ops vs ((a, q, v) # ops) = add_ops (vs(q := vs q @ [v])) ops"
  by (auto simp: add_ops_def channel_def fun_eq_iff)

text \<open>The cycles a filter may still need after the last request: none in the plain build, three in the other one, and only
  the filter of that request.\<close>

definition busy_at_most :: "bool option \<Rightarrow> acc_dev \<Rightarrow> bool" where
  "busy_at_most prev d \<longleftrightarrow>
     (\<forall>q. left (pc_of q d) \<le> (if build4 d \<and> prev = Some q then 3 else 0))"

lemma all_writes:
  assumes "dev_ok M vs d" "between d" "busy_at_most prev d" "prev \<noteq> None \<Longrightarrow> exec_pc d = X_finish" "spaced (build4 d) prev ops"
  shows "\<exists>d'. acc_run (bus_lines ops) d = Inr d' \<and> dev_ok M (add_ops vs ops) d' \<and> between d' \<and> build4 d' = build4 d \<and>
    (\<forall>q. left (pc_of q d') \<le> 3)"
  using assms
proof (induction ops arbitrary: d vs prev)
  case Nil
  have "left (pc_of q d) \<le> 3" for q using Nil.prems(3) by (auto simp: busy_at_most_def split: if_splits)
  then show ?case using Nil.prems by auto
next
  case (Cons x ops)
  obtain a q v where x: "x = (a, q, v)" by (cases x)
  have sp: "prev = None \<longrightarrow> a \<noteq> Queued" "build4 d \<and> prev = Some q \<longrightarrow> a \<noteq> Queued \<and> a \<noteq> After 0"
    "spaced (build4 d) (Some q) ops" using Cons.prems(5) by (simp_all add: x)
  have b: "left (pc_of r d) \<le> (if build4 d \<and> prev = Some r then 3 else 0)" for r
    using Cons.prems(3) by (simp add: busy_at_most_def)
  have "left (pc_of q d) \<le> (case a of Queued \<Rightarrow> 2 | After n \<Rightarrow> n + 2)"
  proof (cases "build4 d \<and> prev = Some q")
    case True
    then obtain n where "a = After (Suc n)" using sp(2) by (metis arrival.exhaust nat.exhaust)
    then show ?thesis using b [of q] True by simp
  qed (use b [of q] in auto)
  moreover have "left (pc_of (\<not> q) d) \<le> 4" using b [of "\<not> q"] by (auto split: if_splits)
  moreover have "a = Queued \<Longrightarrow> exec_pc d = X_finish" using sp(1) Cons.prems(4) by blast
  ultimately obtain d1 where d1: "acc_run (request_lines a (word_write (input_of q) v)) d = Inr d1"
    "dev_ok M (vs(q := vs q @ [v])) d1" "exec_pc d1 = X_finish" "sl_req d1" "build4 d1 = build4 d"
    "left (pc_of q d1) = length (push_samples (build4 d) v) - 1" "pc_of (\<not> q) d1 = F_idle"
    using one_write [OF Cons.prems(1,2), where a = a and q = q and v = v] by blast
  have "left (pc_of r d1) \<le> (if build4 d1 \<and> Some q = Some r then 3 else 0)" for r
    using d1(5-7) by (cases "r = q") (auto simp: push_samples_def)
  then have "busy_at_most (Some q) d1" by (simp add: busy_at_most_def)
  moreover have "between d1" using d1(3,4) by (simp add: between_def)
  moreover have "spaced (build4 d1) (Some q) ops" using sp(3) d1(5) by simp
  ultimately obtain d' where d': "acc_run (bus_lines ops) d1 = Inr d'" "dev_ok M (add_ops (vs(q := vs q @ [v])) ops) d'"
    "between d'" "build4 d' = build4 d1" "\<forall>q. left (pc_of q d') \<le> 3"
    using Cons.IH [OF d1(2), of "Some q"] d1(3) by blast
  then show ?case using d1(1,5) by (simp add: x acc_run_append)
qed

lemma all_writes_settled:
  assumes "acc_ok (acc d)" "acc_status (acc d) \<noteq> CL_ACC_STOP" "at_rest d" "spaced (build4 d) None ops" "3 \<le> k"
  shows "\<exists>d'. acc_run (bus_lines ops @ replicate k (False, p)) d = Inr d' \<and> at_rest d' \<and>
    acc_ok (acc d') \<and> acc_status (acc d') \<noteq> CL_ACC_STOP \<and>
    (\<forall>q. fir_of q (acc d') = drive (samples (build4 d) (channel q ops)) (fir_of q (acc d)) \<and>
      (channel q ops \<noteq> [] \<longrightarrow> acc_word (acc d') (output_of q) = y_sig (fir_of q (acc d'))))"
proof -
  let ?M = "\<lambda>q. fir_of q (acc d)"
  have rest: "pc_of q d = F_idle" for q using assms(3) by (simp add: at_rest_def pc_of_def)
  have "dev_ok ?M (\<lambda>_. []) d" using assms(1,2) rest by (simp add: dev_ok_def chan_ok_def samples_def)
  moreover have "between d" "busy_at_most None d" using assms(3) rest by (simp_all add: between_def at_rest_def busy_at_most_def)
  ultimately obtain d1 where d1: "acc_run (bus_lines ops) d = Inr d1" "dev_ok ?M (add_ops (\<lambda>_. []) ops) d1" "between d1"
    "build4 d1 = build4 d" "\<forall>q. left (pc_of q d1) \<le> 3" using all_writes [of ?M _ d None ops] assms(4) by auto
  obtain j where k: "k = Suc j" using assms(5) by (cases k) auto
  obtain d2 where d2: "acc_run (replicate k (False, p)) d1 = Inr d2" "dev_ok ?M (add_ops (\<lambda>_. []) ops) d2" "exec_pc d2 = X_wait"
    "\<not> sl_req d2" "build4 d2 = build4 d1" "\<forall>q. left (pc_of q d2) = left (pc_of q d1) - k"
    using idle_run [OF d1(2,3), of j p] unfolding k by blast
  have "left (pc_of q d2) = 0" for q using d2(6) d1(5) [rule_format, of q] assms(5) by simp
  then have idle: "pc_of q d2 = F_idle" for q by simp
  have "at_rest d2" using d2(3,4) idle [of True] idle [of False] by (simp add: at_rest_def pc_of_def)
  moreover have "add_ops (\<lambda>_. []) ops q = channel q ops" for q by (simp add: add_ops_def)
  ultimately show ?thesis using d1(1,4) d2 idle by (auto simp: acc_run_append dev_ok_def chan_ok_def)
qed

text \<open>Reading a register of the slave at rest.\<close>

lemma read_register:
  assumes "at_rest d" "acc_ok (acc d)" "acc_status (acc d) \<noteq> CL_ACC_STOP" "a \<in> acc_regs"
  shows "\<exists>d'. acc_run (request_lines (After 0) (word_read a)) d = Inr d' \<and> port_data d' = acc_word (acc d) a"
proof -
  have rd: "acc_Read (c\<lparr>acc_status := st\<rparr>) a 0 = acc_Read c a 0" for c st by (simp add: acc_Read_def)
  have v: "acc_Read (acc d) a 0 = Inr (acc_word (acc d) a)"
    using acc_word_access(1) [OF assms(2,4)] by (simp add: MEM_WORD_def)
  show ?thesis
    using assms(1,3) acc_regs_apart(1) [OF assms(4)]
    by (simp add: at_rest_def request_lines_def acc_cycle_def acc_drive_def Let_def acc_edge_def execute_def get_request_def
      read_loop_def rd v)
qed

text \<open>The event that is lost.\<close>

lemma lost_write:
  assumes "dev_ok M vs d" "between d" "pc_of q d = F_idle" "pc_of (\<not> q) d = F_idle" "build4 d" "exec_pc d = X_wait"
    and "a = Queued \<or> a = After 0" "3 \<le> k"
  shows "\<exists>d'. acc_run (bus_lines [(After 0, q, v), (a, q, w)] @ replicate k (False, p)) d = Inr d' \<and>
    dev_ok M (vs(q := vs q @ [v])) d' \<and> at_rest d' \<and> acc_word (acc d') (input_of q) = w \<and> build4 d'"
proof -
  let ?vs = "vs(q := vs q @ [v])" and ?p = "word_write (input_of q) v" and ?r = "word_write (input_of q) w"
  obtain d1 where d1: "acc_run (request_lines (After 0) ?p) d = Inr d1" "dev_ok M ?vs d1" "exec_pc d1 = X_finish" "sl_req d1"
    "build4 d1 = build4 d" "left (pc_of q d1) = length (push_samples (build4 d) v) - 1" "pc_of (\<not> q) d1 = F_idle"
    using one_write [OF assms(1,2), where a = "After 0" and q = q and v = v] assms(3,4) by auto
  have "between d1" using d1(3,4) by (simp add: between_def)
  then obtain d2 where d2: "acc_run (lead a ?r @ [(True, ?r)]) d1 = Inr d2" "dev_ok M ?vs d2" "exec_pc d2 = X_written (input_of q) 1"
    "writing q w d2" "acc_word (acc d2) (input_of q) = w" "build4 d2 = build4 d1"
    "\<forall>r. left (pc_of r d2) = left (pc_of r d1) - (case a of Queued \<Rightarrow> 2 | After n \<Rightarrow> n + 2)"
    using lead_run [OF d1(2), where a = a and q = q and v = w] d1(3) by blast
  have l: "left (pc_of q d2) = 1" "left (pc_of (\<not> q) d2) = 0"
    using d2(7) d1(6,7) assms(5,7) by (auto simp: push_samples_def)
  let ?d = "d2\<lparr>sl_req := True, slave_port := ?r\<rparr>"
  let ?e = "?d\<lparr>sl_rdy := True, exec_pc := X_last\<rparr>"
  have "pc_of q d2 \<noteq> F_idle" using l(1) by auto
  then have "execute ?d = Inr ?e"
    using d2(3,4) acc_regs_apart(2)
    by (cases q) (auto simp: execute_def Let_def write_loop_def writing_def input_of_def pc_of_def
      start_processing_fir1_def start_processing_fir2_def)
  moreover have "dev_ok M ?vs ?e" using d2(2) by simp
  moreover have "pc_of r ?e = pc_of r ?d" for r by simp
  ultimately obtain d3 where d3: "acc_edge ?d = Inr d3" "dev_ok M ?vs d3" "same_exec ?e d3"
    "\<forall>r. left (pc_of r d3) = left (pc_of r ?d) - 1" using edge_quiet [of ?d ?e M ?vs] by blast
  have c3: "acc_cycle (True, ?r) d2 = Inr d3" using d3(1) d2(3) by (simp add: acc_cycle_def acc_drive_high)
  have x3: "exec_pc d3 = X_last" "build4 d3 = build4 d2" "acc_word (acc d3) (input_of q) = w"
    using d3(3) d2(5) by (simp_all add: same_exec_def)
  obtain d4 where d4: "acc_cycle (True, ?r) d3 = Inr d4" "dev_ok M ?vs d4" "exec_pc d4 = X_finish" "sl_req d4"
    "build4 d4 = build4 d3" "\<forall>r. left (pc_of r d4) = left (pc_of r d3) - 1"
    "\<forall>r. acc_word (acc d4) (input_of r) = acc_word (acc d3) (input_of r)"
    using last_cycle [OF d3(2) x3(1)] by blast
  have "between d4" using d4(3,4) by (simp add: between_def)
  obtain j where k: "k = Suc j" using assms(8) by (cases k) auto
  obtain d5 where d5: "acc_run (replicate k (False, p)) d4 = Inr d5" "dev_ok M ?vs d5" "exec_pc d5 = X_wait" "\<not> sl_req d5"
    "build4 d5 = build4 d4" "\<forall>q. left (pc_of q d5) = left (pc_of q d4) - k"
    "\<forall>r. acc_word (acc d5) (input_of r) = acc_word (acc d4) (input_of r)"
    using idle_run [OF d4(2) \<open>between d4\<close>, of j p] unfolding k by blast
  have "left (pc_of r d5) = 0" for r using d5(6) d4(6) d3(4) l by (cases "r = q") auto
  then have "pc_of r d5 = F_idle" for r by simp
  then have "at_rest d5" using d5(3,4) by (simp add: at_rest_def pc_of_def) (metis (full_types))
  moreover have "request_lines a ?r = (lead a ?r @ [(True, ?r)]) @ [(True, ?r), (True, ?r)]" by (simp add: request_lines_def)
  then have "acc_run (request_lines a ?r) d1 = Inr d4" using d2(1) c3 d4(1) by (simp only: acc_run_append) simp
  then have "acc_run (bus_lines [(After 0, q, v), (a, q, w)] @ replicate k (False, p)) d = Inr d5"
    using d1(1) d5(1) by (simp add: acc_run_append)
  ultimately show ?thesis using d5 d4(5,7) x3 d2(6) d1(5) assms(5) by auto
qed

text \<open>C40: once the accelerator is started, however the words for its two filters are interleaved,
  each filter sees the words of its own channel only, in their order, and, three cycles after the last request or later,
  its output register reads as the output of its filter. This
  is so for every timing of the requests in the plain build, and in the build with four pushes, where a word is four
  samples, if between two requests to the same channel that follow each other the bus is quiet
  for a second cycle. Without that cycle the second word is stored in the input
  register but its event finds the filter in its last wait and is lost: no sample of
  it reaches the filter (last conjunct).\<close>

theorem accelerator_channels:
  assumes "mem_size (acc_memory (acc d)) = ACCELERATOR_MEM_SIZE" "acc_status (acc d) \<noteq> CL_ACC_STOP" "at_rest d" "3 \<le> k"
  shows "(spaced (build4 d) None ops \<longrightarrow>
      (\<exists>d'. acc_run (bus_lines ops @ replicate k (False, p)) d = Inr d' \<and> at_rest d' \<and>
        (\<forall>q. fir_of q (acc d') = drive (samples (build4 d) (channel q ops)) (fir_of q (acc d)) \<and>
          (channel q ops \<noteq> [] \<longrightarrow>
            (\<exists>d''. acc_run (request_lines (After 0) (word_read (output_of q))) d' = Inr d'' \<and>
              port_data d'' = y_sig (drive (samples (build4 d) (channel q ops)) (fir_of q (acc d)))))))) \<and>
    (build4 d \<and> (a = Queued \<or> a = After 0) \<longrightarrow>
      (\<exists>d'. acc_run (bus_lines [(After 0, q, v), (a, q, w)] @ replicate k (False, p)) d = Inr d' \<and> at_rest d' \<and>
        acc_word (acc d') (input_of q) = w \<and> fir_of q (acc d') = drive (push_samples True v) (fir_of q (acc d))))"
proof -
  let ?M = "\<lambda>q. fir_of q (acc d)"
  have ok: "acc_ok (acc d)" using assms(1) by (simp add: acc_ok_def)
  have rest: "pc_of q d = F_idle" for q using assms(3) by (simp add: at_rest_def pc_of_def)
  have dok: "dev_ok ?M (\<lambda>_. []) d" using ok assms(2) rest by (simp add: dev_ok_def chan_ok_def samples_def)
  have "between d" "exec_pc d = X_wait" using assms(3) by (simp_all add: between_def at_rest_def)
  note lost = lost_write [OF dok this(1) rest rest _ this(2) _ assms(4)]
  have "\<exists>d'. acc_run (bus_lines [(After 0, q, v), (a, q, w)] @ replicate k (False, p)) d = Inr d' \<and> at_rest d' \<and>
      acc_word (acc d') (input_of q) = w \<and> fir_of q (acc d') = drive (push_samples True v) (fir_of q (acc d))"
    if "build4 d" "a = Queued \<or> a = After 0"
  proof -
    from lost [OF that] obtain d' where d': "acc_run (bus_lines [(After 0, q, v), (a, q, w)] @ replicate k (False, p)) d = Inr d'"
      "dev_ok ?M ((\<lambda>_. [])(q := [] @ [v])) d'" "at_rest d'" "acc_word (acc d') (input_of q) = w" "build4 d'" by blast
    have "pc_of q d' = F_idle" using d'(3) by (simp add: at_rest_def pc_of_def)
    then have "fir_of q (acc d') = drive (push_samples True v) (fir_of q (acc d))"
      using d'(2,5) by (auto simp: dev_ok_def chan_ok_def samples_def split: fir_pc.splits)
    then show ?thesis using d' by blast
  qed
  moreover have "\<exists>d'. acc_run (bus_lines ops @ replicate k (False, p)) d = Inr d' \<and> at_rest d' \<and>
      (\<forall>q. fir_of q (acc d') = drive (samples (build4 d) (channel q ops)) (fir_of q (acc d)) \<and>
        (channel q ops \<noteq> [] \<longrightarrow>
          (\<exists>d''. acc_run (request_lines (After 0) (word_read (output_of q))) d' = Inr d'' \<and>
            port_data d'' = y_sig (drive (samples (build4 d) (channel q ops)) (fir_of q (acc d))))))"
    if sp: "spaced (build4 d) None ops"
  proof -
    obtain d' where d': "acc_run (bus_lines ops @ replicate k (False, p)) d = Inr d'" "at_rest d'"
      "acc_ok (acc d')" "acc_status (acc d') \<noteq> CL_ACC_STOP"
      "\<forall>q. fir_of q (acc d') = drive (samples (build4 d) (channel q ops)) (fir_of q (acc d)) \<and>
        (channel q ops \<noteq> [] \<longrightarrow> acc_word (acc d') (output_of q) = y_sig (fir_of q (acc d')))"
      using all_writes_settled [OF ok assms(2,3) sp assms(4)] by blast
    then show ?thesis using read_register [OF d'(2-4) regs_of(2)] by metis
  qed
  ultimately show ?thesis by blast
qed

text \<open>From its constructor the slave comes to rest, started, with one write of a program.\<close>

lemma start_up:
  "\<exists>d. acc_run [(False, p), (True, word_write ACCELERATOR_START_ADDR 1), (False, p)] (new_acc_dev b4 cf) = Inr d \<and>
    at_rest d \<and> build4 d = b4 \<and> acc_status (acc d) = CL_ACC_START \<and> mem_size (acc_memory (acc d)) = ACCELERATOR_MEM_SIZE \<and>
    (\<forall>q. fir_of q (acc d) = new_fir 64 cf)"
  by (simp add: acc_cycle_def acc_drive_def acc_edge_def execute_def loop_head_def get_request_def Let_def new_acc_dev_def
    at_rest_def fir_of_def new_mem_def)

theorem accelerator_channels_witness:
  "\<exists>d d' d''. acc_run [(False, new_pinout), (True, word_write ACCELERATOR_START_ADDR 1), (False, new_pinout)]
      (new_acc_dev True (replicate 64 1)) = Inr d \<and>
    acc_run (bus_lines [(After 0, False, 3), (Queued, True, 5), (Queued, False, 4)] @ replicate 3 (False, new_pinout)) d = Inr d' \<and>
    fir_of False (acc d') = drive [0, 0, 0, 3, 0, 0, 0, 4] (new_fir 64 (replicate 64 1)) \<and>
    acc_run (bus_lines [(After 0, False, 3), (Queued, False, 4)] @ replicate 3 (False, new_pinout)) d = Inr d'' \<and>
    fir_of False (acc d'') = drive [0, 0, 0, 3] (new_fir 64 (replicate 64 1))"
proof -
  obtain d where d: "acc_run [(False, new_pinout), (True, word_write ACCELERATOR_START_ADDR 1), (False, new_pinout)]
      (new_acc_dev True (replicate 64 1)) = Inr d" "at_rest d" "build4 d" "acc_status (acc d) = CL_ACC_START"
    "mem_size (acc_memory (acc d)) = ACCELERATOR_MEM_SIZE" "\<forall>q. fir_of q (acc d) = new_fir 64 (replicate 64 1)"
    using start_up [of new_pinout True "replicate 64 1"] by blast
  have "acc_status (acc d) \<noteq> CL_ACC_STOP" using d(4) by simp
  note channels = accelerator_channels [OF d(5) this d(2) order_refl]
  have b: "push_samples True 3 = [0, 0, 0, 3]" "push_samples True 4 = [0, 0, 0, 4]"
    by (simp_all add: push_samples_def byte_sample_def)
  let ?ops = "[(After 0, False, 3), (Queued, True, 5), (Queued, False, 4)]"
  have sp: "spaced (build4 d) None ?ops" by simp
  have ch: "samples (build4 d) (channel False ?ops) = [0, 0, 0, 3, 0, 0, 0, 4]"
    using d(3) by (simp add: samples_def channel_def b)
  obtain d' where "acc_run (bus_lines ?ops @ replicate 3 (False, new_pinout)) d = Inr d'"
    "fir_of False (acc d') = drive (samples (build4 d) (channel False ?ops)) (fir_of False (acc d))"
    using channels [of ?ops new_pinout] sp by blast
  moreover obtain d'' where "acc_run (bus_lines [(After 0, False, 3), (Queued, False, 4)] @ replicate 3 (False, new_pinout)) d = Inr d''"
    "fir_of False (acc d'') = drive (push_samples True 3) (fir_of False (acc d))"
    using channels [where a = Queued and q = False and v = 3 and w = 4 and p = new_pinout] d(3) by blast
  ultimately show ?thesis using d(1,6) unfolding ch b by metis
qed

section \<open>What a program sees\<close>

text \<open>In the plain build a request of one word, followed by a cycle in which the bus is quiet, is one step of the
  slave: the threads do what \<open>acc_store\<close> and \<open>acc_load\<close> of \<open>Accelerator\<close> say, and are at rest again.\<close>

lemma acc_edge_idle: "fir1_pc d = F_idle \<Longrightarrow> fir2_pc d = F_idle \<Longrightarrow> acc_edge d = execute d"
  by (cases "execute d") (simp_all add: acc_edge_def)

lemma plain_write:
  assumes "fir1_pc d = F_idle" "fir2_pc d = F_idle" "\<not> build4 d" "acc_ok (acc d)" "exec_pc d = X_written (input_of q) 1"
    and "writing q v d" "acc_word (acc d) (input_of q) = v"
  shows "\<exists>d'. acc_run [(True, p), (True, p), (False, p')] d = Inr d' \<and> at_rest d' \<and> \<not> build4 d' \<and>
    acc d' = (let f = drive [v] (fir_of q (acc d)); c = set_acc_word (output_of q) (y_sig f) (acc d) in
      if q then c\<lparr>fir_module_2 := f, acc_status := CL_ACC_INACTIVE\<rparr> else c\<lparr>fir_module_1 := f, acc_status := CL_ACC_INACTIVE\<rparr>)"
proof -
  let ?d = "d\<lparr>sl_req := True, slave_port := p, sl_rdy := True\<rparr>"
  let ?d1 = "(started q v ?d)\<lparr>exec_pc := X_last\<rparr>"
  have "execute (d\<lparr>sl_req := True, slave_port := p\<rparr>) = Inr ?d1"
    using start_processing [of ?d q v] assms acc_regs_apart(2)
    by (cases q) (auto simp: execute_def Let_def write_loop_def writing_def input_of_def pc_of_def)
  then have c1: "acc_cycle (True, p) d = Inr ?d1"
    using assms(1,2,5) by (simp add: acc_cycle_def acc_drive_high acc_edge_idle)
  let ?c = "(set_acc_word (output_of q) (y_sig (drive [v] (fir_of q (acc d)))) (acc ?d1))\<lparr>acc_status := CL_ACC_INACTIVE\<rparr>"
  let ?d2 = "?d\<lparr>sl_rdy := False, exec_pc := X_finish, acc := ?c\<rparr>"
  have "execute (?d1\<lparr>sl_req := True, slave_port := p\<rparr>) = Inr (?d1\<lparr>sl_rdy := False, exec_pc := X_finish\<rparr>)"
    by (cases q) (simp_all add: execute_def started_def Let_def)
  then have c2: "acc_cycle (True, p) ?d1 = Inr ?d2"
    using assms(1-4) acc_word_access(2) [of "acc ?d1"] regs_of(2) [of q]
    by (cases q) (simp_all add: acc_cycle_def acc_drive_high acc_edge_def acc_processing_fir1_def acc_processing_fir2_def
      started_def Let_def push_samples_def output_of_def fir_of_def)
  let ?d3 = "?d2\<lparr>sl_req := False, slave_port := p', exec_pc := X_wait\<rparr>"
  have c3: "acc_cycle (False, p') ?d2 = Inr ?d3"
    using assms(1,2) by (simp add: acc_cycle_def acc_drive_def acc_edge_idle execute_def loop_head_def Let_def)
  have "acc_run [(True, p), (True, p), (False, p')] d = Inr ?d3" by (simp only: acc_run.simps c1 c2 c3 res_bind.simps)
  moreover have "at_rest ?d3" "\<not> build4 ?d3" using assms(1-3) by (simp_all add: at_rest_def)
  moreover have "acc ?d3 = (let f = drive [v] (fir_of q (acc d)); c = set_acc_word (output_of q) (y_sig f) (acc d) in
      if q then c\<lparr>fir_module_2 := f, acc_status := CL_ACC_INACTIVE\<rparr> else c\<lparr>fir_module_1 := f, acc_status := CL_ACC_INACTIVE\<rparr>)"
    using assms(3) by (cases q) (simp_all add: started_def Let_def push_samples_def set_acc_word_def)
  ultimately show ?thesis by blast
qed

theorem settled_store:
  assumes "at_rest d" "\<not> build4 d" "acc_ok (acc d)" "acc_status (acc d) \<noteq> CL_ACC_STOP"
  shows "\<exists>d'. acc_run (request_lines (After 0) (word_write (input_of q) v) @ [(False, p)]) d = Inr d' \<and> at_rest d' \<and>
    \<not> build4 d' \<and> acc_store (input_of q) v (acc d) = Inr (acc d')"
proof -
  let ?p = "word_write (input_of q) v"
  have rest: "exec_pc d = X_wait" "\<not> sl_req d" "fir1_pc d = F_idle" "fir2_pc d = F_idle" using assms(1) by (simp_all add: at_rest_def)
  let ?d0 = "d\<lparr>sl_req := False, slave_port := ?p\<rparr>"
  have c0: "acc_cycle (False, ?p) d = Inr ?d0"
    using rest by (simp add: acc_cycle_def acc_drive_def acc_edge_idle execute_def Let_def)
  let ?d1 = "d\<lparr>sl_req := True, slave_port := ?p, tmp_pinout := ?p, word_size := 4, sl_rdy := False,
    acc := set_acc_word (input_of q) v ((acc d)\<lparr>acc_status := CL_ACC_WRITE\<rparr>), exec_pc := X_written (input_of q) 1\<rparr>"
  have "acc_Write (input_of q) v 0 ((acc d)\<lparr>acc_status := CL_ACC_WRITE\<rparr>) =
      Inr (set_acc_word (input_of q) v ((acc d)\<lparr>acc_status := CL_ACC_WRITE\<rparr>))"
    using acc_word_access(2) [of "(acc d)\<lparr>acc_status := CL_ACC_WRITE\<rparr>" "input_of q" v] assms(3) by (simp add: MEM_WORD_def)
  then have c1: "acc_cycle (True, ?p) ?d0 = Inr ?d1"
    using rest assms(4) get_write [of "d\<lparr>sl_req := True, slave_port := ?p\<rparr>" q v]
    by (simp add: acc_cycle_def acc_drive_def acc_edge_idle execute_def Let_def)
  obtain d' where d': "acc_run [(True, ?p), (True, ?p), (False, p)] ?d1 = Inr d'" "at_rest d'" "\<not> build4 d'"
    "acc d' = (let f = drive [v] (fir_of q (acc ?d1)); c = set_acc_word (output_of q) (y_sig f) (acc ?d1) in
      if q then c\<lparr>fir_module_2 := f, acc_status := CL_ACC_INACTIVE\<rparr> else c\<lparr>fir_module_1 := f, acc_status := CL_ACC_INACTIVE\<rparr>)"
    using plain_write [of ?d1 q v ?p p] rest assms(2,3) by (auto simp: writing_def acc_word_set)
  have "acc_run (request_lines (After 0) ?p @ [(False, p)]) d = Inr d'"
    using c0 c1 d'(1) by (simp add: request_lines_def)
  moreover have "acc_store (input_of q) v (acc d) = Inr (acc d')"
    using assms(3,4) d'(4)
    by (cases q) (simp_all add: input_of_def output_of_def fir_of_def acc_store_input push1_def push2_def Let_def set_acc_word_def)
  ultimately show ?thesis using d'(2,3) by blast
qed

theorem settled_load:
  assumes "at_rest d" "acc_ok (acc d)" "acc_status (acc d) \<noteq> CL_ACC_STOP" "a \<in> acc_regs"
  shows "\<exists>d'. acc_run (request_lines (After 0) (word_read a) @ [(False, p)]) d = Inr d' \<and> at_rest d' \<and>
    build4 d' = build4 d \<and> acc_load a (acc d) = Inr (port_data d', acc d')"
proof -
  let ?p = "word_read a" and ?w = "acc_word (acc d) a"
  have rest: "exec_pc d = X_wait" "\<not> sl_req d" "fir1_pc d = F_idle" "fir2_pc d = F_idle" using assms(1) by (simp_all add: at_rest_def)
  note cycle = acc_cycle_def acc_drive_def acc_edge_idle execute_def Let_def
  have v: "acc_Read ((acc d)\<lparr>acc_status := CL_ACC_READ\<rparr>) a 0 = Inr ?w"
    using acc_word_access(1) [of "(acc d)\<lparr>acc_status := CL_ACC_READ\<rparr>" a] assms(2,4) by (simp add: MEM_WORD_def)
  let ?d0 = "d\<lparr>sl_req := False, slave_port := ?p\<rparr>"
  let ?d1 = "d\<lparr>sl_req := True, slave_port := ?p, tmp_pinout := ?p, word_size := 4, acc := (acc d)\<lparr>acc_status := CL_ACC_READ\<rparr>,
    sl_rdy := False, exec_pc := X_fetched a 1 ?w\<rparr>"
  let ?d2 = "?d1\<lparr>port_data := ?w, sl_rdy := True, exec_pc := X_last\<rparr>"
  let ?d3 = "?d2\<lparr>sl_rdy := False, exec_pc := X_finish\<rparr>"
  let ?d4 = "?d3\<lparr>sl_req := False, slave_port := p, acc := (acc d)\<lparr>acc_status := CL_ACC_INACTIVE\<rparr>, exec_pc := X_wait\<rparr>"
  have g: "get_request (d\<lparr>sl_req := True, slave_port := ?p\<rparr>) =
      Inr (d\<lparr>sl_req := True, slave_port := ?p, tmp_pinout := ?p, word_size := 4, acc := (acc d)\<lparr>acc_status := CL_ACC_READ\<rparr>,
        exec_pc := X_read a 1\<rparr>)"
    using assms(3) acc_regs_apart(1) [OF assms(4)] by (simp add: get_request_def read_loop_def Let_def)
  have c0: "acc_cycle (False, ?p) d = Inr ?d0" using rest by (simp add: cycle)
  have c1: "acc_cycle (True, ?p) ?d0 = Inr ?d1" using rest g v by (simp add: cycle)
  have c2: "acc_cycle (True, ?p) ?d1 = Inr ?d2" using rest by (simp add: cycle read_loop_def)
  have c3: "acc_cycle (True, ?p) ?d2 = Inr ?d3" using rest by (simp add: cycle)
  have c4: "acc_cycle (False, p) ?d3 = Inr ?d4" using rest by (simp add: cycle loop_head_def)
  have "acc_run (request_lines (After 0) ?p @ [(False, p)]) d = Inr ?d4"
    by (simp only: request_lines_def lead.simps replicate.simps append.simps acc_run.simps c0 c1 c2 c3 c4 res_bind.simps)
  moreover have "at_rest ?d4" using rest by (simp add: at_rest_def)
  ultimately show ?thesis using acc_load_reg [OF assms(2,4,3)] by auto
qed

text \<open>The same for the two control registers, whose requests are answered at once.\<close>

theorem settled_control:
  assumes "at_rest d" "p = word_write ACCELERATOR_START_ADDR v \<or> p = word_read ACCELERATOR_READY_ADDR"
  shows "\<exists>d'. acc_run [(False, p), (True, p), (False, p)] d = Inr d' \<and> at_rest d' \<and> build4 d' = build4 d \<and>
    (if p_rw p then acc_store ACCELERATOR_START_ADDR v (acc d) = Inr (acc d')
     else acc_load ACCELERATOR_READY_ADDR (acc d) = Inr (port_data d', acc d'))"
proof -
  have rest: "exec_pc d = X_wait" "\<not> sl_req d" "fir1_pc d = F_idle" "fir2_pc d = F_idle" using assms(1) by (simp_all add: at_rest_def)
  note cycle = acc_cycle_def acc_drive_def acc_edge_idle execute_def Let_def
  define c where "c = (if p_rw p then (acc d)\<lparr>acc_status := if v = 1 then CL_ACC_START else CL_ACC_INACTIVE\<rparr> else acc d)"
  define w :: u32 where "w = (if p_rw p then port_data d
    else if acc_status (acc d) = CL_ACC_INACTIVE \<or> acc_status (acc d) = CL_ACC_START then 1 else 0)"
  have sel: "p_bw p = 0" using assms(2) by auto
  let ?d0 = "d\<lparr>sl_req := False, slave_port := p\<rparr>"
  let ?g = "d\<lparr>sl_req := True, slave_port := p, tmp_pinout := p, word_size := 4, acc := c, port_data := w, sl_rdy := True,
    exec_pc := X_answered\<rparr>"
  let ?d1 = "?g\<lparr>sl_rdy := False, exec_pc := X_head\<rparr>"
  let ?d2 = "?d1\<lparr>sl_req := False, exec_pc := X_wait\<rparr>"
  have "ACCELERATOR_READY_ADDR \<noteq> ACCELERATOR_START_ADDR" by (simp add: acc_addresses)
  then have g: "get_request (d\<lparr>sl_req := True, slave_port := p\<rparr>) = Inr ?g"
    using assms(2) by (elim disjE) (simp_all add: get_request_def Let_def c_def w_def)
  have c0: "acc_cycle (False, p) d = Inr ?d0" using rest by (simp add: cycle)
  have c1: "acc_cycle (True, p) ?d0 = Inr ?d1" using rest g by (simp add: cycle)
  have c2: "acc_cycle (False, p) ?d1 = Inr ?d2" using rest by (simp add: cycle loop_head_def)
  have "acc_run [(False, p), (True, p), (False, p)] d = Inr ?d2" by (simp only: acc_run.simps c0 c1 c2 res_bind.simps)
  moreover have "at_rest ?d2" using rest by (simp add: at_rest_def)
  moreover have "if p_rw p then acc_store ACCELERATOR_START_ADDR v (acc d) = Inr c
     else acc_load ACCELERATOR_READY_ADDR (acc d) = Inr (w, c)"
    using assms(2) by (elim disjE) (simp_all add: acc_store_def acc_load_def acc_request_def Let_def c_def w_def)
  ultimately show ?thesis by auto
qed

end
