(* ===== verification/Acc_App.thy ===== *)
theory Acc_App
  imports Accelerator Fir_App
begin

text \<open>
  The programs that use the accelerator: the test
  \<open>virtualsoc-apps/hw_acceleration_test/hw_acceleration.c\<close> and the receiver
  \<open>virtualsoc-apps/wcdma_hw/wcdma.c\<close>, which replaces the filter and the demapper of
  \<open>wcdma/wcdma.c\<close> by the two filters of the accelerator. What a program prints is its result.
\<close>

section \<open>The test program\<close>

fun hw_test_loop :: "nat list \<Rightarrow> cl_acc \<Rightarrow> ((u32 \<times> u32) list \<times> cl_acc) res" where
  "hw_test_loop [] c = Inr ([], c)"
| "hw_test_loop (i # is) c =
     res_bind (acc_write_word 0 (of_nat i) c) (\<lambda>c.
     res_bind (acc_write_word 8 (of_nat i + 3) c) (\<lambda>c.
     res_bind (acc_wait c) (\<lambda>c.
     res_bind (acc_read_word 4 c) (\<lambda>(v1, c).
     res_bind (acc_read_word 12 c) (\<lambda>(v2, c).
     res_map (\<lambda>(vs, c). ((v1, v2) # vs, c)) (hw_test_loop is c))))))"

definition hw_test_main :: "nat \<Rightarrow> cl_acc \<Rightarrow> (u32 \<times> u32) list res" where
  "hw_test_main num_proc c =
     (if num_proc = 1
      then res_bind (acc_start c) (\<lambda>c.
           res_bind (acc_wait c) (\<lambda>c.
           res_map fst (hw_test_loop [0..<10] c)))
      else Inr [])"

section \<open>The receiver\<close>

text \<open>\<open>>> 26\<close> on the \<open>int\<close> the driver returns is an arithmetic shift.\<close>

definition shift26 :: "u32 \<Rightarrow> u32" where
  "shift26 v = signed_drop_bit 26 v"

definition hw_sample :: "u32 list \<Rightarrow> u32 list \<Rightarrow> nat \<Rightarrow> nat \<Rightarrow> u32 list \<times> cl_acc \<Rightarrow>
    (u32 list \<times> cl_acc) res" where
  "hw_sample sigI sigQ offsetBufferInit iBuffer st =
     (case st of (sg, c) \<Rightarrow>
     res_bind (array_get sigI (iBuffer + offsetBufferInit)) (\<lambda>x.
     res_bind (acc_write_word 0 x c) (\<lambda>c.
     res_bind (array_get sigQ (iBuffer + offsetBufferInit)) (\<lambda>y.
     res_bind (acc_write_word 8 y c) (\<lambda>c.
     if iBuffer > 6 \<and> (iBuffer - 7) mod 4 = 0 then
       (let add = (iBuffer - 7) div 2 in
        res_bind (acc_read_word 4 c) (\<lambda>(v, c).
        res_bind (array_set sg add (shift26 v)) (\<lambda>sg.
        res_bind (acc_read_word 12 c) (\<lambda>(w, c).
        res_bind (array_set sg (add + 1) (shift26 w)) (\<lambda>sg.
        Inr (sg, c))))))
     else Inr (sg, c))))))"

fun hw_samples :: "u32 list \<Rightarrow> u32 list \<Rightarrow> nat \<Rightarrow> nat list \<Rightarrow> u32 list \<times> cl_acc \<Rightarrow>
    (u32 list \<times> cl_acc) res" where
  "hw_samples sigI sigQ off [] st = Inr st"
| "hw_samples sigI sigQ off (b # bs) st =
     res_bind (hw_sample sigI sigQ off b st) (hw_samples sigI sigQ off bs)"

definition hw_symbol :: "u32 list \<Rightarrow> u32 list \<Rightarrow> nat \<Rightarrow> u32 list \<times> cl_acc \<Rightarrow>
    (bool \<times> u32 list \<times> cl_acc) res" where
  "hw_symbol sigI sigQ iSymbol st =
     (case st of (sg, c) \<Rightarrow>
     res_bind (keep_half 0 sg) (\<lambda>sg.
     res_bind (hw_samples sigI sigQ (iSymbol * bufferSize) [0..<bufferSize] (sg, c)) (\<lambda>(sg, c).
     res_bind (require (13 \<le> length sg) FUndef) (\<lambda>_.
     Inr (0 <s rake_unrolled sg, sg, c)))))"

fun hw_receive :: "u32 list \<Rightarrow> u32 list \<Rightarrow> nat list \<Rightarrow> u32 list \<times> cl_acc \<Rightarrow> (bool list \<times> u32 list \<times> cl_acc) res" where
  "hw_receive sigI sigQ [] st = Inr ([], st)"
| "hw_receive sigI sigQ (k # ks) st =
     res_bind (hw_symbol sigI sigQ k st) (\<lambda>(b, st).
     res_map (\<lambda>(bs, st). (b # bs, st)) (hw_receive sigI sigQ ks st))"

definition wcdma_hw_main :: "nat \<Rightarrow> u32 list \<Rightarrow> u32 list \<Rightarrow> cl_acc \<Rightarrow> bool list option res" where
  "wcdma_hw_main num_proc sigI sigQ c =
     (if num_proc = 1
      then res_bind (acc_start c) (\<lambda>c.
           res_bind (acc_wait c) (\<lambda>c.
           res_map (\<lambda>(bs, st). Some bs) (hw_receive sigI sigQ [0..<NB_SYMBOL] (replicate 16 0, c))))
      else Inr None)"

section \<open>The accelerator seen from a program\<close>

text \<open>The accelerator after the samples \<open>xs\<close> on its first and \<open>ys\<close> on its second channel.\<close>

definition acc_at :: "u32 list \<Rightarrow> u32 list \<Rightarrow> u32 list \<Rightarrow> cl_acc \<Rightarrow> bool" where
  "acc_at cf xs ys c \<longleftrightarrow> acc_ok c \<and> acc_status c = CL_ACC_INACTIVE \<and>
     fir_module_1 c = drive xs (new_fir (length cf) cf) \<and>
     fir_module_2 c = drive ys (new_fir (length cf) cf) \<and>
     (xs \<noteq> [] \<longrightarrow> acc_word c OUTPUT1_ADDR = y_sig (fir_module_1 c)) \<and>
     (ys \<noteq> [] \<longrightarrow> acc_word c OUTPUT2_ADDR = y_sig (fir_module_2 c))"

lemma acc_at_push1: "acc_at cf xs ys c \<Longrightarrow>
  \<exists>c'. acc_write_word 0 v c = Inr c' \<and> acc_at cf (xs @ [v]) ys c'"
  by (auto simp: acc_at_def acc_offsets acc_store_input drive_append)

lemma acc_at_push2: "acc_at cf xs ys c \<Longrightarrow>
  \<exists>c'. acc_write_word 8 v c = Inr c' \<and> acc_at cf xs (ys @ [v]) c'"
  by (auto simp: acc_at_def acc_offsets acc_store_input drive_append)

lemma acc_at_read1: "acc_at cf xs ys c \<Longrightarrow> xs \<noteq> [] \<Longrightarrow>
  acc_read_word 4 c = Inr (y_sig (drive xs (new_fir (length cf) cf)), c)"
  by (auto simp: acc_at_def acc_offsets acc_load_reg)

lemma acc_at_read2: "acc_at cf xs ys c \<Longrightarrow> ys \<noteq> [] \<Longrightarrow>
  acc_read_word 12 c = Inr (y_sig (drive ys (new_fir (length cf) cf)), c)"
  by (auto simp: acc_at_def acc_offsets acc_load_reg)

lemma acc_wait_inactive: "acc_status c = CL_ACC_INACTIVE \<Longrightarrow> acc_wait c = Inr c"
  by (simp add: acc_wait_def acc_load_def acc_request_def acc_init_start_def acc_store_def Let_def)

lemma acc_started:
  "res_bind (acc_start c) (\<lambda>c. res_bind (acc_wait c) f) = f (c\<lparr>acc_status := CL_ACC_INACTIVE\<rparr>)"
  by (simp add: acc_start_def acc_wait_def acc_load_def acc_request_def acc_init_start_def
      acc_store_def Let_def)

section \<open>What the test prints\<close>

lemma distinct_of_nat: "b \<le> 1000 \<Longrightarrow> distinct (map (of_nat :: nat \<Rightarrow> u32) [a..<b])"
proof -
  assume "b \<le> 1000"
  have "inj_on (of_nat :: nat \<Rightarrow> u32) {a..<b}"
  proof (rule inj_onI)
    fix x y assume "x \<in> {a..<b}" "y \<in> {a..<b}" and e: "(of_nat x :: u32) = of_nat y"
    then have "x < 1000" "y < 1000" using \<open>b \<le> 1000\<close> by auto
    then have "unat (of_nat x :: u32) = x" "unat (of_nat y :: u32) = y"
      by (intro unat_of_nat32, linarith)+
    then show "x = y" using e by metis
  qed
  then show ?thesis by (simp add: distinct_map)
qed

lemma test_stream1:
  assumes "i < 10"
  shows "tl (remdups_adj (0 # map of_nat [0..<Suc i])) = map (of_nat :: nat \<Rightarrow> u32) [1..<Suc i]"
proof -
  have "0 # map of_nat [0..<Suc i] = (0 :: u32) # 0 # map of_nat [1..<Suc i]"
    by (simp add: upt_conv_Cons del: upt_Suc)
  moreover have "distinct ((0 :: u32) # map of_nat [1..<Suc i])"
    using distinct_of_nat [of "Suc i" 0] assms by (simp add: upt_conv_Cons del: upt_Suc)
  ultimately show ?thesis by (simp only: remdups_adj.simps(3) if_True remdups_adj_distinct) simp
qed

lemma test_stream2:
  assumes "i < 10"
  shows "tl (remdups_adj (0 # map (\<lambda>j. of_nat j + 3) [0..<Suc i])) = map (\<lambda>j. of_nat j + 3 :: u32) [0..<Suc i]"
proof -
  have m: "map (\<lambda>j. of_nat j + 3) [0..<Suc i] = map (of_nat :: nat \<Rightarrow> u32) [3..<Suc i + 3]"
    by (rule nth_equalityI) (simp_all del: upt_Suc)
  have d: "distinct (map (of_nat :: nat \<Rightarrow> u32) [0..<Suc i + 3])"
    using assms by (intro distinct_of_nat) simp
  have "[0..<Suc i + 3] = 0 # 1 # 2 # [3..<Suc i + 3]"
    by (simp add: upt_conv_Cons numeral_3_eq_3 numeral_2_eq_2 del: upt_Suc)
  then have "distinct ((0 :: u32) # map of_nat [3..<Suc i + 3])" using d by simp
  then show ?thesis unfolding m by (simp only: remdups_adj_distinct list.sel)
qed

lemma stream_upt:
  "stream (map f [a..<b]) n = (if 0 \<le> n \<and> n < int b - int a then f (a + nat n) else 0)"
  by (auto simp: stream_def)

definition test_out1 :: "u32 list \<Rightarrow> nat \<Rightarrow> u32" where
  "test_out1 cf i = (\<Sum>j < 64. cf ! j * (if i < 6 + j then 0 else of_nat (i - 5 - j)))"

definition test_out2 :: "u32 list \<Rightarrow> nat \<Rightarrow> u32" where
  "test_out2 cf i = (\<Sum>j < 64. cf ! j * (if i < 5 + j then 0 else of_nat (i - 5 - j) + 3))"

lemma test_out:
  assumes "length cf = 64" "i < 10"
  shows "y_sig (drive (map of_nat [0..<Suc i]) (new_fir (length cf) cf)) = test_out1 cf i"
    and "y_sig (drive (map (\<lambda>j. of_nat j + 3) [0..<Suc i]) (new_fir (length cf) cf)) = test_out2 cf i"
proof -
  have ne: "cf \<noteq> []" using assms(1) by auto
  have "y_sig (drive (map of_nat [0..<Suc i]) (new_fir (length cf) cf)) =
      (\<Sum>j < 64. cf ! j * stream (map of_nat [1..<Suc i]) (int i - 6 - int j))"
    unfolding drive_at [OF ne refl] test_stream1 [OF assms(2)]
    by (simp add: fir_at_def sum_list_products assms(1) get_level_number_64 del: upt_Suc)
  also have "\<dots> = test_out1 cf i" unfolding test_out1_def stream_upt
    by (rule sum.cong [OF refl]) (auto simp: nat_diff_distrib of_nat_diff algebra_simps)
  finally show "y_sig (drive (map of_nat [0..<Suc i]) (new_fir (length cf) cf)) = test_out1 cf i" .
  have "y_sig (drive (map (\<lambda>j. of_nat j + 3) [0..<Suc i]) (new_fir (length cf) cf)) =
      (\<Sum>j < 64. cf ! j * stream (map (\<lambda>j. of_nat j + 3) [0..<Suc i]) (int i - 5 - int j))"
    unfolding drive_at [OF ne refl] test_stream2 [OF assms(2)]
    by (simp add: fir_at_def sum_list_products assms(1) get_level_number_64 del: upt_Suc)
  also have "\<dots> = test_out2 cf i" unfolding test_out2_def stream_upt
    by (rule sum.cong [OF refl]) (auto simp: nat_diff_distrib of_nat_diff algebra_simps)
  finally show "y_sig (drive (map (\<lambda>j. of_nat j + 3) [0..<Suc i]) (new_fir (length cf) cf)) = test_out2 cf i" .
qed

lemma hw_test_loop_eq:
  assumes "length cf = 64"
  shows "acc_at cf (map of_nat [0..<10 - m]) (map (\<lambda>j. of_nat j + 3) [0..<10 - m]) c \<Longrightarrow> m \<le> 10 \<Longrightarrow>
    \<exists>c'. hw_test_loop [10 - m..<10] c = Inr (map (\<lambda>i. (test_out1 cf i, test_out2 cf i)) [10 - m..<10], c')"
proof (induction m arbitrary: c)
  case (Suc m)
  define k where "k = 10 - Suc m"
  have k: "[k..<10] = k # [10 - m..<10]" "10 - m = Suc k" "k < 10"
  proof -
    have "Suc k = 10 - m" "k < 10" using Suc.prems(2) by (simp_all add: k_def)
    then show "[k..<10] = k # [10 - m..<10]" "10 - m = Suc k" "k < 10"
      using upt_conv_Cons [of k 10] by simp_all
  qed
  obtain c1 where c1: "acc_write_word 0 (of_nat k) c = Inr c1"
    "acc_at cf (map of_nat [0..<Suc k]) (map (\<lambda>j. of_nat j + 3) [0..<k]) c1"
    using acc_at_push1 [OF Suc.prems(1), of "of_nat k"] by (auto simp: k_def)
  obtain c2 where c2: "acc_write_word 8 (of_nat k + 3) c1 = Inr c2"
    "acc_at cf (map of_nat [0..<Suc k]) (map (\<lambda>j. of_nat j + 3) [0..<Suc k]) c2"
    using acc_at_push2 [OF c1(2), of "of_nat k + 3"] by auto
  have r: "acc_read_word 4 c2 = Inr (test_out1 cf k, c2)" "acc_read_word 12 c2 = Inr (test_out2 cf k, c2)"
    using acc_at_read1 [OF c2(2)] acc_at_read2 [OF c2(2)] test_out [OF assms k(3)] by (auto simp del: upt_Suc)
  have w: "acc_wait c2 = Inr c2" using c2(2) by (simp add: acc_wait_inactive acc_at_def)
  obtain c3 where c3: "hw_test_loop [10 - m..<10] c2 =
      Inr (map (\<lambda>i. (test_out1 cf i, test_out2 cf i)) [10 - m..<10], c3)"
    using Suc.IH [of c2] c2(2) Suc.prems(2) k(2) by auto
  show ?case unfolding k_def [symmetric] k(1)
    by (intro exI [of _ c3]) (simp add: c1 c2 r w c3)
qed simp

definition fresh_acc :: "u32 list \<Rightarrow> cl_acc \<Rightarrow> bool" where
  "fresh_acc cf c \<longleftrightarrow> mem_size (acc_memory c) = ACCELERATOR_MEM_SIZE \<and> acc_status c = CL_ACC_STOP \<and>
     fir_module_1 c = new_fir 64 cf \<and> fir_module_2 c = new_fir 64 cf"

lemma fresh_acc_at:
  "fresh_acc cf c \<Longrightarrow> length cf = 64 \<Longrightarrow> acc_at cf [] [] (c\<lparr>acc_status := CL_ACC_INACTIVE\<rparr>)"
  by (simp add: fresh_acc_def acc_at_def acc_ok_def)

text \<open>The test of the accelerator terminates without an error and prints, at iteration \<open>i\<close>,
  the two convolutions at the sample six writes before; but the first word of the first channel, a
  0, equals the initial value of the input and is dropped, so the two channels are one sample apart.\<close>

theorem hw_test_prints:
  assumes "length cf = 64" "fresh_acc cf c"
  shows "hw_test_main 1 c = Inr (map (\<lambda>i. (test_out1 cf i, test_out2 cf i)) [0..<10])"
  using hw_test_loop_eq [OF assms(1), of 10] fresh_acc_at [OF assms(2,1)]
  by (auto simp: hw_test_main_def acc_started simp del: upt.simps)

definition demo_fresh :: cl_acc where
  "demo_fresh = \<lparr>acc_status = CL_ACC_STOP, acc_memory = new_mem ACCELERATOR_MEM_SIZE,
     fir_module_1 = new_fir 64 (1 # replicate 63 0), fir_module_2 = new_fir 64 (1 # replicate 63 0)\<rparr>"

lemma fresh_demo: "fresh_acc (1 # replicate 63 0) demo_fresh"
  by (simp add: fresh_acc_def demo_fresh_def new_mem_def)

theorem hw_test_prints_witness:
  "hw_test_main 1 demo_fresh =
    Inr (map (\<lambda>i. (test_out1 (1 # replicate 63 0) i, test_out2 (1 # replicate 63 0) i)) [0..<10])"
  by (rule hw_test_prints [OF _ fresh_demo]) simp

section \<open>What the receiver decides\<close>

definition hw_out :: "u32 list \<Rightarrow> u32 list \<Rightarrow> nat \<Rightarrow> u32" where
  "hw_out cf sig t = shift26 (y_sig (drive (take (Suc t) sig) (new_fir 64 cf)))"

definition hw_upd :: "u32 list \<Rightarrow> u32 list \<Rightarrow> u32 list \<Rightarrow> nat \<Rightarrow> u32 list \<Rightarrow> nat \<Rightarrow> u32 list" where
  "hw_upd cf sigI sigQ off sg b =
     (if b > 6 \<and> (b - 7) mod 4 = 0
      then sg[(b - 7) div 2 := hw_out cf sigI (b + off), (b - 7) div 2 + 1 := hw_out cf sigQ (b + off)]
      else sg)"

lemma hw_sample_eq:
  assumes "length cf = 64" "acc_at cf (take (b + off) sigI) (take (b + off) sigQ) c"
    and "b + off < length sigI" "b + off < length sigQ" "length sg = 16" "b < 16"
  shows "\<exists>c'. hw_sample sigI sigQ off b (sg, c) = Inr (hw_upd cf sigI sigQ off sg b, c') \<and>
    acc_at cf (take (Suc (b + off)) sigI) (take (Suc (b + off)) sigQ) c'"
proof -
  have t: "take (b + off) sigI @ [sigI ! (b + off)] = take (Suc (b + off)) sigI"
    "take (b + off) sigQ @ [sigQ ! (b + off)] = take (Suc (b + off)) sigQ"
    using assms(3,4) by (simp_all add: take_Suc_conv_app_nth)
  obtain c1 where c1: "acc_write_word 0 (sigI ! (b + off)) c = Inr c1"
    "acc_at cf (take (Suc (b + off)) sigI) (take (b + off) sigQ) c1"
    using acc_at_push1 [OF assms(2)] t by metis
  obtain c2 where c2: "acc_write_word 8 (sigQ ! (b + off)) c1 = Inr c2"
    "acc_at cf (take (Suc (b + off)) sigI) (take (Suc (b + off)) sigQ) c2"
    using acc_at_push2 [OF c1(2)] t by metis
  have ne: "take (Suc (b + off)) sigI \<noteq> []" "take (Suc (b + off)) sigQ \<noteq> []" using t by (metis snoc_eq_iff_butlast)+
  have l: "(b - 7) div 2 + 1 < length sg" using assms(5,6) by simp
  show ?thesis
    using acc_at_read1 [OF c2(2) ne(1)] acc_at_read2 [OF c2(2) ne(2)] c1 c2 assms l
    by (auto simp: hw_sample_def hw_upd_def hw_out_def Let_def)
qed

lemma hw_samples_eq:
  assumes "length cf = 64" "16 + off \<le> length sigI" "16 + off \<le> length sigQ"
  shows "m \<le> 16 \<Longrightarrow> acc_at cf (take (16 - m + off) sigI) (take (16 - m + off) sigQ) c \<Longrightarrow> length sg = 16 \<Longrightarrow>
    \<exists>c'. hw_samples sigI sigQ off [16 - m..<16] (sg, c) =
      Inr (foldl (hw_upd cf sigI sigQ off) sg [16 - m..<16], c') \<and>
    acc_at cf (take (16 + off) sigI) (take (16 + off) sigQ) c'"
proof (induction m arbitrary: c sg)
  case (Suc m)
  define b where "b = 16 - Suc m"
  have b: "[b..<16] = b # [16 - m..<16]" "Suc b = 16 - m" "b < 16"
  proof -
    have "Suc b = 16 - m" "b < 16" using Suc.prems(1) by (simp_all add: b_def)
    then show "[b..<16] = b # [16 - m..<16]" "Suc b = 16 - m" "b < 16"
      using upt_conv_Cons [of b 16] by simp_all
  qed
  obtain c1 where c1: "hw_sample sigI sigQ off b (sg, c) = Inr (hw_upd cf sigI sigQ off sg b, c1)"
    "acc_at cf (take (16 - m + off) sigI) (take (16 - m + off) sigQ) c1"
  proof -
    have "b + off < length sigI" "b + off < length sigQ" using assms b(3) by linarith+
    moreover have "Suc (b + off) = 16 - m + off" using b(2) by simp
    ultimately show thesis
      using hw_sample_eq [OF assms(1) Suc.prems(2) [folded b_def] _ _ Suc.prems(3) b(3)] that by metis
  qed
  have "length (hw_upd cf sigI sigQ off sg b) = 16" using Suc.prems(3) by (simp add: hw_upd_def)
  then obtain c2 where "hw_samples sigI sigQ off [16 - m..<16] (hw_upd cf sigI sigQ off sg b, c1) =
      Inr (foldl (hw_upd cf sigI sigQ off) (hw_upd cf sigI sigQ off sg b) [16 - m..<16], c2)"
    "acc_at cf (take (16 + off) sigI) (take (16 + off) sigQ) c2"
    using Suc.IH c1(2) Suc.prems(1) by (metis Suc_leD)
  then show ?case unfolding b_def [symmetric] b(1) using c1(1) by simp
qed simp

lemma upt_16: "[0..<16] = [0, 1, 2, 3, 4, 5, 6, 7, 8, 9, 10, 11, 12, 13, 14, 15]"
  by code_simp

text \<open>The buffer after symbol \<open>k\<close>: the second half is never written.\<close>

definition hw_buffer :: "u32 list \<Rightarrow> u32 list \<Rightarrow> u32 list \<Rightarrow> nat \<Rightarrow> u32 list" where
  "hw_buffer cf sigI sigQ off =
     [hw_out cf sigI (7 + off), hw_out cf sigQ (7 + off), hw_out cf sigI (11 + off),
      hw_out cf sigQ (11 + off), hw_out cf sigI (15 + off), hw_out cf sigQ (15 + off),
      0, 0, 0, 0, 0, 0, 0, 0, 0, 0]"

lemma hw_fold:
  "foldl (hw_upd cf sigI sigQ off) [a0, a1, a2, a3, a4, a5, 0, 0, 0, 0, 0, 0, 0, 0, 0, 0] [0..<16] =
    hw_buffer cf sigI sigQ off"
  by (simp add: upt_16 hw_upd_def hw_buffer_def)

definition hw_decision :: "u32 list \<Rightarrow> u32 list \<Rightarrow> u32 list \<Rightarrow> nat \<Rightarrow> bool" where
  "hw_decision cf sigI sigQ k =
     (let I = (\<lambda>i. hw_out cf sigI (16 * k + i)); Q = (\<lambda>i. hw_out cf sigQ (16 * k + i)) in
      0 <s - I 7 - 2 * Q 7 - I 11 - I 15 - 2 * Q 15)"

lemma hw_symbol_eq:
  assumes "length cf = 64" "16 * k + 16 \<le> length sigI" "16 * k + 16 \<le> length sigQ"
    and "acc_at cf (take (16 * k) sigI) (take (16 * k) sigQ) c"
    and "sg = [a0, a1, a2, a3, a4, a5, 0, 0, 0, 0, 0, 0, 0, 0, 0, 0]"
  shows "\<exists>c'. hw_symbol sigI sigQ k (sg, c) =
      Inr (hw_decision cf sigI sigQ k, hw_buffer cf sigI sigQ (16 * k), c') \<and>
    acc_at cf (take (16 * k + 16) sigI) (take (16 * k + 16) sigQ) c'"
proof -
  have kp: "keep_half 0 sg = Inr [0, a1, 0, a3, 0, a5, 0, 0, 0, 0, 0, 0, 0, 0, 0, 0]"
    unfolding assms(5) keep_half_eq ..
  have B: "bufferSize = 16" by (simp add: bufferSize_def SF_def SAMPLING_FACTOR_def)
  obtain c' where c': "hw_samples sigI sigQ (16 * k) [0..<16]
      ([0, a1, 0, a3, 0, a5, 0, 0, 0, 0, 0, 0, 0, 0, 0, 0], c) = Inr (hw_buffer cf sigI sigQ (16 * k), c')"
    "acc_at cf (take (16 + 16 * k) sigI) (take (16 + 16 * k) sigQ) c'"
    using hw_samples_eq [OF assms(1), of "16 * k" sigI sigQ 16 c "[0, a1, 0, a3, 0, a5, 0, 0, 0, 0, 0, 0, 0, 0, 0, 0]"]
      assms(2-4) hw_fold [of cf sigI sigQ "16 * k" 0 a1 0 a3 0 a5] by auto
  have d: "(0 <s rake_unrolled (hw_buffer cf sigI sigQ (16 * k))) = hw_decision cf sigI sigQ k"
    by (simp add: hw_decision_def Let_def rake_unrolled_def hw_buffer_def add.commute)
  have l: "13 \<le> length (hw_buffer cf sigI sigQ (16 * k))" by (simp add: hw_buffer_def)
  show ?thesis
    using c' d l by (simp add: hw_symbol_def kp B mult.commute add.commute)
qed

lemma hw_receive_eq:
  assumes "length cf = 64" "16 * n \<le> length sigI" "16 * n \<le> length sigQ"
  shows "m \<le> n \<Longrightarrow> acc_at cf (take (16 * m) sigI) (take (16 * m) sigQ) c \<Longrightarrow>
    sg = [a0, a1, a2, a3, a4, a5, 0, 0, 0, 0, 0, 0, 0, 0, 0, 0] \<Longrightarrow>
    \<exists>st. hw_receive sigI sigQ [m..<n] (sg, c) = Inr (map (hw_decision cf sigI sigQ) [m..<n], st)"
proof (induction "n - m" arbitrary: m c sg a0 a1 a2 a3 a4 a5)
  case (Suc d)
  then have m: "m < n" by simp
  then have "16 * m + 16 \<le> 16 * n" by simp
  then have fit: "16 * m + 16 \<le> length sigI" "16 * m + 16 \<le> length sigQ" using assms by linarith+
  obtain c' where c': "hw_symbol sigI sigQ m (sg, c) =
      Inr (hw_decision cf sigI sigQ m, hw_buffer cf sigI sigQ (16 * m), c')"
    "acc_at cf (take (16 * Suc m) sigI) (take (16 * Suc m) sigQ) c'"
    using hw_symbol_eq [OF assms(1) fit Suc.prems(2,3)] by (auto simp: add.commute)
  obtain st where "hw_receive sigI sigQ [Suc m..<n] (hw_buffer cf sigI sigQ (16 * m), c') =
      Inr (map (hw_decision cf sigI sigQ) [Suc m..<n], st)"
  proof -
    have "d = n - Suc m" "Suc m \<le> n" using Suc.hyps(2) m by simp_all
    from Suc.hyps(1) [OF this c'(2) hw_buffer_def] show thesis using that by blast
  qed
  then show ?case using c'(1) m by (simp add: upt_conv_Cons)
qed simp

text \<open>The receiver on the accelerator prints a decision for each of the 64 symbols, the sign of
  a sum of six filter outputs read at the samples 7, 11 and 15 of the symbol. It writes the first six
  words of its buffer only, so the terms of the decision that belong to the second half of the code
  (positions 7 to 12) are always 0, and no sample of an earlier symbol takes part in it.\<close>

theorem hw_receiver_decodes:
  assumes "length cf = 64" "1024 \<le> length sigI" "1024 \<le> length sigQ" "fresh_acc cf c"
  shows "wcdma_hw_main 1 sigI sigQ c = Inr (Some (map (hw_decision cf sigI sigQ) [0..<64]))"
proof -
  have "replicate 16 0 = [0, 0, 0, 0, 0, 0, 0, 0, 0, 0, 0, 0, 0, 0, 0, 0 :: u32]"
    by (simp add: numeral_eq_Suc)
  from hw_receive_eq [OF assms(1), of 64 sigI sigQ 0, OF _ _ _ _ this]
  show ?thesis using assms(2,3) fresh_acc_at [OF assms(4,1)]
    by (auto simp: wcdma_hw_main_def acc_started NB_SYMBOL_def simp del: upt.simps)
qed

theorem hw_receiver_decodes_witness:
  "wcdma_hw_main 1 (replicate 1036 1) (replicate 1036 2) demo_fresh =
    Inr (Some (map (hw_decision (1 # replicate 63 0) (replicate 1036 1) (replicate 1036 2)) [0..<64]))"
  by (rule hw_receiver_decodes [OF _ _ _ fresh_demo]) simp_all

end
