(* ===== verification/Sim_Support.thy ===== *)
theory Sim_Support
  imports Mem_Class
begin

text \<open>
  The simulation support device: \<open>Sim_Support::catch_sim_message\<close>
  (\<open>virtualsoc/src/core/sim_support.cpp\<close>, its addresses in \<open>sim_support_flags.h\<close>) and the
  functions of \<open>virtualsoc-apps/support/simulator/appsupport.c\<close> that programs call.
  The switch over the addresses is one definition per group of cases; a group that does not
  know an address leaves it to the next. The simulated time of an access is a parameter
  (\<open>sc_simulation_time\<close>, a whole number of time units); what is printed and the calls into the
  statistics object are recorded in a log.
\<close>

section \<open>Addresses and print flags\<close>

named_theorems sim_addresses \<open>the addresses of the device\<close>

definition START_METRIC_ADDRESS :: u32 where [sim_addresses]: "START_METRIC_ADDRESS = 0x0"
definition STOP_METRIC_ADDRESS :: u32 where [sim_addresses]: "STOP_METRIC_ADDRESS = 0x4"
definition ENDBOOT_ADDRESS :: u32 where [sim_addresses]: "ENDBOOT_ADDRESS = 0x8"
definition SHUTDOWN_ADDRESS :: u32 where [sim_addresses]: "SHUTDOWN_ADDRESS = 0xc"
definition DUMP_ADDRESS :: u32 where [sim_addresses]: "DUMP_ADDRESS = 0x10"
definition DUMP_LIGHT_ADDRESS :: u32 where [sim_addresses]: "DUMP_LIGHT_ADDRESS = 0x14"
definition CLEAR_ADDRESS :: u32 where [sim_addresses]: "CLEAR_ADDRESS = 0x18"
definition GET_CPU_ID_ADDRESS :: u32 where [sim_addresses]: "GET_CPU_ID_ADDRESS = 0x20"
definition GET_CPU_CNT_ADDRESS :: u32 where [sim_addresses]: "GET_CPU_CNT_ADDRESS = 0x24"
definition GET_CPU_TILE_ADDRESS :: u32 where [sim_addresses]: "GET_CPU_TILE_ADDRESS = 0x28"
definition GET_LOCAL_ID_ADDRESS :: u32 where [sim_addresses]: "GET_LOCAL_ID_ADDRESS = 0x2c"
definition GET_TILE_ID_ADDRESS :: u32 where [sim_addresses]: "GET_TILE_ID_ADDRESS = 0x200"
definition SET_REQ_IO_ADDRESS :: u32 where [sim_addresses]: "SET_REQ_IO_ADDRESS = 0x30"
definition GET_TIME_ADDRESS_LO :: u32 where [sim_addresses]: "GET_TIME_ADDRESS_LO = 0x40"
definition GET_TIME_ADDRESS_HI :: u32 where [sim_addresses]: "GET_TIME_ADDRESS_HI = 0x44"
definition GET_CYCLE_ADDRESS_LO :: u32 where [sim_addresses]: "GET_CYCLE_ADDRESS_LO = 0x48"
definition GET_CYCLE_ADDRESS_HI :: u32 where [sim_addresses]: "GET_CYCLE_ADDRESS_HI = 0x4c"
definition STOP_TIME_ADDRESS :: u32 where [sim_addresses]: "STOP_TIME_ADDRESS = 0x50"
definition RELEASE_TIME_ADDRESS :: u32 where [sim_addresses]: "RELEASE_TIME_ADDRESS = 0x54"
definition STOP_CYCLE_ADDRESS :: u32 where [sim_addresses]: "STOP_CYCLE_ADDRESS = 0x58"
definition RELEASE_CYCLE_ADDRESS :: u32 where [sim_addresses]: "RELEASE_CYCLE_ADDRESS = 0x5c"
definition DEBUG_MSG_STRING_ADDRESS :: u32 where [sim_addresses]: "DEBUG_MSG_STRING_ADDRESS = 0x60"
definition DEBUG_MSG_VALUE_ADDRESS :: u32 where [sim_addresses]: "DEBUG_MSG_VALUE_ADDRESS = 0x64"
definition DEBUG_MSG_MODE_ADDRESS :: u32 where [sim_addresses]: "DEBUG_MSG_MODE_ADDRESS = 0x68"
definition DEBUG_MSG_ID_ADDRESS :: u32 where [sim_addresses]: "DEBUG_MSG_ID_ADDRESS = 0x6c"
definition DUMP_TIME_START :: u32 where [sim_addresses]: "DUMP_TIME_START = 0x70"
definition DUMP_TIME_STOP :: u32 where [sim_addresses]: "DUMP_TIME_STOP = 0x74"
definition START_CL_METRIC :: u32 where [sim_addresses]: "START_CL_METRIC = 0x100"
definition STOP_CL_METRIC :: u32 where [sim_addresses]: "STOP_CL_METRIC = 0x104"
definition SYNC_PROC_ADDRESS :: u32 where [sim_addresses]: "SYNC_PROC_ADDRESS = 0x108"
definition STOP_PROC_ADDRESS :: u32 where [sim_addresses]: "STOP_PROC_ADDRESS = 0x10c"
definition WAKE_UP_PROC_ADDRESS :: u32 where [sim_addresses]: "WAKE_UP_PROC_ADDRESS = 0x110"
definition WAKE_UP_ALL_ADDRESS :: u32 where [sim_addresses]: "WAKE_UP_ALL_ADDRESS = 0x114"
definition OPT_PR_CYCLE_ADDRESS :: u32 where [sim_addresses]: "OPT_PR_CYCLE_ADDRESS = 0x300"
definition OPT_PR_TIME_ADDRESS :: u32 where [sim_addresses]: "OPT_PR_TIME_ADDRESS = 0x304"
definition OPT_GET_CYCLE_ADDRESS :: u32 where [sim_addresses]: "OPT_GET_CYCLE_ADDRESS = 0x308"
definition OPT_GET_TIME_ADDRESS :: u32 where [sim_addresses]: "OPT_GET_TIME_ADDRESS = 0x30c"
definition FORCE_SHUTDOWN_ADDRESS :: u32 where [sim_addresses]: "FORCE_SHUTDOWN_ADDRESS = 0x310"
definition GET_ARGC_ADDRESS :: u32 where [sim_addresses]: "GET_ARGC_ADDRESS = 0x10000"
definition GET_ARGV_ADDRESS :: u32 where [sim_addresses]: "GET_ARGV_ADDRESS = 0x10004"
definition GET_ENVP_ADDRESS :: u32 where [sim_addresses]: "GET_ENVP_ADDRESS = 0x10008"
definition ARGV_ADDRESS :: u32 where [sim_addresses]: "ARGV_ADDRESS = 0x20000"
definition ENVP_ADDRESS :: u32 where [sim_addresses]: "ENVP_ADDRESS = 0x30000"

definition PR_CPU_ID :: u32 where "PR_CPU_ID = 0x1"
definition PR_STRING :: u32 where "PR_STRING = 0x2"
definition PR_HEX :: u32 where "PR_HEX = 0x4"
definition PR_DEC :: u32 where "PR_DEC = 0x8"
definition PR_CHAR :: u32 where "PR_CHAR = 0x10"
definition PR_TSTAMP :: u32 where "PR_TSTAMP = 0x20"
definition PR_NEWL :: u32 where "PR_NEWL = 0x40"

definition CLOCKPERIOD :: nat where "CLOCKPERIOD = 2"

section \<open>State\<close>

text \<open>The configuration: sizes of the platform, the organisation of the caches, the arguments.\<close>

record sim_config =
  N_CORES :: nat
  N_CORES_TILE :: nat
  N_SHR_CACHE_BANKS :: nat
  CL_ICACHE_PRIV :: bool
  sim_argc :: u32
  sim_argv :: "u32 \<Rightarrow> u32"
  sim_envp :: "u32 \<Rightarrow> u32"

text \<open>The pieces a print is made of, and the entries of the log.\<close>

datatype piece = P_cpu nat | P_string u32 | P_hex u32 | P_dec u32 | P_char u32 | P_time nat | P_newline

datatype sim_event = Ev_print "piece list" | Ev_quit nat | Ev_dump nat | Ev_dump_light nat | Ev_clear
  | Ev_start_measuring nat | Ev_stop_measuring nat | Ev_start_time nat u32 nat | Ev_stop_time nat u32 nat

record sim_support =
  stopped_time :: "nat \<Rightarrow> bool"
  stopped_cycle :: "nat \<Rightarrow> bool"
  current_time :: "nat \<Rightarrow> u64"
  current_cycle :: "nat \<Rightarrow> u64"
  debug_msg_string :: "nat \<Rightarrow> u32"
  debug_msg_value :: "nat \<Rightarrow> u32"
  debug_msg_mode :: "nat \<Rightarrow> u32"
  debug_msg_id :: "nat \<Rightarrow> u32"
  t1 :: "nat \<Rightarrow> int"
  t2 :: "nat \<Rightarrow> int"
  t3 :: "nat \<Rightarrow> int"
  t_exec :: "nat \<Rightarrow> int"
  t1_cl :: int
  t2_cl :: int
  t_exec_cl :: int
  done_metrics :: nat
  is_first :: bool
  id_first :: nat
  CL_GLB_STATS :: bool
  CL_CORE_METRICS :: "nat \<Rightarrow> bool"
  CL_CACHE_METRICS :: "nat \<Rightarrow> bool"
  ARM11_STOP :: "nat \<Rightarrow> bool"
  ARM11_IDLE :: "nat \<Rightarrow> bool"
  sim_log :: "sim_event list"

definition log_event :: "sim_event \<Rightarrow> sim_support \<Rightarrow> sim_support" where
  "log_event e s = s\<lparr>sim_log := sim_log s @ [e]\<rparr>"

text \<open>An access to an address that is read-only, or write-only.\<close>

definition read_only :: "bool \<Rightarrow> 'a res \<Rightarrow> 'a res" where
  "read_only wr r = (if wr then Inl (FExit 1) else r)"

definition write_only :: "bool \<Rightarrow> 'a res \<Rightarrow> 'a res" where
  "write_only wr r = (if \<not> wr then Inl (FExit 1) else r)"

type_synonym sim_answer = "(u32 \<times> sim_support) res option"

section \<open>The groups of cases\<close>

definition sim_power :: "sim_config \<Rightarrow> u32 \<Rightarrow> u32 \<Rightarrow> nat \<Rightarrow> sim_support \<Rightarrow> sim_answer" where
  "sim_power cfg addr data ID s =
     (if addr = STOP_PROC_ADDRESS then Some (Inr (data, s\<lparr>ARM11_STOP := (ARM11_STOP s)(ID := True)\<rparr>))
      else if addr = SYNC_PROC_ADDRESS then Some (Inr (data, s\<lparr>ARM11_IDLE := (ARM11_IDLE s)(ID := True)\<rparr>))
      else if addr = WAKE_UP_PROC_ADDRESS then
        Some (if unat data < N_CORES cfg
              then Inr (data, s\<lparr>ARM11_STOP := (ARM11_STOP s)(unat data := False)\<rparr>)
              else Inl FUndef)
      else if addr = WAKE_UP_ALL_ADDRESS then
        Some (Inr (data, s\<lparr>ARM11_STOP := (\<lambda>k. if k < N_CORES_TILE cfg then False else ARM11_STOP s k)\<rparr>))
      else None)"

definition start_cl_metric :: "sim_config \<Rightarrow> nat \<Rightarrow> nat \<Rightarrow> sim_support \<Rightarrow> sim_support" where
  "start_cl_metric cfg now ID s =
     (let s = s\<lparr>CL_GLB_STATS := True, t1 := (t1 s)(ID := int now),
        CL_CORE_METRICS := (CL_CORE_METRICS s)(ID := True),
        CL_CACHE_METRICS := (if CL_ICACHE_PRIV cfg then (CL_CACHE_METRICS s)(ID := True)
          else (\<lambda>k. if k < N_SHR_CACHE_BANKS cfg then True else CL_CACHE_METRICS s k))\<rparr>
      in if is_first s
         then s\<lparr>id_first := ID, is_first := False, t1_cl := t1 s (of_bool False)\<rparr>
         else s)"

definition stop_cl_metric :: "sim_config \<Rightarrow> nat \<Rightarrow> nat \<Rightarrow> sim_support \<Rightarrow> sim_support" where
  "stop_cl_metric cfg now ID s =
     (let s = s\<lparr>t2 := (t2 s)(ID := int now)\<rparr>;
          s = s\<lparr>t3 := (t3 s)(ID := t2 s ID - t1 s ID)\<rparr>;
          s = s\<lparr>t_exec := (t_exec s)(ID := t_exec s ID + (t2 s ID - t1 s ID)),
                CL_CORE_METRICS := (CL_CORE_METRICS s)(ID := False),
                done_metrics := done_metrics s + 1\<rparr>;
          s = (if CL_ICACHE_PRIV cfg then s\<lparr>CL_CACHE_METRICS := (CL_CACHE_METRICS s)(ID := False)\<rparr> else s)
      in if done_metrics s = N_CORES cfg
         then s\<lparr>done_metrics := 0, is_first := True,
                CL_CACHE_METRICS := (if CL_ICACHE_PRIV cfg then CL_CACHE_METRICS s
                  else (\<lambda>k. if k < N_SHR_CACHE_BANKS cfg then False else CL_CACHE_METRICS s k)),
                t2_cl := int now, t_exec_cl := t_exec_cl s + (int now - t1_cl s), CL_GLB_STATS := False\<rparr>
         else s)"

definition sim_metrics :: "sim_config \<Rightarrow> nat \<Rightarrow> u32 \<Rightarrow> u32 \<Rightarrow> nat \<Rightarrow> sim_support \<Rightarrow> sim_answer" where
  "sim_metrics cfg now addr data ID s =
     (if addr = START_CL_METRIC then Some (Inr (data, start_cl_metric cfg now ID s))
      else if addr = STOP_CL_METRIC then Some (Inr (data, stop_cl_metric cfg now ID s))
      else None)"

definition sim_stats :: "u32 \<Rightarrow> u32 \<Rightarrow> nat \<Rightarrow> sim_support \<Rightarrow> sim_answer" where
  "sim_stats addr data ID s =
     (let event = (\<lambda>e. Some (Inr (data, log_event e s))) in
      if addr = START_METRIC_ADDRESS then event (Ev_start_measuring ID)
      else if addr = STOP_METRIC_ADDRESS then event (Ev_stop_measuring ID)
      else if addr = ENDBOOT_ADDRESS then Some (Inr (data, s))
      else if addr = SHUTDOWN_ADDRESS then event (Ev_quit ID)
      else if addr = DUMP_ADDRESS then event (Ev_dump ID)
      else if addr = DUMP_LIGHT_ADDRESS then event (Ev_dump_light ID)
      else if addr = CLEAR_ADDRESS then event Ev_clear
      else None)"

definition sim_ids :: "sim_config \<Rightarrow> u32 \<Rightarrow> u32 \<Rightarrow> bool \<Rightarrow> nat \<Rightarrow> sim_support \<Rightarrow> sim_answer" where
  "sim_ids cfg addr data wr ID s =
     (let answer = (\<lambda>n. Some (read_only wr (Inr (of_nat n, s)))) in
      if addr = GET_CPU_ID_ADDRESS then answer (ID + 1)
      else if addr = GET_CPU_CNT_ADDRESS then answer (N_CORES cfg)
      else if addr = GET_CPU_TILE_ADDRESS then answer (N_CORES_TILE cfg)
      else if addr = GET_LOCAL_ID_ADDRESS then answer (ID mod N_CORES_TILE cfg + 1)
      else if addr = GET_TILE_ID_ADDRESS then answer (ID div N_CORES_TILE cfg)
      else if addr = SET_REQ_IO_ADDRESS then Some (write_only wr (Inr (data, s)))
      else None)"

definition sim_time :: "nat \<Rightarrow> u32 \<Rightarrow> u32 \<Rightarrow> bool \<Rightarrow> nat \<Rightarrow> sim_support \<Rightarrow> sim_answer" where
  "sim_time now addr data wr ID s =
     (if addr = GET_TIME_ADDRESS_LO then
        Some (read_only wr (if \<not> stopped_time s ID then Inl (FExit 1)
          else Inr (ucast (current_time s ID AND 0x00000000FFFFFFFF), s)))
      else if addr = GET_TIME_ADDRESS_HI then
        Some (read_only wr (if \<not> stopped_time s ID then Inl (FExit 1)
          else Inr (ucast (drop_bit 32 (current_time s ID)), s)))
      else if addr = STOP_TIME_ADDRESS then
        Some (Inr (data, s\<lparr>stopped_time := (stopped_time s)(ID := True),
          current_time := (current_time s)(ID := of_nat now)\<rparr>))
      else if addr = RELEASE_TIME_ADDRESS then
        Some (Inr (data, s\<lparr>stopped_time := (stopped_time s)(ID := False)\<rparr>))
      else None)"

definition sim_optimized :: "nat \<Rightarrow> u32 \<Rightarrow> u32 \<Rightarrow> bool \<Rightarrow> nat \<Rightarrow> sim_support \<Rightarrow> sim_answer" where
  "sim_optimized now addr data wr ID s =
     (if addr = OPT_PR_TIME_ADDRESS \<or> addr = OPT_PR_CYCLE_ADDRESS then Some (write_only wr (Inr (0, s)))
      else if addr = OPT_GET_TIME_ADDRESS then Some (read_only wr (Inr (of_nat now, s)))
      else if addr = OPT_GET_CYCLE_ADDRESS then Some (read_only wr (Inr (of_nat (now div CLOCKPERIOD), s)))
      else if addr = FORCE_SHUTDOWN_ADDRESS then Some (write_only wr (Inl (FExit 2)))
      else None)"

definition sim_cycle :: "nat \<Rightarrow> u32 \<Rightarrow> u32 \<Rightarrow> bool \<Rightarrow> nat \<Rightarrow> sim_support \<Rightarrow> sim_answer" where
  "sim_cycle now addr data wr ID s =
     (if addr = GET_CYCLE_ADDRESS_LO then
        Some (read_only wr (if stopped_cycle s ID then Inl (FExit 1)
          else Inr (ucast (current_cycle s ID AND 0x00000000FFFFFFFF), s)))
      else if addr = GET_CYCLE_ADDRESS_HI then
        Some (read_only wr (if \<not> stopped_cycle s ID then Inl (FExit 1)
          else Inr (ucast (drop_bit 32 (current_cycle s ID)),
                    s\<lparr>stopped_cycle := (stopped_cycle s)(ID := False)\<rparr>)))
      else if addr = STOP_CYCLE_ADDRESS then
        Some (Inr (data, s\<lparr>stopped_cycle := (stopped_cycle s)(ID := True),
          current_cycle := (current_cycle s)(ID := of_nat (now div CLOCKPERIOD))\<rparr>))
      else if addr = RELEASE_CYCLE_ADDRESS then
        Some (Inr (data, s\<lparr>stopped_cycle := (stopped_cycle s)(ID := False)\<rparr>))
      else None)"

definition print_pieces :: "nat \<Rightarrow> nat \<Rightarrow> sim_support \<Rightarrow> piece list" where
  "print_pieces now ID s =
     (let mode = debug_msg_mode s ID; on = (\<lambda>f p. if mode AND f \<noteq> 0 then [p] else []) in
      on PR_CPU_ID (P_cpu ID) @ on PR_STRING (P_string (debug_msg_string s ID)) @
      on PR_HEX (P_hex (debug_msg_value s ID)) @ on PR_DEC (P_dec (debug_msg_value s ID)) @
      on PR_CHAR (P_char (debug_msg_value s ID)) @ on PR_TSTAMP (P_time now) @ on PR_NEWL P_newline)"

definition sim_debug :: "nat \<Rightarrow> u32 \<Rightarrow> u32 \<Rightarrow> bool \<Rightarrow> nat \<Rightarrow> sim_support \<Rightarrow> sim_answer" where
  "sim_debug now addr data wr ID s =
     (if addr = DEBUG_MSG_STRING_ADDRESS then
        Some (write_only wr (Inr (data, s\<lparr>debug_msg_string := (debug_msg_string s)(ID := data)\<rparr>)))
      else if addr = DEBUG_MSG_VALUE_ADDRESS then
        Some (write_only wr (Inr (data, s\<lparr>debug_msg_value := (debug_msg_value s)(ID := data)\<rparr>)))
      else if addr = DEBUG_MSG_MODE_ADDRESS then
        Some (write_only wr
          (let s = s\<lparr>debug_msg_mode := (debug_msg_mode s)(ID := data)\<rparr> in
           if data = 0 then Inl (FExit 1)
           else if data AND PR_HEX \<noteq> 0 \<and> data AND PR_DEC \<noteq> 0 then Inl (FExit 1)
           else Inr (data, log_event (Ev_print (print_pieces now ID s)) s)))
      else if addr = DEBUG_MSG_ID_ADDRESS then
        Some (write_only wr (Inr (data, s\<lparr>debug_msg_id := (debug_msg_id s)(ID := data)\<rparr>)))
      else None)"

definition sim_arguments :: "sim_config \<Rightarrow> u32 \<Rightarrow> u32 \<Rightarrow> bool \<Rightarrow> sim_support \<Rightarrow> sim_answer" where
  "sim_arguments cfg addr offset wr s =
     (if addr = GET_ARGC_ADDRESS then
        Some (read_only wr (if offset \<noteq> 0 then Inl (FExit 1) else Inr (sim_argc cfg, s)))
      else if addr = GET_ARGV_ADDRESS then Some (read_only wr (Inr (SIMSUPPORT_BASE + ARGV_ADDRESS, s)))
      else if addr = GET_ENVP_ADDRESS then Some (read_only wr (Inr (SIMSUPPORT_BASE + ENVP_ADDRESS, s)))
      else if addr = ARGV_ADDRESS then Some (read_only wr (Inr (sim_argv cfg offset, s)))
      else if addr = ENVP_ADDRESS then Some (read_only wr (Inr (sim_envp cfg offset, s)))
      else None)"

definition sim_profile :: "nat \<Rightarrow> u32 \<Rightarrow> u32 \<Rightarrow> bool \<Rightarrow> nat \<Rightarrow> sim_support \<Rightarrow> sim_answer" where
  "sim_profile now addr data wr ID s =
     (if addr = DUMP_TIME_START then Some (write_only wr (Inr (data, log_event (Ev_start_time ID data now) s)))
      else if addr = DUMP_TIME_STOP then Some (write_only wr (Inr (data, log_event (Ev_stop_time ID data now) s)))
      else None)"

fun first_answer :: "sim_answer list \<Rightarrow> (u32 \<times> sim_support) res" where
  "first_answer [] = Inl (FExit 1)"
| "first_answer (None # as) = first_answer as"
| "first_answer (Some r # as) = r"

text \<open>
  \<open>catch_sim_message\<close>: the 64 kB areas of the arguments and of the environment are folded onto
  their first address; an address of no group is the fatal error of the default case.
\<close>

definition catch_sim_message ::
    "sim_config \<Rightarrow> nat \<Rightarrow> u32 \<Rightarrow> u32 \<Rightarrow> bool \<Rightarrow> nat \<Rightarrow> sim_support \<Rightarrow> (u32 \<times> sim_support) res" where
  "catch_sim_message cfg now addr data wr ID s =
     res_bind (require (ID < N_CORES cfg) (FExit ASSERT_EXIT)) (\<lambda>_.
     let (addr, offset) =
       (if ARGV_ADDRESS \<le> addr \<and> addr < ARGV_ADDRESS + 0x10000 then (ARGV_ADDRESS, addr - ARGV_ADDRESS)
        else if ENVP_ADDRESS \<le> addr \<and> addr < ENVP_ADDRESS + 0x10000 then (ENVP_ADDRESS, addr - ENVP_ADDRESS)
        else (addr, 0)) in
     first_answer
       [sim_power cfg addr data ID s, sim_metrics cfg now addr data ID s, sim_stats addr data ID s,
        sim_ids cfg addr data wr ID s, sim_time now addr data wr ID s, sim_optimized now addr data wr ID s,
        sim_cycle now addr data wr ID s, sim_debug now addr data wr ID s,
        sim_arguments cfg addr offset wr s, sim_profile now addr data wr ID s])"

section \<open>The functions of the programs\<close>

text \<open>
  A store and a load of processor \<open>ID\<close> at time \<open>now\<close>. The stores through \<open>char *\<close> transfer a
  byte, the others a word.
\<close>

definition sim_store :: "sim_config \<Rightarrow> nat \<Rightarrow> nat \<Rightarrow> u32 \<Rightarrow> u32 \<Rightarrow> sim_support \<Rightarrow> sim_support res" where
  "sim_store cfg ID now addr v s = res_map snd (catch_sim_message cfg now addr v True ID s)"

definition sim_store_byte :: "sim_config \<Rightarrow> nat \<Rightarrow> nat \<Rightarrow> u32 \<Rightarrow> u32 \<Rightarrow> sim_support \<Rightarrow> sim_support res" where
  "sim_store_byte cfg ID now addr v s = sim_store cfg ID now addr (v AND 0xFF) s"

definition sim_load :: "sim_config \<Rightarrow> nat \<Rightarrow> nat \<Rightarrow> u32 \<Rightarrow> sim_support \<Rightarrow> (u32 \<times> sim_support) res" where
  "sim_load cfg ID now addr s = catch_sim_message cfg now addr 0 False ID s"

definition pr :: "sim_config \<Rightarrow> nat \<Rightarrow> nat \<Rightarrow> u32 \<Rightarrow> u32 \<Rightarrow> u32 \<Rightarrow> sim_support \<Rightarrow> sim_support res" where
  "pr cfg ID now msg value mode s =
     res_bind (sim_store cfg ID now DEBUG_MSG_STRING_ADDRESS msg s) (\<lambda>s.
     res_bind (sim_store cfg ID now DEBUG_MSG_VALUE_ADDRESS value s) (\<lambda>s.
     sim_store cfg ID now DEBUG_MSG_MODE_ADDRESS mode s))"

definition get_proc_id where "get_proc_id cfg ID now = sim_load cfg ID now GET_CPU_ID_ADDRESS"
definition get_proc_num where "get_proc_num cfg ID now = sim_load cfg ID now GET_CPU_CNT_ADDRESS"
definition get_proc_tile_num where "get_proc_tile_num cfg ID now = sim_load cfg ID now GET_CPU_TILE_ADDRESS"
definition get_proc_loc_id where "get_proc_loc_id cfg ID now = sim_load cfg ID now GET_LOCAL_ID_ADDRESS"
definition get_tile_id where "get_tile_id cfg ID now = sim_load cfg ID now GET_TILE_ID_ADDRESS"
definition get_argc where "get_argc cfg ID now = sim_load cfg ID now GET_ARGC_ADDRESS"
definition get_argv :: addr where "get_argv = SIMSUPPORT_BASE + GET_ARGV_ADDRESS"
definition get_envp :: addr where "get_envp = SIMSUPPORT_BASE + GET_ENVP_ADDRESS"
definition opt_get_cycle where "opt_get_cycle cfg ID now = sim_load cfg ID now OPT_GET_CYCLE_ADDRESS"
definition opt_get_time where "opt_get_time cfg ID now = sim_load cfg ID now OPT_GET_TIME_ADDRESS"
definition opt_pr_cycle where "opt_pr_cycle cfg ID now = sim_store_byte cfg ID now OPT_PR_CYCLE_ADDRESS 1"
definition opt_pr_time where "opt_pr_time cfg ID now = sim_store_byte cfg ID now OPT_PR_TIME_ADDRESS 1"
definition start_metric where "start_metric cfg ID now = sim_store_byte cfg ID now START_CL_METRIC 1"
definition stop_metric where "stop_metric cfg ID now = sim_store_byte cfg ID now STOP_CL_METRIC 1"
definition sync_cores where "sync_cores cfg ID now = sim_store_byte cfg ID now SYNC_PROC_ADDRESS 1"
definition stop_core where "stop_core cfg ID now = sim_store_byte cfg ID now STOP_PROC_ADDRESS 1"
definition wake_up where "wake_up cfg ID now k = sim_store_byte cfg ID now WAKE_UP_PROC_ADDRESS k"
definition wake_all where "wake_all cfg ID now = sim_store_byte cfg ID now WAKE_UP_ALL_ADDRESS 1"
definition force_shutdown where "force_shutdown cfg ID now = sim_store_byte cfg ID now FORCE_SHUTDOWN_ADDRESS 1"

definition stop_simulation :: "sim_config \<Rightarrow> nat \<Rightarrow> nat \<Rightarrow> sim_support \<Rightarrow> sim_support res" where
  "stop_simulation cfg ID now s =
     res_bind (sim_store_byte cfg ID now SHUTDOWN_ADDRESS 1 s) (stop_core cfg ID now)"

definition app_abort :: "sim_config \<Rightarrow> nat \<Rightarrow> nat \<Rightarrow> u32 \<Rightarrow> sim_support \<Rightarrow> sim_support res" where
  "app_abort cfg ID now msg s =
     res_bind (pr cfg ID now msg 0 (PR_CPU_ID OR PR_STRING OR PR_TSTAMP OR PR_NEWL) s)
       (force_shutdown cfg ID now)"

text \<open>\<open>exit\<close> never returns: it stops the simulation and loops.\<close>

definition app_exit :: "sim_config \<Rightarrow> nat \<Rightarrow> nat \<Rightarrow> sim_support \<Rightarrow> sim_support res" where
  "app_exit cfg ID now s = res_bind (stop_simulation cfg ID now s) (\<lambda>_. Inl FSpin)"

text \<open>
  \<open>get_time\<close> and \<open>get_cycle\<close>: the four accesses happen at the times \<open>ts\<close>; C does not fix
  which operand of the sum is read first, so \<open>hi_first\<close> says which one it is.
\<close>

definition read_halves :: "bool \<Rightarrow> (nat \<Rightarrow> u32 \<Rightarrow> sim_support \<Rightarrow> (u32 \<times> sim_support) res) \<Rightarrow> u32 \<Rightarrow> u32 \<Rightarrow>
    nat \<Rightarrow> nat \<Rightarrow> sim_support \<Rightarrow> (u64 \<times> sim_support) res" where
  "read_halves hi_first ld hi_addr lo_addr t t' s =
     (if hi_first
      then res_bind (ld t hi_addr s) (\<lambda>(hi, s). res_bind (ld t' lo_addr s) (\<lambda>(lo, s).
           Inr (push_bit 32 (ucast hi) + ucast lo, s)))
      else res_bind (ld t lo_addr s) (\<lambda>(lo, s). res_bind (ld t' hi_addr s) (\<lambda>(hi, s).
           Inr (push_bit 32 (ucast hi) + ucast lo, s))))"

fun get_time :: "sim_config \<Rightarrow> nat \<Rightarrow> bool \<Rightarrow> nat \<times> nat \<times> nat \<times> nat \<Rightarrow> sim_support \<Rightarrow> (u64 \<times> sim_support) res" where
  "get_time cfg ID hi_first (ta, tb, tc, td) s =
     res_bind (sim_store_byte cfg ID ta STOP_TIME_ADDRESS 1 s) (\<lambda>s.
     res_bind (read_halves hi_first (sim_load cfg ID) GET_TIME_ADDRESS_HI GET_TIME_ADDRESS_LO tb tc s) (\<lambda>(time, s).
     res_bind (sim_store_byte cfg ID td RELEASE_TIME_ADDRESS 1 s) (\<lambda>s. Inr (time, s))))"

fun get_cycle :: "sim_config \<Rightarrow> nat \<Rightarrow> bool \<Rightarrow> nat \<times> nat \<times> nat \<times> nat \<Rightarrow> sim_support \<Rightarrow> (u64 \<times> sim_support) res" where
  "get_cycle cfg ID hi_first (ta, tb, tc, td) s =
     res_bind (sim_store_byte cfg ID ta STOP_CYCLE_ADDRESS 1 s) (\<lambda>s.
     res_bind (read_halves hi_first (sim_load cfg ID) GET_CYCLE_ADDRESS_HI GET_CYCLE_ADDRESS_LO tb tc s) (\<lambda>(cyc, s).
     res_bind (sim_store_byte cfg ID td RELEASE_CYCLE_ADDRESS 1 s) (\<lambda>s. Inr (cyc, s))))"

text \<open>The locks of single-cluster programs are the words of the semaphore memory.\<close>

definition hw_lock :: "u32 \<Rightarrow> addr" where "hw_lock i = CL_SEM_BASE + 4 * i"

definition TEST_AND_SET :: "u32 \<Rightarrow> mem_class \<Rightarrow> (u32 \<times> mem_class) res" where
  "TEST_AND_SET i m = cls_Read CL_SEM_BASE m (hw_lock i) 0"

definition SIGNAL :: "u32 \<Rightarrow> mem_class \<Rightarrow> mem_class res" where
  "SIGNAL i m = cls_Write CL_SEM_BASE m (hw_lock i) 0 0"

definition WAIT :: "u32 \<Rightarrow> mem_class \<Rightarrow> mem_class res" where
  "WAIT i m = res_bind (cls_Read CL_SEM_BASE m (hw_lock i) 0) (\<lambda>(v, m'). if v = 0 then Inr m' else Inl FSpin)"

section \<open>Properties\<close>

lemmas sim_groups = sim_power_def sim_metrics_def sim_stats_def sim_ids_def sim_time_def
  sim_optimized_def sim_cycle_def sim_debug_def sim_arguments_def sim_profile_def

lemma catch_simple:
  assumes "ID < N_CORES cfg" "addr < ARGV_ADDRESS"
  shows "catch_sim_message cfg now addr data wr ID s = first_answer
       [sim_power cfg addr data ID s, sim_metrics cfg now addr data ID s, sim_stats addr data ID s,
        sim_ids cfg addr data wr ID s, sim_time now addr data wr ID s, sim_optimized now addr data wr ID s,
        sim_cycle now addr data wr ID s, sim_debug now addr data wr ID s,
        sim_arguments cfg addr 0 wr s, sim_profile now addr data wr ID s]"
proof -
  have "\<not> ARGV_ADDRESS \<le> addr" "\<not> ENVP_ADDRESS \<le> addr"
    using assms(2) by (auto simp: sim_addresses word_le_unat word_less_unat)
  then show ?thesis using assms(1) by (simp add: catch_sim_message_def)
qed

lemma halves: "push_bit 32 (ucast (ucast (drop_bit 32 (w :: u64)) :: u32)) +
    ucast (ucast (w AND 0x00000000FFFFFFFF) :: u32) = w"
proof -
  have m: "(0xFFFFFFFF :: u64) = mask 32" by (simp add: mask_eq_exp_minus_1)
  have "push_bit 32 (ucast (ucast (drop_bit 32 w) :: u32)) + ucast (ucast (w AND 0xFFFFFFFF) :: u32) =
      push_bit 32 (ucast (ucast (drop_bit 32 w) :: u32)) OR (ucast (ucast (w AND 0xFFFFFFFF) :: u32) :: u64)"
    by (rule disjunctive_add) (auto simp: bit_simps)
  also have "\<dots> = w"
    by (rule bit_word_eqI) (auto simp: m bit_simps)
  finally show ?thesis .
qed

lemma catch_time:
  assumes "ID < N_CORES cfg"
  shows "catch_sim_message cfg now STOP_TIME_ADDRESS data wr ID s =
      Inr (data, s\<lparr>stopped_time := (stopped_time s)(ID := True),
        current_time := (current_time s)(ID := of_nat now)\<rparr>)"
    and "catch_sim_message cfg now RELEASE_TIME_ADDRESS data wr ID s =
      Inr (data, s\<lparr>stopped_time := (stopped_time s)(ID := False)\<rparr>)"
    and "catch_sim_message cfg now GET_TIME_ADDRESS_HI data False ID s =
      (if stopped_time s ID then Inr (ucast (drop_bit 32 (current_time s ID)), s) else Inl (FExit 1))"
    and "catch_sim_message cfg now GET_TIME_ADDRESS_LO data False ID s =
      (if stopped_time s ID then Inr (ucast (current_time s ID AND 0xFFFFFFFF), s) else Inl (FExit 1))"
  using assms by (simp_all add: catch_simple sim_groups sim_addresses read_only_def Let_def)

lemma catch_cycle:
  assumes "ID < N_CORES cfg"
  shows "catch_sim_message cfg now STOP_CYCLE_ADDRESS data wr ID s =
      Inr (data, s\<lparr>stopped_cycle := (stopped_cycle s)(ID := True),
        current_cycle := (current_cycle s)(ID := of_nat (now div CLOCKPERIOD))\<rparr>)"
    and "catch_sim_message cfg now RELEASE_CYCLE_ADDRESS data wr ID s =
      Inr (data, s\<lparr>stopped_cycle := (stopped_cycle s)(ID := False)\<rparr>)"
    and "catch_sim_message cfg now GET_CYCLE_ADDRESS_HI data False ID s =
      (if stopped_cycle s ID
       then Inr (ucast (drop_bit 32 (current_cycle s ID)), s\<lparr>stopped_cycle := (stopped_cycle s)(ID := False)\<rparr>)
       else Inl (FExit 1))"
    and "catch_sim_message cfg now GET_CYCLE_ADDRESS_LO data False ID s =
      (if stopped_cycle s ID then Inl (FExit 1) else Inr (ucast (current_cycle s ID AND 0xFFFFFFFF), s))"
  using assms by (simp_all add: catch_simple sim_groups sim_addresses read_only_def Let_def)

text \<open>\<open>get_time\<close> returns the time at which it stopped the counter, modulo \<open>2 ^ 64\<close>, however much
  later its other accesses are served and whichever half it reads first, and it changes nothing for
  the other processors.\<close>

theorem get_time_atomic:
  assumes "ID < N_CORES cfg"
  shows "get_time cfg ID hi_first (ta, tb, tc, td) s =
    Inr (of_nat ta, s\<lparr>stopped_time := (stopped_time s)(ID := False),
                     current_time := (current_time s)(ID := of_nat ta)\<rparr>)"
  using halves [of "of_nat ta"] catch_time [OF assms]
  by (simp add: sim_store_byte_def sim_store_def sim_load_def read_halves_def)

text \<open>\<open>get_cycle\<close> works only when the upper half is read first: the device answers the lower
  half when the counter is not stopped (its message says the opposite) and reading the upper half
  releases it; read in the other order the simulation ends with an error. C leaves the order to the
  compiler.\<close>

theorem get_cycle_needs_upper_first:
  assumes "ID < N_CORES cfg"
  shows "get_cycle cfg ID hi_first (ta, tb, tc, td) s =
    (if hi_first
     then Inr (of_nat (ta div 2), s\<lparr>stopped_cycle := (stopped_cycle s)(ID := False),
                     current_cycle := (current_cycle s)(ID := of_nat (ta div 2))\<rparr>)
     else Inl (FExit 1))"
  using halves [of "of_nat (ta div 2)"] catch_cycle [OF assms]
  by (simp add: sim_store_byte_def sim_store_def sim_load_def read_halves_def CLOCKPERIOD_def)

definition demo_config :: sim_config where
  "demo_config = \<lparr>N_CORES = 4, N_CORES_TILE = 2, N_SHR_CACHE_BANKS = 2, CL_ICACHE_PRIV = True,
     sim_argc = 0, sim_argv = (\<lambda>_. 0), sim_envp = (\<lambda>_. 0)\<rparr>"

definition demo_sim :: sim_support where
  "demo_sim = \<lparr>stopped_time = (\<lambda>_. False), stopped_cycle = (\<lambda>_. False), current_time = (\<lambda>_. 0),
     current_cycle = (\<lambda>_. 0), debug_msg_string = (\<lambda>_. 0), debug_msg_value = (\<lambda>_. 0),
     debug_msg_mode = (\<lambda>_. 0x1f), debug_msg_id = of_nat, t1 = (\<lambda>_. 0), t2 = (\<lambda>_. 0), t3 = (\<lambda>_. 0),
     t_exec = (\<lambda>_. 0), t1_cl = 0, t2_cl = 0, t_exec_cl = 0, done_metrics = 0, is_first = True,
     id_first = 0, CL_GLB_STATS = False, CL_CORE_METRICS = (\<lambda>_. False), CL_CACHE_METRICS = (\<lambda>_. False),
     ARM11_STOP = (\<lambda>_. False), ARM11_IDLE = (\<lambda>_. False), sim_log = []\<rparr>"

theorem get_time_atomic_witness:
  "get_time demo_config 3 True (5000000000, 5000000004, 5000000010, 5000000012) demo_sim =
    Inr (of_nat 5000000000, demo_sim\<lparr>stopped_time := (stopped_time demo_sim)(3 := False),
                     current_time := (current_time demo_sim)(3 := of_nat 5000000000)\<rparr>)"
  by (rule get_time_atomic) (simp add: demo_config_def)

theorem get_cycle_needs_upper_first_witness:
  "get_cycle demo_config 3 False (10, 12, 14, 16) demo_sim = Inl (FExit 1)"
  using get_cycle_needs_upper_first [of 3 demo_config False 10 12 14 16 demo_sim]
  by (simp add: demo_config_def)

text \<open>The numbers a processor reads of itself agree: its number counts from 1, and it is the
  number of its tile times the size of a tile plus its number in the tile.\<close>

theorem processor_numbers:
  assumes "ID < N_CORES cfg" "0 < N_CORES_TILE cfg"
  shows "\<exists>p l t. get_proc_id cfg ID now s = Inr (p, s) \<and> get_proc_loc_id cfg ID now s = Inr (l, s) \<and>
    get_tile_id cfg ID now s = Inr (t, s) \<and> p = of_nat (ID + 1) \<and>
    p = t * of_nat (N_CORES_TILE cfg) + l"
proof -
  have a: "catch_sim_message cfg now GET_CPU_ID_ADDRESS 0 False ID s = Inr (of_nat (ID + 1), s)"
    "catch_sim_message cfg now GET_LOCAL_ID_ADDRESS 0 False ID s = Inr (of_nat (ID mod N_CORES_TILE cfg + 1), s)"
    "catch_sim_message cfg now GET_TILE_ID_ADDRESS 0 False ID s = Inr (of_nat (ID div N_CORES_TILE cfg), s)"
    using assms(1) by (simp_all add: catch_simple sim_groups sim_addresses read_only_def Let_def)
  have "ID + 1 = ID div N_CORES_TILE cfg * N_CORES_TILE cfg + (ID mod N_CORES_TILE cfg + 1)" by simp
  then have e: "(of_nat (ID + 1) :: u32) =
      of_nat (ID div N_CORES_TILE cfg) * of_nat (N_CORES_TILE cfg) + of_nat (ID mod N_CORES_TILE cfg + 1)"
    by (metis of_nat_add of_nat_mult)
  show ?thesis
    unfolding get_proc_id_def get_proc_loc_id_def get_tile_id_def sim_load_def a
    by (intro exI [of _ "of_nat (ID + 1)"] exI [of _ "of_nat (ID mod N_CORES_TILE cfg + 1)"]
        exI [of _ "of_nat (ID div N_CORES_TILE cfg)"] conjI refl e)
qed

theorem processor_numbers_witness:
  "\<exists>p l t. get_proc_id demo_config 3 0 demo_sim = Inr (p, demo_sim) \<and>
    get_proc_loc_id demo_config 3 0 demo_sim = Inr (l, demo_sim) \<and>
    get_tile_id demo_config 3 0 demo_sim = Inr (t, demo_sim) \<and> p = of_nat (3 + 1) \<and>
    p = t * of_nat (N_CORES_TILE demo_config) + l"
  by (rule processor_numbers) (simp_all add: demo_config_def)

text \<open>The cluster statistics start when the first core starts; \<open>t1\<close> is read at the flag that has just
  been cleared, so it is the start time of core 0 that is kept, whichever core is the first.\<close>

lemma metric_start:
  "is_first (start_cl_metric cfg now ID s) = False"
  "done_metrics (start_cl_metric cfg now ID s) = done_metrics s"
  "t1 (start_cl_metric cfg now ID s) = (t1 s)(ID := int now)"
  "t_exec (start_cl_metric cfg now ID s) = t_exec s"
  "t_exec_cl (start_cl_metric cfg now ID s) = t_exec_cl s"
  "t1_cl (start_cl_metric cfg now ID s) =
     (if is_first s then (if ID = 0 then int now else t1 s 0) else t1_cl s)"
  by (simp_all add: start_cl_metric_def Let_def)

lemma metric_stop:
  "is_first (stop_cl_metric cfg now ID s) = (is_first s \<or> done_metrics s + 1 = N_CORES cfg)"
  "done_metrics (stop_cl_metric cfg now ID s) =
     (if done_metrics s + 1 = N_CORES cfg then 0 else done_metrics s + 1)"
  "t1 (stop_cl_metric cfg now ID s) = t1 s"
  "t_exec (stop_cl_metric cfg now ID s) = (t_exec s)(ID := t_exec s ID + (int now - t1 s ID))"
  "t_exec_cl (stop_cl_metric cfg now ID s) =
     (if done_metrics s + 1 = N_CORES cfg then t_exec_cl s + (int now - t1_cl s) else t_exec_cl s)"
  "t1_cl (stop_cl_metric cfg now ID s) = t1_cl s"
  by (simp_all add: stop_cl_metric_def Let_def)

definition two_core_region ::
  "sim_config \<Rightarrow> nat \<Rightarrow> nat \<times> nat \<times> nat \<times> nat \<Rightarrow> sim_support \<Rightarrow> sim_support res" where
  "two_core_region cfg i ts s = (case ts of (ta, tb, tc, td) \<Rightarrow>
     res_bind (start_metric cfg i ta s) (\<lambda>s.
     res_bind (start_metric cfg (1 - i) tb s) (\<lambda>s.
     res_bind (stop_metric cfg i tc s) (stop_metric cfg (1 - i) td))))"

lemma catch_metric:
  assumes "ID < N_CORES cfg"
  shows "catch_sim_message cfg now START_CL_METRIC data wr ID s = Inr (data, start_cl_metric cfg now ID s)"
    and "catch_sim_message cfg now STOP_CL_METRIC data wr ID s = Inr (data, stop_cl_metric cfg now ID s)"
  using assms by (simp_all add: catch_simple sim_groups sim_addresses read_only_def Let_def)

text \<open>On a cluster of two cores that both enter and leave a measured region once, every core is
  charged its own time in the region, but the time added for the cluster runs to the end of the last
  core from the start recorded for core 0: when core 1 enters first, that is the start core 0 had in
  an earlier region.\<close>

theorem cluster_time_from_core_0:
  assumes "is_first s" "N_CORES cfg = 2" "done_metrics s = 0" "i < 2"
  shows "\<exists>s'. two_core_region cfg i (ta, tb, tc, td) s = Inr s' \<and> is_first s' \<and> done_metrics s' = 0 \<and>
    t_exec s' i = t_exec s i + (int tc - int ta) \<and>
    t_exec s' (1 - i) = t_exec s (1 - i) + (int td - int tb) \<and>
    t_exec_cl s' = t_exec_cl s + (int td - (if i = 0 then int ta else t1 s 0))"
proof -
  have i: "i < N_CORES cfg" "1 - i < N_CORES cfg" "i \<noteq> 1 - i" "1 - i = 0 \<longleftrightarrow> i \<noteq> 0"
    using assms(2,4) by (cases i; simp)+
  show ?thesis
    unfolding two_core_region_def start_metric_def stop_metric_def sim_store_byte_def sim_store_def
    using assms(1-3) i by (simp add: catch_metric metric_start metric_stop)
qed

theorem cluster_time_from_core_0_witness:
  "\<exists>s'. two_core_region (demo_config\<lparr>N_CORES := 2\<rparr>) 1 (1000, 1010, 1500, 1510) demo_sim = Inr s' \<and>
    t_exec s' 1 = 500 \<and> t_exec s' 0 = 500 \<and> t_exec_cl s' = 1510"
  using cluster_time_from_core_0 [of demo_sim "demo_config\<lparr>N_CORES := 2\<rparr>" 1 1000 1010 1500 1510]
  by (auto simp: demo_sim_def demo_config_def)

lemma catch_print:
  assumes "ID < N_CORES cfg"
  shows "catch_sim_message cfg now DEBUG_MSG_STRING_ADDRESS d True ID s =
      Inr (d, s\<lparr>debug_msg_string := (debug_msg_string s)(ID := d)\<rparr>)"
    and "catch_sim_message cfg now DEBUG_MSG_VALUE_ADDRESS d True ID s =
      Inr (d, s\<lparr>debug_msg_value := (debug_msg_value s)(ID := d)\<rparr>)"
    and "catch_sim_message cfg now DEBUG_MSG_MODE_ADDRESS d True ID s =
      (let s = s\<lparr>debug_msg_mode := (debug_msg_mode s)(ID := d)\<rparr> in
           if d = 0 then Inl (FExit 1)
           else if d AND PR_HEX \<noteq> 0 \<and> d AND PR_DEC \<noteq> 0 then Inl (FExit 1)
           else Inr (d, log_event (Ev_print (print_pieces now ID s)) s))"
  using assms by (simp_all add: catch_simple sim_groups sim_addresses write_only_def Let_def)

text \<open>\<open>pr\<close> prints the message, the value and the rest exactly as its mode asks, in a fixed
  order and once; no mode at all and both number formats at once end the simulation.\<close>

theorem pr_prints:
  assumes "ID < N_CORES cfg"
  shows "res_map sim_log (pr cfg ID now msg value mode s) =
    (if mode = 0 \<or> mode AND PR_HEX \<noteq> 0 \<and> mode AND PR_DEC \<noteq> 0 then Inl (FExit 1)
     else Inr (sim_log s @ [Ev_print
       ((if mode AND PR_CPU_ID \<noteq> 0 then [P_cpu ID] else []) @
        (if mode AND PR_STRING \<noteq> 0 then [P_string msg] else []) @
        (if mode AND PR_HEX \<noteq> 0 then [P_hex value] else []) @
        (if mode AND PR_DEC \<noteq> 0 then [P_dec value] else []) @
        (if mode AND PR_CHAR \<noteq> 0 then [P_char value] else []) @
        (if mode AND PR_TSTAMP \<noteq> 0 then [P_time now] else []) @
        (if mode AND PR_NEWL \<noteq> 0 then [P_newline] else []))]))"
  by (simp add: pr_def sim_store_def catch_print [OF assms] Let_def log_event_def print_pieces_def)

theorem pr_prints_witness:
  "res_map sim_log (pr demo_config 3 77 0x100 42 (PR_CPU_ID OR PR_DEC OR PR_NEWL) demo_sim) =
    Inr [Ev_print [P_cpu 3, P_dec 42, P_newline]]"
  using pr_prints [of 3 demo_config 77 "0x100" 42 "PR_CPU_ID OR PR_DEC OR PR_NEWL" demo_sim]
  by (simp add: demo_config_def demo_sim_def PR_CPU_ID_def PR_STRING_def PR_HEX_def PR_DEC_def
      PR_CHAR_def PR_TSTAMP_def PR_NEWL_def)

text \<open>A lock that is taken is not given again before it is released.\<close>

lemma lock_handover:
  assumes "word_ok m (4 * i)" "mem_word m (4 * i) = 0"
  shows "\<exists>m'. WAIT i m = Inr m' \<and> WAIT i m' = Inl FSpin \<and> (\<exists>m''. SIGNAL i m' = Inr m'' \<and> mem_word m'' (4 * i) = 0)"
  using assms by (simp add: WAIT_def SIGNAL_def hw_lock_def cls_Read_def cls_Write_def Sem_access mem_word_set)

end
