(* ===== verification/Core_Wrapper.thy ===== *)
theory Core_Wrapper
  imports Pinout Sim_Support
begin

text \<open>
  The core's side of the bus: the class \<open>wrapper_arm11\<close> that the project put into the instruction
  set simulator (\<open>3rd_party/libsimsoc/.../processors/mmu.hpp\<close>, \<open>mmu.tpp\<close>, all under \<open>NO_MMU\<close>), and the
  accesses of \<open>MMU\<close> that go through it. A FIFO is a list; a process is a program counter (where its
  thread is suspended) and one operation per way of resuming it; the signals that other modules
  drive are set by steps of the environment. The processes that the constructor registers are a
  list, so that a process that is written but not registered takes no step.
\<close>

section \<open>The accesses of a core\<close>

definition DMA_EVENT_OFF :: u32 where "DMA_EVENT_OFF = 0xFF"
definition DMA_WAIT_EVENT_ADDR :: addr where "DMA_WAIT_EVENT_ADDR = CL_DMA_BASE + DMA_EVENT_OFF"

datatype access = Read_byte addr | Write_byte addr u8 | Read_half addr | Write_half addr u16
  | Read_word addr | Write_word addr u32

text \<open>The transaction every access builds: one beat of width \<open>bw\<close>.\<close>

definition mmu_pinout :: "u8 \<Rightarrow> addr \<Rightarrow> u32 \<Rightarrow> bool \<Rightarrow> u32 \<Rightarrow> pinout" where
  "mmu_pinout ID va v wr bw = \<lparr>p_address = va, p_data = v, p_rw = wr, p_fiq = False, p_irq = False,
     p_benable = True, p_bw = bw, p_burst = 1, p_id = ID\<rparr>"

fun access_pinout :: "u8 \<Rightarrow> access \<Rightarrow> pinout" where
  "access_pinout ID (Read_byte va) = mmu_pinout ID va 0 False 1"
| "access_pinout ID (Write_byte va v) = mmu_pinout ID va (ucast v) True 1"
| "access_pinout ID (Read_half va) = mmu_pinout ID va 0 False 2"
| "access_pinout ID (Write_half va v) = mmu_pinout ID va (ucast v) True 2"
| "access_pinout ID (Read_word va) = mmu_pinout ID va 0 False 0"
| "access_pinout ID (Write_word va v) = mmu_pinout ID va v True 0"

text \<open>What the access returns of the answer: its data cut to the width, nothing for a store.\<close>

fun access_result :: "access \<Rightarrow> pinout \<Rightarrow> u32 option" where
  "access_result (Read_byte va) p = Some (ucast (ucast (p_data p) :: u8))"
| "access_result (Read_half va) p = Some (ucast (ucast (p_data p) :: u16))"
| "access_result (Read_word va) p = Some (p_data p)"
| "access_result _ p = None"

text \<open>An instruction fetch, of 32 or of 16 bits.\<close>

definition load_instr_32 :: "u8 \<Rightarrow> addr \<Rightarrow> pinout" where
  "load_instr_32 ID va = mmu_pinout ID va 0 False 0"

definition load_instr_16 :: "u8 \<Rightarrow> addr \<Rightarrow> pinout" where
  "load_instr_16 ID va = mmu_pinout ID va 0 False 2"

section \<open>State\<close>

datatype core_st = CS_IDLE | CS_ACTIVE | CS_STALLED

text \<open>Where the threads are suspended. The process of the data port: in the read of its FIFO, in the
  cycle after an access to the simulation device, in the loop over the beats (the beats left, and
  \<open>is_first_cycle\<close>), in the write of an answer (with the beats left if it is a bus transaction).\<close>

datatype pc_D = D_take | D_sim pinout | D_beat nat bool | D_put pinout "nat option"

text \<open>The process of the instruction port: in the read of its FIFO, in one of the two waits for the
  end of a sleep, in the wait for the answer (with \<open>wait_cycles\<close>), in the write of the answer.\<close>

datatype pc_I = I_take | I_sync pinout | I_dma pinout | I_bus nat | I_put pinout

record wrapper =
  fifo_read_D :: "pinout list"
  fifo_written_D :: "pinout list"
  fifo_read_I :: "pinout list"
  fifo_written_I :: "pinout list"
  pinoutD :: pinout
  pinoutI :: pinout
  request_D :: bool
  request_I :: bool
  sync_int :: bool
  dma_signal :: bool
  sync_idle :: bool
  dma_idle :: bool
  cs_D :: core_st
  cs_I :: core_st
  cs :: core_st
  active_loss :: u32
  at_D :: pc_D
  at_I :: pc_I
  fetches :: nat  \<comment> \<open>how many fetches have been put on the bus: not in the code\<close>

text \<open>The constructor. The FIFOs it sets up with one place are local variables: the members keep the
  default of the library, 16.\<close>

definition FIFO_SIZE :: nat where "FIFO_SIZE = 16"

definition new_wrapper :: wrapper where
  "new_wrapper = \<lparr>fifo_read_D = [], fifo_written_D = [], fifo_read_I = [], fifo_written_I = [],
     pinoutD = new_pinout, pinoutI = new_pinout, request_D = False, request_I = False,
     sync_int = False, dma_signal = False, sync_idle = False, dma_idle = False,
     cs_D = CS_STALLED, cs_I = CS_STALLED, cs = CS_STALLED, active_loss = 0,
     at_D = D_take, at_I = I_take, fetches = 0\<rparr>"

section \<open>The data port\<close>

definition InDmaSleepSpace :: "addr \<Rightarrow> bool" where
  "InDmaSleepSpace a \<longleftrightarrow> a = DMA_WAIT_EVENT_ADDR"

definition in_sim_space :: "u8 \<Rightarrow> pinout \<Rightarrow> bool" where
  "in_sim_space ID p \<longleftrightarrow> PhysicalInSimSupportSpace (Logical2Physical (p_address p) ID)"

text \<open>A request leaves the FIFO: it goes to the simulation device, it puts the core to sleep, or it
  goes on the bus (its loop does nothing when the burst, an \<open>int\<close> there, is not positive).\<close>

definition take_D :: "sim_config \<Rightarrow> nat \<Rightarrow> u8 \<Rightarrow> wrapper \<times> sim_support \<Rightarrow> (wrapper \<times> sim_support) res option" where
  "take_D cfg now ID ws = (case ws of (w, s) \<Rightarrow>
     (case (at_D w, fifo_read_D w) of
        (D_take, p # ps) \<Rightarrow> Some (let w = w\<lparr>fifo_read_D := ps\<rparr> in
          if in_sim_space ID p then
            res_map (\<lambda>(v, s'). (w\<lparr>at_D := D_sim (p\<lparr>p_data := v\<rparr>)\<rparr>, s'))
              (catch_sim_message cfg now (p_address p - SIMSUPPORT_BASE) (p_data p) (p_rw p) (unat ID) s)
          else if InDmaSleepSpace (p_address p) \<and> p_rw p then
            Inr (w\<lparr>dma_idle := True, at_D := D_put p None\<rparr>, s)
          else if 0 < sint (p_burst p) then
            Inr (w\<lparr>pinoutD := p, request_D := True, cs_D := CS_ACTIVE,
                   at_D := D_beat (nat (sint (p_burst p))) True\<rparr>, s)
          else Inr (w\<lparr>pinoutD := p, request_D := False, cs_D := CS_STALLED\<rparr>, s))
      | _ \<Rightarrow> None))"

text \<open>A clock edge: the cycle of the simulation device is over, or the port sees \<open>ready\<close> with the
  value \<open>v\<close> on the bus, or the cycle is one more of waiting.\<close>

definition clock_D :: "bool \<Rightarrow> pinout \<Rightarrow> wrapper \<Rightarrow> wrapper option" where
  "clock_D ready v w = (case at_D w of
     D_sim p \<Rightarrow> Some (w\<lparr>at_D := D_put p None\<rparr>)
   | D_beat n first \<Rightarrow> Some (let w = w\<lparr>cs_D := if first then CS_ACTIVE else CS_STALLED\<rparr> in
       if \<not> ready then w\<lparr>at_D := D_beat n False\<rparr>
       else w\<lparr>active_loss := active_loss w + 1, pinoutD := v, at_D := D_put v (Some (n - 1))\<rparr>)
   | _ \<Rightarrow> None)"

text \<open>The answer enters the FIFO, when it has room; after the last beat the request is lowered.\<close>

definition put_D :: "wrapper \<Rightarrow> wrapper option" where
  "put_D w = (case at_D w of
     D_put p left \<Rightarrow> if length (fifo_written_D w) < FIFO_SIZE
       then Some (let w = w\<lparr>fifo_written_D := fifo_written_D w @ [p]\<rparr> in
         case left of None \<Rightarrow> w\<lparr>at_D := D_take\<rparr>
         | Some 0 \<Rightarrow> w\<lparr>request_D := False, cs_D := CS_STALLED, at_D := D_take\<rparr>
         | Some (Suc n) \<Rightarrow> w\<lparr>at_D := D_beat (Suc n) False\<rparr>)
       else None
   | _ \<Rightarrow> None)"

section \<open>The instruction port\<close>

text \<open>The tail that follows the two waits: the request goes on the bus.\<close>

definition start_I :: "pinout \<Rightarrow> wrapper \<Rightarrow> wrapper" where
  "start_I p w = w\<lparr>pinoutI := p, request_I := True, cs_I := CS_ACTIVE, at_I := I_bus 0, fetches := fetches w + 1\<rparr>"

definition after_sync_I :: "pinout \<Rightarrow> wrapper \<Rightarrow> wrapper" where
  "after_sync_I p w = (if dma_idle w then w\<lparr>at_I := I_dma p\<rparr> else start_I p w)"

definition take_I :: "wrapper \<Rightarrow> wrapper option" where
  "take_I w = (case (at_I w, fifo_read_I w) of
     (I_take, p # ps) \<Rightarrow> Some (let w = w\<lparr>fifo_read_I := ps\<rparr> in
       if sync_idle w then w\<lparr>at_I := I_sync p\<rparr> else after_sync_I p w)
   | _ \<Rightarrow> None)"

definition clock_I :: "bool \<Rightarrow> pinout \<Rightarrow> wrapper \<Rightarrow> wrapper option" where
  "clock_I ready v w = (case at_I w of
     I_bus n \<Rightarrow> Some (
       if \<not> ready then w\<lparr>cs_I := CS_STALLED, at_I := I_bus (Suc n)\<rparr>
       else w\<lparr>active_loss := (if 1 < Suc n then active_loss w + 1 else active_loss w), cs_I := CS_ACTIVE,
              pinoutI := v, at_I := I_put v\<rparr>)
   | _ \<Rightarrow> None)"

definition put_I :: "wrapper \<Rightarrow> wrapper option" where
  "put_I w = (case at_I w of
     I_put p \<Rightarrow> if length (fifo_written_I w) < FIFO_SIZE
       then Some (w\<lparr>fifo_written_I := fifo_written_I w @ [p], request_I := False, cs_I := CS_STALLED, at_I := I_take\<rparr>)
       else None
   | _ \<Rightarrow> None)"

section \<open>The handlers\<close>

text \<open>\<open>sync_handler\<close> at the edges of \<open>sync_int\<close>. The process of the instruction port waits for the
  same falling edge, and goes on in the same delta cycle.\<close>

definition sync_rise :: "wrapper \<Rightarrow> wrapper" where
  "sync_rise w = w\<lparr>sync_int := True, sync_idle := True, cs_D := CS_IDLE, cs_I := CS_IDLE\<rparr>"

definition sync_fall :: "wrapper \<Rightarrow> wrapper" where
  "sync_fall w = (let w = w\<lparr>sync_int := False, sync_idle := False\<rparr> in
     case at_I w of I_sync p \<Rightarrow> after_sync_I p w | _ \<Rightarrow> w)"

text \<open>\<open>dma_event_handler\<close>: it lowers the event of the DMA, and with it ends the sleep; the falling
  edge lets the instruction port go on.\<close>

definition dma_event_handler :: "wrapper \<Rightarrow> wrapper option" where
  "dma_event_handler w = (if dma_idle w \<and> dma_signal w then
     Some (let w = w\<lparr>dma_signal := False, dma_idle := False\<rparr> in
       case at_I w of I_dma p \<Rightarrow> start_I p w | _ \<Rightarrow> w)
   else None)"

definition core_st_or :: "bool \<Rightarrow> core_st \<Rightarrow> core_st \<Rightarrow> core_st" where
  "core_st_or asleep cs_d cs_i = (if asleep then CS_IDLE
     else if cs_d = CS_ACTIVE \<or> cs_i = CS_ACTIVE then CS_ACTIVE else CS_STALLED)"

definition core_status :: "wrapper \<Rightarrow> wrapper" where
  "core_status w = w\<lparr>cs := core_st_or (sync_idle w) (cs_D w) (cs_I w)\<rparr>"

section \<open>The processes together\<close>

datatype process = Working_I | Working_D | Sync_handler | Dma_event_handler | Core_status

text \<open>The threads of the constructor.\<close>

definition registered :: "process list" where
  "registered = [Working_I, Working_D, Sync_handler, Core_status]"

text \<open>A step of a process, of the core (which uses the far ends of the FIFOs), of the synchronizer
  (which drives \<open>sync_int\<close>), or of the DMA, which only ever raises its event
  (\<open>cl_dma.cpp\<close>, the end of \<open>transfer\<close>).\<close>

inductive wrapper_step :: "process list \<Rightarrow> sim_config \<Rightarrow> u8 \<Rightarrow>
    wrapper \<times> sim_support \<Rightarrow> wrapper \<times> sim_support \<Rightarrow> bool" for ps cfg ID where
  ws_request_D: "length (fifo_read_D w) < FIFO_SIZE \<Longrightarrow>
    wrapper_step ps cfg ID (w, s) (w\<lparr>fifo_read_D := fifo_read_D w @ [p]\<rparr>, s)"
| ws_answer_D: "fifo_written_D w = p # qs \<Longrightarrow> wrapper_step ps cfg ID (w, s) (w\<lparr>fifo_written_D := qs\<rparr>, s)"
| ws_request_I: "length (fifo_read_I w) < FIFO_SIZE \<Longrightarrow>
    wrapper_step ps cfg ID (w, s) (w\<lparr>fifo_read_I := fifo_read_I w @ [p]\<rparr>, s)"
| ws_answer_I: "fifo_written_I w = p # qs \<Longrightarrow> wrapper_step ps cfg ID (w, s) (w\<lparr>fifo_written_I := qs\<rparr>, s)"
| ws_take_D: "Working_D \<in> set ps \<Longrightarrow> take_D cfg now ID (w, s) = Some (Inr (w', s')) \<Longrightarrow>
    wrapper_step ps cfg ID (w, s) (w', s')"
| ws_clock_D: "Working_D \<in> set ps \<Longrightarrow> clock_D ready v w = Some w' \<Longrightarrow> wrapper_step ps cfg ID (w, s) (w', s)"
| ws_put_D: "Working_D \<in> set ps \<Longrightarrow> put_D w = Some w' \<Longrightarrow> wrapper_step ps cfg ID (w, s) (w', s)"
| ws_take_I: "Working_I \<in> set ps \<Longrightarrow> take_I w = Some w' \<Longrightarrow> wrapper_step ps cfg ID (w, s) (w', s)"
| ws_clock_I: "Working_I \<in> set ps \<Longrightarrow> clock_I ready v w = Some w' \<Longrightarrow> wrapper_step ps cfg ID (w, s) (w', s)"
| ws_put_I: "Working_I \<in> set ps \<Longrightarrow> put_I w = Some w' \<Longrightarrow> wrapper_step ps cfg ID (w, s) (w', s)"
| ws_sync_rise: "Sync_handler \<in> set ps \<Longrightarrow> \<not> sync_int w \<Longrightarrow> wrapper_step ps cfg ID (w, s) (sync_rise w, s)"
| ws_sync_fall: "Sync_handler \<in> set ps \<Longrightarrow> sync_int w \<Longrightarrow> wrapper_step ps cfg ID (w, s) (sync_fall w, s)"
| ws_dma_event: "wrapper_step ps cfg ID (w, s) (w\<lparr>dma_signal := True\<rparr>, s)"
| ws_dma_handler: "Dma_event_handler \<in> set ps \<Longrightarrow> dma_event_handler w = Some w' \<Longrightarrow>
    wrapper_step ps cfg ID (w, s) (w', s)"
| ws_status: "Core_status \<in> set ps \<Longrightarrow> wrapper_step ps cfg ID (w, s) (core_status w, s)"

lemmas wrapper_defs = take_D_def clock_D_def put_D_def take_I_def clock_I_def put_I_def sync_rise_def
  sync_fall_def dma_event_handler_def core_status_def start_I_def after_sync_I_def

section \<open>Sleep\<close>

text \<open>What a step does to the sleep flags and to the count of fetches: the data port can put the core
  to sleep, and a fetch only starts when the core is awake.\<close>

lemma take_D_sleep:
  assumes "take_D cfg now ID (w, s) = Some (Inr (w', s'))"
  shows "fetches w' = fetches w \<and> (dma_idle w \<longrightarrow> dma_idle w') \<and> sync_int w' = sync_int w \<and> sync_idle w' = sync_idle w"
  using assms by (auto simp: take_D_def Let_def split: pc_D.splits list.splits if_splits)

lemma clock_put_D_sleep:
  "clock_D ready v w = Some w' \<Longrightarrow> fetches w' = fetches w \<and> dma_idle w' = dma_idle w \<and>
     sync_int w' = sync_int w \<and> sync_idle w' = sync_idle w"
  "put_D w = Some w' \<Longrightarrow> fetches w' = fetches w \<and> dma_idle w' = dma_idle w \<and>
     sync_int w' = sync_int w \<and> sync_idle w' = sync_idle w"
  by (auto simp: clock_D_def put_D_def Let_def split: pc_D.splits if_splits option.splits nat.splits)

lemma clock_put_I_sleep:
  "clock_I ready v w = Some w' \<Longrightarrow> fetches w' = fetches w \<and> dma_idle w' = dma_idle w \<and>
     sync_int w' = sync_int w \<and> sync_idle w' = sync_idle w"
  "put_I w = Some w' \<Longrightarrow> fetches w' = fetches w \<and> dma_idle w' = dma_idle w \<and>
     sync_int w' = sync_int w \<and> sync_idle w' = sync_idle w"
  by (auto simp: clock_I_def put_I_def split: pc_I.splits if_splits)

lemma take_I_sleep:
  "take_I w = Some w' \<Longrightarrow> dma_idle w' = dma_idle w \<and> sync_int w' = sync_int w \<and> sync_idle w' = sync_idle w \<and>
     (if dma_idle w \<or> sync_idle w then fetches w' = fetches w else fetches w' = fetches w + 1)"
  by (auto simp: take_I_def after_sync_I_def start_I_def Let_def split: pc_I.splits list.splits if_splits)

lemma sync_fall_sleep:
  "dma_idle (sync_fall w) = dma_idle w" "sync_int (sync_fall w) = False" "sync_idle (sync_fall w) = False"
  "dma_idle w \<Longrightarrow> fetches (sync_fall w) = fetches w"
  by (auto simp: sync_fall_def after_sync_I_def start_I_def Let_def split: pc_I.splits)

lemmas sleep_frames = take_D_sleep clock_put_D_sleep clock_put_I_sleep take_I_sleep

inductive_cases wrapper_stepE: "wrapper_step ps cfg ID c c'"


text \<open>Without the handler a step never ends the sleep of the DMA, and starts no fetch during it.\<close>

lemma dma_sleep_step:
  assumes "wrapper_step ps cfg ID (w, s) (w', s')" "Dma_event_handler \<notin> set ps" "dma_idle w"
  shows "dma_idle w' \<and> fetches w' = fetches w"
  using assms(1)
proof cases
  case (ws_take_D now) then show ?thesis using take_D_sleep assms(3) by blast
next
  case (ws_clock_D ready v) then show ?thesis using clock_put_D_sleep(1) assms(3) by blast
next
  case ws_put_D then show ?thesis using clock_put_D_sleep(2) assms(3) by blast
next
  case ws_take_I then show ?thesis using take_I_sleep [of w w'] assms(3) by simp
next
  case (ws_clock_I ready v) then show ?thesis using clock_put_I_sleep(1) assms(3) by blast
next
  case ws_put_I then show ?thesis using clock_put_I_sleep(2) assms(3) by blast
next
  case ws_sync_fall then show ?thesis using sync_fall_sleep assms(3) by simp
next
  case ws_dma_handler then show ?thesis using assms(2) by simp
qed (use assms(3) in \<open>simp_all add: sync_rise_def core_status_def\<close>)

lemma dma_sleep_steps:
  assumes "(wrapper_step ps cfg ID)\<^sup>*\<^sup>* c c'" "Dma_event_handler \<notin> set ps" "dma_idle (fst c)"
  shows "dma_idle (fst c') \<and> fetches (fst c') = fetches (fst c)"
  using assms(1)
proof (induction rule: rtranclp_induct)
  case base then show ?case using assms(3) by simp
next
  case (step d e)
  then show ?case using dma_sleep_step [of ps cfg ID "fst d" "snd d" "fst e" "snd e"] assms(2) by simp
qed

text \<open>C20: a store to \<open>DMA_WAIT_EVENT_ADDR\<close>, which is how \<open>dma_wait\<close> waits for a
  transfer in sleep mode, takes the core off the platform for good: whatever the DMA, the
  synchronizer and the bus do afterwards, the core stays asleep and no further instruction fetch is
  put on the bus, because the process that would lower the event is not among the threads of the
  constructor. With that process registered, every such state would be left as soon as the DMA has
  raised its event, and the fetch that waits would start.
\<close>

theorem dma_sleep_never_ends:
  assumes "at_D w = D_take" "fifo_read_D w = p # qs" "InDmaSleepSpace (p_address p)" "p_rw p"
    and "take_D cfg now ID (w, s) = Some (Inr (w1, s1))"
    and "(wrapper_step registered cfg ID)\<^sup>*\<^sup>* (w1, s1) (w2, s2)"
  shows "dma_idle w2 \<and> fetches w2 = fetches w \<and>
    (\<exists>w3. (wrapper_step (Dma_event_handler # registered) cfg ID)\<^sup>*\<^sup>* (w2, s2) (w3, s2) \<and> \<not> dma_idle w3 \<and>
       (\<forall>q. at_I w2 = I_dma q \<longrightarrow> fetches w3 = fetches w2 + 1 \<and> pinoutI w3 = q))"
proof -
  have "\<not> in_sim_space ID p" using assms(3)
    by (simp add: in_sim_space_def InDmaSleepSpace_def DMA_WAIT_EVENT_ADDR_def DMA_EVENT_OFF_def
        Logical2Physical_def PhysicalInSimSupportSpace_def address_simps)
  then have w1: "dma_idle w1 \<and> fetches w1 = fetches w" using assms(1-5) by (auto simp: take_D_def)
  have "Dma_event_handler \<notin> set registered" by (simp add: registered_def)
  then have asleep: "dma_idle w2 \<and> fetches w2 = fetches w" using dma_sleep_steps [OF assms(6)] w1 by simp
  let ?w = "w2\<lparr>dma_signal := True\<rparr>"
  obtain w3 where w3: "dma_event_handler ?w = Some w3" using asleep by (simp add: dma_event_handler_def)
  have "wrapper_step (Dma_event_handler # registered) cfg ID (w2, s2) (?w, s2)" by (rule ws_dma_event)
  moreover have "wrapper_step (Dma_event_handler # registered) cfg ID (?w, s2) (w3, s2)"
    using ws_dma_handler [OF _ w3] by simp
  ultimately have "(wrapper_step (Dma_event_handler # registered) cfg ID)\<^sup>*\<^sup>* (w2, s2) (w3, s2)"
    by (meson converse_rtranclp_into_rtranclp r_into_rtranclp)
  moreover have "\<not> dma_idle w3 \<and> (\<forall>q. at_I w2 = I_dma q \<longrightarrow> fetches w3 = fetches w2 + 1 \<and> pinoutI w3 = q)"
    using w3 by (auto simp: dma_event_handler_def start_I_def Let_def split: if_splits pc_I.splits)
  ultimately show ?thesis using asleep by blast
qed

text \<open>The start-up of a core that stores to \<open>DMA_WAIT_EVENT_ADDR\<close> and then fetches.\<close>

definition demo_cfg :: sim_config where
  "demo_cfg = \<lparr>N_CORES = 2, N_CORES_TILE = 2, N_SHR_CACHE_BANKS = 1, CL_ICACHE_PRIV = True,
     sim_argc = 0, sim_argv = (\<lambda>_. 0), sim_envp = (\<lambda>_. 0)\<rparr>"

definition demo_sleeper :: wrapper where
  "demo_sleeper = new_wrapper\<lparr>fifo_read_D := [access_pinout 0 (Write_word DMA_WAIT_EVENT_ADDR 1)]\<rparr>"

definition demo_asleep :: wrapper where
  "demo_asleep = new_wrapper\<lparr>dma_idle := True, at_D := D_put (access_pinout 0 (Write_word DMA_WAIT_EVENT_ADDR 1)) None\<rparr>"

definition demo_waiting :: wrapper where
  "demo_waiting = demo_asleep\<lparr>at_I := I_dma (load_instr_32 0 4)\<rparr>"

lemmas demo_wrapper_defs = demo_sleeper_def demo_asleep_def demo_waiting_def new_wrapper_def

lemma demo_sleeps: "take_D demo_cfg now 0 (demo_sleeper, s) = Some (Inr (demo_asleep, s))"
  by (simp add: take_D_def demo_wrapper_defs mmu_pinout_def in_sim_space_def InDmaSleepSpace_def
      DMA_WAIT_EVENT_ADDR_def DMA_EVENT_OFF_def Logical2Physical_def PhysicalInSimSupportSpace_def address_simps)

lemma demo_waits: "(wrapper_step registered demo_cfg 0)\<^sup>*\<^sup>* (demo_asleep, s) (demo_waiting, s)"
proof -
  let ?w = "demo_asleep\<lparr>fifo_read_I := [load_instr_32 0 4]\<rparr>"
  have "wrapper_step registered demo_cfg 0 (demo_asleep, s) (?w, s)"
    using ws_request_I [of demo_asleep registered demo_cfg 0 s "load_instr_32 0 4"]
    by (simp add: demo_wrapper_defs FIFO_SIZE_def)
  moreover have "take_I ?w = Some demo_waiting"
    by (simp add: take_I_def demo_wrapper_defs after_sync_I_def)
  then have "wrapper_step registered demo_cfg 0 (?w, s) (demo_waiting, s)"
    by (rule ws_take_I [rotated]) (simp add: registered_def)
  ultimately show ?thesis by (meson converse_rtranclp_into_rtranclp r_into_rtranclp)
qed

theorem dma_sleep_never_ends_witness:
  "dma_idle demo_waiting \<and> at_I demo_waiting = I_dma (load_instr_32 0 4) \<and>
   fetches demo_waiting = fetches demo_sleeper"
proof -
  have "dma_idle demo_waiting \<and> fetches demo_waiting = fetches demo_sleeper"
    using dma_sleep_never_ends [of demo_sleeper _ "[]", OF _ _ _ _ demo_sleeps demo_waits]
    by (auto simp: demo_sleeper_def new_wrapper_def mmu_pinout_def InDmaSleepSpace_def)
  then show ?thesis by (simp add: demo_waiting_def)
qed

section \<open>Fetches and the synchronizer\<close>

text \<open>The handler follows the signal.\<close>

definition sync_followed :: "wrapper \<times> sim_support \<Rightarrow> bool" where
  "sync_followed c \<longleftrightarrow> sync_idle (fst c) = sync_int (fst c)"

lemma sync_followed_step:
  assumes "wrapper_step ps cfg ID (w, s) (w', s')" "sync_idle w = sync_int w" "Dma_event_handler \<notin> set ps"
  shows "sync_idle w' = sync_int w' \<and>
    (fetches w' = fetches w \<or> fetches w' = fetches w + 1 \<and> \<not> dma_idle w \<and> \<not> sync_int w')"
  using assms(1)
proof cases
  case (ws_take_D now) then show ?thesis using take_D_sleep assms(2) by metis
next
  case (ws_clock_D ready v) then show ?thesis using clock_put_D_sleep(1) assms(2) by metis
next
  case ws_put_D then show ?thesis using clock_put_D_sleep(2) assms(2) by metis
next
  case ws_take_I then show ?thesis using take_I_sleep [of w w'] assms(2) by (auto split: if_splits)
next
  case (ws_clock_I ready v) then show ?thesis using clock_put_I_sleep(1) assms(2) by metis
next
  case ws_put_I then show ?thesis using clock_put_I_sleep(2) assms(2) by metis
next
  case ws_sync_fall
  then show ?thesis using assms(2) by (auto simp: sync_fall_def after_sync_I_def start_I_def Let_def split: pc_I.splits)
next
  case ws_dma_handler then show ?thesis using assms(3) by simp
qed (use assms(2) in \<open>simp_all add: sync_rise_def core_status_def\<close>)

lemma sync_followed_reach:
  assumes "(wrapper_step ps cfg ID)\<^sup>*\<^sup>* c c'" "sync_followed c" "Dma_event_handler \<notin> set ps"
  shows "sync_followed c'"
  using assms(1)
proof (induction rule: rtranclp_induct)
  case base then show ?case by (rule assms(2))
next
  case (step d e)
  then show ?case using sync_followed_step [of ps cfg ID "fst d" "snd d" "fst e" "snd e"] assms(3)
    by (simp add: sync_followed_def)
qed

text \<open>From its construction on, the wrapper puts a fetch on the bus only when the core is awake, one at
  a time: neither during a sleep on the DMA nor while the synchronizer holds \<open>sync_int\<close>.\<close>

theorem fetches_only_awake:
  assumes "(wrapper_step registered cfg ID)\<^sup>*\<^sup>* (new_wrapper, s0) (w, s)"
    and "wrapper_step registered cfg ID (w, s) (w', s')" "fetches w' \<noteq> fetches w"
  shows "fetches w' = fetches w + 1 \<and> \<not> dma_idle w \<and> \<not> sync_int w'"
proof -
  have n: "Dma_event_handler \<notin> set registered" by (simp add: registered_def)
  have "sync_followed (w, s)"
    by (rule sync_followed_reach [OF assms(1) _ n]) (simp add: sync_followed_def new_wrapper_def)
  then show ?thesis using sync_followed_step [OF assms(2) _ n] assms(3) by (simp add: sync_followed_def)
qed

section \<open>A core on its data port\<close>

text \<open>
  The core decides on its next access by the answers it has had so far (\<open>program\<close>), puts the
  transaction into the FIFO and is suspended until the answer is there. What is at the other end of the port
  is a function: \<open>bus p m\<close> is the answer to the beat \<open>p\<close> in state \<open>m\<close> and the state after it; \<open>others\<close>
  is what other masters may do to that state at any time.
\<close>

type_synonym 'm bus = "pinout \<Rightarrow> 'm \<Rightarrow> (pinout \<times> 'm) res"

record 'm core_sys =
  wrap :: wrapper
  support :: sim_support
  bus_mem :: 'm
  issued :: "access option"
  answers :: "u32 option list"

inductive core_step :: "sim_config \<Rightarrow> u8 \<Rightarrow> (u32 option list \<Rightarrow> access option) \<Rightarrow> 'm bus \<Rightarrow> ('m \<Rightarrow> 'm \<Rightarrow> bool) \<Rightarrow>
    'm core_sys \<Rightarrow> 'm core_sys \<Rightarrow> bool" for cfg ID program bus others where
  cs_issue: "issued c = None \<Longrightarrow> program (answers c) = Some a \<Longrightarrow> length (fifo_read_D (wrap c)) < FIFO_SIZE \<Longrightarrow>
    core_step cfg ID program bus others c
      (c\<lparr>wrap := (wrap c)\<lparr>fifo_read_D := fifo_read_D (wrap c) @ [access_pinout ID a]\<rparr>, issued := Some a\<rparr>)"
| cs_take: "take_D cfg now ID (wrap c, support c) = Some (Inr (w', s')) \<Longrightarrow>
    core_step cfg ID program bus others c (c\<lparr>wrap := w', support := s'\<rparr>)"
| cs_wait: "clock_D False (pinoutD (wrap c)) (wrap c) = Some w' \<Longrightarrow>
    core_step cfg ID program bus others c (c\<lparr>wrap := w'\<rparr>)"
| cs_beat: "request_D (wrap c) \<Longrightarrow> at_D (wrap c) = D_beat n first \<Longrightarrow> bus (pinoutD (wrap c)) (bus_mem c) = Inr (v, m') \<Longrightarrow>
    clock_D True v (wrap c) = Some w' \<Longrightarrow>
    core_step cfg ID program bus others c (c\<lparr>wrap := w', bus_mem := m'\<rparr>)"
| cs_put: "put_D (wrap c) = Some w' \<Longrightarrow> core_step cfg ID program bus others c (c\<lparr>wrap := w'\<rparr>)"
| cs_answer: "issued c = Some a \<Longrightarrow> fifo_written_D (wrap c) = p # qs \<Longrightarrow>
    core_step cfg ID program bus others c
      (c\<lparr>wrap := (wrap c)\<lparr>fifo_written_D := qs\<rparr>, issued := None, answers := answers c @ [access_result a p]\<rparr>)"
| cs_others: "others (bus_mem c) m' \<Longrightarrow> core_step cfg ID program bus others c (c\<lparr>bus_mem := m'\<rparr>)"

text \<open>The specification: an access happens at once, on the simulation device or on the bus; a store
  to \<open>DMA_WAIT_EVENT_ADDR\<close> stays in the wrapper.\<close>

definition serve :: "sim_config \<Rightarrow> nat \<Rightarrow> u8 \<Rightarrow> 'm bus \<Rightarrow> pinout \<Rightarrow> sim_support \<times> 'm \<Rightarrow> (pinout \<times> sim_support \<times> 'm) res" where
  "serve cfg now ID bus p sm = (case sm of (s, m) \<Rightarrow>
     if in_sim_space ID p then
       res_map (\<lambda>(v, s'). (p\<lparr>p_data := v\<rparr>, s', m))
         (catch_sim_message cfg now (p_address p - SIMSUPPORT_BASE) (p_data p) (p_rw p) (unat ID) s)
     else if InDmaSleepSpace (p_address p) \<and> p_rw p then Inr (p, s, m)
     else res_map (\<lambda>(v, m'). (v, s, m')) (bus p m))"

inductive atomic_step :: "sim_config \<Rightarrow> u8 \<Rightarrow> (u32 option list \<Rightarrow> access option) \<Rightarrow> 'm bus \<Rightarrow> ('m \<Rightarrow> 'm \<Rightarrow> bool) \<Rightarrow>
    sim_support \<times> 'm \<times> u32 option list \<Rightarrow> sim_support \<times> 'm \<times> u32 option list \<Rightarrow> bool"
    for cfg ID program bus others where
  at_access: "program h = Some a \<Longrightarrow> serve cfg now ID bus (access_pinout ID a) (s, m) = Inr (p, s', m') \<Longrightarrow>
    atomic_step cfg ID program bus others (s, m, h) (s', m', h @ [access_result a p])"
| at_others: "others m m' \<Longrightarrow> atomic_step cfg ID program bus others (s, m, h) (s, m', h)"

text \<open>Where the pending access is: in the request FIFO, on the bus, or served, its answer on the way.\<close>

definition on_the_way :: "wrapper \<Rightarrow> pinout option" where
  "on_the_way w = (case fifo_written_D w of p # _ \<Rightarrow> Some p
     | [] \<Rightarrow> (case at_D w of D_sim p \<Rightarrow> Some p | D_put p _ \<Rightarrow> Some p | _ \<Rightarrow> None))"

definition core_abs :: "'m core_sys \<Rightarrow> sim_support \<times> 'm \<times> u32 option list" where
  "core_abs c = (support c, bus_mem c, answers c @ (case (issued c, on_the_way (wrap c)) of
     (Some a, Some p) \<Rightarrow> [access_result a p] | _ \<Rightarrow> []))"

definition core_inv :: "u8 \<Rightarrow> (u32 option list \<Rightarrow> access option) \<Rightarrow> 'm core_sys \<Rightarrow> bool" where
  "core_inv ID program c \<longleftrightarrow> (let w = wrap c in case issued c of
     None \<Rightarrow> fifo_read_D w = [] \<and> fifo_written_D w = [] \<and> at_D w = D_take
   | Some a \<Rightarrow> program (answers c) = Some a \<and>
       (fifo_read_D w = [access_pinout ID a] \<and> fifo_written_D w = [] \<and> at_D w = D_take \<or>
        fifo_read_D w = [] \<and> fifo_written_D w = [] \<and> pinoutD w = access_pinout ID a \<and>
          \<not> in_sim_space ID (pinoutD w) \<and> \<not> (InDmaSleepSpace (p_address (pinoutD w)) \<and> p_rw (pinoutD w)) \<and>
          (\<exists>first. at_D w = D_beat 1 first) \<or>
        fifo_read_D w = [] \<and> fifo_written_D w = [] \<and> (\<exists>p. at_D w = D_sim p \<or> at_D w = D_put p None \<or> at_D w = D_put p (Some 0)) \<or>
        fifo_read_D w = [] \<and> (\<exists>p. fifo_written_D w = [p]) \<and> at_D w = D_take))"

lemma access_pinout_burst [simp]: "p_burst (access_pinout ID a) = 1"
  by (cases a) (simp_all add: mmu_pinout_def)

inductive_cases core_stepE: "core_step cfg ID program bus others c c'"

text \<open>One lemma per step: the invariant holds after it, and the specification stays or makes a step.\<close>

lemma core_issue:
  assumes "core_inv ID program c" "issued c = None" "program (answers c) = Some a"
  defines "c' \<equiv> c\<lparr>wrap := (wrap c)\<lparr>fifo_read_D := fifo_read_D (wrap c) @ [access_pinout ID a]\<rparr>, issued := Some a\<rparr>"
  shows "core_inv ID program c' \<and> core_abs c' = core_abs c"
  using assms by (auto simp: core_inv_def core_abs_def on_the_way_def Let_def)

lemma core_take:
  assumes inv: "core_inv ID program c" and t: "take_D cfg now ID (wrap c, support c) = Some (Inr (w', s'))"
  defines "c' \<equiv> c\<lparr>wrap := w', support := s'\<rparr>"
  shows "core_inv ID program c' \<and>
    (core_abs c' = core_abs c \<or> atomic_step cfg ID program bus others (core_abs c) (core_abs c'))"
proof -
  obtain a where a: "issued c = Some a" "program (answers c) = Some a" "fifo_written_D (wrap c) = []"
      "fifo_read_D (wrap c) = [access_pinout ID a]" "at_D (wrap c) = D_take"
    using inv t by (auto simp: core_inv_def take_D_def Let_def split: option.splits)
  let ?p = "access_pinout ID a"
  have old: "core_abs c = (support c, bus_mem c, answers c)"
    using a by (simp add: core_abs_def on_the_way_def)
  consider (sim) "in_sim_space ID ?p"
    | (sleep) "\<not> in_sim_space ID ?p" "InDmaSleepSpace (p_address ?p) \<and> p_rw ?p"
    | (bus) "\<not> in_sim_space ID ?p" "\<not> (InDmaSleepSpace (p_address ?p) \<and> p_rw ?p)" by blast
  then show ?thesis
  proof cases
    case sim
    then obtain v where v: "catch_sim_message cfg now (p_address ?p - SIMSUPPORT_BASE) (p_data ?p) (p_rw ?p)
          (unat ID) (support c) = Inr (v, s')"
        "w' = (wrap c)\<lparr>fifo_read_D := [], at_D := D_sim (?p\<lparr>p_data := v\<rparr>)\<rparr>"
      using t a by (auto simp: take_D_def)
    have "serve cfg now ID bus ?p (support c, bus_mem c) = Inr (?p\<lparr>p_data := v\<rparr>, s', bus_mem c)"
      using sim v(1) by (simp add: serve_def)
    from at_access [of program "answers c" a, OF a(2) this]
    have "atomic_step cfg ID program bus others (core_abs c) (core_abs c')"
      using a v(2) by (simp add: old c'_def core_abs_def on_the_way_def)
    then show ?thesis using a v(2) by (auto simp: c'_def core_inv_def)
  next
    case sleep
    then have w: "w' = (wrap c)\<lparr>fifo_read_D := [], dma_idle := True, at_D := D_put ?p None\<rparr>" "s' = support c"
      using t a by (auto simp: take_D_def)
    have "serve cfg now ID bus ?p (support c, bus_mem c) = Inr (?p, support c, bus_mem c)"
      using sleep by (simp add: serve_def)
    from at_access [of program "answers c" a, OF a(2) this]
    have "atomic_step cfg ID program bus others (core_abs c) (core_abs c')"
      using a w by (simp add: old c'_def core_abs_def on_the_way_def)
    then show ?thesis using a w by (auto simp: c'_def core_inv_def)
  next
    case bus
    then have w: "w' = (wrap c)\<lparr>fifo_read_D := [], pinoutD := ?p, request_D := True, cs_D := CS_ACTIVE,
        at_D := D_beat 1 True\<rparr>" "s' = support c"
      using t a by (auto simp: take_D_def)
    then show ?thesis using a bus by (auto simp: old c'_def core_inv_def core_abs_def on_the_way_def)
  qed
qed

lemma core_wait:
  assumes inv: "core_inv ID program c" and t: "clock_D False v (wrap c) = Some w'"
  shows "core_inv ID program (c\<lparr>wrap := w'\<rparr>) \<and> core_abs (c\<lparr>wrap := w'\<rparr>) = core_abs c"
  using assms
  by (auto simp: core_inv_def core_abs_def on_the_way_def clock_D_def Let_def split: option.splits pc_D.splits)

lemma core_beat:
  assumes inv: "core_inv ID program c" and n: "at_D (wrap c) = D_beat n first"
    and b: "bus (pinoutD (wrap c)) (bus_mem c) = Inr (v, m')" and t: "clock_D True v (wrap c) = Some w'"
  defines "c' \<equiv> c\<lparr>wrap := w', bus_mem := m'\<rparr>"
  shows "core_inv ID program c' \<and> atomic_step cfg ID program bus others (core_abs c) (core_abs c')"
proof -
  obtain a where a: "issued c = Some a" "program (answers c) = Some a" "fifo_written_D (wrap c) = []"
      "fifo_read_D (wrap c) = []" "n = 1" "pinoutD (wrap c) = access_pinout ID a"
      "\<not> in_sim_space ID (access_pinout ID a)"
      "\<not> (InDmaSleepSpace (p_address (access_pinout ID a)) \<and> p_rw (access_pinout ID a))"
    using inv n by (auto simp: core_inv_def Let_def split: option.splits)
  have w: "at_D w' = D_put v (Some 0)" "fifo_written_D w' = []" "fifo_read_D w' = []"
    using t n a by (auto simp: clock_D_def Let_def)
  have "serve cfg 0 ID bus (access_pinout ID a) (support c, bus_mem c) = Inr (v, support c, m')"
    using a(6-8) b by (auto simp: serve_def)
  from at_access [of program "answers c" a, OF a(2) this]
  have "atomic_step cfg ID program bus others (core_abs c) (core_abs c')"
    using a n w by (simp add: c'_def core_abs_def on_the_way_def)
  then show ?thesis using a w by (simp add: c'_def core_inv_def)
qed

lemma core_put:
  assumes inv: "core_inv ID program c" and t: "put_D (wrap c) = Some w'"
  shows "core_inv ID program (c\<lparr>wrap := w'\<rparr>) \<and> core_abs (c\<lparr>wrap := w'\<rparr>) = core_abs c"
  using assms
  by (auto simp: core_inv_def core_abs_def on_the_way_def put_D_def Let_def FIFO_SIZE_def split: option.splits pc_D.splits)

lemma core_answer:
  assumes inv: "core_inv ID program c" and a: "issued c = Some a" "fifo_written_D (wrap c) = p # qs"
  defines "c' \<equiv> c\<lparr>wrap := (wrap c)\<lparr>fifo_written_D := qs\<rparr>, issued := None, answers := answers c @ [access_result a p]\<rparr>"
  shows "core_inv ID program c' \<and> core_abs c' = core_abs c"
  using assms by (auto simp: core_inv_def core_abs_def on_the_way_def Let_def)

lemma core_others:
  assumes inv: "core_inv ID program c" and o: "others (bus_mem c) m'"
  shows "core_inv ID program (c\<lparr>bus_mem := m'\<rparr>) \<and>
    atomic_step cfg ID program bus others (core_abs c) (core_abs (c\<lparr>bus_mem := m'\<rparr>))"
proof -
  have "core_inv ID program (c\<lparr>bus_mem := m'\<rparr>)"
    using inv by (cases "issued c") (simp_all add: core_inv_def Let_def)
  moreover have "core_abs (c\<lparr>bus_mem := m'\<rparr>) = (support c, m', snd (snd (core_abs c)))"
    by (simp add: core_abs_def)
  moreover have "core_abs c = (support c, bus_mem c, snd (snd (core_abs c)))" by (simp add: core_abs_def)
  ultimately show ?thesis using at_others [where others = others, OF o] by metis
qed

lemma core_step_refines:
  assumes "core_step cfg ID program bus others c c'" "core_inv ID program c"
  shows "core_inv ID program c' \<and>
    (core_abs c' = core_abs c \<or> atomic_step cfg ID program bus others (core_abs c) (core_abs c'))"
  using assms(1)
proof cases
  case (cs_issue a) then show ?thesis using core_issue [OF assms(2)] by blast
next
  case (cs_take now w' s') then show ?thesis using core_take [OF assms(2)] by blast
next
  case (cs_wait w') then show ?thesis using core_wait [OF assms(2)] by blast
next
  case (cs_beat n first v m' w') then show ?thesis using core_beat [OF assms(2)] by blast
next
  case (cs_put w') then show ?thesis using core_put [OF assms(2)] by blast
next
  case (cs_answer a p qs) then show ?thesis using core_answer [OF assms(2)] by blast
next
  case (cs_others m') then show ?thesis using core_others [OF assms(2)] by blast
qed

definition new_core :: "sim_support \<Rightarrow> 'm \<Rightarrow> 'm core_sys" where
  "new_core s m = \<lparr>wrap = new_wrapper, support = s, bus_mem = m, issued = None, answers = []\<rparr>"

lemma core_reach:
  assumes "(core_step cfg ID program bus others)\<^sup>*\<^sup>* (new_core s m) c"
  shows "core_inv ID program c \<and> (atomic_step cfg ID program bus others)\<^sup>*\<^sup>* (s, m, []) (core_abs c)"
  using assms
proof (induction rule: rtranclp_induct)
  case base
  then show ?case by (simp add: new_core_def new_wrapper_def core_inv_def core_abs_def on_the_way_def)
next
  case (step d e)
  then show ?case using core_step_refines [OF step.hyps(2)] by (metis rtranclp.rtrancl_into_rtrancl)
qed

text \<open>An access that the specification can make is carried out: from the request FIFO it gets to the
  point where its answer is about to enter the other FIFO, and from there to the core.\<close>

lemma core_access_served:
  assumes w: "fifo_read_D (wrap c) = [access_pinout ID a]" "fifo_written_D (wrap c) = []" "at_D (wrap c) = D_take"
    and v: "serve cfg now ID bus (access_pinout ID a) (support c, bus_mem c) = Inr (p, s', m')"
  shows "\<exists>w' left. (core_step cfg ID program bus others)\<^sup>*\<^sup>* c (c\<lparr>wrap := w', support := s', bus_mem := m'\<rparr>) \<and>
    at_D w' = D_put p left \<and> fifo_written_D w' = [] \<and> (left = None \<or> left = Some 0)"
proof -
  let ?st = "core_step cfg ID program bus others" and ?q = "access_pinout ID a"
  consider (sim) "in_sim_space ID ?q"
    | (sleep) "\<not> in_sim_space ID ?q" "InDmaSleepSpace (p_address ?q) \<and> p_rw ?q"
    | (bus) "\<not> in_sim_space ID ?q" "\<not> (InDmaSleepSpace (p_address ?q) \<and> p_rw ?q)" by blast
  then show ?thesis
  proof cases
    case sim
    let ?w = "(wrap c)\<lparr>fifo_read_D := [], at_D := D_sim p\<rparr>" and ?w' = "(wrap c)\<lparr>fifo_read_D := [], at_D := D_put p None\<rparr>"
    have m: "m' = bus_mem c" and t: "take_D cfg now ID (wrap c, support c) = Some (Inr (?w, s'))"
      using sim v w by (auto simp: serve_def take_D_def)
    have "?st c (c\<lparr>wrap := ?w, support := s'\<rparr>)" by (rule cs_take [OF t])
    moreover have "?st (c\<lparr>wrap := ?w, support := s'\<rparr>) (c\<lparr>wrap := ?w, support := s'\<rparr>\<lparr>wrap := ?w'\<rparr>)"
      by (rule cs_wait) (simp add: clock_D_def)
    moreover have "c\<lparr>wrap := ?w, support := s'\<rparr>\<lparr>wrap := ?w'\<rparr> = c\<lparr>wrap := ?w', support := s', bus_mem := m'\<rparr>"
      using m by simp
    ultimately have "?st\<^sup>*\<^sup>* c (c\<lparr>wrap := ?w', support := s', bus_mem := m'\<rparr>)"
      by (metis converse_rtranclp_into_rtranclp r_into_rtranclp)
    then show ?thesis using w by fastforce
  next
    case sleep
    let ?w = "(wrap c)\<lparr>fifo_read_D := [], dma_idle := True, at_D := D_put ?q None\<rparr>"
    have e: "m' = bus_mem c" "s' = support c" "p = ?q"
      and t: "take_D cfg now ID (wrap c, support c) = Some (Inr (?w, s'))"
      using sleep v w by (auto simp: serve_def take_D_def)
    have "?st c (c\<lparr>wrap := ?w, support := s'\<rparr>)" by (rule cs_take [OF t])
    then have "?st\<^sup>*\<^sup>* c (c\<lparr>wrap := ?w, support := s', bus_mem := m'\<rparr>)" using e by auto
    then show ?thesis using w e by fastforce
  next
    case bus
    let ?w = "(wrap c)\<lparr>fifo_read_D := [], pinoutD := ?q, request_D := True, cs_D := CS_ACTIVE, at_D := D_beat 1 True\<rparr>"
    have e: "s' = support c" "bus ?q (bus_mem c) = Inr (p, m')"
      and t: "take_D cfg now ID (wrap c, support c) = Some (Inr (?w, s'))"
      using bus v w by (auto simp: serve_def take_D_def)
    have "\<exists>w'. clock_D True p ?w = Some w'" by (simp add: clock_D_def)
    then obtain w' where b: "clock_D True p ?w = Some w'" by blast
    have b': "at_D w' = D_put p (Some 0) \<and> fifo_written_D w' = []" using b w by (auto simp: clock_D_def)
    have "?st c (c\<lparr>wrap := ?w, support := s'\<rparr>)" by (rule cs_take [OF t])
    moreover have "?st (c\<lparr>wrap := ?w, support := s'\<rparr>) (c\<lparr>wrap := ?w, support := s'\<rparr>\<lparr>wrap := w', bus_mem := m'\<rparr>)"
      by (rule cs_beat [where n = 1 and first = True and v = p]) (use b in \<open>simp_all add: e\<close>)
    moreover have "c\<lparr>wrap := ?w, support := s'\<rparr>\<lparr>wrap := w', bus_mem := m'\<rparr> = c\<lparr>wrap := w', support := s', bus_mem := m'\<rparr>"
      by simp
    ultimately have "?st\<^sup>*\<^sup>* c (c\<lparr>wrap := w', support := s', bus_mem := m'\<rparr>)"
      by (metis converse_rtranclp_into_rtranclp r_into_rtranclp)
    then show ?thesis using b' by blast
  qed
qed

lemma core_access_done:
  assumes inv: "core_inv ID program c" and i: "issued c = None" and a: "program (answers c) = Some a"
    and v: "serve cfg now ID bus (access_pinout ID a) (support c, bus_mem c) = Inr (p, s', m')"
  shows "\<exists>c'. (core_step cfg ID program bus others)\<^sup>*\<^sup>* c c' \<and> issued c' = None \<and> support c' = s' \<and> bus_mem c' = m' \<and>
    answers c' = answers c @ [access_result a p]"
proof -
  let ?st = "core_step cfg ID program bus others" and ?q = "access_pinout ID a"
  have idle: "fifo_read_D (wrap c) = []" "fifo_written_D (wrap c) = []" "at_D (wrap c) = D_take"
    using inv i by (auto simp: core_inv_def Let_def)
  let ?c1 = "c\<lparr>wrap := (wrap c)\<lparr>fifo_read_D := [?q]\<rparr>, issued := Some a\<rparr>"
  have s1: "?st c ?c1" using cs_issue [of c program a cfg ID bus others, OF i a] idle by (simp add: FIFO_SIZE_def)
  have v1: "serve cfg now ID bus ?q (support ?c1, bus_mem ?c1) = Inr (p, s', m')" using v by simp
  obtain w left where w: "?st\<^sup>*\<^sup>* ?c1 (?c1\<lparr>wrap := w, support := s', bus_mem := m'\<rparr>)"
    "at_D w = D_put p left" "fifo_written_D w = []" "left = None \<or> left = Some 0"
    using core_access_served [OF _ _ _ v1] idle by fastforce
  let ?c2 = "?c1\<lparr>wrap := w, support := s', bus_mem := m'\<rparr>"
  obtain w3 where w3: "put_D w = Some w3" "fifo_written_D w3 = [p]"
    using w(2-4) by (auto simp: put_D_def FIFO_SIZE_def Let_def)
  have s3: "?st ?c2 (?c2\<lparr>wrap := w3\<rparr>)" by (rule cs_put) (simp add: w3)
  let ?c4 = "?c2\<lparr>wrap := w3\<lparr>fifo_written_D := []\<rparr>, issued := None, answers := answers c @ [access_result a p]\<rparr>"
  have s4: "?st (?c2\<lparr>wrap := w3\<rparr>) ?c4"
    using cs_answer [of "?c2\<lparr>wrap := w3\<rparr>" a p "[]" cfg ID program bus others] w3 by simp
  have "?st\<^sup>*\<^sup>* c ?c4" using s1 w(1) s3 s4 by (meson converse_rtranclp_into_rtranclp rtranclp.rtrancl_into_rtrancl)
  then show ?thesis by (rule exI [where x = ?c4, OF conjI]) simp
qed

text \<open>C19: the loads and stores of a core, of any width and however each depends on the answers
  before it, are what they would be if each went to the simulation device or to the bus at once, in
  program order and exactly once, whatever the slaves' delays and the other masters: every state
  of the FIFOs, the process and the bus is one of the specification, with the answers the core has
  or is about to get. An access that is served gets its answer: it is never stuck on the way.\<close>

theorem core_accesses_atomic:
  assumes "(core_step cfg ID program bus others)\<^sup>*\<^sup>* (new_core s m) c"
  shows "(atomic_step cfg ID program bus others)\<^sup>*\<^sup>* (s, m, []) (core_abs c) \<and>
    (issued c = None \<longrightarrow> core_abs c = (support c, bus_mem c, answers c) \<and>
      (\<forall>a now p s' m'. program (answers c) = Some a \<longrightarrow>
         serve cfg now ID bus (access_pinout ID a) (support c, bus_mem c) = Inr (p, s', m') \<longrightarrow>
         (\<exists>c'. (core_step cfg ID program bus others)\<^sup>*\<^sup>* c c' \<and> issued c' = None \<and> support c' = s' \<and> bus_mem c' = m' \<and>
            answers c' = answers c @ [access_result a p])))"
proof -
  note r = core_reach [OF assms]
  have "issued c = None \<Longrightarrow> core_abs c = (support c, bus_mem c, answers c)" by (simp add: core_abs_def)
  then show ?thesis using r core_access_done [where c = c and ID = ID and program = program] by blast
qed

text \<open>A core that stores a word and loads its low half, on a bus whose slave is a map of words.\<close>

definition demo_program :: "u32 option list \<Rightarrow> access option" where
  "demo_program h = (if length h = 0 then Some (Write_word 0x08000000 0x12345678)
     else if length h = 1 then Some (Read_half 0x08000000) else None)"

definition demo_bus :: "(addr \<Rightarrow> u32) bus" where
  "demo_bus p m = Inr (if p_rw p then (p, m(p_address p := p_data p)) else (p\<lparr>p_data := m (p_address p)\<rparr>, m))"

lemma demo_serve:
  "serve demo_cfg 0 1 demo_bus (access_pinout 1 (Write_word 0x08000000 0x12345678)) (s, m) =
     Inr (access_pinout 1 (Write_word 0x08000000 0x12345678), s, m(0x08000000 := 0x12345678))"
  "serve demo_cfg 0 1 demo_bus (access_pinout 1 (Read_half 0x08000000)) (s, m) =
     Inr ((access_pinout 1 (Read_half 0x08000000))\<lparr>p_data := m 0x08000000\<rparr>, s, m)"
  by (simp_all add: serve_def demo_bus_def mmu_pinout_def in_sim_space_def InDmaSleepSpace_def
      DMA_WAIT_EVENT_ADDR_def DMA_EVENT_OFF_def Logical2Physical_def PhysicalInSimSupportSpace_def address_simps)

theorem core_accesses_atomic_witness:
  "\<forall>s. \<exists>c :: (addr \<Rightarrow> u32) core_sys. (core_step demo_cfg 1 demo_program demo_bus (=))\<^sup>*\<^sup>* (new_core s (\<lambda>_. 0)) c \<and>
     issued c = None \<and> answers c = [None, Some 0x5678] \<and> bus_mem c 0x08000000 = 0x12345678"
proof
  fix s
  let ?st = "core_step demo_cfg 1 demo_program demo_bus (=)" and ?c = "new_core s (\<lambda>_. 0)"
  have next_access: "\<exists>c'. ?st\<^sup>*\<^sup>* ?c c' \<and> issued c' = None \<and> support c' = s' \<and> bus_mem c' = m' \<and>
      answers c' = answers c @ [access_result a p]"
    if "?st\<^sup>*\<^sup>* ?c c" "issued c = None" "demo_program (answers c) = Some a"
      "serve demo_cfg 0 1 demo_bus (access_pinout 1 a) (support c, bus_mem c) = Inr (p, s', m')" for c a p s' m'
    using core_accesses_atomic [OF that(1)] that by (meson rtranclp_trans)
  let ?w = "Write_word 0x08000000 0x12345678" and ?r = "Read_half 0x08000000"
  obtain c1 where c1: "?st\<^sup>*\<^sup>* ?c c1" "issued c1 = None" "support c1 = s"
      "bus_mem c1 = (\<lambda>_. 0)(0x08000000 := 0x12345678)" "answers c1 = [None]"
    using next_access [of ?c ?w, OF _ _ _ demo_serve(1)] by (auto simp: demo_program_def new_core_def)
  obtain c2 where c2: "?st\<^sup>*\<^sup>* ?c c2" "issued c2 = None" "bus_mem c2 = bus_mem c1"
      "answers c2 = answers c1 @ [access_result ?r ((access_pinout 1 ?r)\<lparr>p_data := bus_mem c1 0x08000000\<rparr>)]"
    using next_access [of c1 ?r, OF c1(1,2) _ demo_serve(2)] c1(5) by (auto simp: demo_program_def)
  have "answers c2 = [None, Some 0x5678]" using c2(4) c1 by simp
  then show "\<exists>c :: (addr \<Rightarrow> u32) core_sys. ?st\<^sup>*\<^sup>* ?c c \<and> issued c = None \<and> answers c = [None, Some 0x5678] \<and>
      bus_mem c 0x08000000 = 0x12345678"
    using c1(4) c2 by auto
qed

end
