(* ===== verification/Dma.thy ===== *)
theory Dma
  imports Pinout Core_Wrapper
begin

text \<open>
  The DMA engine \<open>cl_dma\<close> (\<open>virtualsoc/src/cluster/cl_dma.cpp\<close>, \<open>cl_dma.h\<close>) and its driver
  \<open>virtualsoc-apps/support/simulator/dmasupport.c\<close>. The thread \<open>control\<close> schedules a job every
  cycle and serves the requests of the processors (\<open>set_next_job\<close>, \<open>process_request\<close>), the thread
  \<open>transfer\<close> moves the words of the selected job: one function each. The memory behind the master
  port is a parameter: a read and a write of one word; a burst is a list of consecutive words.
\<close>

section \<open>State\<close>

definition JT_SIZE :: nat where "JT_SIZE = 16"
definition MAX_TRANSFER_SIZE :: u32 where "MAX_TRANSFER_SIZE = 0x100000"
definition MAX_BURST_SIZE :: nat where "MAX_BURST_SIZE = 12"

definition TRIG_MASK :: u32 where "TRIG_MASK = 0x1"
definition DIR_MASK :: u32 where "DIR_MASK = 0x2"
definition ASYNC_MASK :: u32 where "ASYNC_MASK = 0x1C"
definition SLEEP_MASK :: u32 where "SLEEP_MASK = 0x20"
definition SIZE_MASK :: u32 where "SIZE_MASK = 0xFFFFC0"
definition DONE_JOB_MASK :: u32 where "DONE_JOB_MASK = 0xF0"

definition DMA_FREE_SLOT_REG :: u32 where "DMA_FREE_SLOT_REG = 0"
definition DMA_ADDR1_REG :: u32 where "DMA_ADDR1_REG = 1"
definition DMA_ADDR2_REG :: u32 where "DMA_ADDR2_REG = 2"
definition DMA_SIZE_REG :: u32 where "DMA_SIZE_REG = 3"
definition DMA_DIR_REG :: u32 where "DMA_DIR_REG = 4"
definition DMA_TRIGGER_REG :: u32 where "DMA_TRIGGER_REG = 5"
definition DMA_SLEEP_REG :: u32 where "DMA_SLEEP_REG = 6"
definition DMA_ASYNC_REG :: u32 where "DMA_ASYNC_REG = 7"
definition DMA_MODE_REG :: u32 where "DMA_MODE_REG = 8"
definition DMA_DONE_REG :: u32 where "DMA_DONE_REG = 9"
definition DMA_DUMP_REG :: u32 where "DMA_DUMP_REG = 10"
definition DMA_EVENT_JOB_ID :: u32 where "DMA_EVENT_JOB_ID = 11"

lemmas dma_masks = TRIG_MASK_def DIR_MASK_def ASYNC_MASK_def SLEEP_MASK_def SIZE_MASK_def
  DONE_JOB_MASK_def
lemmas dma_registers = DMA_FREE_SLOT_REG_def DMA_ADDR1_REG_def DMA_ADDR2_REG_def DMA_SIZE_REG_def
  DMA_DIR_REG_def DMA_TRIGGER_REG_def DMA_SLEEP_REG_def DMA_ASYNC_REG_def DMA_MODE_REG_def
  DMA_DONE_REG_def DMA_DUMP_REG_def DMA_EVENT_JOB_ID_def

record dma_job =
  j_id :: nat
  j_core_id :: int
  j_addr1 :: u32
  j_addr2 :: u32
  j_size :: u32
  j_dir :: bool
  j_pri :: u8
  j_sleep :: bool
  j_trigger :: bool
  j_done :: bool

text \<open>\<open>working\<close> is the value of \<open>working_sig\<close> that the next activation reads.\<close>

record cl_dma =
  DMA_CHANNELS :: nat
  jt :: "nat \<Rightarrow> nat \<Rightarrow> dma_job"
  jobFIFO :: "dma_job list"
  curr_core :: nat
  curr_job :: "nat \<Rightarrow> nat"
  job_curr_prog :: "nat \<Rightarrow> int"
  job_gen_ev :: "nat \<Rightarrow> int"
  working :: bool
  IO_data :: "nat \<Rightarrow> u32"
  dma_event :: "nat \<Rightarrow> bool"

definition upd_job :: "nat \<Rightarrow> nat \<Rightarrow> (dma_job \<Rightarrow> dma_job) \<Rightarrow> cl_dma \<Rightarrow> cl_dma" where
  "upd_job c j f d = d\<lparr>jt := (jt d)(c := (jt d c)(j := f (jt d c j)))\<rparr>"

section \<open>The job table\<close>

definition dma_IsInTcdmSpace :: "addr \<Rightarrow> bool" where
  "dma_IsInTcdmSpace address \<longleftrightarrow>
     CL_TCDM_BASE \<le> address AND 0x0FFFFFFF \<and> address AND 0x0FFFFFFF < CL_TCDM_BASE + CL_TCDM_SIZE"

text \<open>\<open>look_4_free_slot\<close>: the first free slot of a core, or -1.\<close>

definition look_4_free_slot :: "cl_dma \<Rightarrow> nat \<Rightarrow> int" where
  "look_4_free_slot d core =
     (case List.find (\<lambda>j. j_core_id (jt d core j) = -1) [0..<JT_SIZE] of
        Some j \<Rightarrow> int j | None \<Rightarrow> -1)"

definition clear_job :: "dma_job \<Rightarrow> dma_job" where
  "clear_job e = e\<lparr>j_core_id := -1, j_addr1 := 0xFFFFFFFF, j_addr2 := 0xFFFFFFFF, j_dir := False,
     j_trigger := False, j_done := False, j_size := 0, j_pri := 0, j_sleep := False\<rparr>"

definition reset_jt :: "cl_dma \<Rightarrow> cl_dma" where
  "reset_jt d = d\<lparr>curr_core := 0,
     curr_job := (\<lambda>i. if i < DMA_CHANNELS d then 0 else curr_job d i),
     job_curr_prog := (\<lambda>i. if i < DMA_CHANNELS d then -1 else job_curr_prog d i),
     job_gen_ev := (\<lambda>i. if i < DMA_CHANNELS d then -1 else job_gen_ev d i),
     jt := (\<lambda>i j. if i < DMA_CHANNELS d \<and> j < JT_SIZE then (clear_job (jt d i j))\<lparr>j_id := j\<rparr>
       else jt d i j)\<rparr>"

definition clear_entry :: "nat \<Rightarrow> nat \<Rightarrow> cl_dma \<Rightarrow> cl_dma" where
  "clear_entry core job d = upd_job core job clear_job d"

definition pending :: "cl_dma \<Rightarrow> nat \<Rightarrow> nat \<Rightarrow> bool" where
  "pending d c j \<longleftrightarrow> j_trigger (jt d c j) \<and> \<not> j_done (jt d c j)"

text \<open>
  \<open>set_next_job\<close>: the inner loop stops at the first job of a channel that is triggered and not
  done, the outer one goes on with the channels counted from the core just selected:
  \<open>working_sig\<close> keeps its old value \<open>w\<close> until the activation ends. The number of the job is
  computed from the current job of the core selected, that of the one tested from the current job
  of the core before.
\<close>

definition next_of_channel :: "bool \<Rightarrow> nat \<Rightarrow> cl_dma \<Rightarrow> cl_dma" where
  "next_of_channel w i d =
     (let ch = (curr_core d + 1 + i) mod DMA_CHANNELS d;
          cur = curr_job d (curr_core d)
      in case List.find (\<lambda>j. pending d ch ((cur + 1 + j) mod JT_SIZE) \<and> \<not> w) [0..<JT_SIZE] of
           None \<Rightarrow> d
         | Some j \<Rightarrow> d\<lparr>curr_core := ch,
             curr_job := (curr_job d)(ch := (curr_job d ch + 1 + j) mod JT_SIZE), working := True\<rparr>)"

definition set_next_job :: "cl_dma \<Rightarrow> cl_dma" where
  "set_next_job d = fold (next_of_channel (working d)) [0..<DMA_CHANNELS d] d"

section \<open>Requests\<close>

text \<open>The entry a core is programming; an index that is not one of the table is undefined.\<close>

definition prog_entry :: "cl_dma \<Rightarrow> nat \<Rightarrow> nat res" where
  "prog_entry d core =
     (if core < DMA_CHANNELS d \<and> 0 \<le> job_curr_prog d core \<and> nat (job_curr_prog d core) < JT_SIZE
      then Inr (nat (job_curr_prog d core)) else Inl FUndef)"

definition program :: "cl_dma \<Rightarrow> nat \<Rightarrow> u32 \<Rightarrow> (dma_job \<Rightarrow> dma_job) \<Rightarrow> (u32 \<times> cl_dma) res" where
  "program d core data f = res_map (\<lambda>j. (data, upd_job core j f d)) (prog_entry d core)"

definition process_request :: "nat \<Rightarrow> u32 \<Rightarrow> u32 \<Rightarrow> cl_dma \<Rightarrow> (u32 \<times> cl_dma) res" where
  "process_request core address data d =
     (let reg = address AND 0xF in
      if reg = DMA_FREE_SLOT_REG then
        (if core < DMA_CHANNELS d
         then let k = look_4_free_slot d core
              in Inr (word_of_int k, d\<lparr>job_curr_prog := (job_curr_prog d)(core := k)\<rparr>)
         else Inl FUndef)
      else if reg = DMA_ADDR1_REG then
        program d core data (\<lambda>e. e\<lparr>j_core_id := int core, j_addr1 := data\<rparr>)
      else if reg = DMA_ADDR2_REG then program d core data (\<lambda>e. e\<lparr>j_addr2 := data\<rparr>)
      else if reg = DMA_SIZE_REG then
        res_bind (program d core data (\<lambda>e. e\<lparr>j_size := data\<rparr>)) (\<lambda>r.
        res_bind (require (data \<le> MAX_TRANSFER_SIZE) FAbort) (\<lambda>_. Inr r))
      else if reg = DMA_DIR_REG then program d core data (\<lambda>e. e\<lparr>j_dir := (data \<noteq> 0)\<rparr>)
      else if reg = DMA_TRIGGER_REG then
        (if core < DMA_CHANNELS d \<and> unat data < JT_SIZE
         then let d' = upd_job core (unat data) (\<lambda>e. e\<lparr>j_trigger := True\<rparr>) d
              in Inr (data, d'\<lparr>jobFIFO := jobFIFO d' @ [jt d' core (unat data)]\<rparr>)
         else Inl FUndef)
      else if reg = DMA_SLEEP_REG then program d core data (\<lambda>e. e\<lparr>j_sleep := (data \<noteq> 0)\<rparr>)
      else if reg = DMA_ASYNC_REG then program d core data (\<lambda>e. e\<lparr>j_pri := ucast data\<rparr>)
      else if reg = DMA_DONE_REG then
        (if core < DMA_CHANNELS d
         then let j = unat (drop_bit 4 (address AND DONE_JOB_MASK)) in
              if j_done (jt d core j) then Inr (1, clear_entry core j d) else Inr (0, d)
         else Inl FUndef)
      else if reg = DMA_EVENT_JOB_ID then
        res_map (\<lambda>j. (word_of_int (job_gen_ev d core),
            (clear_entry core j d)\<lparr>job_gen_ev := (job_gen_ev d)(core := -1)\<rparr>))
          (prog_entry d core)
      else if reg = DMA_MODE_REG then
        res_bind (prog_entry d core) (\<lambda>j.
        let sz = drop_bit 6 (data AND SIZE_MASK);
            d' = upd_job core j (\<lambda>e. e\<lparr>j_pri := ucast (drop_bit 2 (data AND ASYNC_MASK)),
                   j_dir := (drop_bit 1 (data AND DIR_MASK) \<noteq> 0),
                   j_sleep := (drop_bit 5 (data AND SLEEP_MASK) \<noteq> 0), j_size := sz,
                   j_trigger := (data AND TRIG_MASK \<noteq> 0)\<rparr>) d
        in res_bind (require (sz \<le> MAX_TRANSFER_SIZE) FAbort) (\<lambda>_.
             Inr (data, d'\<lparr>jobFIFO := jobFIFO d' @ [jt d' core j]\<rparr>)))
      else if reg = DMA_DUMP_REG then Inr (data, d)
      else Inl (FExit 1))"

section \<open>The transfer\<close>

text \<open>The words of a burst, put in the buffer from index \<open>k\<close> on.\<close>

definition put_words :: "nat \<Rightarrow> u32 list \<Rightarrow> (nat \<Rightarrow> u32) \<Rightarrow> nat \<Rightarrow> u32" where
  "put_words k ds io = (\<lambda>i. if k \<le> i \<and> i < k + length ds then ds ! (i - k) else io i)"

definition num_transfers :: "nat \<Rightarrow> nat" where
  "num_transfers size_w = (if size_w mod MAX_BURST_SIZE = 0 then size_w div MAX_BURST_SIZE
     else size_w div MAX_BURST_SIZE + 1)"

definition burst_size :: "nat \<Rightarrow> nat \<Rightarrow> nat" where
  "burst_size size_w j =
     (if j \<noteq> num_transfers size_w - 1 then MAX_BURST_SIZE
      else if size_w mod MAX_BURST_SIZE = 0 then MAX_BURST_SIZE else size_w mod MAX_BURST_SIZE)"

text \<open>The source phase, word by word from the TCDM and in bursts from elsewhere.\<close>

fun read_words :: "('m \<Rightarrow> addr \<Rightarrow> u32 res) \<Rightarrow> 'm \<Rightarrow> addr \<Rightarrow> nat list \<Rightarrow> (nat \<Rightarrow> u32) \<Rightarrow> (nat \<Rightarrow> u32) res" where
  "read_words rd m a [] io = Inr io"
| "read_words rd m a (i # is) io =
     res_bind (rd m (a + of_nat i * CL_WORD)) (\<lambda>v. read_words rd m a is (io(i := v)))"

fun read_bursts :: "('m \<Rightarrow> addr \<Rightarrow> u32 res) \<Rightarrow> 'm \<Rightarrow> nat \<Rightarrow> nat list \<Rightarrow> addr \<Rightarrow> nat \<Rightarrow> (nat \<Rightarrow> u32) \<Rightarrow>
    (nat \<Rightarrow> u32) res" where
  "read_bursts rd m size_w [] address prev io = Inr io"
| "read_bursts rd m size_w (j # js) address prev io =
     (let burst = burst_size size_w j; address = address + of_nat prev * CL_WORD in
      res_bind (read_block rd m (beats address CL_WORD burst)) (\<lambda>ds.
      read_bursts rd m size_w js address burst (put_words (j * prev) ds io)))"

text \<open>The target phase.\<close>

fun write_words :: "('m \<Rightarrow> addr \<Rightarrow> u32 \<Rightarrow> 'm res) \<Rightarrow> (nat \<Rightarrow> u32) \<Rightarrow> addr \<Rightarrow> nat list \<Rightarrow> 'm \<Rightarrow> 'm res" where
  "write_words wr io a [] m = Inr m"
| "write_words wr io a (i # is) m =
     res_bind (wr m (a + of_nat i * CL_WORD) (io i)) (write_words wr io a is)"

fun write_bursts :: "('m \<Rightarrow> addr \<Rightarrow> u32 \<Rightarrow> 'm res) \<Rightarrow> (nat \<Rightarrow> u32) \<Rightarrow> nat \<Rightarrow> nat list \<Rightarrow> addr \<Rightarrow> nat \<Rightarrow> 'm \<Rightarrow>
    'm res" where
  "write_bursts wr io size_w [] address prev m = Inr m"
| "write_bursts wr io size_w (j # js) address prev m =
     (let burst = burst_size size_w j in
      res_bind (write_block wr m (zip (beats address CL_WORD burst)
          (map (\<lambda>i. io (j * prev + i)) [0..<burst]))) (\<lambda>m.
      write_bursts wr io size_w js (address + of_nat burst * CL_WORD) burst m))"

definition source_phase :: "('m \<Rightarrow> addr \<Rightarrow> u32 res) \<Rightarrow> 'm \<Rightarrow> dma_job \<Rightarrow> (nat \<Rightarrow> u32) \<Rightarrow> (nat \<Rightarrow> u32) res" where
  "source_phase rd m e io =
     (let address = (if j_dir e then j_addr1 e else j_addr2 e); size_w = unat (j_size e) div 4 in
      if dma_IsInTcdmSpace address then read_words rd m address [0..<size_w] io
      else read_bursts rd m size_w [0..<num_transfers size_w] address 0 io)"

definition target_phase :: "('m \<Rightarrow> addr \<Rightarrow> u32 \<Rightarrow> 'm res) \<Rightarrow> dma_job \<Rightarrow> (nat \<Rightarrow> u32) \<Rightarrow> 'm \<Rightarrow> 'm res" where
  "target_phase wr e io m =
     (let address = (if \<not> j_dir e then j_addr1 e else j_addr2 e); size_w = unat (j_size e) div 4 in
      if dma_IsInTcdmSpace address then write_words wr io address [0..<size_w] m
      else write_bursts wr io size_w [0..<num_transfers size_w] address 0 m)"

text \<open>The end of a job: its flag, the event of a job with sleep, the entry of an asynchronous one.\<close>

definition finish_job :: "cl_dma \<Rightarrow> cl_dma" where
  "finish_job d =
     (let c = curr_core d; j = curr_job d c;
          d = upd_job c j (\<lambda>e. e\<lparr>j_done := True\<rparr>) d;
          d = (if j_sleep (jt d c j)
               then d\<lparr>job_gen_ev := (job_gen_ev d)(c := int j), dma_event := (dma_event d)(c := True)\<rparr>
               else d);
          d = (if j_pri (jt d c j) \<noteq> 0 then clear_entry c j d else d)
      in d\<lparr>working := False\<rparr>)"

text \<open>One turn of \<open>transfer\<close>, when there is a job.\<close>

definition transfer ::
  "('m \<Rightarrow> addr \<Rightarrow> u32 res) \<Rightarrow> ('m \<Rightarrow> addr \<Rightarrow> u32 \<Rightarrow> 'm res) \<Rightarrow> 'm \<times> cl_dma \<Rightarrow> ('m \<times> cl_dma) res" where
  "transfer rd wr md = (case md of (m, d) \<Rightarrow>
     if \<not> working d then Inr (m, d)
     else let e = jt d (curr_core d) (curr_job d (curr_core d)) in
       res_bind (source_phase rd m e (IO_data d)) (\<lambda>io.
       res_map (\<lambda>m'. (m', finish_job (d\<lparr>IO_data := io\<rparr>))) (target_phase wr e io m)))"

section \<open>The driver\<close>

definition DMA_ERROR :: u8 where "DMA_ERROR = 0xFF"
definition SLEEP_ID_OFF :: nat where "SLEEP_ID_OFF = 16"

definition DMA_REGS_ADDRESS :: "u32 \<Rightarrow> addr" where "DMA_REGS_ADDRESS a = CL_DMA_BASE + a"

definition DMA_SET_MODE :: "u32 \<Rightarrow> u8 \<Rightarrow> u8 \<Rightarrow> u8 \<Rightarrow> u8 \<Rightarrow> u32" where
  "DMA_SET_MODE sz direction async sleep trig =
     ucast trig OR push_bit 1 (ucast direction) OR push_bit 2 (ucast async) OR
     push_bit 5 (ucast sleep) OR push_bit 6 sz"

text \<open>\<open>dma_prog\<close>: one load and three stores; the accesses of another core may come between them,
  but touch its own entries only.\<close>

definition dma_prog :: "nat \<Rightarrow> u32 \<Rightarrow> u32 \<Rightarrow> u32 \<Rightarrow> u8 \<Rightarrow> u8 \<Rightarrow> u8 \<Rightarrow> u8 \<Rightarrow> cl_dma \<Rightarrow> (u8 \<times> cl_dma) res" where
  "dma_prog core addr1 addr2 sz direction async sleep trig d =
     res_bind (process_request core (DMA_REGS_ADDRESS DMA_FREE_SLOT_REG) 0 d) (\<lambda>(slot, d).
     let job_id = ucast slot :: u8 in
     if job_id = DMA_ERROR then Inr (-1, d)
     else
       res_bind (process_request core (DMA_REGS_ADDRESS DMA_ADDR1_REG) addr1 d) (\<lambda>(_, d).
       res_bind (process_request core (DMA_REGS_ADDRESS DMA_ADDR2_REG) addr2 d) (\<lambda>(_, d).
       res_bind (process_request core (DMA_REGS_ADDRESS DMA_MODE_REG)
         (DMA_SET_MODE sz direction async sleep trig) d) (\<lambda>(_, d).
       Inr (if sleep = 1 then job_id + of_nat SLEEP_ID_OFF else job_id, d)))))"

definition dma_start :: "nat \<Rightarrow> nat \<Rightarrow> cl_dma \<Rightarrow> cl_dma res" where
  "dma_start core job_id d =
     (let k = if SLEEP_ID_OFF \<le> job_id then job_id - SLEEP_ID_OFF else job_id
      in res_map snd (process_request core (DMA_REGS_ADDRESS DMA_TRIGGER_REG) (of_nat k) d))"

text \<open>
  \<open>dma_wait\<close>: polls the done register, or suspends the processor: the store to
  \<open>DMA_WAIT_EVENT_ADDR\<close> stays in its bus wrapper, and the sleep ends when the handler of the event,
  if it is one of the wrapper's processes \<open>ps\<close>, sees the event and lowers it.
\<close>

definition dma_wait :: "process list \<Rightarrow> nat \<Rightarrow> nat \<Rightarrow> cl_dma \<Rightarrow> (u8 \<times> cl_dma) res" where
  "dma_wait ps core job_id d =
     (if job_id < SLEEP_ID_OFF then
        res_bind (process_request core
          (DMA_REGS_ADDRESS DMA_DONE_REG + push_bit 4 (of_nat job_id)) 0 d) (\<lambda>(v, d').
        if v = 0 then Inl FSpin else Inr (of_nat job_id, d'))
      else if Dma_event_handler \<notin> set ps \<or> \<not> dma_event d core then Inl FSpin
      else res_map (map_prod ucast (\<lambda>d. d))
        (process_request core (DMA_REGS_ADDRESS DMA_EVENT_JOB_ID) 0
           (d\<lparr>dma_event := (dma_event d)(core := False)\<rparr>)))"

section \<open>Scheduling\<close>

lemma rotate_hits:
  assumes "(j :: nat) < n"
  shows "\<exists>k<n. (c + 1 + k) mod n = j"
proof -
  have n: "0 < n" using assms by simp
  have "(c + 1 + ((n - (c + 1) mod n + j) mod n)) mod n = ((c + 1) mod n + (n - (c + 1) mod n + j)) mod n"
    by (metis mod_add_left_eq mod_add_right_eq)
  also have "(c + 1) mod n + (n - (c + 1) mod n + j) = n + j"
    using mod_less_divisor [OF n, of "c + 1"] by linarith
  finally have "(c + 1 + ((n - (c + 1) mod n + j) mod n)) mod n = j" using assms by simp
  then show ?thesis using mod_less_divisor [OF n] by blast
qed

text \<open>One channel of the scan: it is skipped when it has no job pending.\<close>

lemma next_of_channel_cases:
  fixes d i
  defines "ch \<equiv> (curr_core d + 1 + i) mod DMA_CHANNELS d"
  shows "(\<forall>j<JT_SIZE. \<not> pending d ch j) \<Longrightarrow> next_of_channel w i d = d"
    and "\<not> w \<Longrightarrow> pending d ch j \<Longrightarrow> j < JT_SIZE \<Longrightarrow>
      \<exists>k<JT_SIZE. next_of_channel w i d = d\<lparr>curr_core := ch,
         curr_job := (curr_job d)(ch := (curr_job d ch + 1 + k) mod JT_SIZE), working := True\<rparr> \<and>
       pending d ch ((curr_job d (curr_core d) + 1 + k) mod JT_SIZE)"
proof -
  let ?P = "\<lambda>j. pending d ch ((curr_job d (curr_core d) + 1 + j) mod JT_SIZE) \<and> \<not> w"
  have d: "next_of_channel w i d = (case List.find ?P [0..<JT_SIZE] of None \<Rightarrow> d
     | Some j \<Rightarrow> d\<lparr>curr_core := ch,
             curr_job := (curr_job d)(ch := (curr_job d ch + 1 + j) mod JT_SIZE), working := True\<rparr>)"
    by (simp only: next_of_channel_def Let_def ch_def)
  have lt: "x mod JT_SIZE < JT_SIZE" for x by (simp add: JT_SIZE_def)
  show "next_of_channel w i d = d" if "\<forall>j<JT_SIZE. \<not> pending d ch j"
    using that lt find_upt_None [of ?P JT_SIZE] unfolding d by simp
  show "\<exists>k<JT_SIZE. next_of_channel w i d = d\<lparr>curr_core := ch,
         curr_job := (curr_job d)(ch := (curr_job d ch + 1 + k) mod JT_SIZE), working := True\<rparr> \<and>
       pending d ch ((curr_job d (curr_core d) + 1 + k) mod JT_SIZE)"
    if a: "\<not> w" "pending d ch j" and j: "j < JT_SIZE"
  proof (cases "List.find ?P [0..<JT_SIZE]")
    case None
    obtain k where "k < JT_SIZE" "(curr_job d (curr_core d) + 1 + k) mod JT_SIZE = j"
      using rotate_hits [OF j] by blast
    then show ?thesis using None a by (auto simp: find_upt_None)
  next
    case (Some k)
    then show ?thesis unfolding d using find_upt_Some [OF Some] by auto
  qed
qed

lemma next_of_channel_working: "next_of_channel True i d = d"
proof -
  have "List.find (\<lambda>j. p j \<and> \<not> True) [0..<JT_SIZE] = None" for p :: "nat \<Rightarrow> bool"
    by (simp add: find_upt_None)
  then show ?thesis by (simp only: next_of_channel_def Let_def option.case)
qed

lemma next_of_channel_frame:
  "jt (next_of_channel w i d) = jt d" "DMA_CHANNELS (next_of_channel w i d) = DMA_CHANNELS d"
  "pending (next_of_channel w i d) = pending d"
  by (auto simp: next_of_channel_def Let_def pending_def fun_eq_iff split: option.split)

lemma scan_frame:
  "jt (fold (next_of_channel w) is d) = jt d"
  "DMA_CHANNELS (fold (next_of_channel w) is d) = DMA_CHANNELS d"
  "pending (fold (next_of_channel w) is d) = pending d"
  by (induction "is" arbitrary: d) (simp_all add: next_of_channel_frame)

text \<open>As long as the scan has found nothing it has changed nothing, and the channels it has tested
  have no job; when it has found one, the core selected has one.\<close>

lemma scan_state:
  assumes "curr_core d < DMA_CHANNELS d" "\<not> working d" "n \<le> DMA_CHANNELS d"
  defines "s \<equiv> fold (next_of_channel False) [0..<n] d"
  shows "(s = d \<and> (\<forall>i<n. \<forall>j<JT_SIZE. \<not> pending d ((curr_core d + 1 + i) mod DMA_CHANNELS d) j)) \<or>
    (working s \<and> curr_core s < DMA_CHANNELS d \<and> (\<exists>j<JT_SIZE. pending d (curr_core s) j))"
  using assms(3) unfolding s_def
proof (induction n)
  case (Suc n)
  let ?s = "fold (next_of_channel False) [0..<n] d"
  let ?ch = "(curr_core ?s + 1 + n) mod DMA_CHANNELS d"
  have lt: "x mod DMA_CHANNELS d < DMA_CHANNELS d" for x using assms(1) by simp
  have step: "fold (next_of_channel False) [0..<Suc n] d = next_of_channel False n ?s" by simp
  show ?case
  proof (cases "\<exists>j<JT_SIZE. pending d ?ch j")
    case True
    then obtain j where "j < JT_SIZE" "pending d ?ch j" by blast
    then obtain k where k: "next_of_channel False n ?s = ?s\<lparr>curr_core := ?ch,
         curr_job := (curr_job ?s)(?ch := (curr_job ?s ?ch + 1 + k) mod JT_SIZE), working := True\<rparr>"
      using next_of_channel_cases(2) [of False ?s n j] by (auto simp: scan_frame)
    then show ?thesis using True lt unfolding step k by auto
  next
    case False
    then have "next_of_channel False n ?s = ?s"
      using next_of_channel_cases(1) [of ?s n False] by (auto simp: scan_frame)
    then have eq: "fold (next_of_channel False) [0..<Suc n] d = ?s" by (simp only: step)
    show ?thesis unfolding eq using Suc False by (auto simp: less_Suc_eq)
  qed
qed simp

lemma set_next_job_eq:
  assumes "curr_core d < DMA_CHANNELS d" "\<not> working d"
  defines "s \<equiv> set_next_job d"
  shows "if \<exists>c<DMA_CHANNELS d. \<exists>j<JT_SIZE. pending d c j
    then working s \<and> curr_core s < DMA_CHANNELS d \<and> curr_job s (curr_core s) < JT_SIZE \<and>
      pending d (curr_core s) (curr_job s (curr_core s))
    else s = d"
proof -
  obtain n where n: "DMA_CHANNELS d = Suc n" using assms(1) by (cases "DMA_CHANNELS d") auto
  let ?p = "fold (next_of_channel False) [0..<n] d"
  have s: "s = next_of_channel False n ?p"
    using assms(2) by (simp add: s_def set_next_job_def n)
  note inv = scan_state [OF assms(1,2), of n]
  have p_lt: "curr_core ?p < DMA_CHANNELS d" using inv assms(1) n by auto
  have ch: "(curr_core ?p + 1 + n) mod DMA_CHANNELS ?p = curr_core ?p"
  proof -
    have "curr_core ?p + 1 + n = curr_core ?p + Suc n" by simp
    then show ?thesis using p_lt by (simp only: scan_frame n mod_add_self2 mod_less)
  qed
  show ?thesis
  proof (cases "\<exists>j<JT_SIZE. pending d (curr_core ?p) j")
    case True
    then obtain j where "j < JT_SIZE" "pending ?p (curr_core ?p) j" by (auto simp: scan_frame)
    then obtain k where "s = ?p\<lparr>curr_core := curr_core ?p,
         curr_job := (curr_job ?p)(curr_core ?p := (curr_job ?p (curr_core ?p) + 1 + k) mod JT_SIZE),
         working := True\<rparr>" "pending d (curr_core ?p) ((curr_job ?p (curr_core ?p) + 1 + k) mod JT_SIZE)"
      using next_of_channel_cases(2) [of False ?p n j] unfolding s ch by (auto simp: scan_frame)
    then show ?thesis using True p_lt by (auto simp: JT_SIZE_def)
  next
    case False
    then have "\<forall>j<JT_SIZE. \<not> pending ?p (curr_core ?p) j" by (simp only: scan_frame) blast
    then have sp: "s = ?p" unfolding s by (rule next_of_channel_cases(1) [of ?p n False, unfolded ch])
    have pd: "?p = d" and none: "\<forall>i<n. \<forall>j<JT_SIZE. \<not> pending d ((curr_core d + 1 + i) mod DMA_CHANNELS d) j"
      using inv False n by auto
    have "\<not> pending d c j" if c: "c < DMA_CHANNELS d" and j: "j < JT_SIZE" for c j
    proof -
      obtain i where i: "i < DMA_CHANNELS d" "(curr_core d + 1 + i) mod DMA_CHANNELS d = c"
        using rotate_hits [OF c] by blast
      show ?thesis
      proof (cases "i < n")
        case True then show ?thesis using none i j by auto
      next
        case False
        then have "i = n" using i n by simp
        then have "c = curr_core d" using i ch pd by simp
        then show ?thesis using \<open>\<not> (\<exists>j<JT_SIZE. pending d (curr_core ?p) j)\<close> pd j by auto
      qed
    qed
    then show ?thesis using sp pd by auto
  qed
qed

text \<open>C33: whatever jobs of whatever cores are pending, one activation of the scheduler selects a
  pending job of a core and starts it, and it changes nothing when there is none.\<close>

theorem scheduler_selects_pending:
  assumes "curr_core d < DMA_CHANNELS d" "\<not> working d"
  shows "if \<exists>c<DMA_CHANNELS d. \<exists>j<JT_SIZE. pending d c j
    then working (set_next_job d) \<and> curr_core (set_next_job d) < DMA_CHANNELS d \<and>
      curr_job (set_next_job d) (curr_core (set_next_job d)) < JT_SIZE \<and>
      pending d (curr_core (set_next_job d)) (curr_job (set_next_job d) (curr_core (set_next_job d)))
    else set_next_job d = d"
  using set_next_job_eq [OF assms] .

definition demo_dma :: cl_dma where
  "demo_dma = reset_jt \<lparr>DMA_CHANNELS = 16, jt = (\<lambda>_ j. \<lparr>j_id = 0, j_core_id = 0, j_addr1 = 0,
       j_addr2 = 0, j_size = 0, j_dir = False, j_pri = 0, j_sleep = False, j_trigger = False,
       j_done = False\<rparr>), jobFIFO = [], curr_core = 5, curr_job = (\<lambda>_. 3), job_curr_prog = (\<lambda>_. 0),
     job_gen_ev = (\<lambda>_. 0), working = False, IO_data = (\<lambda>_. 0), dma_event = (\<lambda>_. False)\<rparr>"

lemma demo_dma_sel [simp]:
  "DMA_CHANNELS demo_dma = 16" "curr_core demo_dma = 0" "\<not> working demo_dma"
  "c < 16 \<Longrightarrow> j < 16 \<Longrightarrow> jt demo_dma c j = \<lparr>j_id = j, j_core_id = -1, j_addr1 = 0xFFFFFFFF,
       j_addr2 = 0xFFFFFFFF, j_size = 0, j_dir = False, j_pri = 0, j_sleep = False, j_trigger = False,
       j_done = False\<rparr>"
  "c < 16 \<Longrightarrow> job_curr_prog demo_dma c = -1"
  by (simp_all add: demo_dma_def reset_jt_def clear_job_def JT_SIZE_def)

definition demo_busy :: cl_dma where
  "demo_busy = upd_job 11 7 (j_trigger_update (\<lambda>_. True)) demo_dma"

lemma demo_busy_pending:
  "c < 16 \<Longrightarrow> j < JT_SIZE \<Longrightarrow> pending demo_busy c j \<longleftrightarrow> c = 11 \<and> j = 7"
  by (simp add: demo_busy_def pending_def upd_job_def JT_SIZE_def)

theorem scheduler_selects_pending_witness:
  "curr_core (set_next_job demo_busy) = 11 \<and> curr_job (set_next_job demo_busy) 11 = 7"
proof -
  have d: "DMA_CHANNELS demo_busy = 16" "curr_core demo_busy = 0" "\<not> working demo_busy"
    by (simp_all add: demo_busy_def upd_job_def)
  have "\<exists>c<16. \<exists>j<JT_SIZE. pending demo_busy c j"
    using demo_busy_pending [of 11 7] unfolding JT_SIZE_def
    by (intro exI [of _ "11 :: nat"] conjI exI [of _ "7 :: nat"]) auto
  then show ?thesis
    using scheduler_selects_pending [of demo_busy] d by (auto simp: demo_busy_pending)
qed

lemma scan_saturated:
  assumes "curr_core d < DMA_CHANNELS d" "\<forall>c<DMA_CHANNELS d. \<exists>j<JT_SIZE. pending d c j"
  shows "curr_core (fold (next_of_channel False) [0..<n] d) =
    (curr_core d + n * (n + 1) div 2) mod DMA_CHANNELS d"
proof (induction n)
  case (Suc n)
  let ?s = "fold (next_of_channel False) [0..<n] d"
  let ?ch = "(curr_core ?s + 1 + n) mod DMA_CHANNELS d"
  obtain j where "j < JT_SIZE" "pending d ?ch j"
    using assms mod_less_divisor [of "DMA_CHANNELS d" "curr_core ?s + 1 + n"]
    by (metis gr_implies_not_zero not_gr_zero)
  then have "curr_core (next_of_channel False n ?s) = ?ch"
    using next_of_channel_cases(2) [of False ?s n j] by (auto simp: scan_frame)
  moreover have "?ch = (curr_core d + n * (n + 1) div 2 + (1 + n)) mod DMA_CHANNELS d"
    unfolding Suc.IH by (metis add.assoc mod_add_left_eq)
  moreover have "n * (n + 1) div 2 + (1 + n) = Suc n * (Suc n + 1) div 2"
  proof -
    have "Suc n * (Suc n + 1) = n * (n + 1) + 2 * (n + 1)" by simp
    then show ?thesis by simp
  qed
  ultimately show ?case by (simp add: add.assoc)
qed (use assms in simp)

text \<open>The round robin over the cores is not one: when every core has a job pending, the next
  core served is the current one plus \<open>n (n + 1) / 2\<close> modulo the number \<open>n\<close> of channels, so with
  the 16 channels of the platforms only two cores take turns and the other fourteen wait as long as
  those two have jobs.\<close>

theorem scheduler_starves:
  assumes "curr_core d < DMA_CHANNELS d" "\<not> working d"
    and "\<forall>c<DMA_CHANNELS d. \<exists>j<JT_SIZE. pending d c j"
  shows "curr_core (set_next_job d) =
      (curr_core d + DMA_CHANNELS d * (DMA_CHANNELS d + 1) div 2) mod DMA_CHANNELS d \<and>
    (DMA_CHANNELS d \<noteq> 16 \<or> curr_core d \<notin> {0, 8} \<or> curr_core (set_next_job d) \<in> {0, 8})"
proof -
  have a: "curr_core (set_next_job d) =
      (curr_core d + DMA_CHANNELS d * (DMA_CHANNELS d + 1) div 2) mod DMA_CHANNELS d"
    using scan_saturated [OF assms(1,3), of "DMA_CHANNELS d"] assms(2)
    by (simp only: set_next_job_def)
  have "(c + 16 * (16 + 1) div 2) mod 16 \<in> {0, 8}" if "c \<in> {0, 8}" for c :: nat
    using that by auto
  then show ?thesis unfolding a by metis
qed

definition demo_saturated :: cl_dma where
  "demo_saturated = demo_dma\<lparr>jt := (\<lambda>c j. (jt demo_dma c j)\<lparr>j_trigger := True\<rparr>)\<rparr>"

theorem scheduler_starves_witness:
  "curr_core (set_next_job demo_saturated) = 8 \<and> curr_core demo_saturated = 0"
proof -
  have "\<forall>c<DMA_CHANNELS demo_saturated. \<exists>j<JT_SIZE. pending demo_saturated c j"
    by (auto simp: demo_saturated_def pending_def JT_SIZE_def intro: exI [of _ 0])
  then show ?thesis
    using scheduler_starves [of demo_saturated] by (simp add: demo_saturated_def)
qed


section \<open>Bursts\<close>

lemma beats_append: "beats a sz (x + y) = beats a sz x @ beats (a + of_nat x * sz) sz y"
  by (induction x arbitrary: a) (auto simp: algebra_simps)

lemma read_block_length: "read_block rd m as = Inr vs \<Longrightarrow> length vs = length as"
  by (induction as arbitrary: vs) auto

lemma put_words_append:
  "put_words (k + length us) vs (put_words k us io) = put_words k (us @ vs) io"
  by (auto simp: put_words_def fun_eq_iff nth_append)

lemma put_words_Nil [simp]: "put_words k [] io = io"
  by (auto simp: put_words_def fun_eq_iff)

lemma put_words_one: "put_words k [v] io = io(k := v)"
  by (auto simp: put_words_def fun_eq_iff)

lemma CL_WORD_4: "CL_WORD = 4" by (simp add: CL_WORD_def)

text \<open>What either path of the source phase does: the words from the address on fill the buffer.\<close>

lemma read_words_eq:
  "read_words rd m a [k..<k + n] io =
     res_map (\<lambda>ds. put_words k ds io) (read_block rd m (beats (a + of_nat k * 4) 4 n))"
proof (induction n arbitrary: k io)
  case (Suc n)
  have u: "[k..<k + Suc n] = k # [Suc k..<Suc k + n]" by (simp add: upt_rec)
  have a: "a + of_nat k * 4 + 4 = a + of_nat (Suc k) * 4" by (simp add: algebra_simps)
  show ?case
  proof (cases "rd m (a + of_nat k * 4)")
    case (Inr v)
    show ?thesis
      unfolding u read_words.simps CL_WORD_4 beats.simps read_block.simps Inr res_bind.simps Suc.IH a
      using put_words_append [of k "[v]" _ io]
      by (cases "read_block rd m (beats (a + of_nat (Suc k) * 4) 4 n)") (simp_all add: put_words_one)
  next
    case (Inl e)
    then show ?thesis unfolding u by (simp add: CL_WORD_4)
  qed
qed simp

lemma burst_sizes:
  assumes "j < num_transfers n"
  shows "12 * j + burst_size n j \<le> n"
    and "j + 1 < num_transfers n \<Longrightarrow> burst_size n j = 12"
    and "j + 1 = num_transfers n \<Longrightarrow> 12 * j + burst_size n j = n"
proof -
  have n: "12 * (n div 12) + n mod 12 = n" "n mod 12 < 12" by simp_all
  have t: "num_transfers n = (if n mod 12 = 0 then n div 12 else n div 12 + 1)"
    by (simp add: num_transfers_def MAX_BURST_SIZE_def)
  show b: "burst_size n j = 12" if "j + 1 < num_transfers n"
    using that by (simp add: burst_size_def MAX_BURST_SIZE_def)
  show e: "12 * j + burst_size n j = n" if "j + 1 = num_transfers n"
  proof -
    have "burst_size n j = (if n mod 12 = 0 then 12 else n mod 12)"
      using that by (simp add: burst_size_def MAX_BURST_SIZE_def)
    moreover have "j + 1 = (if n mod 12 = 0 then n div 12 else n div 12 + 1)" using that t by simp
    ultimately show ?thesis using n(1) by (cases "n mod 12 = 0") auto
  qed
  show "12 * j + burst_size n j \<le> n"
  proof (cases "j + 1 = num_transfers n")
    case False
    then have j: "j + 1 < num_transfers n" using assms by simp
    then have "j + 1 \<le> n div 12" using t by (simp split: if_splits)
    then show ?thesis using b [OF j] n by linarith
  qed (use e in simp)
qed

lemma num_transfers_pos: "num_transfers n = 0 \<longleftrightarrow> n = 0"
  by (auto simp: num_transfers_def MAX_BURST_SIZE_def)

text \<open>From burst \<open>j\<close> on, both paths move the words from index \<open>12 * j\<close> on.\<close>

lemma read_bursts_eq:
  assumes "j \<le> num_transfers n" "address + of_nat prev * 4 = a + of_nat (12 * j) * 4" "j * prev = 12 * j"
    "12 * j \<le> n \<or> j = num_transfers n"
  shows "read_bursts rd m n [j..<num_transfers n] address prev io =
    res_map (\<lambda>ds. put_words (12 * j) ds io) (read_block rd m (beats (a + of_nat (12 * j) * 4) 4 (n - 12 * j)))"
  using assms
proof (induction "num_transfers n - j" arbitrary: j address prev io)
  case 0
  then have j: "j = num_transfers n" by simp
  have "n \<le> 12 * j"
    using j burst_sizes(3) [of "j - 1" n] num_transfers_pos [of n]
      by (cases j) (auto simp: burst_size_def MAX_BURST_SIZE_def num_transfers_def split: if_splits)
  then show ?case using j by simp
next
  case (Suc x)
  let ?b = "burst_size n j"
  have j: "j < num_transfers n" using Suc.hyps(2) by simp
  note bs = burst_sizes [OF j]
  have u: "[j..<num_transfers n] = j # [Suc j..<num_transfers n]" using j by (simp add: upt_conv_Cons)
  have prem: "Suc j \<le> num_transfers n" using j by simp
  have len: "n - 12 * j = ?b + (n - (12 * j + ?b))" using bs(1) by simp
  have split: "beats (a + of_nat (12 * j) * 4) 4 (n - 12 * j) =
      beats (a + of_nat (12 * j) * 4) 4 ?b @ beats (a + of_nat (12 * j) * 4 + of_nat ?b * 4) 4 (n - (12 * j + ?b))"
    by (subst len) (rule beats_append)
  show ?case
  proof (cases "j + 1 = num_transfers n")
    case True
    then have e: "[Suc j..<num_transfers n] = []" "n - (12 * j + ?b) = 0" using bs(3) by simp_all
    show ?thesis
      unfolding u read_bursts.simps Let_def CL_WORD_4 Suc.prems(2,3) split e
      by (cases "read_block rd m (beats (a + of_nat (12 * j) * 4) 4 ?b)") simp_all
  next
    case False
    then have b: "?b = 12" using bs(2) j by simp
    have next_addr: "a + of_nat (12 * j) * 4 + of_nat ?b * 4 = a + of_nat (12 * Suc j) * 4"
      by (simp add: b algebra_simps)
    have ih: "read_bursts rd m n [Suc j..<num_transfers n] (a + of_nat (12 * j) * 4) ?b io' =
       res_map (\<lambda>ds. put_words (12 * Suc j) ds io')
         (read_block rd m (beats (a + of_nat (12 * Suc j) * 4) 4 (n - 12 * Suc j)))" for io'
      using Suc.hyps(2) prem next_addr bs(1) b by (intro Suc.hyps(1)) auto
    have put: "length us = 12 \<Longrightarrow> put_words (12 + 12 * j) vs (put_words (12 * j) us io') =
        put_words (12 * j) (us @ vs) io'" for us vs io'
      using put_words_append [of "12 * j" us vs io'] by (simp add: add.commute)
    have rest: "n - (12 * j + ?b) = n - 12 * Suc j" using b by simp
    show ?thesis
      unfolding u read_bursts.simps Let_def CL_WORD_4 Suc.prems(2,3) split ih rest next_addr read_block_append
      by (cases "read_block rd m (beats (a + of_nat (12 * j) * 4) 4 ?b)";
          cases "read_block rd m (beats (a + of_nat (12 * Suc j) * 4) 4 (n - 12 * Suc j))")
        (auto simp: b put dest!: read_block_length)
  qed
qed


lemma zip_drop_map:
  "zip (xs @ ys) (map f [k..<k + length xs + length ys]) =
     zip xs (map f [k..<k + length xs]) @ zip ys (map f [k + length xs..<k + length xs + length ys])"
proof -
  have "[k..<k + length xs + length ys] = [k..<k + length xs] @ [k + length xs..<k + length xs + length ys]"
    by (rule upt_add_eq_append) simp
  then have "zip (xs @ ys) (map f [k..<k + length xs + length ys]) =
      zip (xs @ ys) (map f [k..<k + length xs] @ map f [k + length xs..<k + length xs + length ys])"
    by (simp only: map_append)
  also have "\<dots> = zip xs (map f [k..<k + length xs]) @
      zip ys (map f [k + length xs..<k + length xs + length ys])"
    by (rule zip_append) simp
  finally show ?thesis .
qed

lemma map_shift_upt: "map (\<lambda>i. f (k + i)) [0..<n] = map f [k..<k + n]"
  by (rule nth_equalityI) auto

lemma write_words_eq:
  "write_words wr io a [k..<k + n] m =
     write_block wr m (zip (beats (a + of_nat k * 4) 4 n) (map io [k..<k + n]))"
proof (induction n arbitrary: k m)
  case (Suc n)
  have u: "[k..<k + Suc n] = k # [Suc k..<Suc k + n]" by (simp add: upt_rec)
  have a: "a + of_nat k * 4 + 4 = a + of_nat (Suc k) * 4" by (simp add: algebra_simps)
  show ?case
    unfolding u write_words.simps CL_WORD_4 beats.simps list.map zip_Cons_Cons write_block.simps a
      Suc.IH ..
qed simp

lemma write_bursts_eq:
  assumes "j \<le> num_transfers n" "address = a + of_nat (12 * j) * 4" "j * prev = 12 * j"
    "12 * j \<le> n \<or> j = num_transfers n"
  shows "write_bursts wr io n [j..<num_transfers n] address prev m =
    write_block wr m (zip (beats (a + of_nat (12 * j) * 4) 4 (n - 12 * j)) (map io [12 * j..<n]))"
  using assms
proof (induction "num_transfers n - j" arbitrary: j address prev m)
  case 0
  then have j: "j = num_transfers n" by simp
  have "n \<le> 12 * j"
    using j burst_sizes(3) [of "j - 1" n] num_transfers_pos [of n]
      by (cases j) (auto simp: burst_size_def MAX_BURST_SIZE_def num_transfers_def split: if_splits)
  then show ?case using j by simp
next
  case (Suc x)
  let ?b = "burst_size n j"
  have j: "j < num_transfers n" using Suc.hyps(2) by simp
  note bs = burst_sizes [OF j]
  have u: "[j..<num_transfers n] = j # [Suc j..<num_transfers n]" using j by (simp add: upt_conv_Cons)
  have len: "n - 12 * j = ?b + (n - (12 * j + ?b))" "n = 12 * j + ?b + (n - (12 * j + ?b))"
    using bs(1) by simp_all
  have split: "zip (beats (a + of_nat (12 * j) * 4) 4 (n - 12 * j)) (map io [12 * j..<n]) =
      zip (beats (a + of_nat (12 * j) * 4) 4 ?b) (map io [12 * j..<12 * j + ?b]) @
      zip (beats (a + of_nat (12 * j) * 4 + of_nat ?b * 4) 4 (n - (12 * j + ?b))) (map io [12 * j + ?b..<n])"
    using zip_drop_map [of "beats (a + of_nat (12 * j) * 4) 4 ?b"
        "beats (a + of_nat (12 * j) * 4 + of_nat ?b * 4) 4 (n - (12 * j + ?b))" io "12 * j"] len
    by (metis beats_append length_beats)
  have first: "write_bursts wr io n [j..<num_transfers n] address prev m =
      res_bind (write_block wr m (zip (beats (a + of_nat (12 * j) * 4) 4 ?b) (map io [12 * j..<12 * j + ?b])))
        (write_bursts wr io n [Suc j..<num_transfers n] (a + of_nat (12 * j) * 4 + of_nat ?b * 4) ?b)"
    unfolding u write_bursts.simps Let_def CL_WORD_4 Suc.prems(2,3) map_shift_upt ..
  show ?case
  proof (cases "j + 1 = num_transfers n")
    case True
    then have e: "[Suc j..<num_transfers n] = []" "n - (12 * j + ?b) = 0" "[12 * j + ?b..<n] = []"
      using bs(3) by simp_all
    show ?thesis unfolding first split e
      by (cases "write_block wr m (zip (beats (a + of_nat (12 * j) * 4) 4 ?b) (map io [12 * j..<12 * j + ?b]))")
        simp_all
  next
    case False
    then have b: "?b = 12" using bs(2) j by simp
    have next_addr: "a + of_nat (12 * j) * 4 + of_nat ?b * 4 = a + of_nat (12 * Suc j) * 4"
      by (simp add: b algebra_simps)
    have k: "12 * j + ?b = 12 * Suc j" using b by simp
    have ih: "write_bursts wr io n [Suc j..<num_transfers n] (a + of_nat (12 * Suc j) * 4) ?b m' =
       write_block wr m' (zip (beats (a + of_nat (12 * Suc j) * 4) 4 (n - 12 * Suc j)) (map io [12 * Suc j..<n]))" for m'
      using Suc.hyps(2) j bs(1) b by (intro Suc.hyps(1)) auto
    show ?thesis unfolding first split write_block_append next_addr ih unfolding k ..
  qed
qed

lemma bursts_eq:
  shows "source_phase rd m e io =
     res_map (\<lambda>ds. put_words 0 ds io)
       (read_block rd m (beats (if j_dir e then j_addr1 e else j_addr2 e) 4 (unat (j_size e) div 4)))"
    and "target_phase wr e io m =
     write_block wr m (zip (beats (if j_dir e then j_addr2 e else j_addr1 e) 4 (unat (j_size e) div 4))
       (map io [0..<unat (j_size e) div 4]))"
  using read_words_eq [of rd m _ 0 "unat (j_size e) div 4" io]
    read_bursts_eq [of 0 "unat (j_size e) div 4" _ 0 _ rd m io]
    write_words_eq [of wr io _ 0 "unat (j_size e) div 4" m]
    write_bursts_eq [of 0 "unat (j_size e) div 4" _ _ 0 wr io m]
  by (simp_all add: source_phase_def target_phase_def Let_def)

text \<open>Outside the TCDM the engine cuts a job into bursts of at most twelve words; what a job
  moves does not depend on it: either path of a phase is the same as reading, or writing, the words
  of the job one after the other, whatever their number, and bytes after the last word are left.\<close>

theorem bursts_move_the_words:
  "source_phase rd m e io =
     res_map (\<lambda>ds. put_words 0 ds io)
       (read_block rd m (beats (if j_dir e then j_addr1 e else j_addr2 e) 4 (unat (j_size e) div 4))) \<and>
   target_phase wr e io m =
     write_block wr m (zip (beats (if j_dir e then j_addr2 e else j_addr1 e) 4 (unat (j_size e) div 4))
       (map io [0..<unat (j_size e) div 4]))"
  by (simp add: bursts_eq)

section \<open>Programming a job\<close>

lemma size_field: "drop_bit 6 (m AND SIZE_MASK) = take_bit 18 (drop_bit 6 m)"
proof -
  have "SIZE_MASK = push_bit 6 (mask 18)" by (simp add: SIZE_MASK_def mask_eq_exp_minus_1 push_bit_eq_mult)
  moreover have "drop_bit 6 (push_bit 6 (mask 18 :: u32)) = mask 18"
    by (simp add: mask_eq_exp_minus_1 push_bit_eq_mult drop_bit_eq_div)
  ultimately show ?thesis by (simp only: drop_bit_and take_bit_eq_mask)
qed

lemma and_bit: "(m AND 2 ^ n \<noteq> 0) \<longleftrightarrow> bit (m :: u32) n"
  by (simp add: and_exp_eq_0_iff_not_bit)

lemma mode_bits:
  "m AND TRIG_MASK \<noteq> 0 \<longleftrightarrow> bit m 0"
  "drop_bit 1 (m AND DIR_MASK) \<noteq> 0 \<longleftrightarrow> bit m 1"
  "drop_bit 5 (m AND SLEEP_MASK) \<noteq> 0 \<longleftrightarrow> bit m 5"
  "drop_bit 2 (m AND ASYNC_MASK) = take_bit 3 (drop_bit 2 m)"
proof -
  show "m AND TRIG_MASK \<noteq> 0 \<longleftrightarrow> bit m 0" using and_bit [of m 0] by (simp add: TRIG_MASK_def)
  have d: "DIR_MASK = push_bit 1 1" "SLEEP_MASK = push_bit 5 1" "ASYNC_MASK = push_bit 2 (mask 3)"
    by (simp_all add: dma_masks mask_eq_exp_minus_1 push_bit_eq_mult)
  have s: "drop_bit 1 (push_bit 1 (1 :: u32)) = 1" "drop_bit 5 (push_bit 5 (1 :: u32)) = 1"
    "drop_bit 2 (push_bit 2 (mask 3 :: u32)) = mask 3"
    by (simp_all add: mask_eq_exp_minus_1 push_bit_eq_mult drop_bit_eq_div)
  show "drop_bit 1 (m AND DIR_MASK) \<noteq> 0 \<longleftrightarrow> bit m 1" "drop_bit 5 (m AND SLEEP_MASK) \<noteq> 0 \<longleftrightarrow> bit m 5"
    unfolding d drop_bit_and s using and_bit [of _ 0] by (simp_all add: bit_drop_bit_eq)
  show "drop_bit 2 (m AND ASYNC_MASK) = take_bit 3 (drop_bit 2 m)"
    unfolding d drop_bit_and s by (simp only: take_bit_eq_mask)
qed

lemma set_mode_fields:
  fixes sz :: u32
  assumes "direction \<in> {0, 1}" "unat async < 8" "sleep \<in> {0, 1}" "trig \<in> {0, 1}"
  defines "m \<equiv> DMA_SET_MODE sz direction async sleep trig"
  shows "bit m 0 \<longleftrightarrow> trig = 1" "bit m 1 \<longleftrightarrow> direction = 1" "bit m 5 \<longleftrightarrow> sleep = 1"
    "take_bit 3 (drop_bit 2 m) = ucast async" "take_bit 18 (drop_bit 6 m) = take_bit 18 sz"
proof -
  have lt: "\<not> bit async k" if "3 \<le> k" for k
  proof -
    have "take_bit 3 async = async" using assms(2)
      by (simp add: word_unat_eq_iff unsigned_take_bit_eq take_bit_nat_eq_self)
    then show ?thesis using that by (metis bit_take_bit_iff linorder_not_le)
  qed
  have b01: "bit x k \<longleftrightarrow> x = 1 \<and> k = 0" if "x \<in> {0, 1}" for x :: u8 and k
    using that by (auto simp: bit_1_iff)
  have e: "1 \<le> k \<and> P \<and> k - 1 = 0 \<longleftrightarrow> P \<and> k = 1" "5 \<le> k \<and> P \<and> k - 5 = 0 \<longleftrightarrow> P \<and> k = 5" for P and k :: nat
    by auto
  have "bit m k \<longleftrightarrow> k < 32 \<and> (bit trig k \<or> 1 \<le> k \<and> bit direction (k - 1) \<or>
      2 \<le> k \<and> bit async (k - 2) \<or> 5 \<le> k \<and> bit sleep (k - 5) \<or> 6 \<le> k \<and> bit sz (k - 6))" for k
  proof (cases "k < 32")
    case True
    then have k: "k < LENGTH(32)" "k - i < LENGTH(32)" for i by simp_all
    show ?thesis unfolding m_def DMA_SET_MODE_def
      by (simp only: bit_or_iff bit_push_bit_iff bit_unsigned_iff possible_bit_word k True simp_thms disj_assoc)
  next
    case False
    then have "\<not> bit m k" by (simp add: bit_word_def possible_bit_word impossible_bit)
    then show ?thesis using False by simp
  qed
  then have m: "bit m k \<longleftrightarrow> k < 32 \<and> (trig = 1 \<and> k = 0 \<or> direction = 1 \<and> k = 1 \<or>
      2 \<le> k \<and> bit async (k - 2) \<or> sleep = 1 \<and> k = 5 \<or> 6 \<le> k \<and> bit sz (k - 6))" for k
    unfolding b01 [OF assms(1)] b01 [OF assms(3)] b01 [OF assms(4)] e .
  show "bit m 0 \<longleftrightarrow> trig = 1" "bit m 1 \<longleftrightarrow> direction = 1" "bit m 5 \<longleftrightarrow> sleep = 1"
    using lt [of 3] by (simp_all add: m)
  show "take_bit 3 (drop_bit 2 m) = ucast async"
  proof (rule bit_word_eqI)
    fix n assume "n < LENGTH(32)"
    then show "bit (take_bit 3 (drop_bit 2 m)) n \<longleftrightarrow> bit (ucast async :: u32) n"
      using lt [of n] by (cases "n < 3") (auto simp: bit_take_bit_iff bit_drop_bit_eq bit_unsigned_iff m)
  qed
  show "take_bit 18 (drop_bit 6 m) = take_bit 18 sz"
  proof (rule bit_word_eqI)
    fix n assume "n < LENGTH(32)"
    then show "bit (take_bit 18 (drop_bit 6 m)) n \<longleftrightarrow> bit (take_bit 18 sz) n"
      using lt [of "4 + n"] by (cases "n < 18") (auto simp: bit_take_bit_iff bit_drop_bit_eq m)
  qed
qed

lemma dma_register_addr:
  "DMA_REGS_ADDRESS DMA_FREE_SLOT_REG AND 0xF = DMA_FREE_SLOT_REG"
  "DMA_REGS_ADDRESS DMA_ADDR1_REG AND 0xF = DMA_ADDR1_REG"
  "DMA_REGS_ADDRESS DMA_ADDR2_REG AND 0xF = DMA_ADDR2_REG"
  "DMA_REGS_ADDRESS DMA_MODE_REG AND 0xF = DMA_MODE_REG"
  "DMA_REGS_ADDRESS DMA_TRIGGER_REG AND 0xF = DMA_TRIGGER_REG"
  "DMA_REGS_ADDRESS DMA_EVENT_JOB_ID AND 0xF = DMA_EVENT_JOB_ID"
  by (simp_all add: DMA_REGS_ADDRESS_def CL_DMA_BASE_def dma_registers)

lemma done_register:
  assumes "j < 16"
  shows "(DMA_REGS_ADDRESS DMA_DONE_REG + push_bit 4 (of_nat j)) AND 0xF = DMA_DONE_REG"
    and "unat (drop_bit 4 ((DMA_REGS_ADDRESS DMA_DONE_REG + push_bit 4 (of_nat j)) AND DONE_JOB_MASK)) = j"
proof -
  have "j \<in> {0, 1, 2, 3, 4, 5, 6, 7, 8, 9, 10, 11, 12, 13, 14, 15}"
    using assms unfolding insert_iff empty_iff by presburger
  then show "(DMA_REGS_ADDRESS DMA_DONE_REG + push_bit 4 (of_nat j)) AND 0xF = DMA_DONE_REG"
    "unat (drop_bit 4 ((DMA_REGS_ADDRESS DMA_DONE_REG + push_bit 4 (of_nat j)) AND DONE_JOB_MASK)) = j"
    unfolding DMA_REGS_ADDRESS_def CL_DMA_BASE_def DMA_DONE_REG_def DONE_JOB_MASK_def
    by (elim insertE emptyE; simp add: push_bit_eq_mult drop_bit_eq_div)+
qed

lemma look_4_free_slot_range: "look_4_free_slot d c = int j \<Longrightarrow> j < JT_SIZE"
  by (auto simp: look_4_free_slot_def find_Some_iff split: option.splits)

text \<open>The entry that \<open>dma_prog\<close> leaves: sizes keep their low 18 bits.\<close>

definition programmed :: "nat \<Rightarrow> u32 \<Rightarrow> u32 \<Rightarrow> u32 \<Rightarrow> u8 \<Rightarrow> u8 \<Rightarrow> u8 \<Rightarrow> u8 \<Rightarrow> dma_job \<Rightarrow> dma_job" where
  "programmed core addr1 addr2 sz direction async sleep trig e =
     e\<lparr>j_core_id := int core, j_addr1 := addr1, j_addr2 := addr2, j_size := take_bit 18 sz,
       j_dir := (direction = 1), j_pri := async, j_sleep := (sleep = 1), j_trigger := (trig = 1)\<rparr>"

lemma size_in_range: "take_bit 18 (sz :: u32) \<le> MAX_TRANSFER_SIZE"
proof -
  have "unat (take_bit 18 sz) = take_bit 18 (unat sz)" by (rule unsigned_take_bit_eq)
  also have "\<dots> < 2 ^ 18" by (rule take_bit_nat_less_exp)
  finally show ?thesis by (simp add: word_le_unat MAX_TRANSFER_SIZE_def)
qed

lemma register_requests:
  assumes "prog_entry d core = Inr j"
  shows "process_request core (DMA_REGS_ADDRESS DMA_ADDR1_REG) v d =
      Inr (v, upd_job core j (\<lambda>e. e\<lparr>j_core_id := int core, j_addr1 := v\<rparr>) d)"
    and "process_request core (DMA_REGS_ADDRESS DMA_ADDR2_REG) v d =
      Inr (v, upd_job core j (\<lambda>e. e\<lparr>j_addr2 := v\<rparr>) d)"
    and "process_request core (DMA_REGS_ADDRESS DMA_EVENT_JOB_ID) v d =
      Inr (word_of_int (job_gen_ev d core), (clear_entry core j d)\<lparr>job_gen_ev := (job_gen_ev d)(core := -1)\<rparr>)"
  unfolding process_request_def dma_register_addr Let_def using assms
  by (simp_all add: dma_registers program_def)

lemma mode_request:
  assumes "prog_entry d core = Inr j"
  shows "process_request core (DMA_REGS_ADDRESS DMA_MODE_REG) v d =
    (let d' = upd_job core j (\<lambda>e. e\<lparr>j_pri := ucast (take_bit 3 (drop_bit 2 v)), j_dir := bit v 1,
           j_sleep := bit v 5, j_size := take_bit 18 (drop_bit 6 v), j_trigger := bit v 0\<rparr>) d
     in Inr (v, d'\<lparr>jobFIFO := jobFIFO d' @ [jt d' core j]\<rparr>))"
  unfolding process_request_def dma_register_addr Let_def mode_bits size_field
  using assms size_in_range by (simp add: dma_registers)

lemma upd_job_sel [simp]:
  "jt (upd_job c j f d) = (jt d)(c := (jt d c)(j := f (jt d c j)))"
  "jobFIFO (upd_job c j f d) = jobFIFO d"
  "prog_entry (upd_job c j f d) = prog_entry d"
  "upd_job c j g (upd_job c j f d) = upd_job c j (g \<circ> f) d"
  by (auto simp: upd_job_def prog_entry_def fun_eq_iff)

lemma dma_prog_eq:
  assumes "core < DMA_CHANNELS d" "look_4_free_slot d core = int j"
    "direction \<in> {0, 1}" "unat async < 8" "sleep \<in> {0, 1}" "trig \<in> {0, 1}"
  shows "\<exists>d'. dma_prog core addr1 addr2 sz direction async sleep trig d =
      Inr (of_nat (if sleep = 1 then j + 16 else j), d') \<and>
    jt d' = (jt d)(core := (jt d core)(j := programmed core addr1 addr2 sz direction async sleep trig (jt d core j))) \<and>
    d'\<lparr>jt := jt d, jobFIFO := jobFIFO d\<rparr> = d\<lparr>job_curr_prog := (job_curr_prog d)(core := int j)\<rparr>"
proof -
  let ?d1 = "d\<lparr>job_curr_prog := (job_curr_prog d)(core := int j)\<rparr>"
  let ?m = "DMA_SET_MODE sz direction async sleep trig"
  have j: "j < 16" using look_4_free_slot_range [OF assms(2)] by (simp add: JT_SIZE_def)
  have u8: "(ucast (of_nat j :: u32) :: u8) = of_nat j" using j
    by (simp add: word_unat_eq_iff unsigned_ucast_eq unat_of_nat take_bit_nat_eq_self)
  have ne: "(of_nat j :: u8) \<noteq> DMA_ERROR"
  proof
    assume "(of_nat j :: u8) = DMA_ERROR"
    then have "unat (of_nat j :: u8) = unat DMA_ERROR" by simp
    then show False using j by (simp add: unat_of_nat DMA_ERROR_def)
  qed
  note fields = set_mode_fields [OF assms(3-6), of sz]
  have pri: "(ucast (ucast async :: u32) :: u8) = async"
    by (rule bit_word_eqI) (simp add: bit_unsigned_iff)
  have slot: "process_request core (DMA_REGS_ADDRESS DMA_FREE_SLOT_REG) 0 d = Inr (of_nat j, ?d1)"
    unfolding process_request_def dma_register_addr Let_def
    using assms(1,2) by (simp add: dma_registers)
  have p: "prog_entry ?d1 core = Inr j" using assms(1) j by (simp add: prog_entry_def JT_SIZE_def)
  show ?thesis
    unfolding dma_prog_def slot res_bind.simps prod.case u8 Let_def
    using ne by (simp add: register_requests p mode_request Let_def fields fields(2) [unfolded One_nat_def] pri)
      (auto simp: upd_job_def programmed_def fun_eq_iff SLEEP_ID_OFF_def)
qed

section \<open>Types of the table\<close>

definition job_wf :: "nat \<Rightarrow> dma_job \<Rightarrow> bool" where
  "job_wf c e \<longleftrightarrow> (j_core_id e = -1 \<or> j_core_id e = int c) \<and> j_size e \<le> MAX_TRANSFER_SIZE"

definition dma_wf :: "cl_dma \<Rightarrow> bool" where
  "dma_wf d \<longleftrightarrow> curr_core d < DMA_CHANNELS d \<and>
     (\<forall>c<DMA_CHANNELS d. curr_job d c < JT_SIZE \<and> -1 \<le> job_curr_prog d c \<and> job_curr_prog d c < int JT_SIZE \<and>
        -1 \<le> job_gen_ev d c \<and> job_gen_ev d c < int JT_SIZE \<and> (\<forall>j<JT_SIZE. job_wf c (jt d c j)))"

lemma job_wf_clear [simp]: "job_wf c (clear_job e)"
  by (simp add: job_wf_def clear_job_def)

lemma dma_wf_upd:
  "dma_wf d \<Longrightarrow> (job_wf c (jt d c j) \<Longrightarrow> job_wf c (f (jt d c j))) \<Longrightarrow> dma_wf (upd_job c j f d)"
  by (auto simp: dma_wf_def upd_job_def)

lemma dma_wf_fifo [simp]: "dma_wf (d\<lparr>jobFIFO := q\<rparr>) = dma_wf d"
  "dma_wf (d\<lparr>working := w\<rparr>) = dma_wf d" "dma_wf (d\<lparr>dma_event := ev\<rparr>) = dma_wf d"
  by (simp_all add: dma_wf_def)

lemma dma_wf_reset: "0 < DMA_CHANNELS d \<Longrightarrow> dma_wf (reset_jt d)"
  by (simp add: dma_wf_def reset_jt_def job_wf_def clear_job_def JT_SIZE_def)

lemma dma_wf_next: "dma_wf d \<Longrightarrow> dma_wf (next_of_channel w i d)"
  by (auto simp: next_of_channel_def Let_def dma_wf_def JT_SIZE_def split: option.split)

lemma dma_wf_schedule: "dma_wf d \<Longrightarrow> dma_wf (set_next_job d)"
proof -
  have "dma_wf (fold (next_of_channel w) is d)" if "dma_wf d" for w "is"
    using that by (induction "is" arbitrary: d) (simp_all add: dma_wf_next)
  then show "dma_wf d \<Longrightarrow> dma_wf (set_next_job d)" by (simp add: set_next_job_def)
qed

lemma clear_entry_sel [simp]:
  "job_gen_ev (clear_entry c j d) = job_gen_ev d" "DMA_CHANNELS (clear_entry c j d) = DMA_CHANNELS d"
  "jt (clear_entry c j d) = (jt d)(c := (jt d c)(j := clear_job (jt d c j)))"
  "job_curr_prog (clear_entry c j d) = job_curr_prog d" "working (clear_entry c j d) = working d"
  by (simp_all add: clear_entry_def upd_job_def)

lemma dma_wf_clear: "dma_wf d \<Longrightarrow> dma_wf (clear_entry c j d)"
  by (simp add: clear_entry_def dma_wf_upd)

lemma dma_wf_finish: "dma_wf d \<Longrightarrow> dma_wf (finish_job d)"
proof -
  assume d: "dma_wf d"
  let ?c = "curr_core d" and ?j = "curr_job d (curr_core d)"
  let ?d1 = "upd_job ?c ?j (\<lambda>e. e\<lparr>j_done := True\<rparr>) d"
  have 1: "dma_wf ?d1" using d by (intro dma_wf_upd) (simp_all add: job_wf_def)
  have "?j < JT_SIZE" using d by (simp add: dma_wf_def)
  then have 2: "dma_wf (?d1\<lparr>job_gen_ev := (job_gen_ev ?d1)(?c := int ?j), dma_event := ev\<rparr>)" for ev
    using 1 by (auto simp: dma_wf_def)
  show ?thesis unfolding finish_job_def Let_def using 1 2 by (auto intro: dma_wf_clear)
qed

lemma look_4_free_slot_bounds: "-1 \<le> look_4_free_slot d c \<and> look_4_free_slot d c < int JT_SIZE"
  by (auto simp: look_4_free_slot_def JT_SIZE_def find_Some_iff split: option.split)

lemma dma_wf_program:
  "dma_wf d \<Longrightarrow> (\<And>e. job_wf core e \<Longrightarrow> job_wf core (f e)) \<Longrightarrow> program d core data f = Inr (v, d') \<Longrightarrow> dma_wf d'"
  by (auto simp: program_def intro: dma_wf_upd)

lemma dma_wf_request:
  assumes "dma_wf d" "process_request core address data d = Inr (v, d')"
  shows "dma_wf d'"
proof -
  define reg where "reg = address AND 0xF"
  note req = assms(2) [unfolded process_request_def Let_def, folded reg_def]
  have keep: "job_wf core (f e)" if "job_wf core e" "\<And>e. j_core_id (f e) = j_core_id e" "\<And>e. j_size (f e) = j_size e" for f e
    using that by (simp add: job_wf_def)
  consider "reg = DMA_FREE_SLOT_REG" | "reg = DMA_ADDR1_REG" | "reg = DMA_ADDR2_REG" | "reg = DMA_SIZE_REG"
    | "reg = DMA_DIR_REG" | "reg = DMA_TRIGGER_REG" | "reg = DMA_SLEEP_REG" | "reg = DMA_ASYNC_REG"
    | "reg = DMA_DONE_REG" | "reg = DMA_EVENT_JOB_ID" | "reg = DMA_MODE_REG" | "reg = DMA_DUMP_REG"
    using req by (auto split: if_splits)
  then show ?thesis
  proof cases
    case 1
    then show ?thesis using req assms(1) look_4_free_slot_bounds [of d core]
      by (auto simp: dma_wf_def split: if_splits)
  next
    case 2
    show ?thesis using req [unfolded 2]
      by (intro dma_wf_program [OF assms(1)]) (auto simp: dma_registers job_wf_def)
  next
    case 3
    show ?thesis using req [unfolded 3]
      by (intro dma_wf_program [OF assms(1)]) (auto simp: dma_registers job_wf_def)
  next
    case 4
    then have "data \<le> MAX_TRANSFER_SIZE" "program d core data (\<lambda>e. e\<lparr>j_size := data\<rparr>) = Inr (v, d')"
      using req by (auto simp: dma_registers)
    then show ?thesis by (intro dma_wf_program [OF assms(1)]) (auto simp: job_wf_def)
  next
    case 5
    show ?thesis using req [unfolded 5]
      by (intro dma_wf_program [OF assms(1)]) (auto simp: dma_registers job_wf_def)
  next
    case 6
    then show ?thesis using req assms(1)
      by (auto simp: dma_registers job_wf_def split: if_splits intro!: dma_wf_upd)
  next
    case 7
    show ?thesis using req [unfolded 7]
      by (intro dma_wf_program [OF assms(1)]) (auto simp: dma_registers job_wf_def)
  next
    case 8
    show ?thesis using req [unfolded 8]
      by (intro dma_wf_program [OF assms(1)]) (auto simp: dma_registers job_wf_def)
  next
    case 9
    then show ?thesis using req assms(1)
      by (auto simp: dma_registers split: if_splits intro: dma_wf_clear)
  next
    case 10
    then show ?thesis using req dma_wf_clear [OF assms(1), of core]
      by (auto simp: dma_registers dma_wf_def JT_SIZE_def)
  next
    case 11
    then show ?thesis using req assms(1)
      by (auto simp: dma_registers job_wf_def size_field size_in_range intro!: dma_wf_upd)
  next
    case 12
    then show ?thesis using req assms(1) by (simp add: dma_registers)
  qed
qed


text \<open>The tables of the engine keep their type: core and job numbers stay in range, every entry is
  free or belongs to the core whose row it is in, and its size is at most the buffer, through the
  scheduler, the end of a job and every request that returns, from any core and to any address.\<close>

theorem dma_tables_typed:
  assumes "dma_wf d"
  shows "dma_wf (set_next_job d) \<and> dma_wf (finish_job d) \<and> dma_wf (reset_jt d) \<and>
    (case process_request core address data d of Inl e \<Rightarrow> True | Inr (v, d') \<Rightarrow> dma_wf d')"
proof -
  have "0 < DMA_CHANNELS d" using assms by (auto simp: dma_wf_def)
  then show ?thesis
    using assms by (auto simp: dma_wf_schedule dma_wf_finish dma_wf_reset intro: dma_wf_request split: sum.split)
qed

theorem dma_tables_typed_witness:
  "dma_wf demo_dma \<and> dma_wf (finish_job (set_next_job demo_dma))"
proof -
  have "dma_wf demo_dma" by (simp add: demo_dma_def dma_wf_reset)
  then show ?thesis
    using dma_tables_typed [of demo_dma 0 0 0] dma_tables_typed [of "set_next_job demo_dma" 0 0 0] by simp
qed

section \<open>Waiting\<close>

lemma done_request:
  assumes "j < 16" "core < DMA_CHANNELS d"
  shows "process_request core (DMA_REGS_ADDRESS DMA_DONE_REG + push_bit 4 (of_nat j)) v d =
    (if j_done (jt d core j) then Inr (1, clear_entry core j d) else Inr (0, d))"
  unfolding process_request_def done_register [OF assms(1)] Let_def
  using assms(2) by (simp add: dma_registers)

lemma dma_wait_poll:
  assumes "j < 16" "core < DMA_CHANNELS d"
  shows "dma_wait ps core j d =
    (if j_done (jt d core j) then Inr (of_nat j, clear_entry core j d) else Inl FSpin)"
  using assms by (simp add: dma_wait_def SLEEP_ID_OFF_def done_request)

text \<open>An asynchronous job frees its entry when it ends, so a processor that waits for it polls a
  flag that is never set: it spins, in the state where the job has just been done.\<close>

theorem asynchronous_job_never_done:
  assumes "j_pri (jt d (curr_core d) (curr_job d (curr_core d))) \<noteq> 0"
    and "curr_core d < DMA_CHANNELS d" "curr_job d (curr_core d) < 16"
  shows "dma_wait ps (curr_core d) (curr_job d (curr_core d)) (finish_job d) = Inl FSpin"
proof -
  have f: "DMA_CHANNELS (finish_job d) = DMA_CHANNELS d"
    by (simp add: finish_job_def Let_def clear_entry_def upd_job_def)
  have "\<not> j_done (jt (finish_job d) (curr_core d) (curr_job d (curr_core d)))"
    using assms(1) by (simp add: finish_job_def Let_def clear_job_def upd_job_def clear_entry_def)
  then show ?thesis using assms(2,3) by (simp add: dma_wait_poll f)
qed

definition demo_async :: cl_dma where
  "demo_async = upd_job 0 0 (\<lambda>e. e\<lparr>j_trigger := True, j_pri := 1, j_core_id := 0\<rparr>) demo_dma"

theorem asynchronous_job_never_done_witness:
  "dma_wait registered 0 0 (finish_job demo_async) = Inl FSpin"
  using asynchronous_job_never_done [of demo_async]
  by (simp add: demo_async_def upd_job_def demo_dma_def reset_jt_def JT_SIZE_def)

text \<open>On the wrapper as it is built a wait in sleep mode does not return, whatever the engine does.\<close>

lemma sleep_wait_never_returns:
  assumes "SLEEP_ID_OFF \<le> n"
  shows "dma_wait registered core n d = Inl FSpin"
  using assms by (simp add: dma_wait_def registered_def)

text \<open>With the handler a processor that sleeps until its job ends gets the number of the job that ended, but the
  entry freed is the one it programmed last: when it has two jobs, the second is dropped from the
  table, done or not, and the entry of the first is never free again.\<close>

theorem event_frees_last_programmed:
  assumes "core < DMA_CHANNELS d" "dma_event d core" "job_gen_ev d core = int a"
    and "job_curr_prog d core = int b" "a < 16" "b < 16" "a \<noteq> b" "16 \<le> n" "Dma_event_handler \<in> set ps"
  shows "\<exists>d'. dma_wait ps core n d = Inr (of_nat a, d') \<and> j_core_id (jt d' core b) = -1 \<and>
    \<not> pending d' core b \<and> jt d' core a = jt d core a"
proof -
  have u8: "(ucast (of_nat a :: u32) :: u8) = of_nat a" using assms(5)
    by (simp add: word_unat_eq_iff unsigned_ucast_eq unat_of_nat take_bit_nat_eq_self)
  have p: "prog_entry (d\<lparr>dma_event := ev\<rparr>) core = Inr b" for ev
    using assms(1,4,6) by (simp add: prog_entry_def JT_SIZE_def)
  show ?thesis
    using assms by (simp add: dma_wait_def SLEEP_ID_OFF_def register_requests p u8 pending_def clear_job_def)
qed

definition demo_two_jobs :: cl_dma where
  "demo_two_jobs = upd_job 0 1 (\<lambda>e. e\<lparr>j_trigger := True, j_core_id := 0\<rparr>)
     (upd_job 0 0 (\<lambda>e. e\<lparr>j_trigger := True, j_done := True, j_sleep := True, j_core_id := 0\<rparr>)
       (demo_dma\<lparr>dma_event := (\<lambda>_. True), job_gen_ev := (\<lambda>_. 0), job_curr_prog := (\<lambda>_. 1)\<rparr>))"

theorem event_frees_last_programmed_witness:
  "\<exists>d'. pending demo_two_jobs 0 1 \<and> dma_wait [Dma_event_handler] 0 16 demo_two_jobs = Inr (0, d') \<and>
    \<not> pending d' 0 1 \<and> j_core_id (jt d' 0 0) = 0"
  using event_frees_last_programmed [of 0 demo_two_jobs 0 1 16 "[Dma_event_handler]"]
  by (auto simp: demo_two_jobs_def upd_job_def pending_def)

section \<open>Copies\<close>

context word_memory
begin

lemma read_total:
  "\<forall>a \<in> set as. ok m a \<Longrightarrow> \<exists>vs. read_block rd m as = Inr vs"
  using rd_total by (induction as) fastforce+

text \<open>Reading a block and writing it elsewhere copies it, whatever the overlap: the block is read
  before it is written.\<close>

lemma copy_block:
  assumes "distinct (map (slot m) ds)" "\<forall>a \<in> set ds. ok m a" "\<forall>a \<in> set ss. ok m a" "length ss = length ds"
  shows "\<exists>vs m'. read_block rd m ss = Inr vs \<and> write_block wr m (zip ds vs) = Inr m' \<and>
    read_block rd m' ds = Inr vs \<and>
    (\<forall>b. ok m b \<longrightarrow> slot m b \<notin> slot m ` set ds \<longrightarrow> rd m' b = rd m b)"
proof -
  obtain vs where vs: "read_block rd m ss = Inr vs" using read_total [OF assms(3)] by blast
  then have len: "length vs = length ds" using read_block_length assms(4) by metis
  then have z: "map fst (zip ds vs) = ds" by simp
  then have "fst ` set (zip ds vs) = set ds" by (metis list.set_map)
  then obtain m' where "write_block wr m (zip ds vs) = Inr m'"
    "\<forall>b. ok m b \<longrightarrow> slot m b \<notin> slot m ` set ds \<longrightarrow> rd m' b = rd m b"
    using block_write [of "zip ds vs" m] assms(2) unfolding z by auto
  moreover from this(1) have "read_block rd m' ds = Inr vs"
    using block_roundtrip [OF assms(1,2) len] by simp
  ultimately show ?thesis using vs by blast
qed

end

text \<open>The memory behind the port: the TCDM of the cluster and the L3, one slave each.\<close>

record soc_mem =
  tcdm_mem :: cl_memory
  l3_mem :: cl_memory

definition soc_read :: "soc_mem \<Rightarrow> addr \<Rightarrow> u32 res" where
  "soc_read m a = (if dma_IsInTcdmSpace a then clm_Read (tcdm_mem m) a MEM_WORD
     else clm_Read (l3_mem m) a MEM_WORD)"

definition soc_write :: "soc_mem \<Rightarrow> addr \<Rightarrow> u32 \<Rightarrow> soc_mem res" where
  "soc_write m a v =
     (if dma_IsInTcdmSpace a then res_map (\<lambda>c. m\<lparr>tcdm_mem := c\<rparr>) (clm_Write (tcdm_mem m) a v MEM_WORD)
      else res_map (\<lambda>c. m\<lparr>l3_mem := c\<rparr>) (clm_Write (l3_mem m) a v MEM_WORD))"

definition soc_ok :: "soc_mem \<Rightarrow> addr \<Rightarrow> bool" where
  "soc_ok m a = (if dma_IsInTcdmSpace a then clm_ok (tcdm_mem m) a else clm_ok (l3_mem m) a)"

definition soc_slot :: "soc_mem \<Rightarrow> addr \<Rightarrow> nat" where
  "soc_slot m a = (if dma_IsInTcdmSpace a then 2 * clm_slot (tcdm_mem m) a else 2 * clm_slot (l3_mem m) a + 1)"

lemma odd_even_apart: "2 * x \<noteq> Suc (2 * y)" for x y :: nat
  by presburger

interpretation soc: word_memory soc_read soc_write soc_ok soc_slot
proof unfold_locales
  fix m a v m' b
  show "soc_ok m a \<Longrightarrow> \<exists>v. soc_read m a = Inr v"
    using clm.rd_total by (auto simp: soc_ok_def soc_read_def split: if_splits)
  show "soc_ok m a \<Longrightarrow> \<exists>m'. soc_write m a v = Inr m'"
    using clm.wr_total by (fastforce simp: soc_ok_def soc_write_def split: if_splits)
  assume ok: "soc_ok m a" and wr: "soc_write m a v = Inr m'"
  show "soc_slot m a = soc_slot m b \<Longrightarrow> soc_read m' b = Inr v"
    using ok wr clm.wr_same odd_even_apart odd_even_apart [symmetric]
    by (auto simp: soc_ok_def soc_write_def soc_slot_def soc_read_def split: if_splits)
  show "soc_slot m a \<noteq> soc_slot m b \<Longrightarrow> soc_ok m b \<Longrightarrow> soc_read m' b = soc_read m b"
    using ok wr clm.wr_other
    by (auto simp: soc_ok_def soc_write_def soc_slot_def soc_read_def split: if_splits)
  show "soc_ok m' = soc_ok m \<and> soc_slot m' = soc_slot m"
    using ok wr clm.wr_frame
    by (auto simp: soc_ok_def soc_write_def soc_slot_def fun_eq_iff split: if_splits)
qed

section \<open>A whole copy\<close>

text \<open>A processor programs a synchronous copy and starts it, the engine schedules and moves it, the
  processor waits.\<close>

definition dma_copy :: "nat \<Rightarrow> addr \<Rightarrow> addr \<Rightarrow> u32 \<Rightarrow> soc_mem \<times> cl_dma \<Rightarrow> (u8 \<times> soc_mem \<times> cl_dma) res" where
  "dma_copy core src dst sz md = (case md of (m, d) \<Rightarrow>
     res_bind (dma_prog core src dst sz 1 0 0 1 d) (\<lambda>(job, d).
     res_bind (transfer soc_read soc_write (m, set_next_job d)) (\<lambda>(m, d).
     res_map (\<lambda>(r, d). (r, m, d)) (dma_wait registered core (unat job) d))))"

text \<open>The engine is idle and the core has a free slot that is clean.\<close>

definition dma_ready :: "cl_dma \<Rightarrow> nat \<Rightarrow> nat \<Rightarrow> bool" where
  "dma_ready d core j \<longleftrightarrow> core < DMA_CHANNELS d \<and> curr_core d < DMA_CHANNELS d \<and> \<not> working d \<and>
     look_4_free_slot d core = int j \<and> \<not> j_done (jt d core j) \<and>
     (\<forall>c<DMA_CHANNELS d. \<forall>k<JT_SIZE. \<not> pending d c k)"

lemma schedule_frame:
  "jt (set_next_job d) = jt d" "DMA_CHANNELS (set_next_job d) = DMA_CHANNELS d"
  by (simp_all add: set_next_job_def scan_frame)

lemma schedule_only_job:
  assumes "dma_ready d core j"
    and "jt d' = (jt d)(core := (jt d core)(j := e))" "j_trigger e" "\<not> j_done e"
    and "DMA_CHANNELS d' = DMA_CHANNELS d" "curr_core d' = curr_core d" "working d' = working d"
  shows "working (set_next_job d') \<and> curr_core (set_next_job d') = core \<and>
    curr_job (set_next_job d') core = j"
proof -
  have j: "j < JT_SIZE" "core < DMA_CHANNELS d" using assms(1) look_4_free_slot_range
    by (auto simp: dma_ready_def)
  have only: "pending d' c k \<longleftrightarrow> c = core \<and> k = j" if "c < DMA_CHANNELS d" "k < JT_SIZE" for c k
    using that assms by (auto simp: pending_def dma_ready_def)
  have "\<exists>c<DMA_CHANNELS d'. \<exists>k<JT_SIZE. pending d' c k" using j assms(5) only by metis
  then show ?thesis
    using set_next_job_eq [of d'] assms only by (auto simp: dma_ready_def)
qed

lemma finish_synchronous:
  assumes "curr_core d = c" "curr_job d c = j" "j_pri (jt d c j) = 0" "\<not> j_sleep (jt d c j)"
  shows "finish_job d = (upd_job c j (\<lambda>e. e\<lparr>j_done := True\<rparr>) d)\<lparr>working := False\<rparr>"
  using assms by (simp add: finish_job_def Let_def)

text \<open>C12: on a platform whose external memory is an SRAM, a copy started on an idle engine by a core that has a free slot
  comes back with its slot freed, the destination holds the words the source had, and nothing else in memory has
  changed. The words that are copied are those of the size cut to 18 bits (the width the size has in the register of the
  engine), without a remainder below a word: a copy of 256 KB or more is silently shortened.\<close>

theorem dma_copy_copies:
  fixes sz :: u32
  defines "n \<equiv> unat (take_bit 18 sz) div 4"
  assumes "dma_ready d core j"
    and "\<forall>a \<in> set (beats src 4 n). soc_ok m a" "\<forall>a \<in> set (beats dst 4 n). soc_ok m a"
    and "distinct (map (soc_slot m) (beats dst 4 n))"
  shows "\<exists>m' d'. dma_copy core src dst sz (m, d) = Inr (of_nat j, m', d') \<and>
    read_block soc_read m' (beats dst 4 n) = read_block soc_read m (beats src 4 n) \<and>
    (\<forall>b. soc_ok m b \<longrightarrow> soc_slot m b \<notin> soc_slot m ` set (beats dst 4 n) \<longrightarrow> soc_read m' b = soc_read m b) \<and>
    j_core_id (jt d' core j) = -1 \<and> \<not> working d'"
proof -
  have r: "core < DMA_CHANNELS d" "look_4_free_slot d core = int j" "\<not> j_done (jt d core j)"
    using assms(2) by (simp_all add: dma_ready_def)
  have j: "j < 16" using look_4_free_slot_range [OF r(2)] by (simp add: JT_SIZE_def)
  have u: "unat (of_nat j :: u8) = j" using j by (simp add: unat_of_nat)
  let ?e = "programmed core src dst sz 1 0 0 1 (jt d core j)"
  obtain d1 where prog: "dma_prog core src dst sz 1 0 0 1 d = Inr (of_nat j, d1)"
    and jt: "jt d1 = (jt d)(core := (jt d core)(j := ?e))"
    and fr: "d1\<lparr>jt := jt d, jobFIFO := jobFIFO d\<rparr> = d\<lparr>job_curr_prog := (job_curr_prog d)(core := int j)\<rparr>"
    using dma_prog_eq [OF r(1,2), of 1 0 0 1 src dst sz] by auto
  have "DMA_CHANNELS (d1\<lparr>jt := jt d, jobFIFO := jobFIFO d\<rparr>) = DMA_CHANNELS d"
    "curr_core (d1\<lparr>jt := jt d, jobFIFO := jobFIFO d\<rparr>) = curr_core d"
    "working (d1\<lparr>jt := jt d, jobFIFO := jobFIFO d\<rparr>) = working d"
    by (simp_all add: fr)
  then have f: "DMA_CHANNELS d1 = DMA_CHANNELS d" "curr_core d1 = curr_core d" "working d1 = working d"
    by simp_all
  let ?s = "set_next_job d1"
  have sel: "working ?s" "curr_core ?s = core" "curr_job ?s core = j"
    using schedule_only_job [OF assms(2) jt] f r(3) by (simp_all add: programmed_def)
  have e: "j_dir ?e" "j_addr1 ?e = src" "j_addr2 ?e = dst" "unat (j_size ?e) div 4 = n"
    by (simp_all add: programmed_def n_def)
  obtain vs m' where c: "read_block soc_read m (beats src 4 n) = Inr vs"
    "write_block soc_write m (zip (beats dst 4 n) vs) = Inr m'" "read_block soc_read m' (beats dst 4 n) = Inr vs"
    "\<forall>b. soc_ok m b \<longrightarrow> soc_slot m b \<notin> soc_slot m ` set (beats dst 4 n) \<longrightarrow> soc_read m' b = soc_read m b"
    using soc.copy_block [OF assms(5,4,3)] by auto
  have len: "length vs = n" using read_block_length [OF c(1)] by simp
  have "map (put_words 0 vs io) [0..<n] = vs" for io
    by (rule nth_equalityI) (simp_all add: put_words_def len)
  then have t: "transfer soc_read soc_write (m, ?s) = Inr (m', finish_job (?s\<lparr>IO_data := put_words 0 vs (IO_data ?s)\<rparr>))"
    using c by (simp add: transfer_def sel schedule_frame jt Let_def
        bursts_eq e)
  let ?f = "\<lambda>io. (upd_job core j (\<lambda>e. e\<lparr>j_done := True\<rparr>) (?s\<lparr>IO_data := io\<rparr>))\<lparr>working := False\<rparr>"
  have fin: "finish_job (?s\<lparr>IO_data := io\<rparr>) = ?f io" for io
    by (rule finish_synchronous) (simp_all add: sel schedule_frame jt programmed_def)
  have wait: "dma_wait registered core j (?f io) = Inr (of_nat j, clear_entry core j (?f io))" for io
  proof -
    have "DMA_CHANNELS (?f io) = DMA_CHANNELS d" "j_done (jt (?f io) core j)"
      by (simp_all add: upd_job_def schedule_frame f)
    then show ?thesis using dma_wait_poll [OF j, of core "?f io"] r(1) by simp
  qed
  show ?thesis
    using c by (simp add: dma_copy_def prog t u fin wait clear_job_def)
qed

definition demo_soc :: soc_mem where
  "demo_soc = \<lparr>tcdm_mem = \<lparr>target_mem = new_mem 0x100, START_ADDRESS = CL_TCDM_BASE, is_private = True, n_bit_shift = 0\<rparr>,
     l3_mem = \<lparr>target_mem = \<lparr>mem_size = 0x100, mem_bytes = of_nat\<rparr>, START_ADDRESS = 0, is_private = True, n_bit_shift = 0\<rparr>\<rparr>"

lemma first_slot_free: "j_core_id (jt d c 0) = -1 \<Longrightarrow> look_4_free_slot d c = int 0"
proof -
  have "[0..<JT_SIZE] = 0 # [1..<JT_SIZE]" by (simp add: JT_SIZE_def upt_rec)
  then show "j_core_id (jt d c 0) = -1 \<Longrightarrow> look_4_free_slot d c = int 0"
    by (simp add: look_4_free_slot_def)
qed

lemma demo_copy_range:
  "beats 0x10 4 3 = [0x10, 0x14, 0x18]"
  "beats (CL_TCDM_BASE + 0x20) 4 3 = [CL_TCDM_BASE + 0x20, CL_TCDM_BASE + 0x24, CL_TCDM_BASE + 0x28]"
  by (simp_all add: numeral_eq_Suc add.assoc)

theorem dma_copy_copies_witness:
  "\<exists>m' d'. dma_copy 2 0x10 (CL_TCDM_BASE + 0x20) 14 (demo_soc, demo_dma) = Inr (0, m', d') \<and>
    read_block soc_read m' (beats (CL_TCDM_BASE + 0x20) 4 3) = Inr [0x13121110, 0x17161514, 0x1B1A1918]"
proof -
  have n: "unat (take_bit 18 (14 :: u32)) div 4 = 3" by simp
  have ready: "dma_ready demo_dma 2 0"
    by (simp add: dma_ready_def first_slot_free pending_def JT_SIZE_def)
  have in_range: "\<forall>a \<in> set (beats 0x10 4 3). soc_ok demo_soc a"
    "\<forall>a \<in> set (beats (CL_TCDM_BASE + 0x20) 4 3). soc_ok demo_soc a"
    "distinct (map (soc_slot demo_soc) (beats (CL_TCDM_BASE + 0x20) 4 3))"
    unfolding demo_copy_range
    by (simp_all add: soc_ok_def soc_slot_def dma_IsInTcdmSpace_def CL_TCDM_BASE_def CL_TCDM_SIZE_def
        demo_soc_def clm_ok_def clm_slot_def clm_addressing_def word_ok_def new_mem_def)
  have src: "read_block soc_read demo_soc (beats 0x10 4 3) = Inr [0x13121110, 0x17161514, 0x1B1A1918]"
    unfolding demo_copy_range
    by (simp add: soc_read_def dma_IsInTcdmSpace_def CL_TCDM_BASE_def CL_TCDM_SIZE_def demo_soc_def
        clm_Read_def clm_addressing_def Mem_Read_def MEM_WORD_def load32_def word_at_def)
  show ?thesis
    using dma_copy_copies [where d = demo_dma and core = 2 and j = 0 and sz = 14 and src = "0x10" and m = demo_soc
        and dst = "CL_TCDM_BASE + 0x20", unfolded n]
      ready in_range src by auto
qed

end
