(* ===== verification/Cache.thy ===== *)
theory Cache
  imports Pinout
begin

text \<open>
  The instruction cache: the storages (\<open>virtualsoc/src/core/cache_storagetypes.cpp\<close>,
  \<open>cache_config.h\<close>), the split of an address (\<open>cache_address.cpp\<close>), the replacement unit
  \<open>RPU\<close> (\<open>cache_RPU.cpp\<close>) and the requests of a processor (\<open>cache_module.cpp\<close>). The
  memory behind the cache is a parameter, the word it returns at an address; what \<open>rand()\<close>
  returns is a parameter too. The counters of hits are left out, the table of misses is not.
\<close>

section \<open>Storages\<close>

record cache_record =
  Ch_Data :: "u32 list"
  Ch_Tag :: u32
  Ch_Valid :: u32
  Ch_Dirty :: u32

text \<open>\<open>direct_storage\<close>, \<open>full_storage\<close> and \<open>set_storage\<close>, which is one direct storage per way.\<close>

datatype storage = Direct "cache_record list" | Full "cache_record list" | Sets "cache_record list list"

text \<open>The first record of a tag, valid or not.\<close>

definition tag_index :: "cache_record list \<Rightarrow> u32 \<Rightarrow> nat option" where
  "tag_index rs tag = List.find (\<lambda>i. Ch_Tag (rs ! i) = tag) [0..<length rs]"

fun read_cache :: "storage \<Rightarrow> u32 \<Rightarrow> nat \<Rightarrow> cache_record res" where
  "read_cache (Direct rs) a i = array_get rs (unat a)"
| "read_cache (Full rs) a i =
     (case tag_index rs a of Some k \<Rightarrow> array_get rs k | None \<Rightarrow> array_get rs (length rs - 1))"
| "read_cache (Sets ss) a i = res_bind (array_get ss i) (\<lambda>rs. array_get rs (unat a))"

definition update_at :: "nat \<Rightarrow> (cache_record \<Rightarrow> cache_record res) \<Rightarrow> cache_record list \<Rightarrow> cache_record list res" where
  "update_at k f rs = res_bind (array_get rs k) (\<lambda>r. res_bind (f r) (\<lambda>r'. array_set rs k r'))"

definition put_word :: "nat \<Rightarrow> u32 \<Rightarrow> cache_record \<Rightarrow> cache_record res" where
  "put_word loc data r =
     res_map (\<lambda>ws. r\<lparr>Ch_Data := ws, Ch_Valid := 1, Ch_Dirty := 0\<rparr>) (array_set (Ch_Data r) loc data)"

text \<open>The record of an access: by index, by tag, or by way and index; without the tag, nothing is
  done.\<close>

fun on_record :: "(cache_record \<Rightarrow> cache_record res) \<Rightarrow> storage \<Rightarrow> u32 \<Rightarrow> nat \<Rightarrow> storage res" where
  "on_record f (Direct rs) a i = res_map Direct (update_at (unat a) f rs)"
| "on_record f (Full rs) a i =
     (case tag_index rs a of Some k \<Rightarrow> res_map Full (update_at k f rs) | None \<Rightarrow> Inr (Full rs))"
| "on_record f (Sets ss) a i =
     res_bind (array_get ss i) (\<lambda>rs. res_bind (update_at (unat a) f rs) (\<lambda>rs'. res_map Sets (array_set ss i rs')))"

definition write_cache :: "storage \<Rightarrow> u32 \<Rightarrow> u32 \<Rightarrow> nat \<Rightarrow> nat \<Rightarrow> storage res" where
  "write_cache st a data loc i = on_record (put_word loc data) st a i"

definition set_dirty :: "storage \<Rightarrow> u32 \<Rightarrow> u32 \<Rightarrow> nat \<Rightarrow> storage res" where
  "set_dirty st a val i = on_record (\<lambda>r. Inr (r\<lparr>Ch_Dirty := val\<rparr>)) st a i"

text \<open>\<open>write_tag\<close> of the fully associative storage gets the number of the record.\<close>

fun write_tag :: "storage \<Rightarrow> u32 \<Rightarrow> u32 \<Rightarrow> nat \<Rightarrow> storage res" where
  "write_tag (Full rs) a tag i = res_map Full (update_at (unat a) (\<lambda>r. Inr (r\<lparr>Ch_Tag := tag\<rparr>)) rs)"
| "write_tag st a tag i = on_record (\<lambda>r. Inr (r\<lparr>Ch_Tag := tag\<rparr>)) st a i"

fun storage_reset :: "storage \<Rightarrow> storage" where
  "storage_reset (Direct rs) = Direct (map (Ch_Valid_update (\<lambda>_. 0)) rs)"
| "storage_reset (Full rs) = Full (map (Ch_Valid_update (\<lambda>_. 0)) rs)"
| "storage_reset (Sets ss) = Sets (map (map (Ch_Valid_update (\<lambda>_. 0))) ss)"

fun return_index :: "storage \<Rightarrow> u32 \<Rightarrow> nat res" where
  "return_index (Full rs) tag = (case tag_index rs tag of Some k \<Rightarrow> Inr k | None \<Rightarrow> Inl FUndef)"
| "return_index _ tag = Inr 0"

section \<open>Addresses\<close>

record cache_address =
  cache_line :: u32
  tag_off :: u32
  tag_mask :: u32
  index_mask :: u32
  offset_mask :: u32

definition new_cache_address :: "u32 \<Rightarrow> u32 \<Rightarrow> nat \<Rightarrow> cache_address" where
  "new_cache_address sz line assoc =
     (let per_way = sz div of_nat assoc in
      if 1 < assoc then
        \<lparr>cache_line = line, tag_off = per_way, tag_mask = NOT (per_way - 1),
         index_mask = (per_way - 1) - (line - 1), offset_mask = line - 1\<rparr>
      else if assoc = 0 then
        \<lparr>cache_line = line, tag_off = sz, tag_mask = NOT (sz - 1),
         index_mask = (sz - 1) - (line - 1), offset_mask = line - 1\<rparr>
      else
        \<lparr>cache_line = line, tag_off = line, tag_mask = NOT (line - 1),
         index_mask = 0, offset_mask = line - 1\<rparr>)"

definition get_offset :: "cache_address \<Rightarrow> u32 \<Rightarrow> u32" where
  "get_offset ca addr = addr AND offset_mask ca"

definition get_index :: "cache_address \<Rightarrow> u32 \<Rightarrow> u32" where
  "get_index ca addr = (addr AND index_mask ca) div cache_line ca"

definition get_tag :: "cache_address \<Rightarrow> u32 \<Rightarrow> u32" where
  "get_tag ca addr = (addr AND tag_mask ca) div tag_off ca"

section \<open>The replacement unit\<close>

text \<open>\<open>Ch_replace_type\<close>: 0 random, 1 first in first out, 2 least recently used.\<close>

record rpu =
  Ch_assoc_num :: nat
  Ch_size :: u32
  Ch_line :: u32
  Ch_replace_type :: nat
  Ch_info :: "nat \<Rightarrow> nat \<Rightarrow> u32"
  Ch_next_ip :: u32
  dirty_locations :: "nat \<Rightarrow> nat \<Rightarrow> u32"
  rpu_address :: cache_address
  storing :: storage

definition num_lines :: "rpu \<Rightarrow> nat" where
  "num_lines r = unat (Ch_size r) div unat (Ch_line r)"

text \<open>The constructor; \<open>recs\<close> is what the arrays of records hold before the constructor of the
  storage clears their valid flags.\<close>

definition new_rpu :: "u32 \<Rightarrow> u32 \<Rightarrow> nat \<Rightarrow> nat \<Rightarrow> (nat \<Rightarrow> cache_record list) \<Rightarrow> rpu" where
  "new_rpu sz line assoc repl recs =
     \<lparr>Ch_assoc_num = assoc, Ch_size = sz, Ch_line = line, Ch_replace_type = repl,
      Ch_info = (\<lambda>_ _. if repl = 2 then (if assoc = 1 then 30000 else 99999) else 0),
      Ch_next_ip = 0, dirty_locations = (\<lambda>_ _. -1),
      rpu_address = new_cache_address sz line assoc,
      storing = storage_reset (if assoc = 0 then Direct (recs 0) else if assoc = 1 then Full (recs 0)
        else Sets (map recs [0..<assoc]))\<rparr>"

definition record_hits :: "u32 \<Rightarrow> cache_record \<Rightarrow> bool" where
  "record_hits tag rec \<longleftrightarrow> Ch_Tag rec = tag \<and> Ch_Valid rec = 1"

text \<open>\<open>check_exist\<close>: \<open>None\<close> stands for -1.\<close>

fun find_way :: "storage \<Rightarrow> u32 \<Rightarrow> u32 \<Rightarrow> nat list \<Rightarrow> nat option res" where
  "find_way st index tag [] = Inr None"
| "find_way st index tag (i # is) =
     res_bind (read_cache st index i) (\<lambda>rec.
     if record_hits tag rec then Inr (Some i) else find_way st index tag is)"

definition check_exist :: "rpu \<Rightarrow> u32 \<Rightarrow> nat option res" where
  "check_exist r addr =
     (let index = get_index (rpu_address r) addr; tag = get_tag (rpu_address r) addr in
      if Ch_assoc_num r \<le> 1
      then res_map (\<lambda>rec. if record_hits tag rec then Some 1 else None)
        (read_cache (storing r) (if Ch_assoc_num r = 0 then index else tag) 0)
      else find_way (storing r) index tag [0..<Ch_assoc_num r])"

text \<open>A use of a line ages the others: of the ways of a set, or of all the lines.\<close>

definition touch_way :: "nat \<Rightarrow> nat \<Rightarrow> rpu \<Rightarrow> rpu" where
  "touch_way i index r =
     r\<lparr>Ch_info := (\<lambda>w k. if k = index \<and> w < Ch_assoc_num r then (if w = i then 0 else Ch_info r w k + 1)
       else Ch_info r w k)\<rparr>"

definition touch_line :: "nat \<Rightarrow> rpu \<Rightarrow> rpu" where
  "touch_line i r =
     r\<lparr>Ch_info := (\<lambda>w k. if w = 0 \<and> k < num_lines r then (if k = i then 0 else Ch_info r w k + 1)
       else Ch_info r w k)\<rparr>"

definition word_of_line :: "cache_record \<Rightarrow> u32 \<Rightarrow> u32 res" where
  "word_of_line rec off = array_get (Ch_Data rec) (unat (drop_bit 2 off))"

definition read_data :: "rpu \<Rightarrow> u32 \<Rightarrow> nat \<Rightarrow> (u32 \<times> rpu) res" where
  "read_data r addr i =
     (let index = get_index (rpu_address r) addr; tag = get_tag (rpu_address r) addr;
          off = get_offset (rpu_address r) addr in
      if Ch_assoc_num r \<noteq> 1 then
        res_bind (read_cache (storing r) index i) (\<lambda>rec.
        res_map (\<lambda>v. (v, if Ch_replace_type r = 2 \<and> 1 < Ch_assoc_num r then touch_way i (unat index) r else r))
          (word_of_line rec off))
      else
        res_bind (if Ch_replace_type r = 2
            then res_map (\<lambda>k. touch_line k r) (return_index (storing r) tag) else Inr r) (\<lambda>r'.
        res_bind (read_cache (storing r) tag i) (\<lambda>rec.
        res_map (\<lambda>v. (v, r')) (word_of_line rec off))))"

definition update_data :: "rpu \<Rightarrow> u32 \<Rightarrow> u32 \<Rightarrow> rpu res" where
  "update_data r addr data =
     (let index = get_index (rpu_address r) addr; tag = get_tag (rpu_address r) addr;
          off = unat (drop_bit 2 (get_offset (rpu_address r) addr));
          dirty = (\<lambda>w k r. r\<lparr>dirty_locations := (dirty_locations r)(w := (dirty_locations r w)(k := addr))\<rparr>);
          store = (\<lambda>a val i r. res_bind (write_cache (storing r) a data off i) (\<lambda>st.
            res_map (\<lambda>st. r\<lparr>storing := st\<rparr>) (set_dirty st a val i))) in
      if Ch_assoc_num r = 0 then res_map (dirty 0 (unat index)) (store index 1 0 r)
      else if Ch_assoc_num r = 1 then
        res_bind (if Ch_replace_type r = 2
            then res_map (\<lambda>k. touch_line k r) (return_index (storing r) tag) else Inr r) (\<lambda>r.
        res_bind (store tag 1 0 r) (\<lambda>r.
        res_map (\<lambda>k. dirty 0 k r) (return_index (storing r) tag)))
      else
        res_bind (check_exist r addr) (\<lambda>way. case way of None \<Rightarrow> Inl FUndef | Some i \<Rightarrow>
        res_map (dirty i (unat index))
          (store index data i (if Ch_replace_type r = 2 then touch_way i (unat index) r else r))))"

text \<open>\<open>write_data\<close> puts a word that comes from memory.\<close>

definition write_data :: "rpu \<Rightarrow> u32 \<Rightarrow> u32 \<Rightarrow> nat \<Rightarrow> rpu res" where
  "write_data r addr data loc =
     (let index = get_index (rpu_address r) addr; tag = get_tag (rpu_address r) addr;
          off = unat (drop_bit 2 (get_offset (rpu_address r) addr));
          put = (\<lambda>a b i r. res_bind (write_tag (storing r) a tag i) (\<lambda>st.
            res_map (\<lambda>st. r\<lparr>storing := st\<rparr>) (write_cache st b data off i)));
          stamp = (\<lambda>w k r. r\<lparr>Ch_info := (Ch_info r)(w := (Ch_info r w)(k := Ch_next_ip r)),
            Ch_next_ip := Ch_next_ip r + 1\<rparr>) in
      if Ch_assoc_num r = 0 then put index index 0 r
      else if Ch_assoc_num r = 1 then
        put (of_nat loc) tag 0
          (if Ch_replace_type r = 1 then stamp 0 loc r
           else if Ch_replace_type r = 2
           then r\<lparr>Ch_info := (Ch_info r)(0 := (Ch_info r 0)(loc := 0))\<rparr> else r)
      else
        res_bind (check_exist r addr) (\<lambda>way.
        let i = (case way of None \<Rightarrow> loc | Some i \<Rightarrow> i) in
        put index index i
          (if Ch_replace_type r = 1 then stamp i (unat index) r
           else if Ch_replace_type r = 2 then touch_way i (unat index) r else r)))"

text \<open>\<open>where_to\<close>: the line to replace. The scan keeps the first line that no other beats.\<close>

definition scan_best :: "(nat \<Rightarrow> nat \<Rightarrow> bool) \<Rightarrow> nat \<Rightarrow> nat" where
  "scan_best better n = fold (\<lambda>i temp. if better i temp then i else temp) [1..<n] 0"

definition where_to :: "nat \<Rightarrow> rpu \<Rightarrow> u32 \<Rightarrow> nat res" where
  "where_to rnd r index =
     (let info = (\<lambda>i. if Ch_assoc_num r = 1 then Ch_info r 0 i else Ch_info r i (unat index));
          n = (if Ch_assoc_num r = 1 then num_lines r else Ch_assoc_num r) in
      if Ch_replace_type r = 0 then (if n = 0 then Inl FUndef else Inr (rnd mod n))
      else if Ch_assoc_num r = 0 \<or> 2 < Ch_replace_type r then Inl FUndef
      else if Ch_replace_type r = 1 then Inr (scan_best (\<lambda>i t. info i < info t) n)
      else Inr (scan_best (\<lambda>i t. info t < info i) n))"

section \<open>Requests\<close>

text \<open>The table of the misses and its counters, kept while \<open>CL_CACHE_METRICS\<close> is set.\<close>

definition MAX_MISS_SIZE :: nat where "MAX_MISS_SIZE = 4000"

record miss_table =
  miss_addr_tbl :: "(u32 \<times> nat) list"
  tbl_index :: nat
  num_miss :: nat
  cold_miss :: nat
  cap_miss :: nat

definition new_miss_table :: miss_table where
  "new_miss_table = \<lparr>miss_addr_tbl = replicate MAX_MISS_SIZE (0xFFFFFFFF, 0), tbl_index = 0,
     num_miss = 0, cold_miss = 0, cap_miss = 0\<rparr>"

fun find_miss :: "(u32 \<times> nat) list \<Rightarrow> u32 \<Rightarrow> nat list \<Rightarrow> nat option res" where
  "find_miss tbl addr [] = Inr None"
| "find_miss tbl addr (i # is) =
     res_bind (array_get tbl i) (\<lambda>e. if fst e = addr then Inr (Some i) else find_miss tbl addr is)"

definition record_miss :: "u32 \<Rightarrow> miss_table \<Rightarrow> miss_table res" where
  "record_miss addr t =
     (let t = t\<lparr>num_miss := num_miss t + 1\<rparr> in
      res_bind (find_miss (miss_addr_tbl t) addr [0..<num_miss t]) (\<lambda>found. case found of
        Some i \<Rightarrow>
          let n = snd (miss_addr_tbl t ! i) + 1 in
          Inr (t\<lparr>miss_addr_tbl := (miss_addr_tbl t)[i := (addr, n)],
                 cap_miss := cap_miss t + (if 1 < n then 1 else 0)\<rparr>)
      | None \<Rightarrow>
          res_bind (array_get (miss_addr_tbl t) (tbl_index t)) (\<lambda>e.
          Inr (t\<lparr>miss_addr_tbl := (miss_addr_tbl t)[tbl_index t := (addr, snd e + 1)],
                 cold_miss := cold_miss t + (if snd e + 1 = 1 then 1 else 0), tbl_index := tbl_index t + 1\<rparr>))))"

record cache_module =
  target_rpu :: rpu
  TID :: u32
  CL_CACHE_METRIC :: bool
  misses :: miss_table

fun read_from_mem :: "(addr \<Rightarrow> u32) \<Rightarrow> u32 \<Rightarrow> u32 \<Rightarrow> nat \<Rightarrow> nat \<Rightarrow> rpu \<Rightarrow> rpu res" where
  "read_from_mem mem tid missed_addr 0 loc r = Inr r"
| "read_from_mem mem tid missed_addr (Suc burst) loc r =
     res_bind (write_data r (missed_addr - tid * TILE_SPACING) (mem missed_addr) loc)
       (read_from_mem mem tid (missed_addr + 4) burst loc)"

definition beat_data :: "u32 \<Rightarrow> nat \<Rightarrow> u32 \<Rightarrow> u32 res" where
  "beat_data bw j data =
     (if bw = 0 then Inr data
      else if bw = 1 then (if 8 * j < 32 then Inr (drop_bit (8 * j) data AND 0xFF) else Inl FUndef)
      else if 16 * j < 32 then Inr (drop_bit (16 * j) data AND 0xFFFF) else Inl FUndef)"

fun hit_beats :: "u32 \<Rightarrow> nat \<Rightarrow> nat \<Rightarrow> nat \<Rightarrow> u32 \<Rightarrow> rpu \<Rightarrow> (u32 list \<times> rpu) res" where
  "hit_beats bw ind j 0 addr r = Inr ([], r)"
| "hit_beats bw ind j (Suc n) addr r =
     res_bind (read_data r addr ind) (\<lambda>(data, r).
     res_bind (beat_data bw j data) (\<lambda>d.
     res_map (\<lambda>(ds, r). (d # ds, r))
       (hit_beats bw ind (Suc j) n (addr + (if bw = 0 then 4 else if bw = 1 then 1 else 2)) r)))"

fun miss_beats :: "nat \<Rightarrow> nat \<Rightarrow> u32 \<Rightarrow> rpu \<Rightarrow> (u32 list \<times> rpu) res" where
  "miss_beats ind 0 addr r = Inr ([], r)"
| "miss_beats ind (Suc n) addr r =
     res_bind (read_data r addr ind) (\<lambda>(d, r).
     res_map (\<lambda>(ds, r). (d # ds, r)) (miss_beats ind n (addr + 4) r))"

text \<open>\<open>handle_request\<close>: the words put on the port of the processor.\<close>

definition handle_request :: "(addr \<Rightarrow> u32) \<Rightarrow> nat \<Rightarrow> pinout \<Rightarrow> cache_module \<Rightarrow> (u32 list \<times> cache_module) res" where
  "handle_request mem rnd p c =
     (let r = target_rpu c; addr = p_address p - TID c * TILE_SPACING; burst = unat (p_burst p) in
      if \<not> p_benable p then Inr ([], c)
      else if p_rw p then Inl (FExit 1)
      else if 0x19000000 \<le> addr then Inl (FExit 1)
      else res_bind (check_exist r addr) (\<lambda>ind. case ind of
        Some i \<Rightarrow> res_map (\<lambda>(ds, r). (ds, c\<lparr>target_rpu := r\<rparr>)) (hit_beats (p_bw p) i 0 burst addr r)
      | None \<Rightarrow>
          res_bind (if Ch_assoc_num r \<noteq> 0 then where_to rnd r (get_index (rpu_address r) addr) else Inr 0) (\<lambda>loc.
          res_bind (if CL_CACHE_METRIC c then res_map (\<lambda>t. c\<lparr>misses := t\<rparr>) (record_miss addr (misses c)) else Inr c) (\<lambda>c.
          res_bind (read_from_mem mem (TID c) ((addr + TID c * TILE_SPACING) AND 0xFFFFFFF0) 4 loc r) (\<lambda>r.
          res_bind (check_exist r addr) (\<lambda>ind.
          res_map (\<lambda>(ds, r). (ds, c\<lparr>target_rpu := r\<rparr>))
            (case ind of Some i \<Rightarrow> miss_beats i burst addr r
             | None \<Rightarrow> if burst = 0 then Inr ([], r) else Inl FUndef)))))))"

section \<open>Lines\<close>

text \<open>The geometry of a direct or set associative cache whose ways hold \<open>2 ^ k\<close> bytes in lines of 16.\<close>

definition geometry :: "nat \<Rightarrow> cache_address" where
  "geometry k = \<lparr>cache_line = 16, tag_off = 2 ^ k, tag_mask = NOT (mask k),
     index_mask = mask k - mask 4, offset_mask = mask 4\<rparr>"

lemma mask_diff: "4 \<le> k \<Longrightarrow> (mask k :: u32) - mask 4 = mask k AND NOT (mask 4)"
proof -
  assume "4 \<le> k"
  then have "(mask k AND NOT (mask 4)) OR mask 4 = (mask k :: u32)"
    by (auto simp: bit_eq_iff bit_simps)
  moreover have "(mask k AND NOT (mask 4)) AND mask 4 = (0 :: u32)"
    by (simp add: bit_eq_iff bit_simps)
  ultimately have "(mask k AND NOT (mask 4)) + mask 4 = (mask k :: u32)"
    by (metis disjunctive_add_eq_or)
  then show ?thesis by (metis add_diff_cancel_right')
qed

lemma geometry_bits:
  assumes "4 \<le> k" "k < 32"
  shows "get_offset (geometry k) a = take_bit 4 a"
    and "get_index (geometry k) a = drop_bit 4 (take_bit k a)"
    and "get_tag (geometry k) a = drop_bit k a"
proof -
  show "get_offset (geometry k) a = take_bit 4 a"
    by (simp only: get_offset_def geometry_def cache_address.simps take_bit_eq_mask)
  have d: "x div 16 = drop_bit 4 x" for x :: u32 by (simp add: drop_bit_eq_div)
  show "get_index (geometry k) a = drop_bit 4 (take_bit k a)"
    unfolding get_index_def geometry_def cache_address.simps mask_diff [OF assms(1)] d
    by (rule bit_word_eqI) (simp only: bit_drop_bit_eq bit_and_iff bit_not_iff bit_mask_iff bit_take_bit_iff o_def,
        use assms in auto)
  have "get_tag (geometry k) a = drop_bit k (a AND NOT (mask k))"
    unfolding get_tag_def geometry_def cache_address.simps by (simp only: drop_bit_eq_div)
  also have "\<dots> = drop_bit k a"
    by (rule bit_word_eqI) (simp only: bit_drop_bit_eq bit_and_iff bit_not_iff bit_mask_iff o_def, auto simp: possible_bit_word dest: bit_imp_le_length)
  finally show "get_tag (geometry k) a = drop_bit k a" .
qed

definition line_of :: "addr \<Rightarrow> addr" where
  "line_of a = a AND NOT (mask 4)"

lemma bit_line_of: "bit (line_of a) n \<longleftrightarrow> 4 \<le> n \<and> bit a n"
  by (auto simp: line_of_def bit_simps dest: bit_imp_le_length)

text \<open>Index and tag together name the line.\<close>

lemma same_line:
  assumes "4 \<le> k" "k < 32"
  shows "get_index (geometry k) a = get_index (geometry k) b \<and> get_tag (geometry k) a = get_tag (geometry k) b
    \<longleftrightarrow> line_of a = line_of b"
proof
  assume eq: "get_index (geometry k) a = get_index (geometry k) b \<and> get_tag (geometry k) a = get_tag (geometry k) b"
  have "bit a n = bit b n" if "4 \<le> n" for n
  proof (cases "n < k")
    case True
    have "bit (get_index (geometry k) a) (n - 4) = bit (get_index (geometry k) b) (n - 4)" using eq by simp
    then show ?thesis using True that by (simp add: geometry_bits [OF assms] bit_drop_bit_eq bit_take_bit_iff)
  next
    case False
    have "bit (get_tag (geometry k) a) (n - k) = bit (get_tag (geometry k) b) (n - k)" using eq by simp
    then show ?thesis using False by (simp add: geometry_bits [OF assms] bit_drop_bit_eq)
  qed
  then show "line_of a = line_of b" by (auto simp: bit_eq_iff bit_line_of)
next
  assume eq: "line_of a = line_of b"
  have ab: "bit a n = bit b n" if "4 \<le> n" for n using eq that bit_line_of by metis
  show "get_index (geometry k) a = get_index (geometry k) b \<and> get_tag (geometry k) a = get_tag (geometry k) b"
    unfolding geometry_bits [OF assms]
  proof (intro conjI bit_word_eqI)
    fix n assume "n < LENGTH(32)"
    show "bit (drop_bit 4 (take_bit k a)) n = bit (drop_bit 4 (take_bit k b)) n"
      using ab [of "4 + n"] by (simp add: bit_drop_bit_eq bit_take_bit_iff)
    show "bit (drop_bit k a) n = bit (drop_bit k b) n"
      using ab [of "k + n"] assms(1) by (simp add: bit_drop_bit_eq)
  qed
qed

lemma line_plus:
  assumes "take_bit 4 c = c"
  shows "line_of (line_of a + c) = line_of a" "take_bit 4 (line_of a + c) = c"
proof -
  have c: "bit c n \<Longrightarrow> n < 4" for n using assms by (metis bit_take_bit_iff)
  have "line_of a AND c = 0" by (rule bit_word_eqI) (auto simp: bit_and_iff bit_line_of dest: c)
  then have s: "line_of a + c = line_of a OR c" by (rule disjunctive_add_eq_or)
  show "line_of (line_of a + c) = line_of a" unfolding s
    by (rule bit_word_eqI) (auto simp: bit_or_iff bit_line_of dest: c)
  show "take_bit 4 (line_of a + c) = c" unfolding s
    by (rule bit_word_eqI) (auto simp: bit_or_iff bit_line_of bit_take_bit_iff dest: c)
qed

lemma line_split: "a = line_of a + take_bit 4 a"
proof -
  have "line_of a AND take_bit 4 a = 0"
    by (rule bit_word_eqI) (auto simp: bit_and_iff bit_line_of bit_take_bit_iff)
  then have "line_of a + take_bit 4 a = line_of a OR take_bit 4 a" by (rule disjunctive_add_eq_or)
  also have "\<dots> = a" by (rule bit_word_eqI) (auto simp: bit_or_iff bit_line_of bit_take_bit_iff)
  finally show ?thesis by (rule sym)
qed

text \<open>The word an aligned address selects in its line.\<close>

definition word_no :: "addr \<Rightarrow> nat" where
  "word_no a = unat (drop_bit 2 (take_bit 4 a))"

lemma unat_drop_2: "unat (drop_bit 2 (w :: u32)) = unat w div 4"
  by (simp add: drop_bit_eq_div unat_div)

lemma word_no_less: "word_no a < 4"
proof -
  have "unat (take_bit 4 a) < 16" by (simp add: unsigned_take_bit_eq take_bit_nat_less_exp [of 4, simplified])
  then show ?thesis unfolding word_no_def unat_drop_2 by simp
qed

lemma aligned_split:
  assumes "take_bit 2 a = 0"
  shows "a = line_of a + of_nat (4 * word_no a)"
proof -
  have lt: "unat (take_bit 4 a) < 16" by (simp add: unsigned_take_bit_eq take_bit_nat_less_exp [of 4, simplified])
  have "take_bit 2 (take_bit 4 a) = 0" using assms by simp
  then have "unat (take_bit 4 a) mod 4 = 0"
    using unsigned_take_bit_eq [of 2 "take_bit 4 a", where 'a = nat] by (simp add: take_bit_eq_mod)
  then have "4 * word_no a = unat (take_bit 4 a)"
    unfolding word_no_def unat_drop_2 by presburger
  then have "of_nat (4 * word_no a) = take_bit 4 a" by (simp only:) simp
  then show ?thesis using line_split [of a] by (simp only:)
qed

lemma line_word:
  assumes "j < 4"
  shows "line_of (line_of a + of_nat (4 * j)) = line_of a" "word_no (line_of a + of_nat (4 * j)) = j"
    "take_bit 2 (line_of a + of_nat (4 * j)) = 0"
proof -
  have j: "j \<in> {0, 1, 2, 3}" using assms by auto
  then have c: "take_bit 4 (of_nat (4 * j) :: u32) = of_nat (4 * j)" by (auto simp: take_bit_eq_mod)
  show "line_of (line_of a + of_nat (4 * j)) = line_of a" by (rule line_plus(1) [OF c])
  show "word_no (line_of a + of_nat (4 * j)) = j"
    unfolding word_no_def line_plus(2) [OF c] using j by (auto simp: drop_bit_eq_div)
  have "take_bit 2 (line_of a + of_nat (4 * j)) = take_bit 2 (take_bit 4 (line_of a + of_nat (4 * j)))" by simp
  also have "\<dots> = 0" unfolding line_plus(2) [OF c] using j by (auto simp: take_bit_eq_mod)
  finally show "take_bit 2 (line_of a + of_nat (4 * j)) = 0" .
qed

section \<open>Direct and set associative storages\<close>

text \<open>The records of a way; a direct storage has one way, whatever number is asked for.\<close>

fun way :: "storage \<Rightarrow> nat \<Rightarrow> cache_record list" where
  "way (Direct rs) w = rs"
| "way (Full rs) w = rs"
| "way (Sets ss) w = ss ! w"

definition way_ok :: "nat \<Rightarrow> nat \<Rightarrow> bool" where
  "way_ok assoc w \<longleftrightarrow> assoc = 0 \<or> w < assoc"

fun shaped :: "nat \<Rightarrow> nat \<Rightarrow> storage \<Rightarrow> bool" where
  "shaped assoc l (Direct rs) \<longleftrightarrow> assoc = 0 \<and> length rs = l"
| "shaped assoc l (Full rs) \<longleftrightarrow> False"
| "shaped assoc l (Sets ss) \<longleftrightarrow> 1 < assoc \<and> length ss = assoc \<and> (\<forall>rs \<in> set ss. length rs = l)"

lemma length_way: "shaped assoc l st \<Longrightarrow> way_ok assoc w \<Longrightarrow> length (way st w) = l"
  by (cases st) (auto simp: way_ok_def)

lemma read_cache_way:
  "shaped assoc l st \<Longrightarrow> way_ok assoc w \<Longrightarrow> unat a < l \<Longrightarrow> read_cache st a w = Inr (way st w ! unat a)"
  by (cases st) (auto simp: way_ok_def)

lemma on_record_way:
  assumes "shaped assoc l st" "way_ok assoc w" "unat a < l" "f (way st w ! unat a) = Inr x"
  shows "\<exists>st'. on_record f st a w = Inr st' \<and> shaped assoc l st' \<and>
    (\<forall>w' i. way_ok assoc w' \<longrightarrow> i < l \<longrightarrow>
      way st' w' ! i = (if (assoc = 0 \<or> w' = w) \<and> i = unat a then x else way st w' ! i))"
proof (cases st)
  case (Direct rs)
  then show ?thesis using assms by (auto simp: update_at_def nth_list_update)
next
  case (Sets ss)
  then have l: "length (ss ! w) = l" "w < length ss" using assms by (auto simp: way_ok_def)
  moreover have "\<forall>rs \<in> set (ss[w := (ss ! w)[unat a := x]]). length rs = l"
    using Sets assms(1) l by (auto dest!: subsetD [OF set_update_subset_insert])
  ultimately show ?thesis
    using Sets assms by (auto simp: update_at_def nth_list_update way_ok_def)
qed (use assms in simp)

lemma write_tag_record: "shaped assoc l st \<Longrightarrow> write_tag st a tag w = on_record (\<lambda>r. Inr (r\<lparr>Ch_Tag := tag\<rparr>)) st a w"
  by (cases st) auto

lemma find_way_all:
  assumes "shaped assoc l st" "1 < assoc" "unat index < l" "\<forall>i \<in> set is. i < assoc"
  shows "find_way st index tag is = Inr (List.find (\<lambda>i. record_hits tag (way st i ! unat index)) is)"
  using assms(4)
proof (induction "is")
  case (Cons i "is")
  then show ?case using read_cache_way [OF assms(1), of i index] assms(3)
    by (simp add: way_ok_def)
qed simp

section \<open>The cache as a view of the memory\<close>

text \<open>A cache of the geometry above, with lines of four words.\<close>

definition rpu_cfg :: "nat \<Rightarrow> rpu \<Rightarrow> bool" where
  "rpu_cfg k r \<longleftrightarrow> 4 \<le> k \<and> k < 32 \<and> rpu_address r = geometry k \<and>
     shaped (Ch_assoc_num r) (2 ^ (k - 4)) (storing r) \<and>
     (\<forall>w i. way_ok (Ch_assoc_num r) w \<longrightarrow> i < 2 ^ (k - 4) \<longrightarrow> length (Ch_Data (way (storing r) w ! i)) = 4)"

lemma rpu_cfg_assoc: "rpu_cfg k r \<Longrightarrow> Ch_assoc_num r \<noteq> 1"
  by (cases "storing r") (auto simp: rpu_cfg_def)

lemma index_in_range: "4 \<le> k \<Longrightarrow> k < 32 \<Longrightarrow> unat (get_index (geometry k) a) < 2 ^ (k - 4)"
proof -
  assume k: "4 \<le> k" "k < 32"
  have t: "unat (take_bit k a) < 2 ^ k" by (simp add: unsigned_take_bit_eq take_bit_nat_less_exp)
  have "(2 :: nat) ^ k = 2 ^ (k - 4) * 16"
    using k power_add [of "2 :: nat" "k - 4" 4] by simp
  then have "unat (take_bit k a) div 16 < 2 ^ (k - 4)" using t by (simp add: div_less_iff_less_mult)
  moreover have "drop_bit 4 (take_bit k a) = take_bit k a div 16" by (simp add: drop_bit_eq_div)
  ultimately show ?thesis unfolding geometry_bits [OF k] by (simp add: unat_div)
qed

text \<open>The record where an address would be in a way.\<close>

definition record_of :: "rpu \<Rightarrow> nat \<Rightarrow> addr \<Rightarrow> cache_record" where
  "record_of r w a = way (storing r) w ! unat (get_index (rpu_address r) a)"

lemma check_exist_cases:
  fixes a :: addr and w :: nat
  assumes "rpu_cfg k r"
  defines "h \<equiv> \<lambda>w. record_hits (get_tag (rpu_address r) a) (record_of r w a)"
  shows "(check_exist r a = Inr None \<longleftrightarrow> (\<forall>w. way_ok (Ch_assoc_num r) w \<longrightarrow> \<not> h w)) \<and>
    (\<forall>w. check_exist r a = Inr (Some w) \<longrightarrow> way_ok (Ch_assoc_num r) w \<and> h w) \<and>
    (\<exists>x. check_exist r a = Inr x)"
proof -
  have sh: "shaped (Ch_assoc_num r) (2 ^ (k - 4)) (storing r)"
    and i: "unat (get_index (rpu_address r) a) < 2 ^ (k - 4)"
    using assms(1) index_in_range by (auto simp: rpu_cfg_def)
  show ?thesis
  proof (cases "Ch_assoc_num r = 0")
    case True
    have rd: "read_cache (storing r) (get_index (rpu_address r) a) 0 = Inr (record_of r 0 a)"
      and rw: "record_of r w a = record_of r 0 a" for w
      using sh True i by (cases "storing r"; auto simp: record_of_def)+
    have ce: "check_exist r a = Inr (if h 0 then Some 1 else None)"
      using True rd by (simp add: check_exist_def Let_def h_def)
    have hw: "h w = h 0" for w unfolding h_def by (simp only: rw [of w])
    show ?thesis
    proof (cases "h 0")
      case t: True
      have "h w" for w using hw [of w] t by simp
      then show ?thesis using True t by (simp add: ce way_ok_def)
    next
      case f: False
      have "\<not> h w" for w using hw [of w] f by simp
      then show ?thesis using True f by (simp add: ce way_ok_def)
    qed
  next
    case False
    then have n: "1 < Ch_assoc_num r" using rpu_cfg_assoc [OF assms(1)] by simp
    then have "check_exist r a = Inr (List.find h [0..<Ch_assoc_num r])"
      using find_way_all [OF sh n i, of "[0..<Ch_assoc_num r]"]
      by (simp add: check_exist_def Let_def record_of_def h_def)
    then show ?thesis
      using False by (auto simp: way_ok_def find_None_iff find_Some_iff)
  qed
qed

text \<open>Storing a word of a line in the way where it belongs changes that record only.\<close>

definition filled :: "u32 \<Rightarrow> nat \<Rightarrow> u32 \<Rightarrow> cache_record \<Rightarrow> cache_record" where
  "filled tag off v rec = rec\<lparr>Ch_Data := (Ch_Data rec)[off := v], Ch_Tag := tag, Ch_Valid := 1, Ch_Dirty := 0\<rparr>"

lemma put_line:
  assumes "shaped assoc l st" "way_ok assoc w" "unat a < l" "off < length (Ch_Data (way st w ! unat a))"
  shows "\<exists>st1 st2. write_tag st a tag w = Inr st1 \<and> write_cache st1 a v off w = Inr st2 \<and> shaped assoc l st2 \<and>
    (\<forall>w' i. way_ok assoc w' \<longrightarrow> i < l \<longrightarrow> way st2 w' ! i =
      (if (assoc = 0 \<or> w' = w) \<and> i = unat a then filled tag off v (way st w ! unat a) else way st w' ! i))"
proof -
  let ?rec = "way st w ! unat a"
  obtain st1 where 1: "write_tag st a tag w = Inr st1" "shaped assoc l st1"
    and at1: "\<And>w' i. way_ok assoc w' \<Longrightarrow> i < l \<Longrightarrow> way st1 w' ! i =
      (if (assoc = 0 \<or> w' = w) \<and> i = unat a then ?rec\<lparr>Ch_Tag := tag\<rparr> else way st w' ! i)"
    using on_record_way [OF assms(1-3), of "\<lambda>r. Inr (r\<lparr>Ch_Tag := tag\<rparr>)"] write_tag_record [OF assms(1)]
    by (auto 4 4)
  have "way st1 w ! unat a = ?rec\<lparr>Ch_Tag := tag\<rparr>" using at1 assms(2,3) by simp
  then have "put_word off v (way st1 w ! unat a) = Inr (filled tag off v ?rec)"
    using assms(4) by (simp add: put_word_def filled_def)
  then obtain st2 where 2: "write_cache st1 a v off w = Inr st2" "shaped assoc l st2"
    and at2: "\<And>w' i. way_ok assoc w' \<Longrightarrow> i < l \<Longrightarrow> way st2 w' ! i =
      (if (assoc = 0 \<or> w' = w) \<and> i = unat a then filled tag off v ?rec else way st1 w' ! i)"
    using on_record_way [OF 1(2) assms(2,3), of "put_word off v"] unfolding write_cache_def by blast
  show ?thesis using 1(1) 2 at1 at2 by auto
qed

lemma write_data_line:
  assumes cfg: "rpu_cfg k r" and loc: "way_ok (Ch_assoc_num r) loc"
    and other: "\<And>w. Ch_assoc_num r \<noteq> 0 \<Longrightarrow> way_ok (Ch_assoc_num r) w \<Longrightarrow> w \<noteq> loc \<Longrightarrow>
      \<not> record_hits (get_tag (rpu_address r) a) (record_of r w a)"
  shows "\<exists>r'. write_data r a v loc = Inr r' \<and> rpu_cfg k r' \<and> Ch_assoc_num r' = Ch_assoc_num r \<and>
    Ch_replace_type r' = Ch_replace_type r \<and>
    (\<forall>w i. way_ok (Ch_assoc_num r) w \<longrightarrow> i < 2 ^ (k - 4) \<longrightarrow> way (storing r') w ! i =
      (if (Ch_assoc_num r = 0 \<or> w = loc) \<and> i = unat (get_index (rpu_address r) a)
       then filled (get_tag (rpu_address r) a) (word_no a) v (record_of r loc a) else way (storing r) w ! i))"
proof -
  let ?ix = "get_index (rpu_address r) a" and ?tag = "get_tag (rpu_address r) a"
  have k: "4 \<le> k" "k < 32" "rpu_address r = geometry k"
    and sh: "shaped (Ch_assoc_num r) (2 ^ (k - 4)) (storing r)"
    and ix: "unat ?ix < 2 ^ (k - 4)" and len: "length (Ch_Data (record_of r loc a)) = 4"
    using cfg index_in_range loc by (auto simp: rpu_cfg_def record_of_def)
  have off: "unat (drop_bit 2 (get_offset (rpu_address r) a)) = word_no a"
    unfolding k(3) geometry_bits(1) [OF k(1,2)] word_no_def ..
  obtain st1 st2 where st: "write_tag (storing r) ?ix ?tag loc = Inr st1"
    "write_cache st1 ?ix v (word_no a) loc = Inr st2" "shaped (Ch_assoc_num r) (2 ^ (k - 4)) st2"
    and at: "\<And>w i. way_ok (Ch_assoc_num r) w \<Longrightarrow> i < 2 ^ (k - 4) \<Longrightarrow> way st2 w ! i =
      (if (Ch_assoc_num r = 0 \<or> w = loc) \<and> i = unat ?ix
       then filled ?tag (word_no a) v (record_of r loc a) else way (storing r) w ! i)"
    using put_line [OF sh loc ix, of "word_no a" ?tag v] len word_no_less [of a]
    unfolding record_of_def by metis
  have result: "rpu_cfg k (r1\<lparr>storing := st2\<rparr>) \<and> Ch_assoc_num r1 = Ch_assoc_num r \<and>
      Ch_replace_type r1 = Ch_replace_type r"
    if "Ch_assoc_num r1 = Ch_assoc_num r" "rpu_address r1 = rpu_address r" "Ch_replace_type r1 = Ch_replace_type r" for r1
    using cfg st(3) at len that by (auto simp: rpu_cfg_def filled_def)
  show ?thesis
  proof (cases "Ch_assoc_num r = 0")
    case True
    obtain rs where rs: "storing r = Direct rs" using sh True by (cases "storing r") auto
    have t0: "write_tag (storing r) ?ix ?tag 0 = Inr st1" using st(1) unfolding rs by simp
    obtain rs1 where rs1: "st1 = Direct rs1" using st(1) unfolding rs by auto
    have c0: "write_cache st1 ?ix v (word_no a) 0 = Inr st2"
      using st(2) unfolding rs1 write_cache_def by simp
    have "write_data r a v loc = Inr (r\<lparr>storing := st2\<rparr>)"
      unfolding write_data_def Let_def off True by (simp add: t0 c0)
    then show ?thesis using result [of r] at by auto
  next
    case False
    then have n: "1 < Ch_assoc_num r" using rpu_cfg_assoc [OF cfg] by simp
    obtain x where x: "check_exist r a = Inr x" using check_exist_cases [OF cfg] by blast
    have i: "(case x of None \<Rightarrow> loc | Some i \<Rightarrow> i) = loc"
    proof (cases x)
      case (Some w)
      then have "way_ok (Ch_assoc_num r) w \<and> record_hits ?tag (record_of r w a)"
        using check_exist_cases [OF cfg, of a] x by blast
      then show ?thesis using other False Some by auto
    qed simp
    define r1 where "r1 = (if Ch_replace_type r = 1
         then r\<lparr>Ch_info := (Ch_info r)(loc := (Ch_info r loc)(unat ?ix := Ch_next_ip r)), Ch_next_ip := Ch_next_ip r + 1\<rparr>
         else if Ch_replace_type r = 2 then touch_way loc (unat ?ix) r else r)"
    have r1: "storing r1 = storing r" "Ch_assoc_num r1 = Ch_assoc_num r" "rpu_address r1 = rpu_address r"
      "Ch_replace_type r1 = Ch_replace_type r"
      by (simp_all add: r1_def touch_way_def)
    have "write_data r a v loc = Inr (r1\<lparr>storing := st2\<rparr>)"
      using n st unfolding write_data_def Let_def off x res_bind.simps i r1_def [symmetric]
      by (simp add: r1)
    then show ?thesis using result [OF r1(2-4)] at by auto
  qed
qed

lemma aligned_next:
  assumes "take_bit 2 a = 0" "word_no a + j < 4"
  shows "line_of (a + of_nat (4 * j)) = line_of a" "word_no (a + of_nat (4 * j)) = word_no a + j"
    "take_bit 2 (a + of_nat (4 * j)) = 0"
proof -
  have a: "a + of_nat (4 * j) = line_of a + of_nat (4 * (word_no a + j))"
    by (subst aligned_split [OF assms(1)]) (simp add: algebra_simps)
  show "line_of (a + of_nat (4 * j)) = line_of a" "word_no (a + of_nat (4 * j)) = word_no a + j"
    "take_bit 2 (a + of_nat (4 * j)) = 0"
    unfolding a using line_word [OF assms(2)] by simp_all
qed

definition refilled :: "u32 \<Rightarrow> (nat \<Rightarrow> u32) \<Rightarrow> nat \<Rightarrow> cache_record \<Rightarrow> cache_record" where
  "refilled tag ws j rec = (if j = 0 then rec
     else rec\<lparr>Ch_Data := map (\<lambda>i. if i < j then ws i else Ch_Data rec ! i) [0..<4],
       Ch_Tag := tag, Ch_Valid := 1, Ch_Dirty := 0\<rparr>)"

lemma filled_refilled:
  assumes "length (Ch_Data rec) = 4" "j < 4"
  shows "filled tag j (ws j) (refilled tag ws j rec) = refilled tag ws (Suc j) rec"
proof -
  let ?old = "if j = 0 then Ch_Data rec else map (\<lambda>i. if i < j then ws i else Ch_Data rec ! i) [0..<4]"
  have "?old[j := ws j] = map (\<lambda>i. if i < Suc j then ws i else Ch_Data rec ! i) [0..<4]"
    using assms by (intro nth_equalityI) (auto simp: nth_list_update less_Suc_eq)
  then show ?thesis by (auto simp: filled_def refilled_def)
qed

text \<open>Refilling a line that is not in the cache.\<close>

definition same_config :: "rpu \<Rightarrow> rpu \<Rightarrow> bool" where
  "same_config r r' \<longleftrightarrow> Ch_assoc_num r' = Ch_assoc_num r \<and> Ch_replace_type r' = Ch_replace_type r"

definition line_words :: "nat \<Rightarrow> rpu \<Rightarrow> nat \<Rightarrow> addr \<Rightarrow> cache_record \<Rightarrow> rpu \<Rightarrow> bool" where
  "line_words k r loc a rec r' \<longleftrightarrow> rpu_cfg k r' \<and> same_config r r' \<and>
     (\<forall>w i. way_ok (Ch_assoc_num r) w \<longrightarrow> i < 2 ^ (k - 4) \<longrightarrow> way (storing r') w ! i =
       (if (Ch_assoc_num r = 0 \<or> w = loc) \<and> i = unat (get_index (geometry k) a) then rec else way (storing r) w ! i))"

lemma refill_from:
  assumes cfg: "rpu_cfg k r" and loc: "way_ok (Ch_assoc_num r) loc" and miss: "check_exist r a = Inr None"
    and "j + n = 4" "line_words k r loc a (refilled (get_tag (geometry k) a) ws j (record_of r loc a)) r'"
    and ws: "\<And>i. ws i = mem (line_of a + tid * TILE_SPACING + of_nat (4 * i))"
  shows "\<exists>r''. read_from_mem mem tid (line_of a + tid * TILE_SPACING + of_nat (4 * j)) n loc r' = Inr r'' \<and>
    line_words k r loc a (refilled (get_tag (geometry k) a) ws 4 (record_of r loc a)) r''"
  using assms(4,5)
proof (induction n arbitrary: j r')
  case (Suc n)
  let ?b = "line_of a + of_nat (4 * j)"
  let ?rec = "record_of r loc a" and ?tag = "get_tag (geometry k) a" and ?ix = "get_index (geometry k) a"
  have k: "4 \<le> k" "k < 32" "rpu_address r = geometry k" using cfg by (auto simp: rpu_cfg_def)
  have ix: "unat ?ix < 2 ^ (k - 4)" using index_in_range [OF k(1,2)] .
  have cfg': "rpu_cfg k r'" "same_config r r'" and at: "\<And>w i. way_ok (Ch_assoc_num r) w \<Longrightarrow> i < 2 ^ (k - 4) \<Longrightarrow>
      way (storing r') w ! i = (if (Ch_assoc_num r = 0 \<or> w = loc) \<and> i = unat ?ix
        then refilled ?tag ws j ?rec else way (storing r) w ! i)"
    using Suc.prems(2) by (auto simp: line_words_def)
  have k': "rpu_address r' = geometry k" using cfg'(1) by (auto simp: rpu_cfg_def)
  have j: "j < 4" using Suc.prems(1) by simp
  have b: "line_of ?b = line_of a" "word_no ?b = j" using line_word [OF j] by simp_all
  then have it: "get_index (geometry k) ?b = ?ix" "get_tag (geometry k) ?b = ?tag"
    using same_line [OF k(1,2)] by blast+
  have rec_b: "record_of r' w ?b = (if Ch_assoc_num r = 0 \<or> w = loc then refilled ?tag ws j ?rec else record_of r w a)"
    if "way_ok (Ch_assoc_num r) w" for w
    unfolding record_of_def k' it k(3) using at [OF that ix] by (simp add: record_of_def k(3))
  have "\<not> record_hits ?tag (record_of r' w ?b)" if "Ch_assoc_num r \<noteq> 0" "way_ok (Ch_assoc_num r) w" "w \<noteq> loc" for w
    unfolding rec_b [OF that(2)] using check_exist_cases [OF cfg, of a] miss that by (simp add: k(3))
  then obtain r1 where r1: "write_data r' ?b (mem (line_of a + tid * TILE_SPACING + of_nat (4 * j))) loc = Inr r1"
    "rpu_cfg k r1" "Ch_assoc_num r1 = Ch_assoc_num r'" "Ch_replace_type r1 = Ch_replace_type r'"
    and at1: "\<And>w i. way_ok (Ch_assoc_num r) w \<Longrightarrow> i < 2 ^ (k - 4) \<Longrightarrow> way (storing r1) w ! i =
      (if (Ch_assoc_num r = 0 \<or> w = loc) \<and> i = unat ?ix
       then filled ?tag j (ws j) (record_of r' loc ?b) else way (storing r') w ! i)"
    using write_data_line [OF cfg'(1), of loc ?b "mem (line_of a + tid * TILE_SPACING + of_nat (4 * j))"] loc cfg'(2)
    unfolding k' it b(2) same_config_def ws [symmetric] by metis
  have len: "length (Ch_Data ?rec) = 4" using cfg loc ix k(3) by (auto simp: rpu_cfg_def record_of_def)
  have new: "filled ?tag j (ws j) (record_of r' loc ?b) = refilled ?tag ws (Suc j) ?rec"
    using rec_b [OF loc] filled_refilled [OF len j] by simp
  have "line_words k r loc a (refilled ?tag ws (Suc j) ?rec) r1"
    unfolding line_words_def using r1(2-4) cfg'(2) at at1 new by (auto simp: same_config_def)
  then have "\<exists>r''. read_from_mem mem tid (line_of a + tid * TILE_SPACING + of_nat (4 * Suc j)) n loc r1 = Inr r'' \<and>
      line_words k r loc a (refilled ?tag ws 4 ?rec) r''"
    using Suc.IH [of "Suc j" r1] Suc.prems(1) by simp
  moreover have e: "line_of a + tid * TILE_SPACING + of_nat (4 * j) - tid * TILE_SPACING = ?b"
    "line_of a + tid * TILE_SPACING + of_nat (4 * j) + 4 = line_of a + tid * TILE_SPACING + of_nat (4 * Suc j)"
    by (simp_all add: algebra_simps)
  ultimately show ?case unfolding read_from_mem.simps e r1(1) res_bind.simps by (simp only:)
qed simp

definition holds_memory :: "(addr \<Rightarrow> u32) \<Rightarrow> u32 \<Rightarrow> rpu \<Rightarrow> bool" where
  "holds_memory mem tid r \<longleftrightarrow> (\<forall>w a. way_ok (Ch_assoc_num r) w \<longrightarrow> take_bit 2 a = 0 \<longrightarrow>
     record_hits (get_tag (rpu_address r) a) (record_of r w a) \<longrightarrow>
     Ch_Data (record_of r w a) ! word_no a = mem (a + tid * TILE_SPACING))"

lemma refill:
  assumes cfg: "rpu_cfg k r" and loc: "way_ok (Ch_assoc_num r) loc" and miss: "check_exist r a = Inr None"
    and mem: "holds_memory mem tid r"
  shows "\<exists>r'. read_from_mem mem tid (line_of a + tid * TILE_SPACING) 4 loc r = Inr r' \<and> rpu_cfg k r' \<and>
    same_config r r' \<and> holds_memory mem tid r' \<and> (\<exists>w. check_exist r' a = Inr (Some w))"
proof -
  define ws where "ws i = mem (line_of a + tid * TILE_SPACING + of_nat (4 * i))" for i
  let ?rec = "record_of r loc a" and ?tag = "get_tag (geometry k) a" and ?ix = "get_index (geometry k) a"
  let ?new = "refilled ?tag ws 4 ?rec"
  have k: "4 \<le> k" "k < 32" "rpu_address r = geometry k" using cfg by (auto simp: rpu_cfg_def)
  have ixr: "unat (get_index (geometry k) b) < 2 ^ (k - 4)" for b using index_in_range [OF k(1,2)] .
  have "line_words k r loc a (refilled ?tag ws 0 ?rec) r"
    using cfg k(3) by (auto simp: line_words_def same_config_def refilled_def record_of_def)
       (cases "storing r"; auto simp: rpu_cfg_def)
  then obtain r' where r': "read_from_mem mem tid (line_of a + tid * TILE_SPACING) 4 loc r = Inr r'"
    and lw: "line_words k r loc a ?new r'"
    using refill_from [OF cfg loc miss, of 0 4 ws r mem tid] by (auto simp: ws_def)
  have cfg': "rpu_cfg k r'" "same_config r r'" and at: "\<And>w i. way_ok (Ch_assoc_num r) w \<Longrightarrow> i < 2 ^ (k - 4) \<Longrightarrow>
      way (storing r') w ! i = (if (Ch_assoc_num r = 0 \<or> w = loc) \<and> i = unat ?ix then ?new else way (storing r) w ! i)"
    using lw by (auto simp: line_words_def)
  have k': "rpu_address r' = geometry k" "Ch_assoc_num r' = Ch_assoc_num r"
    using cfg' by (auto simp: rpu_cfg_def same_config_def)
  have rec: "record_of r' w b = (if (Ch_assoc_num r = 0 \<or> w = loc) \<and> get_index (geometry k) b = ?ix then ?new
      else record_of r w b)" if "way_ok (Ch_assoc_num r) w" for w b
    using at [OF that ixr, of b] by (simp add: record_of_def k' k(3) word_unat_eq_iff)
  have hit: "record_hits ?tag ?new" by (simp add: record_hits_def refilled_def)
  have "holds_memory mem tid r'"
    unfolding holds_memory_def k'
  proof (intro allI impI)
    fix w b assume w: "way_ok (Ch_assoc_num r) w" and b: "take_bit 2 b = 0"
      and h: "record_hits (get_tag (geometry k) b) (record_of r' w b)"
    show "Ch_Data (record_of r' w b) ! word_no b = mem (b + tid * TILE_SPACING)"
    proof (cases "(Ch_assoc_num r = 0 \<or> w = loc) \<and> get_index (geometry k) b = ?ix")
      case True
      then have n: "record_of r' w b = ?new" using rec [OF w, of b] by (simp only: if_True simp_thms)
      then have "get_tag (geometry k) b = ?tag" using h by (simp add: record_hits_def refilled_def)
      then have "line_of b = line_of a" using True same_line [OF k(1,2)] by blast
      then have "b = line_of a + of_nat (4 * word_no b)" using aligned_split [OF b] by simp
      moreover have "Ch_Data ?new ! word_no b = ws (word_no b)" using word_no_less [of b] by (simp add: refilled_def)
      ultimately show ?thesis unfolding n ws_def by (metis add.commute add.left_commute)
    next
      case False
      then have "record_of r' w b = record_of r w b" using rec [OF w, of b] by (simp only: if_False)
      then show ?thesis using mem w b h by (simp add: holds_memory_def k(3))
    qed
  qed
  moreover have "\<exists>w. check_exist r' a = Inr (Some w)"
  proof -
    have "record_hits (get_tag (rpu_address r') a) (record_of r' loc a)" using hit rec [OF loc, of a] k' by simp
    then show ?thesis using check_exist_cases [OF cfg'(1), of a] loc k'(2)
      by (metis option.exhaust)
  qed
  ultimately show ?thesis using r' cfg' by blast
qed


section \<open>Refinement\<close>

lemma read_data_hit:
  assumes "rpu_cfg k r" "way_ok (Ch_assoc_num r) w"
  shows "\<exists>r'. read_data r a w = Inr (Ch_Data (record_of r w a) ! word_no a, r') \<and>
    storing r' = storing r \<and> rpu_address r' = rpu_address r \<and> same_config r r'"
proof -
  have k: "4 \<le> k" "k < 32" "rpu_address r = geometry k" using assms(1) by (auto simp: rpu_cfg_def)
  have ix: "unat (get_index (rpu_address r) a) < 2 ^ (k - 4)" using index_in_range k by simp
  have rd: "read_cache (storing r) (get_index (rpu_address r) a) w = Inr (record_of r w a)"
    using assms ix read_cache_way by (auto simp: rpu_cfg_def record_of_def)
  have off: "unat (drop_bit 2 (get_offset (rpu_address r) a)) = word_no a"
    unfolding k(3) geometry_bits(1) [OF k(1,2)] word_no_def ..
  have len: "word_no a < length (Ch_Data (record_of r w a))"
    using assms ix word_no_less [of a] by (auto simp: rpu_cfg_def record_of_def)
  show ?thesis
    using rpu_cfg_assoc [OF assms(1)] len
    by (simp add: read_data_def Let_def rd word_of_line_def off same_config_def touch_way_def)
qed

lemma same_line_hits:
  assumes "rpu_cfg k r" "line_of b = line_of a"
  shows "record_of r w b = record_of r w a" "get_tag (rpu_address r) b = get_tag (rpu_address r) a"
  using assms same_line [of k b a] by (auto simp: rpu_cfg_def record_of_def)

lemma config_kept:
  assumes "rpu_cfg k r" "holds_memory mem tid r" "storing r' = storing r" "rpu_address r' = rpu_address r"
    "same_config r r'"
  shows "rpu_cfg k r'" "holds_memory mem tid r'" "record_of r' w a = record_of r w a"
  using assms by (simp_all add: rpu_cfg_def holds_memory_def record_of_def same_config_def)

text \<open>The words of a line that is in the cache, read by the loop of a hit or by that of a miss.\<close>

lemma beats_of_line:
  assumes "rpu_cfg k r" "holds_memory mem tid r" "way_ok (Ch_assoc_num r) w"
    "record_hits (get_tag (rpu_address r) a) (record_of r w a)" "take_bit 2 a = 0" "word_no a + n \<le> 4"
  shows "(\<exists>r'. hit_beats 0 w j n a r = Inr (map (\<lambda>i. mem (a + of_nat (4 * i) + tid * TILE_SPACING)) [0..<n], r') \<and>
      rpu_cfg k r' \<and> holds_memory mem tid r' \<and> same_config r r') \<and>
    (\<exists>r'. miss_beats w n a r = Inr (map (\<lambda>i. mem (a + of_nat (4 * i) + tid * TILE_SPACING)) [0..<n], r') \<and>
      rpu_cfg k r' \<and> holds_memory mem tid r' \<and> same_config r r')"
  using assms
proof (induction n arbitrary: r a j)
  case (Suc n)
  obtain r1 where r1: "read_data r a w = Inr (Ch_Data (record_of r w a) ! word_no a, r1)"
    "storing r1 = storing r" "rpu_address r1 = rpu_address r" "same_config r r1"
    using read_data_hit [OF Suc.prems(1,3)] by blast
  have v: "Ch_Data (record_of r w a) ! word_no a = mem (a + tid * TILE_SPACING)"
    using Suc.prems by (auto simp: holds_memory_def)
  note c1 = config_kept [OF Suc.prems(1,2) r1(2-4)]
  have m: "map (\<lambda>i. mem (a + of_nat (4 * i) + tid * TILE_SPACING)) [0..<Suc n] =
      mem (a + tid * TILE_SPACING) # map (\<lambda>i. mem (a + 4 + of_nat (4 * i) + tid * TILE_SPACING)) [0..<n]"
    by (simp add: upt_conv_Cons map_Suc_upt [symmetric] algebra_simps del: upt_Suc)
  have "(\<exists>r'. hit_beats 0 w (Suc j) n (a + 4) r1 = Inr (map (\<lambda>i. mem (a + 4 + of_nat (4 * i) + tid * TILE_SPACING)) [0..<n], r') \<and>
      rpu_cfg k r' \<and> holds_memory mem tid r' \<and> same_config r1 r') \<and>
    (\<exists>r'. miss_beats w n (a + 4) r1 = Inr (map (\<lambda>i. mem (a + 4 + of_nat (4 * i) + tid * TILE_SPACING)) [0..<n], r') \<and>
      rpu_cfg k r' \<and> holds_memory mem tid r' \<and> same_config r1 r')"
  proof (cases n)
    case 0
    then show ?thesis using c1(1,2) by (simp add: same_config_def)
  next
    case (Suc n')
    then have "word_no a + 1 < 4" using Suc.prems(6) by simp
    then have nx: "line_of (a + 4) = line_of a" "word_no (a + 4) = word_no a + 1" "take_bit 2 (a + 4) = 0"
      using aligned_next [OF Suc.prems(5), of 1] by simp_all
    have "way_ok (Ch_assoc_num r1) w" using Suc.prems(3) r1(4) by (simp add: same_config_def)
    moreover have "record_hits (get_tag (rpu_address r1) (a + 4)) (record_of r1 w (a + 4))"
      using Suc.prems(4) by (simp add: c1(3) r1(3) same_line_hits [OF Suc.prems(1) nx(1)])
    ultimately show ?thesis using Suc.IH [of r1 "a + 4" "Suc j"] c1(1,2) nx Suc.prems(6) by simp
  qed
  then show ?case
    using r1(1,4) v unfolding m by (auto simp: beat_data_def same_config_def)
qed (simp add: same_config_def)

text \<open>The cache shows the memory: every line it holds is that of the memory.\<close>

definition cache_shows :: "nat \<Rightarrow> (addr \<Rightarrow> u32) \<Rightarrow> cache_module \<Rightarrow> bool" where
  "cache_shows k mem c \<longleftrightarrow> rpu_cfg k (target_rpu c) \<and> Ch_replace_type (target_rpu c) \<le> 2 \<and>
     \<not> CL_CACHE_METRIC c \<and> holds_memory mem (TID c) (target_rpu c)"

text \<open>What a processor is promised: the words at consecutive addresses of the memory.\<close>

definition fetch :: "(addr \<Rightarrow> u32) \<Rightarrow> pinout \<Rightarrow> u32 list" where
  "fetch mem p = map (\<lambda>i. mem (p_address p + of_nat (4 * i))) [0..<unat (p_burst p)]"

definition fetch_ok :: "u32 \<Rightarrow> pinout \<Rightarrow> bool" where
  "fetch_ok tid p \<longleftrightarrow> p_benable p \<and> \<not> p_rw p \<and> p_bw p = 0 \<and> take_bit 2 (p_address p) = 0 \<and>
     p_address p - tid * TILE_SPACING < 0x19000000 \<and> word_no (p_address p) + unat (p_burst p) \<le> 4"

lemma scan_best_less: "0 < n \<Longrightarrow> scan_best better n < n"
proof -
  have "fold (\<lambda>i temp. if better i temp then i else temp) xs t < n" if "\<forall>i \<in> set xs. i < n" "t < n" for xs t
    using that by (induction xs arbitrary: t) auto
  then show "0 < n \<Longrightarrow> scan_best better n < n" by (simp add: scan_best_def)
qed

lemma where_to_way:
  assumes "rpu_cfg k r" "Ch_replace_type r \<le> 2" "Ch_assoc_num r \<noteq> 0"
  shows "\<exists>loc. where_to rnd r index = Inr loc \<and> way_ok (Ch_assoc_num r) loc"
  using assms rpu_cfg_assoc [OF assms(1)] scan_best_less [of "Ch_assoc_num r"]
  by (auto simp: where_to_def Let_def way_ok_def)

lemma tile_offset:
  "take_bit 4 (a - tid * TILE_SPACING) = take_bit 4 a"
  "(a - tid * TILE_SPACING + tid * TILE_SPACING) AND 0xFFFFFFF0 = line_of (a - tid * TILE_SPACING) + tid * TILE_SPACING"
  "a AND 0xFFFFFFF0 = line_of (a - tid * TILE_SPACING) + tid * TILE_SPACING"
proof -
  have t: "take_bit 4 (tid * TILE_SPACING) = 0"
  proof -
    have "TILE_SPACING = push_bit 28 1" by (simp add: TILE_SPACING_def push_bit_eq_mult)
    then have "tid * TILE_SPACING = push_bit 28 tid" by (simp add: push_bit_eq_mult)
    then show ?thesis by (simp only: take_bit_push_bit) simp
  qed
  have plus: "take_bit 4 (x + tid * TILE_SPACING) = take_bit 4 x" for x
  proof -
    have "take_bit 4 (uint (tid * TILE_SPACING)) = uint (take_bit 4 (tid * TILE_SPACING))"
      by (simp only: unsigned_take_bit_eq)
    then have z: "take_bit 4 (uint (tid * TILE_SPACING)) = 0" unfolding t by simp
    have "take_bit 4 (uint x + uint (tid * TILE_SPACING)) = take_bit 4 (uint x)"
      using take_bit_add [of 4 "uint x" "uint (tid * TILE_SPACING)"] unfolding z by simp
    moreover have "take_bit 4 (uint (x + tid * TILE_SPACING)) = take_bit 4 (uint x + uint (tid * TILE_SPACING))"
      by (simp only: uint_word_ariths(1) take_bit_eq_mod) (simp add: mod_mod_cancel)
    ultimately show ?thesis by (simp only: word_uint_eq_iff unsigned_take_bit_eq)
  qed
  show d: "take_bit 4 (a - tid * TILE_SPACING) = take_bit 4 a"
    using plus [of "a - tid * TILE_SPACING"] by simp
  have l: "line_of x = x - take_bit 4 x" for x using line_split [of x] by (metis add_diff_cancel_right')
  have s: "line_of (x + tid * TILE_SPACING) = line_of x + tid * TILE_SPACING" for x
    unfolding l plus by (simp only: diff_conv_add_uminus ac_simps)
  have "(0xFFFFFFF0 :: u32) = NOT (mask 4)" by (simp add: mask_eq_exp_minus_1)
  then show "(a - tid * TILE_SPACING + tid * TILE_SPACING) AND 0xFFFFFFF0 = line_of (a - tid * TILE_SPACING) + tid * TILE_SPACING"
    unfolding s [symmetric] by (simp only: line_of_def)
  then show "a AND 0xFFFFFFF0 = line_of (a - tid * TILE_SPACING) + tid * TILE_SPACING"
    by (simp only: diff_add_cancel)
qed

lemma handle_request_fetches:
  assumes c: "cache_shows k mem c" and p: "fetch_ok (TID c) p"
  shows "\<exists>c'. handle_request mem rnd p c = Inr (fetch mem p, c') \<and> cache_shows k mem c' \<and> TID c' = TID c"
proof -
  let ?r = "target_rpu c" and ?a = "p_address p - TID c * TILE_SPACING" and ?n = "unat (p_burst p)"
  have r: "rpu_cfg k ?r" "holds_memory mem (TID c) ?r" "Ch_replace_type ?r \<le> 2" "\<not> CL_CACHE_METRIC c"
    using c by (auto simp: cache_shows_def)
  have w: "word_no ?a = word_no (p_address p)" unfolding word_no_def tile_offset(1) ..
  have "take_bit 2 ?a = take_bit 2 (take_bit 4 ?a)" by simp
  also have "\<dots> = 0" unfolding tile_offset(1) using p by (simp add: fetch_ok_def)
  finally have al: "take_bit 2 ?a = 0" .
  have n: "word_no ?a + ?n \<le> 4" using p w by (simp add: fetch_ok_def)
  have out: "map (\<lambda>i. mem (?a + of_nat (4 * i) + TID c * TILE_SPACING)) [0..<?n] = fetch mem p"
    by (simp add: fetch_def algebra_simps)
  have keep: "cache_shows k mem (c\<lparr>target_rpu := r'\<rparr>)"
    if "rpu_cfg k r'" "holds_memory mem (TID c) r'" "same_config ?r r'" for r'
    using that r by (simp add: cache_shows_def same_config_def)
  have start: "handle_request mem rnd p c = res_bind (check_exist ?r ?a) (\<lambda>ind. case ind of
        Some i \<Rightarrow> res_map (\<lambda>(ds, r). (ds, c\<lparr>target_rpu := r\<rparr>)) (hit_beats 0 i 0 ?n ?a ?r)
      | None \<Rightarrow>
          res_bind (if Ch_assoc_num ?r \<noteq> 0 then where_to rnd ?r (get_index (rpu_address ?r) ?a) else Inr 0) (\<lambda>loc.
          res_bind (read_from_mem mem (TID c) (line_of ?a + TID c * TILE_SPACING) 4 loc ?r) (\<lambda>r.
          res_bind (check_exist r ?a) (\<lambda>ind.
          res_map (\<lambda>(ds, r). (ds, c\<lparr>target_rpu := r\<rparr>))
            (case ind of Some i \<Rightarrow> miss_beats i ?n ?a r
             | None \<Rightarrow> if ?n = 0 then Inr ([], r) else Inl FUndef)))))"
  proof -
    have f: "p_benable p" "\<not> p_rw p" "p_bw p = 0" "\<not> 0x19000000 \<le> ?a"
      using p by (simp_all add: fetch_ok_def not_le)
    show ?thesis
      unfolding handle_request_def Let_def
      by (simp only: tile_offset(2) f r(4) simp_thms if_True if_False not_True_eq_False not_False_eq_True res_bind.simps)
  qed
  obtain x where x: "check_exist ?r ?a = Inr x" using check_exist_cases [OF r(1)] by blast
  show ?thesis
  proof (cases x)
    case (Some i)
    then have "way_ok (Ch_assoc_num ?r) i" "record_hits (get_tag (rpu_address ?r) ?a) (record_of ?r i ?a)"
      using check_exist_cases [OF r(1), of ?a] x by auto
    then obtain r' where "hit_beats 0 i 0 ?n ?a ?r = Inr (fetch mem p, r')"
      "rpu_cfg k r'" "holds_memory mem (TID c) r'" "same_config ?r r'"
      using beats_of_line [OF r(1,2) _ _ al n, of i 0] unfolding out by blast
    then show ?thesis using keep by (simp add: start x Some)
  next
    case None
    obtain loc where loc: "(if Ch_assoc_num ?r \<noteq> 0 then where_to rnd ?r (get_index (rpu_address ?r) ?a) else Inr 0) = Inr loc"
      "way_ok (Ch_assoc_num ?r) loc"
      using where_to_way [OF r(1,3), of rnd "get_index (rpu_address ?r) ?a"]
      by (cases "Ch_assoc_num ?r = 0") (auto simp: way_ok_def)
    obtain r1 i where r1: "read_from_mem mem (TID c) (line_of ?a + TID c * TILE_SPACING) 4 loc ?r = Inr r1"
      "rpu_cfg k r1" "same_config ?r r1" "holds_memory mem (TID c) r1" "check_exist r1 ?a = Inr (Some i)"
      using refill [OF r(1) loc(2) _ r(2), of ?a] x None by blast
    then have "way_ok (Ch_assoc_num r1) i" "record_hits (get_tag (rpu_address r1) ?a) (record_of r1 i ?a)"
      using check_exist_cases [OF r1(2), of ?a] by auto
    then obtain r' where m: "miss_beats i ?n ?a r1 = Inr (fetch mem p, r')"
      "rpu_cfg k r'" "holds_memory mem (TID c) r'" "same_config r1 r'"
      using beats_of_line [OF r1(2,4) _ _ al n, of i 0] unfolding out by blast
    have "handle_request mem rnd p c = Inr (fetch mem p, c\<lparr>target_rpu := r'\<rparr>)"
      unfolding start x None res_bind.simps option.case loc(1) r1(1) r1(5) m(1) res_map.simps prod.case ..
    then show ?thesis using keep [of r'] m r1(3) by (simp add: same_config_def)
  qed
qed

text \<open>What happens to a cache: a fetch, with what \<open>rand()\<close> would return, and a reset.\<close>

datatype cache_op = Fetch nat pinout | Reset

definition reset_cache :: "cache_module \<Rightarrow> cache_module" where
  "reset_cache c = c\<lparr>target_rpu := (target_rpu c)\<lparr>storing := storage_reset (storing (target_rpu c))\<rparr>\<rparr>"

fun serve :: "(addr \<Rightarrow> u32) \<Rightarrow> cache_op list \<Rightarrow> cache_module \<Rightarrow> (u32 list list \<times> cache_module) res" where
  "serve mem [] c = Inr ([], c)"
| "serve mem (Fetch rnd p # ops) c =
     res_bind (handle_request mem rnd p c) (\<lambda>(ws, c).
     res_map (\<lambda>(out, c). (ws # out, c)) (serve mem ops c))"
| "serve mem (Reset # ops) c = serve mem ops (reset_cache c)"

definition new_cache :: "u32 \<Rightarrow> u32 \<Rightarrow> nat \<Rightarrow> nat \<Rightarrow> (nat \<Rightarrow> cache_record list) \<Rightarrow> u32 \<Rightarrow> cache_module" where
  "new_cache sz line assoc repl recs tid =
     \<lparr>target_rpu = new_rpu sz line assoc repl recs, TID = tid, CL_CACHE_METRIC = False, misses = new_miss_table\<rparr>"

lemma shaped_reset: "shaped assoc l (storage_reset st) = shaped assoc l st"
  by (cases st) auto

lemma way_reset:
  "shaped assoc l st \<Longrightarrow> way_ok assoc w \<Longrightarrow> i < l \<Longrightarrow>
     way (storage_reset st) w ! i = (way st w ! i)\<lparr>Ch_Valid := 0\<rparr>"
  by (cases st) (auto simp: way_ok_def)

lemma reset_shows:
  assumes "rpu_cfg k r"
  shows "rpu_cfg k (r\<lparr>storing := storage_reset (storing r)\<rparr>)"
    "holds_memory mem tid (r\<lparr>storing := storage_reset (storing r)\<rparr>)"
proof -
  have sh: "shaped (Ch_assoc_num r) (2 ^ (k - 4)) (storing r)" using assms by (simp add: rpu_cfg_def)
  show "rpu_cfg k (r\<lparr>storing := storage_reset (storing r)\<rparr>)"
    using assms way_reset [OF sh] by (auto simp: rpu_cfg_def shaped_reset)
  have "unat (get_index (rpu_address r) a) < 2 ^ (k - 4)" for a
    using assms index_in_range by (auto simp: rpu_cfg_def)
  then show "holds_memory mem tid (r\<lparr>storing := storage_reset (storing r)\<rparr>)"
    using way_reset [OF sh] by (auto simp: holds_memory_def record_of_def record_hits_def)
qed

lemma serve_fetches:
  assumes "cache_shows k mem c" "\<forall>rnd p. Fetch rnd p \<in> set ops \<longrightarrow> fetch_ok (TID c) p"
  shows "\<exists>c'. serve mem ops c = Inr (concat (map (\<lambda>op. case op of Fetch rnd p \<Rightarrow> [fetch mem p] | Reset \<Rightarrow> []) ops), c') \<and>
    cache_shows k mem c'"
  using assms
proof (induction ops arbitrary: c)
  case (Cons op ops)
  show ?case
  proof (cases op)
    case (Fetch rnd p)
    then obtain c1 where c1: "handle_request mem rnd p c = Inr (fetch mem p, c1)" "cache_shows k mem c1" "TID c1 = TID c"
      using handle_request_fetches [OF Cons.prems(1), of p rnd] Cons.prems(2) by auto
    obtain c2 where "serve mem ops c1 = Inr (concat (map (\<lambda>op. case op of Fetch rnd p \<Rightarrow> [fetch mem p] | Reset \<Rightarrow> []) ops), c2)"
      "cache_shows k mem c2"
      using Cons.IH [OF c1(2)] Cons.prems(2) c1(3) by auto
    then show ?thesis using c1 Fetch by simp
  next
    case Reset
    have "cache_shows k mem (reset_cache c)"
      using Cons.prems(1) reset_shows by (auto simp: cache_shows_def reset_cache_def)
    then show ?thesis using Cons.IH [of "reset_cache c"] Cons.prems(2) Reset by (simp add: reset_cache_def)
  qed
qed simp

lemma new_geometry:
  assumes "4 \<le> k" "k < 32" "assoc = 0 \<or> 1 < assoc" "2 ^ k * max 1 assoc < (4294967296 :: nat)"
  shows "new_cache_address (of_nat (2 ^ k * max 1 assoc)) 16 assoc = geometry k"
proof -
  have p: "(of_nat (2 ^ k) :: u32) = 2 ^ k" by simp
  have m: "(2 :: u32) ^ k - 1 = mask k" "(16 :: u32) - 1 = mask 4"
    by (simp_all add: mask_eq_exp_minus_1)
  show ?thesis
  proof (cases "assoc = 0")
    case True
    then show ?thesis unfolding new_cache_address_def geometry_def Let_def
      by (simp only: True max_0R max_def simp_thms if_True if_False mult_1_right p m) (simp add: mask_eq_exp_minus_1)
  next
    case False
    then have n: "1 < assoc" "max 1 assoc = assoc" using assms(3) by auto
    have lt: "assoc < 4294967296" "2 ^ k < (4294967296 :: nat)"
      using assms(4) n by (auto elim: order.strict_trans1 [rotated])
    have "unat ((of_nat (2 ^ k * assoc) :: u32) div of_nat assoc) = 2 ^ k"
      using assms(4) n lt by (simp add: unat_div unat_of_nat32 del: of_nat_mult of_nat_power)
    then have "(of_nat (2 ^ k * assoc) :: u32) div of_nat assoc = of_nat (2 ^ k)"
      using lt by (simp add: word_unat_eq_iff unat_of_nat32 del: of_nat_power)
    then show ?thesis using n(1) unfolding new_cache_address_def geometry_def Let_def n(2)
      by (simp only: p m if_True)
  qed
qed


text \<open>What the arrays of records may hold before the storage clears their valid flags.\<close>

definition fresh_records :: "nat \<Rightarrow> nat \<Rightarrow> (nat \<Rightarrow> cache_record list) \<Rightarrow> bool" where
  "fresh_records k n recs \<longleftrightarrow> (\<forall>w<n. length (recs w) = 2 ^ (k - 4) \<and> (\<forall>rec \<in> set (recs w). length (Ch_Data rec) = 4))"

lemma new_cache_shows:
  assumes "4 \<le> k" "k < 32" "assoc = 0 \<or> 1 < assoc" "2 ^ k * max 1 assoc < (4294967296 :: nat)" "repl \<le> 2"
    "fresh_records k (max 1 assoc) recs"
  shows "cache_shows k mem (new_cache (of_nat (2 ^ k * max 1 assoc)) 16 assoc repl recs tid)"
proof -
  let ?st = "if assoc = 0 then Direct (recs 0) else Sets (map recs [0..<assoc])"
  have st: "(if assoc = 0 then Direct (recs 0) else if assoc = 1 then Full (recs 0) else Sets (map recs [0..<assoc])) = ?st"
    using assms(3) by auto
  have sh: "shaped assoc (2 ^ (k - 4)) ?st"
    using assms(3,6) by (auto simp: fresh_records_def)
  have len: "length (Ch_Data (way ?st w ! i)) = 4" if "way_ok assoc w" "i < 2 ^ (k - 4)" for w i
    using that assms(3,6) by (auto simp: fresh_records_def way_ok_def)
  let ?r = "(new_rpu (of_nat (2 ^ k * max 1 assoc)) 16 assoc repl recs)\<lparr>storing := ?st\<rparr>"
  have "rpu_cfg k ?r" using assms(1,2) sh len new_geometry [OF assms(1-4)]
    by (simp add: rpu_cfg_def new_rpu_def)
  note reset_shows [OF this]
  moreover have "?r\<lparr>storing := storage_reset (storing ?r)\<rparr> = new_rpu (of_nat (2 ^ k * max 1 assoc)) 16 assoc repl recs"
    by (simp add: new_rpu_def st)
  ultimately show ?thesis using assms(5) by (simp add: cache_shows_def new_cache_def new_rpu_def)
qed

text \<open>C7: the direct and the set associative cache refine the memory: from the state the constructor
  leaves, with any contents of the arrays, and for every sequence of resets and of aligned fetches
  that stay in a line, every fetch returns the words of the memory at its addresses, whichever
  replacement policy is chosen and whatever \<open>rand()\<close> returns.\<close>

theorem cache_refines_memory:
  assumes "4 \<le> k" "k < 32" "assoc = 0 \<or> 1 < assoc" "2 ^ k * max 1 assoc < (4294967296 :: nat)" "repl \<le> 2"
    and "fresh_records k (max 1 assoc) recs" "\<forall>rnd p. Fetch rnd p \<in> set ops \<longrightarrow> fetch_ok tid p"
  shows "res_map fst (serve mem ops (new_cache (of_nat (2 ^ k * max 1 assoc)) 16 assoc repl recs tid)) =
    Inr (concat (map (\<lambda>op. case op of Fetch rnd p \<Rightarrow> [fetch mem p] | Reset \<Rightarrow> []) ops))"
proof -
  let ?c = "new_cache (of_nat (2 ^ k * max 1 assoc)) 16 assoc repl recs tid"
  have "\<forall>rnd p. Fetch rnd p \<in> set ops \<longrightarrow> fetch_ok (TID ?c) p"
    using assms(7) by (simp add: new_cache_def)
  then obtain c' where
    "serve mem ops ?c = Inr (concat (map (\<lambda>op. case op of Fetch rnd p \<Rightarrow> [fetch mem p] | Reset \<Rightarrow> []) ops), c')"
    using serve_fetches [OF new_cache_shows [OF assms(1-6)]] by blast
  then show ?thesis by (simp only: res_map.simps fst_conv)
qed

definition demo_records :: "nat \<Rightarrow> cache_record list" where
  "demo_records w = replicate 4 \<lparr>Ch_Data = [7, 7, 7, 7], Ch_Tag = 1, Ch_Valid = 1, Ch_Dirty = 0\<rparr>"

theorem cache_refines_memory_witness:
  "res_map fst (serve (\<lambda>a. a + 5) [Fetch 1 (word_read 0x40), Reset, Fetch 0 (word_read 0x48), Fetch 0 (word_read 0x4C)]
      (new_cache 128 16 2 2 demo_records 0)) = Inr [[0x45], [0x4D], [0x51]]"
proof -
  have "fresh_records 6 (max 1 2) demo_records" by (simp add: fresh_records_def demo_records_def)
  moreover have "fetch_ok 0 (word_read a)" if "a \<in> {0x40, 0x48, 0x4C}" for a
    using that by (auto simp: fetch_ok_def word_no_def word_read_def new_pinout_def take_bit_eq_mod drop_bit_eq_div)
  moreover have n: "(of_nat (2 ^ 6 * max 1 2) :: u32) = 128" by simp
  moreover define ops where "ops = [Fetch 1 (word_read 0x40), Reset, Fetch 0 (word_read 0x48), Fetch 0 (word_read 0x4C)]"
  ultimately have "res_map fst (serve (\<lambda>a. a + 5) ops (new_cache (of_nat (2 ^ 6 * max 1 2)) 16 2 2 demo_records 0)) =
      Inr (concat (map (\<lambda>op. case op of Fetch rnd p \<Rightarrow> [fetch (\<lambda>a. a + 5) p] | Reset \<Rightarrow> []) ops))"
    by (intro cache_refines_memory) (simp_all add: ops_def, blast?)
  also have "concat (map (\<lambda>op. case op of Fetch rnd p \<Rightarrow> [fetch (\<lambda>a. a + 5) p] | Reset \<Rightarrow> []) ops) = [[0x45], [0x4D], [0x51]]"
    by (simp add: ops_def fetch_def)
  finally show ?thesis unfolding n ops_def .
qed


section \<open>Replacement\<close>

lemma scan_best_Suc:
  "0 < n \<Longrightarrow> scan_best better (Suc n) = (if better n (scan_best better n) then n else scan_best better n)"
  by (simp add: scan_best_def)

text \<open>The scan for the oldest returns the first of the lines with the greatest age.\<close>

lemma scan_oldest:
  fixes info :: "nat \<Rightarrow> u32"
  assumes "0 < n"
  defines "m \<equiv> scan_best (\<lambda>i t. info t < info i) n"
  shows "m < n \<and> (\<forall>i<n. info i < info m \<or> info i = info m \<and> m \<le> i)"
  using assms(1) unfolding m_def
proof (induction n rule: nat_induct_non_zero)
  case 1
  then show ?case by (simp add: scan_best_def)
next
  case (Suc n)
  then show ?case by (auto simp: scan_best_Suc less_Suc_eq)
qed

text \<open>The reference: the ways in the order of their last use, the latest first.\<close>

definition use_way :: "nat \<Rightarrow> nat list \<Rightarrow> nat list" where
  "use_way i ws = i # remove1 i ws"

definition newer :: "(nat \<Rightarrow> u32) \<Rightarrow> nat \<Rightarrow> nat \<Rightarrow> bool" where
  "newer info i j \<longleftrightarrow> info i < info j \<or> info i = info j \<and> j < i"

definition lru_order :: "nat \<Rightarrow> nat \<Rightarrow> nat \<Rightarrow> rpu \<Rightarrow> nat list \<Rightarrow> bool" where
  "lru_order n ix b r ws \<longleftrightarrow> Ch_assoc_num r = n \<and> set ws = {..<n} \<and>
     sorted_wrt (newer (\<lambda>w. Ch_info r w ix)) ws \<and> (\<forall>w<n. unat (Ch_info r w ix) \<le> b)"

lemma lru_order_touch:
  assumes "lru_order n ix b r ws" "i < n" "b + 1 < 4294967296"
  shows "lru_order n ix (b + 1) (touch_way i ix r) (use_way i ws)"
proof -
  let ?f = "\<lambda>w. Ch_info r w ix" and ?g = "\<lambda>w. Ch_info (touch_way i ix r) w ix"
  have a: "Ch_assoc_num r = n" "set ws = {..<n}" "sorted_wrt (newer ?f) ws" "\<forall>w<n. unat (?f w) \<le> b"
    using assms(1) by (auto simp: lru_order_def)
  have u: "unat (?f w + 1) = unat (?f w) + 1" if "w < n" for w
  proof -
    have "unat (?f w) + 1 < 4294967296" using a(4) that assms(3) by fastforce
    then have "(unat (?f w) + 1) mod 2 ^ 32 = unat (?f w) + 1" by (intro mod_less) simp
    then show ?thesis by (simp add: unat_word_ariths)
  qed
  have g: "?g w = (if w = i then 0 else ?f w + 1)" if "w < n" for w
    using that a(1) by (simp add: touch_way_def)
  have irr: "\<not> newer ?f x x" for x by (simp add: newer_def)
  have "distinct ws"
    using a(3) irr by (induction ws) auto
  then have s: "set (remove1 i ws) = {..<n} - {i}" using a(2) by simp
  have "newer ?g i x" if "x \<in> set (remove1 i ws)" for x
    using that s u [of x] g [of x] g [OF assms(2)] by (auto simp: newer_def word_less_unat)
  moreover have "sorted_wrt (newer ?f) (remove1 i ws)"
    using a(3) by (induction ws) (auto dest: notin_set_remove1 intro: ccontr)
  then have "sorted_wrt (newer ?g) (remove1 i ws)"
  proof (rule sorted_wrt_mono_rel [rotated])
    fix x y assume xy: "x \<in> set (remove1 i ws)" "y \<in> set (remove1 i ws)" "newer ?f x y"
    then have "x < n" "y < n" "x \<noteq> i" "y \<noteq> i" using s by auto
    then show "newer ?g x y" using xy(3) g u by (auto simp: newer_def word_less_unat word_unat_eq_iff)
  qed
  moreover have "set (use_way i ws) = {..<n}" using s assms(2) by (auto simp: use_way_def)
  moreover have "unat (?g w) \<le> b + 1" if "w < n" for w using that g u a(4) by auto
  ultimately show ?thesis using a(1) by (simp add: lru_order_def use_way_def touch_way_def)
qed

lemma lru_order_touches:
  assumes "lru_order n ix b r ws" "\<forall>i \<in> set is. i < n" "b + length is < 4294967296"
  shows "lru_order n ix (b + length is) (fold (\<lambda>i. touch_way i ix) is r) (fold use_way is ws)"
  using assms
proof (induction "is" arbitrary: b r ws)
  case (Cons i "is")
  then have "lru_order n ix (b + 1) (touch_way i ix r) (use_way i ws)" by (intro lru_order_touch) auto
  then show ?case using Cons.IH [of "b + 1"] Cons.prems by simp
qed simp

lemma lru_order_last:
  assumes "lru_order n ix b r ws" "0 < n"
  shows "scan_best (\<lambda>i t. Ch_info r t ix < Ch_info r i ix) n = last ws"
proof -
  let ?f = "\<lambda>w. Ch_info r w ix" and ?m = "scan_best (\<lambda>i t. Ch_info r t ix < Ch_info r i ix) n"
  have a: "set ws = {..<n}" "sorted_wrt (newer ?f) ws" using assms(1) by (auto simp: lru_order_def)
  have "0 \<in> set ws" unfolding a(1) using assms(2) by simp
  then have ne: "ws \<noteq> []" by (rule list.set_cases) simp_all
  have m: "?m < n" "\<forall>i<n. ?f i < ?f ?m \<or> ?f i = ?f ?m \<and> ?m \<le> i" using scan_oldest [OF assms(2), of ?f] by blast+
  have ws: "ws = butlast ws @ [last ws]" using ne by (rule append_butlast_last_id [symmetric])
  have l: "last ws < n" using a(1) ne last_in_set by blast
  show ?thesis
  proof (rule ccontr)
    assume d: "?m \<noteq> last ws"
    have "?m \<in> set ws" using a(1) m(1) by simp
    moreover have "set ws = set (butlast ws) \<union> {last ws}" by (subst ws) simp
    ultimately have "?m \<in> set (butlast ws)" using d by simp
    moreover have "sorted_wrt (newer ?f) (butlast ws @ [last ws])" by (subst ws [symmetric]) (rule a(2))
    ultimately have "newer ?f ?m (last ws)" by (simp add: sorted_wrt_append)
    then show False using m(2) [rule_format, OF l] unfolding newer_def by (metis less_asym' not_le less_irrefl)
  qed
qed

text \<open>C28: with the policy for the least recently used, the way that is replaced is the last of the
  ways listed in the order of their last use, ways never used counting as used in descending order
  before all others, for any sequence of uses that the 32-bit ages can count.\<close>

theorem lru_replaces_least_recent:
  assumes "Ch_replace_type r = 2" "Ch_assoc_num r = n" "1 < n" "\<forall>w<n. Ch_info r w (unat index) = 99999"
    and "\<forall>i \<in> set uses. i < n" "length uses < 4294800000"
  shows "where_to rnd (fold (\<lambda>i. touch_way i (unat index)) uses r) index =
    Inr (last (fold use_way uses (rev [0..<n])))"
proof -
  let ?r = "fold (\<lambda>i. touch_way i (unat index)) uses r"
  have "sorted_wrt (newer (\<lambda>w. Ch_info r w (unat index))) (rev [0..<n])"
    using assms(4) by (auto simp: sorted_wrt_iff_nth_less newer_def rev_nth)
  then have "lru_order n (unat index) 99999 r (rev [0..<n])"
    using assms(2,4) by (auto simp: lru_order_def)
  then have o: "lru_order n (unat index) (99999 + length uses) ?r (fold use_way uses (rev [0..<n]))"
    using assms(5,6) by (intro lru_order_touches) auto
  have "Ch_replace_type ?r = 2 \<and> Ch_assoc_num ?r = n"
    using assms(1,2) by (induction uses arbitrary: r) (simp_all add: touch_way_def)
  then show ?thesis using lru_order_last [OF o] assms(3) by (simp add: where_to_def Let_def)
qed

theorem lru_replaces_least_recent_witness:
  "where_to 0 (fold (\<lambda>i. touch_way i 3) [2, 0, 3, 2, 0, 1, 3] (new_rpu 4096 16 4 2 demo_records)) 3 = Inr 2"
  using lru_replaces_least_recent [of "new_rpu 4096 16 4 2 demo_records" 4 3 "[2, 0, 3, 2, 0, 1, 3]" 0]
  by (simp add: new_rpu_def use_way_def upt_rec)

section \<open>The table of misses\<close>

fun record_misses :: "u32 list \<Rightarrow> miss_table \<Rightarrow> miss_table res" where
  "record_misses [] t = Inr t"
| "record_misses (a # as) t = res_bind (record_miss a t) (record_misses as)"

lemma record_misses_snoc:
  "record_misses (as @ [a]) t = res_bind (record_misses as t) (record_miss a)"
proof (induction as arbitrary: t)
  case Nil
  then show ?case by (cases "record_miss a t") simp_all
next
  case (Cons b as)
  then show ?case by (cases "record_miss b t") simp_all
qed

lemma find_miss_none:
  "(\<forall>i \<in> set is. i < length tbl \<and> fst (tbl ! i) \<noteq> a) \<Longrightarrow> find_miss tbl a is = Inr None"
  by (induction "is") auto

lemma find_miss_append:
  "(\<forall>i \<in> set is. i < length tbl \<and> fst (tbl ! i) \<noteq> a) \<Longrightarrow> find_miss tbl a (is @ js) = find_miss tbl a js"
  by (induction "is") auto

lemma find_miss_at:
  assumes "k < n" "k < length tbl" "fst (tbl ! k) = a" "\<forall>i<k. fst (tbl ! i) \<noteq> a"
  shows "find_miss tbl a [0..<n] = Inr (Some k)"
proof -
  have "[0..<n] = [0..<k] @ k # [Suc k..<n]" using assms(1) upt_add_eq_append [of 0 k "n - k"] by (simp add: upt_conv_Cons)
  then show ?thesis using assms find_miss_append [of "[0..<k]" tbl a] by auto
qed

text \<open>The table after the misses of \<open>as\<close>: an entry per address in the order of the first misses,
  with the number of its misses.\<close>

definition miss_entries :: "u32 list \<Rightarrow> u32 list \<Rightarrow> (u32 \<times> nat) list" where
  "miss_entries ds as = map (\<lambda>d. (d, count_list as d)) ds"

definition misses_counted :: "u32 list \<Rightarrow> miss_table \<Rightarrow> bool" where
  "misses_counted as t \<longleftrightarrow> (\<exists>ds. set ds = set as \<and> distinct ds \<and>
     miss_addr_tbl t = miss_entries ds as @ replicate (MAX_MISS_SIZE - length ds) (0xFFFFFFFF, 0) \<and>
     tbl_index t = length ds \<and> num_miss t = length as \<and> cold_miss t = length ds \<and>
     cap_miss t = length as - length ds)"

lemma misses_counted_step:
  assumes "misses_counted as t" "length as < MAX_MISS_SIZE" "a \<noteq> 0xFFFFFFFF"
  shows "\<exists>t'. record_miss a t = Inr t' \<and> misses_counted (as @ [a]) t'"
proof -
  obtain ds where ds: "set ds = set as" "distinct ds"
    "miss_addr_tbl t = miss_entries ds as @ replicate (MAX_MISS_SIZE - length ds) (0xFFFFFFFF, 0)"
    "tbl_index t = length ds" "num_miss t = length as" "cold_miss t = length ds" "cap_miss t = length as - length ds"
    using assms(1) unfolding misses_counted_def by blast
  let ?tbl = "miss_addr_tbl t"
  have le: "length ds \<le> length as" using ds(1,2) by (metis card_length distinct_card)
  have len: "length ?tbl = MAX_MISS_SIZE" using le assms(2) by (simp add: ds(3) miss_entries_def)
  have nth: "?tbl ! i = (if i < length ds then (ds ! i, count_list as (ds ! i)) else (0xFFFFFFFF, 0))"
    if "i < MAX_MISS_SIZE" for i
    using that le assms(2) by (simp add: ds(3) miss_entries_def nth_append)
  show ?thesis
  proof (cases "a \<in> set as")
    case True
    then obtain k where k: "k < length ds" "ds ! k = a" using ds(1) by (metis in_set_conv_nth)
    have kM: "k < MAX_MISS_SIZE" using k le assms(2) by simp
    have ka: "?tbl ! k = (a, count_list as a)" using nth [OF kM] k by simp
    have first: "fst (?tbl ! i) \<noteq> a" if "i < k" for i
    proof -
      have "ds ! i \<noteq> a" using that k ds(2) by (metis less_trans nat_neq_iff nth_eq_iff_index_eq)
      then show ?thesis using that k nth [of i] kM by simp
    qed
    have f: "find_miss ?tbl a [0..<num_miss t + 1] = Inr (Some k)"
      using k kM le ka first by (intro find_miss_at) (auto simp: len ds(5))
    have c: "0 < count_list as a" using True by (simp add: count_list_0_iff neq0_conv [symmetric] del: neq0_conv)
    let ?t' = "t\<lparr>num_miss := num_miss t + 1, miss_addr_tbl := ?tbl[k := (a, count_list as a + 1)],
      cap_miss := cap_miss t + 1\<rparr>"
    have "record_miss a t = Inr ?t'"
      using c by (simp add: record_miss_def Let_def f [simplified] ka)
    moreover have "?tbl[k := (a, count_list as a + 1)] =
        miss_entries ds (as @ [a]) @ replicate (MAX_MISS_SIZE - length ds) (0xFFFFFFFF, 0)"
    proof (rule nth_equalityI)
      fix i assume i: "i < length (?tbl[k := (a, count_list as a + 1)])"
      then have iM: "i < MAX_MISS_SIZE" by (simp add: len)
      have "ds ! i = a \<longleftrightarrow> i = k" if "i < length ds" using that k ds(2) by (metis nth_eq_iff_index_eq)
      then show "?tbl[k := (a, count_list as a + 1)] ! i =
          (miss_entries ds (as @ [a]) @ replicate (MAX_MISS_SIZE - length ds) (0xFFFFFFFF, 0)) ! i"
        using nth [OF iM] iM k le assms(2) len by (auto simp: nth_list_update miss_entries_def nth_append)
    qed (use le assms(2) in \<open>simp add: len miss_entries_def\<close>)
    ultimately show ?thesis using True ds le by (auto simp: misses_counted_def intro!: exI [of _ ds])
  next
    case False
    have "fst (?tbl ! i) \<noteq> a" if "i < MAX_MISS_SIZE" for i
      using nth [OF that] False assms(3) ds(1) by (auto simp: set_conv_nth)
    then have f: "find_miss ?tbl a [0..<num_miss t + 1] = Inr None"
      using assms(2) by (intro find_miss_none) (auto simp: len ds(5))
    have dM: "length ds < MAX_MISS_SIZE" using le assms(2) by simp
    let ?t' = "t\<lparr>num_miss := num_miss t + 1, miss_addr_tbl := ?tbl[length ds := (a, 1)],
      cold_miss := cold_miss t + 1, tbl_index := length ds + 1\<rparr>"
    have "record_miss a t = Inr ?t'"
      using dM nth [OF dM] by (simp add: record_miss_def Let_def f [simplified] ds(4) len)
    moreover have "?tbl[length ds := (a, 1)] =
        miss_entries (ds @ [a]) (as @ [a]) @ replicate (MAX_MISS_SIZE - length (ds @ [a])) (0xFFFFFFFF, 0)"
    proof (rule nth_equalityI)
      fix i assume i: "i < length (?tbl[length ds := (a, 1)])"
      then have iM: "i < MAX_MISS_SIZE" by (simp add: len)
      have c: "count_list as a = 0" using False by (simp add: count_list_0_iff)
      consider "i < length ds" | "i = length ds" | "length ds < i" by linarith
      then show "?tbl[length ds := (a, 1)] ! i =
          (miss_entries (ds @ [a]) (as @ [a]) @ replicate (MAX_MISS_SIZE - length (ds @ [a])) (0xFFFFFFFF, 0)) ! i"
      proof cases
        case 1
        then have "ds ! i \<noteq> a" using False ds(1) nth_mem [OF 1] by auto
        then show ?thesis using 1 nth [OF iM] by (simp add: miss_entries_def nth_append)
      next
        case 2
        then show ?thesis using c dM by (simp add: len miss_entries_def nth_append)
      next
        case 3
        then show ?thesis using nth [OF iM] iM by (simp add: miss_entries_def nth_append)
      qed
    qed (use dM in \<open>simp add: len miss_entries_def\<close>)
    moreover have "set (ds @ [a]) = set (as @ [a])" "distinct (ds @ [a])" using False ds(1,2) by simp_all
    moreover have "length as + 1 - (length ds + 1) = cap_miss t" using ds(7) by simp
    ultimately show ?thesis using ds(5,6) unfolding misses_counted_def
      by (intro exI [of _ ?t'] conjI exI [of _ "ds @ [a]"]) simp_all
  qed
qed

lemma misses_counted_all:
  assumes "length as \<le> MAX_MISS_SIZE" "0xFFFFFFFF \<notin> set as"
  shows "\<exists>t. record_misses as new_miss_table = Inr t \<and> misses_counted as t"
  using assms
proof (induction as rule: rev_induct)
  case Nil
  then show ?case by (simp add: misses_counted_def new_miss_table_def miss_entries_def)
next
  case (snoc a as)
  then obtain t where "record_misses as new_miss_table = Inr t" "misses_counted as t" by auto
  then show ?case using misses_counted_step [of as t a] snoc.prems by (simp add: record_misses_snoc)
qed

text \<open>The counters of misses: after up to 4000 misses, none at the address of the empty entries,
  the first misses of an address have been counted as cold and all others as capacity misses.\<close>

theorem miss_counters:
  assumes "length as \<le> MAX_MISS_SIZE" "0xFFFFFFFF \<notin> set as"
  shows "\<exists>t. record_misses as new_miss_table = Inr t \<and> num_miss t = length as \<and>
     cold_miss t = card (set as) \<and> cap_miss t = length as - card (set as)"
  using misses_counted_all [OF assms] unfolding misses_counted_def by (metis distinct_card)

theorem miss_counters_witness:
  "\<exists>t. record_misses [0x40, 0x80, 0x40] new_miss_table = Inr t \<and> num_miss t = 3 \<and> cold_miss t = 2 \<and> cap_miss t = 1"
proof -
  have "card (set [0x40, 0x80, 0x40 :: u32]) = 2" by (simp add: card_insert_if)
  moreover have "length [0x40, 0x80, 0x40 :: u32] = 3" by simp
  ultimately show ?thesis using miss_counters [of "[0x40, 0x80, 0x40]"]
    by (simp only: MAX_MISS_SIZE_def) simp
qed

text \<open>The table of misses is read past its end at the first miss of a new address after 4000
  misses, however few addresses have missed.\<close>

theorem miss_table_overrun:
  assumes "length as = MAX_MISS_SIZE" "0xFFFFFFFF \<notin> set as" "a \<notin> set as" "a \<noteq> 0xFFFFFFFF"
  shows "record_misses (as @ [a]) new_miss_table = Inl FUndef"
proof -
  obtain t where t: "record_misses as new_miss_table = Inr t" "misses_counted as t"
    using misses_counted_all [of as] assms by auto
  then obtain ds where ds: "set ds = set as" "distinct ds"
    "miss_addr_tbl t = miss_entries ds as @ replicate (MAX_MISS_SIZE - length ds) (0xFFFFFFFF, 0)" "num_miss t = length as"
    unfolding misses_counted_def by blast
  have le: "length ds \<le> MAX_MISS_SIZE" using ds(1,2) assms(1) by (metis card_length distinct_card)
  have len: "length (miss_addr_tbl t) = MAX_MISS_SIZE" using le by (simp add: ds(3) miss_entries_def)
  have "fst (miss_addr_tbl t ! i) \<noteq> a" if "i < MAX_MISS_SIZE" for i
    using that assms(3,4) ds(1) by (auto simp: ds(3) miss_entries_def nth_append set_conv_nth)
  then have "find_miss (miss_addr_tbl t) a ([0..<MAX_MISS_SIZE] @ [MAX_MISS_SIZE]) = Inl FUndef"
    by (subst find_miss_append) (auto simp: len array_get_out)
  then have "record_miss a t = Inl FUndef"
    by (simp add: record_miss_def Let_def ds(4) assms(1))
  then show ?thesis by (simp add: record_misses_snoc t(1))
qed

theorem miss_table_overrun_witness:
  "record_misses (replicate MAX_MISS_SIZE 0x40 @ [0x80]) new_miss_table = Inl FUndef"
  by (rule miss_table_overrun) simp_all


section \<open>Stale tags\<close>

definition zero_records :: "nat \<Rightarrow> cache_record list" where
  "zero_records w = replicate 2 \<lparr>Ch_Data = [0, 0, 0, 0], Ch_Tag = 0, Ch_Valid = 0, Ch_Dirty = 0\<rparr>"

lemma full_cache_run:
  "res_map fst (serve (\<lambda>a. a) [Fetch 1 (word_read 0x10), Fetch 1 (word_read 0), Fetch 0 (word_read 0x20), Fetch 0 (word_read 0)]
     \<lparr>target_rpu = new_rpu 32 16 1 0 zero_records, TID = 0, CL_CACHE_METRIC = False, misses = m\<rparr>) =
   Inr [[0x10], [0], [0x20], [0x10]]"
  by code_simp

text \<open>The fully associative cache can return the words of another line: it looks a tag up without regard
  to the valid flag, so a line that is filled while an invalid record has its tag goes to that record, and
  the valid record that was chosen for it keeps its old words under the new tag. Here the
  records are zeroed and the last fetch, of the word at 0, returns the one at 16.\<close>

theorem full_cache_wrong_words:
  "res_map fst (serve (\<lambda>a. a) [Fetch 1 (word_read 0x10), Fetch 1 (word_read 0), Fetch 0 (word_read 0x20), Fetch 0 (word_read 0)]
     (new_cache 32 16 1 0 zero_records 0)) = Inr [[0x10], [0], [0x20], [0x10]]"
  unfolding new_cache_def by (rule full_cache_run)

end
