(* ===== verification/Hws.thy ===== *)
theory Hws
  imports Pinout
begin

text \<open>
  The hardware synchronizer (\<open>virtualsoc/src/cluster/cl_hws.cpp\<close>, \<open>cl_hws.h\<close>), its driver
  (\<open>support/simulator/hws_support.c\<close>) and the barrier of the runtime on top of it
  (\<open>libgomp/config/vsoc/bar_hws.c\<close>). The module has five threads that run at every clock edge. A
  thread reads the values the signals had at the edge (\<open>old\<close>) and writes the next ones, the
  last writer of a signal wins; the global arrays \<open>ARM11_STOP\<close>, \<open>ARM11_IDLE\<close> and the locals of a
  thread change at once. The order of the threads in a cycle is a parameter; SystemC starts the
  threads of an edge in the reverse order of their declaration. The simulator runs with the check
  for several writers of a signal switched off.
\<close>

section \<open>State\<close>

definition MAX_CORES :: nat where "MAX_CORES = 16"
definition MAX_SLAVES :: nat where "MAX_SLAVES = 16"

datatype program_machine_state = REQUEST_TYPE | REQUEST_ACC | ASK_EVENT | ASK_ACC | WAIT_EVENT | WAIT_ACC
  | MANAGE_EVENT | MANAGE_ACC | RELEASE_OR_FREE_EVENT | RELEASE_OR_FREE_ACC | RELEASE_EVENT | RELEASE_ACC

text \<open>The signals, the globals, and the locals of \<open>programme\<close>, \<open>signal\<close> and \<open>sync_mngr\<close>. An event
  number that is -1 is \<open>None\<close>; \<open>prg_data\<close> is the data the module last wrote to a port.\<close>

record hws =
  atomic_counters :: "nat \<Rightarrow> u8"
  counters_set_value :: "nat \<Rightarrow> u8"
  hws_mask :: "nat \<Rightarrow> u64"
  mask_default :: "nat \<Rightarrow> u64"
  notify_core :: "nat \<Rightarrow> bool"
  slave_int :: "nat \<Rightarrow> bool"
  pr_rdy :: "nat \<Rightarrow> bool"
  sl_rdy :: "nat \<Rightarrow> bool"
  prg_data :: "nat \<Rightarrow> u32"
  core_stop :: "nat \<Rightarrow> bool"
  core_idle :: "nat \<Rightarrow> bool"
  sent_idle :: "nat \<Rightarrow> bool"
  state_next :: "nat \<Rightarrow> program_machine_state"
  state_next_next :: "nat \<Rightarrow> program_machine_state"
  nsl :: "nat \<Rightarrow> nat \<Rightarrow> nat"
  nsl_temp :: "nat \<Rightarrow> nat"
  in_queue :: "nat \<Rightarrow> bool"
  got_event :: "nat \<Rightarrow> bool"
  mask_type :: "nat \<Rightarrow> nat"
  prg_ports :: "nat \<Rightarrow> nat"
  ev_managing :: "nat \<Rightarrow> nat option"
  ev :: "nat \<Rightarrow> nat \<Rightarrow> nat option"
  sg_next :: "nat \<Rightarrow> bool"
  sg_ports :: "nat \<Rightarrow> nat"
  idle_cores :: nat
  sync_waiting :: bool

record hws_cfg =
  n_slaves :: nat
  n_slave_ports :: nat
  n_prg_ports :: nat
  hws_N_CORES :: nat

text \<open>The requests at an edge: the transaction on a port while its request line is high.\<close>

record hws_in =
  pr_req :: "nat \<Rightarrow> pinout option"
  sl_req :: "nat \<Rightarrow> pinout option"

text \<open>The constructor and the start of the threads; the locals that are not initialised are those of \<open>h\<close>.\<close>

definition new_hws :: "hws \<Rightarrow> hws" where
  "new_hws h = h\<lparr>atomic_counters := (\<lambda>_. 0), counters_set_value := (\<lambda>_. 0), hws_mask := (\<lambda>_. 0),
     mask_default := (\<lambda>_. 0), notify_core := (\<lambda>_. False), sent_idle := (\<lambda>_. False),
     state_next := (\<lambda>_. REQUEST_TYPE), state_next_next := (\<lambda>_. REQUEST_TYPE), ev_managing := (\<lambda>_. None),
     ev := (\<lambda>_ _. None), sg_next := (\<lambda>_. False), idle_cores := 0, sync_waiting := False\<rparr>"

section \<open>The thread \<open>programme\<close>\<close>

definition data_byte :: "nat \<Rightarrow> u32 \<Rightarrow> nat" where
  "data_byte k w = unat (take_bit 8 (drop_bit (8 * k) w))"

text \<open>The ports with a request of the core.\<close>

definition requests_of :: "(nat \<Rightarrow> pinout option) \<Rightarrow> nat \<Rightarrow> nat \<Rightarrow> (nat \<times> pinout) list" where
  "requests_of req n core = concat (map (\<lambda>port. case req port of None \<Rightarrow> []
     | Some p \<Rightarrow> if unat (p_id p) = core then [(port, p)] else []) [0..<n])"

definition acknowledge :: "nat \<Rightarrow> program_machine_state \<Rightarrow> nat \<Rightarrow> hws \<Rightarrow> hws" where
  "acknowledge core next port s =
     s\<lparr>state_next := (state_next s)(core := next), prg_ports := (prg_ports s)(core := port),
       pr_rdy := (pr_rdy s)(port := True)\<rparr>"

definition end_acknowledge :: "nat \<Rightarrow> program_machine_state \<Rightarrow> hws \<Rightarrow> hws" where
  "end_acknowledge core next s =
     s\<lparr>state_next := (state_next s)(core := next), pr_rdy := (pr_rdy s)(prg_ports s core := False)\<rparr>"

definition request_type :: "nat \<Rightarrow> nat \<times> pinout \<Rightarrow> hws \<Rightarrow> hws res" where
  "request_type core r s =
     (case r of (port, p) \<Rightarrow>
      if \<not> p_rw p \<or> data_byte 1 (p_data p) \<noteq> core then Inl FAbort
      else if data_byte 0 (p_data p) = 0 then
        Inr (acknowledge core REQUEST_ACC port (s\<lparr>state_next_next := (state_next_next s)(core := ASK_EVENT)\<rparr>))
      else if data_byte 0 (p_data p) = 1 then
        Inr (acknowledge core REQUEST_ACC port (s\<lparr>state_next_next := (state_next_next s)(core := MANAGE_EVENT)\<rparr>))
      else Inl FAbort)"

definition ask_event :: "nat \<Rightarrow> nat \<times> pinout \<Rightarrow> hws \<Rightarrow> hws res" where
  "ask_event core r s =
     (case r of (port, p) \<Rightarrow>
      if \<not> p_rw p \<or> data_byte 1 (p_data p) \<noteq> core \<or> data_byte 3 (p_data p) \<notin> {1, 2} then Inl FAbort
      else Inr (acknowledge core ASK_ACC port
        (s\<lparr>nsl_temp := (nsl_temp s)(core := data_byte 0 (p_data p)),
           in_queue := (in_queue s)(core := data_byte 2 (p_data p) \<noteq> 0),
           mask_type := (mask_type s)(core := data_byte 3 (p_data p))\<rparr>)))"

text \<open>An event is free while bit 7 of its counter is clear.\<close>

definition reserved :: "u8 \<Rightarrow> bool" where
  "reserved c \<longleftrightarrow> bit c 7"

definition wait_event :: "hws \<Rightarrow> nat \<Rightarrow> nat \<times> pinout \<Rightarrow> hws \<Rightarrow> hws res" where
  "wait_event old core r s =
     (case r of (port, p) \<Rightarrow>
      if p_rw p then Inl FAbort
      else case List.find (\<lambda>e. ev s core e = None) [0..<N_HWS_EVENTS] of None \<Rightarrow> Inl FAbort
      | Some e \<Rightarrow>
        (case List.find (\<lambda>i. \<not> reserved (atomic_counters old i)) [0..<N_HWS_EVENTS] of
          Some i \<Rightarrow>
            Inr (acknowledge core WAIT_ACC port
              (s\<lparr>got_event := (got_event s)(core := True),
                 prg_data := (prg_data s)(port := of_nat i OR push_bit 8 (of_nat core OR 0x80)),
                 nsl := (nsl s)(core := (nsl s core)(i := nsl_temp s core)),
                 atomic_counters := (atomic_counters s)(i := 0x80 OR of_nat (nsl_temp s core)),
                 counters_set_value := (counters_set_value s)(i := 0x80 OR of_nat (nsl_temp s core)),
                 ev := (ev s)(core := (ev s core)(e := Some i))\<rparr>))
        | None \<Rightarrow>
            Inr (acknowledge core WAIT_ACC port
              (s\<lparr>got_event := (got_event s)(core := False),
                 prg_data := (prg_data s)(port := push_bit 8 (of_nat core AND 0x7F))\<rparr>))))"

definition manage_event :: "nat \<Rightarrow> nat \<times> pinout \<Rightarrow> hws \<Rightarrow> hws res" where
  "manage_event core r s =
     (case r of (port, p) \<Rightarrow>
      if \<not> p_rw p \<or> data_byte 1 (p_data p) \<noteq> core \<or> N_HWS_EVENTS \<le> data_byte 0 (p_data p) \<or>
         Some (data_byte 0 (p_data p)) \<notin> ev s core ` {..<N_HWS_EVENTS} then Inl FAbort
      else Inr (acknowledge core MANAGE_ACC port
        (s\<lparr>ev_managing := (ev_managing s)(core := Some (data_byte 0 (p_data p)))\<rparr>)))"

text \<open>The slaves of a mask are woken up.\<close>

definition wake :: "hws_cfg \<Rightarrow> u64 \<Rightarrow> hws \<Rightarrow> hws" where
  "wake cfg m s =
     s\<lparr>core_stop := (\<lambda>sl. if sl < n_slaves cfg \<and> bit m sl then False else core_stop s sl),
       slave_int := (\<lambda>sl. if sl < n_slaves cfg \<and> bit m sl then False else slave_int s sl)\<rparr>"

text \<open>The release of the slaves in \<open>m\<close>: the mask of the event goes back to its owner alone.\<close>

definition release_slaves :: "hws_cfg \<Rightarrow> nat \<Rightarrow> nat \<Rightarrow> u64 \<Rightarrow> hws \<Rightarrow> hws res" where
  "release_slaves cfg core m mask_var s =
     (if MAX_SLAVES < nsl s core m then Inl FAbort
      else Inr (wake cfg mask_var
        (s\<lparr>hws_mask := (hws_mask s)(m := push_bit core 1), mask_default := (mask_default s)(m := push_bit core 1),
           notify_core := (notify_core s)(m := True)\<rparr>)))"

definition release_or_free :: "hws_cfg \<Rightarrow> nat \<Rightarrow> nat \<times> pinout \<Rightarrow> hws \<Rightarrow> hws res" where
  "release_or_free cfg core r s =
     (case r of (port, p) \<Rightarrow>
      case ev_managing s core of None \<Rightarrow> Inl FAbort
      | Some m \<Rightarrow>
        if p_rw p then
          if mask_type s core = 1 then
            res_map (\<lambda>s. acknowledge core RELEASE_OR_FREE_ACC port
                (s\<lparr>state_next_next := (state_next_next s)(core := REQUEST_TYPE)\<rparr>))
              (release_slaves cfg core m (ucast (ucast (p_data p) :: u16)) s)
          else if mask_type s core = 2 then
            Inr (acknowledge core RELEASE_OR_FREE_ACC port
              (s\<lparr>hws_mask := (hws_mask s)(m := ucast (p_data p)),
                 state_next_next := (state_next_next s)(core := RELEASE_EVENT)\<rparr>))
          else Inl FAbort
        else
          case List.find (\<lambda>e. ev s core e = Some m) [0..<N_HWS_EVENTS] of None \<Rightarrow> Inl FAbort
          | Some e \<Rightarrow>
            Inr (acknowledge core RELEASE_OR_FREE_ACC port
              (s\<lparr>hws_mask := (hws_mask s)(m := 0), mask_default := (mask_default s)(m := 0),
                 atomic_counters := (atomic_counters s)(m := 0),
                 counters_set_value := (counters_set_value s)(m := 0),
                 notify_core := (notify_core s)(m := False),
                 state_next_next := (state_next_next s)(core := REQUEST_TYPE),
                 ev := (ev s)(core := (ev s core)(e := None)),
                 prg_data := (prg_data s)(port := push_bit 8 (of_nat core AND 0x7F))\<rparr>)))"

definition release_event :: "hws_cfg \<Rightarrow> hws \<Rightarrow> nat \<Rightarrow> nat \<times> pinout \<Rightarrow> hws \<Rightarrow> hws res" where
  "release_event cfg old core r s =
     (case r of (port, p) \<Rightarrow>
      case ev_managing s core of None \<Rightarrow> Inl FAbort
      | Some m \<Rightarrow>
        if \<not> p_rw p \<or> mask_type s core \<noteq> 2 then Inl FAbort
        else res_map (acknowledge core RELEASE_ACC port)
          (release_slaves cfg core m (take_bit 32 (hws_mask old m) OR push_bit 32 (ucast (p_data p))) s))"

text \<open>What \<open>programme\<close> does for one core, by its state.\<close>

definition programme_core :: "hws_cfg \<Rightarrow> hws_in \<Rightarrow> hws \<Rightarrow> nat \<Rightarrow> hws \<Rightarrow> hws res" where
  "programme_core cfg inp old core s =
     (let rs = requests_of (pr_req inp) (n_prg_ports cfg) core in
      case state_next s core of
        REQUEST_TYPE \<Rightarrow> each (request_type core) rs s
      | REQUEST_ACC \<Rightarrow> Inr (end_acknowledge core (state_next_next s core) s)
      | ASK_EVENT \<Rightarrow> each (ask_event core) (take 1 rs) s
      | ASK_ACC \<Rightarrow> Inr (end_acknowledge core WAIT_EVENT s)
      | WAIT_EVENT \<Rightarrow> each (wait_event old core) rs s
      | WAIT_ACC \<Rightarrow> Inr (end_acknowledge core
          (if \<not> got_event s core \<and> in_queue s core then WAIT_EVENT else REQUEST_TYPE) s)
      | MANAGE_EVENT \<Rightarrow> each (manage_event core) rs s
      | MANAGE_ACC \<Rightarrow> Inr (end_acknowledge core RELEASE_OR_FREE_EVENT s)
      | RELEASE_OR_FREE_EVENT \<Rightarrow> each (release_or_free cfg core) rs s
      | RELEASE_OR_FREE_ACC \<Rightarrow> Inr (end_acknowledge core (state_next_next s core) s)
      | RELEASE_EVENT \<Rightarrow> each (release_event cfg old core) rs s
      | RELEASE_ACC \<Rightarrow> Inr (end_acknowledge core REQUEST_TYPE s))"

definition programme :: "hws_cfg \<Rightarrow> hws_in \<Rightarrow> hws \<Rightarrow> hws \<Rightarrow> hws res" where
  "programme cfg inp old s = each (programme_core cfg inp old) [0..<MAX_CORES] s"

section \<open>The other threads\<close>

text \<open>\<open>notify\<close>: an event whose last slave has arrived wakes its mask and starts again.\<close>

definition notify_event :: "hws_cfg \<Rightarrow> hws \<Rightarrow> nat \<Rightarrow> hws \<Rightarrow> hws" where
  "notify_event cfg old i s =
     (if atomic_counters old i = 0x80 \<and> notify_core old i then
        (wake cfg (hws_mask old i) s)\<lparr>atomic_counters := (atomic_counters s)(i := counters_set_value old i),
          hws_mask := (hws_mask s)(i := mask_default old i)\<rparr>
      else s)"

definition hws_notify :: "hws_cfg \<Rightarrow> hws \<Rightarrow> hws \<Rightarrow> hws" where
  "hws_notify cfg old s = fold (notify_event cfg old) [0..<N_HWS_EVENTS] s"

text \<open>\<open>signal\<close>: the arrival of a slave. \<open>va\<close> is its copy \<open>var_ac\<close> of the counters, which it writes
  back for every event.\<close>

definition arrive :: "hws \<Rightarrow> nat \<Rightarrow> nat \<times> pinout \<Rightarrow> (nat \<Rightarrow> u8) \<times> hws \<Rightarrow> ((nat \<Rightarrow> u8) \<times> hws) res" where
  "arrive old core r vs =
     (case r of (port, p) \<Rightarrow> case vs of (va, s) \<Rightarrow>
      let e = data_byte 0 (p_data p) in
      if \<not> p_rw p \<or> N_HWS_EVENTS \<le> e \<or> \<not> reserved (va e) \<or> va e AND 0x7F = 0 \<or>
         data_byte 1 (p_data p) \<noteq> core then Inl FAbort
      else Inr (va(e := ((va e AND 0x7F) - 1) OR 0x80),
        s\<lparr>hws_mask := (if data_byte 2 (p_data p) \<noteq> 0
            then (hws_mask s)(e := hws_mask old e OR push_bit core 1) else hws_mask s),
          sg_ports := (sg_ports s)(core := port), sg_next := (sg_next s)(core := True),
          sl_rdy := (sl_rdy s)(port := True)\<rparr>))"

definition signal_core :: "hws_cfg \<Rightarrow> hws_in \<Rightarrow> hws \<Rightarrow> nat \<Rightarrow> (nat \<Rightarrow> u8) \<times> hws \<Rightarrow> ((nat \<Rightarrow> u8) \<times> hws) res" where
  "signal_core cfg inp old core vs =
     (case vs of (va, s) \<Rightarrow>
      if \<not> sg_next s core then each (arrive old core) (requests_of (sl_req inp) (n_slave_ports cfg) core) vs
      else if n_slaves cfg \<le> core then Inl FUndef
      else Inr (va, s\<lparr>sl_rdy := (sl_rdy s)(sg_ports s core := False), sg_next := (sg_next s)(core := False),
        core_stop := (core_stop s)(core := True), slave_int := (slave_int s)(core := True)\<rparr>))"

definition hws_signal :: "hws_cfg \<Rightarrow> hws_in \<Rightarrow> hws \<Rightarrow> hws \<Rightarrow> hws res" where
  "hws_signal cfg inp old s =
     res_map (\<lambda>(va, s). s\<lparr>atomic_counters := (\<lambda>e. if e < N_HWS_EVENTS then va e else atomic_counters s e)\<rparr>)
       (each (signal_core cfg inp old) [0..<MAX_CORES] (atomic_counters old, s))"

definition idle_mngr :: "hws_cfg \<Rightarrow> hws \<Rightarrow> hws" where
  "idle_mngr cfg s =
     s\<lparr>slave_int := (\<lambda>i. if i < n_slaves cfg then core_stop s i \<or> core_idle s i else slave_int s i)\<rparr>"

text \<open>\<open>sync_mngr\<close>; \<open>sync_waiting\<close>: it is at the inner \<open>wait()\<close>.\<close>

definition sync_mngr :: "hws_cfg \<Rightarrow> hws \<Rightarrow> hws res" where
  "sync_mngr cfg s =
     (if sync_waiting s then
        Inr (s\<lparr>slave_int := (\<lambda>i. if i < hws_N_CORES cfg then False else slave_int s i),
          sent_idle := (\<lambda>i. if i < hws_N_CORES cfg then False else sent_idle s i),
          core_idle := (\<lambda>i. if i < hws_N_CORES cfg then False else core_idle s i),
          idle_cores := (if hws_N_CORES cfg = 0 then idle_cores s else 0), sync_waiting := False\<rparr>)
      else
        let new = filter (\<lambda>i. core_idle s i \<and> \<not> sent_idle s i) [0..<hws_N_CORES cfg];
            n = idle_cores s + length new in
        if new \<noteq> [] \<and> hws_N_CORES cfg < n then Inl FAbort
        else Inr (s\<lparr>slave_int := (\<lambda>i. if i \<in> set new then True else slave_int s i),
          sent_idle := (\<lambda>i. if i \<in> set new then True else sent_idle s i),
          idle_cores := n, sync_waiting := n = hws_N_CORES cfg\<rparr>))"

section \<open>A cycle\<close>

datatype hws_thread = Programme | Notify | Signal | Idle_mngr | Sync_mngr

fun run_thread :: "hws_cfg \<Rightarrow> hws_in \<Rightarrow> hws \<Rightarrow> hws_thread \<Rightarrow> hws \<Rightarrow> hws res" where
  "run_thread cfg inp old Programme s = programme cfg inp old s"
| "run_thread cfg inp old Notify s = Inr (hws_notify cfg old s)"
| "run_thread cfg inp old Signal s = hws_signal cfg inp old s"
| "run_thread cfg inp old Idle_mngr s = Inr (idle_mngr cfg s)"
| "run_thread cfg inp old Sync_mngr s = sync_mngr cfg s"

text \<open>The order of declaration, and the one in which SystemC starts the threads.\<close>

definition declared_order :: "hws_thread list" where
  "declared_order = [Programme, Notify, Signal, Idle_mngr, Sync_mngr]"

definition started_order :: "hws_thread list" where
  "started_order = rev declared_order"

definition hws_cycle :: "hws_thread list \<Rightarrow> hws_cfg \<Rightarrow> hws_in \<Rightarrow> hws \<Rightarrow> hws res" where
  "hws_cycle order cfg inp s = each (run_thread cfg inp s) order s"

section \<open>The driver\<close>

definition no_request :: hws_in where
  "no_request = \<lparr>pr_req = (\<lambda>_. None), sl_req = (\<lambda>_. None)\<rparr>"

definition prg_request :: "nat \<Rightarrow> pinout \<Rightarrow> hws_in" where
  "prg_request port p = no_request\<lparr>pr_req := (\<lambda>_. None)(port := Some p)\<rparr>"

definition slv_request :: "nat \<Rightarrow> pinout \<Rightarrow> hws_in" where
  "slv_request port p = no_request\<lparr>sl_req := (\<lambda>_. None)(port := Some p)\<rparr>"

text \<open>A transaction of one core: the edge at which it is served and the one that takes the
  acknowledgement back. The threads are started in the order of SystemC.\<close>

definition transaction :: "hws_cfg \<Rightarrow> hws_in \<Rightarrow> hws \<Rightarrow> hws res" where
  "transaction cfg inp s =
     res_bind (hws_cycle started_order cfg inp s) (hws_cycle started_order cfg no_request)"

definition func_port_prg :: "nat \<Rightarrow> nat" where
  "func_port_prg ID = (ID AND (N_HWS_PRG_PORTS - 1))"

definition func_port_slv :: "nat \<Rightarrow> nat" where
  "func_port_slv ID = (ID AND (N_HWS_SLV_PORTS - 1))"

definition prg_write :: "hws_cfg \<Rightarrow> nat \<Rightarrow> nat \<Rightarrow> u32 \<Rightarrow> hws \<Rightarrow> hws res" where
  "prg_write cfg ID PORT v s =
     transaction cfg (prg_request PORT ((word_write (HWS_BASE + 4 * of_nat PORT) v)\<lparr>p_id := of_nat ID\<rparr>)) s"

definition prg_read :: "hws_cfg \<Rightarrow> nat \<Rightarrow> nat \<Rightarrow> hws \<Rightarrow> (u32 \<times> hws) res" where
  "prg_read cfg ID PORT s =
     res_map (\<lambda>s. (prg_data s PORT, s))
       (transaction cfg (prg_request PORT ((word_read (HWS_BASE + 4 * of_nat PORT))\<lparr>p_id := of_nat ID\<rparr>)) s)"

definition slv_write :: "hws_cfg \<Rightarrow> nat \<Rightarrow> nat \<Rightarrow> u32 \<Rightarrow> hws \<Rightarrow> hws res" where
  "slv_write cfg ID PORT v s =
     transaction cfg (slv_request PORT
       ((word_write (HWS_BASE + 4 * of_nat N_HWS_PRG_PORTS + 4 * of_nat PORT) v)\<lparr>p_id := of_nat ID\<rparr>)) s"

definition hws_request_event_mem_single :: "hws_cfg \<Rightarrow> nat \<Rightarrow> u32 \<Rightarrow> nat \<Rightarrow> hws \<Rightarrow> hws res" where
  "hws_request_event_mem_single cfg ID NSL PORT s =
     prg_write cfg ID PORT (push_bit 24 1 OR push_bit 16 1 OR push_bit 8 (of_nat ID AND 0x7F) OR (NSL AND 0xFF)) s"

definition hws_request_event_no_mem_single :: "hws_cfg \<Rightarrow> nat \<Rightarrow> u32 \<Rightarrow> nat \<Rightarrow> hws \<Rightarrow> hws res" where
  "hws_request_event_no_mem_single cfg ID NSL PORT s =
     prg_write cfg ID PORT (push_bit 24 1 OR push_bit 8 (of_nat ID AND 0x7F) OR (NSL AND 0xFF)) s"

definition hws_wait_event :: "hws_cfg \<Rightarrow> nat \<Rightarrow> nat \<Rightarrow> hws \<Rightarrow> (int \<times> hws) res" where
  "hws_wait_event cfg ID PORT s =
     res_map (\<lambda>(ret, s).
        (if drop_bit 8 (ret AND 0xFF00) = of_nat ID OR 0x80 then uint (ret AND 0xFF) else -1, s))
       (prg_read cfg ID PORT s)"

definition maybe_get_event :: "hws_cfg \<Rightarrow> nat \<Rightarrow> u32 \<Rightarrow> hws \<Rightarrow> (int \<times> hws) res" where
  "maybe_get_event cfg ID NSL s =
     (let PORT = func_port_prg ID in
      res_bind (prg_write cfg ID PORT (push_bit 8 (of_nat ID AND 0xFF)) s) (\<lambda>s.
      res_bind (hws_request_event_no_mem_single cfg ID NSL PORT s) (\<lambda>s.
      hws_wait_event cfg ID PORT s)))"

text \<open>The loop of \<open>get_event\<close> asks again until an event is free, which never happens while the
  core runs alone.\<close>

definition get_event :: "hws_cfg \<Rightarrow> nat \<Rightarrow> u32 \<Rightarrow> hws \<Rightarrow> (int \<times> hws) res" where
  "get_event cfg ID NSL s =
     (let PORT = func_port_prg ID in
      res_bind (prg_write cfg ID PORT (push_bit 8 (of_nat ID AND 0xFF)) s) (\<lambda>s.
      res_bind (hws_request_event_mem_single cfg ID NSL PORT s) (\<lambda>s.
      res_bind (hws_wait_event cfg ID PORT s) (\<lambda>(e, s).
      if e < 0 then Inl FSpin else Inr (e, s)))))"

definition free_event :: "hws_cfg \<Rightarrow> nat \<Rightarrow> u32 \<Rightarrow> hws \<Rightarrow> hws res" where
  "free_event cfg ID EVT_ID s =
     (let PORT = func_port_prg ID in
      res_bind (prg_write cfg ID PORT (push_bit 8 (of_nat ID AND 0xFF) OR 1) s) (\<lambda>s.
      res_bind (prg_write cfg ID PORT (push_bit 8 (of_nat ID AND 0xFF) OR (EVT_ID AND 0xFF)) s) (\<lambda>s.
      res_map snd (prg_read cfg ID PORT s))))"

definition hws_release :: "hws_cfg \<Rightarrow> nat \<Rightarrow> u32 \<Rightarrow> u32 \<Rightarrow> hws \<Rightarrow> hws res" where
  "hws_release cfg ID EVT_ID BMSK s =
     (let PORT = func_port_prg ID in
      res_bind (prg_write cfg ID PORT (push_bit 8 (of_nat ID AND 0xFF) OR 1) s) (\<lambda>s.
      res_bind (prg_write cfg ID PORT (push_bit 8 (of_nat ID AND 0xFF) OR (EVT_ID AND 0xFF)) s) (\<lambda>s.
      prg_write cfg ID PORT BMSK s)))"

definition notify_arrival :: "hws_cfg \<Rightarrow> nat \<Rightarrow> u32 \<Rightarrow> hws \<Rightarrow> hws res" where
  "notify_arrival cfg ID EVT_ID s =
     slv_write cfg ID (func_port_slv ID) (push_bit 8 (of_nat ID AND 0xFF) OR (EVT_ID AND 0xFF)) s"

definition notify_and_set :: "hws_cfg \<Rightarrow> nat \<Rightarrow> u32 \<Rightarrow> hws \<Rightarrow> hws res" where
  "notify_and_set cfg ID EVT_ID s =
     slv_write cfg ID (func_port_slv ID)
       (push_bit 16 1 OR push_bit 8 (of_nat ID AND 0xFF) OR (EVT_ID AND 0xFF)) s"

section \<open>The barrier of the runtime\<close>

definition SW_BAR_ENABLE :: int where "SW_BAR_ENABLE = -1"

definition get_new_hw_event :: "hws_cfg \<Rightarrow> nat \<Rightarrow> u32 \<Rightarrow> hws \<Rightarrow> (int \<times> hws) res" where
  "get_new_hw_event cfg myid num_threads s =
     res_map (\<lambda>(event, s). (if event < 0 then SW_BAR_ENABLE else event, s)) (maybe_get_event cfg myid num_threads s)"

definition put_hw_event :: "hws_cfg \<Rightarrow> nat \<Rightarrow> u32 \<Rightarrow> hws \<Rightarrow> hws res" where
  "put_hw_event cfg myid event s = free_event cfg myid event s"

definition hws_MSGBarrier_Release :: "hws_cfg \<Rightarrow> nat \<Rightarrow> u32 \<Rightarrow> u32 \<Rightarrow> nat \<Rightarrow> hws \<Rightarrow> hws res" where
  "hws_MSGBarrier_Release cfg myid hw_event team master s =
     hws_release cfg myid hw_event (team AND NOT (push_bit master 1)) s"

definition hws_hal_barrier :: "hws_cfg \<Rightarrow> nat \<Rightarrow> nat \<Rightarrow> u32 \<Rightarrow> hws \<Rightarrow> hws res" where
  "hws_hal_barrier cfg master myid hw_event s =
     (if myid = master then notify_arrival cfg myid hw_event s else notify_and_set cfg myid hw_event s)"

section \<open>Cycles without much to do\<close>

text \<open>The states in which \<open>programme\<close> looks at its ports.\<close>

definition listening :: "program_machine_state \<Rightarrow> bool" where
  "listening st \<longleftrightarrow> st \<in> {REQUEST_TYPE, ASK_EVENT, WAIT_EVENT, MANAGE_EVENT, RELEASE_OR_FREE_EVENT, RELEASE_EVENT}"

lemma listening_simps [simp]:
  "listening REQUEST_TYPE" "listening ASK_EVENT" "listening WAIT_EVENT" "listening MANAGE_EVENT"
  "listening RELEASE_OR_FREE_EVENT" "listening RELEASE_EVENT" "\<not> listening REQUEST_ACC" "\<not> listening ASK_ACC"
  "\<not> listening WAIT_ACC" "\<not> listening MANAGE_ACC" "\<not> listening RELEASE_OR_FREE_ACC" "\<not> listening RELEASE_ACC"
  by (simp_all add: listening_def)

lemma programme_core_nothing:
  "listening (state_next s c) \<Longrightarrow> requests_of (pr_req inp) (n_prg_ports cfg) c = [] \<Longrightarrow>
     programme_core cfg inp old c s = Inr s"
  by (auto simp: programme_core_def listening_def)

lemma requests_one:
  "requests_of ((\<lambda>_. None)(0 := Some p)) 1 c = (if unat (p_id p) = c then [(0, p)] else [])"
  "requests_of (\<lambda>_. None) n c = []"
  by (simp_all add: requests_of_def)

definition due :: "hws \<Rightarrow> nat \<Rightarrow> bool" where
  "due h i \<longleftrightarrow> i < N_HWS_EVENTS \<and> atomic_counters h i = 0x80 \<and> notify_core h i"

lemma notify_nothing: "\<forall>i. \<not> due old i \<Longrightarrow> hws_notify cfg old s = s"
proof -
  assume a: "\<forall>i. \<not> due old i"
  have "fold (notify_event cfg old) xs s = s" if "\<forall>i \<in> set xs. i < N_HWS_EVENTS" for xs
    using that a by (induction xs) (auto simp: notify_event_def due_def)
  then show ?thesis by (simp add: hws_notify_def)
qed

text \<open>No core waits for the simulator to synchronize all cores.\<close>

definition no_sync :: "hws_cfg \<Rightarrow> hws \<Rightarrow> bool" where
  "no_sync cfg h \<longleftrightarrow> (\<forall>i. \<not> core_idle h i) \<and> \<not> sync_waiting h \<and> idle_cores h = 0 \<and> 0 < hws_N_CORES cfg"

lemma sync_nothing: "no_sync cfg h \<Longrightarrow> sync_mngr cfg h = Inr h"
  by (cases h) (simp add: sync_mngr_def no_sync_def Let_def)

lemma signal_nothing:
  assumes "\<forall>c. \<not> sg_next s c" "\<forall>port. sl_req inp port = None" "atomic_counters s = atomic_counters old"
  shows "hws_signal cfg inp old s = Inr s"
proof -
  have "requests_of (sl_req inp) n c = []" for n c using assms(2) by (simp add: requests_of_def)
  then have "each (signal_core cfg inp old) [0..<MAX_CORES] (atomic_counters old, s) = Inr (atomic_counters old, s)"
    using assms(1) by (intro each_id) (simp add: signal_core_def)
  moreover have "s\<lparr>atomic_counters := (\<lambda>e. if e < N_HWS_EVENTS then atomic_counters old e else atomic_counters s e)\<rparr> = s"
    using assms(3) by (cases s) (simp add: fun_eq_iff)
  ultimately show ?thesis by (simp only: hws_signal_def res_map.simps prod.case)
qed

text \<open>The state between transactions: all cores are listened to, nothing is due.\<close>

definition quiet :: "hws_cfg \<Rightarrow> hws \<Rightarrow> bool" where
  "quiet cfg h \<longleftrightarrow> no_sync cfg h \<and> (\<forall>c. \<not> sg_next h c) \<and> (\<forall>i. \<not> due h i) \<and> (\<forall>c<MAX_CORES. listening (state_next h c))"

lemma idle_mngr_sel [simp]:
  "atomic_counters (idle_mngr cfg h) = atomic_counters h" "counters_set_value (idle_mngr cfg h) = counters_set_value h"
  "hws_mask (idle_mngr cfg h) = hws_mask h" "mask_default (idle_mngr cfg h) = mask_default h"
  "notify_core (idle_mngr cfg h) = notify_core h" "core_stop (idle_mngr cfg h) = core_stop h"
  "core_idle (idle_mngr cfg h) = core_idle h" "state_next (idle_mngr cfg h) = state_next h"
  "state_next_next (idle_mngr cfg h) = state_next_next h" "nsl (idle_mngr cfg h) = nsl h"
  "nsl_temp (idle_mngr cfg h) = nsl_temp h" "in_queue (idle_mngr cfg h) = in_queue h"
  "got_event (idle_mngr cfg h) = got_event h" "mask_type (idle_mngr cfg h) = mask_type h"
  "ev_managing (idle_mngr cfg h) = ev_managing h" "ev (idle_mngr cfg h) = ev h"
  "prg_data (idle_mngr cfg h) = prg_data h" "prg_ports (idle_mngr cfg h) = prg_ports h"
  "sg_next (idle_mngr cfg h) = sg_next h" "sg_ports (idle_mngr cfg h) = sg_ports h"
  "sync_waiting (idle_mngr cfg h) = sync_waiting h" "idle_cores (idle_mngr cfg h) = idle_cores h"
  by (simp_all add: idle_mngr_def)

text \<open>A cycle in which only \<open>programme\<close> has something to do, for one core.\<close>

lemma programme_cycle:
  assumes q: "no_sync cfg h" "\<forall>c. \<not> sg_next h c" "\<forall>i. \<not> due h i" "\<forall>port. sl_req inp port = None"
    and c: "c < MAX_CORES" "\<forall>x<MAX_CORES. x \<noteq> c \<longrightarrow> listening (state_next h x)"
    and r: "\<forall>x. x \<noteq> c \<longrightarrow> requests_of (pr_req inp) (n_prg_ports cfg) x = []"
    and s': "programme_core cfg inp h c (idle_mngr cfg h) = Inr s'" "\<forall>x. x \<noteq> c \<longrightarrow> state_next s' x = state_next h x"
  shows "hws_cycle started_order cfg inp h = Inr s'"
proof -
  have p: "programme cfg inp h (idle_mngr cfg h) = Inr s'"
    unfolding programme_def using c r s' by (intro each_one [where c = c]) (auto intro!: programme_core_nothing)
  have s: "hws_signal cfg inp h (idle_mngr cfg h) = Inr (idle_mngr cfg h)"
    using q(2,4) by (intro signal_nothing) simp_all
  show ?thesis
    by (simp add: hws_cycle_def started_order_def declared_order_def sync_nothing [OF q(1)] s p notify_nothing [OF q(3)]
        del: res_bind_eq_Inr)
qed

section \<open>Transactions on the programming port\<close>

text \<open>A step of \<open>programme\<close> for core \<open>c\<close> that leaves the state alone that the other threads look at.\<close>

definition prg_frame :: "hws \<Rightarrow> nat \<Rightarrow> program_machine_state \<Rightarrow> hws \<Rightarrow> bool" where
  "prg_frame h c st s \<longleftrightarrow> state_next s = (state_next h)(c := st) \<and> sg_next s = sg_next h \<and>
     core_idle s = core_idle h \<and> sync_waiting s = sync_waiting h \<and> idle_cores s = idle_cores h \<and>
     prg_ports s c = 0 \<and> (\<forall>i. \<not> due s i)"

definition acknowledged :: "nat \<Rightarrow> hws \<Rightarrow> program_machine_state" where
  "acknowledged c s = (case state_next s c of
      REQUEST_ACC \<Rightarrow> state_next_next s c | ASK_ACC \<Rightarrow> WAIT_EVENT
    | WAIT_ACC \<Rightarrow> (if \<not> got_event s c \<and> in_queue s c then WAIT_EVENT else REQUEST_TYPE)
    | MANAGE_ACC \<Rightarrow> RELEASE_OR_FREE_EVENT | RELEASE_OR_FREE_ACC \<Rightarrow> state_next_next s c
    | RELEASE_ACC \<Rightarrow> REQUEST_TYPE | st \<Rightarrow> st)"

lemma end_acknowledge_sel [simp]:
  "atomic_counters (end_acknowledge c st h) = atomic_counters h" "counters_set_value (end_acknowledge c st h) = counters_set_value h"
  "hws_mask (end_acknowledge c st h) = hws_mask h" "mask_default (end_acknowledge c st h) = mask_default h"
  "notify_core (end_acknowledge c st h) = notify_core h" "core_stop (end_acknowledge c st h) = core_stop h"
  "core_idle (end_acknowledge c st h) = core_idle h" "state_next (end_acknowledge c st h) = (state_next h)(c := st)"
  "state_next_next (end_acknowledge c st h) = state_next_next h" "nsl (end_acknowledge c st h) = nsl h"
  "nsl_temp (end_acknowledge c st h) = nsl_temp h" "in_queue (end_acknowledge c st h) = in_queue h"
  "got_event (end_acknowledge c st h) = got_event h" "mask_type (end_acknowledge c st h) = mask_type h"
  "ev_managing (end_acknowledge c st h) = ev_managing h" "ev (end_acknowledge c st h) = ev h"
  "prg_data (end_acknowledge c st h) = prg_data h" "prg_ports (end_acknowledge c st h) = prg_ports h"
  "sg_next (end_acknowledge c st h) = sg_next h" "sg_ports (end_acknowledge c st h) = sg_ports h"
  "sync_waiting (end_acknowledge c st h) = sync_waiting h" "idle_cores (end_acknowledge c st h) = idle_cores h"
  by (simp_all add: end_acknowledge_def)

lemma acknowledge_sel [simp]:
  "atomic_counters (acknowledge c st p h) = atomic_counters h" "counters_set_value (acknowledge c st p h) = counters_set_value h"
  "hws_mask (acknowledge c st p h) = hws_mask h" "mask_default (acknowledge c st p h) = mask_default h"
  "notify_core (acknowledge c st p h) = notify_core h" "core_stop (acknowledge c st p h) = core_stop h"
  "core_idle (acknowledge c st p h) = core_idle h" "state_next (acknowledge c st p h) = (state_next h)(c := st)"
  "state_next_next (acknowledge c st p h) = state_next_next h" "nsl (acknowledge c st p h) = nsl h"
  "nsl_temp (acknowledge c st p h) = nsl_temp h" "in_queue (acknowledge c st p h) = in_queue h"
  "got_event (acknowledge c st p h) = got_event h" "mask_type (acknowledge c st p h) = mask_type h"
  "ev_managing (acknowledge c st p h) = ev_managing h" "ev (acknowledge c st p h) = ev h"
  "prg_data (acknowledge c st p h) = prg_data h" "prg_ports (acknowledge c st p h) = (prg_ports h)(c := p)"
  "sg_next (acknowledge c st p h) = sg_next h" "sg_ports (acknowledge c st p h) = sg_ports h"
  "sync_waiting (acknowledge c st p h) = sync_waiting h" "idle_cores (acknowledge c st p h) = idle_cores h"
  by (simp_all add: acknowledge_def)

definition served :: "hws_cfg \<Rightarrow> nat \<Rightarrow> hws \<Rightarrow> hws" where
  "served cfg c s = end_acknowledge c (acknowledged c s) (idle_mngr cfg s)"

lemma prg_transaction:
  assumes q: "quiet cfg h" "n_prg_ports cfg = 1" "c < MAX_CORES" "unat (p_id p) = c"
    and s: "programme_core cfg (prg_request 0 p) h c (idle_mngr cfg h) = Inr s" "prg_frame h c st s" "\<not> listening st"
  shows "transaction cfg (prg_request 0 p) h = Inr (served cfg c s)"
    and "listening (acknowledged c s) \<Longrightarrow> quiet cfg (served cfg c s)"
proof -
  have q': "no_sync cfg h" "\<forall>c. \<not> sg_next h c" "\<forall>i. \<not> due h i" "\<forall>c<MAX_CORES. listening (state_next h c)"
    using q(1) by (auto simp: quiet_def)
  have f: "state_next s = (state_next h)(c := st)" "no_sync cfg s" "\<forall>c. \<not> sg_next s c" "\<forall>i. \<not> due s i"
    using s(2) q' by (auto simp: prg_frame_def no_sync_def)
  have one: "hws_cycle started_order cfg (prg_request 0 p) h = Inr s"
    using q'(1-3) _ q(3) _ _ s(1)
    by (rule programme_cycle) (use q q'(4) f(1) in \<open>auto simp: prg_request_def no_request_def requests_one [simplified]\<close>)
  have "programme_core cfg no_request s c (idle_mngr cfg s) = Inr (served cfg c s)"
    using s(3) f(1) by (cases st) (simp_all add: programme_core_def served_def acknowledged_def)
  then have "hws_cycle started_order cfg no_request s = Inr (served cfg c s)"
    by (intro programme_cycle [where c = c])
      (use q q'(4) f in \<open>auto simp: no_request_def requests_one served_def\<close>)
  then show "transaction cfg (prg_request 0 p) h = Inr (served cfg c s)"
    by (simp only: transaction_def one res_bind.simps)
  assume "listening (acknowledged c s)"
  then show "quiet cfg (served cfg c s)"
    using f q'(4) by (auto simp: quiet_def served_def no_sync_def due_def)
qed

section \<open>The bytes of the requests\<close>

lemma u8_of_core: "c < MAX_CORES \<Longrightarrow> unat (of_nat c :: u8) = c"
  by (simp add: MAX_CORES_def unat_of_nat)

lemma core_bits: "c < MAX_CORES \<Longrightarrow> bit (of_nat c :: u32) i \<Longrightarrow> i < 4"
proof -
  assume c: "c < MAX_CORES" and b: "bit (of_nat c :: u32) i"
  have "take_bit 4 (of_nat c :: u32) = of_nat c"
    using c by (simp add: word_unat_eq_iff unsigned_take_bit_eq MAX_CORES_def unat_of_nat take_bit_nat_eq_self)
  then show "i < 4" using b by (metis bit_take_bit_iff)
qed

lemma unat_core: "c < MAX_CORES \<Longrightarrow> unat (of_nat c :: u32) = c"
  by (simp add: MAX_CORES_def unat_of_nat)

lemma byte_mask: "(0xFF :: u32) = mask 8" "(0x7F :: u32) = mask 7"
  by (simp_all add: mask_eq_exp_minus_1)

lemma data_bytes_bits:
  fixes C x :: u32
  assumes "\<And>i. bit C i \<Longrightarrow> i < 4" "x = 0 \<or> x = 1"
  shows "take_bit 8 (drop_bit 8 (push_bit 8 (C AND 0xFF) OR x)) = C" "take_bit 8 (push_bit 8 (C AND 0xFF) OR x) = x"
proof -
  show "take_bit 8 (drop_bit 8 (push_bit 8 (C AND 0xFF) OR x)) = C"
    by (rule bit_word_eqI) (use assms(2) in \<open>auto simp: bit_simps byte_mask dest: assms(1)\<close>)
  show "take_bit 8 (push_bit 8 (C AND 0xFF) OR x) = x"
    by (rule bit_word_eqI) (use assms(2) in \<open>auto simp: bit_simps byte_mask dest: assms(1)\<close>)
qed

lemma data_bytes:
  assumes "c < MAX_CORES"
  shows "data_byte 1 (push_bit 8 (of_nat c AND 0xFF)) = c" "data_byte 0 (push_bit 8 (of_nat c AND 0xFF)) = 0"
    and "data_byte 1 (push_bit 8 (of_nat c AND 0xFF) OR 1) = c" "data_byte 0 (push_bit 8 (of_nat c AND 0xFF) OR 1) = 1"
proof -
  show "data_byte 1 (push_bit 8 (of_nat c AND 0xFF)) = c" "data_byte 0 (push_bit 8 (of_nat c AND 0xFF)) = 0"
    "data_byte 1 (push_bit 8 (of_nat c AND 0xFF) OR 1) = c" "data_byte 0 (push_bit 8 (of_nat c AND 0xFF) OR 1) = 1"
    using data_bytes_bits [OF core_bits [OF assms], where x = 0] data_bytes_bits [OF core_bits [OF assms], where x = 1]
    by (simp_all only: data_byte_def mult_0_right mult_1_right drop_bit_0 id_apply or.right_neutral
        simp_thms unat_core [OF assms] unat_0 unat_1)
qed

lemma request_bits:
  fixes C N q :: u32
  assumes "\<And>i. bit C i \<Longrightarrow> i < 4" "\<And>i. bit N i \<Longrightarrow> i < 8" "q = 0 \<or> q = 1"
  defines "w \<equiv> push_bit 24 1 OR push_bit 16 q OR push_bit 8 (C AND 0x7F) OR (N AND 0xFF)"
  shows "take_bit 8 w = N" "take_bit 8 (drop_bit 8 w) = C" "take_bit 8 (drop_bit 16 w) = q" "take_bit 8 (drop_bit 24 w) = 1"
proof -
  show "take_bit 8 w = N"
    by (rule bit_word_eqI) (use assms(3) in \<open>auto simp: w_def bit_simps byte_mask dest: assms(1,2)\<close>)
  show "take_bit 8 (drop_bit 8 w) = C"
    by (rule bit_word_eqI) (use assms(3) in \<open>auto simp: w_def bit_simps byte_mask dest: assms(1,2)\<close>)
  show "take_bit 8 (drop_bit 16 w) = q"
    by (rule bit_word_eqI) (use assms(3) in \<open>auto simp: w_def bit_simps byte_mask dest: assms(1,2)\<close>)
  show "take_bit 8 (drop_bit 24 w) = 1"
    by (rule bit_word_eqI) (use assms(3) in \<open>auto simp: w_def bit_simps byte_mask dest: assms(1,2)\<close>)
qed

lemma byte_bits: "(N :: u32) \<le> 0xFF \<Longrightarrow> bit N i \<Longrightarrow> i < 8"
proof -
  assume "N \<le> 0xFF" "bit N i"
  moreover have "take_bit 8 N = N" if "N \<le> 0xFF"
    using that by (simp add: word_unat_eq_iff unsigned_take_bit_eq word_le_unat take_bit_nat_eq_self)
  ultimately show "i < 8" by (metis bit_take_bit_iff)
qed

lemma request_bytes:
  fixes N q :: u32
  assumes "c < MAX_CORES" "N \<le> 0xFF" "q = 0 \<or> q = 1"
  shows "data_byte 0 (push_bit 24 1 OR push_bit 16 q OR push_bit 8 (of_nat c AND 0x7F) OR (N AND 0xFF)) = unat N"
    "data_byte 1 (push_bit 24 1 OR push_bit 16 q OR push_bit 8 (of_nat c AND 0x7F) OR (N AND 0xFF)) = c"
    "data_byte 2 (push_bit 24 1 OR push_bit 16 q OR push_bit 8 (of_nat c AND 0x7F) OR (N AND 0xFF)) = unat q"
    "data_byte 3 (push_bit 24 1 OR push_bit 16 q OR push_bit 8 (of_nat c AND 0x7F) OR (N AND 0xFF)) = 1"
  using request_bits [OF core_bits [OF assms(1)] byte_bits [OF assms(2)] assms(3)] unat_core [OF assms(1)]
  unfolding data_byte_def by simp_all

section \<open>Asking for an event\<close>

text \<open>What a transaction leaves alone unless it is about an event.\<close>

definition same_events :: "hws \<Rightarrow> hws \<Rightarrow> bool" where
  "same_events h s \<longleftrightarrow> atomic_counters s = atomic_counters h \<and> counters_set_value s = counters_set_value h \<and>
     hws_mask s = hws_mask h \<and> mask_default s = mask_default h \<and> notify_core s = notify_core h \<and>
     ev s = ev h \<and> core_stop s = core_stop h \<and> nsl s = nsl h"

lemma same_events_trans: "same_events h s \<Longrightarrow> same_events s t \<Longrightarrow> same_events h t"
  by (simp add: same_events_def)

lemma same_events_due: "same_events h s \<Longrightarrow> due s i = due h i"
  by (simp add: same_events_def due_def)

text \<open>The state of the device and of core \<open>c\<close> between two of its transactions.\<close>

definition at_state :: "hws_cfg \<Rightarrow> nat \<Rightarrow> program_machine_state \<Rightarrow> hws \<Rightarrow> bool" where
  "at_state cfg c st h \<longleftrightarrow> quiet cfg h \<and> n_prg_ports cfg = 1 \<and> c < MAX_CORES \<and> state_next h c = st"

lemma served_sel [simp]:
  "atomic_counters (served cfg c h) = atomic_counters h" "counters_set_value (served cfg c h) = counters_set_value h"
  "hws_mask (served cfg c h) = hws_mask h" "mask_default (served cfg c h) = mask_default h"
  "notify_core (served cfg c h) = notify_core h" "core_stop (served cfg c h) = core_stop h"
  "state_next (served cfg c h) = (state_next h)(c := acknowledged c h)" "nsl (served cfg c h) = nsl h"
  "nsl_temp (served cfg c h) = nsl_temp h" "in_queue (served cfg c h) = in_queue h"
  "mask_type (served cfg c h) = mask_type h" "ev_managing (served cfg c h) = ev_managing h"
  "ev (served cfg c h) = ev h" "prg_data (served cfg c h) = prg_data h"
  by (simp_all add: served_def)

lemma at_served:
  assumes "at_state cfg c st h" "programme_core cfg (prg_request 0 p) h c (idle_mngr cfg h) = Inr s"
    "p_id p = of_nat c" "prg_frame h c st' s" "\<not> listening st'" "listening (acknowledged c s)"
  shows "transaction cfg (prg_request 0 p) h = Inr (served cfg c s)"
    "at_state cfg c (acknowledged c s) (served cfg c s)"
    "state_next (served cfg c s) = (state_next h)(c := acknowledged c s)"
proof -
  have a: "quiet cfg h" "n_prg_ports cfg = 1" "c < MAX_CORES" using assms(1) by (auto simp: at_state_def)
  moreover have "unat (p_id p) = c" using a(3) assms(3) u8_of_core by simp
  ultimately show "transaction cfg (prg_request 0 p) h = Inr (served cfg c s)"
    "at_state cfg c (acknowledged c s) (served cfg c s)"
    using prg_transaction [OF _ _ _ _ assms(2,4,5)] assms(6) by (auto simp: at_state_def)
  show "state_next (served cfg c s) = (state_next h)(c := acknowledged c s)"
    using assms(4) by (simp add: prg_frame_def)
qed

lemma requests_at:
  "at_state cfg c st h \<Longrightarrow> p_id p = of_nat c \<Longrightarrow>
     requests_of (pr_req (prg_request 0 p)) (n_prg_ports cfg) c = [(0, p)]"
  by (simp add: at_state_def prg_request_def no_request_def requests_one [simplified] u8_of_core)

text \<open>The first word of a request.\<close>

lemma request_ok:
  assumes "at_state cfg c REQUEST_TYPE h" "p_id p = of_nat c" "p_rw p" "data_byte 1 (p_data p) = c"
    "data_byte 0 (p_data p) = b" "b \<le> 1" "\<forall>i. \<not> due h i"
  shows "\<exists>s. transaction cfg (prg_request 0 p) h = Inr s \<and> same_events h s \<and> mask_type s = mask_type h \<and>
    at_state cfg c (if b = 0 then ASK_EVENT else MANAGE_EVENT) s \<and>
    state_next s = (state_next h)(c := if b = 0 then ASK_EVENT else MANAGE_EVENT)"
proof -
  let ?n = "if b = 0 then ASK_EVENT else MANAGE_EVENT"
  define s where "s = acknowledge c REQUEST_ACC 0 ((idle_mngr cfg h)\<lparr>state_next_next := (state_next_next h)(c := ?n)\<rparr>)"
  have st: "state_next h c = REQUEST_TYPE" using assms(1) by (simp add: at_state_def)
  have one: "programme_core cfg (prg_request 0 p) h c (idle_mngr cfg h) = Inr s"
    unfolding s_def using assms(3-6) st by (auto simp: programme_core_def requests_at [OF assms(1,2)] request_type_def le_Suc_eq)
  have fr: "prg_frame h c REQUEST_ACC s" using assms(7) by (simp add: prg_frame_def due_def s_def)
  have ak: "acknowledged c s = ?n" by (simp add: acknowledged_def s_def)
  have t: "transaction cfg (prg_request 0 p) h = Inr (served cfg c s)" "at_state cfg c ?n (served cfg c s)"
    "state_next (served cfg c s) = (state_next h)(c := ?n)"
    using at_served [OF assms(1) one assms(2) fr] by (simp_all add: ak)
  have "same_events h (served cfg c s)" by (simp add: same_events_def s_def)
  then show ?thesis using t by (intro exI [of _ "served cfg c s"]) (simp add: s_def)
qed

lemma ask_ok:
  assumes "at_state cfg c ASK_EVENT h" "p_id p = of_nat c" "p_rw p" "data_byte 1 (p_data p) = c"
    "data_byte 3 (p_data p) = 1" "\<forall>i. \<not> due h i"
  shows "\<exists>s. transaction cfg (prg_request 0 p) h = Inr s \<and> same_events h s \<and>
    nsl_temp s c = data_byte 0 (p_data p) \<and> in_queue s c = (data_byte 2 (p_data p) \<noteq> 0) \<and> mask_type s c = 1 \<and>
    at_state cfg c WAIT_EVENT s \<and> state_next s = (state_next h)(c := WAIT_EVENT)"
proof -
  define s where "s = acknowledge c ASK_ACC 0 ((idle_mngr cfg h)\<lparr>nsl_temp := (nsl_temp h)(c := data_byte 0 (p_data p)),
      in_queue := (in_queue h)(c := data_byte 2 (p_data p) \<noteq> 0), mask_type := (mask_type h)(c := 1)\<rparr>)"
  have st: "state_next h c = ASK_EVENT" using assms(1) by (simp add: at_state_def)
  have one: "programme_core cfg (prg_request 0 p) h c (idle_mngr cfg h) = Inr s"
    unfolding s_def using assms(3-5) st by (simp add: programme_core_def requests_at [OF assms(1,2)] ask_event_def)
  have fr: "prg_frame h c ASK_ACC s" using assms(6) by (simp add: prg_frame_def due_def s_def)
  have ak: "acknowledged c s = WAIT_EVENT" by (simp add: acknowledged_def s_def)
  have t: "transaction cfg (prg_request 0 p) h = Inr (served cfg c s)" "at_state cfg c WAIT_EVENT (served cfg c s)"
    "state_next (served cfg c s) = (state_next h)(c := WAIT_EVENT)"
    using at_served [OF assms(1) one assms(2) fr] by (simp_all add: ak)
  have "same_events h (served cfg c s)" by (simp add: same_events_def s_def)
  then show ?thesis using t by (intro exI [of _ "served cfg c s"]) (simp add: s_def)
qed

text \<open>The read that grants the first free event, or none.\<close>

definition free_event_number :: "hws \<Rightarrow> nat option" where
  "free_event_number h = List.find (\<lambda>i. \<not> reserved (atomic_counters h i)) [0..<N_HWS_EVENTS]"

definition count_of :: "nat \<Rightarrow> u8" where
  "count_of n = 0x80 OR of_nat n"

definition takes_event :: "hws \<Rightarrow> nat \<Rightarrow> nat \<Rightarrow> nat \<Rightarrow> hws \<Rightarrow> bool" where
  "takes_event h c n i s \<longleftrightarrow> atomic_counters s = (atomic_counters h)(i := count_of n) \<and>
     counters_set_value s = (counters_set_value h)(i := count_of n) \<and>
     hws_mask s = hws_mask h \<and> mask_default s = mask_default h \<and> notify_core s = notify_core h \<and>
     (\<exists>e < N_HWS_EVENTS. ev h c e = None \<and> ev s = (ev h)(c := (ev h c)(e := Some i))) \<and>
     core_stop s = core_stop h \<and> nsl s c i = n"

lemma count_of_bits: "n < 128 \<Longrightarrow> count_of n = of_nat (128 + n)"
proof -
  assume n: "n < 128"
  have "of_nat n AND (0x80 :: u8) = 0"
  proof (rule bit_word_eqI)
    fix i assume "i < LENGTH(8)"
    have "take_bit 7 n = n" using n by (simp add: take_bit_nat_eq_self)
    then have "bit n i \<Longrightarrow> i < 7" by (metis bit_take_bit_iff)
    moreover have "bit (0x80 :: u8) i \<longleftrightarrow> i = 7"
    proof -
      have "(0x80 :: u8) = push_bit 7 1" by (simp add: push_bit_eq_mult)
      then show ?thesis by (simp only: bit_simps) auto
    qed
    ultimately show "bit (of_nat n AND (0x80 :: u8)) i = bit (0 :: u8) i" by (auto simp: bit_and_iff bit_of_nat_iff)
  qed
  then have "0x80 + of_nat n = (0x80 :: u8) OR of_nat n" by (intro disjunctive_add_eq_or) (simp add: and.commute)
  then show ?thesis by (simp add: count_of_def)
qed

lemma unat_count_of: "n < 128 \<Longrightarrow> unat (count_of n) = 128 + n"
  by (simp add: count_of_bits unat_of_nat del: of_nat_add)

lemma wait_ok:
  assumes "at_state cfg c WAIT_EVENT h" "p_id p = of_nat c" "\<not> p_rw p" "\<not> in_queue h c"
    "\<exists>e < N_HWS_EVENTS. ev h c e = None" "0 < nsl_temp h c" "nsl_temp h c < 128" "\<forall>i. \<not> due h i"
  shows "\<exists>s. transaction cfg (prg_request 0 p) h = Inr s \<and> mask_type s = mask_type h \<and>
    at_state cfg c REQUEST_TYPE s \<and> state_next s = (state_next h)(c := REQUEST_TYPE) \<and>
    (case free_event_number h of
       Some i \<Rightarrow> takes_event h c (nsl_temp h c) i s \<and> prg_data s 0 = of_nat i OR push_bit 8 (of_nat c OR 0x80)
     | None \<Rightarrow> same_events h s \<and> prg_data s 0 = push_bit 8 (of_nat c AND 0x7F))"
proof -
  obtain e where e: "List.find (\<lambda>e. ev h c e = None) [0..<N_HWS_EVENTS] = Some e"
    using assms(5) by (cases "List.find (\<lambda>e. ev h c e = None) [0..<N_HWS_EVENTS]") (auto simp: find_None_iff)
  have e': "e < N_HWS_EVENTS" "ev h c e = None" using find_upt_Some [OF e] by auto
  have st: "state_next h c = WAIT_EVENT" using assms(1) by (simp add: at_state_def)
  have cnt: "count_of (nsl_temp h c) \<noteq> 0x80"
    using unat_count_of [OF assms(7)] assms(6) by (simp add: word_unat_eq_iff)
  show ?thesis
  proof (cases "free_event_number h")
    case None
    define s where "s = acknowledge c WAIT_ACC 0 ((idle_mngr cfg h)\<lparr>got_event := (got_event h)(c := False),
        prg_data := (prg_data h)(0 := push_bit 8 (of_nat c AND 0x7F))\<rparr>)"
    have one: "programme_core cfg (prg_request 0 p) h c (idle_mngr cfg h) = Inr s"
      unfolding s_def using assms(3) st e None
      by (simp add: programme_core_def requests_at [OF assms(1,2)] wait_event_def free_event_number_def)
    have fr: "prg_frame h c WAIT_ACC s" using assms(8) by (simp add: prg_frame_def due_def s_def)
    have ak: "acknowledged c s = REQUEST_TYPE" using assms(4) by (simp add: acknowledged_def s_def)
    have t: "transaction cfg (prg_request 0 p) h = Inr (served cfg c s)" "at_state cfg c REQUEST_TYPE (served cfg c s)"
    "state_next (served cfg c s) = (state_next h)(c := REQUEST_TYPE)"
    using at_served [OF assms(1) one assms(2) fr] by (simp_all add: ak)
    show ?thesis using t None by (intro exI [of _ "served cfg c s"]) (simp add: same_events_def s_def)
  next
    case (Some i)
    define s where "s = acknowledge c WAIT_ACC 0 ((idle_mngr cfg h)\<lparr>got_event := (got_event h)(c := True),
        prg_data := (prg_data h)(0 := of_nat i OR push_bit 8 (of_nat c OR 0x80)),
        nsl := (nsl h)(c := (nsl h c)(i := nsl_temp h c)),
        atomic_counters := (atomic_counters h)(i := count_of (nsl_temp h c)),
        counters_set_value := (counters_set_value h)(i := count_of (nsl_temp h c)),
        ev := (ev h)(c := (ev h c)(e := Some i))\<rparr>)"
    have one: "programme_core cfg (prg_request 0 p) h c (idle_mngr cfg h) = Inr s"
      unfolding s_def using assms(3) st e Some
      by (simp add: programme_core_def requests_at [OF assms(1,2)] wait_event_def free_event_number_def count_of_def)
    have fr: "prg_frame h c WAIT_ACC s" using assms(8) cnt by (simp add: prg_frame_def due_def s_def)
    have ak: "acknowledged c s = REQUEST_TYPE" by (simp add: acknowledged_def s_def)
    have t: "transaction cfg (prg_request 0 p) h = Inr (served cfg c s)" "at_state cfg c REQUEST_TYPE (served cfg c s)"
    "state_next (served cfg c s) = (state_next h)(c := REQUEST_TYPE)"
    using at_served [OF assms(1) one assms(2) fr] by (simp_all add: ak)
    show ?thesis using t Some e' by (intro exI [of _ "served cfg c s"]) (auto simp: takes_event_def s_def)
  qed
qed

lemma ports_zero: "func_port_prg ID = 0" "func_port_slv ID = 0"
  by (simp_all add: func_port_prg_def func_port_slv_def N_HWS_PRG_PORTS_def N_HWS_SLV_PORTS_def)

lemma not_due: "at_state cfg c st h \<Longrightarrow> \<forall>i. \<not> due h i"
  by (simp add: at_state_def quiet_def)

lemma word_with_id [simp]:
  "p_id ((word_write a v)\<lparr>p_id := i\<rparr>) = i" "p_rw ((word_write a v)\<lparr>p_id := i\<rparr>) = True"
  "p_data ((word_write a v)\<lparr>p_id := i\<rparr>) = v" "p_id ((word_read a)\<lparr>p_id := i\<rparr>) = i"
  "p_rw ((word_read a)\<lparr>p_id := i\<rparr>) = False"
  by (simp_all add: word_write_def word_read_def)

text \<open>The answers are told apart by bit 7 of the second byte.\<close>

lemma answer_bits:
  fixes C I T :: u32
  assumes "\<And>i. bit C i \<Longrightarrow> i < 4" "\<And>i. bit I i \<Longrightarrow> i < 4" "\<And>i. bit T i \<longleftrightarrow> i = 7"
  shows "drop_bit 8 ((I OR push_bit 8 (C OR T)) AND push_bit 8 (mask 8)) = C OR T"
    "(I OR push_bit 8 (C OR T)) AND mask 8 = I"
    "drop_bit 8 (push_bit 8 (C AND mask 7) AND push_bit 8 (mask 8)) \<noteq> C OR T"
proof -
  show "drop_bit 8 ((I OR push_bit 8 (C OR T)) AND push_bit 8 (mask 8)) = C OR T"
    by (rule bit_word_eqI) (auto simp: bit_simps assms(3) dest: assms(1,2))
  show "(I OR push_bit 8 (C OR T)) AND mask 8 = I"
    by (rule bit_word_eqI) (auto simp: bit_simps assms(3) dest: assms(1,2))
  have "bit (drop_bit 8 (push_bit 8 (C AND mask 7) AND push_bit 8 (mask 8))) 7 \<noteq> bit (C OR T) 7"
    by (auto simp: bit_simps assms(3))
  then show "drop_bit 8 (push_bit 8 (C AND mask 7) AND push_bit 8 (mask 8)) \<noteq> C OR T" by metis
qed

lemma bit_0x80: "bit (0x80 :: u32) i \<longleftrightarrow> i = 7"
proof -
  have "(0x80 :: u32) = push_bit 7 1" by (simp add: push_bit_eq_mult)
  then show ?thesis by (simp only: bit_simps) auto
qed

lemma answer_core:
  assumes "c < MAX_CORES" "i < MAX_CORES"
  shows "drop_bit 8 ((of_nat i OR push_bit 8 (of_nat c OR 0x80)) AND 0xFF00) = (of_nat c OR 0x80 :: u32)"
    "(of_nat i OR push_bit 8 (of_nat c OR 0x80)) AND 0xFF = (of_nat i :: u32)"
    "drop_bit 8 (push_bit 8 (of_nat c AND 0x7F) AND 0xFF00) \<noteq> (of_nat c OR 0x80 :: u32)"
proof -
  have m: "(0xFF00 :: u32) = push_bit 8 (mask 8)" by (simp add: mask_eq_exp_minus_1 push_bit_eq_mult)
  show "drop_bit 8 ((of_nat i OR push_bit 8 (of_nat c OR 0x80)) AND 0xFF00) = (of_nat c OR 0x80 :: u32)"
    "(of_nat i OR push_bit 8 (of_nat c OR 0x80)) AND 0xFF = (of_nat i :: u32)"
    "drop_bit 8 (push_bit 8 (of_nat c AND 0x7F) AND 0xFF00) \<noteq> (of_nat c OR 0x80 :: u32)"
    unfolding m byte_mask
    using answer_bits [of "of_nat c" "of_nat i" "0x80"] core_bits [OF assms(1)] core_bits [OF assms(2)] bit_0x80 by blast+
qed

lemma free_event_less: "free_event_number h = Some i \<Longrightarrow> i < MAX_CORES"
  using find_upt_Some by (auto simp: free_event_number_def MAX_CORES_def N_HWS_EVENTS_def)

lemma same_free_event: "same_events h s \<Longrightarrow> free_event_number s = free_event_number h"
  by (simp add: free_event_number_def same_events_def)

lemma takes_event_same: "same_events h s \<Longrightarrow> takes_event s c n i t = takes_event h c n i t"
  by (simp add: takes_event_def same_events_def)

lemma hws_wait_ok:
  assumes a: "at_state cfg c WAIT_EVENT h" and "\<not> in_queue h c"
    "\<exists>e < N_HWS_EVENTS. ev h c e = None" "0 < nsl_temp h c" "nsl_temp h c < 128"
  shows "\<exists>s. hws_wait_event cfg c 0 h = Inr (case free_event_number h of Some i \<Rightarrow> int i | None \<Rightarrow> -1, s) \<and>
    mask_type s = mask_type h \<and> at_state cfg c REQUEST_TYPE s \<and> state_next s = (state_next h)(c := REQUEST_TYPE) \<and>
    (case free_event_number h of Some i \<Rightarrow> takes_event h c (nsl_temp h c) i s | None \<Rightarrow> same_events h s)"
proof -
  have c: "c < MAX_CORES" using a by (simp add: at_state_def)
  obtain s where s: "prg_read cfg c 0 h = Inr (prg_data s 0, s)" "mask_type s = mask_type h" "at_state cfg c REQUEST_TYPE s"
    "state_next s = (state_next h)(c := REQUEST_TYPE)"
    and r: "case free_event_number h of
       Some i \<Rightarrow> takes_event h c (nsl_temp h c) i s \<and> prg_data s 0 = of_nat i OR push_bit 8 (of_nat c OR 0x80)
     | None \<Rightarrow> same_events h s \<and> prg_data s 0 = push_bit 8 (of_nat c AND 0x7F)"
    using wait_ok [OF a _ _ assms(2-5) not_due [OF a], of "(word_read (HWS_BASE + 4 * of_nat 0))\<lparr>p_id := of_nat c\<rparr>"]
    by (auto simp: prg_read_def)
  show ?thesis
  proof (cases "free_event_number h")
    case None
    then have "hws_wait_event cfg c 0 h = Inr (-1, s)"
      using r answer_core(3) [OF c c]
      by (simp add: hws_wait_event_def s(1) del: push_bit_and)
    then show ?thesis using None r s by (intro exI [of _ s]) simp
  next
    case (Some i)
    have i: "i < MAX_CORES" using free_event_less [OF Some] .
    have d: "prg_data s 0 = of_nat i OR push_bit 8 (of_nat c OR 0x80)" using r Some by simp
    have "hws_wait_event cfg c 0 h = Inr (uint (of_nat i :: u32), s)"
      unfolding hws_wait_event_def s(1) res_map.simps prod.case d
        answer_core(1,2) [OF c i] by (simp only: if_True simp_thms)
    moreover have "uint (of_nat i :: u32) = int i" using unat_core [OF i] by (metis uint_as_nat)
    ultimately show ?thesis using Some r s by (intro exI [of _ s]) simp
  qed
qed

lemma maybe_get_event_ok:
  assumes a: "at_state cfg c REQUEST_TYPE h" and n: "0 < unat N" "unat N < 128"
    and e: "\<exists>e < N_HWS_EVENTS. ev h c e = None"
  shows "\<exists>s. maybe_get_event cfg c N h = Inr (case free_event_number h of Some i \<Rightarrow> int i | None \<Rightarrow> -1, s) \<and>
    mask_type s c = 1 \<and> at_state cfg c REQUEST_TYPE s \<and> state_next s = (state_next h)(c := REQUEST_TYPE) \<and>
    (case free_event_number h of Some i \<Rightarrow> takes_event h c (unat N) i s | None \<Rightarrow> same_events h s)"
proof -
  have c: "c < MAX_CORES" using a by (simp add: at_state_def)
  have N: "N \<le> 0xFF" using n(2) by (simp add: word_le_unat)
  obtain s1 where s1: "prg_write cfg c 0 (push_bit 8 (of_nat c AND 0xFF)) h = Inr s1" "same_events h s1"
    "at_state cfg c ASK_EVENT s1" "state_next s1 = (state_next h)(c := ASK_EVENT)"
    using request_ok [OF a, of "(word_write (HWS_BASE + 4 * of_nat 0) (push_bit 8 (of_nat c AND 0xFF)))\<lparr>p_id := of_nat c\<rparr>" 0]
      not_due [OF a] data_bytes [OF c] unfolding prg_write_def by (auto simp del: push_bit_and)
  define w where "w = push_bit 24 1 OR push_bit 8 (of_nat c AND 0x7F) OR (N AND 0xFF)"
  have b: "data_byte 0 w = unat N" "data_byte 1 w = c" "data_byte 2 w = 0" "data_byte 3 w = 1"
    using request_bytes [OF c N, of 0] unfolding w_def push_bit_of_0 or.right_neutral unat_0 by simp_all
  obtain s2 where s2: "hws_request_event_no_mem_single cfg c N 0 s1 = Inr s2" "same_events s1 s2" "nsl_temp s2 c = unat N"
    "\<not> in_queue s2 c" "mask_type s2 c = 1" "at_state cfg c WAIT_EVENT s2" "state_next s2 = (state_next s1)(c := WAIT_EVENT)"
    using ask_ok [OF s1(3), of "(word_write (HWS_BASE + 4 * of_nat 0) w)\<lparr>p_id := of_nat c\<rparr>"] not_due [OF s1(3)] b
    unfolding hws_request_event_no_mem_single_def prg_write_def w_def [symmetric] by auto
  have he: "same_events h s2" using s1(2) s2(2) by (rule same_events_trans)
  have "\<exists>e < N_HWS_EVENTS. ev s2 c e = None" using e he by (simp add: same_events_def)
  then obtain s3 where s3: "hws_wait_event cfg c 0 s2 = Inr (case free_event_number s2 of Some i \<Rightarrow> int i | None \<Rightarrow> -1, s3)"
    "mask_type s3 = mask_type s2" "at_state cfg c REQUEST_TYPE s3" "state_next s3 = (state_next s2)(c := REQUEST_TYPE)"
    "case free_event_number s2 of Some i \<Rightarrow> takes_event s2 c (nsl_temp s2 c) i s3 | None \<Rightarrow> same_events s2 s3"
    using hws_wait_ok [OF s2(6,4)] n s2(3) by auto
  have "maybe_get_event cfg c N h = Inr (case free_event_number h of Some i \<Rightarrow> int i | None \<Rightarrow> -1, s3)"
    unfolding maybe_get_event_def Let_def ports_zero s1(1) res_bind.simps s2(1) s3(1) same_free_event [OF he] ..
  moreover have "case free_event_number h of Some i \<Rightarrow> takes_event h c (unat N) i s3 | None \<Rightarrow> same_events h s3"
    using s3(5) same_events_trans [OF he, of s3] unfolding same_free_event [OF he] s2(3)
    by (auto simp: takes_event_same [OF he] split: option.splits)
  ultimately show ?thesis using s1(4) s2(5,7) s3(2-4) by (intro exI [of _ s3]) simp
qed

section \<open>Releasing and freeing an event\<close>

lemma arrival_bits:
  fixes C N q :: u32
  assumes "\<And>i. bit C i \<Longrightarrow> i < 4" "\<And>i. bit N i \<Longrightarrow> i < 8" "q = 0 \<or> q = 1"
  defines "w \<equiv> push_bit 16 q OR push_bit 8 (C AND 0xFF) OR (N AND 0xFF)"
  shows "take_bit 8 w = N" "take_bit 8 (drop_bit 8 w) = C" "take_bit 8 (drop_bit 16 w) = q"
proof -
  show "take_bit 8 w = N"
    by (rule bit_word_eqI) (use assms(3) in \<open>auto simp: w_def bit_simps byte_mask dest: assms(1,2)\<close>)
  show "take_bit 8 (drop_bit 8 w) = C"
    by (rule bit_word_eqI) (use assms(3) in \<open>auto simp: w_def bit_simps byte_mask dest: assms(1,2)\<close>)
  show "take_bit 8 (drop_bit 16 w) = q"
    by (rule bit_word_eqI) (use assms(3) in \<open>auto simp: w_def bit_simps byte_mask dest: assms(1,2)\<close>)
qed

lemma arrival_bytes:
  assumes "c < MAX_CORES" "e < N_HWS_EVENTS" "q = 0 \<or> q = 1"
  shows "data_byte 0 (push_bit 16 q OR push_bit 8 (of_nat c AND 0xFF) OR (of_nat e AND 0xFF)) = e"
    "data_byte 1 (push_bit 16 q OR push_bit 8 (of_nat c AND 0xFF) OR (of_nat e AND 0xFF)) = c"
    "data_byte 2 (push_bit 16 q OR push_bit 8 (of_nat c AND 0xFF) OR (of_nat e AND 0xFF)) = unat q"
proof -
  have e: "e < MAX_CORES" using assms(2) by (simp add: MAX_CORES_def N_HWS_EVENTS_def)
  have "bit (of_nat e :: u32) i \<Longrightarrow> i < 8" for i using core_bits [OF e, of i] by simp
  note b = arrival_bits [OF core_bits [OF assms(1)] this assms(3)]
  show "data_byte 0 (push_bit 16 q OR push_bit 8 (of_nat c AND 0xFF) OR (of_nat e AND 0xFF)) = e"
    "data_byte 1 (push_bit 16 q OR push_bit 8 (of_nat c AND 0xFF) OR (of_nat e AND 0xFF)) = c"
    "data_byte 2 (push_bit 16 q OR push_bit 8 (of_nat c AND 0xFF) OR (of_nat e AND 0xFF)) = unat q"
    using b unat_core [OF assms(1)] unat_core [OF e] unfolding data_byte_def by simp_all
qed

definition owns :: "hws \<Rightarrow> nat \<Rightarrow> nat \<Rightarrow> bool" where
  "owns h c e \<longleftrightarrow> (\<exists>k < N_HWS_EVENTS. ev h c k = Some e)"

lemma manage_ok:
  assumes a: "at_state cfg c MANAGE_EVENT h" and "p_id p = of_nat c" "p_rw p" "data_byte 1 (p_data p) = c"
    "data_byte 0 (p_data p) = e" "e < N_HWS_EVENTS" "owns h c e"
  shows "\<exists>s. transaction cfg (prg_request 0 p) h = Inr s \<and> same_events h s \<and> mask_type s = mask_type h \<and>
    ev_managing s c = Some e \<and> at_state cfg c RELEASE_OR_FREE_EVENT s \<and>
    state_next s = (state_next h)(c := RELEASE_OR_FREE_EVENT)"
proof -
  define s where "s = acknowledge c MANAGE_ACC 0 ((idle_mngr cfg h)\<lparr>ev_managing := (ev_managing h)(c := Some e)\<rparr>)"
  have st: "state_next h c = MANAGE_EVENT" using assms(1) by (simp add: at_state_def)
  have "Some e \<in> ev h c ` {..<N_HWS_EVENTS}" using assms(7) unfolding owns_def by (metis imageI lessThan_iff)
  then have one: "programme_core cfg (prg_request 0 p) h c (idle_mngr cfg h) = Inr s"
    unfolding s_def using assms(3-6) st by (simp add: programme_core_def requests_at [OF assms(1,2)] manage_event_def not_le)
  have fr: "prg_frame h c MANAGE_ACC s" using not_due [OF a] by (simp add: prg_frame_def due_def s_def)
  have ak: "acknowledged c s = RELEASE_OR_FREE_EVENT" by (simp add: acknowledged_def s_def)
  have t: "transaction cfg (prg_request 0 p) h = Inr (served cfg c s)" "at_state cfg c RELEASE_OR_FREE_EVENT (served cfg c s)"
    "state_next (served cfg c s) = (state_next h)(c := RELEASE_OR_FREE_EVENT)"
    using at_served [OF assms(1) one assms(2) fr] by (simp_all add: ak)
  have "same_events h (served cfg c s)" by (simp add: same_events_def s_def)
  then show ?thesis using t by (intro exI [of _ "served cfg c s"]) (simp add: s_def)
qed

text \<open>The release of the slaves in \<open>m\<close> by the owner \<open>c\<close> of event \<open>e\<close>.\<close>

definition releases :: "hws_cfg \<Rightarrow> hws \<Rightarrow> nat \<Rightarrow> nat \<Rightarrow> u32 \<Rightarrow> hws \<Rightarrow> bool" where
  "releases cfg h c e m s \<longleftrightarrow> atomic_counters s = atomic_counters h \<and> counters_set_value s = counters_set_value h \<and>
     hws_mask s = (hws_mask h)(e := push_bit c 1) \<and> mask_default s = (mask_default h)(e := push_bit c 1) \<and>
     notify_core s = (notify_core h)(e := True) \<and> ev s = ev h \<and> nsl s = nsl h \<and>
     core_stop s = (\<lambda>sl. if sl < n_slaves cfg \<and> sl < 16 \<and> bit m sl then False else core_stop h sl)"

lemma wake_sel [simp]:
  "atomic_counters (wake cfg m h) = atomic_counters h" "counters_set_value (wake cfg m h) = counters_set_value h"
  "hws_mask (wake cfg m h) = hws_mask h" "mask_default (wake cfg m h) = mask_default h"
  "notify_core (wake cfg m h) = notify_core h" "state_next (wake cfg m h) = state_next h"
  "core_idle (wake cfg m h) = core_idle h" "sg_next (wake cfg m h) = sg_next h" "nsl (wake cfg m h) = nsl h"
  "sync_waiting (wake cfg m h) = sync_waiting h" "idle_cores (wake cfg m h) = idle_cores h" "ev (wake cfg m h) = ev h"
  "core_stop (wake cfg m h) = (\<lambda>sl. if sl < n_slaves cfg \<and> bit m sl then False else core_stop h sl)"
  "state_next_next (wake cfg m h) = state_next_next h" "prg_ports (wake cfg m h) = prg_ports h"
  "mask_type (wake cfg m h) = mask_type h" "sg_ports (wake cfg m h) = sg_ports h"
  by (simp_all add: wake_def)

lemma release_ok:
  assumes a: "at_state cfg c RELEASE_OR_FREE_EVENT h" and "p_id p = of_nat c" "p_rw p" "ev_managing h c = Some e"
    "mask_type h c = 1" "nsl h c e \<le> MAX_SLAVES" "atomic_counters h e \<noteq> 0x80"
  shows "\<exists>s. transaction cfg (prg_request 0 p) h = Inr s \<and> releases cfg h c e (p_data p) s \<and> mask_type s = mask_type h \<and>
    at_state cfg c REQUEST_TYPE s \<and> state_next s = (state_next h)(c := REQUEST_TYPE)"
proof -
  define s where "s = acknowledge c RELEASE_OR_FREE_ACC 0
      ((wake cfg (ucast (ucast (p_data p) :: u16)) ((idle_mngr cfg h)\<lparr>hws_mask := (hws_mask h)(e := push_bit c 1),
        mask_default := (mask_default h)(e := push_bit c 1), notify_core := (notify_core h)(e := True)\<rparr>))
        \<lparr>state_next_next := (state_next_next h)(c := REQUEST_TYPE)\<rparr>)"
  have st: "state_next h c = RELEASE_OR_FREE_EVENT" using assms(1) by (simp add: at_state_def)
  have one: "programme_core cfg (prg_request 0 p) h c (idle_mngr cfg h) = Inr s"
    unfolding s_def using assms(3-6) st
    by (simp add: programme_core_def requests_at [OF assms(1,2)] release_or_free_def release_slaves_def del: res_map_eq)
  have fr: "prg_frame h c RELEASE_OR_FREE_ACC s" using not_due [OF a] assms(7) by (simp add: prg_frame_def due_def s_def)
  have ak: "acknowledged c s = REQUEST_TYPE" by (simp add: acknowledged_def s_def)
  have t: "transaction cfg (prg_request 0 p) h = Inr (served cfg c s)" "at_state cfg c REQUEST_TYPE (served cfg c s)"
    "state_next (served cfg c s) = (state_next h)(c := REQUEST_TYPE)"
    using at_served [OF assms(1) one assms(2) fr] by (simp_all add: ak)
  have "releases cfg h c e (p_data p) (served cfg c s)"
    by (auto simp: releases_def s_def fun_eq_iff bit_simps)
  then show ?thesis using t by (intro exI [of _ "served cfg c s"]) (simp add: s_def)
qed

lemma hws_release_ok:
  assumes a: "at_state cfg c REQUEST_TYPE h" and e: "e < N_HWS_EVENTS" "owns h c e"
    and "mask_type h c = 1" "nsl h c e \<le> MAX_SLAVES" "atomic_counters h e \<noteq> 0x80"
  shows "\<exists>s. hws_release cfg c (of_nat e) m h = Inr s \<and> releases cfg h c e m s \<and> mask_type s = mask_type h \<and>
    at_state cfg c REQUEST_TYPE s \<and> state_next s = (state_next h)(c := REQUEST_TYPE)"
proof -
  have c: "c < MAX_CORES" using a by (simp add: at_state_def)
  obtain s1 where s1: "prg_write cfg c 0 (push_bit 8 (of_nat c AND 0xFF) OR 1) h = Inr s1" "same_events h s1"
    "mask_type s1 = mask_type h" "at_state cfg c MANAGE_EVENT s1" "state_next s1 = (state_next h)(c := MANAGE_EVENT)"
    using request_ok [OF a, of "(word_write (HWS_BASE + 4 * of_nat 0) (push_bit 8 (of_nat c AND 0xFF) OR 1))\<lparr>p_id := of_nat c\<rparr>" 1]
      not_due [OF a] data_bytes [OF c] unfolding prg_write_def by (auto simp del: push_bit_and)
  define w where "w = push_bit 8 (of_nat c AND 0xFF) OR (of_nat e AND 0xFF :: u32)"
  have w: "data_byte 0 w = e" "data_byte 1 w = c"
    using arrival_bytes [OF c e(1), of 0] unfolding w_def push_bit_of_0 or.left_neutral by simp_all
  have "owns s1 c e" using e(2) s1(2) by (simp add: owns_def same_events_def)
  then obtain s2 where s2: "prg_write cfg c 0 w s1 = Inr s2" "same_events s1 s2" "mask_type s2 = mask_type s1"
    "ev_managing s2 c = Some e" "at_state cfg c RELEASE_OR_FREE_EVENT s2" "state_next s2 = (state_next s1)(c := RELEASE_OR_FREE_EVENT)"
    using manage_ok [OF s1(4), of "(word_write (HWS_BASE + 4 * of_nat 0) w)\<lparr>p_id := of_nat c\<rparr>" e] w e(1)
    unfolding prg_write_def by auto
  have he: "same_events h s2" using s1(2) s2(2) by (rule same_events_trans)
  have "nsl s2 c e \<le> MAX_SLAVES" "atomic_counters s2 e \<noteq> 0x80" "mask_type s2 c = 1"
    using assms(4-6) he s1(3) s2(3) by (auto simp: same_events_def)
  then obtain s3 where s3: "prg_write cfg c 0 m s2 = Inr s3" "releases cfg s2 c e m s3" "mask_type s3 = mask_type s2"
    "at_state cfg c REQUEST_TYPE s3" "state_next s3 = (state_next s2)(c := REQUEST_TYPE)"
    using release_ok [OF s2(5), of "(word_write (HWS_BASE + 4 * of_nat 0) m)\<lparr>p_id := of_nat c\<rparr>" e] s2(4)
    unfolding prg_write_def by auto
  have "hws_release cfg c (of_nat e) m h = Inr s3"
    unfolding hws_release_def Let_def ports_zero s1(1) res_bind.simps w_def [symmetric] s2(1) s3(1) ..
  moreover have "releases cfg h c e m s3" using s3(2) he by (simp add: releases_def same_events_def)
  ultimately show ?thesis using s1(3,5) s2(3,6) s3(3-5) by (intro exI [of _ s3]) simp
qed

section \<open>Arrivals\<close>

lemma notify_one:
  assumes "e < N_HWS_EVENTS" "\<And>i. i \<noteq> e \<Longrightarrow> \<not> due old i"
  shows "hws_notify cfg old s = notify_event cfg old e s"
proof -
  have n: "fold (notify_event cfg old) xs s = s" if "\<forall>i \<in> set xs. i < N_HWS_EVENTS \<and> i \<noteq> e" for xs s
    using that assms(2) by (induction xs) (auto simp: notify_event_def due_def)
  have "[0..<N_HWS_EVENTS] = [0..<e] @ e # [Suc e..<N_HWS_EVENTS]"
    using assms(1) upt_add_eq_append [of 0 e "N_HWS_EVENTS - e"] by (simp add: upt_conv_Cons)
  moreover have "fold (notify_event cfg old) [0..<e] s = s" using assms(1) by (intro n) simp
  moreover have "fold (notify_event cfg old) [Suc e..<N_HWS_EVENTS] t = t" for t by (intro n) simp
  ultimately show ?thesis by (simp add: hws_notify_def)
qed

lemma programme_nothing:
  assumes "\<forall>c<MAX_CORES. listening (state_next s c)" "\<forall>port. pr_req inp port = None"
  shows "programme cfg inp old s = Inr s"
proof -
  have "requests_of (pr_req inp) n c = []" for n c using assms(2) by (simp add: requests_of_def)
  then show ?thesis
    unfolding programme_def using assms(1) by (intro each_id programme_core_nothing) simp_all
qed

text \<open>The first cycle of an arrival: the counter goes down, the mask takes the core if it asks for it.\<close>

definition counted :: "hws_cfg \<Rightarrow> hws \<Rightarrow> nat \<Rightarrow> nat \<Rightarrow> nat \<Rightarrow> bool \<Rightarrow> hws" where
  "counted cfg h c e k t =
     (idle_mngr cfg h)\<lparr>atomic_counters := (atomic_counters h)(e := count_of k),
       hws_mask := (if t then (hws_mask h)(e := hws_mask h e OR push_bit c 1) else hws_mask h),
       sg_ports := (sg_ports h)(c := 0), sg_next := (sg_next h)(c := True), sl_rdy := (sl_rdy h)(0 := True)\<rparr>"

lemma counted_sel [simp]:
  "atomic_counters (counted cfg h c e k t) = (atomic_counters h)(e := count_of k)"
  "counters_set_value (counted cfg h c e k t) = counters_set_value h"
  "hws_mask (counted cfg h c e k t) = (if t then (hws_mask h)(e := hws_mask h e OR push_bit c 1) else hws_mask h)"
  "mask_default (counted cfg h c e k t) = mask_default h" "notify_core (counted cfg h c e k t) = notify_core h"
  "core_stop (counted cfg h c e k t) = core_stop h" "core_idle (counted cfg h c e k t) = core_idle h"
  "state_next (counted cfg h c e k t) = state_next h" "nsl (counted cfg h c e k t) = nsl h"
  "ev (counted cfg h c e k t) = ev h" "sg_next (counted cfg h c e k t) = (sg_next h)(c := True)"
  "sg_ports (counted cfg h c e k t) = (sg_ports h)(c := 0)" "sync_waiting (counted cfg h c e k t) = sync_waiting h"
  "idle_cores (counted cfg h c e k t) = idle_cores h"
  by (simp_all add: counted_def)

lemma count_of_step:
  assumes "0 < k" "k < 128"
  shows "reserved (count_of k)" "count_of k AND 0x7F = of_nat k" "(of_nat k - 1) OR 0x80 = count_of (k - 1)"
    "of_nat k \<noteq> (0 :: u8)"
proof -
  have k: "take_bit 7 k = k" using assms(2) by (simp add: take_bit_nat_eq_self)
  have b: "bit (0x80 :: u8) i \<longleftrightarrow> i = 7" for i
  proof -
    have "(0x80 :: u8) = push_bit 7 1" by (simp add: push_bit_eq_mult)
    then show ?thesis by (simp only: bit_simps) auto
  qed
  have t: "take_bit 7 (of_nat k :: u8) = of_nat k"
    using assms(2) by (simp add: word_unat_eq_iff unsigned_take_bit_eq unat_of_nat take_bit_nat_eq_self k)
  then have kb: "bit (of_nat k :: u8) i \<Longrightarrow> i < 7" for i by (metis bit_take_bit_iff)
  have "bit (count_of k) 7" unfolding count_of_def bit_or_iff b by simp
  then show "reserved (count_of k)" by (simp only: reserved_def)
  show "of_nat k \<noteq> (0 :: u8)" using assms by (simp add: word_unat_eq_iff unat_of_nat)
  have m: "(0x7F :: u8) = mask 7" by (simp add: mask_eq_exp_minus_1)
  have "(count_of k AND mask 7) = of_nat k"
  proof (rule bit_word_eqI)
    fix i assume "i < LENGTH(8)"
    show "bit (count_of k AND mask 7) i = bit (of_nat k :: u8) i"
      unfolding count_of_def bit_and_iff bit_or_iff b bit_mask_iff using kb \<open>i < LENGTH(8)\<close> by auto
  qed
  then show "count_of k AND 0x7F = of_nat k" unfolding m .
  have "of_nat k - 1 = (of_nat (k - 1) :: u8)" using assms(1) by (simp add: of_nat_diff)
  then show "(of_nat k - 1) OR 0x80 = count_of (k - 1)" by (simp only: count_of_def or.commute)
qed

lemma arrival_first:
  assumes q: "quiet cfg h" "n_slave_ports cfg = 1" "c < MAX_CORES" "p_id p = of_nat c" "p_rw p"
    and p: "data_byte 0 (p_data p) = e" "data_byte 1 (p_data p) = c" "e < N_HWS_EVENTS"
    and k: "atomic_counters h e = count_of k" "0 < k" "k < 128"
  shows "hws_cycle started_order cfg (slv_request 0 p) h = Inr (counted cfg h c e (k - 1) (data_byte 2 (p_data p) \<noteq> 0))"
proof -
  let ?inp = "slv_request 0 p" and ?h = "idle_mngr cfg h" and ?va = "(atomic_counters h)(e := count_of (k - 1))"
  define s where "s = ?h\<lparr>hws_mask := (if data_byte 2 (p_data p) \<noteq> 0 then (hws_mask h)(e := hws_mask h e OR push_bit c 1) else hws_mask h),
      sg_ports := (sg_ports h)(c := 0), sg_next := (sg_next h)(c := True), sl_rdy := (sl_rdy ?h)(0 := True)\<rparr>"
  have q': "no_sync cfg h" "\<forall>c. \<not> sg_next h c" "\<forall>i. \<not> due h i" "\<forall>c<MAX_CORES. listening (state_next h c)"
    using q(1) by (auto simp: quiet_def)
  have r: "requests_of (sl_req ?inp) (n_slave_ports cfg) x = (if x = c then [(0, p)] else [])" for x
    using q(2,3,4) u8_of_core by (auto simp: slv_request_def no_request_def requests_one [simplified])
  have one: "signal_core cfg ?inp h c (atomic_counters h, ?h) = Inr (?va, s)"
    using q'(2) p k(1) q(5) count_of_step [OF k(2,3)]
    by (simp add: signal_core_def r arrive_def Let_def s_def not_le)
  have "each (signal_core cfg ?inp h) [0..<MAX_CORES] (atomic_counters h, ?h) = Inr (?va, s)"
    using q(3) one q'(2) by (intro each_one [where c = c]) (auto simp: signal_core_def r s_def)
  moreover have "s\<lparr>atomic_counters := (\<lambda>x. if x < N_HWS_EVENTS then ?va x else atomic_counters s x)\<rparr> =
      counted cfg h c e (k - 1) (data_byte 2 (p_data p) \<noteq> 0)"
    using p(3) by (auto simp: counted_def s_def fun_eq_iff idle_mngr_def intro!: hws.equality)
  ultimately have sg: "hws_signal cfg ?inp h ?h = Inr (counted cfg h c e (k - 1) (data_byte 2 (p_data p) \<noteq> 0))"
    by (simp only: hws_signal_def res_map.simps prod.case)
  define g where "g = counted cfg h c e (k - 1) (data_byte 2 (p_data p) \<noteq> 0)"
  have pr: "programme cfg ?inp h g = Inr g"
    using q'(4) by (intro programme_nothing) (simp_all add: g_def slv_request_def no_request_def)
  show ?thesis
    using sg pr unfolding g_def [symmetric]
    by (simp add: hws_cycle_def started_order_def declared_order_def sync_nothing [OF q'(1)] notify_nothing [OF q'(3)]
        del: res_bind_eq_Inr)
qed

text \<open>The second cycle: the core stops; if it was the last one, the mask of the event is woken up
  and the event starts again.\<close>

definition arrives :: "hws_cfg \<Rightarrow> hws \<Rightarrow> nat \<Rightarrow> nat \<Rightarrow> nat \<Rightarrow> bool \<Rightarrow> hws \<Rightarrow> bool" where
  "arrives cfg h c e k t s \<longleftrightarrow>
     (let m = (if t then hws_mask h e OR push_bit c 1 else hws_mask h e) in
      counters_set_value s = counters_set_value h \<and> mask_default s = mask_default h \<and> notify_core s = notify_core h \<and>
      ev s = ev h \<and> nsl s = nsl h \<and> state_next s = state_next h \<and>
      (if k = 1 then atomic_counters s = (atomic_counters h)(e := counters_set_value h e) \<and>
         hws_mask s = (hws_mask h)(e := mask_default h e) \<and>
         core_stop s = (\<lambda>sl. if sl < n_slaves cfg \<and> bit m sl then False else if sl = c then True else core_stop h sl)
       else atomic_counters s = (atomic_counters h)(e := count_of (k - 1)) \<and>
         hws_mask s = (hws_mask h)(e := m) \<and> core_stop s = (core_stop h)(c := True)))"

lemma arrival_second:
  assumes q: "quiet cfg h" "c < MAX_CORES" "c < n_slaves cfg" "e < N_HWS_EVENTS" "notify_core h e"
    and k: "0 < k" "k < 128" "counters_set_value h e \<noteq> 0x80"
  shows "\<exists>s. hws_cycle started_order cfg no_request (counted cfg h c e (k - 1) t) = Inr s \<and> arrives cfg h c e k t s \<and> quiet cfg s"
proof -
  define g where "g = counted cfg h c e (k - 1) t"
  have q': "no_sync cfg h" "\<forall>c. \<not> sg_next h c" "\<forall>i. \<not> due h i" "\<forall>c<MAX_CORES. listening (state_next h c)"
    using q(1) by (auto simp: quiet_def)
  have g: "no_sync cfg g" "sg_next g = (\<lambda>x. x = c)" "state_next g = state_next h" "sg_ports g c = 0"
    using q' by (auto simp: g_def no_sync_def fun_eq_iff)
  have dueg: "due g i \<longleftrightarrow> i = e \<and> k = 1" for i
  proof -
    have "count_of (k - 1) = 0x80 \<longleftrightarrow> k = 1"
      using unat_count_of [of "k - 1"] k by (auto simp: word_unat_eq_iff)
    then show ?thesis using q'(3) q(4,5) by (auto simp: due_def g_def)
  qed
  define s where "s = (idle_mngr cfg g)\<lparr>sl_rdy := (sl_rdy (idle_mngr cfg g))(0 := False), sg_next := (sg_next g)(c := False),
      core_stop := (core_stop g)(c := True), slave_int := (slave_int (idle_mngr cfg g))(c := True)\<rparr>"
  have one: "signal_core cfg no_request g c (atomic_counters g, idle_mngr cfg g) = Inr (atomic_counters g, s)"
    using q(3) g(2,4) by (simp add: signal_core_def s_def)
  have "each (signal_core cfg no_request g) [0..<MAX_CORES] (atomic_counters g, idle_mngr cfg g) = Inr (atomic_counters g, s)"
    using q(2) one g(2) by (intro each_one [where c = c]) (auto simp: signal_core_def s_def no_request_def requests_one)
  moreover have "(\<lambda>x. if x < N_HWS_EVENTS then atomic_counters g x else atomic_counters s x) = atomic_counters s"
    by (simp add: s_def fun_eq_iff)
  then have "s\<lparr>atomic_counters := (\<lambda>x. if x < N_HWS_EVENTS then atomic_counters g x else atomic_counters s x)\<rparr> = s"
    by simp
  ultimately have sg: "hws_signal cfg no_request g (idle_mngr cfg g) = Inr s"
    by (simp only: hws_signal_def res_map.simps prod.case)
  have nt: "hws_notify cfg g s = notify_event cfg g e s" using q(4) dueg by (intro notify_one) auto
  have e: "notify_event cfg g e s = (if k = 1 then (wake cfg (hws_mask g e) s)
      \<lparr>atomic_counters := (atomic_counters s)(e := counters_set_value h e), hws_mask := (hws_mask s)(e := mask_default h e)\<rparr> else s)"
    using dueg [of e] q(4) by (simp add: notify_event_def due_def g_def)
  define u where "u = notify_event cfg g e s"
  have f: "counters_set_value u = counters_set_value h" "mask_default u = mask_default h" "notify_core u = notify_core h"
    "ev u = ev h" "nsl u = nsl h" "state_next u = state_next h" "core_idle u = core_idle h" "sync_waiting u = sync_waiting h"
    "idle_cores u = idle_cores h" "sg_next u = (\<lambda>_. False)"
    unfolding u_def e using q'(2) by (simp_all add: s_def g_def fun_eq_iff)
  have "arrives cfg h c e k t u"
    unfolding arrives_def Let_def f unfolding u_def e by (simp add: s_def) (auto simp: g_def fun_eq_iff)
  moreover have "\<not> due u i" for i
  proof (cases "i = e")
    case True
    then show ?thesis using dueg [of e] q(4,5) k(3) unfolding due_def u_def e by (auto simp: s_def g_def split: if_splits)
  next
    case False
    then show ?thesis using q'(3) unfolding due_def u_def e by (auto simp: s_def g_def)
  qed
  then have "quiet cfg u" using q'(1,4) unfolding quiet_def no_sync_def f by simp
  moreover have "programme cfg no_request g u = Inr u"
    using q'(4) f by (intro programme_nothing) (simp_all add: no_request_def)
  then have "hws_cycle started_order cfg no_request g = Inr u"
    using sg nt unfolding u_def [symmetric]
    by (simp add: hws_cycle_def started_order_def declared_order_def sync_nothing [OF g(1)] del: res_bind_eq_Inr)
  ultimately show ?thesis unfolding g_def [symmetric] by blast
qed

section \<open>The barrier\<close>

lemma arrival_ok:
  assumes q: "quiet cfg h" "n_slave_ports cfg = 1" "c < MAX_CORES" "c < n_slaves cfg" "e < N_HWS_EVENTS"
    and k: "atomic_counters h e = count_of k" "0 < k" "k < 128" "counters_set_value h e \<noteq> 0x80" "notify_core h e"
  shows "\<exists>s. hws_hal_barrier cfg m c (of_nat e) h = Inr s \<and> arrives cfg h c e k (c \<noteq> m) s \<and> quiet cfg s"
proof -
  define b :: u32 where "b = (if c = m then 0 else 1)"
  define w where "w = push_bit 16 b OR push_bit 8 (of_nat c AND 0xFF) OR (of_nat e AND 0xFF :: u32)"
  have b: "b = 0 \<or> b = 1" by (simp add: b_def)
  have w: "data_byte 0 w = e" "data_byte 1 w = c" "data_byte 2 w \<noteq> 0 \<longleftrightarrow> c \<noteq> m"
    using arrival_bytes [OF q(3,5) b] unfolding w_def [symmetric] by (auto simp: b_def)
  have bar: "hws_hal_barrier cfg m c (of_nat e) h = slv_write cfg c 0 w h"
    by (simp add: hws_hal_barrier_def notify_arrival_def notify_and_set_def ports_zero w_def b_def or.assoc del: push_bit_and)
  let ?p = "(word_write (HWS_BASE + 4 * of_nat N_HWS_PRG_PORTS + 4 * of_nat 0) w)\<lparr>p_id := of_nat c\<rparr>"
  have "hws_cycle started_order cfg (slv_request 0 ?p) h = Inr (counted cfg h c e (k - 1) (c \<noteq> m))"
    using arrival_first [OF q(1-3) _ _ _ _ q(5) k(1-3), of ?p] w by simp
  then show ?thesis
    using arrival_second [OF q(1,3,4,5) k(5) k(2-4), of "c \<noteq> m"]
    unfolding bar slv_write_def transaction_def by (simp del: res_bind_eq_Inr)
qed

text \<open>The event \<open>e\<close> of the owner \<open>m\<close> is set up for \<open>n\<close> arrivals, those of \<open>A\<close> have come.\<close>

definition barrier_at :: "hws_cfg \<Rightarrow> nat \<Rightarrow> nat \<Rightarrow> nat \<Rightarrow> nat set \<Rightarrow> hws \<Rightarrow> bool" where
  "barrier_at cfg m e n A h \<longleftrightarrow> quiet cfg h \<and> counters_set_value h e = count_of n \<and> notify_core h e \<and>
     mask_default h e = push_bit m 1 \<and> atomic_counters h e = count_of (n - card A) \<and>
     (\<forall>x<16. bit (hws_mask h e) x \<longleftrightarrow> x = m \<or> x \<in> A)"

lemma barrier_step:
  assumes "barrier_at cfg m e n A h" "n_slave_ports cfg = 1" "e < N_HWS_EVENTS" "finite A" "card A < n" "n < 128"
    and c: "c < MAX_CORES" "c < n_slaves cfg" "c \<notin> A" "m < MAX_CORES"
  shows "\<exists>s. hws_hal_barrier cfg m c (of_nat e) h = Inr s \<and>
    (if card A + 1 < n then barrier_at cfg m e n (insert c A) s \<and> core_stop s = (core_stop h)(c := True)
     else barrier_at cfg m e n {} s \<and> (\<forall>x<16. core_stop s x =
       ((core_stop h x \<or> x = c) \<and> \<not> (x < n_slaves cfg \<and> (x = m \<or> x = c \<or> x \<in> A)))))"
proof -
  have b: "quiet cfg h" "counters_set_value h e = count_of n" "notify_core h e" "mask_default h e = push_bit m 1"
    "atomic_counters h e = count_of (n - card A)" "\<And>x. x < 16 \<Longrightarrow> bit (hws_mask h e) x \<longleftrightarrow> x = m \<or> x \<in> A"
    using assms(1) by (auto simp: barrier_at_def)
  have nz: "counters_set_value h e \<noteq> 0x80"
    using b(2) unat_count_of [OF assms(6)] assms(5) by (auto simp: word_unat_eq_iff)
  have k: "0 < n - card A" "n - card A < 128" using assms(5,6) by linarith+
  obtain s where s: "hws_hal_barrier cfg m c (of_nat e) h = Inr s" "arrives cfg h c e (n - card A) (c \<noteq> m) s" "quiet cfg s"
    using arrival_ok [OF b(1) assms(2) c(1,2) assms(3) b(5) k nz b(3), of m] by blast
  have M: "bit (if c \<noteq> m then hws_mask h e OR push_bit c 1 else hws_mask h e) x \<longleftrightarrow> x = m \<or> x = c \<or> x \<in> A" if "x < 16" for x
    using b(6) [OF that] that by (auto simp: bit_or_iff bit_exp_iff)
  have ins: "card (insert c A) = card A + 1" using c(3) assms(4) by simp
  show ?thesis
  proof (cases "card A + 1 < n")
    case True
    then have "n - card A \<noteq> 1" by simp
    then have "barrier_at cfg m e n (insert c A) s \<and> core_stop s = (core_stop h)(c := True)"
      using s b(2-5) M unfolding barrier_at_def ins by (auto simp: arrives_def Let_def)
    then show ?thesis using s(1) True by auto
  next
    case False
    then have "n - card A = 1" using assms(5) by simp
    then have f: "core_stop s = (\<lambda>sl. if sl < n_slaves cfg \<and> bit (if c \<noteq> m then hws_mask h e OR push_bit c 1 else hws_mask h e) sl
        then False else if sl = c then True else core_stop h sl)"
      "atomic_counters s e = count_of n" "hws_mask s e = push_bit m 1" "counters_set_value s = counters_set_value h"
      "mask_default s = mask_default h" "notify_core s = notify_core h"
      using s(2) b(2,4) by (simp_all add: arrives_def Let_def)
    have "barrier_at cfg m e n {} s"
      using s(3) b(2-4) f(2-6) by (auto simp: barrier_at_def bit_exp_iff)
    moreover have "core_stop s x = ((core_stop h x \<or> x = c) \<and> \<not> (x < n_slaves cfg \<and> (x = m \<or> x = c \<or> x \<in> A)))" if "x < 16" for x
      unfolding f(1) M [OF that] by auto
    ultimately show ?thesis using s(1) False by auto
  qed
qed

definition barrier_arrivals :: "hws_cfg \<Rightarrow> nat \<Rightarrow> nat \<Rightarrow> nat list \<Rightarrow> hws \<Rightarrow> hws res" where
  "barrier_arrivals cfg m e cs h = each (\<lambda>c. hws_hal_barrier cfg m c (of_nat e)) cs h"

lemma barrier_partial:
  assumes "barrier_at cfg m e n A h" "n_slave_ports cfg = 1" "e < N_HWS_EVENTS" "finite A" "n < 128" "m < MAX_CORES"
    and "distinct cs" "set cs \<inter> A = {}" "\<forall>c \<in> set cs. c < MAX_CORES \<and> c < n_slaves cfg" "card A + length cs < n"
  shows "\<exists>s. barrier_arrivals cfg m e cs h = Inr s \<and> barrier_at cfg m e n (A \<union> set cs) s \<and>
    (\<forall>x. core_stop s x = (x \<in> set cs \<or> core_stop h x))"
  using assms
proof (induction cs arbitrary: h A)
  case Nil
  then show ?case by (simp add: barrier_arrivals_def)
next
  case (Cons c cs)
  obtain s where s: "hws_hal_barrier cfg m c (of_nat e) h = Inr s" "barrier_at cfg m e n (insert c A) s"
    "core_stop s = (core_stop h)(c := True)"
    using barrier_step [OF Cons.prems(1-4), of c] Cons.prems(5-) by auto
  have "card (insert c A) + length cs < n" using Cons.prems by simp
  then obtain t where "barrier_arrivals cfg m e cs s = Inr t" "barrier_at cfg m e n (insert c A \<union> set cs) t"
    "\<forall>x. core_stop t x = (x \<in> set cs \<or> core_stop s x)"
    using Cons.IH [OF s(2)] Cons.prems by auto
  then show ?case using s(1,3) by (auto simp: barrier_arrivals_def)
qed

lemma barrier_complete:
  assumes a: "barrier_at cfg m e (length cs) {} h" "n_slave_ports cfg = 1" "e < N_HWS_EVENTS" "length cs < 128"
    and c: "distinct cs" "m \<in> set cs" "\<forall>c \<in> set cs. c < MAX_CORES \<and> c < n_slaves cfg"
  shows "\<exists>s. barrier_arrivals cfg m e cs h = Inr s \<and> barrier_at cfg m e (length cs) {} s \<and>
    (\<forall>x<16. core_stop s x = (core_stop h x \<and> x \<notin> set cs))"
proof -
  have ne: "cs \<noteq> []" using c(2) by auto
  have sp: "set cs = insert (last cs) (set (butlast cs))"
    by (subst append_butlast_last_id [OF ne, symmetric]) simp
  have d: "distinct (butlast cs)" "last cs \<notin> set (butlast cs)"
    using c(1) append_butlast_last_id [OF ne] distinct_append [of "butlast cs" "[last cs]"] by auto
  have cd: "card (set (butlast cs)) + 1 = length cs" using ne distinct_card [OF d(1)] by simp
  have lt: "length (butlast cs) < length cs" using ne by simp
  have m: "m < MAX_CORES" using c(2,3) by blast
  obtain s where s: "barrier_arrivals cfg m e (butlast cs) h = Inr s" "barrier_at cfg m e (length cs) (set (butlast cs)) s"
    "\<forall>x. core_stop s x = (x \<in> set (butlast cs) \<or> core_stop h x)"
    using barrier_partial [OF a(1-3) _ a(4) m d(1)] c(3) sp lt by auto
  have "last cs < MAX_CORES" "last cs < n_slaves cfg" using c(3) ne last_in_set by blast+
  then obtain t where t: "hws_hal_barrier cfg m (last cs) (of_nat e) s = Inr t" "barrier_at cfg m e (length cs) {} t"
    "\<forall>x<16. core_stop t x = ((core_stop s x \<or> x = last cs) \<and>
       \<not> (x < n_slaves cfg \<and> (x = m \<or> x = last cs \<or> x \<in> set (butlast cs))))"
    using barrier_step [OF s(2) a(2,3) _ _ a(4) _ _ d(2) m] cd by auto
  have "barrier_arrivals cfg m e (butlast cs @ [last cs]) h = Inr t"
    using s(1) t(1) by (simp add: barrier_arrivals_def each_append del: append_butlast_last_id)
  moreover have "core_stop t x = (core_stop h x \<and> x \<notin> set cs)" if "x < 16" for x
    using t(3) s(3) that c(2,3) sp by auto
  ultimately show ?thesis using t(2) append_butlast_last_id [OF ne] by auto
qed

text \<open>Whole rounds of a team \<open>T\<close>, each in an order of its own.\<close>

definition barrier_rounds :: "hws_cfg \<Rightarrow> nat \<Rightarrow> nat \<Rightarrow> nat list list \<Rightarrow> hws \<Rightarrow> hws res" where
  "barrier_rounds cfg m e css h = each (barrier_arrivals cfg m e) css h"

definition team_orders :: "hws_cfg \<Rightarrow> nat \<Rightarrow> nat set \<Rightarrow> nat list list \<Rightarrow> bool" where
  "team_orders cfg m T css \<longleftrightarrow> m \<in> T \<and> (\<forall>c \<in> T. c < MAX_CORES \<and> c < n_slaves cfg) \<and>
     (\<forall>cs \<in> set css. distinct cs \<and> set cs = T)"

lemma team_small:
  assumes "\<forall>c \<in> T. c < MAX_CORES" "m \<in> T"
  shows "finite T" "0 < card T" "card T \<le> 16"
proof -
  have s: "T \<subseteq> {..<16}" using assms(1) by (auto simp: MAX_CORES_def)
  then show f: "finite T" by (rule finite_subset) simp
  show "0 < card T" using f assms(2) by (auto simp: card_gt_0_iff)
  show "card T \<le> 16" using card_mono [OF _ s] by simp
qed

lemma rounds_ok:
  assumes "barrier_at cfg m e (card T) {} h" "n_slave_ports cfg = 1" "e < N_HWS_EVENTS" "team_orders cfg m T css"
  shows "\<exists>s. barrier_rounds cfg m e css h = Inr s \<and> barrier_at cfg m e (card T) {} s \<and>
    (\<forall>x<16. core_stop s x = (core_stop h x \<and> (css = [] \<or> x \<notin> T)))"
  using assms
proof (induction css arbitrary: h)
  case Nil
  then show ?case by (simp add: barrier_rounds_def)
next
  case (Cons cs css)
  have t: "distinct cs" "set cs = T" "m \<in> set cs" "\<forall>c \<in> set cs. c < MAX_CORES \<and> c < n_slaves cfg"
    using Cons.prems(4) by (auto simp: team_orders_def)
  have n: "card T = length cs" using t distinct_card [OF t(1)] by simp
  have "length cs < 128" using team_small(3) [of T m] t n by auto
  then obtain s where s: "barrier_arrivals cfg m e cs h = Inr s" "barrier_at cfg m e (length cs) {} s"
    "\<forall>x<16. core_stop s x = (core_stop h x \<and> x \<notin> set cs)"
    using barrier_complete [of cfg m e cs h] Cons.prems(1-3) t n by auto
  obtain u where "barrier_rounds cfg m e css s = Inr u" "barrier_at cfg m e (card T) {} u"
    "\<forall>x<16. core_stop u x = (core_stop s x \<and> (css = [] \<or> x \<notin> T))"
    using Cons.IH [of s] Cons.prems(2-4) s(2) n by (auto simp: team_orders_def)
  then show ?case using s(1,3) t(2) by (auto simp: barrier_rounds_def)
qed

lemma event_set_up:
  assumes a: "at_state cfg m REQUEST_TYPE h" and T: "m \<in> T" "\<forall>c \<in> T. c < MAX_CORES \<and> c < n_slaves cfg"
    and e: "\<exists>k < N_HWS_EVENTS. ev h m k = None" "free_event_number h = Some e"
  shows "\<exists>g r. maybe_get_event cfg m (of_nat (card T)) h = Inr (int e, g) \<and>
    hws_MSGBarrier_Release cfg m (of_nat e) team m g = Inr r \<and> e < N_HWS_EVENTS \<and> barrier_at cfg m e (card T) {} r \<and>
    core_stop g = core_stop h \<and>
    (\<forall>x<16. core_stop r x = (core_stop h x \<and> \<not> (x < n_slaves cfg \<and> x \<noteq> m \<and> bit team x)))"
proof -
  have t: "0 < card T" "card T \<le> 16" using team_small [of T m] T by auto
  have u: "unat (of_nat (card T) :: u32) = card T" using t by (simp add: unat_of_nat)
  obtain g where g: "maybe_get_event cfg m (of_nat (card T)) h = Inr (int e, g)" "mask_type g m = 1"
    "at_state cfg m REQUEST_TYPE g" "takes_event h m (card T) e g"
    using maybe_get_event_ok [OF a, of "of_nat (card T)"] e t unfolding u by auto
  have eN: "e < N_HWS_EVENTS" using find_upt_Some e(2) by (auto simp: free_event_number_def)
  have o: "owns g m e" "nsl g m e = card T" "atomic_counters g e = count_of (card T)"
    "counters_set_value g e = count_of (card T)" "core_stop g = core_stop h"
    using g(4) by (auto simp: takes_event_def owns_def)
  have nz: "atomic_counters g e \<noteq> 0x80"
    using o(3) unat_count_of [of "card T"] t by (auto simp: word_unat_eq_iff)
  obtain r where r: "hws_release cfg m (of_nat e) (team AND NOT (push_bit m 1)) g = Inr r"
    "releases cfg g m e (team AND NOT (push_bit m 1)) r" "at_state cfg m REQUEST_TYPE r"
    using hws_release_ok [OF g(3) eN o(1) g(2) _ nz] o(2) t(2) by (auto simp: MAX_SLAVES_def)
  have m: "m < 16" using T by (auto simp: MAX_CORES_def)
  have "barrier_at cfg m e (card T) {} r"
    using r(2,3) o by (auto simp: barrier_at_def releases_def at_state_def bit_exp_iff)
  moreover have "core_stop r x = (core_stop h x \<and> \<not> (x < n_slaves cfg \<and> x \<noteq> m \<and> bit team x))" if "x < 16" for x
  proof -
    have "bit (team AND NOT (push_bit m 1)) x \<longleftrightarrow> x \<noteq> m \<and> bit team x"
      using that m by (auto simp: bit_and_iff bit_not_iff bit_exp_iff)
    then show ?thesis using r(2) that o(5) by (auto simp: releases_def)
  qed
  ultimately show ?thesis using g(1) r(1) eN o(5) unfolding hws_MSGBarrier_Release_def by blast
qed

text \<open>The cores that are stopped.\<close>

definition stopped :: "hws \<Rightarrow> nat set" where
  "stopped h = {x. x < MAX_CORES \<and> core_stop h x}"

text \<open>C13: the life of a hardware barrier. A core that asks for an event for its team gets the first
  free one; its release wakes exactly the other slaves of the mask; then, in any number of rounds,
  whatever the order of the arrivals in each of them, the cores that have arrived are stopped and
  all others run on, and the last arrival wakes the whole team and leaves the event ready for
  the next round.\<close>

theorem hardware_barrier:
  assumes "quiet cfg h" "n_prg_ports cfg = 1" "n_slave_ports cfg = 1" "state_next h m = REQUEST_TYPE"
    and "team_orders cfg m T (css @ [ds])" "None \<in> ev h m ` {..<N_HWS_EVENTS}" "free_event_number h = Some e" "k < card T"
  shows "\<exists>g r s t. maybe_get_event cfg m (of_nat (card T)) h = Inr (int e, g) \<and>
    hws_MSGBarrier_Release cfg m (of_nat e) team m g = Inr r \<and>
    stopped r = stopped h - {x. x < n_slaves cfg \<and> x \<noteq> m \<and> bit team x} \<and>
    barrier_rounds cfg m e css r = Inr s \<and> stopped s = (if css = [] then stopped r else stopped r - T) \<and>
    barrier_arrivals cfg m e (take k ds) s = Inr t \<and> stopped t = stopped s \<union> set (take k ds)"
proof -
  have T: "m \<in> T" "\<forall>c \<in> T. c < MAX_CORES \<and> c < n_slaves cfg" "team_orders cfg m T css" "distinct ds" "set ds = T"
    using assms(5) by (auto simp: team_orders_def)
  have a: "at_state cfg m REQUEST_TYPE h" using assms(1,2,4) T(1,2) by (simp add: at_state_def)
  have f: "\<exists>k < N_HWS_EVENTS. ev h m k = None" using assms(6) by force
  obtain g r where r: "maybe_get_event cfg m (of_nat (card T)) h = Inr (int e, g)"
    "hws_MSGBarrier_Release cfg m (of_nat e) team m g = Inr r" "e < N_HWS_EVENTS" "barrier_at cfg m e (card T) {} r"
    "\<forall>x<16. core_stop r x = (core_stop h x \<and> \<not> (x < n_slaves cfg \<and> x \<noteq> m \<and> bit team x))"
    using event_set_up [OF a T(1,2) f assms(7), of team] by blast
  obtain s where s: "barrier_rounds cfg m e css r = Inr s" "barrier_at cfg m e (card T) {} s"
    "\<forall>x<16. core_stop s x = (core_stop r x \<and> (css = [] \<or> x \<notin> T))"
    using rounds_ok [OF r(4) assms(3) r(3) T(3)] by blast
  have "\<exists>t. barrier_arrivals cfg m e (take k ds) s = Inr t \<and> barrier_at cfg m e (card T) ({} \<union> set (take k ds)) t \<and>
      (\<forall>x. core_stop t x = (x \<in> set (take k ds) \<or> core_stop s x))"
    using team_small [of T m] T(1,2)
    by (intro barrier_partial [OF s(2) assms(3) r(3)])
      (use T assms(8) in \<open>auto dest: in_set_takeD\<close>)
  then obtain t where t: "barrier_arrivals cfg m e (take k ds) s = Inr t"
    "\<forall>x. core_stop t x = (x \<in> set (take k ds) \<or> core_stop s x)" by blast
  have "set (take k ds) \<subseteq> {..<MAX_CORES}" using T(2,5) by (auto dest: in_set_takeD)
  then have "stopped t = stopped s \<union> set (take k ds)" using t(2) by (auto simp: stopped_def)
  moreover have "stopped r = stopped h - {x. x < n_slaves cfg \<and> x \<noteq> m \<and> bit team x}"
    "stopped s = (if css = [] then stopped r else stopped r - T)"
    using r(5) s(3) by (auto simp: stopped_def MAX_CORES_def)
  ultimately show ?thesis using r(1,2) s(1) t(1) by blast
qed

definition demo_cfg :: hws_cfg where
  "demo_cfg = \<lparr>n_slaves = 4, n_slave_ports = 1, n_prg_ports = 1, hws_N_CORES = 4\<rparr>"

text \<open>A synchronizer whose memory was zero before the constructor ran; core 3 is stopped.\<close>

definition demo_hws :: hws where
  "demo_hws = new_hws \<lparr>atomic_counters = (\<lambda>_. 0), counters_set_value = (\<lambda>_. 0), hws_mask = (\<lambda>_. 0),
     mask_default = (\<lambda>_. 0), notify_core = (\<lambda>_. False), slave_int = (\<lambda>_. False), pr_rdy = (\<lambda>_. False),
     sl_rdy = (\<lambda>_. False), prg_data = (\<lambda>_. 0), core_stop = (\<lambda>c. c = 3), core_idle = (\<lambda>_. False),
     sent_idle = (\<lambda>_. False), state_next = (\<lambda>_. REQUEST_TYPE), state_next_next = (\<lambda>_. REQUEST_TYPE),
     nsl = (\<lambda>_ _. 0), nsl_temp = (\<lambda>_. 0), in_queue = (\<lambda>_. False), got_event = (\<lambda>_. False),
     mask_type = (\<lambda>_. 0), prg_ports = (\<lambda>_. 0), ev_managing = (\<lambda>_. None), ev = (\<lambda>_ _. None),
     sg_next = (\<lambda>_. False), sg_ports = (\<lambda>_. 0), idle_cores = 0, sync_waiting = False\<rparr>"

lemma new_hws_quiet:
  assumes "\<forall>i. \<not> core_idle h i" "0 < hws_N_CORES cfg"
  shows "quiet cfg (new_hws h)" "state_next (new_hws h) c = REQUEST_TYPE" "ev (new_hws h) c k = None"
    "free_event_number (new_hws h) = Some 0"
proof -
  have "List.find (\<lambda>i. \<not> reserved (0 :: u8)) [0..<N_HWS_EVENTS] = Some 0"
    by (simp add: N_HWS_EVENTS_def upt_rec reserved_def)
  then show "free_event_number (new_hws h) = Some 0" by (simp add: free_event_number_def new_hws_def)
qed (use assms in \<open>simp_all add: quiet_def no_sync_def due_def new_hws_def\<close>)

lemma demo_hws_quiet:
  "quiet demo_cfg demo_hws" "state_next demo_hws c = REQUEST_TYPE" "ev demo_hws c k = None"
  "free_event_number demo_hws = Some 0"
  unfolding demo_hws_def by (rule new_hws_quiet [where cfg = demo_cfg]; simp add: demo_cfg_def)+

theorem hardware_barrier_witness:
  "\<exists>g r s t. maybe_get_event demo_cfg 1 (of_nat (card {0, 1, 3 :: nat})) demo_hws = Inr (int 0, g) \<and>
    hws_MSGBarrier_Release demo_cfg 1 (of_nat 0) 11 1 g = Inr r \<and>
    stopped r = stopped demo_hws - {x. x < n_slaves demo_cfg \<and> x \<noteq> 1 \<and> bit (11 :: u32) x} \<and>
    barrier_rounds demo_cfg 1 0 [[3, 0, 1]] r = Inr s \<and>
    stopped s = (if [[3, 0, 1]] = ([] :: nat list list) then stopped r else stopped r - {0, 1, 3}) \<and>
    barrier_arrivals demo_cfg 1 0 (take 2 [1, 3, 0]) s = Inr t \<and> stopped t = stopped s \<union> set (take 2 [1, 3, 0])"
proof (rule hardware_barrier)
  show "team_orders demo_cfg 1 {0, 1, 3} ([[3, 0, 1]] @ [[1, 3, 0]])"
    by (auto simp: team_orders_def demo_cfg_def MAX_CORES_def)
  show "None \<in> ev demo_hws 1 ` {..<N_HWS_EVENTS}" by (auto simp: demo_hws_quiet N_HWS_EVENTS_def image_iff intro: exI [of _ 0])
qed (simp_all add: demo_hws_quiet, simp_all add: demo_cfg_def)

section \<open>Who owns an event\<close>

inductive hws_reach :: "hws_thread list \<Rightarrow> hws_cfg \<Rightarrow> hws \<Rightarrow> bool" for order cfg where
  reach_new: "hws_reach order cfg (new_hws h)"
| reach_cycle: "hws_reach order cfg s \<Longrightarrow> hws_cycle order cfg inp s = Inr s' \<Longrightarrow> hws_reach order cfg s'"

definition ev_at :: "hws \<Rightarrow> nat \<Rightarrow> nat \<Rightarrow> nat \<Rightarrow> bool" where
  "ev_at s c k i \<longleftrightarrow> c < MAX_CORES \<and> k < N_HWS_EVENTS \<and> ev s c k = Some i"

definition events_ok :: "hws \<Rightarrow> bool" where
  "events_ok s \<longleftrightarrow>
     (\<forall>i<N_HWS_EVENTS. reserved (counters_set_value s i) = reserved (atomic_counters s i)) \<and>
     (\<forall>i<N_HWS_EVENTS. reserved (atomic_counters s i) = (\<exists>c k. ev_at s c k i)) \<and>
     (\<forall>c k i. ev_at s c k i \<longrightarrow> i < N_HWS_EVENTS) \<and>
     (\<forall>c k i c' k'. ev_at s c k i \<longrightarrow> ev_at s c' k' i \<longrightarrow> c = c' \<and> k = k')"

definition same_owners :: "hws \<Rightarrow> hws \<Rightarrow> bool" where
  "same_owners s t \<longleftrightarrow> ev t = ev s \<and> counters_set_value t = counters_set_value s \<and>
     (\<forall>i<N_HWS_EVENTS. reserved (atomic_counters t i) = reserved (atomic_counters s i))"

lemma events_ok_same: "events_ok s \<Longrightarrow> same_owners s t \<Longrightarrow> events_ok t"
proof -
  assume a: "events_ok s" and b: "same_owners s t"
  have "ev_at t = ev_at s" using b by (simp add: ev_at_def same_owners_def fun_eq_iff)
  then show "events_ok t"
    using a b unfolding events_ok_def same_owners_def by (simp only: simp_thms) blast
qed

lemma same_owners_trans: "same_owners s t \<Longrightarrow> same_owners t u \<Longrightarrow> same_owners s u"
  by (simp add: same_owners_def)

lemma same_owners_refl [simp]: "same_owners s s"
  by (simp add: same_owners_def)

lemma reserved_or: "reserved (x OR 0x80)" "reserved (0x80 OR x)" "\<not> reserved 0"
proof -
  have "(0x80 :: u8) = push_bit 7 1" by (simp add: push_bit_eq_mult)
  then have "bit (0x80 :: u8) 7" by (simp only: bit_simps) simp
  then show "reserved (x OR 0x80)" "reserved (0x80 OR x)" by (simp_all only: reserved_def bit_or_iff simp_thms)
  show "\<not> reserved 0" by (simp add: reserved_def)
qed

lemma sync_owners: "sync_mngr cfg s = Inr t \<Longrightarrow> same_owners s t"
  by (auto simp: sync_mngr_def same_owners_def Let_def split: if_splits)

lemma signal_owners:
  assumes "hws_signal cfg inp old s = Inr t" "same_owners old s"
  shows "same_owners old t"
proof -
  let ?P = "\<lambda>(va, s'). ev s' = ev s \<and> counters_set_value s' = counters_set_value s \<and> (\<forall>i. reserved (va i) = reserved (atomic_counters old i))"
  obtain va s' where e: "each (signal_core cfg inp old) [0..<MAX_CORES] (atomic_counters old, s) = Inr (va, s')"
    and t: "t = s'\<lparr>atomic_counters := (\<lambda>e. if e < N_HWS_EVENTS then va e else atomic_counters s' e)\<rparr>"
    using assms(1) by (auto simp: hws_signal_def)
  have ar: "?P vs'" if pre: "?P vs" and ar: "arrive old c r vs = Inr vs'" for c r vs vs'
  proof -
    obtain port p va s1 where c: "r = (port, p)" "vs = (va, s1)" by (metis surj_pair)
    let ?e = "data_byte 0 (p_data p)"
    obtain x where "reserved (va ?e)" "fst vs' = va(?e := x OR 0x80)" "ev (snd vs') = ev s1"
      "counters_set_value (snd vs') = counters_set_value s1"
      using ar unfolding c arrive_def prod.case Let_def by (auto split: if_splits)
    then show ?thesis using pre unfolding c by (cases vs') (auto simp: reserved_or(1))
  qed
  have "?P (va, s')"
  proof (rule each_invariant [OF e])
    fix c vs vs' assume "?P vs" "signal_core cfg inp old c vs = Inr vs'"
    then show "?P vs'"
      using each_invariant [where P = ?P and f = "arrive old c", OF _ _ ar]
      by (cases vs) (auto simp: signal_core_def split: if_splits)
  qed simp
  then show ?thesis using assms(2) t by (simp add: same_owners_def)
qed

lemma notify_owners:
  assumes "events_ok old" "same_owners old s"
  shows "same_owners old (hws_notify cfg old s)"
proof -
  have "same_owners old (fold (notify_event cfg old) is s)" if "same_owners old s" "\<forall>i \<in> set is. i < N_HWS_EVENTS" for "is" s
    using that
  proof (induction "is" arbitrary: s)
    case (Cons i "is")
    have "reserved (counters_set_value old i) = reserved (atomic_counters old i)"
      using assms(1) Cons.prems(2) by (simp add: events_ok_def)
    then have "same_owners old (notify_event cfg old i s)"
      using Cons.prems(1) by (simp add: same_owners_def notify_event_def)
    then show ?case using Cons by simp
  qed simp
  then show ?thesis using assms(2) by (simp add: hws_notify_def)
qed

text \<open>A core of \<open>programme\<close> without a request changes no event; with one, it takes or frees at most
  one of its own.\<close>

lemma core_without_request:
  "requests_of (pr_req inp) (n_prg_ports cfg) c = [] \<Longrightarrow> programme_core cfg inp old c s = Inr t \<Longrightarrow>
     ev t = ev s \<and> atomic_counters t = atomic_counters s \<and> counters_set_value t = counters_set_value s"
  by (cases "state_next s c") (auto simp: programme_core_def)

lemma take_event_ok:
  assumes "events_ok s" "c < MAX_CORES" "k < N_HWS_EVENTS" "ev s c k = None" "i < N_HWS_EVENTS" "\<not> reserved (atomic_counters s i)"
    and t: "ev t = (ev s)(c := (ev s c)(k := Some i))" "atomic_counters t = (atomic_counters s)(i := 0x80 OR n)"
      "counters_set_value t = (counters_set_value s)(i := 0x80 OR n)"
  shows "events_ok t"
proof -
  have e: "ev_at t c' k' j \<longleftrightarrow> (if c' = c \<and> k' = k then j = i else ev_at s c' k' j)" for c' k' j
    using assms(2,3) by (auto simp: ev_at_def t(1))
  have no: "\<not> ev_at s c' k' i" for c' k' using assms(1,5,6) unfolding events_ok_def by blast
  have "reserved (atomic_counters t j) = (\<exists>c k. ev_at t c k j)" if "j < N_HWS_EVENTS" for j
  proof (cases "j = i")
    case True
    then have "ev_at t c k j" using e by simp
    then show ?thesis using True t(2) by (auto simp: reserved_or)
  next
    case False
    have "\<not> ev_at s c k j" using assms(4) by (simp add: ev_at_def)
    then have "(\<exists>c k. ev_at t c k j) = (\<exists>c k. ev_at s c k j)" using e False by metis
    then show ?thesis using assms(1) that False t(2) by (simp add: events_ok_def)
  qed
  moreover have "\<forall>c' k' j. ev_at t c' k' j \<longrightarrow> j < N_HWS_EVENTS" using e assms(1,5) by (auto simp: events_ok_def)
  moreover have "\<forall>c k j c' k'. ev_at t c k j \<longrightarrow> ev_at t c' k' j \<longrightarrow> c = c' \<and> k = k'"
    unfolding e using no assms(1) unfolding events_ok_def by metis
  moreover have "\<forall>j<N_HWS_EVENTS. reserved (counters_set_value t j) = reserved (atomic_counters t j)"
    using assms(1) t(2,3) by (simp add: events_ok_def)
  ultimately show ?thesis unfolding events_ok_def by blast
qed

lemma free_event_ok:
  assumes "events_ok s" "ev_at s c k i"
    and t: "ev t = (ev s)(c := (ev s c)(k := None))" "atomic_counters t = (atomic_counters s)(i := 0)"
      "counters_set_value t = (counters_set_value s)(i := 0)"
  shows "events_ok t"
proof -
  have e: "ev_at t c' k' j \<longleftrightarrow> ev_at s c' k' j \<and> \<not> (c' = c \<and> k' = k)" for c' k' j
    by (auto simp: ev_at_def t(1))
  have only: "ev_at s c' k' i \<Longrightarrow> c' = c \<and> k' = k" for c' k'
    using assms(1,2) unfolding events_ok_def by blast
  have "reserved (atomic_counters t j) = (\<exists>c k. ev_at t c k j)" if "j < N_HWS_EVENTS" for j
  proof (cases "j = i")
    case True
    then show ?thesis using e only t(2) by (auto simp: reserved_or)
  next
    case False
    have "\<not> ev_at s c k j" using assms(2) False by (simp add: ev_at_def)
    then have "(\<exists>c k. ev_at t c k j) = (\<exists>c k. ev_at s c k j)" using e by metis
    then show ?thesis using assms(1) that False t(2) by (simp add: events_ok_def)
  qed
  moreover have "\<forall>j<N_HWS_EVENTS. reserved (counters_set_value t j) = reserved (atomic_counters t j)"
    using assms(1) t(2,3) by (simp add: events_ok_def)
  ultimately show ?thesis using assms(1) e unfolding events_ok_def by metis
qed

lemma wake_owners [simp]: "ev (wake cfg m s) = ev s"
  by (simp add: wake_def)

lemma core_with_request:
  assumes ok: "events_ok s" and same: "atomic_counters s = c0" "\<forall>i<N_HWS_EVENTS. reserved (c0 i) = reserved (atomic_counters old i)"
    and c: "c < MAX_CORES" and r: "requests_of (pr_req inp) (n_prg_ports cfg) c = [(port, p)]"
    and t: "programme_core cfg inp old c s = Inr t"
  shows "events_ok t"
proof -
  have keep: "events_ok t" if "ev t = ev s" "atomic_counters t = atomic_counters s" "counters_set_value t = counters_set_value s"
    by (rule events_ok_same [OF ok]) (simp add: same_owners_def that)
  consider (wait) "state_next s c = WAIT_EVENT" | (free) "state_next s c = RELEASE_OR_FREE_EVENT"
    | (other) "state_next s c \<notin> {WAIT_EVENT, RELEASE_OR_FREE_EVENT}" by blast
  then show ?thesis
  proof cases
    case wait
    then have w: "wait_event old c (port, p) s = Inr t" using t by (simp add: programme_core_def r)
    obtain k where k: "List.find (\<lambda>e. ev s c e = None) [0..<N_HWS_EVENTS] = Some k"
      using w by (auto simp: wait_event_def split: if_splits option.splits)
    show ?thesis
    proof (cases "List.find (\<lambda>i. \<not> reserved (atomic_counters old i)) [0..<N_HWS_EVENTS]")
      case None
      then show ?thesis using w k by (intro keep) (auto simp: wait_event_def split: if_splits)
    next
      case (Some i)
      have i: "i < N_HWS_EVENTS" "\<not> reserved (atomic_counters s i)" using find_upt_Some [OF Some] same by auto
      have "ev t = (ev s)(c := (ev s c)(k := Some i))"
        "atomic_counters t = (atomic_counters s)(i := 0x80 OR of_nat (nsl_temp s c))"
        "counters_set_value t = (counters_set_value s)(i := 0x80 OR of_nat (nsl_temp s c))"
        using w k Some by (auto simp: wait_event_def split: if_splits)
      moreover have "k < N_HWS_EVENTS" "ev s c k = None" using find_upt_Some [OF k] by auto
      ultimately show ?thesis using take_event_ok [OF ok c _ _ i, of k t] by blast
    qed
  next
    case free
    then have w: "release_or_free cfg c (port, p) s = Inr t" using t by (simp add: programme_core_def r)
    obtain m where m: "ev_managing s c = Some m"
      using w by (auto simp: release_or_free_def split: option.splits)
    show ?thesis
    proof (cases "p_rw p")
      case True
      then show ?thesis using w m
        by (intro keep) (auto simp: release_or_free_def release_slaves_def split: if_splits)
    next
      case False
      obtain k where k: "List.find (\<lambda>e. ev s c e = Some m) [0..<N_HWS_EVENTS] = Some k"
        using w m False by (auto simp: release_or_free_def split: option.splits)
      then have "ev_at s c k m" using c find_upt_Some [OF k] by (simp add: ev_at_def)
      moreover have "ev t = (ev s)(c := (ev s c)(k := None))" "atomic_counters t = (atomic_counters s)(m := 0)"
        "counters_set_value t = (counters_set_value s)(m := 0)"
        using w m False k by (auto simp: release_or_free_def)
      ultimately show ?thesis by (rule free_event_ok [OF ok])
    qed
  next
    case other
    then show ?thesis using t
      by (intro keep; cases "state_next s c")
        (auto simp: programme_core_def r request_type_def ask_event_def manage_event_def release_event_def
          release_slaves_def split: if_splits option.splits)
  qed
qed

lemma one_requester:
  assumes "n_prg_ports cfg = 1"
  obtains c where "\<And>x. x \<noteq> c \<Longrightarrow> requests_of (pr_req inp) (n_prg_ports cfg) x = []"
    "requests_of (pr_req inp) (n_prg_ports cfg) c = [] \<or> (\<exists>port p. requests_of (pr_req inp) (n_prg_ports cfg) c = [(port, p)])"
proof (cases "pr_req inp 0")
  case None
  then show ?thesis using assms that by (simp add: requests_of_def)
next
  case (Some p)
  then show ?thesis using assms that [of "unat (p_id p)"] by (simp add: requests_of_def)
qed

lemma programme_events_ok:
  assumes "events_ok old" "same_owners old s" "n_prg_ports cfg = 1" "programme cfg inp old s = Inr t"
  shows "events_ok t"
proof -
  obtain c where c: "\<And>x. x \<noteq> c \<Longrightarrow> requests_of (pr_req inp) (n_prg_ports cfg) x = []"
    "requests_of (pr_req inp) (n_prg_ports cfg) c = [] \<or> (\<exists>port p. requests_of (pr_req inp) (n_prg_ports cfg) c = [(port, p)])"
    using one_requester [OF assms(3)] by blast
  have quiet_part: "same_owners s' t'" if "each (programme_core cfg inp old) xs s' = Inr t'" "c \<notin> set xs" for xs s' t'
    using that
  proof (induction xs arbitrary: s')
    case (Cons x xs)
    then obtain u where u: "programme_core cfg inp old x s' = Inr u" "each (programme_core cfg inp old) xs u = Inr t'" by auto
    have "same_owners s' u" using core_without_request [OF c(1) u(1)] Cons.prems(2) by (auto simp: same_owners_def)
    moreover have "same_owners u t'" using Cons.IH [OF u(2)] Cons.prems(2) by simp
    ultimately show ?case by (rule same_owners_trans)
  qed simp
  have s: "events_ok s" using assms(1,2) by (rule events_ok_same)
  show ?thesis
  proof (cases "c < MAX_CORES")
    case False
    then have "same_owners s t" using quiet_part [of "[0..<MAX_CORES]" s t] assms(4) by (simp add: programme_def)
    then show ?thesis by (rule events_ok_same [OF s])
  next
    case True
    have "[0..<MAX_CORES] = [0..<c] @ c # [Suc c..<MAX_CORES]"
      using True upt_add_eq_append [of 0 c "MAX_CORES - c"] by (simp add: upt_conv_Cons)
    then obtain u v where uv: "each (programme_core cfg inp old) [0..<c] s = Inr u" "programme_core cfg inp old c u = Inr v"
      "each (programme_core cfg inp old) [Suc c..<MAX_CORES] v = Inr t"
      using assms(4) unfolding programme_def by (auto simp: each_append)
    have su: "same_owners s u" using quiet_part [OF uv(1)] by simp
    have u: "events_ok u" using s su by (rule events_ok_same)
    have ou: "\<forall>i<N_HWS_EVENTS. reserved (atomic_counters u i) = reserved (atomic_counters old i)"
      using same_owners_trans [OF assms(2) su] by (simp add: same_owners_def)
    have "events_ok v"
      using c(2)
    proof
      assume "requests_of (pr_req inp) (n_prg_ports cfg) c = []"
      then have "same_owners u v" using core_without_request [OF _ uv(2)] by (simp add: same_owners_def)
      then show ?thesis by (rule events_ok_same [OF u])
    next
      assume "\<exists>port p. requests_of (pr_req inp) (n_prg_ports cfg) c = [(port, p)]"
      then show ?thesis using core_with_request [OF u refl ou True _ uv(2)] by blast
    qed
    moreover have "same_owners v t" using quiet_part [OF uv(3)] by simp
    ultimately show ?thesis by (rule events_ok_same)
  qed
qed

lemma cycle_events_ok:
  assumes "events_ok s" "n_prg_ports cfg = 1" "hws_cycle started_order cfg inp s = Inr t"
  shows "events_ok t"
proof -
  obtain a b where ab: "sync_mngr cfg s = Inr a" "hws_signal cfg inp s (idle_mngr cfg a) = Inr b"
    "programme cfg inp s (hws_notify cfg s b) = Inr t"
    using assms(3) by (auto simp: hws_cycle_def started_order_def declared_order_def)
  have "same_owners s (idle_mngr cfg a)" using sync_owners [OF ab(1)] by (simp add: same_owners_def)
  then have "same_owners s b" by (rule signal_owners [OF ab(2)])
  then have "same_owners s (hws_notify cfg s b)" by (rule notify_owners [OF assms(1)])
  then show ?thesis by (rule programme_events_ok [OF assms(1) _ assms(2) ab(3)])
qed

lemma reach_events_ok:
  assumes "hws_reach started_order cfg s" "n_prg_ports cfg = 1"
  shows "events_ok s"
  using assms(1)
proof (induction rule: hws_reach.induct)
  case (reach_new h)
  then show ?case by (simp add: events_ok_def new_hws_def ev_at_def reserved_or(3))
next
  case (reach_cycle s inp t)
  then show ?case using cycle_events_ok assms(2) by blast
qed

text \<open>C14: with one programming port, whatever requests arrive, in every reachable state an event
  is reserved exactly when some core owns it, and then exactly one core does.\<close>

theorem events_exclusive:
  assumes "hws_reach started_order cfg s" "n_prg_ports cfg = 1" "e < N_HWS_EVENTS"
  shows "if reserved (atomic_counters s e) then \<exists>!c. c < MAX_CORES \<and> owns s c e
    else \<nexists>c. c < MAX_CORES \<and> owns s c e"
proof -
  have o: "c < MAX_CORES \<and> owns s c e \<longleftrightarrow> (\<exists>k. ev_at s c k e)" for c by (auto simp: owns_def ev_at_def)
  have "events_ok s" using assms(1,2) by (rule reach_events_ok)
  then have "reserved (atomic_counters s e) = (\<exists>c k. ev_at s c k e)"
    "\<And>c k c' k'. ev_at s c k e \<Longrightarrow> ev_at s c' k' e \<Longrightarrow> c = c' \<and> k = k'"
    using assms(3) unfolding events_ok_def by blast+
  then show ?thesis unfolding o by auto
qed

lemma transaction_reach:
  "hws_reach started_order cfg s \<Longrightarrow> transaction cfg inp s = Inr t \<Longrightarrow> hws_reach started_order cfg t"
  unfolding transaction_def by (auto intro: reach_cycle)

lemma prg_reach:
  "hws_reach started_order cfg s \<Longrightarrow> prg_write cfg c p v s = Inr t \<Longrightarrow> hws_reach started_order cfg t"
  "hws_reach started_order cfg s \<Longrightarrow> prg_read cfg c p s = Inr (d, t) \<Longrightarrow> hws_reach started_order cfg t"
  unfolding prg_write_def prg_read_def by (auto elim: transaction_reach)

lemma maybe_get_event_reach:
  assumes "hws_reach started_order cfg s" "maybe_get_event cfg c n s = Inr (e, t)"
  shows "hws_reach started_order cfg t"
proof -
  obtain u v x where "prg_write cfg c (func_port_prg c) (push_bit 8 (of_nat c AND 0xFF)) s = Inr u"
    "hws_request_event_no_mem_single cfg c n (func_port_prg c) u = Inr v" "prg_read cfg c (func_port_prg c) v = Inr (x, t)"
    using assms(2) unfolding maybe_get_event_def Let_def hws_wait_event_def by auto
  then show ?thesis
    using assms(1) unfolding hws_request_event_no_mem_single_def by (meson prg_reach)
qed

theorem events_exclusive_witness:
  "\<exists>s. maybe_get_event demo_cfg 2 3 demo_hws = Inr (0, s) \<and>
    (if reserved (atomic_counters s 0) then \<exists>!c. c < MAX_CORES \<and> owns s c 0 else \<nexists>c. c < MAX_CORES \<and> owns s c 0)"
proof -
  have a: "at_state demo_cfg 2 REQUEST_TYPE demo_hws"
    using demo_hws_quiet by (simp add: at_state_def MAX_CORES_def) (simp add: demo_cfg_def)
  obtain s where s: "maybe_get_event demo_cfg 2 3 demo_hws = Inr (0, s)"
    using maybe_get_event_ok [OF a, of 3] exI [of "\<lambda>e. e < N_HWS_EVENTS \<and> ev demo_hws 2 e = None" 0]
    by (auto simp: demo_hws_quiet N_HWS_EVENTS_def)
  have "hws_reach started_order demo_cfg demo_hws" unfolding demo_hws_def by (rule reach_new)
  then have "hws_reach started_order demo_cfg s" using s by (rule maybe_get_event_reach)
  then show ?thesis using s events_exclusive [of demo_cfg s 0] by (auto simp: demo_cfg_def N_HWS_EVENTS_def)
qed

text \<open>A second programming port breaks this: two cores whose reads arrive in the same cycle are
  both granted the same event, because both look at the counters of the start of the cycle.\<close>

theorem two_ports_share_event:
  assumes "quiet cfg h" "n_prg_ports cfg = 2" "c < d" "d < MAX_CORES"
    and "state_next h c = WAIT_EVENT" "state_next h d = WAIT_EVENT"
    and "None \<in> ev h c ` {..<N_HWS_EVENTS}" "None \<in> ev h d ` {..<N_HWS_EVENTS}" "free_event_number h = Some e"
  shows "\<exists>s. hws_cycle started_order cfg
      (no_request\<lparr>pr_req := (\<lambda>_. None)(0 := Some ((word_read HWS_BASE)\<lparr>p_id := of_nat c\<rparr>),
         1 := Some ((word_read (HWS_BASE + 4))\<lparr>p_id := of_nat d\<rparr>))\<rparr>) h = Inr s \<and>
    owns s c e \<and> owns s d e \<and> prg_data s 0 = of_nat e OR push_bit 8 (of_nat c OR 0x80) \<and>
    prg_data s 1 = of_nat e OR push_bit 8 (of_nat d OR 0x80)"
proof -
  define inp where "inp = no_request\<lparr>pr_req := (\<lambda>_. None)(0 := Some ((word_read HWS_BASE)\<lparr>p_id := of_nat c\<rparr>),
         1 := Some ((word_read (HWS_BASE + 4))\<lparr>p_id := of_nat d\<rparr>))\<rparr>"
  have q: "no_sync cfg h" "\<forall>c. \<not> sg_next h c" "\<forall>i. \<not> due h i" "\<forall>c<MAX_CORES. listening (state_next h c)"
    using assms(1) by (auto simp: quiet_def)
  have cd: "c < MAX_CORES" "d < MAX_CORES" "c \<noteq> d" using assms(3,4) by auto
  have r: "requests_of (pr_req inp) (n_prg_ports cfg) x =
      (if x = c then [(0, (word_read HWS_BASE)\<lparr>p_id := of_nat c\<rparr>)]
       else if x = d then [(1, (word_read (HWS_BASE + 4))\<lparr>p_id := of_nat d\<rparr>)] else [])" for x
    using cd u8_of_core by (auto simp: requests_of_def assms(2) numeral_2_eq_2 inp_def)
  obtain i where i: "List.find (\<lambda>k. ev h c k = None) [0..<N_HWS_EVENTS] = Some i" "i < N_HWS_EVENTS"
    using assms(7) find_upt_Some by (cases "List.find (\<lambda>k. ev h c k = None) [0..<N_HWS_EVENTS]") (auto simp: find_None_iff)
  obtain j where j: "List.find (\<lambda>k. ev h d k = None) [0..<N_HWS_EVENTS] = Some j" "j < N_HWS_EVENTS"
    using assms(8) find_upt_Some by (cases "List.find (\<lambda>k. ev h d k = None) [0..<N_HWS_EVENTS]") (auto simp: find_None_iff)
  define grant where "grant = (\<lambda>port c i s. acknowledge c WAIT_ACC port
      (s\<lparr>got_event := (got_event s)(c := True),
         prg_data := (prg_data s)(port := of_nat e OR push_bit 8 (of_nat c OR 0x80)),
         nsl := (nsl s)(c := (nsl s c)(e := nsl_temp s c)),
         atomic_counters := (atomic_counters s)(e := 0x80 OR of_nat (nsl_temp s c)),
         counters_set_value := (counters_set_value s)(e := 0x80 OR of_nat (nsl_temp s c)),
         ev := (ev s)(c := (ev s c)(i := Some e))\<rparr>))"
  define t where "t = grant 0 c i (idle_mngr cfg h)"
  define u where "u = grant 1 d j t"
  have one: "programme_core cfg inp h c (idle_mngr cfg h) = Inr t"
    using assms(5,9) i(1) unfolding t_def grant_def
    by (simp add: programme_core_def r wait_event_def free_event_number_def)
  have td: "state_next t d = WAIT_EVENT" "ev t d = ev h d"
    using assms(6) cd(3) by (simp_all add: t_def grant_def)
  have two: "programme_core cfg inp h d t = Inr u"
    using assms(9) cd(3) j(1) unfolding u_def grant_def
    by (simp add: programme_core_def r wait_event_def free_event_number_def td)
  have "each (programme_core cfg inp h) [0..<MAX_CORES] (idle_mngr cfg h) = Inr u"
  proof (rule each_two [where P = "\<lambda>s. \<forall>x<MAX_CORES. x \<noteq> c \<and> x \<noteq> d \<longrightarrow> listening (state_next s x)"])
    show "programme_core cfg inp h x s = Inr s" if "x < MAX_CORES" "x \<noteq> c" "x \<noteq> d"
      "\<forall>x<MAX_CORES. x \<noteq> c \<and> x \<noteq> d \<longrightarrow> listening (state_next s x)" for x s
      using that r by (intro programme_core_nothing) simp_all
  qed (use assms(3) cd q(4) one two in \<open>simp_all add: t_def u_def grant_def\<close>)
  then have p: "programme cfg inp h (idle_mngr cfg h) = Inr u" by (simp only: programme_def)
  have s: "hws_signal cfg inp h (idle_mngr cfg h) = Inr (idle_mngr cfg h)"
    using q(2) by (intro signal_nothing) (simp_all add: no_request_def inp_def)
  have "hws_cycle started_order cfg inp h = Inr u"
    by (simp add: hws_cycle_def started_order_def declared_order_def sync_nothing [OF q(1)] s p notify_nothing [OF q(3)]
        del: res_bind_eq_Inr)
  moreover have "owns u c e \<and> owns u d e" using i(2) j(2) cd(3) by (auto simp: owns_def u_def t_def grant_def)
  moreover have "prg_data u 0 = of_nat e OR push_bit 8 (of_nat c OR 0x80)" "prg_data u 1 = of_nat e OR push_bit 8 (of_nat d OR 0x80)"
    by (simp_all add: u_def t_def grant_def)
  ultimately show ?thesis unfolding inp_def by blast
qed

definition two_port_hws :: hws where
  "two_port_hws = demo_hws\<lparr>state_next := (\<lambda>c. if c < 2 then WAIT_EVENT else REQUEST_TYPE), nsl_temp := (\<lambda>_. 4)\<rparr>"

theorem two_ports_share_event_witness:
  "\<exists>s. hws_cycle started_order (demo_cfg\<lparr>n_prg_ports := 2\<rparr>)
      (no_request\<lparr>pr_req := (\<lambda>_. None)(0 := Some ((word_read HWS_BASE)\<lparr>p_id := of_nat 0\<rparr>),
         1 := Some ((word_read (HWS_BASE + 4))\<lparr>p_id := of_nat 1\<rparr>))\<rparr>) two_port_hws = Inr s \<and>
    owns s 0 0 \<and> owns s 1 0 \<and> prg_data s 0 = of_nat 0 OR push_bit 8 (of_nat 0 OR 0x80) \<and>
    prg_data s 1 = of_nat 0 OR push_bit 8 (of_nat 1 OR 0x80)"
proof (rule two_ports_share_event)
  have d: "quiet demo_cfg demo_hws" "free_event_number demo_hws = Some 0" "\<And>c k. ev demo_hws c k = None"
    using demo_hws_quiet by blast+
  show "quiet (demo_cfg\<lparr>n_prg_ports := 2\<rparr>) two_port_hws"
    using d(1) by (auto simp: quiet_def no_sync_def due_def two_port_hws_def demo_cfg_def)
  show "free_event_number two_port_hws = Some 0"
    using d(2) by (simp add: free_event_number_def two_port_hws_def)
  show "None \<in> ev two_port_hws 0 ` {..<N_HWS_EVENTS}" "None \<in> ev two_port_hws 1 ` {..<N_HWS_EVENTS}"
    using d(3) by (auto simp: two_port_hws_def image_iff N_HWS_EVENTS_def intro: exI [of _ 0])
qed (simp_all add: two_port_hws_def demo_cfg_def MAX_CORES_def)

text \<open>The order of the threads matters: started in the order of their declaration, \<open>signal\<close> writes back the
  counters it read after \<open>programme\<close> has reserved an event, so no event is ever reserved and every
  request is granted event 0.\<close>

theorem signal_last_reserves_nothing:
  assumes "hws_reach declared_order cfg s"
  shows "map (atomic_counters s) [0..<N_HWS_EVENTS] = replicate N_HWS_EVENTS 0 \<and> free_event_number s = Some 0"
proof -
  have "\<forall>i<N_HWS_EVENTS. atomic_counters s i = 0"
    using assms
  proof (induction rule: hws_reach.induct)
    case (reach_new h)
    then show ?case by (simp add: new_hws_def)
  next
    case (reach_cycle s inp t)
    obtain a b c where abc: "programme cfg inp s s = Inr a" "hws_signal cfg inp s (hws_notify cfg s a) = Inr b"
      "sync_mngr cfg (idle_mngr cfg b) = Inr t"
      using reach_cycle.hyps(2) by (auto simp: hws_cycle_def declared_order_def)
    obtain va s' where e: "each (signal_core cfg inp s) [0..<MAX_CORES] (atomic_counters s, hws_notify cfg s a) = Inr (va, s')"
      and b: "b = s'\<lparr>atomic_counters := (\<lambda>e. if e < N_HWS_EVENTS then va e else atomic_counters s' e)\<rparr>"
      using abc(2) by (auto simp: hws_signal_def)
    let ?P = "\<lambda>(va, s'). va = atomic_counters s"
    have "?P (va, s')"
    proof (rule each_invariant [OF e])
      fix c vs vs' assume P: "?P vs" and "signal_core cfg inp s c vs = Inr vs'"
      moreover have no: "arrive s c r vs \<noteq> Inr vs''" if "?P vs" for r vs vs''
        using that reach_cycle.IH reserved_or(3) by (cases r; cases vs) (auto simp: arrive_def Let_def not_le)
      moreover have "each (arrive s c) rs vs = Inr vs'' \<Longrightarrow> vs'' = vs" for rs vs''
        using no [OF P] by (cases rs) auto
      ultimately show "?P vs'" by (cases vs) (auto simp: signal_core_def split: if_splits)
    qed simp
    then have "\<forall>i<N_HWS_EVENTS. atomic_counters b i = 0" using b reach_cycle.IH by simp
    moreover have "atomic_counters t = atomic_counters (idle_mngr cfg b)"
      using abc(3) by (auto simp: sync_mngr_def Let_def split: if_splits)
    ultimately show ?case by simp
  qed
  moreover from this have "map (atomic_counters s) [0..<N_HWS_EVENTS] = replicate N_HWS_EVENTS 0"
    by (intro nth_equalityI) simp_all
  ultimately show ?thesis
    by (simp add: free_event_number_def N_HWS_EVENTS_def upt_rec reserved_or(3))
qed

theorem signal_last_reserves_nothing_witness:
  "map (atomic_counters demo_hws) [0..<N_HWS_EVENTS] = replicate N_HWS_EVENTS 0 \<and> free_event_number demo_hws = Some 0"
proof -
  have "hws_reach declared_order demo_cfg demo_hws" unfolding demo_hws_def by (rule reach_new)
  then show ?thesis by (rule signal_last_reserves_nothing)
qed

end
