(* ===== verification/Xbar.thy ===== *)
theory Xbar
  imports Pinout Ring
begin

text \<open>
  The two interconnects of a cluster: the local one between the cores and the banks of the TCDM
  (\<open>virtualsoc/src/cluster/cl_lic.cpp\<close>, \<open>cl_lic.h\<close>) and the peripheral one
  (\<open>cl_pic.cpp\<close>, \<open>cl_pic.h\<close>). Their arbiters, run at every clock edge, differ in how they route an
  address and in the multicast of reads, and share all else. One state machine per slave runs a
  transaction with it; the slaves behind the ports are a parameter, a state with a read and a
  write. A signal that is written takes its new value in the next delta cycle, so the arbiter
  looks at the values \<open>served\<close> had before.
\<close>

section \<open>State\<close>

datatype ctrl_state = IDLE | READ | WRITE | TAS

text \<open>\<open>fsm_pinout\<close> and \<open>fsm_burst\<close> are locals of the state machines.\<close>

record xbar =
  go_fsm :: "nat \<Rightarrow> bool"
  served :: "nat \<Rightarrow> bool"
  cs :: "nat \<Rightarrow> ctrl_state"
  next_to_serve :: "nat \<Rightarrow> nat"
  req :: "nat \<Rightarrow> bool"
  busy_fsm :: "nat \<Rightarrow> bool"
  idc_fsm :: "nat \<Rightarrow> nat \<Rightarrow> bool"
  pending_req :: "nat \<Rightarrow> bool"
  req_table :: "nat \<Rightarrow> nat \<Rightarrow> bool"
  stat_mc :: "nat \<Rightarrow> bool"
  is_test_and_set :: "nat \<Rightarrow> bool"
  queued_cores :: "nat \<Rightarrow> nat"
  num_mc :: nat
  next_core :: "nat \<Rightarrow> nat"
  fsm_pinout :: "nat \<Rightarrow> pinout"
  fsm_burst :: "nat \<Rightarrow> u32"

record xbar_cfg =
  xbar_ID :: u16
  num_masters :: nat
  num_slaves :: nat
  N_CL_BANKS :: nat
  xbar_sched :: nat

text \<open>The constructor; \<open>b\<close> is what the local \<open>burst\<close> of a state machine holds before its first
  transaction.\<close>

definition new_xbar :: "u32 \<Rightarrow> xbar" where
  "new_xbar b = \<lparr>go_fsm = (\<lambda>_. False), served = (\<lambda>_. False), cs = (\<lambda>_. IDLE), next_to_serve = (\<lambda>_. 0),
     req = (\<lambda>_. False), busy_fsm = (\<lambda>_. False), idc_fsm = (\<lambda>_ _. False), pending_req = (\<lambda>_. False),
     req_table = (\<lambda>_ _. False), stat_mc = (\<lambda>_. True), is_test_and_set = (\<lambda>_. False), queued_cores = (\<lambda>_. 0),
     num_mc = 0, next_core = (\<lambda>_. 0), fsm_pinout = (\<lambda>_. new_pinout), fsm_burst = (\<lambda>_. b)\<rparr>"

section \<open>The arbiter\<close>

text \<open>The transactions of the cores with a new request; the others keep the initial value of the
  local array \<open>pinout\<close>.\<close>

definition is_new :: "xbar \<Rightarrow> nat \<Rightarrow> bool" where
  "is_new s k \<longleftrightarrow> req s k \<and> \<not> served s k"

definition sampled :: "(nat \<Rightarrow> pinout) \<Rightarrow> xbar \<Rightarrow> nat \<Rightarrow> pinout" where
  "sampled pins s k = (if is_new s k then pins k else new_pinout)"

text \<open>The local interconnect: the bank of an address, and the table of the requests.\<close>

definition GetTcdmBankId :: "xbar_cfg \<Rightarrow> addr \<Rightarrow> nat" where
  "GetTcdmBankId cfg address = unat (address div CL_WORD) mod N_CL_BANKS cfg"

definition lic_requests :: "xbar_cfg \<Rightarrow> (nat \<Rightarrow> pinout) \<Rightarrow> xbar \<Rightarrow> xbar" where
  "lic_requests cfg pins s =
     (let here = (\<lambda>ids k. k < num_masters cfg \<and> is_new s k \<and> GetTcdmBankId cfg (p_address (pins k)) = ids) in
      s\<lparr>req_table := (\<lambda>ids k. req_table s ids k \<or> here ids k),
        is_test_and_set := (\<lambda>ids. \<exists>k \<in> {..<num_masters cfg}. here ids k \<and>
          IsInTaSSpace (p_address (pins k)) (xbar_ID cfg) \<and> \<not> p_rw (pins k))\<rparr>)"

text \<open>The peripheral interconnect: the port of an address, \<open>exit(1)\<close> for an address without one.\<close>

definition GetHWSPort :: "addr \<Rightarrow> nat" where
  "GetHWSPort address = unat ((address AND 0xFF) div CL_WORD)"

definition pic_route :: "xbar_cfg \<Rightarrow> nat \<Rightarrow> addr \<Rightarrow> nat res" where
  "pic_route cfg k a =
     (if IsInL3Space a (xbar_ID cfg) then Inr k
      else if IsInHWSSpace a (xbar_ID cfg) then Inr (num_masters cfg + GetHWSPort a)
      else if IsInSemSpace a (xbar_ID cfg) then Inr (num_slaves cfg - 4)
      else if IsInDmaSpace a (xbar_ID cfg) then Inr (num_slaves cfg - 3)
      else if IsInCOUNTERSpace a (xbar_ID cfg) then Inr (num_slaves cfg - 2)
      else if IsInACCELERATORSpace a (xbar_ID cfg) then Inr (num_slaves cfg - 1)
      else Inl (FExit 1))"

definition pic_request :: "xbar_cfg \<Rightarrow> (nat \<Rightarrow> pinout) \<Rightarrow> nat \<Rightarrow> xbar \<Rightarrow> xbar res" where
  "pic_request cfg pins k s =
     (if is_new s k then
        res_bind (pic_route cfg k (p_address (pins k))) (\<lambda>ids.
        if num_slaves cfg \<le> ids then Inl FUndef
        else Inr (s\<lparr>req_table := (req_table s)(ids := (req_table s ids)(k := True))\<rparr>))
      else Inr s)"

definition pic_requests :: "xbar_cfg \<Rightarrow> (nat \<Rightarrow> pinout) \<Rightarrow> xbar \<Rightarrow> xbar res" where
  "pic_requests cfg pins s = each (pic_request cfg pins) [0..<num_masters cfg] s"

text \<open>The core a free slave serves: the first with a request, from core 0 or from
  \<open>next_to_serve\<close>.\<close>

definition serving_order :: "xbar_cfg \<Rightarrow> xbar \<Rightarrow> nat \<Rightarrow> nat list" where
  "serving_order cfg s ids =
     (if xbar_sched cfg = 0 then [0..<num_masters cfg]
      else map (\<lambda>k. (next_to_serve s ids + k) mod num_masters cfg) [0..<num_masters cfg])"

definition elected :: "xbar_cfg \<Rightarrow> xbar \<Rightarrow> nat \<Rightarrow> nat option" where
  "elected cfg s ids =
     (if busy_fsm s ids then None else List.find (req_table s ids) (serving_order cfg s ids))"

text \<open>A read of the address the elected core reads is served along; without an elected core the
  comparison is with address 0 and core 0.\<close>

definition joins :: "xbar_cfg \<Rightarrow> (nat \<Rightarrow> pinout) \<Rightarrow> xbar \<Rightarrow> nat \<Rightarrow> nat \<Rightarrow> bool" where
  "joins cfg smp s ids k =
     (let (a, rw, c) = (case elected cfg s ids of Some c \<Rightarrow> (p_address (smp c), p_rw (smp c), c) | None \<Rightarrow> (0, False, 0)) in
      req_table s ids k \<and> p_address (smp k) = a \<and> p_rw (smp k) = rw \<and> \<not> p_rw (smp k) \<and> k \<noteq> c \<and> \<not> pending_req s ids)"

text \<open>The body of the arbiter after the table is built; \<open>mc\<close>: multicast is compiled in.\<close>

definition arbitrate :: "bool \<Rightarrow> xbar_cfg \<Rightarrow> (nat \<Rightarrow> pinout) \<Rightarrow> xbar \<Rightarrow> xbar res" where
  "arbitrate mc cfg smp s =
     (if 2 \<le> xbar_sched cfg then Inl (FExit 1)
      else
        let slave = (\<lambda>ids. ids < num_slaves cfg); core = (\<lambda>k. k < num_masters cfg);
            el = (\<lambda>ids k. slave ids \<and> elected cfg s ids = Some k);
            jn = (\<lambda>ids k. mc \<and> slave ids \<and> core k \<and> joins cfg smp s ids k);
            idc = (\<lambda>ids k. idc_fsm s ids k \<or> el ids k \<or> jn ids k);
            queued = (\<lambda>ids. length (filter (\<lambda>k. req_table s ids k \<and> \<not> served s k \<and>
              (xbar_sched cfg = 0 \<or> \<not> idc ids k)) [0..<num_masters cfg]));
            wanted = (\<lambda>ids. \<exists>k \<in> {..<num_masters cfg}. req_table s ids k);
            joined = (\<lambda>ids. \<exists>k \<in> {..<num_masters cfg}. jn ids k) in
        Inr (s\<lparr>idc_fsm := idc,
          served := (\<lambda>k. served s k \<or> (\<exists>ids \<in> {..<num_slaves cfg}. el ids k \<or> jn ids k)),
          next_to_serve := (\<lambda>ids. if slave ids \<and> xbar_sched cfg = 1 then
              (case elected cfg s ids of Some c \<Rightarrow> (c + 1) mod 256 | None \<Rightarrow> next_to_serve s ids)
            else next_to_serve s ids),
          num_mc := num_mc s + (if xbar_sched cfg = 0
            then length (filter (\<lambda>(ids, k). jn ids k) (List.product [0..<num_slaves cfg] [0..<num_masters cfg]))
            else length (filter (\<lambda>ids. joined ids \<and> stat_mc s ids) [0..<num_slaves cfg])),
          stat_mc := (\<lambda>ids. stat_mc s ids \<and> \<not> (xbar_sched cfg = 1 \<and> joined ids)),
          queued_cores := (\<lambda>ids. if slave ids then queued ids else queued_cores s ids),
          pending_req := (\<lambda>ids. if slave ids then 1 \<le> queued ids else pending_req s ids),
          busy_fsm := (\<lambda>ids. busy_fsm s ids \<or> slave ids \<and> wanted ids),
          go_fsm := (\<lambda>ids. if slave ids then wanted ids else go_fsm s ids)\<rparr>))"

definition lic_arbiter :: "xbar_cfg \<Rightarrow> (nat \<Rightarrow> pinout) \<Rightarrow> xbar \<Rightarrow> xbar res" where
  "lic_arbiter cfg pins s = arbitrate True cfg (sampled pins s) (lic_requests cfg pins s)"

definition pic_arbiter :: "xbar_cfg \<Rightarrow> (nat \<Rightarrow> pinout) \<Rightarrow> xbar \<Rightarrow> xbar res" where
  "pic_arbiter cfg pins s = res_bind (pic_requests cfg pins s) (arbitrate False cfg (sampled pins s))"

section \<open>The state machine of a slave\<close>

text \<open>\<open>IDLE\<close>: the state machine wakes up when \<open>go_fsm\<close> rises and takes over the transaction of the first
  core it has to serve.\<close>

definition fsm_wake :: "bool \<Rightarrow> xbar_cfg \<Rightarrow> (nat \<Rightarrow> pinout) \<Rightarrow> nat \<Rightarrow> xbar \<Rightarrow> xbar" where
  "fsm_wake tas cfg pins i s =
     (let p = (case List.find (idc_fsm s i) [0..<num_masters cfg] of Some k \<Rightarrow> pins k | None \<Rightarrow> fsm_pinout s i) in
      s\<lparr>fsm_pinout := (fsm_pinout s)(i := p), fsm_burst := (fsm_burst s)(i := p_burst p),
        cs := (cs s)(i := if p_rw p then WRITE else if tas \<and> is_test_and_set s i then TAS else READ)\<rparr>)"

text \<open>A clock edge of the interconnect: the arbiter, then the state machines it wakes up.\<close>

definition woken :: "xbar_cfg \<Rightarrow> xbar \<Rightarrow> xbar \<Rightarrow> nat list" where
  "woken cfg s s' = filter (\<lambda>i. \<not> go_fsm s i \<and> go_fsm s' i \<and> cs s i = IDLE) [0..<num_slaves cfg]"

definition lic_clock :: "xbar_cfg \<Rightarrow> (nat \<Rightarrow> pinout) \<Rightarrow> xbar \<Rightarrow> xbar res" where
  "lic_clock cfg pins s =
     res_map (\<lambda>s'. fold (fsm_wake True cfg pins) (woken cfg s s') s') (lic_arbiter cfg pins s)"

definition pic_clock :: "xbar_cfg \<Rightarrow> (nat \<Rightarrow> pinout) \<Rightarrow> xbar \<Rightarrow> xbar res" where
  "pic_clock cfg pins s =
     res_map (\<lambda>s'. fold (fsm_wake False cfg pins) (woken cfg s s') s') (pic_arbiter cfg pins s)"

text \<open>The end of a transaction: the requests of the cores it served are taken back.\<close>

definition fsm_clear :: "nat \<Rightarrow> (nat \<Rightarrow> bool) \<Rightarrow> xbar \<Rightarrow> xbar" where
  "fsm_clear i ks s =
     s\<lparr>req := (\<lambda>k. req s k \<and> \<not> ks k), idc_fsm := (idc_fsm s)(i := (\<lambda>k. idc_fsm s i k \<and> \<not> ks k)),
       req_table := (req_table s)(i := (\<lambda>k. req_table s i k \<and> \<not> ks k)), served := (\<lambda>k. served s k \<and> \<not> ks k)\<rparr>"

definition fsm_free :: "nat \<Rightarrow> xbar \<Rightarrow> xbar" where
  "fsm_free i s = s\<lparr>busy_fsm := (busy_fsm s)(i := False), go_fsm := (go_fsm s)(i := False), cs := (cs s)(i := IDLE)\<rparr>"

definition fsm_next :: "xbar_cfg \<Rightarrow> (nat \<Rightarrow> pinout) \<Rightarrow> nat \<Rightarrow> xbar \<Rightarrow> xbar" where
  "fsm_next cfg pins i s =
     (if pending_req s i then
        let s = (case next_waiting (num_masters cfg) (req_table s i) (next_core s i) of
              Some c \<Rightarrow> s\<lparr>next_core := (next_core s)(i := c), next_to_serve := (next_to_serve s)(i := c)\<rparr>
            | None \<Rightarrow> s);
            c = next_core s i; p = pins c in
        s\<lparr>idc_fsm := (idc_fsm s)(i := (idc_fsm s i)(c := True)), fsm_pinout := (fsm_pinout s)(i := p),
          served := (served s)(c := True), cs := (cs s)(i := if p_rw p then WRITE else READ)\<rparr>
      else fsm_free i s)"

text \<open>The local interconnect: single words; a read and a test-and-set answer every core of the
  transaction.\<close>

type_synonym 'm slave_port = "('m \<Rightarrow> pinout \<Rightarrow> u32) \<times> ('m \<Rightarrow> pinout \<Rightarrow> 'm)"

definition answer_all :: "xbar_cfg \<Rightarrow> nat \<Rightarrow> u32 \<Rightarrow> xbar \<Rightarrow> (nat \<times> u32) list" where
  "answer_all cfg i d s = map (\<lambda>k. (k, d)) (filter (idc_fsm s i) [0..<num_masters cfg])"

definition lic_fsm :: "xbar_cfg \<Rightarrow> 'm slave_port \<Rightarrow> (nat \<Rightarrow> pinout) \<Rightarrow> nat \<Rightarrow> xbar \<times> 'm \<Rightarrow> (nat \<times> u32) list \<times> xbar \<times> 'm" where
  "lic_fsm cfg port pins i sm =
     (case (port, sm) of ((rd, wr), (s, m)) \<Rightarrow>
      let p = fsm_pinout s i; s' = fsm_clear i (\<lambda>k. k < num_masters cfg \<and> idc_fsm s i k) s in
      case cs s i of
        IDLE \<Rightarrow> ([], s, m)
      | READ \<Rightarrow> (answer_all cfg i (rd m p) s, fsm_next cfg pins i s', m)
      | WRITE \<Rightarrow> ([], fsm_next cfg pins i s', wr m p)
      | TAS \<Rightarrow> (answer_all cfg i (rd m p) s, fsm_free i s', wr m (p\<lparr>p_data := 1, p_rw := True\<rparr>)))"

text \<open>The peripheral interconnect: a transaction has as many beats as \<open>burst\<close>, which is set when the state
  machine wakes up; a slave answers as many as its transaction asks for, and the state machine waits
  for those that do not come. A write passes on what the first core presents at each beat, \<open>data k b\<close>.\<close>

type_synonym 'm burst_port = "('m \<Rightarrow> pinout \<Rightarrow> nat \<Rightarrow> u32) \<times> ('m \<Rightarrow> pinout \<Rightarrow> nat \<Rightarrow> 'm)"

definition pic_fsm :: "xbar_cfg \<Rightarrow> 'm burst_port \<Rightarrow> (nat \<Rightarrow> pinout) \<Rightarrow> (nat \<Rightarrow> nat \<Rightarrow> pinout) \<Rightarrow> nat \<Rightarrow> xbar \<times> 'm \<Rightarrow>
    ((nat \<times> u32) list \<times> xbar \<times> 'm) res" where
  "pic_fsm cfg port pins data i sm =
     (case (port, sm) of ((rd, wr), (s, m)) \<Rightarrow>
      let p = fsm_pinout s i; burst = unat (fsm_burst s i) in
      if cs s i = IDLE then Inr ([], s, m)
      else if unat (p_burst p) < burst then Inl FSpin
      else if cs s i = WRITE then
        (case List.find (idc_fsm s i) [0..<num_masters cfg] of
          None \<Rightarrow> if burst = 0 then Inr ([], fsm_next cfg pins i s, m) else Inl FUndef
        | Some k \<Rightarrow> Inr ([], fsm_next cfg pins i (fsm_clear i (\<lambda>x. burst \<noteq> 0 \<and> x = k) s),
            fold (\<lambda>b m. wr m (data k b) b) [0..<burst] m))
      else
        Inr (concat (map (\<lambda>b. answer_all cfg i (rd m p b) s) [0..<burst]),
          fsm_next cfg pins i (fsm_clear i (\<lambda>k. burst \<noteq> 0 \<and> k < num_masters cfg \<and> idc_fsm s i k) s), m))"

section \<open>Fairness of the hand-over\<close>

text \<open>Who a hand-over of slave \<open>i\<close> serves.\<close>

definition handed_to :: "xbar_cfg \<Rightarrow> nat \<Rightarrow> xbar \<Rightarrow> nat option" where
  "handed_to cfg i s =
     (if pending_req s i then next_waiting (num_masters cfg) (req_table s i) (next_core s i) else None)"

lemma handed_to_next:
  "handed_to cfg i s = Some d \<Longrightarrow> next_core (fsm_next cfg pins i s) i = d \<and> idc_fsm (fsm_next cfg pins i s) i d"
  by (simp add: handed_to_def fsm_next_def Let_def split: if_splits)

interpretation handover: ring_arbiter "num_masters cfg" "\<lambda>s c. pending_req s i \<and> req_table s i c"
  "\<lambda>s. next_core s i" "handed_to cfg i"
  by unfold_locales (auto simp: handed_to_def)

text \<open>C30: the hand-over of a slave is fair: in any sequence of hand-overs of a slave during which a
  core has a request for it, with any other requests coming and going and the pointer of the ring
  left alone in between, the core is served within as many hand-overs as there are cores.\<close>

theorem handover_fair:
  assumes "c < num_masters cfg" "\<And>j. j < num_masters cfg \<Longrightarrow> req_table (S j) i c \<and> pending_req (S j) i"
    and "\<And>j. next_core (S (Suc j)) i = next_core (fsm_next cfg (pins j) i (S j)) i"
  shows "\<exists>j<num_masters cfg. idc_fsm (fsm_next cfg (pins j) i (S j)) i c"
proof -
  have "\<exists>j<num_masters cfg. handed_to cfg i (S j) = Some c"
  proof (rule handover.turn_comes)
    fix j d
    assume "j < num_masters cfg" "handed_to cfg i (S j) = Some d"
    then show "ring_distance (num_masters cfg) (next_core (S (Suc j)) i) c = ring_distance (num_masters cfg) d c"
      using assms(3) [of j] handed_to_next [of cfg i "S j" d "pins j"] by simp
  qed (use assms(1,2) in auto)
  then show ?thesis using handed_to_next by blast
qed

text \<open>Two cores, one bank, round robin; both cores always have a request for it.\<close>

definition two_cores :: xbar_cfg where
  "two_cores = \<lparr>xbar_ID = 0, num_masters = 2, num_slaves = 1, N_CL_BANKS = 1, xbar_sched = 1\<rparr>"

definition both_wait :: "nat \<Rightarrow> xbar" where
  "both_wait j = (new_xbar 1)\<lparr>req_table := (\<lambda>_ _. True), pending_req := (\<lambda>_. True), next_core := (\<lambda>_. j mod 2)\<rparr>"

lemma handover_fair_witness:
  "\<exists>j. j < 2 \<and> idc_fsm (fsm_next two_cores (\<lambda>_. new_pinout) 0 (both_wait j)) 0 0"
proof -
  have "next_core (both_wait (Suc j)) 0 = next_core (fsm_next two_cores (\<lambda>_. new_pinout) 0 (both_wait j)) 0" for j
    by (simp add: fsm_next_def next_waiting_def both_wait_def two_cores_def Let_def upt_rec mod_simps)
  then show ?thesis
    using handover_fair [of 0 two_cores both_wait 0 "\<lambda>_ _. new_pinout"] by (simp add: both_wait_def two_cores_def)
qed

section \<open>What one clock edge changes\<close>

lemma arbitrate_rr:
  assumes "xbar_sched cfg = 1" "arbitrate mc cfg smp s = Inr s'"
  shows "idc_fsm s' = (\<lambda>i k. idc_fsm s i k \<or> i < num_slaves cfg \<and> elected cfg s i = Some k \<or>
      mc \<and> i < num_slaves cfg \<and> k < num_masters cfg \<and> joins cfg smp s i k)"
    "served s' = (\<lambda>k. served s k \<or> (\<exists>i<num_slaves cfg. elected cfg s i = Some k \<or>
      mc \<and> k < num_masters cfg \<and> joins cfg smp s i k))"
    "busy_fsm s' = (\<lambda>i. busy_fsm s i \<or> i < num_slaves cfg \<and> (\<exists>k<num_masters cfg. req_table s i k))"
    "go_fsm s' = (\<lambda>i. if i < num_slaves cfg then \<exists>k<num_masters cfg. req_table s i k else go_fsm s i)"
    "i < num_slaves cfg \<Longrightarrow> pending_req s' i \<Longrightarrow> \<exists>k. req_table s i k \<and> \<not> idc_fsm s' i k"
    "req s' = req s" "req_table s' = req_table s" "cs s' = cs s" "fsm_pinout s' = fsm_pinout s"
    "is_test_and_set s' = is_test_and_set s"
proof -
  show "i < num_slaves cfg \<Longrightarrow> pending_req s' i \<Longrightarrow> \<exists>k. req_table s i k \<and> \<not> idc_fsm s' i k"
    using assms by (auto simp: arbitrate_def Let_def Suc_le_eq filter_empty_conv)
qed (use assms in \<open>auto simp: arbitrate_def Let_def fun_eq_iff Bex_def\<close>)

lemma arbitrate_any:
  assumes "xbar_sched cfg < 2" "arbitrate mc cfg smp s = Inr s'"
  shows "idc_fsm s' = (\<lambda>i k. idc_fsm s i k \<or> i < num_slaves cfg \<and> elected cfg s i = Some k \<or>
      mc \<and> i < num_slaves cfg \<and> k < num_masters cfg \<and> joins cfg smp s i k)"
    "go_fsm s' = (\<lambda>i. if i < num_slaves cfg then \<exists>k<num_masters cfg. req_table s i k else go_fsm s i)"
    "is_test_and_set s' = is_test_and_set s" "cs s' = cs s"
  by (use assms in \<open>auto simp: arbitrate_def Let_def fun_eq_iff Bex_def\<close>)

lemma fsm_wake_sel [simp]:
  "idc_fsm (fsm_wake tas cfg pins i s) = idc_fsm s" "served (fsm_wake tas cfg pins i s) = served s"
  "busy_fsm (fsm_wake tas cfg pins i s) = busy_fsm s" "go_fsm (fsm_wake tas cfg pins i s) = go_fsm s"
  "pending_req (fsm_wake tas cfg pins i s) = pending_req s" "req (fsm_wake tas cfg pins i s) = req s"
  "req_table (fsm_wake tas cfg pins i s) = req_table s"
  "is_test_and_set (fsm_wake tas cfg pins i s) = is_test_and_set s"
  by (simp_all add: fsm_wake_def Let_def)

lemma fold_wake_sel [simp]:
  "idc_fsm (fold (fsm_wake tas cfg pins) xs s) = idc_fsm s" "served (fold (fsm_wake tas cfg pins) xs s) = served s"
  "busy_fsm (fold (fsm_wake tas cfg pins) xs s) = busy_fsm s" "go_fsm (fold (fsm_wake tas cfg pins) xs s) = go_fsm s"
  "pending_req (fold (fsm_wake tas cfg pins) xs s) = pending_req s" "req (fold (fsm_wake tas cfg pins) xs s) = req s"
  "req_table (fold (fsm_wake tas cfg pins) xs s) = req_table s"
  "is_test_and_set (fold (fsm_wake tas cfg pins) xs s) = is_test_and_set s"
  by (induction xs arbitrary: s) simp_all

lemma fold_wake_other:
  "i \<notin> set xs \<Longrightarrow> cs (fold (fsm_wake tas cfg pins) xs s) i = cs s i \<and>
    fsm_pinout (fold (fsm_wake tas cfg pins) xs s) i = fsm_pinout s i"
  by (induction xs arbitrary: s) (simp_all add: fsm_wake_def Let_def)

lemma fsm_wake_at:
  "List.find (idc_fsm s i) [0..<num_masters cfg] = Some k \<Longrightarrow>
    cs (fsm_wake tas cfg pins i s) i =
      (if p_rw (pins k) then WRITE else if tas \<and> is_test_and_set s i then TAS else READ) \<and>
    fsm_pinout (fsm_wake tas cfg pins i s) i = pins k"
  by (simp add: fsm_wake_def Let_def)

lemma fold_wake_woken:
  assumes "i \<in> set xs" "distinct xs" "List.find (idc_fsm s i) [0..<num_masters cfg] = Some k"
  shows "cs (fold (fsm_wake tas cfg pins) xs s) i =
      (if p_rw (pins k) then WRITE else if tas \<and> is_test_and_set s i then TAS else READ) \<and>
    fsm_pinout (fold (fsm_wake tas cfg pins) xs s) i = pins k"
  using assms
proof (induction xs arbitrary: s)
  case (Cons x xs)
  show ?case
  proof (cases "x = i")
    case True
    then have "i \<notin> set xs" using Cons.prems by simp
    from fold_wake_other [OF this, of tas cfg pins "fsm_wake tas cfg pins i s"]
    show ?thesis using fsm_wake_at [OF Cons.prems(3)] True by simp
  next
    case False
    then show ?thesis using Cons by simp
  qed
qed simp

lemma lic_requests_sel [simp]:
  "req (lic_requests cfg pins s) = req s" "served (lic_requests cfg pins s) = served s"
  "idc_fsm (lic_requests cfg pins s) = idc_fsm s" "busy_fsm (lic_requests cfg pins s) = busy_fsm s"
  "go_fsm (lic_requests cfg pins s) = go_fsm s" "pending_req (lic_requests cfg pins s) = pending_req s"
  "cs (lic_requests cfg pins s) = cs s" "fsm_pinout (lic_requests cfg pins s) = fsm_pinout s"
  "next_to_serve (lic_requests cfg pins s) = next_to_serve s"
  by (simp_all add: lic_requests_def Let_def)

lemma lic_requests_table:
  "req_table (lic_requests cfg pins s) i k \<longleftrightarrow> req_table s i k \<or>
    k < num_masters cfg \<and> is_new s k \<and> GetTcdmBankId cfg (p_address (pins k)) = i"
  by (simp add: lic_requests_def Let_def)

lemma serving_order_set: "set (serving_order cfg s i) = {..<num_masters cfg}"
proof -
  have "\<exists>j<num_masters cfg. c = (next_to_serve s i + j) mod num_masters cfg" if "c < num_masters cfg" for c
    using ring_covers [OF that, of "next_to_serve s i"] by (metis (no_types))
  then have "c \<in> (\<lambda>j. (next_to_serve s i + j) mod num_masters cfg) ` {..<num_masters cfg}" if "c < num_masters cfg" for c
    using that by blast
  then show ?thesis by (auto simp: serving_order_def atLeast0LessThan)
qed

lemma elected_props:
  shows "elected cfg s i = Some k \<Longrightarrow> \<not> busy_fsm s i \<and> req_table s i k \<and> k < num_masters cfg"
    "\<not> busy_fsm s i \<Longrightarrow> req_table s i k \<Longrightarrow> k < num_masters cfg \<Longrightarrow> \<exists>c. elected cfg s i = Some c"
proof -
  show "elected cfg s i = Some k \<Longrightarrow> \<not> busy_fsm s i \<and> req_table s i k \<and> k < num_masters cfg"
    using serving_order_set [of cfg s i]
    by (auto simp: elected_def find_Some_iff split: if_splits)
  show "\<exists>c. elected cfg s i = Some c" if "\<not> busy_fsm s i" "req_table s i k" "k < num_masters cfg"
    using that serving_order_set [of cfg s i]
    by (cases "elected cfg s i") (auto simp: elected_def find_None_iff)
qed

section \<open>The local interconnect with its cores\<close>

text \<open>The cores raise requests, a clock edge runs the arbiter, and between two clock edges every busy
  bank may end one transaction; \<open>F\<close> are the banks that have not done so since the last edge.\<close>

inductive lic_reach :: "xbar_cfg \<Rightarrow> 'm slave_port \<Rightarrow> xbar \<Rightarrow> (nat \<Rightarrow> pinout) \<Rightarrow> 'm \<Rightarrow> nat set \<Rightarrow> bool"
  for cfg port where
  start: "lic_reach cfg port (new_xbar b) pins m {}"
| request: "lic_reach cfg port s pins m F \<Longrightarrow> \<not> req s k \<Longrightarrow> k < num_masters cfg \<Longrightarrow> p_address p \<noteq> 0 \<Longrightarrow>
    lic_reach cfg port (s\<lparr>req := (req s)(k := True)\<rparr>) (pins(k := p)) m F"
| clock: "lic_reach cfg port s pins m F \<Longrightarrow> lic_clock cfg pins s = Inr s' \<Longrightarrow>
    lic_reach cfg port s' pins m {i. i < num_slaves cfg \<and> cs s' i \<noteq> IDLE}"
| complete: "lic_reach cfg port s pins m F \<Longrightarrow> i \<in> F \<Longrightarrow> lic_fsm cfg port pins i (s, m) = (as, s', m') \<Longrightarrow>
    lic_reach cfg port s' pins m' (F - {i})"

text \<open>What holds of one bank.\<close>

definition bank_ok :: "xbar_cfg \<Rightarrow> (nat \<Rightarrow> pinout) \<Rightarrow> nat set \<Rightarrow> xbar \<Rightarrow> nat \<Rightarrow> bool" where
  "bank_ok cfg pins F s i \<longleftrightarrow>
     (busy_fsm s i \<longleftrightarrow> cs s i \<noteq> IDLE) \<and> (go_fsm s i \<longleftrightarrow> busy_fsm s i) \<and>
     (busy_fsm s i \<longrightarrow> (\<exists>c. idc_fsm s i c \<and> fsm_pinout s i = pins c \<and> (cs s i = WRITE \<longleftrightarrow> p_rw (pins c)))) \<and>
     (i \<in> F \<longrightarrow> busy_fsm s i \<and> (pending_req s i \<longrightarrow> (\<exists>k. req_table s i k \<and> \<not> idc_fsm s i k)))"

definition lic_ok :: "xbar_cfg \<Rightarrow> (nat \<Rightarrow> pinout) \<Rightarrow> nat set \<Rightarrow> xbar \<Rightarrow> bool" where
  "lic_ok cfg pins F s \<longleftrightarrow>
     (\<forall>i k. req_table s i k \<longrightarrow> req s k \<and> k < num_masters cfg \<and> i = GetTcdmBankId cfg (p_address (pins k))) \<and>
     (\<forall>i k. idc_fsm s i k \<longrightarrow> req_table s i k \<and> served s k \<and> busy_fsm s i) \<and>
     (\<forall>k. served s k \<longrightarrow> (\<exists>i. idc_fsm s i k)) \<and>
     (\<forall>k. req s k \<longrightarrow> p_address (pins k) \<noteq> 0) \<and>
     (\<forall>i k k'. idc_fsm s i k \<longrightarrow> idc_fsm s i k' \<longrightarrow> k \<noteq> k' \<longrightarrow>
       p_address (pins k) = p_address (pins k') \<and> \<not> p_rw (pins k)) \<and>
     (\<forall>i<num_slaves cfg. bank_ok cfg pins F s i) \<and> F \<subseteq> {..<num_slaves cfg}"

lemma lic_ok_facts:
  assumes "lic_ok cfg pins F s"
  shows "req_table s i k \<Longrightarrow> req s k" "req_table s i k \<Longrightarrow> k < num_masters cfg"
    "req_table s i k \<Longrightarrow> GetTcdmBankId cfg (p_address (pins k)) = i"
    "idc_fsm s i k \<Longrightarrow> req_table s i k" "idc_fsm s i k \<Longrightarrow> served s k" "idc_fsm s i k \<Longrightarrow> busy_fsm s i"
    "served s k \<Longrightarrow> \<exists>i. idc_fsm s i k" "req s k \<Longrightarrow> p_address (pins k) \<noteq> 0"
    "idc_fsm s i k \<Longrightarrow> idc_fsm s i k' \<Longrightarrow> k \<noteq> k' \<Longrightarrow> p_address (pins k) = p_address (pins k')"
    "idc_fsm s i k \<Longrightarrow> idc_fsm s i k' \<Longrightarrow> k \<noteq> k' \<Longrightarrow> \<not> p_rw (pins k)"
    "i < num_slaves cfg \<Longrightarrow> bank_ok cfg pins F s i" "i \<in> F \<Longrightarrow> i < num_slaves cfg"
  using assms unfolding lic_ok_def by blast+

lemma lic_okI:
  assumes "\<And>i k. req_table s i k \<Longrightarrow> req s k \<and> k < num_masters cfg \<and> i = GetTcdmBankId cfg (p_address (pins k))"
    "\<And>i k. idc_fsm s i k \<Longrightarrow> req_table s i k \<and> served s k \<and> busy_fsm s i"
    "\<And>k. served s k \<Longrightarrow> \<exists>i. idc_fsm s i k" "\<And>k. req s k \<Longrightarrow> p_address (pins k) \<noteq> 0"
    "\<And>i k k'. idc_fsm s i k \<Longrightarrow> idc_fsm s i k' \<Longrightarrow> k \<noteq> k' \<Longrightarrow>
       p_address (pins k) = p_address (pins k') \<and> \<not> p_rw (pins k)"
    "\<And>i. i < num_slaves cfg \<Longrightarrow> bank_ok cfg pins F s i" "F \<subseteq> {..<num_slaves cfg}"
  shows "lic_ok cfg pins F s"
  using assms unfolding lic_ok_def by blast

lemma lic_ok_start: "lic_ok cfg pins {} (new_xbar b)"
  by (rule lic_okI) (simp_all add: bank_ok_def new_xbar_def)

lemma lic_ok_request:
  assumes ok: "lic_ok cfg pins F s" and "\<not> req s k" "k < num_masters cfg" "p_address p \<noteq> 0"
  shows "lic_ok cfg (pins(k := p)) F (s\<lparr>req := (req s)(k := True)\<rparr>)"
proof -
  note facts = lic_ok_facts [OF ok]
  have ne: "idc_fsm s i c \<Longrightarrow> c \<noteq> k" "req_table s i c \<Longrightarrow> c \<noteq> k" for i c
    using facts(1,4) assms(2) by blast+
  have bank: "bank_ok cfg (pins(k := p)) F (s\<lparr>req := (req s)(k := True)\<rparr>) i" if "bank_ok cfg pins F s i" for i
  proof -
    have "busy_fsm s i \<longrightarrow> (\<exists>c. c \<noteq> k \<and> idc_fsm s i c \<and> fsm_pinout s i = pins c \<and> (cs s i = WRITE \<longleftrightarrow> p_rw (pins c)))"
      using that ne(1) unfolding bank_ok_def by blast
    then show ?thesis using that unfolding bank_ok_def by auto
  qed
  show ?thesis
  proof (rule lic_okI, goal_cases)
    case (1 i c)
    then show ?case using facts(1-3) [of i c] ne(2) [of i c] by simp
  next
    case (5 i c c')
    then show ?case using facts(9,10) [of i c c'] ne(1) [of i c] ne(1) [of i c'] by simp
  next
    case (7)
    then show ?case using facts(12) by blast
  qed (use facts(4-8) bank facts(11) assms(4) in \<open>auto split: if_splits\<close>)
qed

text \<open>The end of a transaction of bank \<open>i\<close>: \<open>e\<close> is the core it is handed over to.\<close>

lemma lic_ok_handed:
  assumes ok: "lic_ok cfg pins F s" and iF: "i \<in> F"
    and req: "req s' = (\<lambda>k. req s k \<and> \<not> idc_fsm s i k)"
    and tab: "req_table s' = (req_table s)(i := (\<lambda>k. req_table s i k \<and> \<not> idc_fsm s i k))"
    and idc: "idc_fsm s' = (idc_fsm s)(i := (\<lambda>k. e = Some k))"
    and srv: "served s' = (\<lambda>k. served s k \<and> \<not> idc_fsm s i k \<or> e = Some k)"
    and busy: "busy_fsm s' = (busy_fsm s)(i := (e \<noteq> None))" "go_fsm s' = (go_fsm s)(i := (e \<noteq> None))"
    and cs: "\<And>j. j \<noteq> i \<Longrightarrow> cs s' j = cs s j \<and> fsm_pinout s' j = fsm_pinout s j" "pending_req s' = pending_req s"
    and e: "\<And>c. e = Some c \<Longrightarrow> req_table s i c \<and> \<not> idc_fsm s i c \<and> fsm_pinout s' i = pins c \<and>
      (cs s' i = WRITE \<longleftrightarrow> p_rw (pins c)) \<and> cs s' i \<noteq> IDLE" "e = None \<Longrightarrow> cs s' i = IDLE"
  shows "lic_ok cfg pins (F - {i}) s'"
proof -
  note facts = lic_ok_facts [OF ok]
  have own: "j = i" if "req_table s j k" "idc_fsm s i k" for j k
    using facts(3) [OF that(1)] facts(3) [OF facts(4) [OF that(2)]] by simp
  show ?thesis
  proof (rule lic_okI, goal_cases)
    case (1 j k)
    then have "req_table s j k" "\<not> (j = i \<and> idc_fsm s i k)" unfolding tab by (auto split: if_splits)
    then show ?case using facts(1-3) [of j k] own [of j k] unfolding req by blast
  next
    case (2 j k)
    show ?case
    proof (cases "j = i")
      case True
      then have k: "e = Some k" using 2 idc by simp
      then show ?thesis using e(1) [OF k] True by (simp add: tab srv busy)
    next
      case False
      then have k: "idc_fsm s j k" using 2 idc by simp
      then show ?thesis using facts(4,5,6) [OF k] own [OF facts(4) [OF k]] False by (auto simp: tab srv busy)
    qed
  next
    case (3 k)
    then consider "e = Some k" | j where "idc_fsm s j k" "j \<noteq> i" using facts(7) [of k] by (auto simp: srv)
    then show ?case by cases (force simp: idc)+
  next
    case (4 k)
    then show ?case using facts(8) by (simp add: req)
  next
    case (5 j k k')
    then show ?case using facts(9,10) [of j k k'] by (cases "j = i") (simp_all add: idc)
  next
    case (6 j)
    show ?case
    proof (cases "j = i")
      case True
      then show ?thesis using e by (cases e) (simp_all add: bank_ok_def busy idc)
    next
      case False
      then show ?thesis using facts(11) [OF 6] cs(1) [OF False] False by (auto simp: bank_ok_def busy idc tab cs(2))
    qed
  next
    case 7
    then show ?case using facts(12) by blast
  qed
qed

lemma lic_ok_complete:
  assumes ok: "lic_ok cfg pins F s" and iF: "i \<in> F" and step: "lic_fsm cfg port pins i (s, m) = (as, s', m')"
  shows "lic_ok cfg pins (F - {i}) s'"
proof -
  note facts = lic_ok_facts [OF ok]
  have bank: "bank_ok cfg pins F s i" using facts(11,12) iF by blast
  then have cs: "cs s i \<noteq> IDLE" using iF by (auto simp: bank_ok_def)
  have ks: "(\<lambda>k. k < num_masters cfg \<and> idc_fsm s i k) = idc_fsm s i" using facts(2,4) by blast
  define c where "c = fsm_clear i (idc_fsm s i) s"
  have c: "req c = (\<lambda>k. req s k \<and> \<not> idc_fsm s i k)"
    "req_table c = (req_table s)(i := (\<lambda>k. req_table s i k \<and> \<not> idc_fsm s i k))"
    "idc_fsm c = (idc_fsm s)(i := (\<lambda>_. False))" "served c = (\<lambda>k. served s k \<and> \<not> idc_fsm s i k)"
    "busy_fsm c = busy_fsm s" "go_fsm c = go_fsm s" "cs c = cs s" "fsm_pinout c = fsm_pinout s"
    "pending_req c = pending_req s" "next_core c = next_core s"
    by (simp_all add: c_def fsm_clear_def)
  have free: "lic_ok cfg pins (F - {i}) (fsm_free i c)"
    by (rule lic_ok_handed [OF ok iF, where e = None]) (simp_all add: fsm_free_def c fun_eq_iff)
  have "lic_ok cfg pins (F - {i}) (fsm_next cfg pins i c)"
  proof (cases "pending_req s i")
    case False
    then show ?thesis using free by (simp add: fsm_next_def c(9))
  next
    case True
    then obtain k where k: "req_table s i k" "\<not> idc_fsm s i k" using bank iF by (auto simp: bank_ok_def)
    then have "req_table c i k" "k < num_masters cfg" using facts(2) by (simp_all add: c)
    then obtain d where d: "next_waiting (num_masters cfg) (req_table c i) (next_core c i) = Some d" "req_table c i d"
      using next_waiting_some [of "req_table c i" k "num_masters cfg" "next_core c i"] by blast
    have busy: "busy_fsm s i" "go_fsm s i" using bank iF by (auto simp: bank_ok_def)
    show ?thesis
      by (rule lic_ok_handed [OF ok iF, where e = "Some d"])
        (use True d busy in \<open>auto simp: fsm_next_def Let_def c fun_eq_iff\<close>)
  qed
  then show ?thesis using step cs free unfolding lic_fsm_def ks c_def [symmetric]
    by (cases port; cases "cs s i") (auto simp: Let_def ks c_def [symmetric])
qed

lemma lic_ok_clock:
  assumes rr: "xbar_sched cfg = 1" and banks: "num_slaves cfg = N_CL_BANKS cfg" "0 < N_CL_BANKS cfg"
    and ok: "lic_ok cfg pins F s" and step: "lic_clock cfg pins s = Inr s'"
  shows "lic_ok cfg pins {i. i < num_slaves cfg \<and> cs s' i \<noteq> IDLE} s'"
proof -
  note facts = lic_ok_facts [OF ok]
  define r where "r = lic_requests cfg pins s"
  have r: "req r = req s" "served r = served s" "idc_fsm r = idc_fsm s" "busy_fsm r = busy_fsm s"
    "go_fsm r = go_fsm s" "cs r = cs s" "fsm_pinout r = fsm_pinout s"
    by (simp_all add: r_def)
  obtain a where a: "arbitrate True cfg (sampled pins s) r = Inr a"
    and s': "s' = fold (fsm_wake True cfg pins) (woken cfg s a) a"
    using step by (auto simp: lic_clock_def lic_arbiter_def r_def)
  note arb = arbitrate_rr [OF rr a, unfolded r]
  have tab: "req s k \<and> k < num_masters cfg \<and> GetTcdmBankId cfg (p_address (pins k)) = i \<and> i < num_slaves cfg"
    if "req_table r i k" for i k
  proof -
    have "req s k \<and> k < num_masters cfg \<and> GetTcdmBankId cfg (p_address (pins k)) = i"
      using that facts(1-3) [of i k] by (auto simp: r_def lic_requests_table is_new_def)
    then show ?thesis using banks by (auto simp: GetTcdmBankId_def)
  qed
  have sub: "req_table r i k" if "req_table s i k" for i k using that by (simp add: r_def lic_requests_table)
  have fresh: "is_new s k \<and> sampled pins s k = pins k" if "req_table r i k" "\<not> busy_fsm s i" for i k
  proof -
    have "\<not> served s k"
    proof
      assume "served s k"
      then obtain j where j: "idc_fsm s j k" using facts(7) by blast
      have "j = i" using facts(3) [OF facts(4) [OF j]] tab [OF that(1)] by simp
      then show False using facts(6) [OF j] that(2) by simp
    qed
    then show ?thesis using tab [OF that(1)] by (simp add: is_new_def sampled_def)
  qed
  have el: "\<not> busy_fsm s i \<and> req_table r i k \<and> k < num_masters cfg" if "elected cfg r i = Some k" for i k
    using elected_props(1) [OF that] by (simp add: r)
  have nonzero: "p_address (sampled pins s k) \<noteq> 0" for k
    using facts(8) [of k] by (simp add: sampled_def is_new_def new_pinout_def)
  have jn: "\<exists>c. elected cfg r i = Some c \<and> k \<noteq> c \<and> req_table r i k \<and> p_address (pins k) = p_address (pins c) \<and>
      \<not> p_rw (pins k) \<and> \<not> p_rw (pins c)" if "joins cfg (sampled pins s) r i k" for i k
  proof (cases "elected cfg r i")
    case None
    then show ?thesis using that nonzero [of k] by (auto simp: joins_def)
  next
    case (Some c)
    have k: "req_table r i k" using that by (simp add: joins_def Let_def split: prod.splits)
    show ?thesis using that fresh [OF k] fresh [of i c] el [OF Some] Some by (auto simp: joins_def)
  qed
  have idc: "idc_fsm s' i k \<longleftrightarrow> idc_fsm s i k \<or> i < num_slaves cfg \<and> (elected cfg r i = Some k \<or>
      k < num_masters cfg \<and> joins cfg (sampled pins s) r i k)" for i k
    unfolding s' fold_wake_sel arb(1) by blast
  have alt: "idc_fsm s i k \<and> busy_fsm s i \<or> \<not> busy_fsm s i \<and> req_table r i k \<and> i < num_slaves cfg \<and>
     (\<exists>c. elected cfg r i = Some c \<and> (k = c \<or> p_address (pins k) = p_address (pins c) \<and> \<not> p_rw (pins k) \<and> \<not> p_rw (pins c)))"
    if "idc_fsm s' i k" for i k
    using that el jn facts(6) unfolding idc by blast
  have srv: "served s' k \<longleftrightarrow> served s k \<or> (\<exists>i<num_slaves cfg. elected cfg r i = Some k \<or>
      k < num_masters cfg \<and> joins cfg (sampled pins s) r i k)" for k
    unfolding s' fold_wake_sel arb(2) by blast
  have busy: "busy_fsm s' i \<longleftrightarrow> busy_fsm s i \<or> i < num_slaves cfg \<and> (\<exists>k<num_masters cfg. req_table r i k)" for i
    unfolding s' fold_wake_sel arb(3) by blast
  have "bank_ok cfg pins {i. i < num_slaves cfg \<and> cs s' i \<noteq> IDLE} s' i" if i: "i < num_slaves cfg" for i
  proof -
    have bank: "bank_ok cfg pins F s i" using facts(11) [OF i] .
    have go: "go_fsm s' i \<longleftrightarrow> (\<exists>k<num_masters cfg. req_table r i k)" using i unfolding s' fold_wake_sel arb(4) by simp
    have wok: "i \<in> set (woken cfg s a) \<longleftrightarrow> \<not> busy_fsm s i \<and> go_fsm s' i"
      using bank i by (auto simp: woken_def bank_ok_def s')
    have pend: "\<exists>k. req_table s' i k \<and> \<not> idc_fsm s' i k" if "pending_req s' i"
      using arb(5) [OF i] that by (simp add: s' arb(7))
    have *: "(busy_fsm s' i \<longleftrightarrow> cs s' i \<noteq> IDLE) \<and> (go_fsm s' i \<longleftrightarrow> busy_fsm s' i) \<and>
      (busy_fsm s' i \<longrightarrow> (\<exists>c. idc_fsm s' i c \<and> fsm_pinout s' i = pins c \<and> (cs s' i = WRITE \<longleftrightarrow> p_rw (pins c))))"
    proof (cases "busy_fsm s i")
      case True
      then obtain c where c: "idc_fsm s i c" "fsm_pinout s i = pins c" "cs s i = WRITE \<longleftrightarrow> p_rw (pins c)" "cs s i \<noteq> IDLE"
        using bank unfolding bank_ok_def by blast
      have same: "cs s' i = cs s i" "fsm_pinout s' i = fsm_pinout s i"
        using fold_wake_other [of i "woken cfg s a" True cfg pins a] wok True by (simp_all add: s' arb(8,9))
      have "idc_fsm s' i c" "busy_fsm s' i" "go_fsm s' i"
        using c(1) True sub [OF facts(4) [OF c(1)]] facts(2) [OF facts(4) [OF c(1)]] by (auto simp: idc busy go)
      then show ?thesis using c same by auto
    next
      case False
      show ?thesis
      proof (cases "\<exists>k<num_masters cfg. req_table r i k")
        case True
        then obtain c where c: "elected cfg r i = Some c" using elected_props(2) False by (metis r(4))
        have "idc_fsm s' i c" "c < num_masters cfg" using c i el [OF c] by (auto simp: idc)
        then obtain k where k: "List.find (idc_fsm s' i) [0..<num_masters cfg] = Some k" "idc_fsm s' i k"
          by (cases "List.find (idc_fsm s' i) [0..<num_masters cfg]") (auto simp: find_None_iff find_Some_iff)
        have "cs s' i = (if p_rw (pins k) then WRITE else if is_test_and_set a i then TAS else READ) \<and>
            fsm_pinout s' i = pins k"
          using fold_wake_woken [of i "woken cfg s a" a cfg k True pins] wok False True go k(1)
          by (simp add: s' woken_def)
        then show ?thesis using k(2) True i go busy by auto
      next
        case False
        then have "i \<notin> set (woken cfg s a)" "\<not> busy_fsm s' i" "\<not> go_fsm s' i"
          using wok go busy \<open>\<not> busy_fsm s i\<close> by auto
        moreover from this have "cs s' i = cs s i"
          using fold_wake_other [of i "woken cfg s a" True cfg pins a] by (simp add: s' arb(8))
        ultimately show ?thesis using bank \<open>\<not> busy_fsm s i\<close> by (auto simp: bank_ok_def)
      qed
    qed
    then show ?thesis using pend unfolding bank_ok_def by blast
  qed
  note bank_ok' = this
  have st: "req s' = req s" "req_table s' = req_table r" by (simp_all add: s' arb(6,7))
  show ?thesis
  proof (rule lic_okI, goal_cases)
    case (1 i k)
    then show ?case using tab [of i k] st by simp
  next
    case (2 i k)
    then have "req_table r i k" using alt [of i k] sub facts(4) by blast
    moreover have "served s' k" using 2 facts(5) unfolding idc srv by blast
    ultimately show ?case using 2 alt [of i k] tab [of i k] st busy by auto
  next
    case (3 k)
    then show ?case using facts(7) unfolding srv idc by blast
  next
    case (4 k)
    then show ?case using facts(8) by (simp add: st)
  next
    case (5 i k k')
    then show ?case using alt [of i k] alt [of i k'] facts(9,10) [of i k k'] by auto
  qed (use bank_ok' in auto)
qed

lemma lic_reach_ok:
  assumes "lic_reach cfg port s pins m F" "xbar_sched cfg = 1" "num_slaves cfg = N_CL_BANKS cfg" "0 < N_CL_BANKS cfg"
  shows "lic_ok cfg pins F s"
  using assms(1)
proof induction
  case (start b pins m)
  then show ?case by (rule lic_ok_start)
next
  case (request s pins m F k p)
  then show ?case using lic_ok_request by blast
next
  case (clock s pins m F s')
  then show ?case using lic_ok_clock [OF assms(2-4)] by blast
next
  case (complete s pins m F i as s' m')
  then show ?case by (intro lic_ok_complete [of cfg pins F s i port m as s' m'])
qed

lemma fsm_next_keeps: "req (fsm_next cfg pins i s) = req s"
  by (auto simp: fsm_next_def Let_def fsm_free_def split: option.split)

lemma lic_completion:
  assumes "xbar_sched cfg = 1" "num_slaves cfg = N_CL_BANKS cfg" "0 < N_CL_BANKS cfg"
    and "lic_reach cfg port s pins m F" "i \<in> F"
    and "lic_fsm cfg port pins i (s, m) = (as, s', m')" "req s k" "\<not> req s' k"
  shows "GetTcdmBankId cfg (p_address (pins k)) = i \<and>
    (if p_rw (pins k) then as = [] \<and> m' = snd port m (pins k)
      else \<exists>c. p_address (pins c) = p_address (pins k) \<and> \<not> p_rw (pins c) \<and> idc_fsm s i c \<and>
        {d. (k, d) \<in> set as} = {fst port m (pins c)})"
proof -
  have ok: "lic_ok cfg pins F s" using lic_reach_ok [OF assms(4,1,2,3)] .
  note facts = lic_ok_facts [OF ok]
  have bank: "busy_fsm s i" "cs s i \<noteq> IDLE"
    "\<exists>c. idc_fsm s i c \<and> fsm_pinout s i = pins c \<and> (cs s i = WRITE \<longleftrightarrow> p_rw (pins c))"
    using facts(11,12) assms(5) by (auto simp: bank_ok_def)
  obtain c where c: "idc_fsm s i c" "fsm_pinout s i = pins c" "cs s i = WRITE \<longleftrightarrow> p_rw (pins c)" using bank by blast
  have k: "idc_fsm s i k" "k < num_masters cfg"
    using assms(6-8) by (cases port; cases "cs s i"; auto simp: lic_fsm_def Let_def fsm_next_keeps fsm_clear_def fsm_free_def)+
  have own: "GetTcdmBankId cfg (p_address (pins k)) = i" using facts(3) [OF facts(4) [OF k(1)]] .
  have same: "k = c \<or> p_address (pins c) = p_address (pins k) \<and> \<not> p_rw (pins k) \<and> \<not> p_rw (pins c)"
    using facts(9,10) [OF k(1) c(1)] facts(10) [OF c(1) k(1)] by auto
  have "if p_rw (pins k) then as = [] \<and> m' = snd port m (pins k)
      else \<exists>c. p_address (pins c) = p_address (pins k) \<and> \<not> p_rw (pins c) \<and> idc_fsm s i c \<and>
        {d. (k, d) \<in> set as} = {fst port m (pins c)}"
  proof (cases "p_rw (pins k)")
    case True
    then have "k = c" "cs s i = WRITE" using same c(3) by auto
    then show ?thesis using True assms(6) c(2) by (cases port) (simp add: lic_fsm_def Let_def)
  next
    case False
    then have nw: "\<not> p_rw (pins c)" "cs s i = READ \<or> cs s i = TAS"
      using same c(3) bank(2) by (cases "cs s i"; auto)+
    then have "as = answer_all cfg i (fst port m (pins c)) s"
      using assms(6) c(2) by (cases port) (auto simp: lic_fsm_def Let_def)
    then have "{d. (k, d) \<in> set as} = {fst port m (pins c)}" using k by (auto simp: answer_all_def)
    then show ?thesis using False same c(1) nw by auto
  qed
  then show ?thesis using own by blast
qed

text \<open>C15: every request that the local interconnect ends was served by the bank of its address as it
  was asked for, whatever the other cores do, with round robin scheduling and one port per bank: a
  write is done as presented and nothing is answered, a read is answered once, with what the bank
  holds at its address, read with the transaction of a core that asked for the same address.\<close>

theorem lic_serves_requests:
  assumes "xbar_sched cfg = 1" "num_slaves cfg = N_CL_BANKS cfg" "0 < N_CL_BANKS cfg"
    and "lic_reach cfg port s pins m F" "i \<in> F"
    and "lic_fsm cfg port pins i (s, m) = (as, s', m')" "req s k" "\<not> req s' k"
  shows "GetTcdmBankId cfg (p_address (pins k)) = i \<and>
    (if p_rw (pins k) then as = [] \<and> m' = snd port m (pins k)
      else \<exists>c. p_address (pins c) = p_address (pins k) \<and> \<not> p_rw (pins c) \<and> idc_fsm s i c \<and>
        {d. (k, d) \<in> set as} = {fst port m (pins c)})"
  using assms by (rule lic_completion)

text \<open>An interconnect without a transaction under way; its round-robin pointers and counters can have any value.\<close>

definition lic_idle :: "xbar \<Rightarrow> bool" where
  "lic_idle s \<longleftrightarrow> served s = (\<lambda>_. False) \<and> req_table s = (\<lambda>_ _. False) \<and> busy_fsm s = (\<lambda>_. False) \<and>
     go_fsm s = (\<lambda>_. False) \<and> idc_fsm s = (\<lambda>_ _. False) \<and> cs s = (\<lambda>_. IDLE) \<and> pending_req s = (\<lambda>_. False)"

lemma lic_idle_new [simp]: "lic_idle ((new_xbar b)\<lparr>req := R\<rparr>)"
  by (simp add: lic_idle_def new_xbar_def)

text \<open>A clock edge of an idle interconnect on which core \<open>c\<close> is elected for bank \<open>i\<close>, to read: the state machine
  takes over the transaction of the first core among those that read the same address.\<close>

lemma idle_clock:
  assumes "xbar_sched cfg < 2" "num_slaves cfg = N_CL_BANKS cfg" "0 < N_CL_BANKS cfg" "lic_idle s"
    and el: "elected cfg (lic_requests cfg pins s) i = Some c" and read: "\<not> p_rw (pins c)"
  shows "\<exists>s' d. lic_clock cfg pins s = Inr s' \<and> fsm_pinout s' i = pins d \<and>
    List.find (idc_fsm s' i) [0..<num_masters cfg] = Some d \<and>
    idc_fsm s' i = (\<lambda>k. k < num_masters cfg \<and> req s k \<and> GetTcdmBankId cfg (p_address (pins k)) = i \<and>
      p_address (pins k) = p_address (pins c) \<and> \<not> p_rw (pins k)) \<and>
    cs s' i = (if \<exists>k<num_masters cfg. req s k \<and> GetTcdmBankId cfg (p_address (pins k)) = i \<and>
      IsInTaSSpace (p_address (pins k)) (xbar_ID cfg) \<and> \<not> p_rw (pins k) then TAS else READ)"
proof -
  define r where "r = lic_requests cfg pins s"
  note s = assms(4) [unfolded lic_idle_def]
  have r: "served r = served s" "busy_fsm r = busy_fsm s" "idc_fsm r = idc_fsm s" "go_fsm r = go_fsm s"
    "pending_req r = pending_req s" "cs r = cs s"
    by (simp_all add: r_def)
  have tab: "req_table r j k \<longleftrightarrow> k < num_masters cfg \<and> req s k \<and> GetTcdmBankId cfg (p_address (pins k)) = j" for j k
    using s by (auto simp: r_def lic_requests_table is_new_def)
  have el: "elected cfg r i = Some c" using assms(5) by (simp add: r_def)
  then have c: "c < num_masters cfg" "req s c" "GetTcdmBankId cfg (p_address (pins c)) = i"
    using elected_props(1) [OF el] tab by auto
  have i: "i < num_slaves cfg" using assms(2,3) c(3) by (auto simp: GetTcdmBankId_def)
  obtain a where a: "arbitrate True cfg (sampled pins s) r = Inr a"
    using assms(1) by (simp add: arbitrate_def Let_def)
  note arb = arbitrate_any [OF assms(1) a, unfolded r]
  have smp: "sampled pins s k = pins k" if "req s k" for k using that s by (simp add: sampled_def is_new_def)
  have jn: "joins cfg (sampled pins s) r i k \<longleftrightarrow> k < num_masters cfg \<and> req s k \<and>
      GetTcdmBankId cfg (p_address (pins k)) = i \<and> p_address (pins k) = p_address (pins c) \<and> \<not> p_rw (pins k) \<and> k \<noteq> c" for k
    using smp [of k] smp [OF c(2)] read s by (auto simp: joins_def el tab r)
  define s' where "s' = fold (fsm_wake True cfg pins) (woken cfg s a) a"
  have idc: "idc_fsm s' i k \<longleftrightarrow> k < num_masters cfg \<and> req s k \<and> GetTcdmBankId cfg (p_address (pins k)) = i \<and>
      p_address (pins k) = p_address (pins c) \<and> \<not> p_rw (pins k)" for k
    using c read s i by (auto simp: s'_def arb(1) el jn)
  have here: "i \<in> set (woken cfg s a)"
    using i c tab [of i c] s by (auto simp: woken_def arb(2))
  have "idc_fsm s' i c" using idc [of c] c read by simp
  then obtain d where d: "List.find (idc_fsm s' i) [0..<num_masters cfg] = Some d"
    using c(1) by (cases "List.find (idc_fsm s' i) [0..<num_masters cfg]") (auto simp: find_None_iff)
  then have dr: "\<not> p_rw (pins d)" using idc [of d] by (auto simp: find_Some_iff)
  have w: "cs s' i = (if p_rw (pins d) then WRITE else if True \<and> is_test_and_set a i then TAS else READ) \<and>
      fsm_pinout s' i = pins d"
    using here d unfolding s'_def fold_wake_sel by (intro fold_wake_woken) (simp_all add: woken_def)
  have tas: "is_test_and_set a i \<longleftrightarrow> (\<exists>k<num_masters cfg. req s k \<and> GetTcdmBankId cfg (p_address (pins k)) = i \<and>
      IsInTaSSpace (p_address (pins k)) (xbar_ID cfg) \<and> \<not> p_rw (pins k))"
    unfolding arb(3) using s by (auto simp: r_def lic_requests_def Let_def is_new_def)
  have "lic_clock cfg pins s = Inr s'" by (simp add: lic_clock_def lic_arbiter_def r_def [symmetric] a s'_def)
  then show ?thesis using idc w tas dr d by (intro exI [of _ s'] exI [of _ d]) (simp add: fun_eq_iff)
qed

text \<open>The first clock edge with a set \<open>R\<close> of requests: bank \<open>i\<close> serves core \<open>c\<close>, the first of \<open>R\<close>.\<close>

lemma first_clock:
  assumes "xbar_sched cfg = 1" "num_slaves cfg = N_CL_BANKS cfg" "0 < N_CL_BANKS cfg"
    and c: "c < num_masters cfg" "R c" "GetTcdmBankId cfg (p_address (pins c)) = i"
    and first: "\<And>k. k < c \<Longrightarrow> \<not> (R k \<and> GetTcdmBankId cfg (p_address (pins k)) = i)"
    and read: "\<not> p_rw (pins c)"
  shows "\<exists>s'. lic_clock cfg pins ((new_xbar b)\<lparr>req := R\<rparr>) = Inr s' \<and> fsm_pinout s' i = pins c \<and>
    idc_fsm s' i = (\<lambda>k. k < num_masters cfg \<and> R k \<and> GetTcdmBankId cfg (p_address (pins k)) = i \<and>
      p_address (pins k) = p_address (pins c) \<and> \<not> p_rw (pins k)) \<and>
    cs s' i = (if \<exists>k<num_masters cfg. R k \<and> GetTcdmBankId cfg (p_address (pins k)) = i \<and>
      IsInTaSSpace (p_address (pins k)) (xbar_ID cfg) \<and> \<not> p_rw (pins k) then TAS else READ)"
proof -
  let ?s = "(new_xbar b)\<lparr>req := R\<rparr>"
  have tab: "req_table (lic_requests cfg pins ?s) i k \<longleftrightarrow> k < num_masters cfg \<and> R k \<and> GetTcdmBankId cfg (p_address (pins k)) = i" for k
    by (auto simp: lic_requests_table is_new_def new_xbar_def)
  have "map (\<lambda>k. k mod num_masters cfg) [0..<num_masters cfg] = [0..<num_masters cfg]"
    by (rule map_idI) simp
  then have order: "serving_order cfg (lic_requests cfg pins ?s) i = [0..<num_masters cfg]"
    by (simp add: serving_order_def new_xbar_def)
  have nb: "\<not> busy_fsm (lic_requests cfg pins ?s) i" by (simp add: new_xbar_def)
  have el: "elected cfg (lic_requests cfg pins ?s) i = Some c"
    unfolding elected_def order using c first nb by (auto simp: find_Some_iff tab intro!: exI [of _ c])
  obtain s' d where s': "lic_clock cfg pins ?s = Inr s'" "fsm_pinout s' i = pins d"
    "List.find (idc_fsm s' i) [0..<num_masters cfg] = Some d"
    "idc_fsm s' i = (\<lambda>k. k < num_masters cfg \<and> R k \<and> GetTcdmBankId cfg (p_address (pins k)) = i \<and>
      p_address (pins k) = p_address (pins c) \<and> \<not> p_rw (pins k))"
    "cs s' i = (if \<exists>k<num_masters cfg. R k \<and> GetTcdmBankId cfg (p_address (pins k)) = i \<and>
      IsInTaSSpace (p_address (pins k)) (xbar_ID cfg) \<and> \<not> p_rw (pins k) then TAS else READ)"
    using idle_clock [of cfg ?s pins i c, OF _ assms(2,3) _ el read] assms(1) by auto
  have "d = c"
  proof (rule antisym)
    have d: "idc_fsm s' i d" "\<forall>j<d. \<not> idc_fsm s' i j" using s'(3) by (auto simp: find_Some_iff)
    show "c \<le> d" using d(1) first [of d] by (auto simp: s'(4) not_less [symmetric])
    show "d \<le> c" using d(2) c read unfolding s'(4) not_less [symmetric] by blast
  qed
  then show ?thesis using s' by blast
qed

text \<open>C29: test-and-set is not exclusive: when cores read a test-and-set address at one clock edge at which the
  interconnect has no transaction under way, and no core asks for anything else in the bank of the address,
  all these cores, however many, are served by one transaction and all get the same value, the one the word had, so with a free lock there
  every one of them enters. This holds for both kinds of arbitration.\<close>

theorem tas_answers_all:
  assumes "xbar_sched cfg < 2" "num_slaves cfg = N_CL_BANKS cfg" "0 < N_CL_BANKS cfg" "lic_idle s"
    and "IsInTaSSpace a (xbar_ID cfg)" "x < num_masters cfg" "req s x" "p_address (pins x) = a"
    and "\<forall>k < num_masters cfg. req s k \<and> GetTcdmBankId cfg (p_address (pins k)) = GetTcdmBankId cfg a \<longrightarrow>
      p_address (pins k) = a \<and> \<not> p_rw (pins k)"
  shows "\<exists>s' as sm d. lic_clock cfg pins s = Inr s' \<and>
    lic_fsm cfg port pins (GetTcdmBankId cfg a) (s', m) = (as, sm) \<and>
    p_address (pins d) = a \<and> \<not> p_rw (pins d) \<and>
    (\<forall>k < num_masters cfg. req s k \<and> p_address (pins k) = a \<longrightarrow> {v. (k, v) \<in> set as} = {fst port m (pins d)})"
proof -
  let ?i = "GetTcdmBankId cfg a"
  have tab: "req_table (lic_requests cfg pins s) ?i k \<longleftrightarrow> k < num_masters cfg \<and> req s k \<and> GetTcdmBankId cfg (p_address (pins k)) = ?i" for k
    using assms(4) by (auto simp: lic_requests_table is_new_def lic_idle_def)
  have "\<not> busy_fsm (lic_requests cfg pins s) ?i" using assms(4) by (simp add: lic_idle_def)
  then obtain c where el: "elected cfg (lic_requests cfg pins s) ?i = Some c"
    using elected_props(2) tab [of x] assms(6-8) by blast
  have c: "p_address (pins c) = a" "\<not> p_rw (pins c)"
    using elected_props(1) [OF el] tab [of c] assms(9) by auto
  obtain s' d where s': "lic_clock cfg pins s = Inr s'" "fsm_pinout s' ?i = pins d"
    "List.find (idc_fsm s' ?i) [0..<num_masters cfg] = Some d"
    "idc_fsm s' ?i = (\<lambda>k. k < num_masters cfg \<and> req s k \<and> GetTcdmBankId cfg (p_address (pins k)) = ?i \<and>
      p_address (pins k) = p_address (pins c) \<and> \<not> p_rw (pins k))"
    "cs s' ?i = (if \<exists>k<num_masters cfg. req s k \<and> GetTcdmBankId cfg (p_address (pins k)) = ?i \<and>
      IsInTaSSpace (p_address (pins k)) (xbar_ID cfg) \<and> \<not> p_rw (pins k) then TAS else READ)"
    using idle_clock [OF assms(1-4) el c(2)] by blast
  have tas: "cs s' ?i = TAS" using s'(5) assms(5-9) by auto
  have d: "p_address (pins d) = a" "\<not> p_rw (pins d)" using s'(3) c(1) by (auto simp: find_Some_iff s'(4))
  obtain rd wr where port: "port = (rd, wr)" by (cases port)
  have "{v. (k, v) \<in> set (answer_all cfg ?i (rd m (pins d)) s')} = {rd m (pins d)}"
    if "k < num_masters cfg" "req s k" "p_address (pins k) = a" for k
    using that assms(9) c(1) by (auto simp: answer_all_def s'(4))
  then show ?thesis using s'(1,2) tas d by (auto simp: lic_fsm_def Let_def port)
qed

lemma filter_upt_eq: "(x :: nat) < n \<Longrightarrow> filter (\<lambda>k. k = x) [0..<n] = [x]"
  by (induction n) (auto simp: less_Suc_eq)

text \<open>A test-and-set spoils a read beside it: a core that reads a word of a bank at the same clock
  edge as a core after it test-and-sets another word of the bank has a one written over its word.\<close>

theorem tas_spoils_read:
  assumes "xbar_sched cfg = 1" "num_slaves cfg = N_CL_BANKS cfg" "0 < N_CL_BANKS cfg"
    and "IsInTaSSpace a (xbar_ID cfg)" "x < y" "y < num_masters cfg" "a \<noteq> w"
    and "GetTcdmBankId cfg w = GetTcdmBankId cfg a"
  defines "pins \<equiv> (\<lambda>_. word_read a)(x := word_read w)"
  shows "\<exists>s' s''. lic_clock cfg pins ((new_xbar b)\<lparr>req := (\<lambda>k. k = x \<or> k = y)\<rparr>) = Inr s' \<and>
    lic_fsm cfg port pins (GetTcdmBankId cfg a) (s', m) =
      ([(x, fst port m (word_read w))], s'', snd port m ((word_read w)\<lparr>p_data := 1, p_rw := True\<rparr>))"
proof -
  let ?i = "GetTcdmBankId cfg a"
  have pins: "pins x = word_read w" "pins y = word_read a" "k \<noteq> x \<Longrightarrow> pins k = word_read a" for k
    using assms(5) by (auto simp: pins_def)
  have first: "\<And>k. k < x \<Longrightarrow> \<not> ((k = x \<or> k = y) \<and> GetTcdmBankId cfg (p_address (pins k)) = ?i)"
    using assms(5) by auto
  have c: "x < num_masters cfg" "x = x \<or> x = y" "GetTcdmBankId cfg (p_address (pins x)) = ?i" "\<not> p_rw (pins x)"
    using assms(5,6,8) by (auto simp: pins)
  obtain s' where s': "lic_clock cfg pins ((new_xbar b)\<lparr>req := (\<lambda>k. k = x \<or> k = y)\<rparr>) = Inr s'"
    "fsm_pinout s' ?i = pins x" "idc_fsm s' ?i = (\<lambda>k. k < num_masters cfg \<and> (k = x \<or> k = y) \<and>
      GetTcdmBankId cfg (p_address (pins k)) = ?i \<and> p_address (pins k) = p_address (pins x) \<and> \<not> p_rw (pins k))"
    "cs s' ?i = (if \<exists>k<num_masters cfg. (k = x \<or> k = y) \<and> GetTcdmBankId cfg (p_address (pins k)) = ?i \<and>
      IsInTaSSpace (p_address (pins k)) (xbar_ID cfg) \<and> \<not> p_rw (pins k) then TAS else READ)"
    using first_clock [of cfg x "\<lambda>k. k = x \<or> k = y" pins ?i b, OF assms(1-3) c(1-3) first c(4)] by blast
  have "y < num_masters cfg \<and> (y = x \<or> y = y) \<and> GetTcdmBankId cfg (p_address (pins y)) = ?i \<and>
      IsInTaSSpace (p_address (pins y)) (xbar_ID cfg) \<and> \<not> p_rw (pins y)"
    using assms(4,6) by (simp add: pins(2))
  then have tas: "cs s' ?i = TAS" using s'(4) by auto
  have idc: "idc_fsm s' ?i k \<longleftrightarrow> k = x" for k
    using assms(5-7) c(3) unfolding s'(3) by (cases "k = x"; cases "k = y") (auto simp: pins(1,2))
  have "filter (idc_fsm s' ?i) [0..<num_masters cfg] = filter (\<lambda>k. k = x) [0..<num_masters cfg]"
    by (rule filter_cong [OF refl]) (rule idc)
  also have "\<dots> = [x]"
    using filter_upt_eq [OF c(1)] by simp
  finally have "answer_all cfg ?i d s' = [(x, d)]" for d by (simp add: answer_all_def)
  then show ?thesis using s'(1,2) tas by (cases port) (auto simp: lic_fsm_def Let_def pins)
qed

text \<open>Two cores and one bank that holds one word; the last words of the TCDM are test-and-set words.\<close>

definition one_word :: "u32 slave_port" where
  "one_word = ((\<lambda>m _. m), (\<lambda>_ p. p_data p))"

definition lock_word :: addr where "lock_word = CL_TCDM_BASE + CL_TCDM_SIZE - 4"

lemma lock_word_tas: "IsInTaSSpace lock_word (xbar_ID two_cores)"
  by code_simp

lemma two_cores_sel [simp]:
  "num_masters two_cores = 2" "num_slaves two_cores = 1" "N_CL_BANKS two_cores = 1" "xbar_sched two_cores = 1"
  by (simp_all add: two_cores_def)

lemma two_cores_bank [simp]: "GetTcdmBankId two_cores a = 0"
  by (simp add: GetTcdmBankId_def)

lemma tas_answers_all_witness:
  "\<exists>s' as sm d. lic_clock two_cores (\<lambda>_. word_read lock_word) ((new_xbar 1)\<lparr>req := (\<lambda>k. k = 0 \<or> k = 1)\<rparr>) = Inr s' \<and>
    lic_fsm two_cores one_word (\<lambda>_. word_read lock_word) (GetTcdmBankId two_cores lock_word) (s', 0) = (as, sm) \<and>
    p_address (word_read lock_word) = lock_word \<and> \<not> p_rw (word_read lock_word) \<and>
    (\<forall>k < num_masters two_cores. (k = 0 \<or> k = 1) \<and> p_address (word_read lock_word) = lock_word \<longrightarrow>
      {v. (k, v) \<in> set as} = {fst one_word 0 (word_read lock_word)})"
  using tas_answers_all [of two_cores "(new_xbar 1)\<lparr>req := (\<lambda>k. k = 0 \<or> k = 1)\<rparr>" lock_word 0 "\<lambda>_. word_read lock_word" one_word 0]
  by (simp add: lock_word_tas)

lemma tas_spoils_read_witness:
  "\<exists>s' s''. lic_clock two_cores ((\<lambda>_. word_read lock_word)(0 := word_read CL_TCDM_BASE))
      ((new_xbar 1)\<lparr>req := (\<lambda>k. k = 0 \<or> k = 1)\<rparr>) = Inr s' \<and>
    lic_fsm two_cores one_word ((\<lambda>_. word_read lock_word)(0 := word_read CL_TCDM_BASE))
      (GetTcdmBankId two_cores lock_word) (s', 7) =
      ([(0, fst one_word 7 (word_read CL_TCDM_BASE))], s'',
       snd one_word 7 ((word_read CL_TCDM_BASE)\<lparr>p_data := 1, p_rw := True\<rparr>))"
proof (rule tas_spoils_read)
  show "lock_word \<noteq> CL_TCDM_BASE" by code_simp
qed (simp_all add: lock_word_tas)

text \<open>Both cores read the first word of the TCDM at the same clock edge, and the bank ends their
  transaction.\<close>

lemma both_cores_read:
  fixes port :: "'m slave_port"
  shows "\<exists>s F as s' m'. lic_reach two_cores port s (\<lambda>_. word_read CL_TCDM_BASE) m F \<and> 0 \<in> F \<and>
    lic_fsm two_cores port (\<lambda>_. word_read CL_TCDM_BASE) 0 (s, m) = (as, s', m') \<and> req s 1 \<and> \<not> req s' 1"
proof -
  let ?p = "\<lambda>_. word_read CL_TCDM_BASE"
  have base: "CL_TCDM_BASE \<noteq> 0" by code_simp
  have n: "req (new_xbar 1) = (\<lambda>_. False)" by (simp add: new_xbar_def)
  have u: "(\<lambda>_. False)(0 := True) = (\<lambda>k. k = (0 :: nat))" "(\<lambda>k. k = 0)(1 := True) = (\<lambda>k. k = 0 \<or> k = (1 :: nat))"
    by (auto simp: fun_eq_iff)
  have p: "?p(k := word_read CL_TCDM_BASE) = ?p" for k :: nat by auto
  have "lic_reach two_cores port (new_xbar 1) ?p m {}" by (rule lic_reach.start)
  from lic_reach.request [OF this, of 0 "word_read CL_TCDM_BASE"]
  have "lic_reach two_cores port ((new_xbar 1)\<lparr>req := (\<lambda>k. k = 0)\<rparr>) ?p m {}"
    using base unfolding p n by (simp add: u)
  from lic_reach.request [OF this, of 1 "word_read CL_TCDM_BASE"]
  have two: "lic_reach two_cores port ((new_xbar 1)\<lparr>req := (\<lambda>k. k = 0 \<or> k = 1)\<rparr>) ?p m {}"
    using base unfolding p by (simp add: u [simplified])
  obtain s where s: "lic_clock two_cores ?p ((new_xbar 1)\<lparr>req := (\<lambda>k. k = 0 \<or> k = 1)\<rparr>) = Inr s"
    "idc_fsm s 0 = (\<lambda>k. k < 2 \<and> (k = 0 \<or> k = 1))" "cs s 0 \<noteq> IDLE" "cs s 0 \<noteq> WRITE"
    using first_clock [of two_cores 0 "\<lambda>k. k = 0 \<or> k = 1" ?p 0 1] by auto
  note reach = lic_reach.clock [OF two s(1)]
  have ok: "lic_ok two_cores ?p {i. i < num_slaves two_cores \<and> cs s i \<noteq> IDLE} s"
    by (rule lic_reach_ok [OF reach]) simp_all
  have req: "req s 1" using lic_ok_facts(1) [OF ok lic_ok_facts(4) [OF ok, of 0 1]] s(2) by simp
  obtain as s' m' where step: "lic_fsm two_cores port ?p 0 (s, m) = (as, s', m')"
    by (cases "lic_fsm two_cores port ?p 0 (s, m)")
  then have "\<not> req s' 1"
    using s(2-4) by (cases port; cases "cs s 0")
      (auto simp: lic_fsm_def Let_def fsm_next_keeps fsm_clear_def fsm_free_def)
  moreover have "0 \<in> {i. i < num_slaves two_cores \<and> cs s i \<noteq> IDLE}" using s(3) by simp
  ultimately show ?thesis using reach step req by blast
qed

lemma lic_serves_requests_witness:
  "\<exists>s F s' as m'. lic_reach two_cores one_word s (\<lambda>_. word_read CL_TCDM_BASE) 7 F \<and> req s 1 \<and> \<not> req s' 1 \<and>
    lic_fsm two_cores one_word (\<lambda>_. word_read CL_TCDM_BASE) 0 (s, 7) = (as, s', m') \<and> {d. (1, d) \<in> set as} = {7}"
proof -
  obtain s F as s' m' where r: "lic_reach two_cores one_word s (\<lambda>_. word_read CL_TCDM_BASE) 7 F" "0 \<in> F"
    "lic_fsm two_cores one_word (\<lambda>_. word_read CL_TCDM_BASE) 0 (s, 7) = (as, s', m')" "req s 1" "\<not> req s' 1"
    using both_cores_read [of one_word 7] by blast
  show ?thesis using lic_serves_requests [OF _ _ _ r] r by (auto simp: one_word_def)
qed

section \<open>Routes of the peripheral interconnect\<close>

text \<open>The port that the platform wires to a slave (\<open>cl_platform_prv.h\<close>), with \<open>M\<close> cores.\<close>

fun wired_port :: "nat \<Rightarrow> nat \<Rightarrow> addr \<Rightarrow> region \<Rightarrow> nat" where
  "wired_port M k a L3 = k"
| "wired_port M k a Hws = M + GetHWSPort a"
| "wired_port M k a Sem = M + N_HWS_PORTS"
| "wired_port M k a Dma = M + N_HWS_PORTS + 1"
| "wired_port M k a Counter = M + N_HWS_PORTS + 2"
| "wired_port M k a Accelerator = M + N_HWS_PORTS + 3"
| "wired_port M k a Tcdm = k"

lemma pic_route_region:
  assumes "unat (xbar_ID cfg) < 8" "in_region r a (xbar_ID cfg)" "r \<noteq> Tcdm"
  shows "pic_route cfg k a = Inr (case r of L3 \<Rightarrow> k | Hws \<Rightarrow> num_masters cfg + GetHWSPort a
    | Sem \<Rightarrow> num_slaves cfg - 4 | Dma \<Rightarrow> num_slaves cfg - 3 | Counter \<Rightarrow> num_slaves cfg - 2
    | _ \<Rightarrow> num_slaves cfg - 1)"
proof -
  have only: "q \<noteq> r \<Longrightarrow> \<not> in_region q a (xbar_ID cfg)" for q
    using assms(1,2) region_separate [of q r] by (fastforce simp: in_region_unat)
  show ?thesis
    using assms(2,3) only [of L3] only [of Hws] only [of Sem] only [of Dma] only [of Counter]
    by (cases r) (simp_all add: pic_route_def)
qed

text \<open>The peripheral interconnect sends an address of a slave to the port that the platform wires to
  the slave, for the external memory and the synchronizer always, and for the semaphores, the DMA engine,
  the counter and the accelerator exactly if it has four ports after those of the synchronizer.\<close>

theorem pic_routes:
  assumes "unat (xbar_ID cfg) < 8" "in_region r a (xbar_ID cfg)" "r \<noteq> Tcdm" "4 \<le> num_slaves cfg"
  shows "pic_route cfg k a = Inr (wired_port (num_masters cfg) k a r) \<longleftrightarrow>
    r = L3 \<or> r = Hws \<or> num_slaves cfg = num_masters cfg + N_HWS_PORTS + 4"
  unfolding pic_route_region [OF assms(1-3)] using assms(3,4) by (cases r) auto

definition shared_cache_pic :: xbar_cfg where
  "shared_cache_pic = \<lparr>xbar_ID = 0, num_masters = 18, num_slaves = 18 + N_HWS_PORTS + 2, N_CL_BANKS = 1, xbar_sched = 1\<rparr>"

lemma sem_region: "in_region Sem CL_SEM_BASE 0"
  by code_simp

theorem pic_routes_witness:
  "pic_route shared_cache_pic 3 CL_SEM_BASE \<noteq> Inr (wired_port 18 3 CL_SEM_BASE Sem)"
  using pic_routes [of shared_cache_pic Sem CL_SEM_BASE 3] sem_region
  by (simp add: shared_cache_pic_def N_HWS_PORTS_def N_HWS_PRG_PORTS_def N_HWS_SLV_PORTS_def)

text \<open>With the ports of the platform with shared caches (\<open>cl_platform_shr.h\<close>), an access to the semaphores
  reaches the programming port of the synchronizer.\<close>

lemma semaphores_reach_synchronizer:
  "pic_route shared_cache_pic k CL_SEM_BASE = Inr (num_masters shared_cache_pic)"
  using pic_route_region [of shared_cache_pic Sem CL_SEM_BASE k] sem_region
  by (simp add: shared_cache_pic_def N_HWS_PORTS_def N_HWS_PRG_PORTS_def N_HWS_SLV_PORTS_def)

section \<open>Bursts of the peripheral interconnect\<close>

lemma fsm_next_handed:
  assumes "pending_req s i" "next_waiting (num_masters cfg) (req_table s i) (next_core s i) = Some c"
  shows "fsm_pinout (fsm_next cfg pins i s) i = pins c" "fsm_burst (fsm_next cfg pins i s) = fsm_burst s"
    "cs (fsm_next cfg pins i s) i = (if p_rw (pins c) then WRITE else READ)"
    "idc_fsm (fsm_next cfg pins i s) i = (idc_fsm s i)(c := True)"
  using assms by (simp_all add: fsm_next_def Let_def)

lemma fsm_clear_sel [simp]:
  "pending_req (fsm_clear i ks s) = pending_req s" "next_core (fsm_clear i ks s) = next_core s"
  "fsm_burst (fsm_clear i ks s) = fsm_burst s" "cs (fsm_clear i ks s) = cs s"
  "req_table (fsm_clear i ks s) i = (\<lambda>k. req_table s i k \<and> \<not> ks k)"
  "idc_fsm (fsm_clear i ks s) i = (\<lambda>k. idc_fsm s i k \<and> \<not> ks k)"
  by (simp_all add: fsm_clear_def)

text \<open>In the peripheral interconnect a read that is handed over keeps the number of beats of the
  transaction before it: with a shorter burst the state machine of the slave waits for ever for the
  beats that do not come, with a longer one the core gets only as many words as that transaction had.\<close>

theorem handed_over_burst_stale:
  assumes "cs s i = READ" "0 < fsm_burst s i" "fsm_burst s i = p_burst (fsm_pinout s i)" "pending_req s i"
    and "\<And>k. idc_fsm s i k \<Longrightarrow> k < num_masters cfg"
    and "next_waiting (num_masters cfg) (\<lambda>k. req_table s i k \<and> \<not> idc_fsm s i k) (next_core s i) = Some c"
    and "c < num_masters cfg" "\<not> p_rw (pins c)"
  shows "\<exists>as s'. pic_fsm cfg port pins data i (s, m) = Inr (as, s', m) \<and>
    pic_fsm cfg port pins data i (s', m) =
      (if p_burst (pins c) < fsm_burst s i then Inl FSpin
       else Inr (map (\<lambda>b. (c, fst port m (pins c) b)) [0..<unat (fsm_burst s i)],
         fsm_next cfg pins i (fsm_clear i (\<lambda>k. k = c) s'), m))"
proof -
  have ks: "(\<lambda>k. k < num_masters cfg \<and> idc_fsm s i k) = idc_fsm s i" using assms(5) by blast
  have pos: "unat (fsm_burst s i) \<noteq> 0" using assms(2) by (simp add: unat_eq_0 word_gt_0)
  define s1 where "s1 = fsm_clear i (idc_fsm s i) s"
  define s' where "s' = fsm_next cfg pins i s1"
  have nw: "next_waiting (num_masters cfg) (req_table s1 i) (next_core s1 i) = Some c" "pending_req s1 i"
    using assms(4,6) by (simp_all add: s1_def)
  note n = fsm_next_handed [OF nw(2,1), of pins, folded s'_def]
  have first: "\<exists>as. pic_fsm cfg port pins data i (s, m) = Inr (as, s', m)"
    using assms(1,3) pos by (cases port) (simp add: pic_fsm_def Let_def ks s'_def s1_def)
  have idc: "idc_fsm s' i = (\<lambda>k. k = c)" unfolding n(4) by (auto simp: s1_def fun_eq_iff)
  have "(\<lambda>k. k < num_masters cfg \<and> k = c) = (\<lambda>k. k = c)" using assms(7) by auto
  moreover have "answer_all cfg i d s' = [(c, d)]" for d
    using filter_upt_eq [OF assms(7)] by (simp add: answer_all_def idc)
  ultimately have "pic_fsm cfg port pins data i (s', m) =
      (if p_burst (pins c) < fsm_burst s i then Inl FSpin
       else Inr (map (\<lambda>b. (c, fst port m (pins c) b)) [0..<unat (fsm_burst s i)],
         fsm_next cfg pins i (fsm_clear i (\<lambda>k. k = c) s'), m))"
    using assms(8) n(1-3) pos
    by (cases port) (simp add: pic_fsm_def Let_def idc word_less_nat_alt s1_def concat_map_singleton)
  then show ?thesis using first by blast
qed

text \<open>Core 0 ends a burst of four words, core 1 waits with a single word.\<close>

definition burst_ends :: xbar where
  "burst_ends = (new_xbar 4)\<lparr>cs := (\<lambda>_. READ), fsm_pinout := (\<lambda>_. (word_read 0)\<lparr>p_burst := 4\<rparr>),
     pending_req := (\<lambda>_. True), req_table := (\<lambda>_ _. True), idc_fsm := (\<lambda>_ k. k = 0)\<rparr>"

theorem handed_over_burst_stale_witness:
  "\<exists>as s'. pic_fsm two_cores ((\<lambda>m _ _. m), (\<lambda>m _ _. m)) (\<lambda>_. word_read 0) (\<lambda>_ _. word_read 0) 0 (burst_ends, 7) = Inr (as, s', 7) \<and>
    pic_fsm two_cores ((\<lambda>m _ _. m), (\<lambda>m _ _. m)) (\<lambda>_. word_read 0) (\<lambda>_ _. word_read 0) 0 (s', (7 :: u32)) = Inl FSpin"
proof -
  have nw: "next_waiting 2 (\<lambda>k. k \<noteq> 0) 0 = Some 1" by (simp add: next_waiting_def upt_rec)
  show ?thesis
    using handed_over_burst_stale [of burst_ends 0 two_cores 1 "\<lambda>_. word_read 0" "((\<lambda>m _ _. m), (\<lambda>m _ _. m))" "\<lambda>_ _. word_read 0" 7] nw
    by (auto simp: burst_ends_def new_xbar_def)
qed

text \<open>In the local interconnect a test-and-set that is handed over is a plain read: the lock stays free.\<close>

lemma tas_handed_over_not_set:
  assumes "pending_req s i" "next_waiting (num_masters cfg) (req_table s i) (next_core s i) = Some c"
    and "\<not> p_rw (pins c)" "c < num_masters cfg"
  shows "\<exists>as s'. lic_fsm cfg port pins i (fsm_next cfg pins i s, m) = (as, s', m) \<and> (c, fst port m (pins c)) \<in> set as"
  using assms(3,4) fsm_next_handed [OF assms(1,2), of pins]
  by (cases port) (auto simp: lic_fsm_def Let_def answer_all_def)

end
