(* ===== verification/Tcdm.thy ===== *)
theory Tcdm
  imports Xbar
begin

text \<open>
  The shared memory of a cluster: the banks of the TCDM (\<open>cl_memory\<close>) as the platform builds them
  (\<open>virtualsoc/include/virtualsoc/cluster/cl_platform_prv.h\<close>), behind the local interconnect.
\<close>

section \<open>The banks\<close>

text \<open>\<open>2 ^ b\<close> banks; all start at \<open>CL_TCDM_BASE\<close> and keep every \<open>2 ^ b\<close>-th word.\<close>

type_synonym tcdm = "nat \<Rightarrow> cl_memory"

definition sh_tcdm :: "nat \<Rightarrow> u32 \<Rightarrow> tcdm" where
  "sh_tcdm b bank_size i =
     \<lparr>target_mem = new_mem bank_size, START_ADDRESS = CL_TCDM_BASE, is_private = False, n_bit_shift = b + 2\<rparr>"

definition bank_of :: "nat \<Rightarrow> addr \<Rightarrow> nat" where
  "bank_of b a = unat (a div CL_WORD) mod 2 ^ b"

definition tcdm_rd :: "nat \<Rightarrow> tcdm \<Rightarrow> addr \<Rightarrow> u32 res" where
  "tcdm_rd b m a = clm_Read (m (bank_of b a)) a MEM_WORD"

definition tcdm_wr :: "nat \<Rightarrow> tcdm \<Rightarrow> addr \<Rightarrow> u32 \<Rightarrow> tcdm res" where
  "tcdm_wr b m a v = res_map (\<lambda>c. m(bank_of b a := c)) (clm_Write (m (bank_of b a)) a v MEM_WORD)"

definition tcdm_ok :: "nat \<Rightarrow> tcdm \<Rightarrow> addr \<Rightarrow> bool" where
  "tcdm_ok b m a \<longleftrightarrow> b \<le> 25 \<and> CL_TCDM_BASE \<le> a \<and>
     (let c = m (bank_of b a) in \<not> is_private c \<and> START_ADDRESS c = CL_TCDM_BASE \<and> n_bit_shift c = b + 2 \<and> clm_ok c a)"

lemma unat_drop_bit_div: "unat (drop_bit n x) = unat (x :: u32) div 2 ^ n"
  unfolding unat_drop_bit_eq by (simp only: drop_bit_eq_div)

lemma clm_addressing_shared:
  assumes "\<not> is_private c" "START_ADDRESS c = CL_TCDM_BASE" "n_bit_shift c = b + 2" "CL_TCDM_BASE \<le> a"
  shows "unat (clm_addressing c a) = 4 * ((unat a - 0x08000000) div 4 div 2 ^ b) + unat a mod 4"
proof -
  let ?x = "a - CL_TCDM_BASE"
  have x: "unat ?x = unat a - 0x08000000" using assms(4) by (simp add: unat_sub CL_TCDM_BASE_def)
  have "0x08000000 \<le> unat a" using assms(4) by (simp add: word_le_unat CL_TCDM_BASE_def)
  then obtain z where z: "unat a = 0x08000000 + z" using le_Suc_ex by blast
  have "(z + 0x02000000 * 4) mod 4 = z mod 4" by (rule mod_mult_self1)
  then have mod4: "unat ?x mod 4 = unat a mod 4" by (simp add: x z add.commute)
  have lt: "unat ?x div 2 ^ (b + 2) * 4 + unat ?x mod 4 < 4294967296"
  proof -
    have "unat ?x div 2 ^ (b + 2) \<le> unat ?x div 4"
      by (rule div_le_mono2) (simp_all add: power_add)
    moreover have "unat ?x < 4294967296" using unsigned_less [of ?x, where 'a = nat] by simp
    moreover have "unat ?x div 4 * 4 + unat ?x mod 4 = unat ?x" by simp
    ultimately show ?thesis by linarith
  qed
  have "clm_addressing c a = drop_bit (b + 2) ?x * 4 + ?x mod 4"
    using assms(1-3) by (simp add: clm_addressing_def get_local_bank_addr_def CL_WORD_def)
  moreover have "unat (drop_bit (b + 2) ?x) = unat ?x div 2 ^ (b + 2)" by (rule unat_drop_bit_div)
  moreover have "unat (?x mod 4) = unat ?x mod 4" by (simp add: unat_mod)
  moreover have "unat (u * 4 + r) = unat u * 4 + unat r" if "unat u * 4 + unat r < 4294967296" for u r :: u32
    using that by (simp add: unat_word_ariths)
  ultimately have "unat (clm_addressing c a) = unat ?x div 2 ^ (b + 2) * 4 + unat ?x mod 4"
    using lt by metis
  then have "unat (clm_addressing c a) = (unat a - 0x08000000) div 2 ^ (b + 2) * 4 + unat a mod 4"
    unfolding mod4 by (simp only: x)
  then show ?thesis by (simp add: power_add div_mult2_eq mult.commute)
qed

lemma clm_slot_shared:
  assumes "\<not> is_private c" "START_ADDRESS c = CL_TCDM_BASE" "n_bit_shift c = b + 2" "CL_TCDM_BASE \<le> a"
  shows "clm_slot c a = (unat a - 0x08000000) div 4 div 2 ^ b"
  by (simp add: clm_slot_def clm_addressing_shared [OF assms])

lemma offset_div_4: "0x08000000 \<le> (y :: nat) \<Longrightarrow> y div 4 = (y - 0x08000000) div 4 + 0x02000000"
proof -
  assume "0x08000000 \<le> y"
  then obtain z where y: "y = 0x08000000 + z" using le_Suc_ex by blast
  have "(z + 0x02000000 * 4) div 4 = 0x02000000 + z div 4" by (rule div_mult_self1) simp
  then show "y div 4 = (y - 0x08000000) div 4 + 0x02000000" by (simp add: y add.commute)
qed

lemma bank_and_slot:
  assumes "b \<le> 25" "CL_TCDM_BASE \<le> a" "CL_TCDM_BASE \<le> a'" "bank_of b a = bank_of b a'"
    and "(unat a - 0x08000000) div 4 div 2 ^ b = (unat a' - 0x08000000) div 4 div 2 ^ b"
  shows "unat a div 4 = unat a' div 4"
proof -
  have lo: "0x08000000 \<le> unat a" "0x08000000 \<le> unat a'"
    using assms(2,3) by (simp_all add: word_le_unat CL_TCDM_BASE_def)
  have w: "unat x div 4 = (unat x - 0x08000000) div 4 + 0x02000000" if "0x08000000 \<le> unat x" for x :: u32
    using offset_div_4 [OF that] .
  have "(2 :: nat) ^ b dvd 2 ^ 25" using assms(1) by (rule le_imp_power_dvd)
  then have d: "(2 :: nat) ^ b dvd 0x02000000" by simp
  have m: "(u + 0x02000000) mod 2 ^ b = u mod 2 ^ b" for u :: nat
    using d by (metis add.right_neutral dvd_eq_mod_eq_0 mod_add_right_eq)
  have "bank_of b x = (unat x - 0x08000000) div 4 mod 2 ^ b" if "0x08000000 \<le> unat x" for x
    using w [OF that] by (simp add: bank_of_def CL_WORD_def unat_div m)
  then have "(unat a - 0x08000000) div 4 mod 2 ^ b = (unat a' - 0x08000000) div 4 mod 2 ^ b"
    using assms(4) lo by simp
  then have "(unat a - 0x08000000) div 4 = (unat a' - 0x08000000) div 4"
    using assms(5) by (metis div_mult_mod_eq)
  then show ?thesis using w lo by simp
qed

lemma bank_of_word: "unat a div 4 = unat a' div 4 \<Longrightarrow> bank_of b a = bank_of b a'"
  by (simp add: bank_of_def CL_WORD_def unat_div)

lemma tcdm_ok_slot:
  assumes "tcdm_ok b m a"
  shows "clm_slot (m (bank_of b a)) a = (unat a - 0x08000000) div 4 div 2 ^ b"
  using assms clm_slot_shared [of "m (bank_of b a)" b a] by (simp add: tcdm_ok_def Let_def)

text \<open>The banks together are one word memory.\<close>

interpretation tcdm: word_memory "tcdm_rd b" "tcdm_wr b" "tcdm_ok b" "\<lambda>m a. unat a div 4"
proof unfold_locales
  fix m a
  show "tcdm_ok b m a \<Longrightarrow> \<exists>v. tcdm_rd b m a = Inr v"
    by (auto simp: tcdm_ok_def tcdm_rd_def Let_def clm.rd_total)
next
  fix m a v
  assume "tcdm_ok b m a"
  then have "clm_ok (m (bank_of b a)) a" by (simp add: tcdm_ok_def Let_def)
  then obtain c where "clm_Write (m (bank_of b a)) a v MEM_WORD = Inr c" using clm.wr_total by blast
  then show "\<exists>m'. tcdm_wr b m a v = Inr m'" by (simp add: tcdm_wr_def)
next
  fix m a v m' a'
  assume ok: "tcdm_ok b m a" and wr: "tcdm_wr b m a v = Inr m'"
  then have clm_ok: "clm_ok (m (bank_of b a)) a" by (simp add: tcdm_ok_def Let_def)
  obtain c where c: "clm_Write (m (bank_of b a)) a v MEM_WORD = Inr c" "m' = m(bank_of b a := c)"
    using wr by (auto simp: tcdm_wr_def)
  have c': "c = (m (bank_of b a))\<lparr>target_mem := target_mem c\<rparr>"
    using c(1) clm_word_access(2) [OF clm_ok] by auto
  note frame = clm.wr_frame [OF clm_ok c(1)]
  show "tcdm_ok b m' = tcdm_ok b m \<and> (\<lambda>a. unat a div 4) = (\<lambda>a :: addr. unat a div 4)"
  proof (intro conjI ext refl)
    fix x
    have "is_private c = is_private (m (bank_of b a))" "START_ADDRESS c = START_ADDRESS (m (bank_of b a))"
      "n_bit_shift c = n_bit_shift (m (bank_of b a))" by (subst c', simp)+
    then show "tcdm_ok b m' x = tcdm_ok b m x" using frame by (simp add: tcdm_ok_def Let_def c(2))
  qed
  show "tcdm_rd b m' a' = Inr v" if "unat a div 4 = unat a' div 4"
  proof -
    have bank: "bank_of b a' = bank_of b a" using bank_of_word [OF that] by simp
    have lo: "0x08000000 \<le> unat a" using ok by (simp add: tcdm_ok_def word_le_unat CL_TCDM_BASE_def)
    then have "0x02000000 \<le> unat a' div 4" using that offset_div_4 [of "unat a"] by simp
    then have lo': "0x08000000 \<le> unat a'" by simp
    then have "CL_TCDM_BASE \<le> a'" by (simp add: word_le_unat CL_TCDM_BASE_def)
    moreover have "(unat a - 0x08000000) div 4 = (unat a' - 0x08000000) div 4"
      using that offset_div_4 [OF lo] offset_div_4 [OF lo'] by simp
    ultimately have "clm_slot (m (bank_of b a)) a = clm_slot (m (bank_of b a)) a'"
      using ok clm_slot_shared [of "m (bank_of b a)" b] by (simp add: tcdm_ok_def Let_def)
    then show ?thesis using clm.wr_same [OF clm_ok c(1)] by (simp add: tcdm_rd_def bank c(2))
  qed
  show "tcdm_rd b m' a' = tcdm_rd b m a'" if "unat a div 4 \<noteq> unat a' div 4" "tcdm_ok b m a'"
  proof (cases "bank_of b a' = bank_of b a")
    case True
    then have "clm_ok (m (bank_of b a)) a'" using that(2) by (simp add: tcdm_ok_def Let_def)
    moreover have "clm_slot (m (bank_of b a)) a \<noteq> clm_slot (m (bank_of b a)) a'"
      using bank_and_slot [of b a a'] that ok tcdm_ok_slot [OF ok] tcdm_ok_slot [OF that(2)] True
      by (auto simp: tcdm_ok_def Let_def)
    ultimately show ?thesis using clm.wr_other [OF clm_ok c(1)] by (simp add: tcdm_rd_def True c(2))
  next
    case False
    then show ?thesis by (simp add: tcdm_rd_def c(2))
  qed
qed

section \<open>The banks behind the interconnect\<close>

text \<open>The slave ports: an access of one beat, of the width the request asks for (\<open>cl_memory::working\<close>
  decodes it and passes it on to \<open>Read\<close> and \<open>Write\<close>). What follows an access that ends the simulation is
  immaterial: it reads as 0 and writes nothing.\<close>

definition tcdm_port :: "nat \<Rightarrow> tcdm slave_port" where
  "tcdm_port b =
     ((\<lambda>m p. case res_bind (get_word_size (p_bw p)) (\<lambda>_.
          clm_Read (m (bank_of b (p_address p))) (p_address p) (ucast (p_bw p))) of
        Inr v \<Rightarrow> v | Inl _ \<Rightarrow> 0),
      (\<lambda>m p. case res_bind (get_word_size (p_bw p)) (\<lambda>_.
          clm_Write (m (bank_of b (p_address p))) (p_address p) (p_data p) (ucast (p_bw p))) of
        Inr c \<Rightarrow> m(bank_of b (p_address p) := c) | Inl _ \<Rightarrow> m))"

text \<open>The contents of the banks as one memory of bytes, and reads and writes of that memory.\<close>

definition tcdm_bytes :: "nat \<Rightarrow> tcdm \<Rightarrow> addr \<Rightarrow> u8" where
  "tcdm_bytes b m x = mem_bytes (target_mem (m (bank_of b x))) (unat (clm_addressing (m (bank_of b x)) x))"

definition byte_read :: "(addr \<Rightarrow> u8) \<Rightarrow> u32 \<Rightarrow> addr \<Rightarrow> u32" where
  "byte_read mem bw a =
     (if bw = 0 then word_at (\<lambda>i. mem (of_nat i)) (4 * (unat a div 4))
      else if bw = 1 then ucast (mem a)
      else ucast (mem a) OR push_bit 8 (ucast (mem (a + 1))))"

definition bytes_of :: "u32 \<Rightarrow> nat" where
  "bytes_of bw = (if bw = 0 then 4 else if bw = 1 then 1 else 2)"

definition byte_write :: "u32 \<Rightarrow> addr \<Rightarrow> u32 \<Rightarrow> (addr \<Rightarrow> u8) \<Rightarrow> addr \<Rightarrow> u8" where
  "byte_write bw a d mem x =
     (if unat x div bytes_of bw = unat a div bytes_of bw
      then ucast (drop_bit (8 * (unat x mod bytes_of bw)) d) else mem x)"

text \<open>The requests that are served without leaving the storage: of four, one or two bytes, half words at even
  addresses. Reading a byte or a half word loads the four bytes from its address on, which have to be
  in the bank.\<close>

definition request_ok :: "nat \<Rightarrow> tcdm \<Rightarrow> pinout \<Rightarrow> bool" where
  "request_ok b m p \<longleftrightarrow> p_bw p \<le> 2 \<and> tcdm_ok b m (p_address p) \<and> (p_bw p = 2 \<longrightarrow> even (unat (p_address p))) \<and>
     (\<not> p_rw p \<and> p_bw p \<noteq> 0 \<longrightarrow>
       (let c = m (bank_of b (p_address p)) in
        unat (clm_addressing c (p_address p)) + 4 \<le> unat (mem_size (target_mem c))))"

text \<open>Bytes of stored words and half words.\<close>

lemma store_word_byte:
  "store_word (4 * q) d bs j = (if j div 4 = q then ucast (drop_bit (8 * (j mod 4)) d) else bs j)"
proof -
  have "\<exists>k r. j = 4 * k + r \<and> r < 4" by (rule exI [of _ "j div 4"], rule exI [of _ "j mod 4"]) simp
  then obtain k r where j: "j = 4 * k + r" "r < 4" by blast
  then have "r = 0 \<or> r = 1 \<or> r = 2 \<or> r = 3" by arith
  then show ?thesis using j by (auto simp: store_word_def)
qed

lemma store_hword_byte:
  "store_hword (2 * q) d bs j = (if j div 2 = q then ucast (drop_bit (8 * (j mod 2)) d) else bs j)"
proof -
  have "\<exists>k r. j = 2 * k + r \<and> r < 2" by (rule exI [of _ "j div 2"], rule exI [of _ "j mod 2"]) simp
  then obtain k r where j: "j = 2 * k + r" "r < 2" by blast
  then have "r = 0 \<or> r = 1" by arith
  then show ?thesis using j by (auto simp: store_hword_def)
qed

text \<open>Where the bytes of the shared memory are.\<close>

lemma tcdm_bytes_in_word:
  assumes "tcdm_ok b m a" "unat x div 4 = unat a div 4"
  shows "bank_of b x = bank_of b a"
    "unat (clm_addressing (m (bank_of b a)) x) = 4 * clm_slot (m (bank_of b a)) a + unat x mod 4"
    "tcdm_bytes b m x = mem_bytes (target_mem (m (bank_of b a))) (4 * clm_slot (m (bank_of b a)) a + unat x mod 4)"
proof -
  show bank: "bank_of b x = bank_of b a" using assms(2) by (rule bank_of_word)
  have lo: "0x08000000 \<le> unat a" using assms(1) by (simp add: tcdm_ok_def word_le_unat CL_TCDM_BASE_def)
  then have "0x02000000 \<le> unat x div 4" using assms(2) offset_div_4 [of "unat a"] by simp
  then have lo': "0x08000000 \<le> unat x" by simp
  then have "CL_TCDM_BASE \<le> x" by (simp add: word_le_unat CL_TCDM_BASE_def)
  moreover have "(unat x - 0x08000000) div 4 = (unat a - 0x08000000) div 4"
    using assms(2) offset_div_4 [OF lo] offset_div_4 [OF lo'] by simp
  ultimately show l: "unat (clm_addressing (m (bank_of b a)) x) = 4 * clm_slot (m (bank_of b a)) a + unat x mod 4"
    using assms(1) clm_addressing_shared [of "m (bank_of b a)" b x] tcdm_ok_slot [OF assms(1)]
    by (simp add: tcdm_ok_def Let_def)
  then show "tcdm_bytes b m x = mem_bytes (target_mem (m (bank_of b a))) (4 * clm_slot (m (bank_of b a)) a + unat x mod 4)"
    by (simp add: tcdm_bytes_def bank)
qed

lemma units_arith:
  fixes p q x a :: nat
  assumes "p = q \<longleftrightarrow> x div 4 = a div 4"
  shows "(4 * p + x mod 4) div 2 = (4 * q + a mod 4) div 2 \<longleftrightarrow> x div 2 = a div 2"
    "4 * p + x mod 4 = 4 * q + a mod 4 \<longleftrightarrow> x = a"
proof -
  have half: "(4 * k + r) div 2 = 2 * k + r div 2" for k r :: nat
  proof -
    have "(r + (2 * k) * 2) div 2 = 2 * k + r div 2" by (rule div_mult_self1) simp
    then show ?thesis by (simp only: mult.commute add.commute mult.left_commute)
  qed
  have half': "y div 2 = 2 * (y div 4) + y mod 4 div 2" for y :: nat
    using half [of "y div 4" "y mod 4"] by simp
  have small: "y mod 4 div 2 < 2" for y :: nat by (rule less_mult_imp_div_less) simp
  have "2 * k + r = 2 * l + t \<longleftrightarrow> k = l \<and> r = t" if "r < 2" "t < 2" for k l r t :: nat
    using that by presburger
  then have two: "2 * k + y mod 4 div 2 = 2 * l + z mod 4 div 2 \<longleftrightarrow> k = l \<and> y mod 4 div 2 = z mod 4 div 2" for k l y z :: nat
    using small [of y] small [of z] by blast
  show "(4 * p + x mod 4) div 2 = (4 * q + a mod 4) div 2 \<longleftrightarrow> x div 2 = a div 2"
    by (simp only: half half' [of x] half' [of a] two assms)
  have "y mod 4 < 4" for y :: nat by simp
  then have four: "4 * k + y mod 4 = 4 * l + z mod 4 \<longleftrightarrow> k = l \<and> y mod 4 = z mod 4" for k l y z :: nat
    by (metis add_cancel_right_left div_mult_self2 mod_less mod_mult_self2 add.commute zero_neq_numeral div_less)
  show "4 * p + x mod 4 = 4 * q + a mod 4 \<longleftrightarrow> x = a"
    unfolding four assms by (metis div_mult_mod_eq)
qed

text \<open>Bytes of one bank: the same byte, half word or word of the bank is the same one of the address space.\<close>

lemma bank_units:
  assumes "tcdm_ok b m a" "tcdm_ok b m x" "bank_of b x = bank_of b a"
  defines "u \<equiv> unat (clm_addressing (m (bank_of b a)) x)" and "v \<equiv> unat (clm_addressing (m (bank_of b a)) a)"
  shows "u div 4 = v div 4 \<longleftrightarrow> unat x div 4 = unat a div 4" "u div 2 = v div 2 \<longleftrightarrow> unat x div 2 = unat a div 2"
    "u = v \<longleftrightarrow> x = a" "u mod 4 = unat x mod 4" "u mod 2 = unat x mod 2"
proof -
  define p q where "p = clm_slot (m (bank_of b a)) x" and "q = clm_slot (m (bank_of b a)) a"
  have u: "u = 4 * p + unat x mod 4" and v: "v = 4 * q + unat a mod 4"
    using tcdm_bytes_in_word(2) [OF assms(2) refl] tcdm_bytes_in_word(2) [OF assms(1) refl]
    by (simp_all add: u_def v_def p_def q_def assms(3))
  have s: "p = q \<longleftrightarrow> unat x div 4 = unat a div 4"
  proof
    assume "p = q"
    then show "unat x div 4 = unat a div 4"
      using bank_and_slot [of b x a] assms(1-3) tcdm_ok_slot [OF assms(1)] tcdm_ok_slot [OF assms(2)]
      by (simp add: p_def q_def tcdm_ok_def Let_def)
  next
    assume "unat x div 4 = unat a div 4"
    from tcdm_bytes_in_word(2) [OF assms(1) this] u show "p = q" by (simp add: q_def u_def)
  qed
  show "u div 4 = v div 4 \<longleftrightarrow> unat x div 4 = unat a div 4" "u mod 4 = unat x mod 4"
    unfolding s [symmetric] by (simp_all add: u v)
  have "u mod 4 mod 2 = unat x mod 4 mod 2" by (simp add: u)
  then show "u mod 2 = unat x mod 2" by (simp add: mod_mod_cancel)
  show "u div 2 = v div 2 \<longleftrightarrow> unat x div 2 = unat a div 2"
    unfolding u v by (rule units_arith(1) [OF s])
  have "u = v \<longleftrightarrow> unat x = unat a" unfolding u v by (rule units_arith(2) [OF s])
  then show "u = v \<longleftrightarrow> x = a" by (simp add: word_unat_eq_iff)
qed

lemma unat_align2: "unat ((a :: u32) AND 0xFFFFFFFE) = 2 * (unat a div 2)"
proof -
  have eq: "a AND NOT 1 = push_bit 1 (drop_bit 1 a)"
  proof (rule bit_word_eqI)
    fix n assume n: "n < LENGTH(32)"
    have "0 < n \<Longrightarrow> 1 + (n - 1) = n" by simp
    then show "bit (a AND NOT 1) n = bit (push_bit 1 (drop_bit 1 a)) n"
      unfolding bit_and_iff bit_not_iff bit_push_bit_iff bit_drop_bit_eq bit_1_iff o_def using n
      by (cases "n = 0") (simp_all only: possible_bit_def len_of_numeral_defs, auto)
  qed
  have "(0xFFFFFFFE :: u32) = NOT 1" by simp
  then have "a AND 0xFFFFFFFE = push_bit 1 (drop_bit 1 a)" using eq by (simp only:)
  moreover have lt: "unat a < 4294967296" using unsigned_less [of a, where 'a = nat] by simp
  then have "unat a div 2 < 2147483648" by (simp add: div_less_iff_less_mult)
  moreover have "unat (push_bit 1 (drop_bit 1 a)) = take_bit 32 (push_bit 1 (drop_bit 1 (unat a)))"
    using lt take_bit_nat_eq_self [of "unat a" 32]
    by (simp only: unsigned_push_bit_eq unsigned_drop_bit_eq) simp
  ultimately show ?thesis
    by (simp only: push_bit_eq_mult drop_bit_eq_div take_bit_eq_mod power_one_right) (simp add: mult.commute)
qed

lemma tcdm_ok_size:
  assumes "tcdm_ok b m a"
  shows "\<not> mem_size (target_mem (m (bank_of b a))) \<le> clm_addressing (m (bank_of b a)) a"
    "4 * (unat (clm_addressing (m (bank_of b a)) a) div 4) + 4 \<le> unat (mem_size (target_mem (m (bank_of b a))))"
  using assms by (auto simp: tcdm_ok_def Let_def clm_ok_def word_ok_def word_le_unat)

lemma bw_cases: "(bw :: u32) \<le> 2 \<Longrightarrow> bw = 0 \<or> bw = 1 \<or> bw = 2"
proof -
  assume "bw \<le> 2"
  then have "unat bw \<le> 2" by (simp add: word_le_unat)
  then have "unat bw = 0 \<or> unat bw = 1 \<or> unat bw = 2" by arith
  then show ?thesis by (simp add: word_unat_eq_iff)
qed

lemma ucast_and_255: "ucast ((d :: u32) AND 0xFF) = (ucast d :: u8)"
proof -
  have "(0xFF :: u32) = mask 8" by (simp add: mask_eq_exp_minus_1)
  then show ?thesis by (simp only: take_bit_eq_mask [symmetric]) (rule bit_word_eqI, simp add: bit_simps)
qed

lemma ucast_and_65535:
  assumes "r < 2"
  shows "ucast (drop_bit (8 * r) ((d :: u32) AND 0xFFFF)) = (ucast (drop_bit (8 * r) d) :: u8)"
proof -
  have "(0xFFFF :: u32) = mask 16" by (simp add: mask_eq_exp_minus_1)
  moreover have "8 * r + n < 16" if "n < 8" for n using assms that by simp
  ultimately show ?thesis by (simp only: take_bit_eq_mask [symmetric]) (rule bit_word_eqI, simp add: bit_simps)
qed

lemma load_byte: "ucast (bs i) = word_at bs i AND 0xFF"
proof -
  have "(0xFF :: u32) = mask 8" by (simp add: mask_eq_exp_minus_1)
  then show ?thesis unfolding word_at_def
    by (simp only: take_bit_eq_mask [symmetric]) (rule bit_word_eqI, auto simp add: bit_simps dest: bit_imp_le_length)
qed

lemma load_hword: "ucast (bs i) OR push_bit 8 (ucast (bs (i + 1))) = word_at bs i AND 0xFFFF"
proof -
  have "(0xFFFF :: u32) = mask 16" by (simp add: mask_eq_exp_minus_1)
  then show ?thesis unfolding word_at_def
    by (simp only: take_bit_eq_mask [symmetric]) (rule bit_word_eqI, auto simp add: bit_simps dest: bit_imp_le_length)
qed

text \<open>A write of any width through the port is a write of the byte memory.\<close>

lemma tcdm_port_write:
  assumes ok: "tcdm_ok b m (p_address p)" "p_bw p \<le> 2" and x: "tcdm_ok b m x"
  shows "tcdm_bytes b (snd (tcdm_port b) m p) x = byte_write (p_bw p) (p_address p) (p_data p) (tcdm_bytes b m) x"
proof -
  let ?a = "p_address p" and ?d = "p_data p"
  let ?c = "m (bank_of b ?a)"
  let ?l = "unat (clm_addressing ?c ?a)"
  note size = tcdm_ok_size [OF ok(1)]
  have l: "2 * (?l div 2) + 2 \<le> unat (mem_size (target_mem ?c))" using size(2) by presburger
  define bs where "bs = (if p_bw p = 0 then store_word (4 * (?l div 4)) ?d (mem_bytes (target_mem ?c))
    else if p_bw p = 1 then (mem_bytes (target_mem ?c))(?l := ucast (?d AND 0xFF))
    else store_hword (2 * (?l div 2)) (?d AND 0xFFFF) (mem_bytes (target_mem ?c)))"
  have "snd (tcdm_port b) m p = m(bank_of b ?a := ?c\<lparr>target_mem := (target_mem ?c)\<lparr>mem_bytes := bs\<rparr>\<rparr>)"
    using bw_cases [OF ok(2)] size l
    by (auto simp: tcdm_port_def get_word_size_def clm_Write_def Mem_Write_def Let_def MEM_WORD_def MEM_BYTE_def
      MEM_HWORD_def store32_def unat_align4 unat_align2 bs_def)
  then have new: "tcdm_bytes b (snd (tcdm_port b) m p) x =
      (if bank_of b x = bank_of b ?a then bs (unat (clm_addressing ?c x)) else tcdm_bytes b m x)"
    by (simp add: tcdm_bytes_def)
  show ?thesis
  proof (cases "bank_of b x = bank_of b ?a")
    case True
    have old: "tcdm_bytes b m x = mem_bytes (target_mem ?c) (unat (clm_addressing ?c x))"
      by (simp add: tcdm_bytes_def True)
    note units = bank_units [OF ok(1) x True]
    have new': "tcdm_bytes b (snd (tcdm_port b) m p) x = bs (unat (clm_addressing ?c x))" by (simp add: new True)
    consider "p_bw p = 0" | "p_bw p = 1" | "p_bw p = 2" using bw_cases [OF ok(2)] by blast
    then show ?thesis
    proof cases
      case 1
      show ?thesis unfolding new' by (simp only: bs_def 1 simp_thms if_True store_word_byte units) (simp add: byte_write_def bytes_of_def 1 old)
    next
      case 2
      have "bs (unat (clm_addressing ?c x)) = (if x = ?a then ucast (?d AND 0xFF) else tcdm_bytes b m x)"
        unfolding old by (simp only: bs_def 2 one_neq_zero simp_thms if_False if_True fun_upd_def units(3))
      then show ?thesis unfolding new' by (simp add: byte_write_def bytes_of_def 2 ucast_and_255 word_unat_eq_iff [symmetric])
    next
      case 3
      show ?thesis unfolding new' by (simp add: bs_def 3 store_hword_byte units del: drop_bit_and) (simp add: byte_write_def bytes_of_def 3 old ucast_and_65535 del: drop_bit_and)
    qed
  next
    case False
    then have "unat x div 4 \<noteq> unat ?a div 4" using bank_of_word by blast
    moreover have "unat x div 2 = unat ?a div 2 \<Longrightarrow> unat x div 4 = unat ?a div 4" by (metis div_mult2_eq mult_2 numeral_Bit0)
    ultimately show ?thesis using bw_cases [OF ok(2)] False
      by (auto simp: new byte_write_def bytes_of_def)
  qed
qed

text \<open>A read of any width through the port is a read of the byte memory.\<close>

lemma tcdm_port_read:
  assumes ok: "request_ok b m p" and rd: "\<not> p_rw p"
  shows "fst (tcdm_port b) m p = byte_read (tcdm_bytes b m) (p_bw p) (p_address p)"
proof -
  let ?a = "p_address p"
  let ?c = "m (bank_of b ?a)"
  let ?l = "clm_addressing ?c ?a" and ?bs = "mem_bytes (target_mem (m (bank_of b (p_address p))))"
  have t: "tcdm_ok b m ?a" and bw: "p_bw p \<le> 2" using ok by (simp_all add: request_ok_def)
  note size = tcdm_ok_size [OF t]
  have l: "unat ?l = 4 * clm_slot ?c ?a + unat ?a mod 4" by (rule tcdm_bytes_in_word(2) [OF t refl])
  then have slot: "unat ?l div 4 = clm_slot ?c ?a" by simp
  note byte = tcdm_bytes_in_word(3) [OF t]
  have here: "tcdm_bytes b m ?a = ?bs (unat ?l)" by (simp add: byte l)
  consider "p_bw p = 0" | "p_bw p = 1" | "p_bw p = 2" using bw_cases [OF bw] by blast
  then show ?thesis
  proof cases
    case 1
    have "fst (tcdm_port b) m p = word_at ?bs (4 * clm_slot ?c ?a)"
      using 1 size by (simp add: tcdm_port_def get_word_size_def clm_Read_def Mem_Read_def MEM_WORD_def load32_def unat_align4 slot)
    moreover have "tcdm_bytes b m (of_nat (4 * (unat ?a div 4) + j)) = ?bs (4 * clm_slot ?c ?a + j)" if "j < 4" for j
    proof -
      have "unat ?a < 4294967296" using unsigned_less [of ?a, where 'a = nat] by simp
      then have "4 * (unat ?a div 4) + j < 4294967296" using that by presburger
      then have "unat (of_nat (4 * (unat ?a div 4) + j) :: u32) = 4 * (unat ?a div 4) + j"
        by (simp only: unat_of_nat) simp
      then show ?thesis using byte [of "of_nat (4 * (unat ?a div 4) + j)"] that by simp
    qed
    from this [of 0] this [of 1] this [of 2] this [of 3]
    have "word_at (\<lambda>i. tcdm_bytes b m (of_nat i)) (4 * (unat ?a div 4)) = word_at ?bs (4 * clm_slot ?c ?a)"
      by (simp add: word_at_def)
    ultimately show ?thesis by (simp add: byte_read_def 1)
  next
    case 2
    then show ?thesis using ok rd size
      by (simp add: request_ok_def Let_def tcdm_port_def get_word_size_def clm_Read_def Mem_Read_def MEM_WORD_def MEM_BYTE_def
        load32_def byte_read_def here load_byte)
  next
    case 3
    then have "even (unat ?a)" using ok by (simp add: request_ok_def)
    then have "unat ?a mod 4 = 0 \<or> unat ?a mod 4 = 2" by presburger
    then have "(unat ?a + 1) div 4 = unat ?a div 4 \<and> (unat ?a + 1) mod 4 = unat ?a mod 4 + 1" by presburger
    moreover have "unat (?a + 1) = unat ?a + 1"
    proof -
      have "unat ?a < 4294967296" using unsigned_less [of ?a, where 'a = nat] by simp
      then have "unat ?a + 1 < 4294967296" using \<open>even (unat ?a)\<close> by presburger
      then show ?thesis by (simp add: unat_word_ariths)
    qed
    ultimately have next_byte: "tcdm_bytes b m (?a + 1) = ?bs (unat ?l + 1)" using byte [of "?a + 1"] l by simp
    show ?thesis using ok rd size 3
      by (simp add: request_ok_def Let_def tcdm_port_def get_word_size_def clm_Read_def Mem_Read_def MEM_WORD_def MEM_BYTE_def
        MEM_HWORD_def load32_def byte_read_def here next_byte load_hword [simplified])
  qed
qed

text \<open>C8: the TCDM behind its interconnect, with the round-robin arbitration the platform sets, is one shared byte
  memory for reads and writes of one beat of words, half words and bytes. Every request that the interconnect ends
  acts on this memory at once, whatever the other cores do: a write changes the bytes it
  covers and no other; a read is answered with the bytes from its address, and changes
  nothing unless it is done as a test-and-set, which then writes a one. The width of a write is the one its
  core asks for; the width of a read is that of some core that waits to read the same address
  (the state machine keeps the transaction of the first of them), hence the own one when these cores
  agree. The theorem assumes that the cores waiting for this address ask for what the storage
  can serve (\<open>request_ok\<close>): half words at even addresses, and no read of a byte or half word
  from the last word of a bank at an offset in it, where the code loads four bytes and leaves its array.\<close>

theorem tcdm_is_shared_memory:
  assumes "xbar_sched cfg = 1" "N_CL_BANKS cfg = 2 ^ b" "num_slaves cfg = N_CL_BANKS cfg"
    and "lic_reach cfg (tcdm_port b) s pins m F" "i \<in> F" "lic_fsm cfg (tcdm_port b) pins i (s, m) = (as, s', m')"
    and "req s k" "\<not> req s' k"
    and "\<forall>j. req s j \<and> p_address (pins j) = p_address (pins k) \<longrightarrow> request_ok b m (pins j)"
  shows "\<exists>c. req s c \<and> p_address (pins c) = p_address (pins k) \<and> p_rw (pins c) = p_rw (pins k) \<and> (p_rw (pins k) \<longrightarrow> c = k) \<and>
    {d. (k, d) \<in> set as} =
      (if p_rw (pins k) then {} else {byte_read (tcdm_bytes b m) (p_bw (pins c)) (p_address (pins k))}) \<and>
    (\<forall>x. tcdm_ok b m x \<longrightarrow> tcdm_bytes b m' x =
      (if p_rw (pins k) then byte_write (p_bw (pins k)) (p_address (pins k)) (p_data (pins k)) (tcdm_bytes b m) x
       else if cs s i = TAS then byte_write (p_bw (pins c)) (p_address (pins k)) 1 (tcdm_bytes b m) x
       else tcdm_bytes b m x))"
proof -
  have ok: "lic_ok cfg pins F s" using lic_reach_ok [OF assms(4,1,3)] assms(2) by simp
  note facts = lic_ok_facts [OF ok]
  obtain c where c: "idc_fsm s i c" "fsm_pinout s i = pins c" "cs s i = WRITE \<longleftrightarrow> p_rw (pins c)" "cs s i \<noteq> IDLE"
    using facts(11,12) assms(5) by (auto simp: bank_ok_def)
  have k: "idc_fsm s i k" "k < num_masters cfg"
    using assms(6-8) by (cases "tcdm_port b"; cases "cs s i"; auto simp: lic_fsm_def Let_def fsm_next_keeps fsm_clear_def fsm_free_def)+
  have same: "k = c \<or> p_address (pins c) = p_address (pins k) \<and> \<not> p_rw (pins k) \<and> \<not> p_rw (pins c)"
    using facts(9,10) [OF k(1) c(1)] facts(10) [OF c(1) k(1)] by auto
  then have addr: "p_address (pins c) = p_address (pins k)" and rw: "p_rw (pins c) = p_rw (pins k)" by auto
  have rc: "req s c" using facts(1,4) c(1) by blast
  then have okc: "request_ok b m (pins c)" using assms(9) addr by blast
  then have wr: "tcdm_bytes b (snd (tcdm_port b) m ((pins c)\<lparr>p_data := d, p_rw := w\<rparr>)) x =
      byte_write (p_bw (pins c)) (p_address (pins c)) d (tcdm_bytes b m) x" if "tcdm_ok b m x" for d w x
    using tcdm_port_write [of b m "(pins c)\<lparr>p_data := d, p_rw := w\<rparr>" x] that by (simp add: request_ok_def)
  show ?thesis
  proof (cases "p_rw (pins k)")
    case True
    then have "c = k" using same by auto
    moreover have "as = []" "m' = snd (tcdm_port b) m (pins c)"
      using assms(6) c(2-4) rw True by (cases "tcdm_port b"; cases "cs s i"; auto simp: lic_fsm_def Let_def)+
    moreover have "tcdm_bytes b (snd (tcdm_port b) m (pins c)) x =
        byte_write (p_bw (pins c)) (p_address (pins c)) (p_data (pins c)) (tcdm_bytes b m) x" if "tcdm_ok b m x" for x
      using tcdm_port_write [of b m "pins c" x] okc that by (simp add: request_ok_def)
    ultimately show ?thesis using rc True by (intro exI [of _ c]) simp
  next
    case False
    have "as = answer_all cfg i (fst (tcdm_port b) m (pins c)) s"
      "m' = (if cs s i = TAS then snd (tcdm_port b) m ((pins c)\<lparr>p_data := 1, p_rw := True\<rparr>) else m)"
      using assms(6) c(2-4) rw False by (cases "tcdm_port b"; cases "cs s i"; auto simp: lic_fsm_def Let_def)+
    moreover have "fst (tcdm_port b) m (pins c) = byte_read (tcdm_bytes b m) (p_bw (pins c)) (p_address (pins k))"
      using tcdm_port_read [OF okc] rw False addr by simp
    moreover have "{d. (k, d) \<in> set (answer_all cfg i v s)} = {v}" for v using k by (auto simp: answer_all_def)
    ultimately show ?thesis using rc rw addr False wr by (intro exI [of _ c]) auto
  qed
qed

text \<open>The platform's banks cover the whole TCDM.\<close>

lemma tcdm_covers:
  assumes "b \<le> 17" "IsInTcdmSpace a 0" "unat bank_size * 2 ^ b = unat CL_TCDM_SIZE"
  shows "tcdm_ok b (sh_tcdm b bank_size) a"
proof -
  have a: "0x08000000 \<le> unat a" "unat a < 0x08080000"
    using assms(2) by (simp_all add: IsInTcdmSpace_def tile_base_def address_simps word_le_unat word_less_unat)
  then have lo: "CL_TCDM_BASE \<le> a" by (simp add: CL_TCDM_BASE_def word_le_unat)
  let ?c = "sh_tcdm b bank_size (bank_of b a)"
  have size: "unat bank_size * 2 ^ b = 0x80000" using assms(3) by (simp add: CL_TCDM_SIZE_def)
  have "(2 :: nat) ^ b dvd 2 ^ 17" using assms(1) by (rule le_imp_power_dvd)
  then obtain q where q: "(2 :: nat) ^ 17 = 2 ^ b * q" by (rule dvdE)
  have "2 ^ b * unat bank_size = 2 ^ b * (4 * q)" 
  proof -
    have "2 ^ b * (4 * q) = 4 * (2 ^ b * q)" by (rule mult.left_commute)
    also have "\<dots> = 0x80000" unfolding q [symmetric] by simp
    finally show ?thesis using size by (simp only: mult.commute [of "unat bank_size"])
  qed
  then have bs: "unat bank_size = 4 * q" unfolding mult_cancel1 by (simp del: One_nat_def)
  have slot: "clm_slot ?c a = (unat a - 0x08000000) div 4 div 2 ^ b"
    by (rule clm_slot_shared) (simp_all add: sh_tcdm_def lo)
  have "(unat a - 0x08000000) div 4 < 2 ^ b * q" using a q by simp
  then have "clm_slot ?c a < q" unfolding slot by (simp add: less_mult_imp_div_less mult.commute)
  then have "4 * clm_slot ?c a + 4 \<le> unat bank_size" using bs by simp
  then have "clm_ok ?c a" by (simp add: clm_ok_def word_ok_def clm_slot_def sh_tcdm_def new_mem_def)
  then show ?thesis using assms(1) lo by (simp add: tcdm_ok_def Let_def sh_tcdm_def)
qed

lemma one_bank_ok: "tcdm_ok 0 (sh_tcdm 0 CL_TCDM_SIZE) CL_TCDM_BASE"
  by (rule tcdm_covers) (simp_all add: IsInTcdmSpace_def tile_base_def address_simps)

theorem tcdm_is_shared_memory_witness:
  "\<exists>s F as s' m'. lic_reach two_cores (tcdm_port 0) s (\<lambda>_. word_read CL_TCDM_BASE) (sh_tcdm 0 CL_TCDM_SIZE) F \<and>
    lic_fsm two_cores (tcdm_port 0) (\<lambda>_. word_read CL_TCDM_BASE) 0 (s, sh_tcdm 0 CL_TCDM_SIZE) = (as, s', m') \<and>
    req s 1 \<and> \<not> req s' 1 \<and> {d. (1, d) \<in> set as} = {byte_read (tcdm_bytes 0 (sh_tcdm 0 CL_TCDM_SIZE)) 0 CL_TCDM_BASE}"
proof -
  obtain s F as s' m' where r:
    "lic_reach two_cores (tcdm_port 0) s (\<lambda>_. word_read CL_TCDM_BASE) (sh_tcdm 0 CL_TCDM_SIZE) F" "0 \<in> F"
    "lic_fsm two_cores (tcdm_port 0) (\<lambda>_. word_read CL_TCDM_BASE) 0 (s, sh_tcdm 0 CL_TCDM_SIZE) = (as, s', m')"
    "req s 1" "\<not> req s' 1"
    using both_cores_read [of "tcdm_port 0" "sh_tcdm 0 CL_TCDM_SIZE"] by blast
  have "request_ok 0 (sh_tcdm 0 CL_TCDM_SIZE) (word_read CL_TCDM_BASE)" by (simp add: request_ok_def one_bank_ok)
  then show ?thesis using tcdm_is_shared_memory [OF _ _ _ r] r by auto
qed

text \<open>The width of a shared read: the arbiter serves together all cores that read one address without comparing how much
  they ask for, so a core that reads a word together with one that reads its first byte gets that byte.\<close>

lemma narrow_read:
  "fst (tcdm_port 0) (snd (tcdm_port 0) (sh_tcdm 0 CL_TCDM_SIZE) (word_write CL_TCDM_BASE 0x1234))
     ((word_read CL_TCDM_BASE)\<lparr>p_bw := bw\<rparr>) = (if bw = 0 then 0x1234 else if bw = 1 then 0x34 else if bw = 2 then 0x1234 else 0)"
  by (simp add: tcdm_port_def get_word_size_def clm_Read_def clm_Write_def Mem_Read_def Mem_Write_def Let_def MEM_WORD_def
    MEM_BYTE_def MEM_HWORD_def load32_def store32_def sh_tcdm_def new_mem_def bank_of_def clm_addressing_def
    get_local_bank_addr_def store_word_def word_at_def CL_TCDM_SIZE_def)

theorem multicast_ignores_width:
  assumes "m = snd (tcdm_port 0) (sh_tcdm 0 CL_TCDM_SIZE) (word_write CL_TCDM_BASE 0x1234)"
    and "pins = (\<lambda>_. word_read CL_TCDM_BASE)(0 := (word_read CL_TCDM_BASE)\<lparr>p_bw := 1\<rparr>)"
  shows "fst (tcdm_port 0) m (pins 1) = 0x1234 \<and>
    (\<exists>s as s'. lic_clock two_cores pins ((new_xbar 1)\<lparr>req := (\<lambda>k. k = 0 \<or> k = 1)\<rparr>) = Inr s \<and>
      lic_fsm two_cores (tcdm_port 0) pins 0 (s, m) = (as, s', m) \<and> (1, 0x34) \<in> set as)"
proof -
  have w: "(word_read CL_TCDM_BASE)\<lparr>p_bw := 0\<rparr> = word_read CL_TCDM_BASE"
    by (rule pinout.equality) (simp_all add: word_read_def)
  have not_tas: "\<not> IsInTaSSpace CL_TCDM_BASE (xbar_ID two_cores)" by code_simp
  have p: "p_address (pins k) = CL_TCDM_BASE" "\<not> p_rw (pins k)" for k by (simp_all add: assms(2))
  obtain s where s: "lic_clock two_cores pins ((new_xbar 1)\<lparr>req := (\<lambda>k. k = 0 \<or> k = 1)\<rparr>) = Inr s"
    "fsm_pinout s 0 = pins 0" "idc_fsm s 0 1" "cs s 0 = READ"
    using first_clock [of two_cores 0 "\<lambda>k. k = 0 \<or> k = 1" pins 0 1] not_tas by (auto simp: p)
  have "fst (tcdm_port 0) m (pins 0) = 0x34" "fst (tcdm_port 0) m (pins 1) = 0x1234"
    using narrow_read [of 1] narrow_read [of 0] w by (simp_all add: assms)
  moreover obtain as s' m' where f: "lic_fsm two_cores (tcdm_port 0) pins 0 (s, m) = (as, s', m')"
    by (cases "lic_fsm two_cores (tcdm_port 0) pins 0 (s, m)")
  moreover have "as = answer_all two_cores 0 (fst (tcdm_port 0) m (pins 0)) s" "m' = m"
    using f s(2,4) by (cases "tcdm_port 0"; auto simp: lic_fsm_def Let_def)+
  ultimately show ?thesis using s(1,3) by (auto simp: answer_all_def)
qed

end
