(* ===== verification/Dram.thy ===== *)
theory Dram
  imports Xbar
begin

text \<open>
  The external memory and the way to it: a port of the DRAM
  (\<open>virtualsoc/src/cluster/cl_DRAM-memory-mp.cpp\<close>, \<open>cl_DRAM-memory-mp.h\<close>), and the multiplexer between
  the cores and its ports (\<open>cl_L3_mux_NM.cpp\<close>, \<open>cl_L3_mux_NM.h\<close>). The controller of the DRAM is a third-party
  library; it decides only when a beat is ready, the data are in \<open>target_mem\<close>.
\<close>

section \<open>A port of the DRAM\<close>

definition dram_addressing :: "u32 \<Rightarrow> addr \<Rightarrow> addr" where
  "dram_addressing START addr = addr - START"

definition dram_Read :: "u32 \<Rightarrow> mem_class \<Rightarrow> addr \<Rightarrow> u8 \<Rightarrow> u32 res" where
  "dram_Read START m addr bw = Mem_Read (\<lambda>a. a) m (dram_addressing START addr) bw"

definition dram_Write :: "u32 \<Rightarrow> mem_class \<Rightarrow> addr \<Rightarrow> u32 \<Rightarrow> u8 \<Rightarrow> mem_class res" where
  "dram_Write START m addr data bw = Mem_Write (\<lambda>a. a) m (dram_addressing START addr) data bw"

text \<open>The beats of \<open>working()\<close>. A read answers the transaction with the datum of each beat. A write takes
  the datum from the copy of the transaction that was read before the first beat, not from what the
  master presents, the list \<open>ds\<close>.\<close>

fun dram_read_beats :: "u32 \<Rightarrow> mem_class \<Rightarrow> addr \<Rightarrow> u8 \<Rightarrow> u32 \<Rightarrow> pinout \<Rightarrow> nat \<Rightarrow> pinout list res" where
  "dram_read_beats START m addr bw sz p 0 = Inr []"
| "dram_read_beats START m addr bw sz p (Suc n) =
     res_bind (dram_Read START m addr bw) (\<lambda>d.
     res_map (\<lambda>ps. p\<lparr>p_data := d\<rparr> # ps) (dram_read_beats START m (addr + sz) bw sz p n))"

fun dram_write_beats :: "u32 \<Rightarrow> mem_class \<Rightarrow> addr \<Rightarrow> u8 \<Rightarrow> u32 \<Rightarrow> pinout \<Rightarrow> nat \<Rightarrow> mem_class res" where
  "dram_write_beats START m addr bw sz p 0 = Inr m"
| "dram_write_beats START m addr bw sz p (Suc n) =
     res_bind (dram_Write START m addr (p_data p) bw) (\<lambda>m. dram_write_beats START m (addr + sz) bw sz p n)"

text \<open>One transaction: \<open>present b\<close> is what the master drives at beat \<open>b\<close>.\<close>

definition dram_working :: "u32 \<Rightarrow> (nat \<Rightarrow> pinout) \<Rightarrow> mem_class \<Rightarrow> (pinout list \<times> mem_class) res" where
  "dram_working START present m =
     (let p = present 0; bw = ucast (p_bw p); burst = unat (p_burst p) in
      res_bind (get_word_size (p_bw p)) (\<lambda>sz.
      if \<not> p_rw p then res_map (\<lambda>ps. (ps, m)) (dram_read_beats START m (p_address p) bw sz p burst)
      else res_map (\<lambda>m. ([], m)) (dram_write_beats START m (p_address p) bw sz p burst)))"

definition dram_as_memory :: "u32 \<Rightarrow> mem_class \<Rightarrow> cl_memory" where
  "dram_as_memory START m = \<lparr>target_mem = m, START_ADDRESS = START, is_private = True, n_bit_shift = 0\<rparr>"

lemma dram_as_memory_sel [simp]:
  "target_mem (dram_as_memory START m) = m" "START_ADDRESS (dram_as_memory START m) = START"
  "is_private (dram_as_memory START m)" "(dram_as_memory START m)\<lparr>target_mem := m'\<rparr> = dram_as_memory START m'"
  by (simp_all add: dram_as_memory_def)

lemma dram_Read_eq: "dram_Read START m a bw = clm_Read (dram_as_memory START m) a bw"
  by (simp add: dram_Read_def clm_Read_def dram_addressing_def clm_addressing_def)

lemma dram_Write_eq:
  "clm_Write (dram_as_memory START m) a d bw = res_map (dram_as_memory START) (dram_Write START m a d bw)"
  by (cases "dram_Write START m a d bw") (simp_all add: dram_Write_def clm_Write_def dram_addressing_def clm_addressing_def)

lemma dram_read_beats_eq:
  "res_map (map p_data) (dram_read_beats START m a bw sz p n) = clm_read_burst (dram_as_memory START m) a bw sz n"
proof (induction n arbitrary: a)
  case (Suc n)
  show ?case
    by (cases "dram_Read START m a bw"; cases "dram_read_beats START m (a + sz) bw sz p n")
      (use Suc [of "a + sz", symmetric] in \<open>simp_all add: dram_Read_eq [symmetric]\<close>)
qed simp

lemma dram_write_beats_eq:
  "clm_write_burst (dram_as_memory START m) a bw sz (replicate n (p_data p)) =
    res_map (dram_as_memory START) (dram_write_beats START m a bw sz p n)"
proof (induction n arbitrary: a m)
  case (Suc n)
  show ?case using Suc by (cases "dram_Write START m a (p_data p) bw") (simp_all add: dram_Write_eq)
qed simp

text \<open>C17: a write burst to the DRAM stores the word of its first beat in every word of the burst, whatever
  the master presents at the later beats: a read of the burst returns copies of the first word.\<close>

theorem dram_write_burst_repeats:
  assumes "p_rw (present 0)" "p_bw (present 0) = 0"
    and "unat (p_address (present 0) - START) + 4 * unat (p_burst (present 0)) \<le> unat (mem_size m)"
  shows "\<exists>m' ps. dram_working START present m = Inr ([], m') \<and>
    dram_working START (\<lambda>_. (present 0)\<lparr>p_rw := False\<rparr>) m' = Inr (ps, m') \<and>
    map p_data ps = replicate (unat (p_burst (present 0))) (p_data (present 0))"
proof -
  let ?p = "present 0" and ?n = "unat (p_burst (present 0))"
  let ?q = "?p\<lparr>p_rw := False\<rparr>"
  obtain c' where c': "clm_serve_write (dram_as_memory START m) (p_address ?p) MEM_WORD (replicate ?n (p_data ?p)) = Inr c'"
    "clm_serve_read c' (p_address ?p) MEM_WORD (length (replicate ?n (p_data ?p))) = Inr (replicate ?n (p_data ?p))"
    using private_burst_roundtrip [of "dram_as_memory START m" "p_address ?p" "replicate ?n (p_data ?p)"] assms(3) by auto
  have "res_map (dram_as_memory START) (dram_write_beats START m (p_address ?p) 0 4 ?p ?n) = Inr c'"
    using c'(1) by (simp add: clm_serve_write_def beat_size_def MEM_WORD_def dram_write_beats_eq)
  then obtain m' where m': "dram_write_beats START m (p_address ?p) 0 4 ?p ?n = Inr m'" "c' = dram_as_memory START m'"
    by (cases "dram_write_beats START m (p_address ?p) 0 4 ?p ?n") auto
  have "res_map (map p_data) (dram_read_beats START m' (p_address ?p) 0 4 ?q ?n) = Inr (replicate ?n (p_data ?p))"
    using c'(2) unfolding m'(2) by (simp add: dram_read_beats_eq clm_serve_read_def beat_size_def MEM_WORD_def del: res_map_eq)
  then obtain ps where ps: "dram_read_beats START m' (p_address ?p) 0 4 ?q ?n = Inr ps"
    "map p_data ps = replicate ?n (p_data ?p)"
    by (cases "dram_read_beats START m' (p_address ?p) 0 4 ?q ?n") auto
  show ?thesis using assms(1,2) m'(1) ps by (auto simp: dram_working_def Let_def)
qed

definition two_beats :: "nat \<Rightarrow> pinout" where
  "two_beats b = (word_write 8 (of_nat b + 5))\<lparr>p_burst := 2\<rparr>"

theorem dram_write_burst_repeats_witness:
  "\<exists>m' ps. dram_working 0 two_beats (new_mem 64) = Inr ([], m') \<and>
    dram_working 0 (\<lambda>_. (two_beats 0)\<lparr>p_rw := False\<rparr>) m' = Inr (ps, m') \<and> map p_data ps = replicate 2 5"
  using dram_write_burst_repeats [of two_beats 0 "new_mem 64"]
  by (simp add: two_beats_def new_mem_def)

section \<open>The multiplexer\<close>

record l3_mux =
  l3_req :: "nat \<Rightarrow> bool"
  l3_served :: "nat \<Rightarrow> bool"
  l3_done :: "nat \<Rightarrow> bool"
  l3_table :: "nat \<Rightarrow> nat \<Rightarrow> bool"
  l3_go :: "nat \<Rightarrow> bool"
  l3_busy :: "nat \<Rightarrow> bool"
  l3_idc :: "nat \<Rightarrow> nat"
  l3_next :: "nat \<Rightarrow> nat"
  l3_cs :: "nat \<Rightarrow> ctrl_state"
  l3_pin :: "nat \<Rightarrow> pinout"

record l3_cfg =
  n_mst :: nat
  n_slv :: nat
  static_mapping :: bool
  L3_mux_sched :: nat

definition new_l3_mux :: l3_mux where
  "new_l3_mux = \<lparr>l3_req = (\<lambda>_. False), l3_served = (\<lambda>_. False), l3_done = (\<lambda>_. False), l3_table = (\<lambda>_ _. False),
     l3_go = (\<lambda>_. False), l3_busy = (\<lambda>_. False), l3_idc = (\<lambda>_. 0), l3_next = (\<lambda>_. 0), l3_cs = (\<lambda>_. IDLE),
     l3_pin = (\<lambda>_. new_pinout)\<rparr>"

definition GetMyPortId :: "l3_cfg \<Rightarrow> nat \<Rightarrow> nat" where
  "GetMyPortId cfg i =
     (let norm_id = (if n_mst cfg div 2 \<le> i then i - n_mst cfg div 2 else i) in
      if 1 < n_slv cfg then norm_id mod n_slv cfg else 0)"

text \<open>A new request is booked for the port of its core, or for every port; without ports for none.\<close>

definition l3_book :: "l3_cfg \<Rightarrow> l3_mux \<Rightarrow> l3_mux" where
  "l3_book cfg s =
     s\<lparr>l3_table := (\<lambda>i k. l3_table s i k \<or> k < n_mst cfg \<and> n_slv cfg \<noteq> 0 \<and> l3_req s k \<and> \<not> l3_served s k \<and>
       (if static_mapping cfg then i = GetMyPortId cfg k else i < n_slv cfg)), l3_go := (\<lambda>i. l3_go s i \<and> n_slv cfg \<le> i)\<rparr>"

definition l3_grant :: "l3_cfg \<Rightarrow> nat \<Rightarrow> l3_mux \<Rightarrow> l3_mux" where
  "l3_grant cfg i s =
     (if l3_busy s i then s
      else case List.find (\<lambda>k. l3_table s i k \<and> \<not> l3_done s k)
          (map (\<lambda>k. (l3_next s i + k) mod n_mst cfg) [0..<n_mst cfg]) of
        None \<Rightarrow> s
      | Some c \<Rightarrow> s\<lparr>l3_busy := (l3_busy s)(i := True), l3_done := (l3_done s)(c := True), l3_idc := (l3_idc s)(i := c),
          l3_go := (l3_go s)(i := True), l3_served := (l3_served s)(c := True), l3_next := (l3_next s)(i := (c + 1) mod 256)\<rparr>)"

definition l3_arbiter :: "l3_cfg \<Rightarrow> l3_mux \<Rightarrow> l3_mux res" where
  "l3_arbiter cfg s =
     (if L3_mux_sched cfg \<noteq> 1 then Inl (FExit 1) else Inr (fold (l3_grant cfg) [0..<n_slv cfg] (l3_book cfg s)))"

text \<open>\<open>IDLE\<close>: a port that was granted takes over the transaction of its core.\<close>

definition l3_wake :: "(nat \<Rightarrow> pinout) \<Rightarrow> nat \<Rightarrow> l3_mux \<Rightarrow> l3_mux" where
  "l3_wake pins i s =
     s\<lparr>l3_pin := (l3_pin s)(i := pins (l3_idc s i)),
       l3_cs := (l3_cs s)(i := if p_rw (pins (l3_idc s i)) then WRITE else READ)\<rparr>"

definition l3_clock :: "l3_cfg \<Rightarrow> (nat \<Rightarrow> pinout) \<Rightarrow> l3_mux \<Rightarrow> l3_mux res" where
  "l3_clock cfg pins s =
     res_map (\<lambda>s'. fold (l3_wake pins) (filter (\<lambda>i. \<not> l3_go s i \<and> l3_go s' i \<and> l3_cs s i = IDLE) [0..<n_slv cfg]) s')
       (l3_arbiter cfg s)"

text \<open>The end of a transaction.\<close>

definition l3_free :: "l3_cfg \<Rightarrow> nat \<Rightarrow> l3_mux \<Rightarrow> l3_mux" where
  "l3_free cfg i s =
     (let c = l3_idc s i in
      s\<lparr>l3_req := (l3_req s)(c := False), l3_busy := (l3_busy s)(i := False), l3_served := (l3_served s)(c := False),
        l3_done := (l3_done s)(c := False), l3_go := (l3_go s)(i := False),
        l3_table := (\<lambda>j k. l3_table s j k \<and> \<not> (j < n_slv cfg \<and> k = c)), l3_cs := (l3_cs s)(i := IDLE)\<rparr>)"

text \<open>The transaction of port \<open>i\<close> with the memory behind it: \<open>data k b\<close> is what core \<open>k\<close> presents at beat \<open>b\<close>,
  and after the first beat the port passes on what the core presents. A read sends every answer to the
  core of the port.\<close>

definition l3_fsm :: "l3_cfg \<Rightarrow> ((nat \<Rightarrow> pinout) \<Rightarrow> 'm \<Rightarrow> (pinout list \<times> 'm) res) \<Rightarrow> (nat \<Rightarrow> nat \<Rightarrow> pinout) \<Rightarrow> nat \<Rightarrow>
    l3_mux \<times> 'm \<Rightarrow> ((nat \<times> pinout) list \<times> l3_mux \<times> 'm) res" where
  "l3_fsm cfg slave data i sm =
     (case sm of (s, m) \<Rightarrow>
      if l3_cs s i = IDLE then Inr ([], s, m)
      else res_map (\<lambda>(ps, m). (map (\<lambda>p. (l3_idc s i, p)) ps, l3_free cfg i s, m))
        (slave (\<lambda>b. if b = 0 then l3_pin s i else data (l3_idc s i) b) m))"

section \<open>What holds of the multiplexer\<close>

definition l3_ok :: "l3_cfg \<Rightarrow> l3_mux \<Rightarrow> bool" where
  "l3_ok cfg s \<longleftrightarrow>
     (\<forall>i. l3_busy s i \<longrightarrow> i < n_slv cfg \<and> l3_table s i (l3_idc s i) \<and> l3_done s (l3_idc s i)) \<and>
     (\<forall>i j. l3_busy s i \<longrightarrow> l3_busy s j \<longrightarrow> l3_idc s i = l3_idc s j \<longrightarrow> i = j) \<and>
     (\<forall>k. l3_done s k \<longrightarrow> (\<exists>i. l3_busy s i \<and> l3_idc s i = k)) \<and> l3_served s = l3_done s \<and>
     (\<forall>i k. l3_table s i k \<longrightarrow> l3_req s k \<and> k < n_mst cfg \<and> i < n_slv cfg \<and>
       (static_mapping cfg \<longrightarrow> i = GetMyPortId cfg k))"

lemma l3_ok_facts:
  assumes "l3_ok cfg s"
  shows "l3_busy s i \<Longrightarrow> i < n_slv cfg" "l3_busy s i \<Longrightarrow> l3_table s i (l3_idc s i)"
    "l3_busy s i \<Longrightarrow> l3_done s (l3_idc s i)"
    "l3_busy s i \<Longrightarrow> l3_busy s j \<Longrightarrow> l3_idc s i = l3_idc s j \<Longrightarrow> i = j"
    "l3_done s k \<Longrightarrow> \<exists>i. l3_busy s i \<and> l3_idc s i = k" "l3_served s = l3_done s"
    "l3_table s i k \<Longrightarrow> l3_req s k" "l3_table s i k \<Longrightarrow> k < n_mst cfg" "l3_table s i k \<Longrightarrow> i < n_slv cfg"
    "l3_table s i k \<Longrightarrow> static_mapping cfg \<Longrightarrow> i = GetMyPortId cfg k"
  using assms unfolding l3_ok_def by blast+

lemma l3_ok_cong:
  assumes "l3_ok cfg s" "l3_busy t = l3_busy s" "l3_table t = l3_table s" "l3_idc t = l3_idc s" "l3_done t = l3_done s"
    "l3_served t = l3_served s" "\<And>k. l3_req s k \<Longrightarrow> l3_req t k"
  shows "l3_ok cfg t"
  using assms unfolding l3_ok_def by simp

lemma GetMyPortId_less: "n_slv cfg \<noteq> 0 \<Longrightarrow> GetMyPortId cfg k < n_slv cfg"
  by (simp add: GetMyPortId_def Let_def)

lemma l3_book_ok: "l3_ok cfg s \<Longrightarrow> l3_ok cfg (l3_book cfg s)"
  unfolding l3_ok_def l3_book_def using GetMyPortId_less [of cfg] by simp metis

lemma l3_grant_ok:
  assumes ok: "l3_ok cfg s" and i: "i < n_slv cfg"
  shows "l3_ok cfg (l3_grant cfg i s)"
proof (cases "l3_busy s i \<or> List.find (\<lambda>k. l3_table s i k \<and> \<not> l3_done s k)
      (map (\<lambda>k. (l3_next s i + k) mod n_mst cfg) [0..<n_mst cfg]) = None")
  case True
  then show ?thesis using ok by (auto simp: l3_grant_def)
next
  case False
  note facts = l3_ok_facts [OF ok]
  obtain c where c: "List.find (\<lambda>k. l3_table s i k \<and> \<not> l3_done s k)
      (map (\<lambda>k. (l3_next s i + k) mod n_mst cfg) [0..<n_mst cfg]) = Some c"
    using False by blast
  then have t: "l3_table s i c" "\<not> l3_done s c" by (auto simp: find_Some_iff)
  define t where "t = l3_grant cfg i s"
  have f: "l3_busy t = (l3_busy s)(i := True)" "l3_done t = (l3_done s)(c := True)" "l3_idc t = (l3_idc s)(i := c)"
    "l3_served t = (l3_served s)(c := True)" "l3_table t = l3_table s" "l3_req t = l3_req s"
    using False c by (simp_all add: t_def l3_grant_def)
  have ne: "l3_idc s j \<noteq> c" if "l3_busy s j" for j using facts(3) [OF that] t(2) by auto
  have "l3_busy t j \<longrightarrow> j < n_slv cfg \<and> l3_table t j (l3_idc t j) \<and> l3_done t (l3_idc t j)" for j
    using facts(1-3) [of j] i t(1) by (cases "j = i") (simp_all add: f)
  moreover have "l3_busy t j \<longrightarrow> l3_busy t j' \<longrightarrow> l3_idc t j = l3_idc t j' \<longrightarrow> j = j'" for j j'
    using facts(4) [of j j'] ne [of j] ne [of j'] by (cases "j = i"; cases "j' = i") (auto simp: f)
  moreover have "l3_done t k \<longrightarrow> (\<exists>j. l3_busy t j \<and> l3_idc t j = k)" for k
  proof
    assume "l3_done t k"
    then consider "k = c" | j where "l3_busy s j" "l3_idc s j = k" "j \<noteq> i"
      using facts(5) [of k] False by (cases "k = c") (auto simp: f)
    then show "\<exists>j. l3_busy t j \<and> l3_idc t j = k" by cases (force simp: f)+
  qed
  moreover have "l3_served t = l3_done t" using facts(6) by (simp add: f)
  ultimately have "l3_ok cfg t" using facts(7-10) unfolding l3_ok_def f(5,6) by blast
  then show ?thesis by (simp add: t_def)
qed

text \<open>What the grants of one clock edge change, from the state \<open>r\<close> after the booking.\<close>

definition l3_granting :: "l3_mux \<Rightarrow> l3_mux \<Rightarrow> bool" where
  "l3_granting r s \<longleftrightarrow> (\<forall>i. l3_busy r i \<longrightarrow> l3_busy s i \<and> l3_idc s i = l3_idc r i \<and> \<not> l3_go s i) \<and>
     (\<forall>i. l3_go s i \<longleftrightarrow> l3_busy s i \<and> \<not> l3_busy r i) \<and> l3_req s = l3_req r \<and> l3_cs s = l3_cs r \<and> l3_pin s = l3_pin r"

lemma l3_grant_granting: "l3_granting r s \<Longrightarrow> l3_granting r (l3_grant cfg i s)"
  by (auto simp: l3_granting_def l3_grant_def split: option.split)

lemma l3_grants:
  assumes "l3_ok cfg r" "\<And>i. \<not> l3_go r i" "\<And>i. i \<in> set is \<Longrightarrow> i < n_slv cfg"
  shows "l3_ok cfg (fold (l3_grant cfg) is r) \<and> l3_granting r (fold (l3_grant cfg) is r)"
proof -
  have "l3_ok cfg (fold (l3_grant cfg) is s) \<and> l3_granting r (fold (l3_grant cfg) is s)"
    if "l3_ok cfg s" "l3_granting r s" "\<And>i. i \<in> set is \<Longrightarrow> i < n_slv cfg" for s
    using that by (induction "is" arbitrary: s) (simp_all add: l3_grant_ok l3_grant_granting)
  moreover have "l3_granting r r" using assms(2) by (simp add: l3_granting_def)
  ultimately show ?thesis using assms by blast
qed

text \<open>The multiplexer with its cores: they raise requests, a clock edge runs the arbiter, and a busy port
  may end its transaction.\<close>

inductive l3_reach :: "l3_cfg \<Rightarrow> ((nat \<Rightarrow> pinout) \<Rightarrow> 'm \<Rightarrow> (pinout list \<times> 'm) res) \<Rightarrow> (nat \<Rightarrow> nat \<Rightarrow> pinout) \<Rightarrow>
    l3_mux \<Rightarrow> (nat \<Rightarrow> pinout) \<Rightarrow> 'm \<Rightarrow> bool" for cfg slave data where
  start: "l3_reach cfg slave data new_l3_mux pins m"
| request: "l3_reach cfg slave data s pins m \<Longrightarrow> \<not> l3_req s k \<Longrightarrow>
    l3_reach cfg slave data (s\<lparr>l3_req := (l3_req s)(k := True)\<rparr>) (pins(k := p)) m"
| clock: "l3_reach cfg slave data s pins m \<Longrightarrow> l3_clock cfg pins s = Inr s' \<Longrightarrow> l3_reach cfg slave data s' pins m"
| complete: "l3_reach cfg slave data s pins m \<Longrightarrow> l3_fsm cfg slave data i (s, m) = Inr (as, s', m') \<Longrightarrow>
    l3_reach cfg slave data s' pins m'"

definition l3_run_ok :: "l3_cfg \<Rightarrow> (nat \<Rightarrow> pinout) \<Rightarrow> l3_mux \<Rightarrow> bool" where
  "l3_run_ok cfg pins s \<longleftrightarrow> l3_ok cfg s \<and> (\<forall>i. l3_go s i \<longrightarrow> l3_busy s i) \<and>
     (\<forall>i. l3_cs s i \<noteq> IDLE \<longleftrightarrow> l3_busy s i) \<and> (\<forall>i. l3_busy s i \<longrightarrow> l3_pin s i = pins (l3_idc s i))"

lemma fold_l3_wake:
  "l3_busy (fold (l3_wake pins) is s) = l3_busy s" "l3_go (fold (l3_wake pins) is s) = l3_go s"
  "l3_table (fold (l3_wake pins) is s) = l3_table s" "l3_idc (fold (l3_wake pins) is s) = l3_idc s"
  "l3_done (fold (l3_wake pins) is s) = l3_done s" "l3_served (fold (l3_wake pins) is s) = l3_served s"
  "l3_req (fold (l3_wake pins) is s) = l3_req s"
  "l3_pin (fold (l3_wake pins) is s) i = (if i \<in> set is then pins (l3_idc s i) else l3_pin s i)"
  "l3_cs (fold (l3_wake pins) is s) i = (if i \<in> set is then if p_rw (pins (l3_idc s i)) then WRITE else READ else l3_cs s i)"
  by (induction "is" arbitrary: s) (auto simp: l3_wake_def)

lemma l3_clock_ok:
  assumes "l3_run_ok cfg pins s" "l3_clock cfg pins s = Inr s'"
  shows "l3_run_ok cfg pins s'"
proof -
  have ok: "l3_ok cfg s" "\<And>i. l3_go s i \<Longrightarrow> l3_busy s i" "\<And>i. l3_cs s i \<noteq> IDLE \<longleftrightarrow> l3_busy s i"
    "\<And>i. l3_busy s i \<Longrightarrow> l3_pin s i = pins (l3_idc s i)"
    using assms(1) unfolding l3_run_ok_def by blast+
  define r where "r = l3_book cfg s"
  define t where "t = fold (l3_grant cfg) [0..<n_slv cfg] r"
  define w where "w = filter (\<lambda>i. \<not> l3_go s i \<and> l3_go t i \<and> l3_cs s i = IDLE) [0..<n_slv cfg]"
  have s': "s' = fold (l3_wake pins) w t"
    using assms(2) by (auto simp: l3_clock_def l3_arbiter_def r_def t_def w_def split: if_splits)
  have r: "l3_busy r = l3_busy s" "l3_idc r = l3_idc s" "l3_cs r = l3_cs s" "l3_pin r = l3_pin s"
    by (simp_all add: r_def l3_book_def)
  have "\<not> l3_go r i" for i using ok(2) [of i] l3_ok_facts(1) [OF ok(1), of i] by (auto simp: r_def l3_book_def)
  then have t: "l3_ok cfg t" "l3_granting r t"
    using l3_grants [OF l3_book_ok [OF ok(1)], folded r_def, of "[0..<n_slv cfg]"] by (simp_all add: t_def)
  have w: "i \<in> set w \<longleftrightarrow> l3_busy t i \<and> \<not> l3_busy s i" for i
    using t(2) ok(2,3) [of i] l3_ok_facts(1) [OF t(1), of i] unfolding w_def l3_granting_def r by auto
  have "l3_ok cfg s'" by (rule l3_ok_cong [OF t(1)]) (simp_all add: s' fold_l3_wake)
  moreover have "l3_go s' i \<longrightarrow> l3_busy s' i" for i using t(2) by (simp add: s' fold_l3_wake l3_granting_def)
  moreover have "l3_cs s' i \<noteq> IDLE \<longleftrightarrow> l3_busy s' i" for i
    using t(2) ok(3) [of i] w [of i] by (auto simp: s' fold_l3_wake l3_granting_def r)
  moreover have "l3_busy s' i \<longrightarrow> l3_pin s' i = pins (l3_idc s' i)" for i
    using t(2) ok(4) [of i] w [of i] by (auto simp: s' fold_l3_wake l3_granting_def r)
  ultimately show ?thesis unfolding l3_run_ok_def by blast
qed

lemma l3_request_ok:
  assumes "l3_run_ok cfg pins s" "\<not> l3_req s k"
  shows "l3_run_ok cfg (pins(k := p)) (s\<lparr>l3_req := (l3_req s)(k := True)\<rparr>)"
proof -
  have ok: "l3_ok cfg s" using assms(1) by (simp add: l3_run_ok_def)
  have "l3_idc s i \<noteq> k" if "l3_busy s i" for i
    using l3_ok_facts(7) [OF ok l3_ok_facts(2) [OF ok that]] assms(2) by auto
  moreover have "l3_ok cfg (s\<lparr>l3_req := (l3_req s)(k := True)\<rparr>)" by (rule l3_ok_cong [OF ok]) simp_all
  ultimately show ?thesis using assms(1) by (simp add: l3_run_ok_def)
qed

lemma l3_free_sel:
  "l3_busy (l3_free cfg i s) = (l3_busy s)(i := False)" "l3_go (l3_free cfg i s) = (l3_go s)(i := False)"
  "l3_cs (l3_free cfg i s) = (l3_cs s)(i := IDLE)" "l3_pin (l3_free cfg i s) = l3_pin s"
  "l3_idc (l3_free cfg i s) = l3_idc s" "l3_req (l3_free cfg i s) = (l3_req s)(l3_idc s i := False)"
  "l3_done (l3_free cfg i s) = (l3_done s)(l3_idc s i := False)"
  "l3_served (l3_free cfg i s) = (l3_served s)(l3_idc s i := False)"
  "l3_table (l3_free cfg i s) j k \<longleftrightarrow> l3_table s j k \<and> \<not> (j < n_slv cfg \<and> k = l3_idc s i)"
  by (simp_all add: l3_free_def Let_def)

lemma l3_free_ok:
  assumes "l3_run_ok cfg pins s" "l3_busy s i"
  shows "l3_run_ok cfg pins (l3_free cfg i s)"
proof -
  have ok: "l3_ok cfg s" using assms(1) by (simp add: l3_run_ok_def)
  note facts = l3_ok_facts [OF ok]
  let ?t = "l3_free cfg i s"
  have own: "l3_busy s j \<Longrightarrow> l3_idc s j = l3_idc s i \<Longrightarrow> j = i" for j using facts(4) [of j i] assms(2) by blast
  have "l3_busy ?t j \<longrightarrow> j < n_slv cfg \<and> l3_table ?t j (l3_idc ?t j) \<and> l3_done ?t (l3_idc ?t j)" for j
    using facts(1-3) [of j] own [of j] by (auto simp: l3_free_sel)
  moreover have "l3_busy ?t j \<longrightarrow> l3_busy ?t j' \<longrightarrow> l3_idc ?t j = l3_idc ?t j' \<longrightarrow> j = j'" for j j'
    using facts(4) [of j j'] by (auto simp: l3_free_sel)
  moreover have "l3_done ?t k \<longrightarrow> (\<exists>j. l3_busy ?t j \<and> l3_idc ?t j = k)" for k
    using facts(5) [of k] by (auto simp: l3_free_sel)
  moreover have "l3_served ?t = l3_done ?t" using facts(6) by (simp add: l3_free_sel)
  moreover have "l3_table ?t j k \<longrightarrow> l3_req ?t k \<and> k < n_mst cfg \<and> j < n_slv cfg \<and>
      (static_mapping cfg \<longrightarrow> j = GetMyPortId cfg k)" for j k
    using facts(7-10) [of j k] by (auto simp: l3_free_sel)
  ultimately have "l3_ok cfg ?t" unfolding l3_ok_def by blast
  then show ?thesis using assms by (auto simp: l3_run_ok_def l3_free_sel)
qed

lemma l3_reach_ok: "l3_reach cfg slave data s pins m \<Longrightarrow> l3_run_ok cfg pins s"
proof (induction rule: l3_reach.induct)
  case (start pins m)
  then show ?case by (simp add: l3_run_ok_def l3_ok_def new_l3_mux_def)
next
  case (request s pins m k p)
  then show ?case using l3_request_ok by blast
next
  case (clock s pins m s')
  then show ?case using l3_clock_ok by blast
next
  case (complete s pins m i as s' m')
  show ?case
  proof (cases "l3_cs s i = IDLE")
    case True
    then show ?thesis using complete by (simp add: l3_fsm_def)
  next
    case False
    then have "l3_busy s i" "s' = l3_free cfg i s" using complete by (auto simp: l3_fsm_def l3_run_ok_def)
    then show ?thesis using l3_free_ok complete.IH by blast
  qed
qed

lemma l3_fsm_busy:
  "l3_cs s i \<noteq> IDLE \<Longrightarrow> l3_pin s i = p \<Longrightarrow> l3_fsm cfg slave data i (s, m) =
    res_map (\<lambda>(ps, m). (map (\<lambda>p. (l3_idc s i, p)) ps, l3_free cfg i s, m))
      (slave (\<lambda>b. if b = 0 then p else data (l3_idc s i) b) m)"
  by (auto simp: l3_fsm_def)

text \<open>C31: the multiplexer of the external memory serves every request once: a transaction that ends is the
  one its core presented, was done by one port only (with static mapping the port of the core), and all
  its answers went to that core; then the request is taken back, no port has it booked any more, and
  no other port is at work for the core.\<close>

theorem l3_serves_once:
  assumes "l3_reach cfg slave data s pins m" "l3_cs s i \<noteq> IDLE" "l3_fsm cfg slave data i (s, m) = Inr (as, s', m')"
  shows "\<exists>c ps. l3_req s c \<and> c < n_mst cfg \<and> i < n_slv cfg \<and> \<not> (static_mapping cfg \<and> i \<noteq> GetMyPortId cfg c) \<and>
    slave (\<lambda>b. if b = 0 then pins c else data c b) m = Inr (ps, m') \<and> as = map (\<lambda>p. (c, p)) ps \<and>
    l3_req s' = (l3_req s)(c := False) \<and> \<not> (\<exists>j. l3_table s' j c) \<and> \<not> (\<exists>j. l3_cs s' j \<noteq> IDLE \<and> l3_idc s' j = c)"
proof -
  have run: "l3_run_ok cfg pins s" using l3_reach_ok [OF assms(1)] .
  then have ok: "l3_ok cfg s" and busy: "l3_busy s i" and pin: "l3_pin s i = pins (l3_idc s i)"
    and cs: "\<And>j. l3_cs s j \<noteq> IDLE \<longleftrightarrow> l3_busy s j" using assms(2) unfolding l3_run_ok_def by blast+
  note facts = l3_ok_facts [OF ok]
  obtain ps where ps: "slave (\<lambda>b. if b = 0 then pins (l3_idc s i) else data (l3_idc s i) b) m = Inr (ps, m')"
    "as = map (\<lambda>p. (l3_idc s i, p)) ps" "s' = l3_free cfg i s"
    using assms(3) unfolding l3_fsm_busy [OF assms(2) pin] by auto
  have "\<not> (\<exists>j. l3_cs s' j \<noteq> IDLE \<and> l3_idc s' j = l3_idc s i)"
    using facts(4) [OF _ busy] cs by (auto simp: ps(3) l3_free_sel)
  moreover have "\<not> (\<exists>j. l3_table s' j (l3_idc s i))" using facts(9) by (auto simp: ps(3) l3_free_sel)
  ultimately show ?thesis
    using facts(7-10) [OF facts(2) [OF busy]] ps by (intro exI [of _ "l3_idc s i"] exI [of _ ps]) (auto simp: l3_free_sel)
qed

text \<open>Two cores and one port with static mapping; core 1 reads the second word of an empty DRAM.\<close>

definition one_port :: l3_cfg where
  "one_port = \<lparr>n_mst = 2, n_slv = 1, static_mapping = True, L3_mux_sched = 1\<rparr>"

definition core1_asks :: l3_mux where
  "core1_asks = new_l3_mux\<lparr>l3_req := (l3_req new_l3_mux)(1 := True)\<rparr>"

lemma l3_serves_once_witness:
  "\<exists>s as s' m' c ps. l3_clock one_port (\<lambda>_. word_read 4) core1_asks = Inr s \<and>
    l3_fsm one_port (dram_working 0) (\<lambda>_ _. word_read 4) 0 (s, new_mem 64) = Inr (as, s', m') \<and>
    l3_req s c \<and> dram_working 0 (\<lambda>b. if b = 0 then word_read 4 else word_read 4) (new_mem 64) = Inr (ps, m') \<and>
    as = map (\<lambda>p. (c, p)) ps \<and> \<not> l3_req s' c"
proof -
  let ?pins = "\<lambda>_ :: nat. word_read 4"
  have upd: "?pins(1 := word_read 4) = ?pins" by auto
  have "l3_reach one_port (dram_working 0) (\<lambda>_ _. word_read 4) new_l3_mux ?pins (new_mem 64)" by (rule l3_reach.start)
  from l3_reach.request [OF this, of 1 "word_read 4"]
  have r: "l3_reach one_port (dram_working 0) (\<lambda>_ _. word_read 4) core1_asks ?pins (new_mem 64)"
    unfolding upd core1_asks_def by (simp add: new_l3_mux_def)
  obtain s where s: "l3_clock one_port ?pins core1_asks = Inr s"
    by (simp add: l3_clock_def l3_arbiter_def one_port_def)
  have cs: "l3_cs s 0 \<noteq> IDLE"
    using s by (auto simp: l3_clock_def l3_arbiter_def one_port_def core1_asks_def new_l3_mux_def l3_book_def
        GetMyPortId_def l3_grant_def l3_wake_def upt_rec fun_upd_def)
  have run: "l3_run_ok one_port ?pins s" using l3_reach_ok [OF l3_reach.clock [OF r s]] .
  then have pin: "l3_pin s 0 = word_read 4" using cs by (auto simp: l3_run_ok_def)
  have answer: "dram_working 0 ?pins (new_mem 64) = Inr ([word_read 4\<lparr>p_data := 0\<rparr>], new_mem 64)"
    by (simp add: dram_working_def dram_Read_def dram_addressing_def Mem_Read_def MEM_WORD_def load32_def new_mem_def word_at_def)
  then have "dram_working 0 (\<lambda>b. if b = 0 then word_read 4 else word_read 4) (new_mem 64) = Inr ([word_read 4\<lparr>p_data := 0\<rparr>], new_mem 64)"
    by simp
  then obtain as s' m' where step: "l3_fsm one_port (dram_working 0) (\<lambda>_ _. word_read 4) 0 (s, new_mem 64) = Inr (as, s', m')"
    unfolding l3_fsm_busy [OF cs pin] by simp
  show ?thesis
    using l3_serves_once [OF l3_reach.clock [OF r s] cs step] s step by fastforce
qed

end
