(* ===== verification/Shared_Xbar.thy ===== *)
theory Shared_Xbar
  imports Xbar
begin

text \<open>
  The crossbar between the cores and the banks of the shared instruction cache
  (\<open>virtualsoc/src/cluster/cl_xbar_sharedI.cpp\<close>, \<open>cl_xbar_sharedI.h\<close>). It is a copy of the local interconnect with
  changes: other banks, no test-and-set, an election that asks for \<open>pending_req\<close> and other statistics.
  The state is the record of the interconnects; \<open>num_slaves\<close> are the banks.
\<close>

section \<open>The arbiter\<close>

definition CL_SHR_ICACHE_LINE :: u32 where "CL_SHR_ICACHE_LINE = 4"

definition GetCacheId :: "xbar_cfg \<Rightarrow> addr \<Rightarrow> nat" where
  "GetCacheId cfg address = unat (address div (CL_WORD * CL_SHR_ICACHE_LINE)) mod num_slaves cfg"

definition shr_requests :: "xbar_cfg \<Rightarrow> (nat \<Rightarrow> pinout) \<Rightarrow> xbar \<Rightarrow> xbar" where
  "shr_requests cfg pins s =
     s\<lparr>req_table := (\<lambda>ids k. req_table s ids k \<or>
       k < num_masters cfg \<and> is_new s k \<and> GetCacheId cfg (p_address (pins k)) = ids)\<rparr>"

definition shr_elected :: "xbar_cfg \<Rightarrow> xbar \<Rightarrow> nat \<Rightarrow> nat option" where
  "shr_elected cfg s ids =
     (if busy_fsm s ids \<or> xbar_sched cfg = 1 \<and> pending_req s ids then None
      else List.find (req_table s ids) (serving_order cfg s ids))"

definition shr_joins :: "xbar_cfg \<Rightarrow> (nat \<Rightarrow> pinout) \<Rightarrow> xbar \<Rightarrow> nat \<Rightarrow> nat \<Rightarrow> bool" where
  "shr_joins cfg smp s ids k =
     (let (a, rw, c) = (case shr_elected cfg s ids of Some c \<Rightarrow> (p_address (smp c), p_rw (smp c), c) | None \<Rightarrow> (0, False, 0)) in
      req_table s ids k \<and> p_address (smp k) = a \<and> p_rw (smp k) = rw \<and> \<not> p_rw (smp k) \<and> k \<noteq> c \<and> \<not> pending_req s ids)"

text \<open>\<open>metrics\<close> are the flags \<open>CL_CACHE_METRICS\<close> of the banks.\<close>

definition shr_arbitrate :: "(nat \<Rightarrow> bool) \<Rightarrow> xbar_cfg \<Rightarrow> (nat \<Rightarrow> pinout) \<Rightarrow> xbar \<Rightarrow> xbar res" where
  "shr_arbitrate metrics cfg smp s =
     (if 2 \<le> xbar_sched cfg then Inl (FExit 1)
      else
        let bank = (\<lambda>ids. ids < num_slaves cfg); core = (\<lambda>k. k < num_masters cfg);
            el = (\<lambda>ids k. bank ids \<and> shr_elected cfg s ids = Some k);
            jn = (\<lambda>ids k. bank ids \<and> core k \<and> shr_joins cfg smp s ids k);
            idc = (\<lambda>ids k. idc_fsm s ids k \<or> el ids k \<or> jn ids k);
            queued = (\<lambda>ids. length (filter (\<lambda>k. req_table s ids k \<and> \<not> idc ids k) [0..<num_masters cfg]));
            wanted = (\<lambda>ids. \<exists>k \<in> {..<num_masters cfg}. req_table s ids k);
            joined = (\<lambda>ids. \<exists>k \<in> {..<num_masters cfg}. jn ids k) in
        Inr (s\<lparr>idc_fsm := idc,
          served := (\<lambda>k. served s k \<or> (\<exists>ids \<in> {..<num_slaves cfg}. el ids k \<or> jn ids k)),
          next_to_serve := (\<lambda>ids. if bank ids \<and> xbar_sched cfg = 1 then
              (case shr_elected cfg s ids of Some c \<Rightarrow> (c + 1) mod 256 | None \<Rightarrow> next_to_serve s ids)
            else next_to_serve s ids),
          num_mc := num_mc s + (if xbar_sched cfg = 0
            then length (filter (\<lambda>(ids, k). metrics ids \<and> jn ids k) (List.product [0..<num_slaves cfg] [0..<num_masters cfg]))
            else length (filter (\<lambda>ids. metrics ids \<and> joined ids \<and> stat_mc s ids) [0..<num_slaves cfg])),
          stat_mc := (\<lambda>ids. stat_mc s ids \<and> \<not> (xbar_sched cfg = 1 \<and> joined ids)),
          queued_cores := (\<lambda>ids. if bank ids then queued ids else queued_cores s ids),
          pending_req := (\<lambda>ids. if bank ids then 1 \<le> queued ids else pending_req s ids),
          busy_fsm := (\<lambda>ids. busy_fsm s ids \<or> bank ids \<and> wanted ids),
          go_fsm := (\<lambda>ids. if bank ids then wanted ids else go_fsm s ids)\<rparr>))"

definition shr_arbiter :: "(nat \<Rightarrow> bool) \<Rightarrow> xbar_cfg \<Rightarrow> (nat \<Rightarrow> pinout) \<Rightarrow> xbar \<Rightarrow> xbar res" where
  "shr_arbiter metrics cfg pins s = shr_arbitrate metrics cfg (sampled pins s) (shr_requests cfg pins s)"

definition shr_clock :: "(nat \<Rightarrow> bool) \<Rightarrow> xbar_cfg \<Rightarrow> (nat \<Rightarrow> pinout) \<Rightarrow> xbar \<Rightarrow> xbar res" where
  "shr_clock metrics cfg pins s =
     res_map (\<lambda>s'. fold (fsm_wake False cfg pins) (woken cfg s s') s') (shr_arbiter metrics cfg pins s)"

section \<open>The state machine of a bank\<close>

definition shr_next :: "xbar_cfg \<Rightarrow> (nat \<Rightarrow> pinout) \<Rightarrow> nat \<Rightarrow> xbar \<Rightarrow> xbar" where
  "shr_next cfg pins i s =
     (if pending_req s i then fsm_next cfg pins i s
      else (fsm_free i s)\<lparr>stat_mc := (stat_mc s)(i := True)\<rparr>)"

definition shr_fsm :: "xbar_cfg \<Rightarrow> 'm slave_port \<Rightarrow> (nat \<Rightarrow> pinout) \<Rightarrow> nat \<Rightarrow> xbar \<times> 'm \<Rightarrow> (nat \<times> u32) list \<times> xbar \<times> 'm" where
  "shr_fsm cfg port pins i sm =
     (case (port, sm) of ((rd, wr), (s, m)) \<Rightarrow>
      let p = fsm_pinout s i; s' = shr_next cfg pins i (fsm_clear i (\<lambda>k. k < num_masters cfg \<and> idc_fsm s i k) s) in
      case cs s i of
        READ \<Rightarrow> (answer_all cfg i (rd m p) s, s', m)
      | WRITE \<Rightarrow> ([], s', wr m p)
      | _ \<Rightarrow> ([], s, m))"

section \<open>Properties\<close>

text \<open>What the arbiter decides: who is served, who waits and which banks are at work.\<close>

definition decisions :: "xbar \<Rightarrow> (nat \<Rightarrow> nat \<Rightarrow> bool) \<times> (nat \<Rightarrow> bool) \<times> (nat \<Rightarrow> nat) \<times> (nat \<Rightarrow> bool) \<times> (nat \<Rightarrow> bool) \<times> (nat \<Rightarrow> bool)" where
  "decisions s = (idc_fsm s, served s, next_to_serve s, pending_req s, busy_fsm s, go_fsm s)"

lemma shr_elected_eq:
  "(pending_req s i \<Longrightarrow> busy_fsm s i) \<Longrightarrow> shr_elected cfg s i = elected cfg s i"
  by (auto simp: shr_elected_def elected_def)

text \<open>The crossbar of the shared cache decides as the local interconnect does: with round robin, where
  only busy banks have waiting cores and every served core is in the transaction of a bank, their arbiters
  agree on who is served, in which order, who waits and which banks work.\<close>

theorem shr_arbitrates_as_lic:
  assumes "xbar_sched cfg = 1" "\<And>i. pending_req s i \<Longrightarrow> busy_fsm s i"
    and "\<And>i k. req_table s i k \<Longrightarrow> served s k \<Longrightarrow> idc_fsm s i k"
  shows "res_map decisions (shr_arbitrate metrics cfg smp s) = res_map decisions (arbitrate True cfg smp s)"
proof -
  have e: "shr_elected cfg s = elected cfg s" using shr_elected_eq [OF assms(2)] by auto
  then have j: "shr_joins cfg smp s = joins cfg smp s" by (auto simp: shr_joins_def joins_def fun_eq_iff)
  have q: "req_table s i k \<and> \<not> served s k \<and> \<not> idc_fsm s i k \<and> P \<longleftrightarrow> req_table s i k \<and> \<not> idc_fsm s i k \<and> P" for i k P
    using assms(3) by auto
  show ?thesis unfolding shr_arbitrate_def arbitrate_def decisions_def e j Let_def using assms(1)
    by (simp add: q)
qed

lemma shr_clock_busy:
  assumes "xbar_sched cfg = 1" "i < num_slaves cfg" "busy_fsm s i" "\<not> pending_req s i" "cs s i = READ"
    and "req s k" "\<not> served s k" "k < num_masters cfg" "GetCacheId cfg (p_address (pins k)) = i"
    and "p_address (pins k) = 0" "\<not> p_rw (pins k)" "k \<noteq> 0"
  shows "\<exists>s'. shr_clock metrics cfg pins s = Inr s' \<and> idc_fsm s' i k \<and> served s' k \<and> cs s' i = READ \<and> fsm_pinout s' i = fsm_pinout s i"
proof -
  define r where "r = shr_requests cfg pins s"
  have r: "req_table r i k" "busy_fsm r i" "\<not> pending_req r i" "cs r = cs s" "fsm_pinout r = fsm_pinout s" "go_fsm r = go_fsm s"
    using assms by (simp_all add: r_def shr_requests_def is_new_def)
  have j: "shr_joins cfg (sampled pins s) r i k"
    using r(1-3) assms by (simp add: shr_joins_def shr_elected_def sampled_def is_new_def)
  obtain a where a: "shr_arbitrate metrics cfg (sampled pins s) r = Inr a" "idc_fsm a i k" "served a k"
    "cs a = cs s" "fsm_pinout a = fsm_pinout s"
    using assms(1,2,8) j r(4,5) by (auto simp: shr_arbitrate_def Let_def)
  define w where "w = woken cfg s a"
  have "i \<notin> set w" using assms(5) by (auto simp: w_def woken_def)
  then have "cs (fold (fsm_wake False cfg pins) w a) i = READ \<and> fsm_pinout (fold (fsm_wake False cfg pins) w a) i = fsm_pinout s i"
    using fold_wake_other [of i w False cfg pins a] a(4,5) assms(5) by simp
  then show ?thesis using a by (simp add: shr_clock_def shr_arbiter_def r_def w_def)
qed

text \<open>A fetch of address 0 can be answered with another word: a core other than core 0 that asks for
  address 0 while the bank of that address reads another word, with no core waiting for it, is
  put into that transaction by the next clock edge and gets its word.\<close>

theorem fetch_of_zero_joins_any:
  assumes "xbar_sched cfg = 1" "0 < num_slaves cfg" "busy_fsm s 0" "\<not> pending_req s 0" "cs s 0 = READ"
    and "req s k" "\<not> served s k" "k < num_masters cfg" "k \<noteq> 0" "p_address (pins k) = 0" "\<not> p_rw (pins k)"
  shows "\<exists>s'. shr_clock metrics cfg pins s = Inr s' \<and>
    (k, fst port m (fsm_pinout s 0)) \<in> set (fst (shr_fsm cfg port pins 0 (s', m)))"
proof -
  have "GetCacheId cfg (p_address (pins k)) = 0" using assms(10) by (simp add: GetCacheId_def)
  then obtain s' where s': "shr_clock metrics cfg pins s = Inr s'" "idc_fsm s' 0 k" "cs s' 0 = READ" "fsm_pinout s' 0 = fsm_pinout s 0"
    using shr_clock_busy [of cfg 0 s k pins metrics] assms by auto
  then show ?thesis using assms(8) by (cases port) (auto simp: shr_fsm_def Let_def answer_all_def)
qed

text \<open>Core 0 fetches the word at 16; core 1 asks for the word at 0.\<close>

definition fetching :: xbar where
  "fetching = (new_xbar 1)\<lparr>req := (\<lambda>_. True), served := (\<lambda>k. k = 0), busy_fsm := (\<lambda>_. True), go_fsm := (\<lambda>_. True),
     cs := (\<lambda>_. READ), idc_fsm := (\<lambda>_ k. k = 0), req_table := (\<lambda>_ k. k = 0), fsm_pinout := (\<lambda>_. word_read 16)\<rparr>"

theorem fetch_of_zero_joins_any_witness:
  "\<exists>s'. shr_clock (\<lambda>_. False) two_cores ((\<lambda>_. word_read 0)(0 := word_read 16)) fetching = Inr s' \<and>
    (1, fst (\<lambda>m p. m (p_address p), \<lambda>m p. m) id (word_read 16)) \<in>
      set (fst (shr_fsm two_cores (\<lambda>m p. m (p_address p), \<lambda>m p. m) ((\<lambda>_. word_read 0)(0 := word_read 16)) 0 (s', id)))"
  using fetch_of_zero_joins_any [of two_cores fetching 1 "(\<lambda>_. word_read 0)(0 := word_read 16)" "\<lambda>_. False"
      "(\<lambda>m p. m (p_address p), \<lambda>m p. m)" "id :: u32 \<Rightarrow> u32"]
  by (simp add: fetching_def new_xbar_def)

theorem shr_arbitrates_as_lic_witness:
  "res_map decisions (shr_arbitrate (\<lambda>_. True) two_cores (\<lambda>_. word_read 16) fetching) =
   res_map decisions (arbitrate True two_cores (\<lambda>_. word_read 16) fetching)"
  by (rule shr_arbitrates_as_lic) (simp_all add: fetching_def new_xbar_def)

end
