(* ===== verification/Miss_Mux.thy ===== *)
theory Miss_Mux
  imports Xbar
begin

text \<open>
  The multiplexer between the banks of the shared instruction cache and the external memory
  (\<open>virtualsoc/src/cluster/cl_miss_mux.cpp\<close>, \<open>cl_miss_mux.h\<close>): one port, three ways to choose.
\<close>

section \<open>State and arbiter\<close>

record miss_mux =
  mm_req :: "nat \<Rightarrow> bool"
  mm_served :: "nat \<Rightarrow> bool"
  mm_busy :: bool
  mm_idc :: nat
  mm_next :: nat
  mm_go :: bool
  mm_cs :: ctrl_state
  mm_pin :: pinout

definition new_miss_mux :: miss_mux where
  "new_miss_mux = \<lparr>mm_req = (\<lambda>_. False), mm_served = (\<lambda>_. False), mm_busy = False, mm_idc = 0, mm_next = 0,
     mm_go = False, mm_cs = IDLE, mm_pin = new_pinout\<rparr>"

definition mm_table :: "miss_mux \<Rightarrow> nat \<Rightarrow> bool" where
  "mm_table s k \<longleftrightarrow> mm_req s k \<and> \<not> mm_served s k"

definition mm_grant :: "nat \<Rightarrow> nat \<Rightarrow> miss_mux \<Rightarrow> miss_mux" where
  "mm_grant c nxt s = s\<lparr>mm_busy := True, mm_idc := c, mm_go := True, mm_served := (mm_served s)(c := True), mm_next := nxt\<rparr>"

definition mm_ring :: "nat \<Rightarrow> miss_mux \<Rightarrow> nat option" where
  "mm_ring n s = List.find (mm_table s) (map (\<lambda>k. (mm_next s + k) mod n) [0..<n])"

definition miss_arbiter :: "nat \<Rightarrow> nat \<Rightarrow> miss_mux \<Rightarrow> miss_mux res" where
  "miss_arbiter sched n s =
     (let s = s\<lparr>mm_go := False\<rparr> in
      if sched = 0 then
        Inr (if mm_busy s then s else case List.find (mm_table s) [0..<n] of Some c \<Rightarrow> mm_grant c (mm_next s) s | None \<Rightarrow> s)
      else if sched = 1 then
        Inr (if mm_busy s then s else case mm_ring n s of Some c \<Rightarrow> mm_grant c ((c + 1) mod 256) s | None \<Rightarrow> s)
      else if sched = 2 then
        if n = 0 then Inl FUndef
        else Inr (if mm_busy s then s else if mm_table s 0 then mm_grant 0 (mm_next s) s
          else case mm_ring n s of Some c \<Rightarrow> mm_grant c ((c + 1) mod n mod 256) s | None \<Rightarrow> s)
      else Inl (FExit 1))"

text \<open>\<open>IDLE\<close>: the state machine wakes up when \<open>go_fsm\<close> rises.\<close>

definition miss_clock :: "nat \<Rightarrow> nat \<Rightarrow> (nat \<Rightarrow> pinout) \<Rightarrow> miss_mux \<Rightarrow> miss_mux res" where
  "miss_clock sched n pins s =
     res_map (\<lambda>s'. if \<not> mm_go s \<and> mm_go s' \<and> mm_cs s = IDLE
         then s'\<lparr>mm_pin := pins (mm_idc s'), mm_cs := (if p_rw (pins (mm_idc s')) then WRITE else READ)\<rparr> else s')
       (miss_arbiter sched n s)"

definition mm_free :: "miss_mux \<Rightarrow> miss_mux" where
  "mm_free s = s\<lparr>mm_req := (mm_req s)(mm_idc s := False), mm_busy := False, mm_served := (mm_served s)(mm_idc s := False),
     mm_go := False, mm_cs := IDLE\<rparr>"

text \<open>A transaction with the memory behind the port; the data of a write are those of its first beat, because
  nothing is passed on afterwards.\<close>

definition miss_fsm :: "((nat \<Rightarrow> pinout) \<Rightarrow> 'm \<Rightarrow> (pinout list \<times> 'm) res) \<Rightarrow> miss_mux \<times> 'm \<Rightarrow> ((nat \<times> pinout) list \<times> miss_mux \<times> 'm) res" where
  "miss_fsm slave sm =
     (case sm of (s, m) \<Rightarrow>
      if mm_cs s = IDLE then Inr ([], s, m)
      else res_map (\<lambda>(ps, m). (map (\<lambda>p. (mm_idc s, p)) ps, mm_free s, m)) (slave (\<lambda>_. mm_pin s) m))"

section \<open>Properties\<close>

lemma mm_grant_sel [simp]:
  "mm_idc (mm_grant c x s) = c" "mm_next (mm_grant c x s) = x" "mm_busy (mm_grant c x s)" "mm_go (mm_grant c x s)"
  by (simp_all add: mm_grant_def)

text \<open>The ring from \<open>mm_next\<close> is the ring after the one before it.\<close>

lemma mm_ring_eq:
  assumes "0 < n"
  shows "mm_ring n s = next_waiting n (mm_table s) (mm_next s + n - 1)"
proof -
  have "(mm_next s + n - 1 + 1 + k) mod n = (mm_next s + k) mod n" for k
  proof -
    have "mm_next s + n - 1 + 1 + k = mm_next s + k + n" using assms by simp
    then show ?thesis by (simp only: mod_add_self2)
  qed
  then show ?thesis by (simp add: mm_ring_def next_waiting_def)
qed

lemma ring_distance_next:
  assumes "d < n" "n \<le> 255"
  shows "ring_distance n ((d + 1) mod 256 + n - 1) c = ring_distance n d c"
proof -
  have "(d + 1) mod 256 = d + 1" using assms by simp
  then have "((d + 1) mod 256 + n - 1 + 1 + j) mod n = (d + 1 + j) mod n" for j
  proof -
    assume e: "(d + 1) mod 256 = d + 1"
    have "(d + 1) mod 256 + n - 1 + 1 + j = d + 1 + j + n" using assms by (simp add: e)
    then show ?thesis by (simp only: mod_add_self2)
  qed
  then show ?thesis unfolding ring_distance_def by (simp only:)
qed

definition mm_serves :: "nat \<Rightarrow> miss_mux \<Rightarrow> nat option" where
  "mm_serves n s = (if mm_busy s then None else mm_ring n s)"

interpretation mm: ring_arbiter n "\<lambda>s c. mm_table s c \<and> \<not> mm_busy s" "\<lambda>s. mm_next s + n - 1" "mm_serves n"
  by unfold_locales (auto simp: mm_serves_def mm_ring_eq)

lemma miss_arbiter_serves:
  assumes "mm_serves n s = Some d"
  shows "miss_arbiter 1 n s = Inr (mm_grant d ((d + 1) mod 256) (s\<lparr>mm_go := False\<rparr>))"
proof -
  have "mm_ring n (s\<lparr>mm_go := False\<rparr>) = mm_ring n s" by (simp add: mm_ring_def mm_table_def [abs_def])
  then show ?thesis using assms by (simp add: miss_arbiter_def Let_def mm_serves_def split: if_splits)
qed

text \<open>With round robin the multiplexer of the shared cache is fair: while a bank waits, with any other
  requests coming and going, it is served by one of the next grants, as many as there are banks.\<close>

theorem miss_mux_fair:
  assumes "c < n" "n \<le> 255" "\<And>j. j < n \<Longrightarrow> mm_table (S j) c \<and> \<not> mm_busy (S j)"
    and "\<And>j. res_map mm_next (miss_arbiter 1 n (S j)) = Inr (mm_next (S (Suc j)))"
  shows "\<exists>j<n. res_map mm_idc (miss_arbiter 1 n (S j)) = Inr c"
proof -
  have "\<exists>j<n. mm_serves n (S j) = Some c"
  proof (rule mm.turn_comes)
    fix j d
    assume d: "d < n" "mm_serves n (S j) = Some d"
    then have "mm_next (S (Suc j)) = (d + 1) mod 256" using assms(4) [of j] miss_arbiter_serves [OF d(2)] by simp
    then show "ring_distance n (mm_next (S (Suc j)) + n - 1) c = ring_distance n d c"
      using ring_distance_next [OF d(1) assms(2)] by simp
  qed (use assms(1,3) in auto)
  then show ?thesis using miss_arbiter_serves by fastforce
qed

definition two_ask :: "nat \<Rightarrow> miss_mux" where
  "two_ask j = new_miss_mux\<lparr>mm_req := (\<lambda>_. True), mm_next := (if j = 0 then 0 else if odd j then 1 else 2)\<rparr>"

theorem miss_mux_fair_witness:
  "\<exists>j. j < 2 \<and> res_map mm_idc (miss_arbiter 1 2 (two_ask j)) = Inr 1"
proof -
  have "res_map mm_next (miss_arbiter 1 2 (two_ask j)) = Inr (mm_next (two_ask (Suc j)))" for j
    by (simp add: miss_arbiter_def mm_ring_def mm_table_def two_ask_def new_miss_mux_def upt_rec)
  then show ?thesis
    using miss_mux_fair [of 1 2 two_ask] by (simp add: mm_table_def two_ask_def new_miss_mux_def)
qed

end
