(* ===== verification/Cru.thy ===== *)
theory Cru
  imports Pinout
begin

text \<open>
  The refill unit of the private instruction caches
  (\<open>virtualsoc/src/cluster/cl_cru.cpp\<close>, \<open>cl_cru.h\<close>): a buffer of lines that the cores share, and one state
  machine per core that looks a line up in it or fetches it from the external memory and fills the
  buffer. The steps of the state machines are the beats of their bursts and interleave freely.
\<close>

section \<open>State\<close>

datatype cru_state = CRU_IDLE | CRU_HIT | CRU_MISS

record cru =
  miss_buffer :: "nat \<Rightarrow> nat \<Rightarrow> pinout"
  curr_buff_line :: nat
  buff_line_hit :: "nat \<Rightarrow> nat"
  core_CRU_hit :: "nat \<Rightarrow> nat"
  cru_cs :: "nat \<Rightarrow> cru_state"
  cru_pin :: "nat \<Rightarrow> pinout"
  hit_line :: "nat \<Rightarrow> nat"
  burst_ctr :: "nat \<Rightarrow> nat"
  fill_line :: "nat \<Rightarrow> bool"

definition new_cru :: cru where
  "new_cru = \<lparr>miss_buffer = (\<lambda>_ _. new_pinout), curr_buff_line = 0, buff_line_hit = (\<lambda>_. 0), core_CRU_hit = (\<lambda>_. 0),
     cru_cs = (\<lambda>_. CRU_IDLE), cru_pin = (\<lambda>_. new_pinout), hit_line = (\<lambda>_. 0), burst_ctr = (\<lambda>_. 0),
     fill_line = (\<lambda>_. False)\<rparr>"

section \<open>The state machines\<close>

text \<open>The lookup compares the addresses of all four words of a line.\<close>

definition IsInMissBuffer :: "nat \<Rightarrow> cru \<Rightarrow> addr \<Rightarrow> nat option" where
  "IsInMissBuffer depth s address =
     List.find (\<lambda>i. p_address (miss_buffer s i 0) = address \<and> p_address (miss_buffer s i 1) = address + 0x4 \<and>
       p_address (miss_buffer s i 2) = address + 0x8 \<and> p_address (miss_buffer s i 3) = address + 0xC) [0..<depth]"

text \<open>\<open>IDLE\<close>: a request; \<open>stats\<close> is the flag \<open>CL_GLB_STATS\<close>.\<close>

definition cru_request :: "nat \<Rightarrow> bool \<Rightarrow> nat \<Rightarrow> pinout \<Rightarrow> cru \<Rightarrow> cru" where
  "cru_request depth stats i p s =
     (let s = s\<lparr>cru_pin := (cru_pin s)(i := p), burst_ctr := (burst_ctr s)(i := 0)\<rparr> in
      case IsInMissBuffer depth s (p_address p) of
        Some l \<Rightarrow> s\<lparr>hit_line := (hit_line s)(i := l), cru_cs := (cru_cs s)(i := CRU_HIT),
          buff_line_hit := (if stats then (buff_line_hit s)(l := buff_line_hit s l + 1) else buff_line_hit s),
          core_CRU_hit := (if stats then (core_CRU_hit s)(i := core_CRU_hit s i + 1) else core_CRU_hit s)\<rparr>
      | None \<Rightarrow> s\<lparr>cru_cs := (cru_cs s)(i := CRU_MISS)\<rparr>)"

text \<open>A beat of a hit: a word of the line that was found, as the buffer is now.\<close>

definition hit_beat :: "nat \<Rightarrow> cru \<Rightarrow> (pinout \<times> cru) res" where
  "hit_beat i s =
     (if 4 \<le> burst_ctr s i then Inl FUndef
      else Inr (miss_buffer s (hit_line s i) (burst_ctr s i), s\<lparr>burst_ctr := (burst_ctr s)(i := burst_ctr s i + 1)\<rparr>))"

text \<open>A beat of a miss, with the answer \<open>t\<close> of the external memory: the line is filled unless another core
  has brought it in the meanwhile.\<close>

definition miss_beat :: "nat \<Rightarrow> nat \<Rightarrow> pinout \<Rightarrow> cru \<Rightarrow> (pinout \<times> cru) res" where
  "miss_beat depth i t s =
     (let b = burst_ctr s i; fill = (IsInMissBuffer depth s (p_address (cru_pin s i)) = None);
          s = s\<lparr>fill_line := (fill_line s)(i := fill), burst_ctr := (burst_ctr s)(i := b + 1)\<rparr>; l = curr_buff_line s in
      if \<not> fill then Inr (t, s)
      else if 4 \<le> b then Inl FUndef
      else Inr (t, s\<lparr>miss_buffer := (miss_buffer s)(l := (miss_buffer s l)(b := t\<lparr>p_address := p_address t + of_nat b * 4\<rparr>))\<rparr>))"

definition cru_beat :: "nat \<Rightarrow> nat \<Rightarrow> pinout \<Rightarrow> cru \<Rightarrow> (pinout \<times> cru) res" where
  "cru_beat depth i t s = (if cru_cs s i = CRU_HIT then hit_beat i s else miss_beat depth i t s)"

text \<open>The end of a transaction: after a miss that filled its last word the next line is next.\<close>

definition cru_end :: "nat \<Rightarrow> nat \<Rightarrow> cru \<Rightarrow> cru" where
  "cru_end depth i s =
     s\<lparr>curr_buff_line := (if cru_cs s i = CRU_MISS \<and> fill_line s i then (curr_buff_line s + 1) mod depth else curr_buff_line s),
       cru_cs := (cru_cs s)(i := CRU_IDLE)\<rparr>"

text \<open>The external memory answers beat \<open>b\<close> with the transaction and the datum of that beat.\<close>

definition L3_answer :: "(addr \<Rightarrow> u32) \<Rightarrow> nat \<Rightarrow> cru \<Rightarrow> pinout" where
  "L3_answer mem i s =
     (cru_pin s i)\<lparr>p_data := mem (p_address (cru_pin s i) + of_nat (burst_ctr s i) * 4)\<rparr>"

inductive cru_reach :: "nat \<Rightarrow> bool \<Rightarrow> (addr \<Rightarrow> u32) \<Rightarrow> cru \<Rightarrow> bool" for depth stats mem where
  start: "cru_reach depth stats mem new_cru"
| request: "cru_reach depth stats mem s \<Longrightarrow> cru_cs s i = CRU_IDLE \<Longrightarrow> cru_reach depth stats mem (cru_request depth stats i p s)"
| beat: "cru_reach depth stats mem s \<Longrightarrow> cru_cs s i \<noteq> CRU_IDLE \<Longrightarrow> burst_ctr s i < unat (p_burst (cru_pin s i)) \<Longrightarrow>
    cru_beat depth i (L3_answer mem i s) s = Inr (t, s') \<Longrightarrow> cru_reach depth stats mem s'"
| finish: "cru_reach depth stats mem s \<Longrightarrow> cru_cs s i \<noteq> CRU_IDLE \<Longrightarrow> \<not> burst_ctr s i < unat (p_burst (cru_pin s i)) \<Longrightarrow>
    cru_reach depth stats mem (cru_end depth i s)"

section \<open>Properties\<close>

text \<open>Every word of the buffer is the word of the memory at the address it is kept with.\<close>

definition buffer_ok :: "(addr \<Rightarrow> u32) \<Rightarrow> cru \<Rightarrow> bool" where
  "buffer_ok mem s \<longleftrightarrow> (\<forall>l b. miss_buffer s l b = new_pinout \<or> p_data (miss_buffer s l b) = mem (p_address (miss_buffer s l b)))"

lemma buffer_ok_cong: "buffer_ok mem s \<Longrightarrow> miss_buffer s' = miss_buffer s \<Longrightarrow> buffer_ok mem s'"
  by (simp add: buffer_ok_def)

lemma buffer_ok_upd:
  "buffer_ok mem s \<Longrightarrow> miss_buffer s' = (miss_buffer s)(l := (miss_buffer s l)(b := e)) \<Longrightarrow> p_data e = mem (p_address e) \<Longrightarrow>
    buffer_ok mem s'"
  by (simp add: buffer_ok_def)

lemma cru_reach_ok: "cru_reach depth stats mem s \<Longrightarrow> buffer_ok mem s"
proof (induction rule: cru_reach.induct)
  case start
  then show ?case by (simp add: buffer_ok_def new_cru_def)
next
  case (request s i p)
  then show ?case by (elim buffer_ok_cong) (simp add: cru_request_def Let_def split: option.split)
next
  case (beat s i t s')
  have "miss_buffer s' = miss_buffer s \<or> (\<exists>l b e. miss_buffer s' = (miss_buffer s)(l := (miss_buffer s l)(b := e)) \<and> p_data e = mem (p_address e))"
    using beat.hyps(4) unfolding cru_beat_def hit_beat_def miss_beat_def Let_def L3_answer_def
    by (fastforce split: if_splits)
  then show ?case using beat.IH buffer_ok_cong buffer_ok_upd by metis
next
  case (finish s i)
  then show ?case by (elim buffer_ok_cong) (simp add: cru_end_def)
qed

lemma even_not_default: "even (a :: addr) \<Longrightarrow> a + 4 * w \<noteq> 0xDEADBEEF"
proof
  assume e: "even a" "a + 4 * w = 0xDEADBEEF"
  then have "even (0xDEADBEEF :: addr)" by (metis dvd_add dvd_mult2 even_numeral)
  then show False by simp
qed

lemma IsInMissBuffer_SomeD:
  "IsInMissBuffer depth s a = Some l \<Longrightarrow> b < 4 \<Longrightarrow> p_address (miss_buffer s l b) = a + 4 * of_nat b"
  by (auto simp: IsInMissBuffer_def find_Some_iff less_Suc_eq numeral_eq_Suc)

lemma hit_words:
  assumes "buffer_ok mem s" "IsInMissBuffer depth s a = Some l" "even a" "b < 4"
  shows "p_data (miss_buffer s l b) = mem (a + 4 * of_nat b)"
proof -
  have addr: "p_address (miss_buffer s l b) = a + 4 * of_nat b" using IsInMissBuffer_SomeD [OF assms(2,4)] .
  then have "miss_buffer s l b \<noteq> new_pinout"
    using even_not_default [OF assms(3), of "of_nat b"] by (auto simp: new_pinout_def)
  then have "p_data (miss_buffer s l b) = mem (p_address (miss_buffer s l b))"
    using assms(1) unfolding buffer_ok_def by blast
  then show ?thesis using addr by simp
qed

text \<open>The \<open>n\<close> beats of a transaction with no other core in between.\<close>

fun cru_beats :: "nat \<Rightarrow> (addr \<Rightarrow> u32) \<Rightarrow> nat \<Rightarrow> nat \<Rightarrow> cru \<Rightarrow> (pinout list \<times> cru) res" where
  "cru_beats depth mem i 0 s = Inr ([], s)"
| "cru_beats depth mem i (Suc n) s =
     res_bind (cru_beat depth i (L3_answer mem i s) s) (\<lambda>(t, s).
     res_map (\<lambda>(ts, s). (t # ts, s)) (cru_beats depth mem i n s))"

lemma hit_beats_words:
  assumes "burst_ctr s i + n \<le> 4" "cru_cs s i = CRU_HIT" "\<And>b. b < 4 \<Longrightarrow> p_data (miss_buffer s (hit_line s i) b) = w b"
  shows "\<exists>ts s'. cru_beats depth mem i n s = Inr (ts, s') \<and> map p_data ts = map w [burst_ctr s i..<burst_ctr s i + n]"
  using assms
proof (induction n arbitrary: s)
  case (Suc n)
  let ?s = "s\<lparr>burst_ctr := (burst_ctr s)(i := burst_ctr s i + 1)\<rparr>"
  have "\<exists>ts s'. cru_beats depth mem i n ?s = Inr (ts, s') \<and> map p_data ts = map w [burst_ctr ?s i..<burst_ctr ?s i + n]"
    by (rule Suc.IH) (use Suc.prems in simp_all)
  moreover have "p_data (miss_buffer s (hit_line s i) (burst_ctr s i)) = w (burst_ctr s i)" using Suc.prems(1,3) by simp
  ultimately show ?case using Suc.prems(1,2) by (auto simp: cru_beat_def hit_beat_def upt_rec)
qed simp

lemma miss_beats_words:
  assumes "burst_ctr s i + n \<le> 4" "cru_cs s i = CRU_MISS"
  shows "\<exists>ts s'. cru_beats depth mem i n s = Inr (ts, s') \<and>
    map p_data ts = map (\<lambda>b. mem (p_address (cru_pin s i) + of_nat b * 4)) [burst_ctr s i..<burst_ctr s i + n]"
  using assms
proof (induction n arbitrary: s)
  case (Suc n)
  obtain s1 where s1: "miss_beat depth i (L3_answer mem i s) s = Inr (L3_answer mem i s, s1)"
    "burst_ctr s1 i = burst_ctr s i + 1" "cru_cs s1 = cru_cs s" "cru_pin s1 = cru_pin s"
    using Suc.prems(1) by (cases "IsInMissBuffer depth s (p_address (cru_pin s i)) = None") (simp_all add: miss_beat_def Let_def)
  have "\<exists>ts s'. cru_beats depth mem i n s1 = Inr (ts, s') \<and>
      map p_data ts = map (\<lambda>b. mem (p_address (cru_pin s1 i) + of_nat b * 4)) [burst_ctr s1 i..<burst_ctr s1 i + n]"
    by (rule Suc.IH) (use Suc.prems s1 in simp_all)
  then show ?case using Suc.prems(1,2) s1 by (auto simp: cru_beat_def L3_answer_def upt_rec)
qed simp

text \<open>C32: an instruction fetch through the refill unit gets the words of the memory, whatever transactions of
  other cores came before it and were left unfinished, if no other core takes a step during the fetch:
  up to the four words of a line, found in the buffer or not.\<close>

theorem cru_fetches_memory:
  assumes "cru_reach depth stats mem s" "even (p_address p)" "unat (p_burst p) \<le> 4"
  shows "\<exists>ts s'. cru_beats depth mem i (unat (p_burst p)) (cru_request depth stats i p s) = Inr (ts, s') \<and>
    map p_data ts = map (\<lambda>b. mem (p_address p + 4 * of_nat b)) [0..<unat (p_burst p)]"
proof (cases "IsInMissBuffer depth s (p_address p)")
  case None
  let ?s = "cru_request depth stats i p s"
  have "IsInMissBuffer depth (s\<lparr>cru_pin := x, burst_ctr := y\<rparr>) a = IsInMissBuffer depth s a" for x y a
    by (simp add: IsInMissBuffer_def)
  then have "burst_ctr ?s i = 0" "cru_cs ?s i = CRU_MISS" "cru_pin ?s i = p"
    using None by (simp_all add: cru_request_def Let_def)
  then show ?thesis using miss_beats_words [of ?s i "unat (p_burst p)" depth mem] assms(3) by (simp add: mult.commute)
next
  case (Some l)
  let ?s = "cru_request depth stats i p s"
  have "IsInMissBuffer depth (s\<lparr>cru_pin := x, burst_ctr := y\<rparr>) a = IsInMissBuffer depth s a" for x y a
    by (simp add: IsInMissBuffer_def)
  then have s: "burst_ctr ?s i = 0" "cru_cs ?s i = CRU_HIT" "hit_line ?s i = l" "miss_buffer ?s = miss_buffer s"
    using Some by (simp_all add: cru_request_def Let_def)
  have "p_data (miss_buffer ?s (hit_line ?s i) b) = mem (p_address p + 4 * of_nat b)" if "b < 4" for b
    using hit_words [OF cru_reach_ok [OF assms(1)] Some assms(2) that] s by simp
  then show ?thesis using hit_beats_words [of ?s i "unat (p_burst p)" "\<lambda>b. mem (p_address p + 4 * of_nat b)" depth mem] s assms(3) by simp
qed

text \<open>The words of a hit are not protected while it is read: if another core fills the line that is
  being read, the first core gets the other core's word in place of its own.\<close>

theorem cru_hit_overtaken:
  assumes "cru_reach depth stats mem s" "x \<noteq> y" "cru_cs s x = CRU_HIT" "cru_cs s y = CRU_MISS"
    and "hit_line s x = curr_buff_line s" "burst_ctr s x = b" "burst_ctr s y = b" "b < 4"
    and "IsInMissBuffer depth s (p_address (cru_pin s y)) = None"
  shows "\<exists>u s' t s''. cru_beat depth y (L3_answer mem y s) s = Inr (u, s') \<and> cru_beat depth x (L3_answer mem x s') s' = Inr (t, s'') \<and>
    p_data t = mem (p_address (cru_pin s y) + of_nat b * 4)"
  using assms by (simp add: cru_beat_def miss_beat_def hit_beat_def Let_def L3_answer_def)

definition line_read :: "addr \<Rightarrow> pinout" where "line_read a = (word_read a)\<lparr>p_burst := 4\<rparr>"

lemma line_read_sel [simp]: "p_address (line_read a) = a" "p_burst (line_read a) = 4"
  by (simp_all add: line_read_def)

theorem cru_fetches_memory_witness:
  "\<exists>ts s'. cru_beats 1 (\<lambda>a. a) 0 (unat (4 :: u32)) (cru_request 1 False 0 (line_read 16) new_cru) = Inr (ts, s') \<and>
    map p_data ts = map (\<lambda>b. 16 + 4 * of_nat b) [0..<unat (4 :: u32)]"
  using cru_fetches_memory [OF cru_reach.start [of 1 False "\<lambda>a. a"], of "line_read 16" 0] by simp

lemma IsInMissBuffer_cong: "miss_buffer s' = miss_buffer s \<Longrightarrow> IsInMissBuffer depth s' = IsInMissBuffer depth s"
  by (simp add: IsInMissBuffer_def fun_eq_iff)

lemma cru_request_sel:
  assumes "IsInMissBuffer depth s (p_address p) = f"
  shows "miss_buffer (cru_request depth stats i p s) = miss_buffer s" "curr_buff_line (cru_request depth stats i p s) = curr_buff_line s"
    "cru_pin (cru_request depth stats i p s) = (cru_pin s)(i := p)" "burst_ctr (cru_request depth stats i p s) = (burst_ctr s)(i := 0)"
    "cru_cs (cru_request depth stats i p s) = (cru_cs s)(i := if f = None then CRU_MISS else CRU_HIT)"
    "hit_line (cru_request depth stats i p s) = (case f of None \<Rightarrow> hit_line s | Some l \<Rightarrow> (hit_line s)(i := l))"
proof -
  have "IsInMissBuffer depth (s\<lparr>cru_pin := x, burst_ctr := y\<rparr>) (p_address p) = f" for x y
    using assms by (simp add: IsInMissBuffer_def)
  then show "miss_buffer (cru_request depth stats i p s) = miss_buffer s" "curr_buff_line (cru_request depth stats i p s) = curr_buff_line s"
    "cru_pin (cru_request depth stats i p s) = (cru_pin s)(i := p)" "burst_ctr (cru_request depth stats i p s) = (burst_ctr s)(i := 0)"
    "cru_cs (cru_request depth stats i p s) = (cru_cs s)(i := if f = None then CRU_MISS else CRU_HIT)"
    "hit_line (cru_request depth stats i p s) = (case f of None \<Rightarrow> hit_line s | Some l \<Rightarrow> (hit_line s)(i := l))"
    by (cases f; simp add: cru_request_def Let_def)+
qed

lemma IsInMissBuffer_one:
  "IsInMissBuffer (Suc 0) s a = (if p_address (miss_buffer s 0 0) = a \<and> p_address (miss_buffer s 0 1) = a + 4 \<and>
     p_address (miss_buffer s 0 2) = a + 8 \<and> p_address (miss_buffer s 0 3) = a + 12 then Some 0 else None)"
  by (simp add: IsInMissBuffer_def)

lemma miss_beat_fills:
  assumes "IsInMissBuffer depth s (p_address (cru_pin s i)) = None" "burst_ctr s i < 4" "cru_cs s i = CRU_MISS"
  shows "\<exists>t s'. cru_beat depth i (L3_answer mem i s) s = Inr (t, s') \<and> cru_cs s' = cru_cs s \<and> cru_pin s' = cru_pin s \<and>
    burst_ctr s' i = burst_ctr s i + 1 \<and> curr_buff_line s' = curr_buff_line s \<and> fill_line s' i \<and>
    (\<forall>b. p_address (miss_buffer s' (curr_buff_line s) b) = (if b = burst_ctr s i
       then p_address (cru_pin s i) + of_nat b * 4 else p_address (miss_buffer s (curr_buff_line s) b)))"
  using assms by (simp add: cru_beat_def miss_beat_def Let_def L3_answer_def)

text \<open>Core 0 brings a line into a buffer of one line.\<close>

lemma one_line_filled:
  assumes "cru_pin s 0 = line_read 16" "cru_cs s 0 = CRU_MISS" "burst_ctr s 0 = 0" "curr_buff_line s = 0"
    and "\<forall>b. p_address (miss_buffer s 0 b) = 0xDEADBEEF"
  shows "\<exists>ts s'. cru_beats 1 mem 0 4 s = Inr (ts, s') \<and> IsInMissBuffer 1 s' 16 = Some 0 \<and> IsInMissBuffer 1 s' 32 = None \<and>
    curr_buff_line s' = 0 \<and> cru_cs s' = cru_cs s \<and> burst_ctr s' 0 = 4 \<and> cru_pin s' = cru_pin s"
proof -
  note ne = IsInMissBuffer_one assms
  have four: "cru_beats 1 mem 0 4 s = cru_beats 1 mem 0 (Suc (Suc (Suc (Suc 0)))) s" for s by (simp add: numeral_eq_Suc)
  obtain t1 s1 where s1: "cru_beat 1 0 (L3_answer mem 0 s) s = Inr (t1, s1)" "cru_cs s1 = cru_cs s" "cru_pin s1 = cru_pin s"
    "burst_ctr s1 0 = 1" "curr_buff_line s1 = 0" "\<forall>b. p_address (miss_buffer s1 0 b) = (if b = 0 then 16 else 0xDEADBEEF)"
    using miss_beat_fills [of 1 s 0 mem] by (auto simp: ne cong: if_cong)
  obtain t2 s2 where s2: "cru_beat 1 0 (L3_answer mem 0 s1) s1 = Inr (t2, s2)" "cru_cs s2 = cru_cs s" "cru_pin s2 = cru_pin s"
    "burst_ctr s2 0 = 2" "curr_buff_line s2 = 0"
    "\<forall>b. p_address (miss_buffer s2 0 b) = (if b = 1 then 20 else if b = 0 then 16 else 0xDEADBEEF)"
    using miss_beat_fills [of 1 s1 0 mem] by (auto simp: ne s1 cong: if_cong)
  obtain t3 s3 where s3: "cru_beat 1 0 (L3_answer mem 0 s2) s2 = Inr (t3, s3)" "cru_cs s3 = cru_cs s" "cru_pin s3 = cru_pin s"
    "burst_ctr s3 0 = 3" "curr_buff_line s3 = 0"
    "\<forall>b. p_address (miss_buffer s3 0 b) = (if b = 2 then 24 else if b = 1 then 20 else if b = 0 then 16 else 0xDEADBEEF)"
    using miss_beat_fills [of 1 s2 0 mem] by (auto simp: ne s2 cong: if_cong)
  obtain t4 s4 where s4: "cru_beat 1 0 (L3_answer mem 0 s3) s3 = Inr (t4, s4)" "cru_cs s4 = cru_cs s" "cru_pin s4 = cru_pin s"
    "burst_ctr s4 0 = 4" "curr_buff_line s4 = 0"
    "\<forall>b. p_address (miss_buffer s4 0 b) = (if b = 3 then 28 else if b = 2 then 24 else if b = 1 then 20 else if b = 0 then 16 else 0xDEADBEEF)"
    using miss_beat_fills [of 1 s3 0 mem] by (auto simp: ne s3 cong: if_cong)
  have "IsInMissBuffer 1 s4 16 = Some 0" "IsInMissBuffer 1 s4 32 = None" by (simp_all add: ne s4)
  moreover have "cru_beats 1 mem 0 4 s = Inr ([t1, t2, t3, t4], s4)" unfolding four using s1(1) s2(1) s3(1) s4(1) by simp
  ultimately show ?thesis using s4 by auto
qed

lemma cru_reach_beats:
  "cru_reach depth stats mem s \<Longrightarrow> cru_cs s i \<noteq> CRU_IDLE \<Longrightarrow> burst_ctr s i + n \<le> unat (p_burst (cru_pin s i)) \<Longrightarrow>
    cru_beats depth mem i n s = Inr (ts, s') \<Longrightarrow> cru_reach depth stats mem s'"
proof (induction n arbitrary: s ts)
  case (Suc n)
  obtain t s1 where s1: "cru_beat depth i (L3_answer mem i s) s = Inr (t, s1)" using Suc.prems(4) by auto
  then obtain us where "cru_beats depth mem i n s1 = Inr (us, s')" using Suc.prems(4) by auto
  moreover have "cru_cs s1 = cru_cs s" "cru_pin s1 = cru_pin s" "burst_ctr s1 i = Suc (burst_ctr s i)"
    using s1 by (auto simp: cru_beat_def hit_beat_def miss_beat_def Let_def split: if_splits)
  moreover have "cru_reach depth stats mem s1" using cru_reach.beat [OF Suc.prems(1,2) _ s1] Suc.prems(3) by simp
  ultimately show ?case using Suc.IH [of s1 us] Suc.prems(2,3) by simp
qed auto

text \<open>A buffer of one line: core 0 brings the line at 16 and asks for it again, and core 1 for the line at 32.\<close>

theorem cru_hit_overtaken_witness:
  "\<exists>s u s' t s''. cru_cs s 0 = CRU_HIT \<and> p_address (cru_pin s 0) = 16 \<and>
    cru_beat 1 1 (L3_answer (\<lambda>a. a) 1 s) s = Inr (u, s') \<and> cru_beat 1 0 (L3_answer (\<lambda>a. a) 0 s') s' = Inr (t, s'') \<and>
    p_data t = 32"
proof -
  let ?r = "cru_request 1 False" and ?m = "\<lambda>a :: addr. a"
  let ?s0 = "?r 0 (line_read 16) new_cru"
  have none: "IsInMissBuffer 1 new_cru (p_address (line_read 16)) = None"
    by (simp add: IsInMissBuffer_one new_cru_def new_pinout_def)
  note s0 = cru_request_sel [OF none, of False 0]
  have new: "curr_buff_line new_cru = 0" "cru_cs new_cru = (\<lambda>_. CRU_IDLE)" "miss_buffer new_cru = (\<lambda>_ _. new_pinout)"
    "p_address new_pinout = 0xDEADBEEF" by (simp_all add: new_cru_def new_pinout_def)
  have "\<forall>b. p_address (miss_buffer new_cru 0 b) = 0xDEADBEEF" by (simp add: new_cru_def new_pinout_def)
  then obtain ts s1 where s1: "cru_beats 1 ?m 0 4 ?s0 = Inr (ts, s1)" "IsInMissBuffer 1 s1 16 = Some 0"
    "IsInMissBuffer 1 s1 32 = None" "curr_buff_line s1 = 0" "cru_cs s1 = (\<lambda>_. CRU_IDLE)(0 := CRU_MISS)" "burst_ctr s1 0 = 4"
    "cru_pin s1 0 = line_read 16"
    using one_line_filled [of ?s0 ?m] by (auto simp: s0 [unfolded One_nat_def] new)
  have "cru_reach 1 False ?m ?s0" using cru_reach.request [OF cru_reach.start, of 0] by (simp add: new_cru_def)
  then have "cru_reach 1 False ?m s1"
    by (rule cru_reach_beats [OF _ _ _ s1(1)])
      (simp_all add: s0 [unfolded One_nat_def] new)
  from cru_reach.finish [OF this, of 0] have r2: "cru_reach 1 False ?m (cru_end 1 0 s1)" using s1(5-7) by simp
  define s2 where "s2 = cru_end 1 0 s1"
  have s2: "miss_buffer s2 = miss_buffer s1" "curr_buff_line s2 = 0" "cru_cs s2 = (\<lambda>_. CRU_IDLE)"
    by (auto simp: s2_def cru_end_def s1)
  define s3 where "s3 = ?r 0 (line_read 16) s2"
  have "IsInMissBuffer 1 s2 (p_address (line_read 16)) = Some 0" using IsInMissBuffer_cong [OF s2(1)] s1(2) by simp
  note s3 = cru_request_sel [OF this, of False 0, folded s3_def]
  define s4 where "s4 = ?r 1 (line_read 32) s3"
  have miss: "IsInMissBuffer 1 s3 (p_address (line_read 32)) = None"
    using IsInMissBuffer_cong [OF s3(1)] IsInMissBuffer_cong [OF s2(1)] s1(3) by simp
  note s4 = cru_request_sel [OF miss, of False 1, folded s4_def]
  have "cru_reach 1 False ?m s3" unfolding s3_def by (rule cru_reach.request) (use r2 s2 in \<open>simp_all add: s2_def\<close>)
  then have r4: "cru_reach 1 False ?m s4" unfolding s4_def by (rule cru_reach.request) (simp add: s3 s2)
  have "IsInMissBuffer 1 s4 (p_address (cru_pin s4 1)) = None" using miss IsInMissBuffer_cong [OF s4(1)] by (simp add: s4)
  then show ?thesis
    using cru_hit_overtaken [OF r4, of 0 1 0] by (intro exI [of _ s4]) (simp add: s4 s3 s2)
qed

end
