(* ===== verification/Command_Line.thy ===== *)
theory Command_Line
  imports Prelude
begin

text \<open>
  The configuration of the simulator: the global variables
  (\<open>virtualsoc/src/core/globals.cpp\<close>), the values the build gives them
  (\<open>virtualsoc/CMakeLists.txt\<close>, \<open>core/config.h\<close>) and the command line,
  \<open>parseArgs\<close> of \<open>virtualsoc/src/core/parser.cpp\<close>. \<open>getopt_long\<close> of the C library splits the
  command line; the list of its results is the input here. What is printed is left out.
\<close>

section \<open>The global variables\<close>

datatype ARCH = SINGLE_CLUSTER | NOC2 | NOC3 | NOC4

record globals =
  g_CURRENT_ARCH :: ARCH
  g_STATS :: bool
  g_POWERSTATS :: bool
  g_VCD :: bool
  g_DMA :: bool
  g_AUTOSTARTMEASURING :: bool
  g_NSIMCYCLES :: int
  g_N_CORES :: u16
  g_N_CORES_TILE :: u16
  g_N_TILE :: u16
  g_XBAR_SCHEDULING :: u16
  g_N_MASTERS :: u16
  g_N_SLAVES :: u16
  g_N_MEMORIES :: u16
  g_MEM_IN_WS :: u16
  g_MEM_BB_WS :: u16
  g_STATSFILENAME :: string
  g_PTRACEFILENAME :: string
  g_DRAM :: bool
  g_TRACE_ISS :: bool
  g_N_SHR_CACHE_BANKS :: u16
  g_N_CL_BANKS :: u16
  g_CL_CORE_METRICS :: "bool list"
  g_CL_CACHE_METRICS :: "bool list"
  g_CL_ICACHE_PRIV :: bool
  g_ARM11_IDLE :: "bool list"
  g_ARM11_STOP :: "bool list"
  g_CL_ICACHE_SIZE :: u16
  g_ENABLE_CRU :: bool
  g_CRU_DEPTH :: u16
  g_DRAM_MC_PORTS :: u16
  g_L3_MUX_STATIC_MAP :: bool

text \<open>The values before the command line is read: those of the build where it gives one, else those
  of \<open>core/config.h\<close>. The variables that the parser computes are still zero.\<close>

definition cmake_globals :: globals where
  "cmake_globals = \<lparr>g_CURRENT_ARCH = SINGLE_CLUSTER, g_STATS = False, g_POWERSTATS = False,
     g_VCD = False, g_DMA = False, g_AUTOSTARTMEASURING = False, g_NSIMCYCLES = -1,
     g_N_CORES = 4, g_N_CORES_TILE = 1, g_N_TILE = 1, g_XBAR_SCHEDULING = 0, g_N_MASTERS = 0, g_N_SLAVES = 0, g_N_MEMORIES = 0,
     g_MEM_IN_WS = 50, g_MEM_BB_WS = 1, g_STATSFILENAME = ''stats.txt'', g_PTRACEFILENAME = ''ptrace.txt'',
     g_DRAM = False, g_TRACE_ISS = False, g_N_SHR_CACHE_BANKS = 16, g_N_CL_BANKS = 16,
     g_CL_CORE_METRICS = [], g_CL_CACHE_METRICS = [], g_CL_ICACHE_PRIV = True,
     g_ARM11_IDLE = [], g_ARM11_STOP = [], g_CL_ICACHE_SIZE = 4096, g_ENABLE_CRU = False,
     g_CRU_DEPTH = 1, g_DRAM_MC_PORTS = 1, g_L3_MUX_STATIC_MAP = False\<rparr>"

text \<open>The interconnects that are built in, as \<open>main.cpp\<close> sets them. \<open>HAVE_ARMv6\<close> is set nowhere and keeps
  the initial value of a global variable.\<close>

type_synonym builds = "ARCH \<Rightarrow> bool"

definition CLUSTERBUILD :: builds where
  "CLUSTERBUILD a \<longleftrightarrow> a = SINGLE_CLUSTER"

definition HAVE_ARMv6 :: bool where
  "HAVE_ARMv6 \<longleftrightarrow> False"

section \<open>Numbers on the command line\<close>

fun digit :: "char \<Rightarrow> int option" where
  "digit c = (let n = int (of_char c) in if 48 \<le> n \<and> n \<le> 57 then Some (n - 48) else None)"

fun digits :: "int \<Rightarrow> string \<Rightarrow> int" where
  "digits acc [] = acc"
| "digits acc (c # cs) = (case digit c of Some d \<Rightarrow> digits (acc * 10 + d) cs | None \<Rightarrow> acc)"

definition isspace :: "char \<Rightarrow> bool" where
  "isspace c \<longleftrightarrow> (let n = of_char c :: nat in n = 32 \<or> (9 \<le> n \<and> n \<le> 13))"

text \<open>\<open>atoi\<close>: a number that is no \<open>int\<close> is undefined behaviour of the C library.\<close>

definition atoi :: "string \<Rightarrow> int res" where
  "atoi s = (let t = dropWhile isspace s;
       n = (case t of [] \<Rightarrow> 0
         | c # cs \<Rightarrow> if c = CHR ''-'' then - digits 0 cs else if c = CHR ''+'' then digits 0 cs
             else digits 0 t)
     in if in_s32 n then Inr n else Inl FUndef)"

text \<open>A number that is assigned to an \<open>unsigned short int\<close>.\<close>

definition atoi16 :: "string \<Rightarrow> u16 res" where
  "atoi16 s = res_map word_of_int (atoi s)"

text \<open>The character at a position of an argument, up to the end that C marks with a zero.\<close>

definition arg_char :: "string \<Rightarrow> nat \<Rightarrow> char" where
  "arg_char s i = (if i < length s then s ! i else CHR 0x00)"

section \<open>The options\<close>

text \<open>What \<open>getopt_long\<close> returns: the code of a long option, or the character of a short one, and
  the argument (empty for an option that takes none).\<close>

datatype code = Long nat | Short char

type_synonym opt = "code \<times> string"

text \<open>An option that takes a number: outside the values \<open>ok\<close> it is the fatal error.\<close>

definition take_number :: "(u16 \<Rightarrow> bool) \<Rightarrow> (u16 \<Rightarrow> globals) \<Rightarrow> string \<Rightarrow> globals res" where
  "take_number ok set_to arg =
     res_bind (atoi16 arg) (\<lambda>v. if ok v then Inr (set_to v) else Inl (FExit 1))"

definition set_intc :: "builds \<Rightarrow> string \<Rightarrow> globals \<Rightarrow> globals res" where
  "set_intc built arg g =
     res_bind (if arg_char arg 0 \<in> {CHR ''c'', CHR ''C''} then Inr (SINGLE_CLUSTER, 1)
       else if arg_char arg 0 \<in> {CHR ''n'', CHR ''N''} then
         (if arg_char arg 1 = CHR ''2'' then Inr (NOC2, 4)
          else if arg_char arg 1 = CHR ''3'' then Inr (NOC3, 9)
          else if arg_char arg 1 = CHR ''4'' then Inr (NOC4, 16) else Inl (FExit 1))
       else Inl (FExit 1))
     (\<lambda>(a, n). if built a then Inr (g\<lparr>g_CURRENT_ARCH := a, g_N_TILE := n\<rparr>) else Inl (FExit 1))"

definition set_ic :: "string \<Rightarrow> globals \<Rightarrow> globals res" where
  "set_ic arg g =
     (if arg_char arg 0 \<in> {CHR ''p'', CHR ''P''} then Inr (g\<lparr>g_CL_ICACHE_PRIV := True\<rparr>)
      else if arg_char arg 0 \<in> {CHR ''s'', CHR ''S''} then Inr (g\<lparr>g_CL_ICACHE_PRIV := False\<rparr>)
      else Inl (FExit 1))"

definition long_option :: "builds \<Rightarrow> nat \<Rightarrow> string \<Rightarrow> globals \<Rightarrow> globals res" where
  "long_option built n arg g =
     (if n = 301 then
        (if arg_char arg 0 \<in> {CHR ''w'', CHR ''W''} \<and> HAVE_ARMv6 then Inr g else Inl (FExit 1))
      else if n = 302 then set_intc built arg g
      else if n = 303 then take_number (\<lambda>v. v \<le> 64 \<and> 1 \<le> v) (\<lambda>v. g\<lparr>g_N_CORES_TILE := v\<rparr>) arg
      else if n = 306 then take_number (\<lambda>v. v \<in> {16, 32, 64}) (\<lambda>v. g\<lparr>g_N_SHR_CACHE_BANKS := v\<rparr>) arg
      else if n = 307 then take_number (\<lambda>v. v \<in> {16, 32, 64}) (\<lambda>v. g\<lparr>g_N_CL_BANKS := v\<rparr>) arg
      else if n = 308 then take_number (\<lambda>v. v \<in> {1, 2, 4, 8, 16}) (\<lambda>v. g\<lparr>g_CL_ICACHE_SIZE := v * 1024\<rparr>) arg
      else if n = 309 then take_number (\<lambda>v. v \<in> {1, 2, 4, 8, 16}) (\<lambda>v. g\<lparr>g_ENABLE_CRU := True, g_CRU_DEPTH := v\<rparr>) arg
      else if n = 310 then take_number (\<lambda>v. v \<in> {1, 2, 4}) (\<lambda>v. g\<lparr>g_DRAM_MC_PORTS := v\<rparr>) arg
      else if n = 312 then set_ic arg g
      else if n = 401 then Inr (g\<lparr>g_STATSFILENAME := arg\<rparr>)
      else if n = 501 then Inr (g\<lparr>g_DRAM := \<not> g_DRAM g\<rparr>)
      else Inl (FExit 1))"

text \<open>\<open>-h\<close> prints the help, or a complaint when it is not alone; both leave with 1.\<close>

definition short_option :: "char \<Rightarrow> string \<Rightarrow> globals \<Rightarrow> globals res" where
  "short_option c arg g =
     (if c = CHR ''a'' then Inr (g\<lparr>g_AUTOSTARTMEASURING := \<not> g_AUTOSTARTMEASURING g\<rparr>)
      else if c = CHR ''b'' then take_number (\<lambda>v. True) (\<lambda>v. g\<lparr>g_MEM_BB_WS := v\<rparr>) arg
      else if c = CHR ''c'' then take_number (\<lambda>v. \<not> (v < 1 \<or> 256 < v)) (\<lambda>v. g\<lparr>g_N_CORES := v\<rparr>) arg
      else if c = CHR ''d'' then Inr (g\<lparr>g_TRACE_ISS := True\<rparr>)
      else if c = CHR ''D'' then Inr (g\<lparr>g_DMA := \<not> g_DMA g\<rparr>)
      else if c = CHR ''m'' then take_number (\<lambda>v. True) (\<lambda>v. g\<lparr>g_MEM_IN_WS := v\<rparr>) arg
      else if c = CHR ''n'' then res_bind (atoi arg) (\<lambda>v.
        if v < 1 then Inl (FExit 1) else Inr (g\<lparr>g_NSIMCYCLES := v\<rparr>))
      else if c = CHR ''s'' then Inr (g\<lparr>g_STATS := \<not> g_STATS g\<rparr>)
      else if c = CHR ''v'' then Inr (g\<lparr>g_VCD := \<not> g_VCD g\<rparr>)
      else if c = CHR ''w'' then Inr (g\<lparr>g_POWERSTATS := \<not> g_POWERSTATS g, g_PTRACEFILENAME := arg\<rparr>)
      else Inl (FExit 1))"

fun parse_option :: "builds \<Rightarrow> opt \<Rightarrow> globals \<Rightarrow> globals res" where
  "parse_option built (Long n, arg) g = long_option built n arg g"
| "parse_option built (Short c, arg) g = short_option c arg g"

text \<open>After the options: the flags that the statistics read, one per core and per cache.\<close>

definition cluster_metrics :: "globals \<Rightarrow> globals" where
  "cluster_metrics g =
     (let n = unat (g_N_CORES g); nc = (if g_CL_ICACHE_PRIV g then n else unat (g_N_SHR_CACHE_BANKS g)) in
      g\<lparr>g_N_CORES_TILE := g_N_CORES g, g_CL_CORE_METRICS := replicate n False,
        g_ARM11_IDLE := replicate n False, g_ARM11_STOP := replicate n False,
        g_CL_CACHE_METRICS := replicate nc False\<rparr>)"

definition set_numbers :: "globals \<Rightarrow> globals" where
  "set_numbers g = g\<lparr>g_N_MASTERS := (if g_DMA g then g_N_CORES g * 2 else g_N_CORES g),
     g_N_MEMORIES := g_N_TILE g * (g_N_CL_BANKS g + 1), g_N_SLAVES := g_N_TILE g * (g_N_CL_BANKS g + 1 + 1)\<rparr>"

text \<open>\<open>operands\<close> are the arguments that are no options.\<close>

definition parseArgs :: "builds \<Rightarrow> opt list \<Rightarrow> string list \<Rightarrow> globals \<Rightarrow> globals res" where
  "parseArgs built opts operands g0 =
     res_bind (each (parse_option built) opts g0) (\<lambda>g.
     let g = (if g_CURRENT_ARCH g = SINGLE_CLUSTER then cluster_metrics g else g) in
     if operands \<noteq> [] then Inl (FExit 1) else Inr (set_numbers g))"

section \<open>What an accepted command line has set\<close>

fun tiles :: "ARCH \<Rightarrow> nat" where
  "tiles SINGLE_CLUSTER = 1"
| "tiles NOC2 = 4"
| "tiles NOC3 = 9"
| "tiles NOC4 = 16"

definition options_ok :: "builds \<Rightarrow> globals \<Rightarrow> bool" where
  "options_ok built g \<longleftrightarrow> built (g_CURRENT_ARCH g) \<and> g_N_TILE g = of_nat (tiles (g_CURRENT_ARCH g)) \<and>
     g_N_CORES g \<in> {1..256} \<and> g_N_CL_BANKS g \<in> {16, 32, 64} \<and> g_N_SHR_CACHE_BANKS g \<in> {16, 32, 64} \<and>
     g_CL_ICACHE_SIZE g \<in> {1024, 2048, 4096, 8192, 16384} \<and> g_CRU_DEPTH g \<in> {1, 2, 4, 8, 16} \<and>
     g_DRAM_MC_PORTS g \<in> {1, 2, 4} \<and> (g_NSIMCYCLES g = -1 \<or> 1 \<le> g_NSIMCYCLES g)"

lemma take_number_Inr:
  assumes "take_number ok set_to arg = Inr g'" "\<And>v. ok v \<Longrightarrow> P (set_to v)"
  shows "P g'"
  using assms by (auto simp: take_number_def split: if_splits)

lemma options_ok_frame [simp]:
  "options_ok built (g\<lparr>g_STATS := b\<rparr>) = options_ok built g" "options_ok built (g\<lparr>g_VCD := b\<rparr>) = options_ok built g"
  "options_ok built (g\<lparr>g_POWERSTATS := b, g_PTRACEFILENAME := s\<rparr>) = options_ok built g"
  "options_ok built (g\<lparr>g_DMA := b\<rparr>) = options_ok built g" "options_ok built (g\<lparr>g_DRAM := b\<rparr>) = options_ok built g"
  "options_ok built (g\<lparr>g_AUTOSTARTMEASURING := b\<rparr>) = options_ok built g"
  "options_ok built (g\<lparr>g_TRACE_ISS := b\<rparr>) = options_ok built g" "options_ok built (g\<lparr>g_CL_ICACHE_PRIV := b\<rparr>) = options_ok built g"
  "options_ok built (g\<lparr>g_MEM_IN_WS := v\<rparr>) = options_ok built g" "options_ok built (g\<lparr>g_MEM_BB_WS := v\<rparr>) = options_ok built g"
  "options_ok built (g\<lparr>g_N_CORES_TILE := v\<rparr>) = options_ok built g" "options_ok built (g\<lparr>g_STATSFILENAME := s\<rparr>) = options_ok built g"
  by (simp_all add: options_ok_def)

lemma options_ok_set:
  assumes "options_ok built g"
  shows "v \<in> {16, 32, 64} \<Longrightarrow> options_ok built (g\<lparr>g_N_CL_BANKS := v\<rparr>)"
    and "v \<in> {16, 32, 64} \<Longrightarrow> options_ok built (g\<lparr>g_N_SHR_CACHE_BANKS := v\<rparr>)"
    and "v \<in> {1, 2, 4, 8, 16} \<Longrightarrow> options_ok built (g\<lparr>g_CL_ICACHE_SIZE := v * 1024\<rparr>)"
    and "v \<in> {1, 2, 4, 8, 16} \<Longrightarrow> options_ok built (g\<lparr>g_ENABLE_CRU := True, g_CRU_DEPTH := v\<rparr>)"
    and "v \<in> {1, 2, 4} \<Longrightarrow> options_ok built (g\<lparr>g_DRAM_MC_PORTS := v\<rparr>)"
    and "v \<in> {1..256} \<Longrightarrow> options_ok built (g\<lparr>g_N_CORES := v\<rparr>)"
    and "1 \<le> k \<Longrightarrow> options_ok built (g\<lparr>g_NSIMCYCLES := k\<rparr>)"
    and "built a \<Longrightarrow> options_ok built (g\<lparr>g_CURRENT_ARCH := a, g_N_TILE := of_nat (tiles a)\<rparr>)"
proof -
  note ok = assms [unfolded options_ok_def]
  show "v \<in> {16, 32, 64} \<Longrightarrow> options_ok built (g\<lparr>g_N_CL_BANKS := v\<rparr>)" using ok by (simp add: options_ok_def)
  show "v \<in> {16, 32, 64} \<Longrightarrow> options_ok built (g\<lparr>g_N_SHR_CACHE_BANKS := v\<rparr>)" using ok by (simp add: options_ok_def)
  have "v * 1024 \<in> {1024, 2048, 4096, 8192, 16384}" if "v \<in> {1, 2, 4, 8, 16}" for v :: u16
    using that by (elim insertE emptyE) simp_all
  then show "v \<in> {1, 2, 4, 8, 16} \<Longrightarrow> options_ok built (g\<lparr>g_CL_ICACHE_SIZE := v * 1024\<rparr>)"
    using ok by (simp add: options_ok_def)
  show "v \<in> {1, 2, 4, 8, 16} \<Longrightarrow> options_ok built (g\<lparr>g_ENABLE_CRU := True, g_CRU_DEPTH := v\<rparr>)"
    using ok by (simp add: options_ok_def)
  show "v \<in> {1, 2, 4} \<Longrightarrow> options_ok built (g\<lparr>g_DRAM_MC_PORTS := v\<rparr>)" using ok by (simp add: options_ok_def)
  show "v \<in> {1..256} \<Longrightarrow> options_ok built (g\<lparr>g_N_CORES := v\<rparr>)" using ok by (simp add: options_ok_def)
  show "1 \<le> k \<Longrightarrow> options_ok built (g\<lparr>g_NSIMCYCLES := k\<rparr>)" using ok by (simp add: options_ok_def)
  show "built a \<Longrightarrow> options_ok built (g\<lparr>g_CURRENT_ARCH := a, g_N_TILE := of_nat (tiles a)\<rparr>)"
    using ok by (simp add: options_ok_def)
qed

lemma set_intc_ok:
  assumes "options_ok built g" "set_intc built arg g = Inr g'"
  shows "options_ok built g'"
proof -
  obtain a where "built a" "g' = g\<lparr>g_CURRENT_ARCH := a, g_N_TILE := of_nat (tiles a)\<rparr>"
    using assms(2) by (simp add: set_intc_def split: if_split_asm)
  then show ?thesis using options_ok_set(8) [OF assms(1)] by simp
qed

lemma set_ic_ok: "options_ok built g \<Longrightarrow> set_ic arg g = Inr g' \<Longrightarrow> options_ok built g'"
  by (simp add: set_ic_def split: if_split_asm) (metis options_ok_frame(8))+

lemma long_option_ok:
  assumes ok: "options_ok built g" and step: "long_option built n arg g = Inr g'"
  shows "options_ok built g'"
proof -
  note number = take_number_Inr [where P = "options_ok built"]
  note set = options_ok_set [OF ok]
  have tile: "options_ok built (g\<lparr>g_N_CORES_TILE := v\<rparr>)" for v using ok by simp
  from step show ?thesis unfolding long_option_def
    by (simp only: split: if_split_asm)
      (use ok in \<open>auto elim: number intro: set tile set_intc_ok set_ic_ok simp del: insert_iff\<close>)
qed

lemma short_option_ok:
  assumes ok: "options_ok built g" and step: "short_option c arg g = Inr g'"
  shows "options_ok built g'"
proof -
  note number = take_number_Inr [where P = "options_ok built"]
  note set = options_ok_set(7) [OF ok]
  have cores: "options_ok built (g\<lparr>g_N_CORES := v\<rparr>)" if "v \<noteq> 0 \<and> v \<le> 256" for v
  proof (rule options_ok_set(6) [OF ok])
    have "\<not> v < 1" using that by simp
    then show "v \<in> {1..256}" using that by (simp only: not_less atLeastAtMost_iff simp_thms)
  qed
  from step show ?thesis unfolding short_option_def
    by (simp only: split: if_split_asm)
      (use ok in \<open>auto elim: number intro: set cores simp: not_less simp del: insert_iff split: if_split_asm\<close>)
qed

lemma parse_option_ok: "options_ok built g \<Longrightarrow> parse_option built opt g = Inr g' \<Longrightarrow> options_ok built g'"
  by (cases "(built, opt, g)" rule: parse_option.cases) (auto intro: long_option_ok short_option_ok)

text \<open>Every failure is the fatal error of the option or a number that \<open>atoi\<close> does not define.\<close>

lemma atoi_fails: "atoi s = Inl e \<Longrightarrow> e = FUndef"
  by (simp add: atoi_def Let_def split: if_split_asm)

lemma take_number_fails:
  "take_number ok set_to arg = Inl e \<Longrightarrow> e = FExit 1 \<or> e = FUndef \<and> atoi arg = Inl FUndef"
  by (auto simp: take_number_def atoi16_def res_bind_eq_Inl dest: atoi_fails split: if_split_asm)

lemma set_intc_fails: "set_intc built arg g = Inl e \<Longrightarrow> e = FExit 1"
  by (simp add: set_intc_def split: if_split_asm)

lemma long_option_fails:
  assumes "long_option built n arg g = Inl e"
  shows "e = FExit 1 \<or> e = FUndef \<and> atoi arg = Inl FUndef"
  using assms unfolding long_option_def
  by (simp only: split: if_split_asm)
    (auto dest: take_number_fails set_intc_fails simp: set_ic_def split: if_split_asm)

lemma short_option_fails:
  assumes "short_option c arg g = Inl e"
  shows "e = FExit 1 \<or> e = FUndef \<and> atoi arg = Inl FUndef"
  using assms unfolding short_option_def
  by (simp only: split: if_split_asm)
    (auto dest: take_number_fails atoi_fails simp: res_bind_eq_Inl split: if_split_asm)

lemma parse_option_fails:
  "parse_option built opt g = Inl e \<Longrightarrow> e = FExit 1 \<or> e = FUndef \<and> atoi (snd opt) = Inl FUndef"
  by (cases "(built, opt, g)" rule: parse_option.cases) (auto dest: long_option_fails short_option_fails)

lemma each_fails: "each f xs s = Inl e \<Longrightarrow> \<exists>x\<in>set xs. \<exists>t. f x t = Inl e"
  by (induction xs arbitrary: s) (auto simp: res_bind_eq_Inl)

section \<open>The outcome of a command line\<close>

text \<open>What holds of the numbers the parser computes.\<close>

definition numbers_ok :: "globals \<Rightarrow> bool" where
  "numbers_ok g \<longleftrightarrow> unat (g_N_MASTERS g) = (if g_DMA g then 2 else 1) * unat (g_N_CORES g) \<and>
     unat (g_N_MEMORIES g) = tiles (g_CURRENT_ARCH g) * (unat (g_N_CL_BANKS g) + 1) \<and>
     unat (g_N_SLAVES g) = tiles (g_CURRENT_ARCH g) * (unat (g_N_CL_BANKS g) + 2)"

definition metrics_ok :: "globals \<Rightarrow> bool" where
  "metrics_ok g \<longleftrightarrow> g_N_CORES_TILE g = g_N_CORES g \<and>
     g_CL_CORE_METRICS g = replicate (unat (g_N_CORES g)) False \<and>
     length (g_CL_CACHE_METRICS g) = unat (if g_CL_ICACHE_PRIV g then g_N_CORES g else g_N_SHR_CACHE_BANKS g)"

lemma set_numbers_ok:
  assumes "options_ok built g"
  shows "options_ok built (set_numbers g) \<and> numbers_ok (set_numbers g)"
proof -
  have cores: "unat (g_N_CORES g) \<le> 256" using assms by (simp add: options_ok_def word_le_unat)
  have banks: "unat (g_N_CL_BANKS g) \<in> {16, 32, 64}"
    using assms unfolding options_ok_def by (elim conjE insertE emptyE) simp_all
  have tiles: "tiles (g_CURRENT_ARCH g) \<le> 16" by (cases "g_CURRENT_ARCH g") simp_all
  have tile: "unat (g_N_TILE g) = tiles (g_CURRENT_ARCH g)"
    using assms tiles by (simp add: options_ok_def unat_of_nat)
  have mult: "unat (a * b) = unat a * unat b" if "unat a * unat b < 65536" for a b :: u16
    using that by (simp add: unat_word_ariths)
  have b1: "unat (g_N_CL_BANKS g + 1) = unat (g_N_CL_BANKS g) + 1" "unat (g_N_CL_BANKS g + 2) = unat (g_N_CL_BANKS g) + 2"
    using banks by (auto simp: unat_word_ariths)
  have lt: "tiles (g_CURRENT_ARCH g) * (unat (g_N_CL_BANKS g) + k) < 65536" if "k \<le> 2" for k
  proof -
    have "tiles (g_CURRENT_ARCH g) * (unat (g_N_CL_BANKS g) + k) \<le> 16 * 66"
      using tiles banks that by (intro mult_le_mono) auto
    then show ?thesis by simp
  qed
  have "options_ok built (set_numbers g)" using assms by (simp add: options_ok_def set_numbers_def)
  moreover have "numbers_ok (set_numbers g)"
    using cores lt [of 1] lt [of 2] by (simp add: numbers_ok_def set_numbers_def mult tile b1 add.assoc mult.commute)
  ultimately show ?thesis by blast
qed


text \<open>The command line with which the repository runs its test of the accelerator.\<close>

definition test_options :: "opt list" where
  "test_options = [(Long 307, ''32''), (Short CHR ''c'', ''2''), (Long 302, ''c''), (Long 308, ''16'')]"

lemma cmake_globals_ok: "options_ok CLUSTERBUILD cmake_globals"
  by (simp add: options_ok_def cmake_globals_def CLUSTERBUILD_def)


lemma test_command_line:
  "\<exists>g. parseArgs CLUSTERBUILD test_options [] cmake_globals = Inr g \<and> g_N_CORES g = 2 \<and> g_N_CORES_TILE g = 2 \<and>
     g_N_CL_BANKS g = 32 \<and> g_CL_ICACHE_SIZE g = 16384 \<and> g_N_MEMORIES g = 33"
  by (simp add: parseArgs_def test_options_def long_option_def short_option_def take_number_def atoi16_def atoi_def
      set_intc_def arg_char_def isspace_def in_s32_def cmake_globals_def CLUSTERBUILD_def set_numbers_def cluster_metrics_def Let_def)

text \<open>The number of cores is tested after it was cut to 16 bits: 65538 cores are accepted as 2.\<close>

lemma cores_cut_to_16_bits:
  "short_option CHR ''c'' ''65538'' g = Inr (g\<lparr>g_N_CORES := 2\<rparr>)"
  by (simp add: short_option_def take_number_def atoi16_def atoi_def isspace_def in_s32_def Let_def)

text \<open>No build accepts \<open>--core\<close>, although its one value names the simulator that is always used.\<close>

lemma core_option_refused: "long_option built 301 arg g = Inl (FExit 1)"
  by (simp add: long_option_def HAVE_ARMv6_def)

text \<open>\<open>-n -1\<close>, which the help gives for an endless simulation, is refused.\<close>

lemma endless_refused: "short_option CHR ''n'' ''-1'' g = Inl (FExit 1)"
  by (simp add: short_option_def atoi_def isspace_def in_s32_def Let_def)

end
