(* ===== verification/Platform.thy ===== *)
theory Platform
  imports Tcdm Command_Line
begin

text \<open>
  From the command line to a platform whose memories hold the program: the loaders of
  \<open>virtualsoc/src/core/mem_class.cpp\<close>, the constructor of \<open>Ext_mem\<close> (\<open>core/ext_mem.h\<close>), the part of the constructors
  of \<open>cl_platform_prv\<close> and \<open>cl_platform_shr\<close> that builds and fills the memories, and the choice of the platform in
  \<open>core/main.cpp\<close>. The files of the host are a parameter: a name gives the bytes of the file, or nothing
  where it cannot be opened.
\<close>

type_synonym files = "string \<Rightarrow> u8 list option"

section \<open>The loaders\<close>

text \<open>\<open>read(fd, myMemory + d, n)\<close> with the file at position \<open>pos\<close>: it copies what the file has of the \<open>n\<close>
  bytes; beyond the end of the array that is undefined.\<close>

definition read_file :: "u8 list \<Rightarrow> nat \<Rightarrow> nat \<Rightarrow> nat \<Rightarrow> mem_class \<Rightarrow> mem_class res" where
  "read_file bytes pos n d m =
     (let k = min n (length bytes - pos) in
      if unat (mem_size m) < d + k \<and> 0 < k then Inl FUndef
      else Inr (m\<lparr>mem_bytes := (\<lambda>j. if d \<le> j \<and> j < d + k then bytes ! (pos + (j - d)) else mem_bytes m j)\<rparr>))"

definition EXIT_SUCCESS :: nat where "EXIT_SUCCESS = 0"
definition EXIT_FAILURE :: nat where "EXIT_FAILURE = 1"

text \<open>Both loaders return their exit status with the memory. A null pointer for the name is \<open>None\<close>.\<close>

definition load_program :: "files \<Rightarrow> string option \<Rightarrow> mem_class \<Rightarrow> (nat \<times> mem_class) res" where
  "load_program files image_filename m =
     (case image_filename of None \<Rightarrow> Inr (EXIT_FAILURE, m)
      | Some f \<Rightarrow> (case files f of None \<Rightarrow> Inr (EXIT_FAILURE, m)
          | Some bytes \<Rightarrow> res_map (Pair EXIT_SUCCESS) (read_file bytes 0 (unat CL_L3_SIZE) 0 m)))"

text \<open>The integer part of \<open>log2\<close>, for a number of banks.\<close>

fun ilog2 :: "nat \<Rightarrow> nat" where
  "ilog2 n = (if n < 2 then 0 else Suc (ilog2 (n div 2)))"

declare ilog2.simps [simp del]

definition load_tcdm_init_data ::
    "files \<Rightarrow> u16 \<Rightarrow> string option \<Rightarrow> nat \<Rightarrow> u32 \<Rightarrow> u32 \<Rightarrow> mem_class \<Rightarrow> (nat \<times> mem_class) res" where
  "load_tcdm_init_data files n_banks image_filename i start_addr offset m =
     (case image_filename of None \<Rightarrow> Inr (EXIT_FAILURE, m)
      | Some f \<Rightarrow> (case files f of None \<Rightarrow> Inr (EXIT_FAILURE, m)
          | Some bytes \<Rightarrow>
              if length bytes \<le> unat start_addr then Inr (EXIT_FAILURE, m)
              else res_bind (require (in_s32 (int i * sint CL_WORD)) FUndef) (\<lambda>_. res_map (Pair EXIT_SUCCESS)
                (read_file bytes (unat (start_addr + offset + of_nat i * CL_WORD)) (unat CL_WORD)
                  (unat (get_local_bank_addr (offset + of_nat i * CL_WORD) (ilog2 (unat n_banks) + 2))) m))))"

section \<open>The external memory\<close>

fun dec_digits :: "nat \<Rightarrow> string" where
  "dec_digits n = (if n < 10 then [char_of (48 + n)] else dec_digits (n div 10) @ [char_of (48 + n mod 10)])"

definition Ext_mem :: "files \<Rightarrow> u16 \<Rightarrow> u32 \<Rightarrow> mem_class res" where
  "Ext_mem files mem_id sz =
     (let image_filename = ''TargetMem_'' @ dec_digits (unat mem_id + 1) @ ''.mem'' in
      res_bind (load_program files (Some image_filename) (new_mem sz)) (\<lambda>(status, m).
      if status \<noteq> 0 then Inl (FExit 1) else Inr m))"

section \<open>The memories of a platform\<close>

record platform =
  p_tcdm :: tcdm
  p_L3 :: mem_class

definition prog :: string where "prog = ''TargetMem_1.mem''"

text \<open>\<open>tcdm_words\<close>: the quotient of C is cut towards zero and stored in an \<open>int\<close>.\<close>

definition tcdm_words :: "nat \<Rightarrow> int" where
  "tcdm_words st_size =
     (let d = int st_size - uint CL_TCDM_BASE - uint CL_LOCAL_SHARED_OFFSET in
      signed_take_bit 31 (if d < 0 then - (- d div 4) else d div 4))"

text \<open>How often the loop runs: with a signed index on the platform with private caches, with an unsigned one, to
  which the bound is converted, on the platform with a shared cache.\<close>

definition prv_rounds :: "int \<Rightarrow> nat" where
  "prv_rounds words = nat words"

definition shr_rounds :: "int \<Rightarrow> nat" where
  "shr_rounds words = unat (word_of_int words :: u32)"

definition load_round :: "files \<Rightarrow> u16 \<Rightarrow> nat \<Rightarrow> nat \<times> tcdm \<Rightarrow> (nat \<times> tcdm) res" where
  "load_round files n_banks i = (\<lambda>(bc, t).
     res_map (\<lambda>(_, m). ((bc + 1) mod unat n_banks, t(bc := (t bc)\<lparr>target_mem := m\<rparr>)))
       (load_tcdm_init_data files n_banks (Some prog) i CL_TCDM_BASE CL_LOCAL_SHARED_OFFSET (target_mem (t bc))))"

definition load_tcdm :: "files \<Rightarrow> (int \<Rightarrow> nat) \<Rightarrow> u16 \<Rightarrow> tcdm \<Rightarrow> tcdm res" where
  "load_tcdm files rounds n_banks t =
     (case files prog of None \<Rightarrow> Inl (FExit EXIT_FAILURE)
      | Some bytes \<Rightarrow>
          if length bytes \<le> unat CL_TCDM_BASE then Inr t
          else res_map snd (each (load_round files n_banks) [0..<rounds (tcdm_words (length bytes))] (0, t)))"

text \<open>Both platforms build the banks, load them, and build the external memory, which is the DRAM or an SRAM
  that takes one port; \<open>assert\<close> aborts the simulator.\<close>

definition build_memories :: "files \<Rightarrow> (int \<Rightarrow> nat) \<Rightarrow> globals \<Rightarrow> platform res" where
  "build_memories files rounds g =
     res_bind (load_tcdm files rounds (g_N_CL_BANKS g)
         (sh_tcdm (ilog2 (unat (g_N_CL_BANKS g))) (CL_TCDM_SIZE div ucast (g_N_CL_BANKS g)))) (\<lambda>t.
     res_bind (if g_DRAM g then Inr () else require (g_DRAM_MC_PORTS g = 1) FAbort) (\<lambda>_.
     res_map (\<lambda>m. \<lparr>p_tcdm = t, p_L3 = m\<rparr>) (Ext_mem files 0 CL_L3_SIZE)))"

definition cl_platform_prv :: "files \<Rightarrow> globals \<Rightarrow> platform res" where
  "cl_platform_prv files g = build_memories files prv_rounds g"

definition cl_platform_shr :: "files \<Rightarrow> globals \<Rightarrow> platform res" where
  "cl_platform_shr files g = build_memories files shr_rounds g"

text \<open>\<open>sc_main\<close> up to the platform, in the build with \<open>CLUSTERBUILD\<close>.\<close>

definition start_up :: "files \<Rightarrow> opt list \<Rightarrow> string list \<Rightarrow> globals \<Rightarrow> (globals \<times> platform) res" where
  "start_up files opts operands g0 =
     res_bind (parseArgs CLUSTERBUILD opts operands g0) (\<lambda>g.
     if g_CURRENT_ARCH g = SINGLE_CLUSTER
     then res_map (Pair g) (if g_CL_ICACHE_PRIV g then cl_platform_prv files g else cl_platform_shr files g)
     else Inl (FExit 1))"

section \<open>One round is a write to the shared memory\<close>

text \<open>The word of the image at an address; what is behind its end counts as zero.\<close>

definition image_word :: "u8 list \<Rightarrow> nat \<Rightarrow> u32" where
  "image_word bytes x = word_at (\<lambda>j. if j < length bytes then bytes ! j else 0) x"

lemma ilog2_2_power [simp]: "ilog2 (2 ^ b) = b"
proof (induction b)
  case 0
  show ?case by (subst ilog2.simps) simp
next
  case (Suc b)
  then show ?case by (subst ilog2.simps) simp
qed

lemma ucast_drop_word_at:
  "ucast (word_at f p) = f p" "ucast (drop_bit 8 (word_at f p)) = f (p + 1)"
  "ucast (drop_bit 16 (word_at f p)) = f (p + 2)" "ucast (drop_bit 24 (word_at f p)) = f (p + 3)"
  unfolding word_at_def by (rule bit_word_eqI; auto simp: bit_simps dest: bit_imp_le_length)+

lemma store_word_at:
  "store_word d (word_at f p) bs = (\<lambda>j. if d \<le> j \<and> j < d + 4 then f (p + (j - d)) else bs j)"
proof
  fix j
  consider "j < d \<or> d + 4 \<le> j" | "j = d" | "j = d + 1" | "j = d + 2" | "j = d + 3" by linarith
  then show "store_word d (word_at f p) bs j = (if d \<le> j \<and> j < d + 4 then f (p + (j - d)) else bs j)"
    by cases (auto simp: store_word_def ucast_drop_word_at)
qed

text \<open>Reading a whole word of the image into an aligned word of a memory.\<close>

lemma read_file_word:
  assumes "pos + 4 \<le> length bytes" "4 dvd unat d" "word_ok m d"
  shows "read_file bytes pos 4 (unat d) m = Inr (set_word m d (image_word bytes pos))"
proof -
  have d: "4 * (unat d div 4) = unat d" using assms(2) by simp
  have k: "min 4 (length bytes - pos) = 4" using assms(1) by simp
  have size: "\<not> unat (mem_size m) < unat d + 4" using assms(3) by (simp add: word_ok_def d)
  have "(\<lambda>j. if unat d \<le> j \<and> j < unat d + 4 then bytes ! (pos + (j - unat d)) else mem_bytes m j) =
      store_word (unat d) (image_word bytes pos) (mem_bytes m)"
    using assms(1) by (auto simp: image_word_def store_word_at fun_eq_iff)
  then show ?thesis by (simp add: read_file_def k size set_word_def d)
qed

lemma read_file_nothing: "length bytes \<le> pos \<Longrightarrow> read_file bytes pos n d m = Inr m"
proof -
  assume "length bytes \<le> pos"
  moreover have "(\<lambda>j. if d \<le> j \<and> j < d then bytes ! (pos + (j - d)) else mem_bytes m j) = mem_bytes m"
    by (auto simp: fun_eq_iff)
  ultimately show ?thesis by (simp add: read_file_def)
qed

text \<open>The address the \<open>i\<close>-th word of the segment has, and the bank it is in.\<close>

definition segment_addr :: "nat \<Rightarrow> addr" where
  "segment_addr i = CL_TCDM_BASE + CL_LOCAL_SHARED_OFFSET + of_nat i * CL_WORD"

lemma unat_segment_addr: "i < 0x8000 \<Longrightarrow> unat (segment_addr i) = 0x08060000 + 4 * i"
  by (simp add: segment_addr_def address_simps unat_word_ariths unat_of_nat)

lemma bank_of_segment:
  assumes "b \<le> 15" "i < 0x8000"
  shows "bank_of b (segment_addr i) = i mod 2 ^ b"
proof -
  have "(2 :: nat) ^ b dvd 2 ^ 15" using assms(1) by (rule le_imp_power_dvd)
  then have "(2 :: nat) ^ b dvd 2 ^ 15 * 1027" by (rule dvd_mult2)
  then obtain q where "0x02018000 = (2 :: nat) ^ b * q" by (auto elim: dvdE)
  then have "(0x02018000 + i) mod 2 ^ b = i mod 2 ^ b" by (metis mod_mult_self4)
  moreover have "(0x08060000 + 4 * i) div 4 = 0x02018000 + i" by simp
  ultimately show ?thesis using assms(2) by (simp add: bank_of_def CL_WORD_def unat_div unat_segment_addr)
qed

lemma dvd_push_bit: "4 dvd unat (push_bit 2 (y :: u32))"
  unfolding unsigned_push_bit_eq by (simp add: push_bit_eq_mult take_bit_eq_mod dvd_mod)

text \<open>One round of the loader writes the word of the image to its address in the shared memory.\<close>

lemma load_round_writes:
  assumes "b \<le> 15" "unat n_banks = 2 ^ b" "files prog = Some bytes" "i < 0x8000"
    and image: "0x08060000 + 4 * i + 4 \<le> length bytes" and ok: "tcdm_ok b t (segment_addr i)"
  shows "load_round files n_banks i (i mod 2 ^ b, t) =
    res_map (Pair (Suc i mod 2 ^ b)) (tcdm_wr b t (segment_addr i) (image_word bytes (0x08060000 + 4 * i)))"
proof -
  let ?c = "t (i mod 2 ^ b)" and ?x = "CL_LOCAL_SHARED_OFFSET + of_nat i * CL_WORD"
  have bank: "bank_of b (segment_addr i) = i mod 2 ^ b" using bank_of_segment assms(1,4) .
  have c: "\<not> is_private ?c" "START_ADDRESS ?c = CL_TCDM_BASE" "n_bit_shift ?c = b + 2" "clm_ok ?c (segment_addr i)"
    using ok by (simp_all add: tcdm_ok_def Let_def bank)
  let ?d = "get_local_bank_addr ?x (b + 2)"
  have addr: "clm_addressing ?c (segment_addr i) = ?d"
    using c(1-3) by (simp add: clm_addressing_def segment_addr_def)
  have x: "unat ?x = 0x60000 + 4 * i" using assms(4)
    by (simp add: address_simps unat_word_ariths unat_of_nat)
  have "4 dvd unat ?d"
  proof -
    have "?x mod CL_WORD = 0"
    proof -
      have "unat (?x mod CL_WORD) = (0x60000 + 4 * i) mod 4" by (simp only: unat_mod x) (simp add: CL_WORD_def)
      then have "unat (?x mod CL_WORD) = 0" by (simp add: mod_add_eq [symmetric])
      then show ?thesis by (simp add: unat_eq_0)
    qed
    then have "?d = push_bit 2 (drop_bit (b + 2) ?x)" by (simp add: get_local_bank_addr_def CL_WORD_def push_bit_eq_mult)
    then show ?thesis by (simp only: dvd_push_bit)
  qed
  moreover have "word_ok (target_mem ?c) ?d" using c(4) by (simp add: clm_ok_def addr)
  moreover have "unat (CL_TCDM_BASE + CL_LOCAL_SHARED_OFFSET + of_nat i * CL_WORD) = 0x08060000 + 4 * i"
    using unat_segment_addr [OF assms(4)] by (simp add: segment_addr_def)
  ultimately have "load_tcdm_init_data files n_banks (Some prog) i CL_TCDM_BASE CL_LOCAL_SHARED_OFFSET (target_mem ?c) =
      Inr (EXIT_SUCCESS, set_word (target_mem ?c) ?d (image_word bytes (0x08060000 + 4 * i)))"
    using assms(2-4) image read_file_word [of "0x08060000 + 4 * i" bytes ?d "target_mem ?c"]
    by (simp add: load_tcdm_init_data_def in_s32_def CL_WORD_def CL_TCDM_BASE_def)
  then show ?thesis
    using clm_word_access(2) [OF c(4)] assms(2) by (simp add: load_round_def tcdm_wr_def bank addr mod_Suc_eq)
qed

definition segment :: "u8 list \<Rightarrow> nat \<Rightarrow> (addr \<times> u32) list" where
  "segment bytes n = map (\<lambda>i. (segment_addr i, image_word bytes (0x08060000 + 4 * i))) [0..<n]"

text \<open>All rounds together write the segment.\<close>

lemma load_rounds_write:
  assumes "b \<le> 15" "unat n_banks = 2 ^ b" "files prog = Some bytes" "n \<le> 0x8000"
    and "0x08060000 + 4 * n \<le> length bytes" "\<forall>i<n. tcdm_ok b t (segment_addr i)"
  shows "each (load_round files n_banks) [0..<n] (0, t) =
    res_map (Pair (n mod 2 ^ b)) (write_block (tcdm_wr b) t (segment bytes n))"
  using assms(4-6)
proof (induction n)
  case (Suc n)
  have "\<forall>a \<in> set (map fst (segment bytes n)). tcdm_ok b t a" using Suc.prems(3) by (auto simp: segment_def)
  then obtain t' where t': "write_block (tcdm_wr b) t (segment bytes n) = Inr t'" "tcdm_ok b t' = tcdm_ok b t"
    using tcdm.block_write [of "segment bytes n" b t] by auto
  have "load_round files n_banks n (n mod 2 ^ b, t') =
      res_map (Pair (Suc n mod 2 ^ b)) (tcdm_wr b t' (segment_addr n) (image_word bytes (0x08060000 + 4 * n)))"
    using load_round_writes [where files = files, OF assms(1-3), of n t'] Suc.prems t'(2) by simp
  moreover have "each (load_round files n_banks) [0..<n] (0, t) = Inr (n mod 2 ^ b, t')"
    using Suc.IH Suc.prems t'(1) by simp
  moreover have "segment bytes (Suc n) = segment bytes n @ [(segment_addr n, image_word bytes (0x08060000 + 4 * n))]"
    by (simp add: segment_def)
  ultimately show ?case
    by (cases "tcdm_wr b t' (segment_addr n) (image_word bytes (0x08060000 + 4 * n))")
      (simp_all add: each_append write_block_append t'(1))
qed (simp add: segment_def)

text \<open>What the banks hold when the loader is done.\<close>

lemma segment_loaded:
  assumes "b \<le> 15" "unat n_banks = 2 ^ b" "files prog = Some bytes" "n \<le> 0x8000"
    and "0x08060000 + 4 * n \<le> length bytes" "\<forall>a. IsInTcdmSpace a 0 \<longrightarrow> tcdm_ok b t a \<and> tcdm_rd b t a = Inr 0"
  shows "\<exists>t'. each (load_round files n_banks) [0..<n] (0, t) = Inr (n mod 2 ^ b, t') \<and>
    (\<forall>a. IsInTcdmSpace a 0 \<longrightarrow> tcdm_rd b t' a =
      Inr (if 0x08060000 \<le> unat a \<and> unat a < 0x08060000 + 4 * n then image_word bytes (4 * (unat a div 4)) else 0))"
proof -
  have seg: "IsInTcdmSpace (segment_addr i) 0" if "i < n" for i
    using unat_segment_addr [of i] that assms(4)
    by (simp add: IsInTcdmSpace_def tile_base_def address_simps word_le_unat word_less_unat)
  have slot: "unat (segment_addr i) div 4 = 0x02018000 + i" if "i < n" for i
    using unat_segment_addr [of i] that assms(4) by simp
  have ok: "\<forall>a \<in> set (map fst (segment bytes n)). tcdm_ok b t a" using seg assms(6) by (auto simp: segment_def)
  then obtain t' where t': "write_block (tcdm_wr b) t (segment bytes n) = Inr t'"
    "\<forall>a. tcdm_ok b t a \<longrightarrow> unat a div 4 \<notin> (\<lambda>a. unat a div 4) ` fst ` set (segment bytes n) \<longrightarrow>
      tcdm_rd b t' a = tcdm_rd b t a"
    using tcdm.block_write [OF ok] by auto
  have dist: "distinct (map ((\<lambda>a. unat a div 4) \<circ> fst) (segment bytes n))"
    by (auto simp: segment_def distinct_map inj_on_def slot)
  have "tcdm_rd b t' a = Inr (if 0x08060000 \<le> unat a \<and> unat a < 0x08060000 + 4 * n
      then image_word bytes (4 * (unat a div 4)) else 0)" if a: "IsInTcdmSpace a 0" for a
  proof (cases "0x08060000 \<le> unat a \<and> unat a < 0x08060000 + 4 * n")
    case True
    let ?i = "(unat a - 0x08060000) div 4"
    have i: "?i < n" "unat a div 4 = 0x02018000 + ?i" using True by linarith+
    then have "(segment_addr ?i, image_word bytes (4 * (unat a div 4))) \<in> set (segment bytes n)"
      by (simp add: segment_def image_iff) (rule bexI [of _ ?i], simp_all)
    then show ?thesis
      using tcdm.block_holds [OF dist ok t'(1)] slot [OF i(1)] i(2) a assms(6) True by simp
  next
    case False
    have "unat a div 4 \<noteq> unat (segment_addr i) div 4" if "i < n" for i
      using False that unfolding slot [OF that] by linarith
    then have "unat a div 4 \<notin> (\<lambda>a. unat a div 4) ` fst ` set (segment bytes n)"
      by (force simp: segment_def)
    then show ?thesis unfolding if_not_P [OF False] using t'(2) a assms(6) by simp
  qed
  moreover have "\<forall>i<n. tcdm_ok b t (segment_addr i)" using seg assms(6) by blast
  ultimately show ?thesis using load_rounds_write [where files = files, OF assms(1-5)] t'(1) by auto
qed

section \<open>The memories of a platform hold the image\<close>

lemma tcdm_words_eq:
  assumes "n < 0x08080004"
  shows "tcdm_words n = (if n < 0x08060000 then - (int (0x08060000 - n) div 4) else int ((n - 0x08060000) div 4))"
proof -
  let ?d = "int n - 134610944"
  have "signed_take_bit 31 k = k" if "- 2147483648 \<le> k" "k < 2147483648" for k :: int
    using that by (intro signed_take_s32) (simp add: in_s32_def)
  moreover have "- 2147483648 \<le> - (- ?d div 4)" "- (- ?d div 4) < 2147483648" if "?d < 0" using that by linarith+
  moreover have "- 2147483648 \<le> ?d div 4" "?d div 4 < 2147483648" if "\<not> ?d < 0" using that assms by linarith+
  moreover have "int (n - 0x08060000) = ?d" if "\<not> ?d < 0" using that by simp
  moreover have "int (0x08060000 - n) = - ?d" if "?d < 0" using that by simp
  ultimately show ?thesis
    by (simp add: tcdm_words_def address_simps Let_def zdiv_int)
qed

lemma prv_rounds_eq: "n < 0x08080004 \<Longrightarrow> prv_rounds (tcdm_words n) = (n - 0x08060000) div 4"
  by (simp add: prv_rounds_def tcdm_words_eq)

lemma shr_rounds_eq:
  assumes "0x0805FFFD \<le> n" "n < 0x08080004"
  shows "shr_rounds (tcdm_words n) = (n - 0x08060000) div 4"
proof (cases "n < 0x08060000")
  case True
  then have "int (0x08060000 - n) div 4 = 0" using assms(1) by simp
  then show ?thesis using True assms(2) by (simp add: shr_rounds_def tcdm_words_eq)
next
  case False
  have "(n - 0x08060000) div 4 < 4294967296" using assms(2) by linarith
  then have "unat (word_of_int (int ((n - 0x08060000) div 4)) :: u32) = (n - 0x08060000) div 4"
    by (simp only: of_int_of_nat_eq unat_of_nat32)
  then show ?thesis using False assms(2) by (simp add: shr_rounds_def tcdm_words_eq)
qed

lemma fresh_banks:
  assumes "n_banks \<in> {16, 32, 64 :: u16}"
  obtains b where "unat n_banks = 2 ^ b" "b \<le> 6" "ilog2 (unat n_banks) = b"
    "\<forall>a. IsInTcdmSpace a 0 \<longrightarrow> tcdm_ok b (sh_tcdm b (CL_TCDM_SIZE div ucast n_banks)) a \<and>
      tcdm_rd b (sh_tcdm b (CL_TCDM_SIZE div ucast n_banks)) a = Inr 0"
proof -
  obtain b where b: "unat n_banks = 2 ^ b" "b \<in> {4, 5, 6}"
  proof -
    from assms consider "n_banks = 16" | "n_banks = 32" | "n_banks = 64" by auto
    then show thesis by cases (rule that [of 4] that [of 5] that [of 6]; simp)+
  qed
  let ?size = "CL_TCDM_SIZE div ucast n_banks :: u32"
  have size: "unat ?size * 2 ^ b = unat CL_TCDM_SIZE"
    using b by (auto simp: unat_div unat_ucast_le CL_TCDM_SIZE_def)
  have ok: "tcdm_ok b (sh_tcdm b ?size) a" if "IsInTcdmSpace a 0" for a
    using tcdm_covers [of b a ?size] that size b(2) by auto
  moreover have "tcdm_rd b (sh_tcdm b ?size) a = Inr 0" if "IsInTcdmSpace a 0" for a
  proof -
    have "mem_word (new_mem ?size) x = 0" for x by (simp add: mem_word_def new_mem_def word_at_def)
    then show ?thesis
      using ok [OF that] by (simp add: tcdm_rd_def tcdm_ok_def Let_def clm_word_access) (simp add: sh_tcdm_def)
  qed
  moreover have "b \<le> 6" using b(2) by auto
  ultimately show thesis using that [of b] b(1) by simp
qed

lemma words_below:
  assumes "4 * k + 4 * ((L - 4 * k) div 4) \<le> L" "4 * k \<le> x"
  shows "x < 4 * k + 4 * ((L - 4 * k) div 4) \<longleftrightarrow> 4 * (x div 4) + 4 \<le> (L :: nat)"
proof -
  let ?n = "(L - 4 * k) div 4"
  have "x < 4 * k + 4 * ?n \<longleftrightarrow> x div 4 < k + ?n" by (simp add: div_less_iff_less_mult algebra_simps)
  moreover have "x div 4 < k + ?n \<longleftrightarrow> x div 4 + 1 \<le> k + ?n" by auto
  moreover have "x div 4 + 1 \<le> k + ?n \<longleftrightarrow> 4 * (x div 4) + 4 \<le> L"
  proof -
    have "k + ?n = L div 4" using assms(1) by linarith
    moreover have "x div 4 + 1 \<le> L div 4 \<longleftrightarrow> (x div 4 + 1) * 4 \<le> L" by (rule less_eq_div_iff_mult_less_eq) simp
    ultimately show ?thesis by (simp add: algebra_simps)
  qed
  ultimately show ?thesis by simp
qed

text \<open>The word at an address of the TCDM after the start.\<close>

definition initial_word :: "u8 list \<Rightarrow> addr \<Rightarrow> u32" where
  "initial_word bytes a = (if unat (CL_TCDM_BASE + CL_LOCAL_SHARED_OFFSET) \<le> unat a \<and> 4 * (unat a div 4) + 4 \<le> length bytes
     then image_word bytes (4 * (unat a div 4)) else 0)"

definition holds_image :: "u8 list \<Rightarrow> globals \<Rightarrow> platform \<Rightarrow> bool" where
  "holds_image bytes g p \<longleftrightarrow>
     (\<forall>a. IsInTcdmSpace a 0 \<longrightarrow> tcdm_rd (ilog2 (unat (g_N_CL_BANKS g))) (p_tcdm p) a = Inr (initial_word bytes a)) \<and>
     mem_size (p_L3 p) = CL_L3_SIZE \<and>
     (\<forall>j < unat CL_L3_SIZE. mem_bytes (p_L3 p) j = (if j < length bytes then bytes ! j else 0))"

lemma tcdm_loaded:
  assumes "n_banks \<in> {16, 32, 64 :: u16}" "files prog = Some bytes" "length bytes < 0x08080004"
    and "length bytes \<le> 0x08000000 \<or> rounds (tcdm_words (length bytes)) = (length bytes - 0x08060000) div 4"
  shows "\<exists>t. load_tcdm files rounds n_banks (sh_tcdm (ilog2 (unat n_banks)) (CL_TCDM_SIZE div ucast n_banks)) = Inr t \<and>
    (\<forall>a. IsInTcdmSpace a 0 \<longrightarrow> tcdm_rd (ilog2 (unat n_banks)) t a = Inr (initial_word bytes a))"
proof -
  obtain b where b: "unat n_banks = 2 ^ b" "b \<le> 6" "ilog2 (unat n_banks) = b"
    and fresh: "\<forall>a. IsInTcdmSpace a 0 \<longrightarrow> tcdm_ok b (sh_tcdm b (CL_TCDM_SIZE div ucast n_banks)) a \<and>
      tcdm_rd b (sh_tcdm b (CL_TCDM_SIZE div ucast n_banks)) a = Inr 0"
    using fresh_banks [OF assms(1)] by blast
  show ?thesis
  proof (cases "length bytes \<le> 0x08000000")
    case True
    then have "\<not> (0x08060000 \<le> unat a \<and> 4 * (unat a div 4) + 4 \<le> length bytes)" for a :: addr by linarith
    then have "initial_word bytes a = 0" for a by (auto simp: initial_word_def address_simps)
    then show ?thesis using True fresh assms(2) by (simp add: load_tcdm_def b(3) CL_TCDM_BASE_def)
  next
    case False
    let ?n = "(length bytes - 0x08060000) div 4"
    show ?thesis
    proof (cases "0x08060000 + 4 * ?n \<le> length bytes")
      case True
      have seg: "0x08060000 \<le> unat a \<and> unat a < 0x08060000 + 4 * ?n \<longleftrightarrow>
          0x08060000 \<le> unat a \<and> 4 * (unat a div 4) + 4 \<le> length bytes" for a :: addr
        using True words_below [of "0x02018000" "length bytes" "unat a"] by auto
      have "?n \<le> 0x8000" using assms(3) by linarith
      moreover have "b \<le> 15" using b(2) by simp
      ultimately obtain t where t:
        "each (load_round files n_banks) [0..<?n] (0, sh_tcdm b (CL_TCDM_SIZE div ucast n_banks)) = Inr (?n mod 2 ^ b, t)"
        "\<forall>a. IsInTcdmSpace a 0 \<longrightarrow> tcdm_rd b t a = Inr (if 0x08060000 \<le> unat a \<and> unat a < 0x08060000 + 4 * ?n
           then image_word bytes (4 * (unat a div 4)) else 0)"
        using segment_loaded [where files = files, OF _ b(1) assms(2) _ True fresh] by metis
      have rounds: "rounds (tcdm_words (length bytes)) = ?n" using False assms(4) by simp
      have "load_tcdm files rounds n_banks (sh_tcdm b (CL_TCDM_SIZE div ucast n_banks)) = Inr t"
        using False assms(2) by (simp add: load_tcdm_def CL_TCDM_BASE_def rounds t(1))
      moreover have "initial_word bytes a = (if 0x08060000 \<le> unat a \<and> unat a < 0x08060000 + 4 * ?n
          then image_word bytes (4 * (unat a div 4)) else 0)" for a
        unfolding seg by (simp add: initial_word_def address_simps)
      ultimately show ?thesis using t(2) by (simp add: b(3))
    next
      case short: False
      then have "?n = 0" by linarith
      moreover have "initial_word bytes a = 0" for a using short by (auto simp: initial_word_def address_simps)
      ultimately show ?thesis
        using False fresh assms(2,4) by (simp add: load_tcdm_def b(3) CL_TCDM_BASE_def)
    qed
  qed
qed

lemma external_memory_loaded:
  assumes "files prog = Some bytes"
  shows "\<exists>m. Ext_mem files 0 CL_L3_SIZE = Inr m \<and> mem_size m = CL_L3_SIZE \<and>
    (\<forall>j < unat CL_L3_SIZE. mem_bytes m j = (if j < length bytes then bytes ! j else 0))"
proof -
  have name: "''TargetMem_'' @ dec_digits (unat (0 :: u16) + 1) @ ''.mem'' = prog"
    by (simp add: prog_def char_of_def bit_0)
  let ?k = "min (unat CL_L3_SIZE) (length bytes)"
  have "read_file bytes 0 (unat CL_L3_SIZE) 0 (new_mem CL_L3_SIZE) = Inr ((new_mem CL_L3_SIZE)\<lparr>mem_bytes :=
      (\<lambda>j. if j < ?k then bytes ! j else 0)\<rparr>)"
    by (simp add: read_file_def new_mem_def fun_eq_iff)
  then show ?thesis
    unfolding Ext_mem_def name by (simp add: load_program_def assms EXIT_SUCCESS_def new_mem_def)
qed

lemma memories_hold_image:
  assumes "options_ok CLUSTERBUILD g" "files prog = Some bytes" "length bytes < 0x08080004"
    and "g_DRAM g \<or> g_DRAM_MC_PORTS g = 1"
    and "length bytes \<le> 0x08000000 \<or> rounds (tcdm_words (length bytes)) = (length bytes - 0x08060000) div 4"
  shows "\<exists>p. build_memories files rounds g = Inr p \<and> holds_image bytes g p"
proof -
  have "g_N_CL_BANKS g \<in> {16, 32, 64}" using assms(1) by (simp add: options_ok_def)
  from tcdm_loaded [where files = files and rounds = rounds, OF this assms(2,3,5)]
    external_memory_loaded [where files = files, OF assms(2)] assms(4) show ?thesis
    by (auto simp: build_memories_def holds_image_def)
qed

lemma memories_refuse_ports:
  assumes "options_ok CLUSTERBUILD g" "files prog = Some bytes" "length bytes < 0x08080004"
    and "\<not> g_DRAM g" "g_DRAM_MC_PORTS g \<noteq> 1"
    and "length bytes \<le> 0x08000000 \<or> rounds (tcdm_words (length bytes)) = (length bytes - 0x08060000) div 4"
  shows "build_memories files rounds g = Inl FAbort"
proof -
  have "g_N_CL_BANKS g \<in> {16, 32, 64}" using assms(1) by (simp add: options_ok_def)
  from tcdm_loaded [where files = files and rounds = rounds, OF this assms(2,3,6)] assms(4,5) show ?thesis
    by (auto simp: build_memories_def)
qed

text \<open>The shared platform counts its rounds without a sign: a bound below zero is a huge number.\<close>

lemma parsed_ok:
  assumes "options_ok CLUSTERBUILD g0" "parseArgs CLUSTERBUILD opts operands g0 = Inr g"
  shows "options_ok CLUSTERBUILD g \<and> g_CURRENT_ARCH g = SINGLE_CLUSTER"
proof -
  obtain g1 where g1: "each (parse_option CLUSTERBUILD) opts g0 = Inr g1" 
    "g = set_numbers (if g_CURRENT_ARCH g1 = SINGLE_CLUSTER then cluster_metrics g1 else g1)"
    using assms(2) by (auto simp: parseArgs_def Let_def split: if_split_asm)
  have "options_ok CLUSTERBUILD g1"
    by (rule each_invariant [OF g1(1), where P = "options_ok CLUSTERBUILD"]) (auto intro: assms(1) parse_option_ok)
  then show ?thesis
    unfolding g1(2) by (simp add: options_ok_def set_numbers_def cluster_metrics_def Let_def CLUSTERBUILD_def)
qed


text \<open>An image for the witness: zeros up to the segment, then one word.\<close>

definition demo_image :: "nat \<Rightarrow> u8 list" where
  "demo_image n = replicate n 0 @ [1, 2, 3, 4]"

lemma length_demo_image [simp]: "length (demo_image n) = n + 4"
  by (simp add: demo_image_def)

lemma demo_image_word: "image_word (demo_image n) n = 0x04030201"
  by (simp add: image_word_def word_at_def demo_image_def nth_append push_bit_eq_mult)

definition demo_files :: files where
  "demo_files f = (if f = prog then Some (demo_image 0x08060000) else None)"

lemma test_configuration:
  obtains g where "parseArgs CLUSTERBUILD test_options [] cmake_globals = Inr g"
    "g_CL_ICACHE_PRIV g" "g_N_CL_BANKS g = 32" "g_DRAM_MC_PORTS g = 1"
  by (simp add: parseArgs_def test_options_def long_option_def short_option_def take_number_def atoi16_def atoi_def
      set_intc_def arg_char_def isspace_def in_s32_def cmake_globals_def CLUSTERBUILD_def set_numbers_def cluster_metrics_def Let_def)


section \<open>The segment of the linker script is not the segment of the loader\<close>

text \<open>
  \<open>support/simulator/vsoc.ld\<close> places the data that programs declare \<open>LOCAL_SHARED\<close> at \<open>0x0803F000\<close>, in 4 KB; the
  loader looks for it from \<open>0x08060000\<close> on. An image of such a program ends before that.
\<close>

definition LINKED_END :: nat where "LINKED_END = 0x0803F000 + 0x1000"

lemma each_stops:
  assumes "k < n" "\<And>i s. i < k \<Longrightarrow> P s \<Longrightarrow> \<exists>s'. f i s = Inr s' \<and> P s'" "P s" "\<And>s. P s \<Longrightarrow> f k s = Inl e"
  shows "each f [0..<n] s = Inl e"
proof -
  have "\<exists>s'. each f [0..<j] s = Inr s' \<and> P s'" if "j \<le> k" for j
    using that
  proof (induction j)
    case (Suc j)
    then obtain s' where "each f [0..<j] s = Inr s'" "P s'" by auto
    then show ?case using assms(2) [of j s'] Suc.prems by (auto simp: each_append)
  qed (simp add: assms(3))
  then obtain s' where "each f [0..<k] s = Inr s'" "P s'" by auto
  moreover have "[0..<n] = [0..<k] @ k # [Suc k..<n]"
    using assms(1) upt_add_eq_append [of 0 k "n - k"] by (simp add: upt_conv_Cons)
  ultimately show ?thesis using assms(4) by (simp add: each_append)
qed

lemma negative_bound:
  assumes "1 \<le> k" "k \<le> 0x18000"
  shows "unat (word_of_int (- k) :: u32) = nat (4294967296 - k)"
proof -
  have "(- k) mod 4294967296 = 4294967296 - k"
    using assms by (simp add: zmod_zminus1_eq_if mod_pos_pos_trivial)
  then have "uint (word_of_int (- k) :: u32) = 4294967296 - k" by (simp only: uint_word_of_int) simp
  then show ?thesis by (simp only: nat_uint_eq [symmetric])
qed

lemma shr_load_undefined:
  assumes "files prog = Some bytes" "0x08000000 < length bytes" "length bytes \<le> 0x0805FFFC"
  shows "load_tcdm files shr_rounds n_banks t = Inl FUndef"
proof -
  let ?k = "int (0x08060000 - length bytes) div 4"
  have k: "1 \<le> ?k" "?k \<le> 0x18000" using assms(2,3) by linarith+
  have "shr_rounds (tcdm_words (length bytes)) = unat (word_of_int (- ?k) :: u32)"
    using assms(3) by (simp add: shr_rounds_def tcdm_words_eq)
  also have "\<dots> = nat (4294967296 - ?k)" using k by (intro negative_bound) linarith+
  finally have rounds: "0x20000000 < shr_rounds (tcdm_words (length bytes))" using k by linarith
  have "\<exists>s'. load_round files n_banks i (bc, t) = Inr s' \<and> snd s' = t" if "i < 0x20000000" for i bc
  proof -
    have "length bytes \<le> unat (CL_TCDM_BASE + CL_LOCAL_SHARED_OFFSET + of_nat i * CL_WORD)"
      using that assms(3) by (simp add: address_simps unat_word_ariths unat_of_nat)
    then show ?thesis
      using that assms by (simp add: load_round_def load_tcdm_init_data_def CL_TCDM_BASE_def read_file_nothing in_s32_def CL_WORD_def)
  qed
  moreover have "load_round files n_banks 0x20000000 (bc, t) = Inl FUndef" for bc
    using assms by (simp add: load_round_def load_tcdm_init_data_def CL_TCDM_BASE_def in_s32_def CL_WORD_def)
  ultimately have "each (load_round files n_banks) [0..<shr_rounds (tcdm_words (length bytes))] (0, t) = Inl FUndef"
    using each_stops [OF rounds, where P = "\<lambda>s. snd s = t" and f = "load_round files n_banks" and s = "(0, t)" and e = FUndef]
    by (metis prod.collapse snd_conv)
  then show ?thesis using assms(1,2) by (simp add: load_tcdm_def CL_TCDM_BASE_def)
qed

text \<open>C25: data that a program places in the local shared segment is lost. The linker script puts it before the
  addresses that the loader copies, so an image that ends with this data leaves the TCDM of a
  platform with private caches zero, and on a platform with a shared cache the loader does not
  come to an end: its number of rounds is negative, is taken for one close to four thousand million,
  and the offset into the file overflows.\<close>

theorem linked_data_lost:
  assumes "options_ok CLUSTERBUILD g0" "parseArgs CLUSTERBUILD opts operands g0 = Inr g"
    and "g_DRAM g \<or> g_DRAM_MC_PORTS g = 1"
    and "files prog = Some bytes" "unat CL_TCDM_BASE < length bytes" "length bytes \<le> LINKED_END"
  shows "if g_CL_ICACHE_PRIV g
    then \<exists>p. start_up files opts operands g0 = Inr (g, p) \<and>
      (\<forall>a. IsInTcdmSpace a 0 \<longrightarrow> tcdm_rd (ilog2 (unat (g_N_CL_BANKS g))) (p_tcdm p) a = Inr 0)
    else start_up files opts operands g0 = Inl FUndef"
proof -
  have ok: "options_ok CLUSTERBUILD g" "g_CURRENT_ARCH g = SINGLE_CLUSTER" using parsed_ok [OF assms(1,2)] by auto
  have size: "length bytes \<le> 0x08040000" "0x08000000 < length bytes"
    using assms(5,6) by (simp_all add: LINKED_END_def address_simps)
  then have "initial_word bytes a = 0" for a by (auto simp: initial_word_def address_simps)
  moreover have "\<exists>p. cl_platform_prv files g = Inr p \<and> holds_image bytes g p"
    using memories_hold_image [where files = files and rounds = prv_rounds, OF ok(1) assms(4) _ assms(3)]
      prv_rounds_eq [of "length bytes"] size by (simp add: cl_platform_prv_def)
  moreover have "cl_platform_shr files g = Inl FUndef"
    using shr_load_undefined [where files = files, OF assms(4)] size by (simp add: cl_platform_shr_def build_memories_def)
  ultimately show ?thesis using ok(2) assms(2) by (auto simp: start_up_def holds_image_def)
qed

definition linked_files :: files where
  "linked_files f = (if f = prog then Some (demo_image 0x0803F000) else None)"

theorem linked_data_lost_witness:
  "\<exists>g p. start_up linked_files test_options [] cmake_globals = Inr (g, p) \<and>
     tcdm_rd 5 (p_tcdm p) 0x0803F000 = Inr 0"
proof -
  obtain g where g: "parseArgs CLUSTERBUILD test_options [] cmake_globals = Inr g"
    "g_CL_ICACHE_PRIV g" "g_N_CL_BANKS g = 32" "g_DRAM_MC_PORTS g = 1" by (rule test_configuration)
  have content: "linked_files prog = Some (demo_image 0x0803F000)" by (simp add: linked_files_def)
  have "ilog2 (unat (g_N_CL_BANKS g)) = 5" using ilog2_2_power [of 5] by (simp add: g(3))
  then show ?thesis
    using linked_data_lost [where files = linked_files, OF cmake_globals_ok g(1) _ content] g
    by (auto simp: address_simps LINKED_END_def IsInTcdmSpace_def tile_base_def)
qed

end
