(* ===== verification/Slave_Timing.thy ===== *)
theory Slave_Timing
  imports Pinout
begin

text \<open>
  The thread \<open>working\<close> of the memory slave (\<open>virtualsoc/src/cluster/cl_memory.cpp\<close>) and of the
  semaphore slave (\<open>cl_semaphore.cpp\<close>), clock edge by clock edge: the wait states before the first
  beat (\<open>mem_in_ws\<close>) and between two beats (\<open>mem_bb_ws\<close>), the edge at which each beat touches the
  memory, and the signal \<open>ready\<close>. The two threads have the same shape and differ in the memory behind
  them, in the data of a write burst and in the width that a write passes on: the fields of \<open>slave_ops\<close>.
  The status, which the statistics read, is kept by the memory only.
\<close>

section \<open>The two slaves\<close>

record 'm slave_ops =
  s_rd :: "'m \<Rightarrow> addr \<Rightarrow> u8 \<Rightarrow> (u32 \<times> 'm) res"
  s_wr :: "'m \<Rightarrow> addr \<Rightarrow> u32 \<Rightarrow> u8 \<Rightarrow> 'm res"
  s_samples :: bool
  s_width :: "u8 \<Rightarrow> u8"

text \<open>The memory reads the bus again at every beat of a write.\<close>

definition clm_ops :: "cl_memory slave_ops" where
  "clm_ops = \<lparr>s_rd = (\<lambda>c a bw. res_map (\<lambda>v. (v, c)) (clm_Read c a bw)), s_wr = clm_Write,
     s_samples = True, s_width = (\<lambda>bw. bw)\<rparr>"

text \<open>The semaphores do not, and pass the member \<open>bw\<close> of the class, which is \<open>MEM_WORD\<close>, to \<open>Write\<close>.\<close>

definition sem_ops :: "u32 \<Rightarrow> mem_class slave_ops" where
  "sem_ops start = \<lparr>s_rd = cls_Read start, s_wr = cls_Write start, s_samples = False, s_width = (\<lambda>_. MEM_WORD)\<rparr>"

record wait_states =
  mem_in_ws :: nat
  mem_bb_ws :: nat

datatype clm_status = CLM_ST_INACTIVE | CLM_ST_READ | CLM_ST_WRITE

text \<open>Which \<open>wait()\<close> the thread is in: for a request, one of the initial ones (those that are left after
  it, the request), the one before beat \<open>i\<close> (with its address), one of those after the access of beat \<open>i\<close>,
  the last one.\<close>

datatype slave_pc = S_idle | S_in nat pinout | S_beat nat pinout addr | S_between nat nat pinout addr | S_last

record 'm slave =
  sl_mem :: 'm
  sl_ready :: bool
  sl_out :: pinout
  sl_data :: u32
  sl_status :: clm_status
  sl_pc :: slave_pc

definition burst_of :: "pinout \<Rightarrow> nat" where
  "burst_of p = nat (sint (p_burst p))"

definition beat_bytes :: "u32 \<Rightarrow> u32" where
  "beat_bytes bw = (if bw = 0 then 4 else if bw = 1 then 1 else 2)"

section \<open>The thread\<close>

definition to_beat :: "nat \<Rightarrow> pinout \<Rightarrow> addr \<Rightarrow> 'm slave \<Rightarrow> 'm slave" where
  "to_beat i p a s = s\<lparr>sl_pc := if i < burst_of p then S_beat i p a else S_last\<rparr>"

definition begin_beats :: "pinout \<Rightarrow> 'm slave \<Rightarrow> 'm slave" where
  "begin_beats p s = to_beat 0 p (p_address p) (s\<lparr>sl_status := if p_rw p then CLM_ST_WRITE else CLM_ST_READ\<rparr>)"

text \<open>A request is seen: the size field is checked, then come the initial waits.\<close>

definition slave_take :: "wait_states \<Rightarrow> pinout \<Rightarrow> 'm slave \<Rightarrow> 'm slave res" where
  "slave_take ws p s = res_map (\<lambda>_. case mem_in_ws ws of 0 \<Rightarrow> begin_beats p s | Suc k \<Rightarrow> s\<lparr>sl_pc := S_in k p\<rparr>)
     (get_word_size (p_bw p))"

text \<open>The access of a beat, with the value \<open>b\<close> that is on the bus.\<close>

definition beat_access :: "'m slave_ops \<Rightarrow> pinout \<Rightarrow> pinout \<Rightarrow> 'm \<Rightarrow> addr \<Rightarrow> (u32 \<times> 'm) res" where
  "beat_access ops p b m a =
     (if \<not> p_rw p then s_rd ops m a (ucast (p_bw p))
      else let v = p_data (if s_samples ops then b else p) in
        res_map (\<lambda>m'. (v, m')) (s_wr ops m a v (s_width ops (ucast (p_bw p)))))"

text \<open>The waits between two beats: a read waits \<open>mem_bb_ws\<close> times for one edge, a write
  \<open>mem_bb_ws\<close> times for \<open>mem_bb_ws\<close> edges.\<close>

definition between_waits :: "wait_states \<Rightarrow> pinout \<Rightarrow> nat" where
  "between_waits ws p = (if p_rw p then mem_bb_ws ws * mem_bb_ws ws else mem_bb_ws ws)"

definition end_beat :: "nat \<Rightarrow> pinout \<Rightarrow> addr \<Rightarrow> 'm slave \<Rightarrow> 'm slave" where
  "end_beat i p a s = to_beat (i + 1) p (a + beat_bytes (p_bw p))
     (s\<lparr>sl_ready := True, sl_out := if p_rw p then sl_out s else p\<lparr>p_data := sl_data s\<rparr>\<rparr>)"

definition slave_edge :: "'m slave_ops \<Rightarrow> wait_states \<Rightarrow> pinout \<Rightarrow> 'm slave \<Rightarrow> 'm slave res" where
  "slave_edge ops ws b s = (case sl_pc s of
     S_idle \<Rightarrow> Inr s
   | S_in 0 p \<Rightarrow> Inr (begin_beats p s)
   | S_in (Suc k) p \<Rightarrow> Inr (s\<lparr>sl_pc := S_in k p\<rparr>)
   | S_beat i p a \<Rightarrow> res_map (\<lambda>(v, m). let s = s\<lparr>sl_mem := m, sl_data := v, sl_ready := False\<rparr> in
       case (if i = 0 then 0 else between_waits ws p) of 0 \<Rightarrow> end_beat i p a s
       | Suc k \<Rightarrow> s\<lparr>sl_pc := S_between k i p a\<rparr>) (beat_access ops p b (sl_mem s) a)
   | S_between 0 i p a \<Rightarrow> Inr (end_beat i p a s)
   | S_between (Suc k) i p a \<Rightarrow> Inr (s\<lparr>sl_pc := S_between k i p a\<rparr>)
   | S_last \<Rightarrow> Inr (s\<lparr>sl_ready := False, sl_status := CLM_ST_INACTIVE, sl_pc := S_idle\<rparr>))"

text \<open>\<open>n\<close> clock edges from edge \<open>t\<close> on, with \<open>bus t\<close> the value on the bus at edge \<open>t\<close>: what the
  slave drives after each edge, and its state in the end.\<close>

fun slave_run :: "'m slave_ops \<Rightarrow> wait_states \<Rightarrow> (nat \<Rightarrow> pinout) \<Rightarrow> nat \<Rightarrow> nat \<Rightarrow> 'm slave \<Rightarrow> ((bool \<times> pinout) list \<times> 'm slave) res" where
  "slave_run ops ws bus t 0 s = Inr ([], s)"
| "slave_run ops ws bus t (Suc n) s = res_bind (slave_edge ops ws (bus t) s) (\<lambda>s'.
     res_map (\<lambda>(tr, s''). ((sl_ready s', sl_out s') # tr, s'')) (slave_run ops ws bus (Suc t) n s'))"

section \<open>A transaction\<close>

text \<open>The accesses of a burst, one for each value of the bus.\<close>

fun accesses :: "'m slave_ops \<Rightarrow> pinout \<Rightarrow> pinout list \<Rightarrow> 'm \<Rightarrow> addr \<Rightarrow> (u32 list \<times> 'm) res" where
  "accesses ops p [] m a = Inr ([], m)"
| "accesses ops p (b # bs) m a = res_bind (beat_access ops p b m a) (\<lambda>(v, m').
     res_map (\<lambda>(vs, m''). (v # vs, m'')) (accesses ops p bs m' (a + beat_bytes (p_bw p))))"

text \<open>The edge at which beat \<open>j\<close> touches the memory, and \<open>ready\<close> from the first edge to the last.\<close>

definition beat_edge :: "nat \<Rightarrow> nat \<Rightarrow> nat \<Rightarrow> nat" where
  "beat_edge ins w j = ins + j + (j - 1) * w"

definition ready_wave :: "nat \<Rightarrow> nat \<Rightarrow> nat \<Rightarrow> bool list" where
  "ready_wave ins w n = replicate ins False @
     concat (map (\<lambda>j. replicate (if j = 0 then 0 else w) False @ [True]) [0..<n]) @ [False]"

lemma slave_run_add:
  "slave_run ops ws bus t (m + n) s = res_bind (slave_run ops ws bus t m s) (\<lambda>(tr, s').
     res_map (\<lambda>(tr', s''). (tr @ tr', s'')) (slave_run ops ws bus (t + m) n s'))"
proof (induction m arbitrary: t s)
  case 0
  then show ?case by (cases "slave_run ops ws bus t n s") auto
next
  case (Suc m)
  show ?case
  proof (cases "slave_edge ops ws (bus t) s")
    case (Inr s')
    then show ?thesis
      by (cases "slave_run ops ws bus (Suc t) m s'")
        (auto simp: Suc split_beta, (case_tac "slave_run ops ws bus (Suc (t + m)) n b"; simp)?)
  qed simp
qed

lemma slave_run_waits:
  assumes "sl_pc s = S_between k i p a"
  shows "slave_run ops ws bus t (Suc k) s =
    Inr (replicate k (sl_ready s, sl_out s) @ [(True, sl_out (end_beat i p a s))], end_beat i p a s)"
  using assms
proof (induction k arbitrary: s t)
  case 0
  then show ?case by (simp add: slave_edge_def end_beat_def to_beat_def)
next
  case (Suc k)
  let ?s = "s\<lparr>sl_pc := S_between k i p a\<rparr>"
  have "end_beat i p a ?s = end_beat i p a s" by (simp add: end_beat_def to_beat_def)
  then show ?case using Suc.prems Suc.IH [of ?s "Suc t"] by (simp add: slave_edge_def)
qed

lemma end_beat_sel:
  "sl_mem (end_beat i p a s) = sl_mem s" "sl_ready (end_beat i p a s) = True"
  "sl_out (end_beat i p a s) = (if p_rw p then sl_out s else p\<lparr>p_data := sl_data s\<rparr>)"
  "sl_pc (end_beat i p a s) = (if i + 1 < burst_of p then S_beat (i + 1) p (a + beat_bytes (p_bw p)) else S_last)"
  by (simp_all add: end_beat_def to_beat_def)

text \<open>The waits of beat \<open>i\<close>, and one beat from the edge that touches the memory to the one that raises \<open>ready\<close>.\<close>

definition gap :: "nat \<Rightarrow> nat \<Rightarrow> nat" where
  "gap w i = (if i = 0 then 0 else w)"

lemma slave_run_beat:
  assumes "sl_pc s = S_beat i p a"
  shows "slave_run ops ws bus t (Suc (gap (between_waits ws p) i)) s =
    res_map (\<lambda>(v, m). let e = end_beat i p a (s\<lparr>sl_mem := m, sl_data := v, sl_ready := False\<rparr>) in
      (replicate (gap (between_waits ws p) i) (False, sl_out s) @ [(True, sl_out e)], e))
      (beat_access ops p (bus t) (sl_mem s) a)"
proof (cases "beat_access ops p (bus t) (sl_mem s) a")
  case (Inl e)
  then show ?thesis using assms by (simp add: slave_edge_def)
next
  case (Inr vm)
  obtain v m where vm: "vm = (v, m)" by (cases vm)
  let ?s = "s\<lparr>sl_mem := m, sl_data := v, sl_ready := False\<rparr>"
  show ?thesis
  proof (cases "gap (between_waits ws p) i")
    case 0
    then have "slave_edge ops ws (bus t) s = Inr (end_beat i p a ?s)"
      using assms Inr vm by (auto simp: slave_edge_def gap_def Let_def split: if_splits)
    then show ?thesis using 0 Inr vm by (simp add: end_beat_sel Let_def)
  next
    case (Suc k)
    let ?b = "?s\<lparr>sl_pc := S_between k i p a\<rparr>"
    have e: "slave_edge ops ws (bus t) s = Inr ?b"
      using Suc assms Inr vm by (auto simp: slave_edge_def gap_def Let_def split: if_splits)
    have "end_beat i p a ?b = end_beat i p a ?s" by (simp add: end_beat_def to_beat_def)
    then have "slave_run ops ws bus (Suc t) (Suc k) ?b =
        Inr (replicate k (False, sl_out s) @ [(True, sl_out (end_beat i p a ?s))], end_beat i p a ?s)"
      using slave_run_waits [of ?b k i p a] by simp
    then show ?thesis using Suc Inr vm by (subst slave_run.simps) (simp add: e Let_def del: slave_run.simps)
  qed
qed

text \<open>The edges of the beats \<open>i, i + 1, \<dots>\<close> when beat \<open>i\<close> comes at edge \<open>t\<close>, and the edges they take.\<close>

fun edges :: "nat \<Rightarrow> nat \<Rightarrow> nat \<Rightarrow> nat \<Rightarrow> nat list" where
  "edges w i t 0 = []"
| "edges w i t (Suc k) = t # edges w (Suc i) (t + Suc (gap w i)) k"

fun span :: "nat \<Rightarrow> nat \<Rightarrow> nat \<Rightarrow> nat" where
  "span w i 0 = 0"
| "span w i (Suc k) = Suc (gap w i) + span w (Suc i) k"

definition wave :: "nat \<Rightarrow> nat \<Rightarrow> nat \<Rightarrow> bool list" where
  "wave w i k = concat (map (\<lambda>j. replicate (gap w j) False @ [True]) [i..<i + k])"

lemma wave_Suc: "wave w i (Suc k) = replicate (gap w i) False @ True # wave w (Suc i) k"
  by (simp add: wave_def upt_conv_Cons del: upt_Suc)

lemma edges_later: "0 < i \<Longrightarrow> edges w i t k = map (\<lambda>j. t + j * Suc w) [0..<k]"
proof (induction k arbitrary: i t)
  case (Suc k)
  have "map (\<lambda>j. t + j * Suc w) [0..<Suc k] = t # map (\<lambda>j. t + Suc w + j * Suc w) [0..<k]"
    by (simp add: upt_conv_Cons map_Suc_upt [symmetric] del: upt_Suc)
  then show ?case using Suc by (simp add: gap_def)
qed simp

lemma edges_eq: "edges w 0 ins n = map (beat_edge ins w) [0..<n]"
proof (cases n)
  case (Suc k)
  have "map (beat_edge ins w) [0..<Suc k] = ins # map (\<lambda>j. beat_edge ins w (Suc j)) [0..<k]"
    by (simp add: upt_conv_Cons map_Suc_upt [symmetric] beat_edge_def del: upt_Suc)
  then show ?thesis using Suc by (simp add: edges_later gap_def beat_edge_def algebra_simps)
qed simp

lemma span_later: "0 < i \<Longrightarrow> span w i k = k * Suc w"
  by (induction k arbitrary: i) (simp_all add: gap_def)

lemma span_eq: "span w 0 n = n + (n - 1) * w"
  by (cases n) (simp_all add: span_later gap_def)

text \<open>The beats that are left of a burst.\<close>

lemma slave_run_burst:
  assumes "i + k = burst_of p" "sl_pc s = (if k = 0 then S_last else S_beat i p a)"
    and w: "w = between_waits ws p"
  shows "(case accesses ops p (map bus (edges w i t k)) (sl_mem s) a of
     Inl e \<Rightarrow> slave_run ops ws bus t (span w i k) s = Inl e
   | Inr (vs, m) \<Rightarrow> \<exists>tr s'. slave_run ops ws bus t (span w i k) s = Inr (tr, s') \<and> sl_pc s' = S_last \<and> sl_mem s' = m \<and>
       map fst tr = wave w i k \<and> (\<not> p_rw p \<longrightarrow> map (p_data \<circ> snd) (filter fst tr) = vs))"
  using assms(1,2)
proof (induction k arbitrary: i a s t)
  case 0
  then show ?case by (simp add: wave_def)
next
  case (Suc k)
  note beat = slave_run_beat [of s i p a ops ws bus t, folded w]
  have pc: "sl_pc s = S_beat i p a" using Suc.prems by simp
  show ?case
  proof (cases "beat_access ops p (bus t) (sl_mem s) a")
    case (Inl e)
    then show ?thesis using beat [OF pc] by (simp only: span.simps slave_run_add edges.simps) simp
  next
    case (Inr vm)
    obtain v m where vm: "vm = (v, m)" by (cases vm)
    let ?e = "end_beat i p a (s\<lparr>sl_mem := m, sl_data := v, sl_ready := False\<rparr>)"
    let ?a = "a + beat_bytes (p_bw p)" and ?t = "t + Suc (gap w i)"
    let ?pre = "replicate (gap w i) (False, sl_out s) @ [(True, sl_out ?e)]"
    have run: "slave_run ops ws bus t (span w i (Suc k)) s =
        res_map (\<lambda>(tr, s'). (?pre @ tr, s')) (slave_run ops ws bus ?t (span w (Suc i) k) ?e)"
      using beat [OF pc] Inr vm
      by (simp only: span.simps slave_run_add res_map.simps res_bind.simps prod.case Let_def)
    have "sl_pc ?e = (if k = 0 then S_last else S_beat (Suc i) p ?a)" and mem: "sl_mem ?e = m"
      using Suc.prems by (auto simp: end_beat_sel)
    then have IH: "case accesses ops p (map bus (edges w (Suc i) ?t k)) m ?a of
       Inl e \<Rightarrow> slave_run ops ws bus ?t (span w (Suc i) k) ?e = Inl e
     | Inr (vs, m) \<Rightarrow> \<exists>tr s'. slave_run ops ws bus ?t (span w (Suc i) k) ?e = Inr (tr, s') \<and> sl_pc s' = S_last \<and> sl_mem s' = m \<and>
         map fst tr = wave w (Suc i) k \<and> (\<not> p_rw p \<longrightarrow> map (p_data \<circ> snd) (filter fst tr) = vs)"
      using Suc.IH [of "Suc i" ?e ?a ?t] Suc.prems(1) by simp
    have acc: "accesses ops p (map bus (edges w i t (Suc k))) (sl_mem s) a =
        res_map (\<lambda>(vs, m''). (v # vs, m'')) (accesses ops p (map bus (edges w (Suc i) ?t k)) m ?a)"
      using Inr vm by simp
    show ?thesis
    proof (cases "accesses ops p (map bus (edges w (Suc i) ?t k)) m ?a")
      case (Inl e)
      then show ?thesis using IH unfolding acc run by simp
    next
      case (Inr vm2)
      obtain vs m2 where v2: "vm2 = (vs, m2)" by (cases vm2)
      obtain tr s' where "slave_run ops ws bus ?t (span w (Suc i) k) ?e = Inr (tr, s')" "sl_pc s' = S_last" "sl_mem s' = m2"
         "map fst tr = wave w (Suc i) k" "\<not> p_rw p \<longrightarrow> map (p_data \<circ> snd) (filter fst tr) = vs"
        using IH Inr v2 by auto
      then show ?thesis using Inr v2 unfolding acc run by (auto simp: wave_Suc end_beat_sel)
    qed
  qed
qed

text \<open>A whole transaction: the request \<open>p\<close> is taken, and \<open>T\<close> edges go by.\<close>

definition slave_serve :: "'m slave_ops \<Rightarrow> wait_states \<Rightarrow> (nat \<Rightarrow> pinout) \<Rightarrow> nat \<Rightarrow> pinout \<Rightarrow> 'm slave \<Rightarrow> ((bool \<times> pinout) list \<times> 'm slave) res" where
  "slave_serve ops ws bus T p s = res_bind (slave_take ws p s) (slave_run ops ws bus 0 T)"

definition burst_edges :: "wait_states \<Rightarrow> pinout \<Rightarrow> nat" where
  "burst_edges ws p = mem_in_ws ws + burst_of p + (burst_of p - 1) * between_waits ws p + 1"

lemma slave_run_initial:
  assumes "sl_pc s = S_in k p"
  shows "slave_run ops ws bus t (Suc k) s = Inr (replicate (Suc k) (sl_ready s, sl_out s), begin_beats p s)"
  using assms
proof (induction k arbitrary: s t)
  case 0
  then show ?case by (simp add: slave_edge_def begin_beats_def to_beat_def)
next
  case (Suc k)
  have "begin_beats p (s\<lparr>sl_pc := S_in k p\<rparr>) = begin_beats p s" by (simp add: begin_beats_def to_beat_def)
  then show ?case using Suc.prems Suc.IH [of "s\<lparr>sl_pc := S_in k p\<rparr>" "Suc t"] by (simp add: slave_edge_def)
qed

lemma slave_take_run:
  assumes "get_word_size (p_bw p) = Inr z"
  shows "res_bind (slave_take ws p s) (slave_run ops ws bus 0 (mem_in_ws ws)) =
    Inr (replicate (mem_in_ws ws) (sl_ready s, sl_out s), begin_beats p s)"
  using assms slave_run_initial [of "s\<lparr>sl_pc := S_in (mem_in_ws ws - 1) p\<rparr>" "mem_in_ws ws - 1" p ops ws bus 0]
  by (cases "mem_in_ws ws") (auto simp: slave_take_def begin_beats_def to_beat_def)

lemma begin_beats_sel:
  "sl_mem (begin_beats p s) = sl_mem s"
  "sl_pc (begin_beats p s) = (if burst_of p = 0 then S_last else S_beat 0 p (p_address p))"
  by (simp_all add: begin_beats_def to_beat_def)

lemma slave_serves:
  fixes ws :: wait_states
  assumes z: "get_word_size (p_bw p) = Inr z" and r: "\<not> sl_ready s"
  defines "w \<equiv> between_waits ws p" and "n \<equiv> burst_of p"
  shows "(case accesses ops p (map (\<lambda>j. bus (beat_edge (mem_in_ws ws) w j)) [0..<n]) (sl_mem s) (p_address p) of
     Inl e \<Rightarrow> slave_serve ops ws bus (burst_edges ws p) p s = Inl e
   | Inr (vs, m) \<Rightarrow> \<exists>tr s'. slave_serve ops ws bus (burst_edges ws p) p s = Inr (tr, s') \<and>
       sl_pc s' = S_idle \<and> sl_status s' = CLM_ST_INACTIVE \<and> \<not> sl_ready s' \<and> sl_mem s' = m \<and>
       map fst tr = ready_wave (mem_in_ws ws) w n \<and> (\<not> p_rw p \<longrightarrow> map (p_data \<circ> snd) (filter fst tr) = vs))"
proof -
  let ?ins = "mem_in_ws ws" and ?s = "begin_beats p s"
  let ?acc = "accesses ops p (map bus (edges w 0 ?ins n)) (sl_mem s) (p_address p)"
  have T: "burst_edges ws p = ?ins + (span w 0 n + 1)" by (simp add: burst_edges_def span_eq w_def n_def)
  have "slave_serve ops ws bus (burst_edges ws p) p s =
      res_bind (res_bind (slave_take ws p s) (slave_run ops ws bus 0 ?ins)) (\<lambda>(tr, s').
        res_map (\<lambda>(tr', s''). (tr @ tr', s'')) (slave_run ops ws bus ?ins (span w 0 n + 1) s'))"
    unfolding slave_serve_def T res_bind_assoc
    by (rule arg_cong [where f = "res_bind (slave_take ws p s)"])
      (rule ext, simp only: slave_run_add [of ops ws bus 0 ?ins] add_0)
  then have run: "slave_serve ops ws bus (burst_edges ws p) p s =
      res_map (\<lambda>(tr', s''). (replicate ?ins (False, sl_out s) @ tr', s''))
       (res_bind (slave_run ops ws bus ?ins (span w 0 n) ?s) (\<lambda>(tr, s').
          res_map (\<lambda>(tr', s''). (tr @ tr', s'')) (slave_run ops ws bus (?ins + span w 0 n) 1 s')))"
    using r by (simp only: slave_take_run [OF z] slave_run_add [of ops ws bus ?ins] res_bind.simps prod.case simp_thms)
  have b: "(case ?acc of
     Inl e \<Rightarrow> slave_run ops ws bus ?ins (span w 0 n) ?s = Inl e
   | Inr (vs, m) \<Rightarrow> \<exists>tr s'. slave_run ops ws bus ?ins (span w 0 n) ?s = Inr (tr, s') \<and> sl_pc s' = S_last \<and> sl_mem s' = m \<and>
       map fst tr = wave w 0 n \<and> (\<not> p_rw p \<longrightarrow> map (p_data \<circ> snd) (filter fst tr) = vs))"
    using slave_run_burst [of 0 n p ?s "p_address p" w ws ops bus ?ins]
    by (simp add: n_def w_def begin_beats_sel)
  have e: "map (\<lambda>j. bus (beat_edge ?ins w j)) [0..<n] = map bus (edges w 0 ?ins n)" by (simp add: edges_eq)
  show ?thesis
  proof (cases ?acc)
    case (Inl x)
    then show ?thesis using b unfolding e run by simp
  next
    case (Inr vm)
    obtain vs m where v: "vm = (vs, m)" by (cases vm)
    obtain tr s1 where t: "slave_run ops ws bus ?ins (span w 0 n) ?s = Inr (tr, s1)" "sl_pc s1 = S_last" "sl_mem s1 = m"
       "map fst tr = wave w 0 n" "\<not> p_rw p \<longrightarrow> map (p_data \<circ> snd) (filter fst tr) = vs"
      using b Inr v by auto
    then show ?thesis using Inr v unfolding e run
      by (auto simp: slave_edge_def ready_wave_def wave_def gap_def)
  qed
qed

text \<open>The accesses of the memory are the bursts of \<open>Mem_Class\<close>.\<close>

lemma beat_bytes_eq: "get_word_size bw = Inr z \<Longrightarrow> beat_bytes bw = z"
  by (auto simp: get_word_size_def beat_bytes_def split: if_splits)

lemma beat_size_eq: "get_word_size bw = Inr z \<Longrightarrow> beat_size (ucast bw) = Inr z"
  by (auto simp: get_word_size_def beat_size_def split: if_splits)

lemma clm_read_accesses:
  assumes "\<not> p_rw p" "beat_bytes (p_bw p) = z"
  shows "accesses clm_ops p bs c a = res_map (\<lambda>vs. (vs, c)) (clm_read_burst c a (ucast (p_bw p)) z (length bs))"
proof (induction bs arbitrary: a)
  case (Cons b bs)
  then show ?case using assms
    by (cases "clm_Read c a (ucast (p_bw p))"; cases "clm_read_burst c (a + z) (ucast (p_bw p)) z (length bs)")
      (simp_all add: beat_access_def clm_ops_def)
qed simp

lemma clm_write_accesses:
  assumes "p_rw p" "beat_bytes (p_bw p) = z"
  shows "accesses clm_ops p bs c a = res_map (\<lambda>c'. (map p_data bs, c')) (clm_write_burst c a (ucast (p_bw p)) z (map p_data bs))"
proof (induction bs arbitrary: a c)
  case (Cons b bs)
  show ?case
  proof (cases "clm_Write c a (p_data b) (ucast (p_bw p))")
    case (Inr c')
    then show ?thesis using assms Cons [of c' "a + z"]
      by (cases "clm_write_burst c' (a + z) (ucast (p_bw p)) z (map p_data bs)")
        (simp_all add: beat_access_def clm_ops_def)
  qed (use assms in \<open>simp add: beat_access_def clm_ops_def\<close>)
qed simp

section \<open>Bursts of the memory\<close>

text \<open>A read burst: the words of the memory, each for one cycle with \<open>ready\<close>, and the memory as it was.\<close>

lemma memory_slave_reads:
  assumes z: "get_word_size (p_bw p) = Inr z" and r: "\<not> sl_ready s" and rd: "\<not> p_rw p"
    and v: "clm_serve_read (sl_mem s) (p_address p) (ucast (p_bw p)) (burst_of p) = Inr vs"
  shows "\<exists>tr s'. slave_serve clm_ops ws bus (burst_edges ws p) p s = Inr (tr, s') \<and>
    sl_pc s' = S_idle \<and> sl_status s' = CLM_ST_INACTIVE \<and> \<not> sl_ready s' \<and> sl_mem s' = sl_mem s \<and>
    map fst tr = ready_wave (mem_in_ws ws) (mem_bb_ws ws) (burst_of p) \<and> map (p_data \<circ> snd) (filter fst tr) = vs"
proof -
  have "accesses clm_ops p bs (sl_mem s) (p_address p) = Inr (vs, sl_mem s)" if "length bs = burst_of p" for bs
    using v that clm_read_accesses [OF rd beat_bytes_eq [OF z], of bs "sl_mem s" "p_address p"]
    by (simp add: clm_serve_read_def beat_size_eq [OF z])
  then show ?thesis using slave_serves [where ops = clm_ops and bus = bus and ws = ws, OF z r] rd by (simp add: between_waits_def)
qed

text \<open>A write burst: the words that are on the bus at the edges of the beats.\<close>

lemma memory_slave_writes:
  assumes z: "get_word_size (p_bw p) = Inr z" and r: "\<not> sl_ready s" and wr: "p_rw p"
    and v: "clm_serve_write (sl_mem s) (p_address p) (ucast (p_bw p))
      (map (\<lambda>j. p_data (bus (beat_edge (mem_in_ws ws) (mem_bb_ws ws * mem_bb_ws ws) j))) [0..<burst_of p]) = Inr c'"
  shows "\<exists>tr s'. slave_serve clm_ops ws bus (burst_edges ws p) p s = Inr (tr, s') \<and>
    sl_pc s' = S_idle \<and> sl_status s' = CLM_ST_INACTIVE \<and> \<not> sl_ready s' \<and> sl_mem s' = c' \<and>
    map fst tr = ready_wave (mem_in_ws ws) (mem_bb_ws ws * mem_bb_ws ws) (burst_of p)"
proof -
  let ?bs = "map (\<lambda>j. bus (beat_edge (mem_in_ws ws) (mem_bb_ws ws * mem_bb_ws ws) j)) [0..<burst_of p]"
  have "accesses clm_ops p ?bs (sl_mem s) (p_address p) = Inr (map p_data ?bs, c')"
    using v clm_write_accesses [OF wr beat_bytes_eq [OF z], of ?bs "sl_mem s" "p_address p"]
    by (simp add: clm_serve_write_def beat_size_eq [OF z] comp_def)
  then show ?thesis using slave_serves [where ops = clm_ops and bus = bus and ws = ws, OF z r] wr by (simp add: between_waits_def)
qed

text \<open>C22: at every setting of the wait states, a burst of words that a private memory is
  given at the edges of its beats, and a burst that reads the same words afterwards, end at the
  edges that are counted here, with ready up for exactly one cycle per beat, and the second delivers the
  words of the first. Between two beats a read waits the configured number of cycles, a write its square.\<close>

theorem slave_burst_roundtrip:
  assumes mem: "is_private (sl_mem s)" "unat (a - START_ADDRESS (sl_mem s)) + 4 * n \<le> unat (mem_size (target_mem (sl_mem s)))"
    and p: "p_address p = a" "p_bw p = 0" "burst_of p = n" "p_rw p"
    and q: "p_address q = a" "p_bw q = 0" "burst_of q = n" "\<not> p_rw q"
    and r: "\<not> sl_ready s"
  shows "\<exists>tr s1 tr' s2. slave_serve clm_ops ws bus (mem_in_ws ws + n + (n - 1) * (mem_bb_ws ws)\<^sup>2 + 1) p s = Inr (tr, s1) \<and>
    slave_serve clm_ops ws bus' (mem_in_ws ws + n + (n - 1) * mem_bb_ws ws + 1) q s1 = Inr (tr', s2) \<and>
    sl_pc s1 = S_idle \<and> sl_pc s2 = S_idle \<and>
    map fst tr = ready_wave (mem_in_ws ws) ((mem_bb_ws ws)\<^sup>2) n \<and> map fst tr' = ready_wave (mem_in_ws ws) (mem_bb_ws ws) n \<and>
    map (p_data \<circ> snd) (filter fst tr') = map (\<lambda>j. p_data (bus (beat_edge (mem_in_ws ws) ((mem_bb_ws ws)\<^sup>2) j))) [0..<n]"
proof -
  let ?ds = "map (\<lambda>j. p_data (bus (beat_edge (mem_in_ws ws) (mem_bb_ws ws * mem_bb_ws ws) j))) [0..<n]"
  obtain c' where c': "clm_serve_write (sl_mem s) a MEM_WORD ?ds = Inr c'" "clm_serve_read c' a MEM_WORD n = Inr ?ds"
    using private_burst_roundtrip [of "sl_mem s" a ?ds] mem by auto
  obtain tr s1 where 1: "slave_serve clm_ops ws bus (burst_edges ws p) p s = Inr (tr, s1)" "sl_pc s1 = S_idle"
      "\<not> sl_ready s1" "sl_mem s1 = c'" "map fst tr = ready_wave (mem_in_ws ws) (mem_bb_ws ws * mem_bb_ws ws) n"
    using memory_slave_writes [where p = p and z = 4 and s = s and bus = bus and ws = ws and c' = c'] p r c'(1) by (auto simp: MEM_WORD_def simp del: map_map)
  obtain tr' s2 where 2: "slave_serve clm_ops ws bus' (burst_edges ws q) q s1 = Inr (tr', s2)" "sl_pc s2 = S_idle"
      "map fst tr' = ready_wave (mem_in_ws ws) (mem_bb_ws ws) n" "map (p_data \<circ> snd) (filter fst tr') = ?ds"
    using memory_slave_reads [where p = q and z = 4 and s = s1 and vs = ?ds and ws = ws and bus = bus'] q 1(3,4) c'(2) by (auto simp: MEM_WORD_def)
  show ?thesis using 1 2 p q by (simp add: burst_edges_def between_waits_def power2_eq_square)
qed

definition demo_slave :: "cl_memory slave" where
  "demo_slave = \<lparr>sl_mem = demo_memory, sl_ready = False, sl_out = new_pinout, sl_data = 0,
     sl_status = CLM_ST_INACTIVE, sl_pc = S_idle\<rparr>"

theorem slave_burst_roundtrip_witness:
  "\<exists>tr s1 tr' s2. slave_serve clm_ops \<lparr>mem_in_ws = 1, mem_bb_ws = 2\<rparr> (\<lambda>t. word_write 0 (of_nat t)) 8
      ((word_write 0x08000008 7)\<lparr>p_burst := 2\<rparr>) demo_slave = Inr (tr, s1) \<and>
    slave_serve clm_ops \<lparr>mem_in_ws = 1, mem_bb_ws = 2\<rparr> (\<lambda>_. new_pinout) 6
      ((word_read 0x08000008)\<lparr>p_burst := 2\<rparr>) s1 = Inr (tr', s2) \<and>
    map fst tr = [False, True, False, False, False, False, True, False] \<and> map (p_data \<circ> snd) (filter fst tr') = [1, 2]"
proof -
  let ?ws = "\<lparr>mem_in_ws = 1, mem_bb_ws = 2\<rparr>" and ?p = "(word_write 0x08000008 7)\<lparr>p_burst := 2\<rparr>"
    and ?q = "(word_read 0x08000008)\<lparr>p_burst := 2\<rparr>" and ?bus = "\<lambda>t. word_write 0 (of_nat t)"
  have "\<exists>tr s1 tr' s2. slave_serve clm_ops ?ws ?bus (1 + 2 + (2 - 1) * 2\<^sup>2 + 1) ?p demo_slave = Inr (tr, s1) \<and>
      slave_serve clm_ops ?ws (\<lambda>_. new_pinout) (1 + 2 + (2 - 1) * 2 + 1) ?q s1 = Inr (tr', s2) \<and>
      sl_pc s1 = S_idle \<and> sl_pc s2 = S_idle \<and> map fst tr = ready_wave 1 (2\<^sup>2) 2 \<and> map fst tr' = ready_wave 1 2 2 \<and>
      map (p_data \<circ> snd) (filter fst tr') = map (\<lambda>j. p_data (?bus (beat_edge 1 (2\<^sup>2) j))) [0..<2]"
    using slave_burst_roundtrip [where s = demo_slave and a = "0x08000008" and n = 2 and ws = ?ws and p = ?p
        and q = ?q and bus = ?bus and bus' = "\<lambda>_. new_pinout"]
    by (simp only: wait_states.simps) (simp add: burst_of_def demo_slave_def demo_memory_def new_mem_def word_write_def word_read_def)
  moreover have "1 + 2 + (2 - 1) * 2\<^sup>2 + 1 = (8 :: nat)" "1 + 2 + (2 - 1) * 2 + 1 = (6 :: nat)" by simp_all
  moreover have "ready_wave 1 (2\<^sup>2) 2 = [False, True, False, False, False, False, True, False]"
    by (simp add: ready_wave_def eval_nat_numeral)
  moreover have "map (\<lambda>j. p_data (?bus (beat_edge 1 (2\<^sup>2) j))) [0..<2] = [1, 2]"
    by (simp add: beat_edge_def eval_nat_numeral)
  ultimately show ?thesis by (simp only:) (elim exE conjE, intro exI conjI, assumption+)
qed

section \<open>The semaphores\<close>

text \<open>The data of a write burst to the semaphores after the first beat do not matter: the thread never
  looks at the bus again, so every word of the burst is the first. Whatever the width of the store, a
  whole word is written.\<close>

theorem semaphores_ignore_bus:
  "slave_serve (sem_ops start) ws bus T p s = slave_serve (sem_ops start) ws bus' T p s"
proof -
  have edge: "slave_edge (sem_ops start) ws b s = slave_edge (sem_ops start) ws b' s" for b b' s
    by (simp add: slave_edge_def beat_access_def sem_ops_def split: slave_pc.split)
  have "slave_run (sem_ops start) ws bus t n s = slave_run (sem_ops start) ws bus' t n s" for t n s
  proof (induction n arbitrary: t s)
    case (Suc n)
    have "slave_edge (sem_ops start) ws (bus t) s = slave_edge (sem_ops start) ws (bus' t) s" by (rule edge)
    then show ?case by (simp only: slave_run.simps Suc.IH)
  qed simp
  then have "slave_run (sem_ops start) ws bus 0 T = slave_run (sem_ops start) ws bus' 0 T" by blast
  then show ?thesis by (simp only: slave_serve_def)
qed

end
