(* ===== verification/Stats.thy ===== *)
theory Stats
  imports Core_Wrapper Slave_Timing
begin

text \<open>
  The statistics object (\<open>virtualsoc/src/core/stats.cpp\<close>, \<open>stats.h\<close>) and the energies it collects
  (\<open>power.cpp\<close>, \<open>power.h\<close>): which cores are measured, when the simulation ends, and which counter an
  access or a cycle is booked on. An energy is a sum of constants of \<open>power.h\<close>; kept is how often
  each constant has been added. An index that is outside its array is \<open>FUndef\<close>.
\<close>

section \<open>State\<close>

record stats_config = sim_config +
  N_TILE :: nat
  N_CL_BANKS :: nat
  POWERSTATS :: bool
  AUTOSTARTMEASURING :: bool

text \<open>What \<open>parser.cpp\<close> sets \<open>N_MEMORIES\<close> to: the banks of every tile and its external memory.\<close>

definition N_MEMORIES :: "stats_config \<Rightarrow> nat" where
  "N_MEMORIES cfg = N_TILE cfg * (N_CL_BANKS cfg + 1)"

datatype measure_status = READY_TO_MEASURE | IS_MEASURING | READY_TO_SHUTDOWN

record statistics =
  mem_access_r :: "nat \<Rightarrow> u64"
  mem_access_w :: "nat \<Rightarrow> u64"
  status :: "nat \<Rightarrow> measure_status"
  status_global :: measure_status
  readytoterm :: u16
  core_measuring :: u16
  start_time_crit :: "nat \<Rightarrow> int"
  total_time_crit :: "nat \<Rightarrow> int"
  global_start_time_crit :: int
  global_total_time_crit :: int
  halted :: bool  \<comment> \<open>\<open>sc_stop\<close> has been called\<close>
  e_cores :: "nat \<Rightarrow> core_st \<Rightarrow> nat"
  e_controller :: "nat \<Rightarrow> nat"
  e_caches :: "nat \<Rightarrow> nat \<Rightarrow> nat"
  e_cl_memory :: "nat \<Rightarrow> clm_status \<Rightarrow> nat"
  e_shared :: "nat \<Rightarrow> clm_status \<Rightarrow> nat"

text \<open>\<open>resetValues\<close>, the counters that a live operation uses; neither the status of the cores nor
  \<open>readytoterm\<close> nor the energies are among them.\<close>

definition resetValues :: "statistics \<Rightarrow> statistics" where
  "resetValues s = s\<lparr>mem_access_r := (\<lambda>_. 0), mem_access_w := (\<lambda>_. 0), total_time_crit := (\<lambda>_. 0),
     global_total_time_crit := 0, core_measuring := 0\<rparr>"

section \<open>Measuring and the end of the simulation\<close>

definition startMeasuring :: "stats_config \<Rightarrow> nat \<Rightarrow> nat \<Rightarrow> statistics \<Rightarrow> statistics res" where
  "startMeasuring cfg now ID s = res_bind (require (ID < N_CORES cfg) FUndef) (\<lambda>_.
     let s = (if status_global s = READY_TO_MEASURE then s\<lparr>global_start_time_crit := int now\<rparr> else s);
         s = s\<lparr>status_global := IS_MEASURING\<rparr>
     in if status s ID = READY_TO_MEASURE then
          Inr (s\<lparr>status := (status s)(ID := IS_MEASURING), core_measuring := core_measuring s + 1,
                 start_time_crit := (start_time_crit s)(ID := int now)\<rparr>)
        else if status s ID = IS_MEASURING \<and> AUTOSTARTMEASURING cfg then Inr s
        else if status s ID = READY_TO_SHUTDOWN then Inr s
        else Inl (FExit 1))"

definition stopMeasuring :: "stats_config \<Rightarrow> nat \<Rightarrow> nat \<Rightarrow> statistics \<Rightarrow> statistics res" where
  "stopMeasuring cfg now ID s = res_bind (require (ID < N_CORES cfg) FUndef) (\<lambda>_.
     let s = (if status_global s = IS_MEASURING
              then s\<lparr>global_total_time_crit := global_total_time_crit s + (int now - global_start_time_crit s)\<rparr> else s);
         s = s\<lparr>status_global := READY_TO_MEASURE\<rparr>
     in if status s ID = IS_MEASURING then
          Inr (s\<lparr>status := (status s)(ID := READY_TO_MEASURE), core_measuring := core_measuring s - 1,
                 total_time_crit := (total_time_crit s)(ID := total_time_crit s ID + (int now - start_time_crit s ID))\<rparr>)
        else if status s ID = READY_TO_SHUTDOWN then Inr s
        else Inl (FExit 1))"

text \<open>\<open>quit\<close>: a core that is being measured keeps its status.\<close>

definition quit :: "stats_config \<Rightarrow> nat \<Rightarrow> statistics \<Rightarrow> statistics res" where
  "quit cfg ID s = res_bind (require (ID < N_CORES cfg) FUndef) (\<lambda>_.
     if status s ID = READY_TO_MEASURE \<or> status s ID = IS_MEASURING then
       let s = (if status s ID = READY_TO_MEASURE then s\<lparr>status := (status s)(ID := READY_TO_SHUTDOWN)\<rparr> else s);
           s = s\<lparr>readytoterm := readytoterm s + 1\<rparr>
       in Inr (if unat (readytoterm s) = N_CORES cfg then s\<lparr>halted := True\<rparr> else s)
     else Inl (FExit 1))"

text \<open>The constructor at time 0.\<close>

definition blank_statistics :: statistics where
  "blank_statistics = \<lparr>mem_access_r = (\<lambda>_. 0), mem_access_w = (\<lambda>_. 0), status = (\<lambda>_. READY_TO_MEASURE),
     status_global = READY_TO_MEASURE, readytoterm = 0, core_measuring = 0, start_time_crit = (\<lambda>_. 0),
     total_time_crit = (\<lambda>_. 0), global_start_time_crit = 0, global_total_time_crit = 0, halted = False,
     e_cores = (\<lambda>_ _. 0), e_controller = (\<lambda>_. 0), e_caches = (\<lambda>_ _. 0), e_cl_memory = (\<lambda>_ _. 0),
     e_shared = (\<lambda>_ _. 0)\<rparr>"

definition new_statistics :: "stats_config \<Rightarrow> statistics res" where
  "new_statistics cfg = each (\<lambda>i s. let s = s\<lparr>status_global := READY_TO_MEASURE\<rparr> in
       if AUTOSTARTMEASURING cfg then startMeasuring cfg 0 i s else Inr s)
     [0..<N_CORES cfg] blank_statistics"

text \<open>A call of the simulation device (\<open>sim_support.cpp\<close>); the dumps only print.\<close>

fun stat_event :: "stats_config \<Rightarrow> nat \<Rightarrow> sim_event \<Rightarrow> statistics \<Rightarrow> statistics res" where
  "stat_event cfg now (Ev_start_measuring ID) s = startMeasuring cfg now ID s"
| "stat_event cfg now (Ev_stop_measuring ID) s = stopMeasuring cfg now ID s"
| "stat_event cfg now (Ev_quit ID) s = quit cfg ID s"
| "stat_event cfg now Ev_clear s = Inr (resetValues s)"
| "stat_event cfg now _ s = Inr s"

section \<open>Accesses and cycles\<close>

definition inspectMemoryAccess :: "stats_config \<Rightarrow> bool \<Rightarrow> nat \<Rightarrow> statistics \<Rightarrow> statistics res" where
  "inspectMemoryAccess cfg reading ID s =
     (if N_MEMORIES cfg - 1 < ID then Inl (FExit 255)
      else if reading then Inr (s\<lparr>mem_access_r := (mem_access_r s)(ID := mem_access_r s ID + 1)\<rparr>)
      else Inr (s\<lparr>mem_access_w := (mem_access_w s)(ID := mem_access_w s ID + 1)\<rparr>))"

definition IsMeasuring :: "nat \<Rightarrow> statistics \<Rightarrow> bool" where
  "IsMeasuring ID s \<longleftrightarrow> status s ID = IS_MEASURING"

text \<open>A cycle of core \<open>pid\<close> of tile \<open>tid\<close> in state \<open>c\<close>: the core, and for some cores the controller
  of the cluster.\<close>

definition inspectARMv6 :: "stats_config \<Rightarrow> nat \<Rightarrow> nat \<Rightarrow> core_st \<Rightarrow> statistics \<Rightarrow> statistics res" where
  "inspectARMv6 cfg pid tid c s =
     (if \<not> POWERSTATS cfg then Inr s
      else if N_CORES cfg \<le> pid then Inl FUndef
      else if \<not> IsMeasuring pid s then Inr s
      else let s = s\<lparr>e_cores := (e_cores s)(pid := (e_cores s pid)(c := e_cores s pid c + 1))\<rparr> in
        if pid mod N_CORES_TILE cfg \<noteq> 0 then
          if tid < N_TILE cfg then Inr (s\<lparr>e_controller := (e_controller s)(tid := e_controller s tid + 1)\<rparr>)
          else Inl FUndef
        else Inr s)"

text \<open>A cycle of instruction cache \<open>cid\<close> and of its tags: idle, read and write are 0, 1, 2; another
  state only prints a message.\<close>

definition inspectICache :: "stats_config \<Rightarrow> nat \<Rightarrow> nat \<Rightarrow> statistics \<Rightarrow> statistics res" where
  "inspectICache cfg cid c s =
     (if \<not> POWERSTATS cfg then Inr s
      else if N_CORES cfg \<le> cid then Inl FUndef
      else if \<not> IsMeasuring cid s then Inr s
      else if c \<le> 2 then Inr (s\<lparr>e_caches := (e_caches s)(cid := (e_caches s cid)(c := e_caches s cid c + 1))\<rparr>)
      else Inr s)"

definition inspectL2Memory :: "stats_config \<Rightarrow> nat \<Rightarrow> clm_status \<Rightarrow> statistics \<Rightarrow> statistics res" where
  "inspectL2Memory cfg k c s =
     (if \<not> POWERSTATS cfg then Inr s
      else if k < N_TILE cfg
      then Inr (s\<lparr>e_cl_memory := (e_cl_memory s)(k := (e_cl_memory s k)(c := e_cl_memory s k c + 1))\<rparr>)
      else Inl FUndef)"

definition inspectSharedMemory :: "stats_config \<Rightarrow> nat \<Rightarrow> clm_status \<Rightarrow> statistics \<Rightarrow> statistics res" where
  "inspectSharedMemory cfg k c s =
     (if \<not> POWERSTATS cfg then Inr s
      else if k < N_TILE cfg * N_CL_BANKS cfg
      then Inr (s\<lparr>e_shared := (e_shared s)(k := (e_shared s k)(c := e_shared s k c + 1))\<rparr>)
      else Inl FUndef)"

text \<open>\<open>cl_memory::clm_status\<close>, the thread of the memory with number \<open>ID\<close>, at a clock edge.\<close>

definition clm_status_edge :: "stats_config \<Rightarrow> nat \<Rightarrow> 'm slave \<Rightarrow> statistics \<Rightarrow> statistics res" where
  "clm_status_edge cfg ID sl s =
     (if ID < N_TILE cfg then inspectL2Memory cfg ID (sl_status sl) s
      else inspectSharedMemory cfg (ID - N_TILE cfg) (sl_status sl) s)"

section \<open>The end of the simulation\<close>

text \<open>Accesses of cores to the simulation device: the device answers, and the calls it makes reach the
  statistics object. An access is its time, the core, the offset and the datum, and whether it is a store.\<close>

definition device_access :: "stats_config \<Rightarrow> nat \<times> nat \<times> u32 \<times> u32 \<times> bool \<Rightarrow> sim_support \<times> statistics \<Rightarrow> (sim_support \<times> statistics) res" where
  "device_access cfg acc ss = (case (acc, ss) of ((now, ID, addr, data, wr), s, st) \<Rightarrow>
     res_bind (catch_sim_message (sim_config.truncate cfg) now addr data wr ID s) (\<lambda>(_, s').
     res_map (\<lambda>st'. (s', st')) (each (stat_event cfg now) (drop (length (sim_log s)) (sim_log s')) st)))"

text \<open>What an access adds to the log of the device, as far as shutting down is concerned.\<close>

definition no_quit :: "sim_event list \<Rightarrow> bool" where
  "no_quit es \<longleftrightarrow> (\<forall>i. Ev_quit i \<notin> set es)"

definition quiet :: "sim_support \<Rightarrow> sim_answer \<Rightarrow> bool" where
  "quiet s r \<longleftrightarrow> (\<forall>v s'. r = Some (Inr (v, s')) \<longrightarrow> (\<exists>es. sim_log s' = sim_log s @ es \<and> no_quit es))"

lemma quietI: "r = None \<or> (\<exists>e. r = Some (Inl e)) \<or> (\<exists>v s'. r = Some (Inr (v, s')) \<and> sim_log s' = sim_log s) \<Longrightarrow> quiet s r"
  by (auto simp: quiet_def no_quit_def)

lemma guarded_quiet:
  "quiet s (Some (read_only wr r)) = (wr \<or> quiet s (Some r))"
  "quiet s (Some (write_only wr r)) = (\<not> wr \<or> quiet s (Some r))"
  "quiet s None" "quiet s (Some (Inl e))" "sim_log s' = sim_log s \<Longrightarrow> quiet s (Some (Inr (v, s')))"
  by (auto simp: read_only_def write_only_def quiet_def no_quit_def)

lemma log_event_quiet: "\<forall>i. e \<noteq> Ev_quit i \<Longrightarrow> sim_log s' = sim_log s \<Longrightarrow> quiet s (Some (Inr (v, log_event e s')))"
  by (auto simp: quiet_def no_quit_def log_event_def)

lemma metric_log: "sim_log (start_cl_metric cfg now ID s) = sim_log s" "sim_log (stop_cl_metric cfg now ID s) = sim_log s"
  by (simp_all add: start_cl_metric_def stop_cl_metric_def Let_def)

lemma groups_quiet:
  "quiet s (sim_power cfg addr data ID s)" "quiet s (sim_metrics cfg now addr data ID s)"
  "quiet s (sim_ids cfg addr data wr ID s)" "quiet s (sim_time now addr data wr ID s)"
  "quiet s (sim_optimized now addr data wr ID s)" "quiet s (sim_cycle now addr data wr ID s)"
  "quiet s (sim_debug now addr data wr ID s)" "quiet s (sim_arguments cfg addr offset wr s)"
  "quiet s (sim_profile now addr data wr ID s)"
  "addr \<noteq> SHUTDOWN_ADDRESS \<Longrightarrow> quiet s (sim_stats addr data ID s)"
  by (simp_all add: sim_power_def sim_metrics_def sim_ids_def sim_time_def sim_optimized_def sim_cycle_def
      sim_debug_def sim_arguments_def sim_profile_def sim_stats_def Let_def guarded_quiet log_event_quiet metric_log)

lemma first_answer_quiet:
  assumes "\<forall>r\<in>set rs. quiet s r" "first_answer rs = Inr (v, s')"
  shows "\<exists>es. sim_log s' = sim_log s @ es \<and> no_quit es"
  using assms by (induction rs rule: first_answer.induct) (auto simp: quiet_def)

text \<open>Only an access to \<open>SHUTDOWN_ADDRESS\<close>, a load or a store, shuts the core down.\<close>

lemma device_log:
  assumes "catch_sim_message cfg now addr data wr ID s = Inr (v, s')"
  shows "\<exists>es. sim_log s' = sim_log s @ es \<and> ID < N_CORES cfg \<and> (if addr = SHUTDOWN_ADDRESS then es = [Ev_quit ID] else no_quit es)"
proof (cases "addr = SHUTDOWN_ADDRESS")
  case True
  then show ?thesis using assms
    by (auto simp: catch_sim_message_def sim_groups sim_addresses log_event_def split: if_splits)
next
  case False
  have ID: "ID < N_CORES cfg" using assms by (simp add: catch_sim_message_def)
  obtain a off where P: "(if ARGV_ADDRESS \<le> addr \<and> addr < ARGV_ADDRESS + 0x10000 then (ARGV_ADDRESS, addr - ARGV_ADDRESS)
        else if ENVP_ADDRESS \<le> addr \<and> addr < ENVP_ADDRESS + 0x10000 then (ENVP_ADDRESS, addr - ENVP_ADDRESS)
        else (addr, 0)) = (a, off)" by (meson surj_pair)
  then have a: "a \<noteq> SHUTDOWN_ADDRESS" using False by (auto simp: sim_addresses split: if_splits)
  have f: "first_answer [sim_power cfg a data ID s, sim_metrics cfg now a data ID s, sim_stats a data ID s,
        sim_ids cfg a data wr ID s, sim_time now a data wr ID s, sim_optimized now a data wr ID s,
        sim_cycle now a data wr ID s, sim_debug now a data wr ID s,
        sim_arguments cfg a off wr s, sim_profile now a data wr ID s] = Inr (v, s')"
    using assms ID unfolding catch_sim_message_def P by simp
  show ?thesis using False ID a first_answer_quiet [OF _ f] groups_quiet by simp
qed

text \<open>The cores that access \<open>SHUTDOWN_ADDRESS\<close>, in order.\<close>

definition shutdowns :: "(nat \<times> nat \<times> u32 \<times> u32 \<times> bool) list \<Rightarrow> nat list" where
  "shutdowns accs = map (\<lambda>(_, ID, _). ID) (filter (\<lambda>(_, _, addr, _). addr = SHUTDOWN_ADDRESS) accs)"

text \<open>Only \<open>quit\<close> counts the cores that have finished.\<close>

lemma stat_event_keeps:
  assumes "stat_event cfg now e st = Inr st'" "\<forall>i. e \<noteq> Ev_quit i"
  shows "readytoterm st' = readytoterm st \<and> halted st' = halted st"
  using assms by (cases e) (auto simp: startMeasuring_def stopMeasuring_def resetValues_def Let_def split: if_splits)

lemma stat_events_keep:
  assumes "each (stat_event cfg now) es st = Inr st'" "no_quit es"
  shows "readytoterm st' = readytoterm st \<and> halted st' = halted st"
  using assms
proof (induction es arbitrary: st)
  case (Cons e es)
  then obtain st1 where "stat_event cfg now e st = Inr st1" "each (stat_event cfg now) es st1 = Inr st'" by auto
  then show ?case using Cons stat_event_keeps [of cfg now e st st1] by (auto simp: no_quit_def)
qed simp

lemma quit_counts:
  assumes "quit cfg ID st = Inr st'"
  shows "readytoterm st' = readytoterm st + 1 \<and> (halted st' \<longleftrightarrow> halted st \<or> unat (readytoterm st + 1) = N_CORES cfg)"
  using assms by (auto simp: quit_def Let_def split: if_splits)

lemma device_access_counts:
  assumes "device_access cfg (now, ID, addr, data, wr) (s, st) = Inr (s', st')"
  shows "ID < N_CORES cfg \<and> (if addr = SHUTDOWN_ADDRESS
    then readytoterm st' = readytoterm st + 1 \<and> (halted st' \<longleftrightarrow> halted st \<or> unat (readytoterm st + 1) = N_CORES cfg)
    else readytoterm st' = readytoterm st \<and> halted st' = halted st)"
proof -
  obtain v where c: "catch_sim_message (sim_config.truncate cfg) now addr data wr ID s = Inr (v, s')"
    and e: "each (stat_event cfg now) (drop (length (sim_log s)) (sim_log s')) st = Inr st'"
    using assms by (auto simp: device_access_def)
  obtain es where es: "sim_log s' = sim_log s @ es" "ID < N_CORES cfg"
    "if addr = SHUTDOWN_ADDRESS then es = [Ev_quit ID] else no_quit es"
    using device_log [OF c] by (auto simp: sim_config.truncate_def)
  then show ?thesis using e quit_counts [of cfg ID st st'] stat_events_keep [of cfg now es st st']
    by (auto split: if_splits)
qed

lemma new_statistics_counts:
  assumes "new_statistics cfg = Inr st"
  shows "readytoterm st = 0 \<and> \<not> halted st"
proof -
  have "readytoterm st = readytoterm s \<and> halted st = halted s" if "each (\<lambda>i s. let s = s\<lparr>status_global := READY_TO_MEASURE\<rparr> in
       if AUTOSTARTMEASURING cfg then startMeasuring cfg 0 i s else Inr s) is s = Inr st" for "is" s
    using that by (induction "is" arbitrary: s) (fastforce simp: startMeasuring_def Let_def split: if_splits)+
  then show ?thesis using assms by (fastforce simp: new_statistics_def blank_statistics_def)
qed

text \<open>What a run has counted.\<close>

lemma run_cores:
  assumes "each (device_access cfg) accs (s, st) = Inr (s', st')"
  shows "set (shutdowns accs) \<subseteq> {..<N_CORES cfg}"
  using assms
proof (induction accs arbitrary: s st)
  case (Cons acc accs)
  obtain now ID addr data wr where acc: "acc = (now, ID, addr, data, wr)" by (cases acc)
  obtain s1 st1 where 1: "device_access cfg acc (s, st) = Inr (s1, st1)" "each (device_access cfg) accs (s1, st1) = Inr (s', st')"
    using Cons.prems(1) by auto
  have "ID < N_CORES cfg" using device_access_counts [OF 1(1) [unfolded acc]] by blast
  then show ?case using Cons.IH [OF 1(2)] acc by (auto simp: shutdowns_def)
qed (simp add: shutdowns_def)

lemma run_counts:
  assumes "each (device_access cfg) accs (s, st) = Inr (s', st')"
    and "readytoterm st = of_nat n" "halted st \<longleftrightarrow> N_CORES cfg \<le> n" "0 < N_CORES cfg" "n + length (shutdowns accs) < 65536"
  shows "halted st' \<longleftrightarrow> N_CORES cfg \<le> n + length (shutdowns accs)"
  using assms
proof (induction accs arbitrary: s st n)
  case Nil
  then show ?case by (simp add: shutdowns_def)
next
  case (Cons acc accs)
  obtain now ID addr data wr where acc: "acc = (now, ID, addr, data, wr)" by (cases acc)
  obtain s1 st1 where 1: "device_access cfg acc (s, st) = Inr (s1, st1)" "each (device_access cfg) accs (s1, st1) = Inr (s', st')"
    using Cons.prems(1) by auto
  note c = device_access_counts [OF 1(1) [unfolded acc]]
  show ?case
  proof (cases "addr = SHUTDOWN_ADDRESS")
    case True
    have "unat (of_nat (Suc n) :: u16) = Suc n" using Cons.prems(5) True acc
      by (simp add: unat_of_nat shutdowns_def del: of_nat_Suc)
    then have "halted st1 \<longleftrightarrow> N_CORES cfg \<le> Suc n" using c True Cons.prems(2,3) by (auto simp: add.commute)
    then show ?thesis using Cons.IH [of s1 st1 "Suc n"] 1(2) c True acc Cons.prems
      by (auto simp: shutdowns_def add.commute)
  next
    case False
    then show ?thesis using Cons.IH [of s1 st1 n] 1(2) c acc Cons.prems by (auto simp: shutdowns_def)
  qed
qed

text \<open>C21: whatever else the cores do with the simulation device, if no core shuts
  down twice then the simulation is stopped exactly when every core has shut down, and not before.\<close>

theorem simulation_stops_at_last_shutdown:
  assumes "new_statistics cfg = Inr st0" "each (device_access cfg) accs (s0, st0) = Inr (s, st)"
    and "distinct (shutdowns accs)" "0 < N_CORES cfg" "N_CORES cfg < 65536"
  shows "halted st \<longleftrightarrow> set (shutdowns accs) = {..<N_CORES cfg}"
proof -
  note new = new_statistics_counts [OF assms(1)]
  let ?q = "shutdowns accs"
  have len: "length ?q = card (set ?q)" using assms(3) by (simp add: distinct_card)
  have sub: "set ?q \<subseteq> {..<N_CORES cfg}" using run_cores [OF assms(2)] .
  then have le: "length ?q \<le> N_CORES cfg" using len card_mono [OF _ sub] by simp
  then have "halted st \<longleftrightarrow> N_CORES cfg \<le> length ?q"
    using run_counts [of cfg accs s0 st0 s st 0] assms(2,4,5) new by simp
  moreover have "N_CORES cfg \<le> length ?q \<longleftrightarrow> set ?q = {..<N_CORES cfg}"
  proof
    assume "N_CORES cfg \<le> length ?q"
    then have "card (set ?q) = card {..<N_CORES cfg}" using le len by simp
    then show "set ?q = {..<N_CORES cfg}" using card_subset_eq [OF _ sub] by blast
  qed (use len in simp)
  ultimately show ?thesis by blast
qed

lemma device_calls:
  assumes "ID < N_CORES cfg"
  shows "device_access cfg (now, ID, SHUTDOWN_ADDRESS, v, wr) (s, st) =
      res_map (\<lambda>st'. (log_event (Ev_quit ID) s, st')) (quit cfg ID st)"
    and "device_access cfg (now, ID, START_METRIC_ADDRESS, v, wr) (s, st) =
      res_map (\<lambda>st'. (log_event (Ev_start_measuring ID) s, st')) (startMeasuring cfg now ID st)"
    and "device_access cfg (now, ID, STOP_METRIC_ADDRESS, v, wr) (s, st) =
      res_map (\<lambda>st'. (log_event (Ev_stop_measuring ID) s, st')) (stopMeasuring cfg now ID st)"
    and "device_access cfg (now, ID, CLEAR_ADDRESS, v, wr) (s, st) = Inr (log_event Ev_clear s, resetValues st)"
proof -
  have one: "res_bind r (each (stat_event cfg now) []) = r" for r by (cases r) simp_all
  have c: "catch_sim_message (sim_config.truncate cfg) now a v wr ID s = Inr (v, log_event e s)"
    if "(a, e) \<in> {(SHUTDOWN_ADDRESS, Ev_quit ID), (START_METRIC_ADDRESS, Ev_start_measuring ID),
      (STOP_METRIC_ADDRESS, Ev_stop_measuring ID), (CLEAR_ADDRESS, Ev_clear)}" for a e
  proof -
    have a: "a \<in> {SHUTDOWN_ADDRESS, START_METRIC_ADDRESS, STOP_METRIC_ADDRESS, CLEAR_ADDRESS}" using that by auto
    then have lt: "a < ARGV_ADDRESS" by (auto simp: sim_addresses)
    have p: "sim_power (sim_config.truncate cfg) a v ID s = None" using a by (auto simp: sim_power_def sim_addresses)
    have m: "sim_metrics (sim_config.truncate cfg) now a v ID s = None" using a by (auto simp: sim_metrics_def sim_addresses)
    have e: "sim_stats a v ID s = Some (Inr (v, log_event e s))" using that by (auto simp: sim_stats_def sim_addresses)
    have "ID < N_CORES (sim_config.truncate cfg)" using assms by (simp add: sim_config.truncate_def)
    from catch_simple [OF this lt, of now v wr s] show ?thesis by (simp add: p m e)
  qed
  show "device_access cfg (now, ID, SHUTDOWN_ADDRESS, v, wr) (s, st) =
      res_map (\<lambda>st'. (log_event (Ev_quit ID) s, st')) (quit cfg ID st)"
    "device_access cfg (now, ID, START_METRIC_ADDRESS, v, wr) (s, st) =
      res_map (\<lambda>st'. (log_event (Ev_start_measuring ID) s, st')) (startMeasuring cfg now ID st)"
    "device_access cfg (now, ID, STOP_METRIC_ADDRESS, v, wr) (s, st) =
      res_map (\<lambda>st'. (log_event (Ev_stop_measuring ID) s, st')) (stopMeasuring cfg now ID st)"
    "device_access cfg (now, ID, CLEAR_ADDRESS, v, wr) (s, st) = Inr (log_event Ev_clear s, resetValues st)"
    using c [of SHUTDOWN_ADDRESS "Ev_quit ID"] c [of START_METRIC_ADDRESS "Ev_start_measuring ID"]
      c [of STOP_METRIC_ADDRESS "Ev_stop_measuring ID"] c [of CLEAR_ADDRESS Ev_clear]
    by (simp_all add: device_access_def log_event_def one)
qed

definition demo_stats_config :: stats_config where
  "demo_stats_config = \<lparr>N_CORES = 2, N_CORES_TILE = 2, N_SHR_CACHE_BANKS = 1, CL_ICACHE_PRIV = True, sim_argc = 0,
     sim_argv = (\<lambda>_. 0), sim_envp = (\<lambda>_. 0), N_TILE = 1, N_CL_BANKS = 4, POWERSTATS = False, AUTOSTARTMEASURING = False\<rparr>"

text \<open>Core 0 measures a part of its work; then both cores shut down.\<close>

definition demo_run :: "(nat \<times> nat \<times> u32 \<times> u32 \<times> bool) list" where
  "demo_run = [(10, 0, START_METRIC_ADDRESS, 1, True), (30, 0, STOP_METRIC_ADDRESS, 1, True),
     (40, 1, SHUTDOWN_ADDRESS, 1, True), (50, 0, SHUTDOWN_ADDRESS, 1, True)]"

lemma demo_runs: "\<exists>s' st. each (device_access demo_stats_config) demo_run (s, blank_statistics) = Inr (s', st)"
proof -
  have n: "N_CORES demo_stats_config = 2" by (simp add: demo_stats_config_def)
  have "status blank_statistics = (\<lambda>_. READY_TO_MEASURE)" by (simp add: blank_statistics_def)
  then show ?thesis by (simp add: demo_run_def device_calls n startMeasuring_def stopMeasuring_def quit_def Let_def)
qed

lemma demo_new: "new_statistics demo_stats_config = Inr blank_statistics"
  by (simp add: new_statistics_def demo_stats_config_def upt_rec blank_statistics_def)

theorem simulation_stops_at_last_shutdown_witness:
  "\<forall>s. \<exists>s' st. each (device_access demo_stats_config) demo_run (s, blank_statistics) = Inr (s', st) \<and> halted st"
proof
  fix s
  obtain s' st where r: "each (device_access demo_stats_config) demo_run (s, blank_statistics) = Inr (s', st)"
    using demo_runs by blast
  have "shutdowns demo_run = [1, 0]" by (simp add: demo_run_def shutdowns_def sim_addresses)
  moreover have "N_CORES demo_stats_config = 2" by (simp add: demo_stats_config_def)
  moreover have "{..<2} = {1, 0 :: nat}" by auto
  ultimately have "halted st" using simulation_stops_at_last_shutdown [OF demo_new r] by simp
  then show "\<exists>s' st. each (device_access demo_stats_config) demo_run (s, blank_statistics) = Inr (s', st) \<and> halted st"
    using r by blast
qed

text \<open>C23: a core that is not measured can shut down once, which counts it and takes its status away, and a
  second time is a fatal error. A core
  that is measured keeps its status when it shuts down, so it can do so again and again, and when it has done it
  as often as there are cores the simulation is stopped, whatever the other cores are doing.\<close>

theorem measured_core_stops_simulation:
  assumes "i < N_CORES cfg" "N_CORES cfg < 65536" "readytoterm st = 0" "\<not> halted st"
  shows "(status st i = READY_TO_MEASURE \<longrightarrow>
      (\<exists>s' st'. each (device_access cfg) [(now, i, SHUTDOWN_ADDRESS, v, True)] (s, st) = Inr (s', st') \<and>
        readytoterm st' = 1 \<and> status st' i \<noteq> READY_TO_MEASURE \<and> (halted st' \<longleftrightarrow> N_CORES cfg = 1)) \<and>
      each (device_access cfg)
      [(now, i, SHUTDOWN_ADDRESS, v, True), (later, i, SHUTDOWN_ADDRESS, v, True)] (s, st) = Inl (FExit 1)) \<and>
    (status st i = IS_MEASURING \<longrightarrow> (\<exists>s' st'. each (device_access cfg)
      (replicate (N_CORES cfg) (now, i, SHUTDOWN_ADDRESS, v, True)) (s, st) = Inr (s', st') \<and> halted st'))"
proof -
  let ?shut = "(now, i, SHUTDOWN_ADDRESS, v, True)"
  have run: "\<exists>s' st'. each (device_access cfg) (replicate n ?shut) (s, st) = Inr (s', st')"
    if "status st i = IS_MEASURING" for n s st
    using that
  proof (induction n arbitrary: s st)
    case (Suc n)
    then show ?case using assms(1) by (auto simp: device_calls quit_def Let_def)
  qed simp
  have "shutdowns (replicate n ?shut) = replicate n i" for n by (simp add: shutdowns_def)
  then have "halted st'" if "each (device_access cfg) (replicate (N_CORES cfg) ?shut) (s, st) = Inr (s', st')" for s' st'
    using run_counts [OF that, of 0] assms by simp
  then show ?thesis using run [of st "N_CORES cfg" s] assms(1,3,4)
    by (auto simp: device_calls quit_def Let_def)
qed

text \<open>Core 0 starts measuring and shuts down twice, while core 1 works on.\<close>

definition demo_measuring :: statistics where
  "demo_measuring = blank_statistics\<lparr>status := (\<lambda>i. if i = 0 then IS_MEASURING else READY_TO_MEASURE),
     status_global := IS_MEASURING, core_measuring := 1, start_time_crit := (\<lambda>i. if i = 0 then 10 else 0)\<rparr>"

theorem measured_core_stops_simulation_witness:
  "\<forall>s. (\<exists>s' st'. each (device_access demo_stats_config)
     [(20, 0, SHUTDOWN_ADDRESS, 1, True), (20, 0, SHUTDOWN_ADDRESS, 1, True)] (s, demo_measuring) = Inr (s', st') \<and> halted st') \<and>
   each (device_access demo_stats_config)
     [(20, 1, SHUTDOWN_ADDRESS, 1, True), (30, 1, SHUTDOWN_ADDRESS, 1, True)] (s, demo_measuring) = Inl (FExit 1)"
proof
  fix s
  have "0 < N_CORES demo_stats_config" "1 < N_CORES demo_stats_config" "N_CORES demo_stats_config < 65536"
    "readytoterm demo_measuring = 0" "\<not> halted demo_measuring" "status demo_measuring 0 = IS_MEASURING"
    "status demo_measuring 1 = READY_TO_MEASURE" "N_CORES demo_stats_config = Suc (Suc 0)"
    by (simp_all add: demo_stats_config_def demo_measuring_def blank_statistics_def)
  then show "(\<exists>s' st'. each (device_access demo_stats_config)
     [(20, 0, SHUTDOWN_ADDRESS, 1, True), (20, 0, SHUTDOWN_ADDRESS, 1, True)] (s, demo_measuring) = Inr (s', st') \<and> halted st') \<and>
   each (device_access demo_stats_config)
     [(20, 1, SHUTDOWN_ADDRESS, 1, True), (30, 1, SHUTDOWN_ADDRESS, 1, True)] (s, demo_measuring) = Inl (FExit 1)"
    using measured_core_stops_simulation [where i = 0 and cfg = demo_stats_config and st = demo_measuring and now = 20 and later = 30 and v = 1 and s = s]
      measured_core_stops_simulation [where i = 1 and cfg = demo_stats_config and st = demo_measuring and now = 20 and later = 30 and v = 1 and s = s]
    by (simp del: each.simps)
qed

section \<open>Counters\<close>

text \<open>Clearing the statistics forgets how many cores are measured, not which: the next stop takes one
  from zero.\<close>

lemma clear_while_measuring:
  assumes "ID < N_CORES cfg" "status st ID = IS_MEASURING"
  shows "\<exists>st'. stopMeasuring cfg now ID (resetValues st) = Inr st' \<and> core_measuring st' = 65535 \<and>
    total_time_crit st' ID = int now - start_time_crit st ID"
  using assms by (simp add: stopMeasuring_def resetValues_def Let_def)

text \<open>On a platform with one cluster no call leaves its array: the memories are numbered from 0, the
  external memory, to the number of banks.\<close>

theorem statistics_in_bounds:
  assumes "N_TILE cfg = 1" "ID \<le> N_CL_BANKS cfg" "pid < N_CORES cfg"
  shows "(\<exists>st'. inspectMemoryAccess cfg reading ID st = Inr st') \<and> (\<exists>st'. clm_status_edge cfg ID sl st = Inr st') \<and>
    (\<exists>st'. inspectARMv6 cfg pid 0 c st = Inr st') \<and> (\<exists>st'. inspectICache cfg pid k st = Inr st')"
  using assms
  by (auto simp: inspectMemoryAccess_def N_MEMORIES_def clm_status_edge_def inspectL2Memory_def inspectSharedMemory_def
      inspectARMv6_def inspectICache_def Let_def)

text \<open>The controller of a cluster, which is to be counted once per cycle, at the first core of the cluster,
  is counted at every other core: in a cycle that inspects the measured cores \<open>0 \<dots> n - 1\<close> of a cluster of that
  size \<open>n - 1\<close> times, and never in a cluster of one core.\<close>

lemma controller_counts:
  assumes "POWERSTATS cfg" "N_CORES_TILE cfg = n" "n \<le> N_CORES cfg" "0 < N_TILE cfg" "\<forall>i<n. IsMeasuring i st" "m \<le> n" "0 < m"
  shows "\<exists>st'. each (\<lambda>i. inspectARMv6 cfg i 0 CS_ACTIVE) [0..<m] st = Inr st' \<and> status st' = status st \<and>
    e_controller st' 0 = e_controller st 0 + (m - 1)"
  using assms(6,7)
proof (induction m)
  case (Suc m)
  show ?case
  proof (cases "m = 0")
    case True
    then show ?thesis using assms by (auto simp: inspectARMv6_def IsMeasuring_def Let_def)
  next
    case False
    then obtain st1 where 1: "each (\<lambda>i. inspectARMv6 cfg i 0 CS_ACTIVE) [0..<m] st = Inr st1" "status st1 = status st"
      "e_controller st1 0 = e_controller st 0 + (m - 1)" using Suc by auto
    have "m mod n = m" "m < n" using Suc.prems by simp_all
    then have "\<exists>st2. inspectARMv6 cfg m 0 CS_ACTIVE st1 = Inr st2 \<and> status st2 = status st1 \<and>
        e_controller st2 0 = e_controller st1 0 + 1"
      using 1(2) False assms(1-5) by (simp add: inspectARMv6_def IsMeasuring_def Let_def)
    then obtain st2 where 2: "inspectARMv6 cfg m 0 CS_ACTIVE st1 = Inr st2" "status st2 = status st1"
        "e_controller st2 0 = e_controller st1 0 + 1" by blast
    have "each (\<lambda>i. inspectARMv6 cfg i 0 CS_ACTIVE) [0..<Suc m] st = Inr st2" using 1(1) 2(1) by (simp add: each_append)
    then show ?thesis using 1 2 False by auto
  qed
qed simp

end
