(* ===== verification/Spec2Isabelle.thy ===== *)
theory Spec2Isabelle
  imports Prelude Ring Address_Map Mem_Class Gomp_State Gomp_Lock Gomp_Mem Gomp_Work
    Gomp_Barrier Gomp_Team Gomp_Main Gomp_Run Pinout Fir_App Fir_Hw Accelerator Acc_Timing Acc_App Sim_Support Core_Wrapper Dma Cache Hws
    Xbar Tcdm Dram Shared_Xbar Miss_Mux Cru Command_Line Platform
    Slave_Timing Stats
begin

text \<open>
  A verification development of VirtualSoC, a SystemC model of a cluster of ARM cores, and of the software
  that runs on it. Paths are relative to \<open>src/\<close>.

  \<^bold>\<open>The program.\<close> A cluster (\<open>virtualsoc/include/virtualsoc/cluster/cl_platform_prv.h\<close>, \<open>cl_platform_shr.h\<close>)
  has up to 16 cores, simulated by a third-party library. The data accesses of a core go through a
  demultiplexer either to the local interconnect and the banks of the shared memory (TCDM) or to the
  peripheral interconnect and, behind it, the external memory, the semaphores, the hardware synchronizer,
  the DMA engine, a counter and a FIR accelerator; its instructions come from a private or a shared cache.
  Programs use an OpenMP runtime (\<open>virtualsoc-apps/libgomp\<close>), drivers for the devices
  (\<open>virtualsoc-apps/support/simulator\<close>) and, as applications, a WCDMA receiver in software and with the accelerator.

  \<^bold>\<open>Theories and sources.\<close>
  \<^item> \<open>Prelude\<close>: machine integers as words, failures as values of \<open>fault\<close> (\<open>exit\<close>, \<open>abort\<close>, a busy wait that cannot
    end, undefined behaviour), the sequencing of fallible operations. \<open>Ring\<close>: the round robin that the
    interconnects share, with the locale \<open>ring_arbiter\<close> and its fairness.
  \<^item> \<open>Address_Map\<close>: \<open>core/config.h\<close>, \<open>core/address.cpp\<close>, \<open>cl_1st_stage_demux.cpp\<close>. \<open>Pinout\<close>: \<open>core/PINOUT.h\<close>.
  \<^item> \<open>Mem_Class\<close>: \<open>core/mem_class.h\<close>, \<open>cl_memory.cpp\<close>, \<open>cl_semaphore.cpp\<close>, with the locales \<open>word_memory\<close> (a memory of
    words, interpreted by every memory of the development) and \<open>tas_memory\<close> (a memory whose reads test and set).
    \<open>Slave_Timing\<close>: the threads of \<open>cl_memory.cpp\<close> and \<open>cl_semaphore.cpp\<close> at every clock edge, with their wait states.
  \<^item> \<open>Xbar\<close>: \<open>cl_lic.cpp\<close>, \<open>cl_pic.cpp\<close>. \<open>Tcdm\<close>: the banks as \<open>cl_platform_prv.h\<close> builds them, behind \<open>cl_lic\<close>.
    \<open>Dram\<close>: \<open>cl_DRAM-memory-mp.cpp\<close>, \<open>cl_L3_mux_NM.cpp\<close>. \<open>Shared_Xbar\<close>: \<open>cl_xbar_sharedI.cpp\<close>. \<open>Miss_Mux\<close>:
    \<open>cl_miss_mux.cpp\<close>. \<open>Cru\<close>: \<open>cl_cru.cpp\<close>. \<open>Cache\<close>: \<open>core/cache_*.cpp\<close>.
  \<^item> \<open>Command_Line\<close>: \<open>core/parser.cpp\<close>, \<open>core/globals.cpp\<close>. \<open>Platform\<close>: \<open>core/mem_class.cpp\<close> (the loaders), \<open>Ext_mem\<close> of
    \<open>core/ext_mem.h\<close>, the memories of \<open>cl_platform_prv.h\<close> and \<open>cl_platform_shr.h\<close>, \<open>core/main.cpp\<close> up to the platform.
  \<^item> \<open>Dma\<close>: \<open>cl_dma.cpp\<close>, \<open>dmasupport.c\<close>. \<open>Hws\<close>: \<open>cl_hws.cpp\<close>, \<open>hws_support.c\<close>, \<open>bar_hws.c\<close>. \<open>Sim_Support\<close>:
    \<open>core/sim_support.cpp\<close>, \<open>appsupport.c\<close>. \<open>Core_Wrapper\<close>: the bus wrapper that the project put between a core of the
    ARM simulator and the buses (\<open>wrapper_arm11\<close> of \<open>processors/mmu.hpp\<close>, \<open>mmu.tpp\<close>). \<open>Acc_Timing\<close>: the three threads of \<open>cl_acc.cpp\<close> clock edge by clock edge, for both builds. \<open>Accelerator\<close>: the
    data of \<open>cl_acc.h\<close>, a request as one step as a program sees the plain build (\<open>settled_store\<close>, \<open>settled_load\<close> and
    \<open>settled_control\<close> of \<open>Acc_Timing\<close> prove it), the drivers and \<open>cl_counter.cpp\<close>.
    \<open>Fir_Hw\<close>: \<open>fir/include/fir\<close>.
  \<^item> \<open>Stats\<close>: \<open>core/stats.cpp\<close>, the calls of the simulation device, of the memories and of the cores.
  \<^item> \<open>Gomp_State\<close>, \<open>Gomp_Lock\<close>, \<open>Gomp_Mem\<close>, \<open>Gomp_Work\<close>, \<open>Gomp_Barrier\<close>, \<open>Gomp_Team\<close>, \<open>Gomp_Main\<close>: \<open>libgomp\<close>, file by file.
    \<open>Gomp_Run\<close>: a whole program of parallel regions, the master interleaved with the worker loops of \<open>libgomp.c\<close>.
  \<^item> \<open>Fir_App\<close>: \<open>virtualsoc-apps/wcdma\<close>. \<open>Acc_App\<close>: \<open>wcdma_hw\<close>, \<open>hw_acceleration_test\<close>.

  \<^bold>\<open>How code becomes definitions.\<close> A class or a struct is a record, an operation a function from the state to a
  result (\<open>fault + value\<close>) with every early return as a branch. Integers keep their width where it matters
  (\<open>u8\<close>, \<open>u16\<close>, \<open>u32\<close> wrap around). A SystemC method that runs at a clock edge is one function of the state at
  that edge; a signal written there is visible at the next delta cycle, which is why some functions take
  the old state beside the new one. A thread with waits is cut at its waits: one function per transaction
  (\<open>lic_fsm\<close>, \<open>l3_fsm\<close>, \<open>transfer\<close>) or per beat (\<open>hit_beat\<close>, \<open>miss_beat\<close>). Interleavings are step relations, with
  invariants by rule induction: \<open>bar_step\<close> for the software barrier, \<open>run_step\<close> for the runtime, \<open>lic_reach\<close> and \<open>l3_reach\<close> for the cores at an
  interconnect, \<open>cru_reach\<close> for the refill unit, \<open>wrapper_step\<close> and \<open>core_step\<close> for the processes between a core and its buses. Slaves behind a port are parameters with a read and a write.
  A busy wait runs once; if its condition does not hold the result is \<open>FSpin\<close>, so a theorem that an operation
  returns says that it does not wait for ever when nothing else runs.

  \<^bold>\<open>What the theorems show.\<close>
  \<^item> The runtime: locks exclude each other; the barrier separates the rounds of a team and does not
    deadlock; dynamic loops and sections are handed out completely and once, and asking for pieces ends
    (\<open>drain_loop\<close>, a partial function whose value exists); a team is set up and taken down; blocks of the
    heap are disjoint; start-up establishes the state that the other parts assume, once \<open>locks\<close> and \<open>next_lock_lock\<close>
    hold their initial values (\<open>linked_state\<close>); on a machine out of reset, where nothing has set
    them, it spins for ever unless the word at address 0 is 0. A whole program of parallel
    regions is executed region by region, every share once and by its team, and every run of it ends with all
    processors behind their loops (\<open>fork_join_runs_program\<close>, \<open>runs_end\<close>).
  \<^item> The core: its loads and stores act at once and in program order (\<open>core_accesses_atomic\<close>), and it fetches only
    when it is awake.
  \<^item> The memory system: no address belongs to two slaves; the peripheral interconnect reaches the slave that
    is wired (on the platform with private caches); a request at the local interconnect is served once,
    by its bank, with its own data, and the hand-over is fair; with the banks behind it the TCDM is one
    shared memory of bytes, each completed request of a word, half word or byte acting on it at once; the multiplexer of the external memory serves
    every request once, to its own core.
  \<^item> Time and the end: a burst at a memory ends at the edge that is computed, at every setting of the wait states;
    the simulation stops when the last core shuts down, if no core does so twice.
  \<^item> The start: every command line is refused or leaves a configuration in the ranges that the parser tests, and with
    it every image that fits is in the memories, each word where the interconnect finds it, unless the simulator aborts because
    several ports are asked for without the DRAM.
  \<^item> The caches: the cache returns the words of the memory for the storages and policies of
    \<open>cache_refines_memory\<close>, and its replacement is least recently used; an undisturbed fetch through the
    refill unit gets the words of memory.
  \<^item> The devices: the DMA engine copies what its driver asks for and its tables stay well-formed; the
    hardware barrier of the synchronizer works, and no event has two owners; the accelerator keeps its two channels
    apart and its FIR pipeline computes the filter of the software.
  \<^item> The errors the code makes, as theorems about the same definitions: test-and-set over the local
    interconnect is not exclusive, a write burst to the DRAM repeats its first word, a burst is handed over
    with the length of the one before, a hit in the refill unit can be overwritten, the data that the
    linker script places in the shared memory is never loaded, a core that sleeps until the DMA wakes it
    never wakes up, a word that follows another too closely is lost by the
    accelerator, a read takes the width of another core's read of the same address, a core that is measured can stop the simulation alone, and others that the findings of the manifest list.

  \<^bold>\<open>Bounds.\<close> The address theorems hold for the eight tiles that 32 bits can name; \<open>tcdm_is_shared_memory\<close> for up to
  \<open>2 ^ 25\<close> banks (\<open>2 ^ 17\<close> fill the TCDM with banks of one word); the fairness of \<open>cl_miss_mux\<close> for up to 255 banks, since
  its counter has eight bits. A run of the runtime is for the 16 processors that the flags of the barrier have room for,
  and as many regions as the heap has descriptors for; a region starts no region of its own there. Cores and banks are otherwise any number. No definition uses fuel.

  \<^bold>\<open>Memory of the runtime.\<close> The variables that the linker script puts in the shared memory (\<open>locks\<close>, \<open>next_lock_lock\<close>, the
  heap handlers) and the stacks of the cores are fields of the state or left out, so they are apart from the heap; in the
  program they lie inside the range that \<open>shmalloc\<close> may hand out (\<open>memutils.c:37\<close> against \<open>vsoc.ld\<close>).

  \<^bold>\<open>Not modelled.\<close> Third-party code (SystemC, the ARM simulator but for the bus wrapper, DRAMSim2): a parameter where the code depends on
  it. The files of the host and the splitting of the command line by \<open>getopt_long\<close> are parameters. Wait states and delays, except those of the memories (\<open>Slave_Timing\<close>) and where a program can read them
  (the simulation support device, the table of misses). The counters of the statistics that no module calls, and the reports. Construction and wiring, apart from the memories (\<open>Platform\<close>) and the
  ports that \<open>Xbar\<close> uses. The texts that are printed. \<open>cl_NI_mux\<close> and \<open>cl_sync_handler\<close>, which no platform
  builds. \<open>libgomp/env.c\<close>, whose variables are defined nowhere, and \<open>boot.c\<close>. The programs \<open>wcdma_omp\<close> (its receiver is commented out) and
  \<open>wcdma_hw_para\<close> (it does not compile: \<open>SET_LOCK\<close> is defined nowhere).
\<close>

end
